(* ===== verification/Prelude.thy ===== *)
theory Prelude
  imports Main "HOL-Library.AList"
begin

text \<open>
  Shared vocabulary of the development: the domain's \<open>Result\<close> convention
  (\<^verbatim>\<open>src/domain/foundation/result.ts\<close>), the JavaScript values the sources rely on
  (insertion-ordered \<open>Map\<close>, safe integers, optional fields), and the generic lemmas on
  association lists and sums that every component proof uses.

  A JavaScript \<open>Map\<close> is an association list with distinct keys. \<open>Map.set\<close> overwrites in
  place or appends at the end, \<open>Map.delete\<close> removes the entry, and iteration follows the
  list, which is the insertion order the language prescribes.
\<close>

named_theorems js_simps \<open>rewrite rules for JavaScript maps\<close>

section \<open>Results\<close>

datatype ('a, 'e) result = Ok 'a | Err 'e

primrec is_ok :: "('a, 'e) result \<Rightarrow> bool" where
  "is_ok (Ok _) = True"
| "is_ok (Err _) = False"

section \<open>Numbers\<close>

text \<open>
  The sources guard every integer with \<open>Number.isSafeInteger\<close>. A JavaScript number is
  either a mathematical integer or something that test refuses whatever it is (a fraction,
  an infinity, \<open>NaN\<close>).
\<close>

datatype js_number = JInt int | JNonInt

definition MAX_SAFE_INTEGER :: int where
  "MAX_SAFE_INTEGER = 9007199254740991"

definition is_safe_int :: "int \<Rightarrow> bool" where
  "is_safe_int n \<longleftrightarrow> - MAX_SAFE_INTEGER \<le> n \<and> n \<le> MAX_SAFE_INTEGER"

fun isSafeInteger :: "js_number \<Rightarrow> bool" where
  "isSafeInteger (JInt n) = is_safe_int n"
| "isSafeInteger JNonInt = False"

text \<open>An optional field of a partial record: absent, \<open>null\<close>, or a number.\<close>

datatype js_slot = Undefined | Null | Num js_number

text \<open>\<open>slot ?? null\<close>, for a slot that validation has already admitted.\<close>

fun slot_int :: "js_slot \<Rightarrow> int option" where
  "slot_int (Num (JInt n)) = Some n"
| "slot_int _ = None"

text \<open>A number in a template literal: its decimal digits.\<close>

fun decimal :: "nat \<Rightarrow> string" where
  "decimal n = (if n < 10 then [char_of (48 + n)] else decimal (n div 10) @ [char_of (48 + n mod 10)])"

declare decimal.simps [simp del]

section \<open>JavaScript maps\<close>

type_synonym ('k, 'v) js_map = "('k \<times> 'v) list"

abbreviation js_get :: "('k, 'v) js_map \<Rightarrow> 'k \<Rightarrow> 'v option" where
  "js_get m k \<equiv> map_of m k"

abbreviation js_has :: "('k, 'v) js_map \<Rightarrow> 'k \<Rightarrow> bool" where
  "js_has m k \<equiv> map_of m k \<noteq> None"

abbreviation js_set :: "'k \<Rightarrow> 'v \<Rightarrow> ('k, 'v) js_map \<Rightarrow> ('k, 'v) js_map" where
  "js_set k v m \<equiv> AList.update k v m"

abbreviation js_delete :: "'k \<Rightarrow> ('k, 'v) js_map \<Rightarrow> ('k, 'v) js_map" where
  "js_delete k m \<equiv> AList.delete k m"

abbreviation js_keys :: "('k, 'v) js_map \<Rightarrow> 'k list" where
  "js_keys m \<equiv> map fst m"

abbreviation js_values :: "('k, 'v) js_map \<Rightarrow> 'v list" where
  "js_values m \<equiv> map snd m"

abbreviation js_wf :: "('k, 'v) js_map \<Rightarrow> bool" where
  "js_wf m \<equiv> distinct (map fst m)"

text \<open>
  Mutating the object a map holds: \<open>const x = m.get(k); if (x === undefined) continue; x.f = ...\<close>.
\<close>

definition js_modify :: "('v \<Rightarrow> 'v) \<Rightarrow> 'k \<Rightarrow> ('k, 'v) js_map \<Rightarrow> ('k, 'v) js_map" where
  "js_modify f k m = (case js_get m k of None \<Rightarrow> m | Some v \<Rightarrow> js_set k (f v) m)"

primrec js_modify_all :: "('v \<Rightarrow> 'v) \<Rightarrow> 'k list \<Rightarrow> ('k, 'v) js_map \<Rightarrow> ('k, 'v) js_map" where
  "js_modify_all f [] m = m"
| "js_modify_all f (k # ks) m = js_modify_all f ks (js_modify f k m)"

section \<open>The laws of a keyed store\<close>

text \<open>
  What the components rely on when they keep their records in a \<open>Map\<close>: the locale states
  the laws, the clients' loops are reasoned about once inside it, and the interpretation
  below discharges the laws for the association lists of the model.
\<close>

locale keyed_store =
  fixes get :: "'m \<Rightarrow> 'k \<Rightarrow> 'v option"
    and put :: "'k \<Rightarrow> 'v \<Rightarrow> 'm \<Rightarrow> 'm"
    and del :: "'k \<Rightarrow> 'm \<Rightarrow> 'm"
    and keys :: "'m \<Rightarrow> 'k list"
  assumes get_put: "get (put k v m) k' = (if k' = k then Some v else get m k')"
    and get_del: "get (del k m) k' = (if k' = k then None else get m k')"
    and keys_put: "keys (put k v m) = (if k \<in> set (keys m) then keys m else keys m @ [k])"
    and keys_del: "keys (del k m) = filter (\<lambda>k'. k' \<noteq> k) (keys m)"
    and set_keys: "set (keys m) = {k. get m k \<noteq> None}"
begin

definition touch :: "('v \<Rightarrow> 'v) \<Rightarrow> 'k \<Rightarrow> 'm \<Rightarrow> 'm" where
  "touch f k m = (case get m k of None \<Rightarrow> m | Some v \<Rightarrow> put k (f v) m)"

lemma get_touch:
  "get (touch f k m) k' = (if k' = k then map_option f (get m k') else get m k')"
  by (auto simp: touch_def get_put split: option.splits)

lemma keys_touch: "keys (touch f k m) = keys m"
  by (auto simp: touch_def keys_put set_keys split: option.splits)

lemma get_fold_touch:
  "distinct ks \<Longrightarrow>
   get (fold (touch f) ks m) k' = (if k' \<in> set ks then map_option f (get m k') else get m k')"
  by (induction ks arbitrary: m) (auto simp: get_touch)

lemma keys_fold_touch: "keys (fold (touch f) ks m) = keys m"
  by (induction ks arbitrary: m) (auto simp: keys_touch)

lemma distinct_put: "distinct (keys m) \<Longrightarrow> distinct (keys (put k v m))"
  by (simp add: keys_put)

lemma distinct_del: "distinct (keys m) \<Longrightarrow> distinct (keys (del k m))"
  by (simp add: keys_del)

end

section \<open>Reachable states\<close>

text \<open>
  Every stateful component is a start predicate and a step relation whose rules are the
  methods any caller can invoke. \<open>safety_machine\<close> is the shape of a safety argument: an
  invariant that holds at the start and survives every step holds in every reachable state.
\<close>

inductive reachable :: "('s \<Rightarrow> bool) \<Rightarrow> ('s \<Rightarrow> 's \<Rightarrow> bool) \<Rightarrow> 's \<Rightarrow> bool"
  for start :: "'s \<Rightarrow> bool" and step :: "'s \<Rightarrow> 's \<Rightarrow> bool" where
  reach_start: "start s \<Longrightarrow> reachable start step s"
| reach_step: "reachable start step s \<Longrightarrow> step s t \<Longrightarrow> reachable start step t"

locale safety_machine =
  fixes start :: "'s \<Rightarrow> bool"
    and step :: "'s \<Rightarrow> 's \<Rightarrow> bool"
    and inv :: "'s \<Rightarrow> bool"
  assumes inv_start: "start s \<Longrightarrow> inv s"
    and inv_step: "inv s \<Longrightarrow> step s t \<Longrightarrow> inv t"
begin

lemma always: "reachable start step s \<Longrightarrow> inv s"
  by (induction rule: reachable.induct) (auto intro: inv_start inv_step)

lemma always_later:
  assumes "step\<^sup>*\<^sup>* s t" "inv s"
  shows "inv t"
  using assms by (induction rule: rtranclp_induct) (auto intro: inv_step)

end

section \<open>Lemmas on maps\<close>

lemma js_keys_delete: "js_keys (js_delete k m) = filter (\<lambda>k'. k' \<noteq> k) (js_keys m)"
  by (induction m) (auto simp: AList.delete_eq)

lemma js_keys_dom: "set (js_keys m) = {k. js_get m k \<noteq> None}"
  using dom_map_of_conv_image_fst [of m] by (simp add: dom_def)

interpretation jsm: keyed_store js_get js_set js_delete js_keys
  by unfold_locales
    (simp_all only: update_conv' delete_conv' update_keys js_keys_delete js_keys_dom, auto)

lemma js_modify_touch: "js_modify f k m = jsm.touch f k m"
  by (simp add: js_modify_def jsm.touch_def)

lemma js_modify_all_fold: "js_modify_all f ks m = fold (jsm.touch f) ks m"
  by (induction ks arbitrary: m) (simp_all add: js_modify_touch)

lemmas js_get_set [js_simps, simp] = jsm.get_put
lemmas js_get_delete [js_simps, simp] = jsm.get_del

lemma js_get_modify [js_simps, simp]:
  "js_get (js_modify f k m) k' = (if k' = k then map_option f (js_get m k') else js_get m k')"
  by (simp add: js_modify_touch jsm.get_touch)

lemma js_keys_modify [js_simps, simp]: "js_keys (js_modify f k m) = js_keys m"
  by (simp add: js_modify_touch jsm.keys_touch)

lemma js_get_modify_all [js_simps, simp]:
  "distinct ks \<Longrightarrow> js_get (js_modify_all f ks m) k' =
     (if k' \<in> set ks then map_option f (js_get m k') else js_get m k')"
  by (simp add: js_modify_all_fold jsm.get_fold_touch)

lemma js_keys_modify_all [js_simps, simp]: "js_keys (js_modify_all f ks m) = js_keys m"
  by (simp add: js_modify_all_fold jsm.keys_fold_touch)

lemma js_wf_set [js_simps, simp]: "js_wf m \<Longrightarrow> js_wf (js_set k v m)"
  by (rule jsm.distinct_put)

lemma js_wf_delete [js_simps, simp]: "js_wf m \<Longrightarrow> js_wf (js_delete k m)"
  by (rule jsm.distinct_del)

lemma js_set_fresh: "js_get m k = None \<Longrightarrow> js_set k v m = m @ [(k, v)]"
  by (induction m) (auto split: if_splits)

lemma js_set_split:
  assumes "js_wf m" "js_get m k = Some v"
  obtains xs ys where "m = xs @ (k, v) # ys" "js_set k v' m = xs @ (k, v') # ys"
    "k \<notin> fst ` set xs" "k \<notin> fst ` set ys"
  using assms
proof (induction m arbitrary: thesis)
  case Nil
  then show ?case by simp
next
  case (Cons p m)
  show ?case
  proof (cases "fst p = k")
    case True
    with Cons.prems show ?thesis
      by (intro Cons.prems(1) [of "[]" m]) (auto simp: image_iff)
  next
    case False
    with Cons.prems have "js_wf m" "js_get m k = Some v"
      by (cases p; simp)+
    then obtain xs ys where "m = xs @ (k, v) # ys" "js_set k v' m = xs @ (k, v') # ys"
      "k \<notin> fst ` set xs" "k \<notin> fst ` set ys"
      using Cons.IH by blast
    with False show ?thesis
      by (intro Cons.prems(1) [of "p # xs" ys]) auto
  qed
qed

text \<open>A sum over a map moves by the difference when one entry is overwritten.\<close>

lemma sum_list_js_set:
  fixes g :: "'k \<times> 'v \<Rightarrow> int"
  assumes "js_wf m" "js_get m k = Some v"
  shows "sum_list (map g (js_set k v' m)) = sum_list (map g m) - g (k, v) + g (k, v')"
  using assms by (rule js_set_split [of m k v v']) simp

lemma sum_list_js_set_fresh:
  fixes g :: "'k \<times> 'v \<Rightarrow> int"
  assumes "js_get m k = None"
  shows "sum_list (map g (js_set k v m)) = sum_list (map g m) + g (k, v)"
  by (simp add: js_set_fresh assms)

lemma sum_list_map_zero:
  fixes f :: "'a \<Rightarrow> int"
  shows "(\<And>x. x \<in> set xs \<Longrightarrow> f x = 0) \<Longrightarrow> sum_list (map f xs) = 0"
  by (induction xs) auto

lemma sum_list_map_nonneg:
  fixes f :: "'a \<Rightarrow> int"
  shows "(\<And>x. x \<in> set xs \<Longrightarrow> 0 \<le> f x) \<Longrightarrow> 0 \<le> sum_list (map f xs)"
  by (induction xs) auto

lemma sum_list_int_mono:
  fixes f g :: "'a \<Rightarrow> int"
  assumes "\<And>x. x \<in> set xs \<Longrightarrow> f x \<le> g x"
  shows "sum_list (map f xs) \<le> sum_list (map g xs)"
  using assms by (rule sum_list_mono)

lemma js_get_in_set: "js_get m k = Some v \<Longrightarrow> (k, v) \<in> set m"
  by (rule map_of_SomeD)

lemma js_set_in_get: "js_wf m \<Longrightarrow> (k, v) \<in> set m \<Longrightarrow> js_get m k = Some v"
  by (rule map_of_is_SomeI)

lemma js_keys_iff [js_simps]: "k \<in> set (js_keys m) \<longleftrightarrow> js_get m k \<noteq> None"
  unfolding js_keys_dom by simp

lemma js_values_iff: "js_wf m \<Longrightarrow> v \<in> set (js_values m) \<longleftrightarrow> (\<exists>k. js_get m k = Some v)"
  by (auto simp: image_iff dest: js_get_in_set) (metis js_set_in_get snd_conv)

section \<open>Decimal numerals\<close>

definition undecimal :: "string \<Rightarrow> nat" where
  "undecimal s = foldl (\<lambda>n c. 10 * n + (of_char c - 48)) 0 s"

lemma of_char_digit: "d < 10 \<Longrightarrow> of_char (char_of (48 + d) :: char) = (48 + d :: nat)"
  by simp

lemma undecimal_decimal: "undecimal (decimal n) = n"
proof (induction n rule: decimal.induct)
  case (1 n)
  show ?case
  proof (cases "n < 10")
    case True
    then show ?thesis by (simp add: decimal.simps [of n] undecimal_def of_char_digit)
  next
    case False
    with 1 have "foldl (\<lambda>n c. 10 * n + (of_char c - 48)) 0 (decimal (n div 10)) = n div 10"
      by (simp add: undecimal_def)
    moreover have "10 * (n div 10) + n mod 10 = n" by simp
    ultimately show ?thesis
      using False by (simp add: decimal.simps [of n] undecimal_def of_char_digit del: mult_div_mod_eq)
  qed
qed

lemma decimal_inj: "decimal m = decimal n \<longleftrightarrow> m = n"
  by (metis undecimal_decimal)

lemma decimal_digits: "c \<in> set (decimal n) \<Longrightarrow> 48 \<le> (of_char c :: nat) \<and> (of_char c :: nat) \<le> 57"
proof (induction n rule: decimal.induct)
  case (1 n)
  have "n < 10 \<or> n mod 10 < 10" by simp
  with 1 show ?case
    by (subst (asm) decimal.simps) (auto simp: of_char_digit split: if_splits)
qed

lemma decimal_length: "n < 10 ^ k \<Longrightarrow> 0 < k \<Longrightarrow> length (decimal n) \<le> k"
proof (induction k arbitrary: n)
  case (Suc k)
  show ?case
  proof (cases "n < 10")
    case True
    then show ?thesis by (simp add: decimal.simps [of n])
  next
    case False
    with Suc.prems have "n div 10 < 10 ^ k" "0 < k"
      by (auto simp: less_mult_imp_div_less mult.commute intro: gr0I)
    from Suc.IH [OF this] False show ?thesis by (simp add: decimal.simps [of n])
  qed
qed simp

lemma decimal_nonempty: "decimal n \<noteq> []"
  by (simp add: decimal.simps [of n])

end
