(* ===== verification/Budget_Ledger.thy ===== *)
theory Budget_Ledger
  imports Prelude
begin

text \<open>
  Hierarchical budgets: the limits and validation of \<^verbatim>\<open>src/domain/orchestration/budget.ts\<close>
  and the ledger of \<^verbatim>\<open>src/application/orchestration/budget-ledger.ts\<close>.

  The ledger is a record of its two \<open>Map\<close>s; every method takes the ledger and returns the
  next one with its \<open>Result\<close>. A limit table is a function from the five dimensions to a slot
  (absent, \<open>null\<close>, a number); once validated it is read through \<open>slot_int\<close>, where absent and
  \<open>null\<close> both mean unlimited.

  The parent walk \<open>chainOf\<close> takes \<open>Suc MAX_BUDGET_DEPTH\<close> steps at most. That bound is enough:
  \<open>createChild\<close> refuses a depth beyond \<open>MAX_BUDGET_DEPTH\<close> and each step lowers the depth by one,
  which is \<open>chainOf_loop\<close> below.
\<close>

section \<open>Limits and amounts (budget.ts)\<close>

datatype budget_dimension = TimeMs | CostMicros | Tokens | Bytes | Operations

definition BUDGET_DIMENSIONS :: "budget_dimension list" where
  "BUDGET_DIMENSIONS = [TimeMs, CostMicros, Tokens, Bytes, Operations]"

type_synonym budget_id = string
type_synonym reservation_id = string
type_synonym budget_limits = "budget_dimension \<Rightarrow> js_slot"
type_synonym budget_amounts = "budget_dimension \<Rightarrow> js_slot"
type_synonym budget_caps = "budget_dimension \<Rightarrow> int option"
type_synonym budget_record = "budget_dimension \<Rightarrow> int"

datatype budget_error =
    Unknown_Budget budget_id
  | Unknown_Reservation reservation_id
  | Duplicate_Budget budget_id
  | Duplicate_Reservation reservation_id
  | Accounting_Overflow budget_id budget_dimension int
  | Non_Integer_Amount budget_dimension
  | Negative_Amount budget_dimension
  | Budget_Exhausted budget_id budget_dimension int int
  | Over_Consumption budget_dimension int int
  | Budget_Depth_Exceeded nat

definition isBudgetDimension :: "string \<Rightarrow> bool" where
  "isBudgetDimension v \<longleftrightarrow>
     v \<in> set [''timeMs'', ''costMicros'', ''tokens'', ''bytes'', ''operations'']"

definition caps_of :: "budget_limits \<Rightarrow> budget_caps" where
  "caps_of limits = (\<lambda>d. slot_int (limits d))"

definition narrowLimits :: "budget_caps \<Rightarrow> budget_caps \<Rightarrow> budget_caps" where
  "narrowLimits inherited requested = (\<lambda>d.
     case inherited d of
       None \<Rightarrow> requested d
     | Some parent \<Rightarrow> (case requested d of None \<Rightarrow> Some parent | Some child \<Rightarrow> Some (min parent child)))"

definition enlargesLimits :: "budget_caps \<Rightarrow> budget_caps \<Rightarrow> bool" where
  "enlargesLimits inherited requested = list_ex (\<lambda>d.
     case inherited d of
       None \<Rightarrow> False
     | Some parent \<Rightarrow> (case requested d of None \<Rightarrow> True | Some child \<Rightarrow> child > parent)) BUDGET_DIMENSIONS"

fun validate_dimensions ::
  "(budget_dimension \<Rightarrow> js_slot) \<Rightarrow> bool \<Rightarrow> budget_dimension list \<Rightarrow> (unit, budget_error) result" where
  "validate_dimensions vals allowUnlimited [] = Ok ()"
| "validate_dimensions vals allowUnlimited (d # ds) =
     (case vals d of
        Undefined \<Rightarrow> validate_dimensions vals allowUnlimited ds
      | Null \<Rightarrow> if allowUnlimited then validate_dimensions vals allowUnlimited ds
                else Err (Non_Integer_Amount d)
      | Num JNonInt \<Rightarrow> Err (Non_Integer_Amount d)
      | Num (JInt n) \<Rightarrow>
          if \<not> isSafeInteger (JInt n) then Err (Non_Integer_Amount d)
          else if n < 0 then Err (Negative_Amount d)
          else validate_dimensions vals allowUnlimited ds)"

definition validateValues ::
  "(budget_dimension \<Rightarrow> js_slot) \<Rightarrow> bool \<Rightarrow> (unit, budget_error) result" where
  "validateValues vals allowUnlimited = validate_dimensions vals allowUnlimited BUDGET_DIMENSIONS"

definition validateAmounts :: "budget_amounts \<Rightarrow> (unit, budget_error) result" where
  "validateAmounts amounts = validateValues amounts False"

definition validateLimits :: "budget_limits \<Rightarrow> (unit, budget_error) result" where
  "validateLimits limits = validateValues limits True"

section \<open>The ledger (budget-ledger.ts)\<close>

definition MAX_BUDGET_DEPTH :: nat where
  "MAX_BUDGET_DEPTH = 16"

record budget_node =
  bn_budgetId :: budget_id
  bn_parentId :: "budget_id option"
  bn_depth :: nat
  bn_limits :: budget_caps
  bn_reserved :: budget_record
  bn_consumed :: budget_record

record reservation =
  rv_reservationId :: reservation_id
  rv_budgetId :: budget_id
  rv_chain :: "budget_id list"
  rv_amounts :: budget_record
  rv_open :: bool

record ledger =
  lg_nodes :: "(budget_id, budget_node) js_map"
  lg_reservations :: "(reservation_id, reservation) js_map"

definition createBudgetLedger :: ledger where
  "createBudgetLedger = \<lparr>lg_nodes = [], lg_reservations = []\<rparr>"

definition zeroed :: budget_record where
  "zeroed = (\<lambda>_. 0)"

definition filled :: "budget_amounts \<Rightarrow> budget_record" where
  "filled amounts = (\<lambda>d. case slot_int (amounts d) of None \<Rightarrow> 0 | Some n \<Rightarrow> n)"

fun chain_walk :: "nat \<Rightarrow> (budget_id, budget_node) js_map \<Rightarrow> budget_id \<Rightarrow> budget_node list" where
  "chain_walk 0 nodes b = []"
| "chain_walk (Suc fuel) nodes b =
     (case js_get nodes b of
        None \<Rightarrow> []
      | Some current \<Rightarrow> current #
          (case bn_parentId current of None \<Rightarrow> [] | Some p \<Rightarrow> chain_walk fuel nodes p))"

definition chainOf :: "ledger \<Rightarrow> budget_id \<Rightarrow> budget_node list" where
  "chainOf l b = chain_walk (Suc MAX_BUDGET_DEPTH) (lg_nodes l) b"

definition remainingIn :: "budget_node \<Rightarrow> budget_dimension \<Rightarrow> int option" where
  "remainingIn node d =
     (case bn_limits node d of
        None \<Rightarrow> None
      | Some limit \<Rightarrow> Some (limit - bn_reserved node d - bn_consumed node d))"

definition new_node :: "budget_id \<Rightarrow> budget_id option \<Rightarrow> nat \<Rightarrow> budget_caps \<Rightarrow> budget_node" where
  "new_node b parent depth limits =
     \<lparr>bn_budgetId = b, bn_parentId = parent, bn_depth = depth, bn_limits = limits,
      bn_reserved = zeroed, bn_consumed = zeroed\<rparr>"

definition createRoot ::
  "ledger \<Rightarrow> budget_id \<Rightarrow> budget_limits \<Rightarrow> ledger \<times> (budget_id, budget_error) result" where
  "createRoot l b limits =
     (if js_has (lg_nodes l) b then (l, Err (Duplicate_Budget b))
      else case validateLimits limits of
             Err e \<Rightarrow> (l, Err e)
           | Ok _ \<Rightarrow>
               (l\<lparr>lg_nodes := js_set b (new_node b None 0 (caps_of limits)) (lg_nodes l)\<rparr>, Ok b))"

definition createChild ::
  "ledger \<Rightarrow> budget_id \<Rightarrow> budget_id \<Rightarrow> budget_limits \<Rightarrow> ledger \<times> (budget_id, budget_error) result" where
  "createChild l parentId b limits =
     (case js_get (lg_nodes l) parentId of
        None \<Rightarrow> (l, Err (Unknown_Budget parentId))
      | Some parent \<Rightarrow>
          if js_has (lg_nodes l) b then (l, Err (Duplicate_Budget b))
          else if bn_depth parent + 1 > MAX_BUDGET_DEPTH
          then (l, Err (Budget_Depth_Exceeded MAX_BUDGET_DEPTH))
          else case validateLimits limits of
                 Err e \<Rightarrow> (l, Err e)
               | Ok _ \<Rightarrow>
                   (l\<lparr>lg_nodes := js_set b
                        (new_node b (Some parentId) (bn_depth parent + 1)
                           (narrowLimits (bn_limits parent) (caps_of limits))) (lg_nodes l)\<rparr>, Ok b))"

definition wouldNarrow :: "ledger \<Rightarrow> budget_id \<Rightarrow> budget_limits \<Rightarrow> (bool, budget_error) result" where
  "wouldNarrow l parentId limits =
     (case js_get (lg_nodes l) parentId of
        None \<Rightarrow> Err (Unknown_Budget parentId)
      | Some parent \<Rightarrow>
          (case validateLimits limits of
             Err e \<Rightarrow> Err e
           | Ok _ \<Rightarrow> Ok (enlargesLimits (bn_limits parent) (caps_of limits))))"

text \<open>The preflight: the first dimension of the first node of the chain that cannot take it.\<close>

fun preflight_node ::
  "budget_record \<Rightarrow> budget_node \<Rightarrow> budget_dimension list \<Rightarrow> budget_error option" where
  "preflight_node requested node [] = None"
| "preflight_node requested node (d # ds) =
     (case remainingIn node d of
        Some remaining \<Rightarrow>
          if requested d > remaining
          then Some (Budget_Exhausted (bn_budgetId node) d (requested d) remaining)
          else if requested d > MAX_SAFE_INTEGER - bn_reserved node d - bn_consumed node d
          then Some (Accounting_Overflow (bn_budgetId node) d
                 (MAX_SAFE_INTEGER - bn_reserved node d - bn_consumed node d))
          else preflight_node requested node ds
      | None \<Rightarrow>
          if requested d > MAX_SAFE_INTEGER - bn_reserved node d - bn_consumed node d
          then Some (Accounting_Overflow (bn_budgetId node) d
                 (MAX_SAFE_INTEGER - bn_reserved node d - bn_consumed node d))
          else preflight_node requested node ds)"

fun preflight :: "budget_record \<Rightarrow> budget_node list \<Rightarrow> budget_error option" where
  "preflight requested [] = None"
| "preflight requested (node # chain) =
     (case preflight_node requested node BUDGET_DIMENSIONS of
        Some e \<Rightarrow> Some e
      | None \<Rightarrow> preflight requested chain)"

definition charge_reserved :: "budget_record \<Rightarrow> budget_node \<Rightarrow> budget_node" where
  "charge_reserved requested node =
     node\<lparr>bn_reserved := (\<lambda>d. bn_reserved node d + requested d)\<rparr>"

definition reserve ::
  "ledger \<Rightarrow> budget_id \<Rightarrow> reservation_id \<Rightarrow> budget_amounts \<Rightarrow>
   ledger \<times> (reservation_id, budget_error) result" where
  "reserve l b rid amounts =
     (case validateAmounts amounts of
        Err e \<Rightarrow> (l, Err e)
      | Ok _ \<Rightarrow>
          if \<not> js_has (lg_nodes l) b then (l, Err (Unknown_Budget b))
          else if js_has (lg_reservations l) rid then (l, Err (Duplicate_Reservation rid))
          else let requested = filled amounts; chain = chainOf l b
               in case preflight requested chain of
                    Some e \<Rightarrow> (l, Err e)
                  | None \<Rightarrow>
                      (\<lparr>lg_nodes = js_modify_all (charge_reserved requested)
                                    (map bn_budgetId chain) (lg_nodes l),
                        lg_reservations = js_set rid
                          \<lparr>rv_reservationId = rid, rv_budgetId = b,
                           rv_chain = map bn_budgetId chain, rv_amounts = requested,
                           rv_open = True\<rparr> (lg_reservations l)\<rparr>, Ok rid))"

fun over_consumed ::
  "budget_record \<Rightarrow> budget_record \<Rightarrow> budget_dimension list \<Rightarrow> budget_error option" where
  "over_consumed used amounts [] = None"
| "over_consumed used amounts (d # ds) =
     (if used d > amounts d then Some (Over_Consumption d (amounts d) (used d))
      else over_consumed used amounts ds)"

definition settle_node :: "budget_record \<Rightarrow> budget_record \<Rightarrow> budget_node \<Rightarrow> budget_node" where
  "settle_node amounts used node =
     node\<lparr>bn_reserved := (\<lambda>d. bn_reserved node d - amounts d),
          bn_consumed := (\<lambda>d. bn_consumed node d + used d)\<rparr>"

definition consume ::
  "ledger \<Rightarrow> reservation_id \<Rightarrow> budget_amounts \<Rightarrow> ledger \<times> (unit, budget_error) result" where
  "consume l rid actual =
     (case validateAmounts actual of
        Err e \<Rightarrow> (l, Err e)
      | Ok _ \<Rightarrow>
          (case js_get (lg_reservations l) rid of
             None \<Rightarrow> (l, Err (Unknown_Reservation rid))
           | Some r \<Rightarrow>
               if \<not> rv_open r then (l, Err (Unknown_Reservation rid))
               else let used = filled actual
                    in case over_consumed used (rv_amounts r) BUDGET_DIMENSIONS of
                         Some e \<Rightarrow> (l, Err e)
                       | None \<Rightarrow>
                           (\<lparr>lg_nodes = js_modify_all (settle_node (rv_amounts r) used)
                                         (rv_chain r) (lg_nodes l),
                             lg_reservations = js_set rid (r\<lparr>rv_open := False\<rparr>)
                                                 (lg_reservations l)\<rparr>, Ok ())))"

definition release_node :: "budget_record \<Rightarrow> budget_node \<Rightarrow> budget_node" where
  "release_node amounts node =
     node\<lparr>bn_reserved := (\<lambda>d. bn_reserved node d - amounts d)\<rparr>"

definition release ::
  "ledger \<Rightarrow> reservation_id \<Rightarrow> ledger \<times> (unit, budget_error) result" where
  "release l rid =
     (case js_get (lg_reservations l) rid of
        None \<Rightarrow> (l, Err (Unknown_Reservation rid))
      | Some r \<Rightarrow>
          if \<not> rv_open r then (l, Ok ())
          else (\<lparr>lg_nodes = js_modify_all (release_node (rv_amounts r)) (rv_chain r) (lg_nodes l),
                 lg_reservations = js_set rid (r\<lparr>rv_open := False\<rparr>) (lg_reservations l)\<rparr>,
                Ok ()))"

record dimension_report =
  dr_limit :: "int option"
  dr_reserved :: int
  dr_consumed :: int
  dr_remaining :: "int option"

record budget_report =
  br_budgetId :: budget_id
  br_parentId :: "budget_id option"
  br_dimensions :: "budget_dimension \<Rightarrow> dimension_report"
  br_openReservations :: nat

definition report_budget :: "ledger \<Rightarrow> budget_id \<Rightarrow> budget_report option" where
  "report_budget l b =
     (case js_get (lg_nodes l) b of
        None \<Rightarrow> None
      | Some node \<Rightarrow> Some
          \<lparr>br_budgetId = b, br_parentId = bn_parentId node,
           br_dimensions = (\<lambda>d. \<lparr>dr_limit = bn_limits node d, dr_reserved = bn_reserved node d,
                                 dr_consumed = bn_consumed node d,
                                 dr_remaining = remainingIn node d\<rparr>),
           br_openReservations = length (filter (\<lambda>r. rv_open r \<and> rv_budgetId r = b)
                                           (js_values (lg_reservations l)))\<rparr>)"

definition openReservationCount :: "ledger \<Rightarrow> nat" where
  "openReservationCount l = length (filter rv_open (js_values (lg_reservations l)))"

text \<open>The ledger's methods as one step relation: what any caller can do to it.\<close>

inductive ledger_step :: "ledger \<Rightarrow> ledger \<Rightarrow> bool" where
  step_root: "ledger_step l (fst (createRoot l b limits))"
| step_child: "ledger_step l (fst (createChild l p b limits))"
| step_reserve: "ledger_step l (fst (reserve l b rid amounts))"
| step_consume: "ledger_step l (fst (consume l rid actual))"
| step_release: "ledger_step l (fst (release l rid))"

section \<open>The invariant\<close>

definition open_amount :: "budget_id \<Rightarrow> budget_dimension \<Rightarrow> reservation_id \<times> reservation \<Rightarrow> int" where
  "open_amount b d = (\<lambda>(k, r). if rv_open r \<and> b \<in> set (rv_chain r) then rv_amounts r d else 0)"

text \<open>What the open reservations hold of one budget.\<close>

definition open_total :: "(reservation_id, reservation) js_map \<Rightarrow> budget_id \<Rightarrow> budget_dimension \<Rightarrow> int" where
  "open_total rs b d = sum_list (map (open_amount b d) rs)"

fun cap_le :: "int option \<Rightarrow> int option \<Rightarrow> bool" where
  "cap_le _ None = True"
| "cap_le None (Some _) = False"
| "cap_le (Some a) (Some b) = (a \<le> b)"

definition linked :: "(budget_id, budget_node) js_map \<Rightarrow> budget_node \<Rightarrow> bool" where
  "linked nodes n \<longleftrightarrow>
     (\<forall>p. bn_parentId n = Some p \<longrightarrow>
       (\<exists>pn. js_get nodes p = Some pn \<and> bn_depth n = Suc (bn_depth pn) \<and>
             (\<forall>d. cap_le (bn_limits n d) (bn_limits pn d) \<and> bn_consumed n d \<le> bn_consumed pn d)))"

definition within_limits :: "budget_node \<Rightarrow> bool" where
  "within_limits n \<longleftrightarrow>
     (\<forall>d. bn_reserved n d + bn_consumed n d \<le> MAX_SAFE_INTEGER \<and>
          (\<forall>c. bn_limits n d = Some c \<longrightarrow> bn_reserved n d + bn_consumed n d \<le> c))"

definition nodes_ok :: "(budget_id, budget_node) js_map \<Rightarrow> bool" where
  "nodes_ok nodes \<longleftrightarrow> js_wf nodes \<and>
     (\<forall>b n. js_get nodes b = Some n \<longrightarrow>
        bn_budgetId n = b \<and> bn_depth n \<le> MAX_BUDGET_DEPTH \<and> linked nodes n \<and> within_limits n \<and>
        (\<forall>d. 0 \<le> bn_consumed n d))"

text \<open>A chain is closed under parents: it charges a budget together with every ancestor.\<close>

definition chain_ok :: "(budget_id, budget_node) js_map \<Rightarrow> budget_id list \<Rightarrow> bool" where
  "chain_ok nodes chain \<longleftrightarrow> distinct chain \<and>
     (\<forall>b \<in> set chain. \<exists>n. js_get nodes b = Some n \<and>
        (\<forall>p. bn_parentId n = Some p \<longrightarrow> p \<in> set chain))"

definition reservation_ok :: "(budget_id, budget_node) js_map \<Rightarrow> reservation \<Rightarrow> bool" where
  "reservation_ok nodes r \<longleftrightarrow>
     chain_ok nodes (rv_chain r) \<and> rv_budgetId r \<in> set (rv_chain r) \<and> (\<forall>d. 0 \<le> rv_amounts r d)"

definition reservations_ok :: "ledger \<Rightarrow> bool" where
  "reservations_ok l \<longleftrightarrow> js_wf (lg_reservations l) \<and>
     (\<forall>k r. js_get (lg_reservations l) k = Some r \<longrightarrow> reservation_ok (lg_nodes l) r)"

definition conserved :: "ledger \<Rightarrow> bool" where
  "conserved l \<longleftrightarrow>
     (\<forall>b n d. js_get (lg_nodes l) b = Some n \<longrightarrow> bn_reserved n d = open_total (lg_reservations l) b d)"

definition ledger_inv :: "ledger \<Rightarrow> bool" where
  "ledger_inv l \<longleftrightarrow> nodes_ok (lg_nodes l) \<and> reservations_ok l \<and> conserved l"

section \<open>Validation\<close>

lemma dimension_listed: "d \<in> set BUDGET_DIMENSIONS"
  by (cases d) (auto simp: BUDGET_DIMENSIONS_def)

lemma validate_dimensions_Ok:
  assumes "validate_dimensions v u ds = Ok x" "d \<in> set ds" "slot_int (v d) = Some n"
  shows "0 \<le> n \<and> n \<le> MAX_SAFE_INTEGER"
  using assms
proof (induction v u ds rule: validate_dimensions.induct)
  case (2 v u e ds)
  then show ?case
    by (cases "v e") (auto simp: is_safe_int_def split: js_number.splits if_splits)
qed simp

lemma validateValues_Ok:
  "validateValues v u = Ok x \<Longrightarrow> slot_int (v d) = Some n \<Longrightarrow> 0 \<le> n \<and> n \<le> MAX_SAFE_INTEGER"
  unfolding validateValues_def by (rule validate_dimensions_Ok [OF _ dimension_listed])

lemma filled_nonneg: "validateAmounts a = Ok x \<Longrightarrow> 0 \<le> filled a d"
  using validateValues_Ok [of a False x d]
  by (auto simp: validateAmounts_def filled_def split: option.splits)

lemma caps_of_nonneg: "validateLimits a = Ok x \<Longrightarrow> caps_of a d = Some c \<Longrightarrow> 0 \<le> c"
  using validateValues_Ok [of a True x d] by (auto simp: validateLimits_def caps_of_def)

lemma cap_le_refl [simp]: "cap_le c c"
  by (cases c) auto

lemma narrowLimits_le: "cap_le (narrowLimits p r d) (p d)"
  by (auto simp: narrowLimits_def split: option.splits)

lemma narrowLimits_le_request: "cap_le (narrowLimits p r d) (r d)"
  by (auto simp: narrowLimits_def split: option.splits)

section \<open>The parent walk\<close>

lemma nodes_okD:
  assumes "nodes_ok nodes" "js_get nodes b = Some n"
  shows "bn_budgetId n = b" "bn_depth n \<le> MAX_BUDGET_DEPTH" "linked nodes n" "within_limits n"
    "0 \<le> bn_consumed n d"
  using assms by (auto simp: nodes_ok_def)

lemma chain_walk_enough:
  assumes "nodes_ok nodes" "js_get nodes b = Some n" "bn_depth n < fuel"
  shows "chain_walk (Suc fuel) nodes b = chain_walk fuel nodes b"
  using assms(2,3)
proof (induction fuel arbitrary: b n)
  case (Suc fuel)
  show ?case
  proof (cases "bn_parentId n")
    case None
    with Suc.prems show ?thesis by simp
  next
    case (Some p)
    with nodes_okD(3) [OF assms(1) Suc.prems(1)] obtain pn where
      "js_get nodes p = Some pn" "bn_depth n = Suc (bn_depth pn)"
      by (auto simp: linked_def)
    with Suc Some show ?thesis by simp
  qed
qed simp

text \<open>The bounded walk satisfies the equation of the source's unbounded loop.\<close>

lemma chainOf_loop:
  assumes "nodes_ok (lg_nodes l)" "js_get (lg_nodes l) b = Some n"
  shows "chainOf l b = n # (case bn_parentId n of None \<Rightarrow> [] | Some p \<Rightarrow> chainOf l p)"
proof (cases "bn_parentId n")
  case None
  with assms show ?thesis by (simp add: chainOf_def)
next
  case (Some p)
  with nodes_okD(3) [OF assms] obtain pn where
    pn: "js_get (lg_nodes l) p = Some pn" "bn_depth n = Suc (bn_depth pn)"
    by (auto simp: linked_def)
  with nodes_okD(2) [OF assms] have "bn_depth pn < MAX_BUDGET_DEPTH" by simp
  with pn have "chain_walk (Suc MAX_BUDGET_DEPTH) (lg_nodes l) p
      = chain_walk MAX_BUDGET_DEPTH (lg_nodes l) p"
    by (intro chain_walk_enough [OF assms(1)])
  with Some assms show ?thesis by (simp add: chainOf_def)
qed

lemma chain_depths:
  assumes "nodes_ok nodes" "js_get nodes b = Some n"
  shows "x \<in> set (chain_walk fuel nodes b) \<Longrightarrow>
     js_get nodes (bn_budgetId x) = Some x \<and> bn_depth x \<le> bn_depth n"
  using assms(2)
proof (induction fuel arbitrary: b n)
  case (Suc fuel)
  note id_b = nodes_okD(1) [OF assms(1) Suc.prems(2)]
  show ?case
  proof (cases "x = n")
    case True
    with Suc.prems(2) id_b show ?thesis by simp
  next
    case False
    with Suc.prems obtain p where p: "bn_parentId n = Some p" "x \<in> set (chain_walk fuel nodes p)"
      by (cases "bn_parentId n") auto
    with nodes_okD(3) [OF assms(1) Suc.prems(2)] obtain pn where
      "js_get nodes p = Some pn" "bn_depth n = Suc (bn_depth pn)"
      by (auto simp: linked_def)
    with Suc.IH [OF p(2)] show ?thesis by fastforce
  qed
qed simp

lemma chainOf_member:
  assumes "nodes_ok (lg_nodes l)" "js_get (lg_nodes l) b = Some n" "x \<in> set (chainOf l b)"
  shows "js_get (lg_nodes l) (bn_budgetId x) = Some x"
  using chain_depths [OF assms(1,2) assms(3) [unfolded chainOf_def]] by blast

lemma chain_walk_distinct:
  assumes "nodes_ok nodes" "js_get nodes b = Some n"
  shows "distinct (map bn_budgetId (chain_walk fuel nodes b))"
  using assms(2)
proof (induction fuel arbitrary: b n)
  case (Suc fuel)
  show ?case
  proof (cases "bn_parentId n")
    case None
    with Suc.prems show ?thesis by simp
  next
    case (Some p)
    with nodes_okD(3) [OF assms(1) Suc.prems] obtain pn where
      pn: "js_get nodes p = Some pn" "bn_depth n = Suc (bn_depth pn)"
      by (auto simp: linked_def)
    have "bn_budgetId n \<noteq> bn_budgetId x" if "x \<in> set (chain_walk fuel nodes p)" for x
    proof
      assume "bn_budgetId n = bn_budgetId x"
      with chain_depths [OF assms(1) pn(1) that] nodes_okD(1) [OF assms(1) Suc.prems] Suc.prems
      have "x = n" "bn_depth x \<le> bn_depth pn" by auto
      with pn show False by simp
    qed
    with Suc.IH [OF pn(1)] Suc.prems Some show ?thesis by auto
  qed
qed simp

lemma chainOf_parent_closed:
  assumes "nodes_ok (lg_nodes l)" "js_get (lg_nodes l) b = Some n"
    and "x \<in> set (chainOf l b)" "bn_parentId x = Some p"
  shows "\<exists>y \<in> set (chainOf l b). bn_budgetId y = p"
  using assms(2,3)
proof (induction "bn_depth n" arbitrary: b n rule: less_induct)
  case less
  note eq = chainOf_loop [OF assms(1) less.prems(1)]
  have parent: "\<exists>qn. js_get (lg_nodes l) q = Some qn \<and> bn_depth n = Suc (bn_depth qn)"
    if "bn_parentId n = Some q" for q
    using nodes_okD(3) [OF assms(1) less.prems(1)] that by (auto simp: linked_def)
  show ?case
  proof (cases "x = n")
    case True
    with parent assms(4) obtain qn where qn: "js_get (lg_nodes l) p = Some qn" by auto
    from chainOf_loop [OF assms(1) qn] have "qn \<in> set (chainOf l p)" by simp
    with eq True assms(4) nodes_okD(1) [OF assms(1) qn] show ?thesis by auto
  next
    case False
    with eq less.prems obtain q where q: "bn_parentId n = Some q" "x \<in> set (chainOf l q)"
      by (cases "bn_parentId n") auto
    with parent obtain qn where "js_get (lg_nodes l) q = Some qn" "bn_depth qn < bn_depth n" by auto
    with less.hyps q obtain y where "y \<in> set (chainOf l q)" "bn_budgetId y = p" by blast
    with eq q show ?thesis by auto
  qed
qed

lemma chainOf_chain_ok:
  assumes "nodes_ok (lg_nodes l)" "js_get (lg_nodes l) b = Some n"
  shows "chain_ok (lg_nodes l) (map bn_budgetId (chainOf l b)) \<and>
         b \<in> set (map bn_budgetId (chainOf l b))"
proof -
  have "b \<in> set (map bn_budgetId (chainOf l b))"
    using chainOf_loop [OF assms] nodes_okD(1) [OF assms] by simp
  moreover have "distinct (map bn_budgetId (chainOf l b))"
    unfolding chainOf_def by (rule chain_walk_distinct [OF assms])
  moreover have "\<exists>m. js_get (lg_nodes l) (bn_budgetId x) = Some m \<and>
      (\<forall>p. bn_parentId m = Some p \<longrightarrow> p \<in> bn_budgetId ` set (chainOf l b))"
    if "x \<in> set (chainOf l b)" for x
    using chainOf_member [OF assms that] chainOf_parent_closed [OF assms that] by force
  ultimately show ?thesis by (simp add: chain_ok_def)
qed

section \<open>Loops over a chain\<close>

text \<open>What \<open>reserve\<close>, \<open>consume\<close> and \<open>release\<close> do to each node of a chain: only the two
  counters move, and consumption only grows.\<close>

definition accounts :: "budget_record \<Rightarrow> (budget_node \<Rightarrow> budget_node) \<Rightarrow> bool" where
  "accounts u f \<longleftrightarrow> (\<forall>d. 0 \<le> u d) \<and>
     (\<forall>n. bn_budgetId (f n) = bn_budgetId n \<and> bn_parentId (f n) = bn_parentId n \<and>
          bn_depth (f n) = bn_depth n \<and> bn_limits (f n) = bn_limits n \<and>
          (\<forall>d. bn_consumed (f n) d = bn_consumed n d + u d))"

lemma accounts_charge: "accounts (\<lambda>_. 0) (charge_reserved q)"
  by (simp add: accounts_def charge_reserved_def)

lemma accounts_release: "accounts (\<lambda>_. 0) (release_node q)"
  by (simp add: accounts_def release_node_def)

lemma accounts_settle: "(\<And>d. 0 \<le> u d) \<Longrightarrow> accounts u (settle_node q u)"
  by (simp add: accounts_def settle_node_def)

lemma chain_ok_modify:
  assumes "accounts u f" "distinct chain" "chain_ok nodes c"
  shows "chain_ok (js_modify_all f chain nodes) c"
  using assms by (fastforce simp: chain_ok_def accounts_def)

lemma linked_modify:
  assumes "accounts u f" "nodes_ok nodes" "chain_ok nodes chain" "js_get nodes b = Some n"
  shows "linked (js_modify_all f chain nodes) (if b \<in> set chain then f n else n)"
proof -
  have dist: "distinct chain" using assms(3) by (simp add: chain_ok_def)
  have "\<exists>pn. js_get (js_modify_all f chain nodes) p = Some pn \<and> bn_depth n = Suc (bn_depth pn) \<and>
      (\<forall>d. cap_le (bn_limits n d) (bn_limits pn d) \<and>
        bn_consumed n d + (if b \<in> set chain then u d else 0) \<le> bn_consumed pn d)"
    if p: "bn_parentId n = Some p" for p
  proof -
    obtain pn where pn: "js_get nodes p = Some pn" "bn_depth n = Suc (bn_depth pn)"
      "\<forall>d. cap_le (bn_limits n d) (bn_limits pn d) \<and> bn_consumed n d \<le> bn_consumed pn d"
      using nodes_okD(3) [OF assms(2,4)] p by (auto simp: linked_def)
    have "p \<in> set chain" if "b \<in> set chain"
      using assms(3,4) that p by (auto simp: chain_ok_def)
    with pn assms(1) dist show ?thesis
      by (cases "p \<in> set chain") (auto simp: accounts_def add_increasing2)
  qed
  with assms(1) show ?thesis by (auto simp: linked_def accounts_def)
qed

lemma nodes_ok_modify:
  assumes "accounts u f" "nodes_ok nodes" "chain_ok nodes chain"
    and limits: "\<And>b n. b \<in> set chain \<Longrightarrow> js_get nodes b = Some n \<Longrightarrow> within_limits (f n)"
  shows "nodes_ok (js_modify_all f chain nodes)"
proof -
  have dist: "distinct chain" using assms(3) by (simp add: chain_ok_def)
  have "bn_budgetId m = b \<and> bn_depth m \<le> MAX_BUDGET_DEPTH \<and>
      linked (js_modify_all f chain nodes) m \<and> within_limits m \<and> (\<forall>d. 0 \<le> bn_consumed m d)"
    if m: "js_get (js_modify_all f chain nodes) b = Some m" for b m
  proof -
    from m dist obtain n where n: "js_get nodes b = Some n" "m = (if b \<in> set chain then f n else n)"
      by (auto split: if_splits)
    with linked_modify [OF assms(1-3) n(1)] limits nodes_okD [OF assms(2) n(1)] assms(1)
    show ?thesis by (auto simp: accounts_def)
  qed
  with assms(2) show ?thesis by (simp add: nodes_ok_def)
qed

lemma nodes_ok_fresh:
  assumes "nodes_ok nodes" "js_get nodes b = None" "bn_budgetId n = b"
    "bn_depth n \<le> MAX_BUDGET_DEPTH" "linked nodes n" "within_limits n" "\<And>d. 0 \<le> bn_consumed n d"
  shows "nodes_ok (js_set b n nodes)"
proof -
  have "linked (js_set b n nodes) m" if "linked nodes m" for m
    unfolding linked_def
  proof (intro allI impI)
    fix p assume "bn_parentId m = Some p"
    with that obtain pn where "js_get nodes p = Some pn" "bn_depth m = Suc (bn_depth pn)"
      "\<forall>d. cap_le (bn_limits m d) (bn_limits pn d) \<and> bn_consumed m d \<le> bn_consumed pn d"
      by (auto simp: linked_def)
    moreover from this(1) assms(2) have "p \<noteq> b" by auto
    ultimately show "\<exists>pn. js_get (js_set b n nodes) p = Some pn \<and> bn_depth m = Suc (bn_depth pn) \<and>
        (\<forall>d. cap_le (bn_limits m d) (bn_limits pn d) \<and> bn_consumed m d \<le> bn_consumed pn d)"
      by simp
  qed
  with assms show ?thesis by (auto simp: nodes_ok_def)
qed

lemma reservation_ok_fresh:
  "reservation_ok nodes r \<Longrightarrow> js_get nodes b = None \<Longrightarrow> reservation_ok (js_set b n nodes) r"
  by (fastforce simp: reservation_ok_def chain_ok_def)

lemma open_total_unknown:
  assumes "reservations_ok l" "js_get (lg_nodes l) b = None"
  shows "open_total (lg_reservations l) b d = 0"
proof -
  have "open_amount b d x = 0" if "x \<in> set (lg_reservations l)" for x
  proof -
    obtain k r where x: "x = (k, r)" by (cases x)
    with that assms(1) have "reservation_ok (lg_nodes l) r"
      by (auto simp: reservations_ok_def dest: js_set_in_get)
    with assms(2) x show ?thesis by (fastforce simp: reservation_ok_def chain_ok_def open_amount_def)
  qed
  then show ?thesis unfolding open_total_def by (rule sum_list_map_zero)
qed

lemma open_total_nonneg:
  assumes "reservations_ok l"
  shows "0 \<le> open_total (lg_reservations l) b d"
proof -
  have "0 \<le> open_amount b d x" if "x \<in> set (lg_reservations l)" for x
    using assms that
    by (cases x) (fastforce simp: reservations_ok_def reservation_ok_def open_amount_def
        dest: js_set_in_get)
  then show ?thesis unfolding open_total_def by (rule sum_list_map_nonneg)
qed

section \<open>Every operation keeps the invariant\<close>

lemma ledger_inv_new: "ledger_inv createBudgetLedger"
  by (simp add: ledger_inv_def createBudgetLedger_def nodes_ok_def reservations_ok_def conserved_def)

lemma ledger_inv_add_node:
  assumes inv: "ledger_inv l" and fresh: "js_get (lg_nodes l) b = None"
    and n: "n = new_node b parent depth limits" "depth \<le> MAX_BUDGET_DEPTH" "linked (lg_nodes l) n"
    and caps: "\<And>d c. limits d = Some c \<Longrightarrow> 0 \<le> c"
  shows "ledger_inv (l\<lparr>lg_nodes := js_set b n (lg_nodes l)\<rparr>)"
proof -
  have "nodes_ok (js_set b n (lg_nodes l))"
    using inv fresh n caps
    by (intro nodes_ok_fresh)
      (auto simp: ledger_inv_def new_node_def within_limits_def zeroed_def MAX_SAFE_INTEGER_def)
  moreover have "reservations_ok (l\<lparr>lg_nodes := js_set b n (lg_nodes l)\<rparr>)"
    using inv fresh by (auto simp: ledger_inv_def reservations_ok_def intro: reservation_ok_fresh)
  moreover have "conserved (l\<lparr>lg_nodes := js_set b n (lg_nodes l)\<rparr>)"
    using inv n(1) open_total_unknown [OF _ fresh]
    by (auto simp: ledger_inv_def conserved_def new_node_def zeroed_def)
  ultimately show ?thesis by (simp add: ledger_inv_def)
qed

lemma createRoot_inv: "ledger_inv l \<Longrightarrow> ledger_inv (fst (createRoot l b limits))"
  by (auto simp: createRoot_def linked_def new_node_def split: result.splits
      intro!: ledger_inv_add_node [OF _ _ refl, unfolded new_node_def] dest: caps_of_nonneg)

lemma createChild_inv:
  assumes "ledger_inv l"
  shows "ledger_inv (fst (createChild l p b limits))"
proof -
  have "ledger_inv (l\<lparr>lg_nodes := js_set b (new_node b (Some p) (bn_depth pn + 1)
      (narrowLimits (bn_limits pn) (caps_of limits))) (lg_nodes l)\<rparr>)"
    if pn: "js_get (lg_nodes l) p = Some pn" "js_get (lg_nodes l) b = None"
      "bn_depth pn + 1 \<le> MAX_BUDGET_DEPTH" "validateLimits limits = Ok u" for pn u
  proof (rule ledger_inv_add_node [OF assms pn(2) refl pn(3)])
    have nodes: "nodes_ok (lg_nodes l)" using assms by (simp add: ledger_inv_def)
    show "linked (lg_nodes l) (new_node b (Some p) (bn_depth pn + 1)
        (narrowLimits (bn_limits pn) (caps_of limits)))"
      using pn(1) nodes_okD(5) [OF nodes pn(1)]
      by (simp add: linked_def new_node_def narrowLimits_le zeroed_def)
    have "0 \<le> bn_reserved pn d + bn_consumed pn d" for d
      using nodes_okD(5) [OF nodes pn(1)] open_total_nonneg [of l] assms pn(1)
      by (simp add: ledger_inv_def conserved_def)
    then show "0 \<le> c" if "narrowLimits (bn_limits pn) (caps_of limits) d = Some c" for d c
      using that caps_of_nonneg [OF pn(4)] nodes_okD(4) [OF nodes pn(1)]
      by (auto simp: narrowLimits_def within_limits_def split: option.splits) (meson order_trans)+
  qed
  with assms show ?thesis by (auto simp: createChild_def split: option.splits result.splits)
qed

lemma preflight_node_None:
  "preflight_node q n ds = None \<Longrightarrow> d \<in> set ds \<Longrightarrow>
     q d + bn_reserved n d + bn_consumed n d \<le> MAX_SAFE_INTEGER \<and>
     (\<forall>c. bn_limits n d = Some c \<longrightarrow> q d + bn_reserved n d + bn_consumed n d \<le> c)"
  by (induction q n ds rule: preflight_node.induct)
    (auto simp: remainingIn_def split: option.splits if_splits)

lemma preflight_within:
  assumes "preflight q ns = None" "n \<in> set ns"
  shows "within_limits (charge_reserved q n)"
proof -
  have "preflight_node q n BUDGET_DIMENSIONS = None"
    using assms by (induction q ns rule: preflight.induct) (auto split: option.splits)
  then show ?thesis
    using preflight_node_None [of q n BUDGET_DIMENSIONS] dimension_listed
    by (auto simp: within_limits_def charge_reserved_def algebra_simps)
qed

lemma reserve_Ok:
  assumes "reserve l b rid a = (l', Ok x)"
  shows "validateAmounts a = Ok ()" "\<exists>n. js_get (lg_nodes l) b = Some n"
    "js_get (lg_reservations l) rid = None" "preflight (filled a) (chainOf l b) = None"
    "lg_nodes l' = js_modify_all (charge_reserved (filled a)) (map bn_budgetId (chainOf l b)) (lg_nodes l)"
    "lg_reservations l' = js_set rid
       \<lparr>rv_reservationId = rid, rv_budgetId = b, rv_chain = map bn_budgetId (chainOf l b),
        rv_amounts = filled a, rv_open = True\<rparr> (lg_reservations l)"
  using assms by (auto simp: reserve_def Let_def split: result.splits option.splits if_splits)

lemma reserve_Err: "reserve l b rid a = (l', Err e) \<Longrightarrow> l' = l"
  by (auto simp: reserve_def Let_def split: result.splits option.splits if_splits)

lemma reserve_inv:
  assumes "ledger_inv l"
  shows "ledger_inv (fst (reserve l b rid a))"
proof (cases "reserve l b rid a")
  case (Pair l' res)
  show ?thesis
  proof (cases res)
    case (Err e)
    with Pair assms show ?thesis by (auto dest: reserve_Err)
  next
    case (Ok x)
    note ok = reserve_Ok [OF Pair [unfolded Ok]]
    let ?q = "filled a" and ?ids = "map bn_budgetId (chainOf l b)"
    have inv: "nodes_ok (lg_nodes l)" "reservations_ok l" "conserved l"
      using assms by (auto simp: ledger_inv_def)
    obtain n where n: "js_get (lg_nodes l) b = Some n" using ok(2) by blast
    have chain: "chain_ok (lg_nodes l) ?ids" "b \<in> set ?ids"
      using chainOf_chain_ok [OF inv(1) n] by auto
    have dist: "distinct ?ids" using chain(1) by (simp add: chain_ok_def)
    have "nodes_ok (lg_nodes l')"
      unfolding ok(5)
    proof (rule nodes_ok_modify [OF accounts_charge inv(1) chain(1)])
      fix c m assume "c \<in> set ?ids" and m: "js_get (lg_nodes l) c = Some m"
      then obtain y where y: "y \<in> set (chainOf l b)" "bn_budgetId y = c" by auto
      with chainOf_member [OF inv(1) n y(1)] have "js_get (lg_nodes l) c = Some y" by simp
      with y m have "m \<in> set (chainOf l b)" by simp
      with ok(4) show "within_limits (charge_reserved ?q m)" by (rule preflight_within)
    qed
    moreover have "reservations_ok l'"
      using inv(2) chain ok(5,6) filled_nonneg [OF ok(1)] dist
      by (auto simp: reservations_ok_def reservation_ok_def
          intro: chain_ok_modify [OF accounts_charge])
    moreover have "conserved l'"
      using inv(3) ok(3,5,6) dist
      by (auto simp: conserved_def open_total_def sum_list_js_set_fresh open_amount_def
          charge_reserved_def)
    ultimately show ?thesis using Pair by (simp add: ledger_inv_def)
  qed
qed

lemma within_limits_settle:
  assumes "within_limits n" "\<And>d. u d \<le> q d"
  shows "within_limits (settle_node q u n)"
proof -
  have le: "bn_reserved n d - q d + (bn_consumed n d + u d) \<le> bn_reserved n d + bn_consumed n d" for d
    using assms(2) [of d] by simp
  show ?thesis
    using assms(1) order_trans [OF le] by (auto simp: within_limits_def settle_node_def)
qed

text \<open>Closing a reservation: \<open>consume\<close> and \<open>release\<close> differ in what they add to consumption.\<close>

lemma close_reservation_inv:
  assumes inv: "ledger_inv l" and r: "js_get (lg_reservations l) rid = Some r" "rv_open r"
    and u: "\<And>d. 0 \<le> u d" "\<And>d. u d \<le> rv_amounts r d"
  shows "ledger_inv \<lparr>lg_nodes = js_modify_all (settle_node (rv_amounts r) u) (rv_chain r) (lg_nodes l),
      lg_reservations = js_set rid (r\<lparr>rv_open := False\<rparr>) (lg_reservations l)\<rparr>" (is "ledger_inv ?l")
proof -
  have parts: "nodes_ok (lg_nodes l)" "reservations_ok l" "conserved l"
    using inv by (auto simp: ledger_inv_def)
  have chain: "chain_ok (lg_nodes l) (rv_chain r)" and dist: "distinct (rv_chain r)"
    using parts(2) r by (auto simp: reservations_ok_def reservation_ok_def chain_ok_def)
  have "nodes_ok (lg_nodes ?l)"
    using nodes_okD(4) [OF parts(1)] within_limits_settle u(2)
    by (auto intro!: nodes_ok_modify [OF accounts_settle [OF u(1)] parts(1) chain])
  moreover have "reservations_ok ?l"
    using parts(2) r dist
    by (auto simp: reservations_ok_def reservation_ok_def
        intro: chain_ok_modify [OF accounts_settle [OF u(1)]])
  moreover have "conserved ?l"
    using parts r dist
    by (auto simp: conserved_def open_total_def reservations_ok_def sum_list_js_set
        open_amount_def settle_node_def)
  ultimately show ?thesis by (simp add: ledger_inv_def)
qed

lemma over_consumed_None:
  "over_consumed u q ds = None \<Longrightarrow> d \<in> set ds \<Longrightarrow> u d \<le> q d"
  by (induction u q ds rule: over_consumed.induct) (auto split: if_splits)

lemma consume_Ok:
  assumes "consume l rid a = (l', Ok x)"
  shows "\<exists>r. validateAmounts a = Ok () \<and> js_get (lg_reservations l) rid = Some r \<and> rv_open r \<and>
    over_consumed (filled a) (rv_amounts r) BUDGET_DIMENSIONS = None \<and>
    l' = \<lparr>lg_nodes = js_modify_all (settle_node (rv_amounts r) (filled a)) (rv_chain r) (lg_nodes l),
          lg_reservations = js_set rid (r\<lparr>rv_open := False\<rparr>) (lg_reservations l)\<rparr>"
  using assms by (auto simp: consume_def Let_def split: result.splits option.splits if_splits)

lemma consume_Err: "consume l rid a = (l', Err e) \<Longrightarrow> l' = l"
  by (auto simp: consume_def Let_def split: result.splits option.splits if_splits)

lemma consume_inv:
  assumes "ledger_inv l"
  shows "ledger_inv (fst (consume l rid a))"
proof (cases "consume l rid a")
  case (Pair l' res)
  show ?thesis
  proof (cases res)
    case (Err e)
    with Pair assms show ?thesis by (auto dest: consume_Err)
  next
    case (Ok x)
    with consume_Ok Pair obtain r where
      "validateAmounts a = Ok ()" "js_get (lg_reservations l) rid = Some r" "rv_open r"
      "over_consumed (filled a) (rv_amounts r) BUDGET_DIMENSIONS = None"
      "l' = \<lparr>lg_nodes = js_modify_all (settle_node (rv_amounts r) (filled a)) (rv_chain r) (lg_nodes l),
          lg_reservations = js_set rid (r\<lparr>rv_open := False\<rparr>) (lg_reservations l)\<rparr>"
      by blast
    then show ?thesis
      using Pair close_reservation_inv [OF assms] filled_nonneg over_consumed_None dimension_listed
      by fastforce
  qed
qed

lemma release_node_settle: "release_node q = settle_node q (\<lambda>_. 0)"
  by (rule ext) (simp add: release_node_def settle_node_def)

lemma release_inv:
  assumes "ledger_inv l"
  shows "ledger_inv (fst (release l rid))"
proof (cases "js_get (lg_reservations l) rid")
  case None
  with assms show ?thesis by (simp add: release_def)
next
  case (Some r)
  moreover from this assms have "0 \<le> rv_amounts r d" for d
    by (simp add: ledger_inv_def reservations_ok_def reservation_ok_def)
  ultimately show ?thesis
    using assms close_reservation_inv [OF assms Some, of "\<lambda>_. 0"]
    by (simp add: release_def release_node_settle)
qed

interpretation ledger_safety: safety_machine "\<lambda>l. l = createBudgetLedger" ledger_step ledger_inv
proof
  show "ledger_inv s" if "s = createBudgetLedger" for s
    using that ledger_inv_new by simp
  show "ledger_inv t" if "ledger_inv s" "ledger_step s t" for s t
    using that(2,1)
    by (cases rule: ledger_step.cases)
      (simp_all add: createRoot_inv createChild_inv reserve_inv consume_inv release_inv)
qed

abbreviation ledger_reachable :: "ledger \<Rightarrow> bool" where
  "ledger_reachable \<equiv> reachable (\<lambda>l. l = createBudgetLedger) ledger_step"

section \<open>Properties\<close>

lemma ledger_reachable_steps:
  "ledger_reachable createBudgetLedger"
  "ledger_reachable l \<Longrightarrow> ledger_reachable (fst (createRoot l b limits))"
  "ledger_reachable l \<Longrightarrow> ledger_reachable (fst (createChild l p b limits))"
  "ledger_reachable l \<Longrightarrow> ledger_reachable (fst (reserve l b rid amounts))"
  "ledger_reachable l \<Longrightarrow> ledger_reachable (fst (consume l rid actual))"
  "ledger_reachable l \<Longrightarrow> ledger_reachable (fst (release l rid))"
  by (auto intro: reachable.intros ledger_step.intros)

text \<open>A small ledger the witnesses run on: a root of ten units in every dimension, a child that
  asks for more and is narrowed to ten, and one open reservation of three on the child.\<close>

definition demo_root :: ledger where
  "demo_root = fst (createRoot createBudgetLedger ''root'' (\<lambda>_. Num (JInt 10)))"

definition demo_tree :: ledger where
  "demo_tree = fst (createChild demo_root ''root'' ''child'' (\<lambda>_. Num (JInt 50)))"

definition demo_reserved :: ledger where
  "demo_reserved = fst (reserve demo_tree ''child'' ''r1'' (\<lambda>_. Num (JInt 3)))"

lemmas demo_defs = demo_reserved_def demo_tree_def demo_root_def createBudgetLedger_def
  createRoot_def createChild_def reserve_def consume_def release_def validateLimits_def
  validateAmounts_def validateValues_def BUDGET_DIMENSIONS_def is_safe_int_def MAX_SAFE_INTEGER_def
  caps_of_def new_node_def narrowLimits_def MAX_BUDGET_DEPTH_def chainOf_def filled_def zeroed_def
  remainingIn_def charge_reserved_def js_modify_def Let_def

lemma demo_reachable:
  "ledger_reachable demo_root" "ledger_reachable demo_tree" "ledger_reachable demo_reserved"
  unfolding demo_reserved_def demo_tree_def demo_root_def
  by (intro ledger_reachable_steps)+

lemma demo_child_node:
  "\<exists>n. js_get (lg_nodes demo_reserved) ''child'' = Some n \<and> bn_reserved n Tokens = 3 \<and>
       bn_limits n Tokens = Some 10 \<and> bn_parentId n = Some ''root''"
  by (simp add: demo_defs eval_nat_numeral)

lemma demo_root_node:
  "\<exists>n. js_get (lg_nodes demo_reserved) ''root'' = Some n \<and> bn_reserved n Tokens = 3"
  by (simp add: demo_defs eval_nat_numeral)

text \<open>C2. Budgets are never overspent. In every state the ledger's methods can reach, each
  counter of each budget is non-negative, what is reserved plus what is consumed stays within
  the budget's limit and within exact integer arithmetic, and what is reserved is exactly the
  sum of the open reservations that charge the budget: no reservation is lost or counted twice.\<close>

theorem ledger_never_overspends:
  assumes "ledger_reachable l" and "js_get (lg_nodes l) b = Some n"
  shows "0 \<le> bn_reserved n d \<and> 0 \<le> bn_consumed n d \<and>
         bn_reserved n d + bn_consumed n d \<le> MAX_SAFE_INTEGER \<and>
         (\<forall>c. bn_limits n d = Some c \<longrightarrow> bn_reserved n d + bn_consumed n d \<le> c) \<and>
         bn_reserved n d = open_total (lg_reservations l) b d"
proof -
  have inv: "ledger_inv l" by (rule ledger_safety.always [OF assms(1)])
  then have "bn_reserved n d = open_total (lg_reservations l) b d"
    using assms(2) by (simp add: ledger_inv_def conserved_def)
  moreover have "0 \<le> open_total (lg_reservations l) b d"
    using inv by (simp add: ledger_inv_def open_total_nonneg)
  moreover have "within_limits n" "0 \<le> bn_consumed n d"
    using inv nodes_okD(4,5) [OF _ assms(2)] by (simp_all add: ledger_inv_def)
  ultimately show ?thesis unfolding within_limits_def by metis
qed

theorem ledger_never_overspends_witness:
  "\<exists>n. ledger_reachable demo_reserved \<and> js_get (lg_nodes demo_reserved) ''child'' = Some n \<and>
       bn_reserved n Tokens = 3 \<and> open_total (lg_reservations demo_reserved) ''child'' Tokens = 3"
  using demo_child_node demo_reachable(3) ledger_never_overspends [OF demo_reachable(3)]
  by (metis (full_types))

text \<open>C5. A child cannot spend what its ancestors do not have. In every reachable ledger, a
  budget's limit is at most its parent's in every dimension (an unlimited request inherits the
  parent's limit), and its open reservations and its consumption are at most the parent's.\<close>

theorem child_within_parent:
  assumes "ledger_reachable l" and "js_get (lg_nodes l) b = Some n" and "bn_parentId n = Some p"
  shows "\<exists>pn. js_get (lg_nodes l) p = Some pn \<and> cap_le (bn_limits n d) (bn_limits pn d) \<and>
           bn_reserved n d \<le> bn_reserved pn d \<and> bn_consumed n d \<le> bn_consumed pn d"
proof -
  have inv: "nodes_ok (lg_nodes l)" "reservations_ok l" "conserved l"
    using ledger_safety.always [OF assms(1)] by (auto simp: ledger_inv_def)
  obtain pn where pn: "js_get (lg_nodes l) p = Some pn" "cap_le (bn_limits n d) (bn_limits pn d)"
    "bn_consumed n d \<le> bn_consumed pn d"
    using nodes_okD(3) [OF inv(1) assms(2)] assms(3) by (auto simp: linked_def)
  have "open_amount b d x \<le> open_amount p d x" if "x \<in> set (lg_reservations l)" for x
  proof -
    obtain k r where x: "x = (k, r)" by (cases x)
    with that inv(2) have "reservation_ok (lg_nodes l) r"
      by (auto simp: reservations_ok_def dest: js_set_in_get)
    with assms(2,3) x show ?thesis
      by (auto simp: reservation_ok_def chain_ok_def open_amount_def)
  qed
  then have "open_total (lg_reservations l) b d \<le> open_total (lg_reservations l) p d"
    unfolding open_total_def by (rule sum_list_int_mono)
  with pn inv(3) assms(2) show ?thesis by (auto simp: conserved_def)
qed

theorem child_within_parent_witness:
  "\<exists>n pn. js_get (lg_nodes demo_reserved) ''child'' = Some n \<and> bn_parentId n = Some ''root'' \<and>
       js_get (lg_nodes demo_reserved) ''root'' = Some pn \<and> bn_reserved n Tokens \<le> bn_reserved pn Tokens"
  using demo_child_node child_within_parent [OF demo_reachable(3), of "''child''" _ "''root''" Tokens]
  by metis

lemma preflight_None_iff:
  "preflight q ns = None \<longleftrightarrow> (\<forall>n \<in> set ns. preflight_node q n BUDGET_DIMENSIONS = None)"
  by (induction q ns rule: preflight.induct) (auto split: option.splits)

definition has_room :: "budget_record \<Rightarrow> budget_node \<Rightarrow> bool" where
  "has_room q n \<longleftrightarrow> (\<forall>d. bn_reserved n d + bn_consumed n d + q d \<le> MAX_SAFE_INTEGER \<and>
     (\<forall>c. bn_limits n d = Some c \<longrightarrow> bn_reserved n d + bn_consumed n d + q d \<le> c))"

lemma preflight_node_room:
  "preflight_node q n ds = None \<longleftrightarrow>
     (\<forall>d \<in> set ds. bn_reserved n d + bn_consumed n d + q d \<le> MAX_SAFE_INTEGER \<and>
       (\<forall>c. bn_limits n d = Some c \<longrightarrow> bn_reserved n d + bn_consumed n d + q d \<le> c))"
  by (induction q n ds rule: preflight_node.induct)
    (auto simp: remainingIn_def split: option.splits if_splits)

lemma preflight_has_room: "preflight q ns = None \<longleftrightarrow> (\<forall>n \<in> set ns. has_room q n)"
  using dimension_listed by (auto simp: preflight_None_iff preflight_node_room has_room_def)

text \<open>A reservation is all or nothing, and it is refused only for a reason: \<open>reserve\<close>
  succeeds exactly when the amounts are valid, the budget exists, the identifier is unused and
  every budget from the requested one up to the root has room in every dimension. When it
  succeeds, each budget of that chain holds the requested amounts on top of what it held and
  every other budget is untouched; when it is refused, the ledger is unchanged.\<close>

theorem reserve_all_or_nothing:
  assumes "ledger_reachable l" and "reserve l b rid a = (l', res)"
  shows "(is_ok res \<longleftrightarrow> validateAmounts a = Ok () \<and> js_has (lg_nodes l) b \<and>
            \<not> js_has (lg_reservations l) rid \<and> (\<forall>n \<in> set (chainOf l b). has_room (filled a) n)) \<and>
         (is_ok res \<longrightarrow> (\<forall>c. js_get (lg_nodes l') c =
            (if c \<in> bn_budgetId ` set (chainOf l b)
             then map_option (charge_reserved (filled a)) (js_get (lg_nodes l) c)
             else js_get (lg_nodes l) c))) \<and>
         (\<not> is_ok res \<longrightarrow> l' = l)"
proof -
  have nodes: "nodes_ok (lg_nodes l)"
    using ledger_safety.always [OF assms(1)] by (simp add: ledger_inv_def)
  have "is_ok res \<longleftrightarrow> validateAmounts a = Ok () \<and> js_has (lg_nodes l) b \<and>
      \<not> js_has (lg_reservations l) rid \<and> preflight (filled a) (chainOf l b) = None"
    using assms(2)
    by (auto simp: reserve_def Let_def split: result.splits option.splits if_splits)
  moreover have "js_get (lg_nodes l') c =
      (if c \<in> bn_budgetId ` set (chainOf l b)
       then map_option (charge_reserved (filled a)) (js_get (lg_nodes l) c)
       else js_get (lg_nodes l) c)" if "is_ok res" for c
  proof -
    from that obtain x where res: "res = Ok x" by (cases res) auto
    note ok = reserve_Ok [OF assms(2) [unfolded res]]
    obtain n where "js_get (lg_nodes l) b = Some n" using ok(2) by blast
    then have "distinct (map bn_budgetId (chainOf l b))"
      using chainOf_chain_ok [OF nodes] by (simp add: chain_ok_def)
    then show ?thesis unfolding ok(5) by simp
  qed
  moreover have "l' = l" if "\<not> is_ok res"
    using that assms(2) by (cases res) (auto dest: reserve_Err)
  ultimately show ?thesis by (simp add: preflight_has_room)
qed

theorem reserve_all_or_nothing_witness:
  "ledger_reachable demo_reserved \<and>
   fst (reserve demo_reserved ''child'' ''r2'' (\<lambda>_. Num (JInt 8))) = demo_reserved \<and>
   is_ok (snd (reserve demo_reserved ''child'' ''r2'' (\<lambda>_. Num (JInt 7))))"
proof -
  have "\<not> is_ok (snd (reserve demo_reserved ''child'' ''r2'' (\<lambda>_. Num (JInt 8))))"
    by (simp add: demo_defs eval_nat_numeral)
  moreover have "is_ok (snd (reserve demo_reserved ''child'' ''r2'' (\<lambda>_. Num (JInt 7))))"
    by (simp add: demo_defs eval_nat_numeral)
  ultimately show ?thesis
    using demo_reachable(3)
      reserve_all_or_nothing [OF demo_reachable(3) prod.collapse [symmetric],
        of "''child''" "''r2''" "\<lambda>_. Num (JInt 8)"]
    by blast
qed

text \<open>C23. Releasing returns everything. After a successful reservation, \<open>release\<close> succeeds and
  every budget's record is exactly what it was before the reservation was taken; releasing it
  a second time succeeds and changes nothing, and consuming it then is refused.\<close>

theorem reserve_release_roundtrip:
  assumes "ledger_reachable l" and "reserve l b rid a = (l1, Ok rid)"
  shows "\<exists>l2. release l1 rid = (l2, Ok ()) \<and> (\<forall>c. js_get (lg_nodes l2) c = js_get (lg_nodes l) c) \<and>
           release l2 rid = (l2, Ok ()) \<and> fst (consume l2 rid actual) = l2 \<and>
           \<not> is_ok (snd (consume l2 rid actual))"
proof -
  note ok = reserve_Ok [OF assms(2)]
  let ?ids = "map bn_budgetId (chainOf l b)"
  have nodes: "nodes_ok (lg_nodes l)"
    using ledger_safety.always [OF assms(1)] by (simp add: ledger_inv_def)
  obtain n where "js_get (lg_nodes l) b = Some n" using ok(2) by blast
  then have dist: "distinct ?ids"
    using chainOf_chain_ok [OF nodes] by (simp add: chain_ok_def)
  have undo: "release_node q (charge_reserved q m) = m" for q m
    by (simp add: release_node_def charge_reserved_def)
  define l2 where "l2 = fst (release l1 rid)"
  have r1: "js_get (lg_reservations l1) rid = Some \<lparr>rv_reservationId = rid, rv_budgetId = b,
      rv_chain = ?ids, rv_amounts = filled a, rv_open = True\<rparr>"
    by (simp add: ok(6))
  then have rel: "release l1 rid = (l2, Ok ())"
    "lg_nodes l2 = js_modify_all (release_node (filled a)) ?ids (lg_nodes l1)"
    by (simp_all add: l2_def release_def)
  have "js_get (lg_nodes l2) c = js_get (lg_nodes l) c" for c
    using dist by (simp add: rel(2) ok(5) option.map_comp comp_def undo option.map_ident)
  moreover have "\<exists>r. js_get (lg_reservations l2) rid = Some r \<and> \<not> rv_open r"
    using r1 by (simp add: l2_def release_def)
  ultimately show ?thesis
    using rel(1) by (auto simp: release_def consume_def split: result.splits)
qed

theorem reserve_release_roundtrip_witness:
  "\<exists>l2. release demo_reserved ''r1'' = (l2, Ok ()) \<and>
     js_get (lg_nodes l2) ''child'' = js_get (lg_nodes demo_tree) ''child''"
proof -
  have "reserve demo_tree ''child'' ''r1'' (\<lambda>_. Num (JInt 3)) = (demo_reserved, Ok ''r1'')"
    by (simp add: demo_defs eval_nat_numeral)
  from reserve_release_roundtrip [OF demo_reachable(2) this] show ?thesis by blast
qed

end
