(* ===== verification/Foundation.thy ===== *)
theory Foundation
  imports Prelude
begin

text \<open>
  The foundation layer (\<^verbatim>\<open>src/domain/foundation\<close>): untrusted values, the identifier and
  integer codecs of \<^verbatim>\<open>identity.ts\<close>, instants and durations of \<^verbatim>\<open>clock.ts\<close>, and the
  deadline algebra of \<^verbatim>\<open>deadline.ts\<close>. A clock read is an argument \<open>now\<close> of the operations
  that read it. An identifier is a \<open>string\<close>: the codec admits printable ASCII only, so every
  accepted identifier is one, and a code unit above 255 is refused by the same branch as
  any other illegal character.
\<close>

section \<open>Untrusted values\<close>

datatype js_value = JStr string | JNum js_number | JOther

section \<open>Identities\<close>

definition MAX_IDENTIFIER_LENGTH :: nat where
  "MAX_IDENTIFIER_LENGTH = 128"

datatype identity_error_code =
    Identifier_Empty
  | Identifier_Too_Long
  | Identifier_Illegal_Character
  | Identifier_Not_A_String
  | Number_Not_An_Integer
  | Number_Out_Of_Range

record identity_error =
  ie_code :: identity_error_code
  ie_identity :: string

definition identityError :: "identity_error_code \<Rightarrow> string \<Rightarrow> identity_error" where
  "identityError code identity = \<lparr>ie_code = code, ie_identity = identity\<rparr>"

definition legal_char :: "char \<Rightarrow> bool" where
  "legal_char c \<longleftrightarrow> 33 \<le> (of_char c :: nat) \<and> (of_char c :: nat) \<le> 126"

definition LEGAL_IDENTIFIER :: "string \<Rightarrow> bool" where
  "LEGAL_IDENTIFIER s \<longleftrightarrow> s \<noteq> [] \<and> list_all legal_char s"

fun parse_identifier :: "string \<Rightarrow> js_value \<Rightarrow> (string, identity_error) result" where
  "parse_identifier identity (JStr s) =
     (if length s = 0 then Err (identityError Identifier_Empty identity)
      else if length s > MAX_IDENTIFIER_LENGTH then Err (identityError Identifier_Too_Long identity)
      else if \<not> LEGAL_IDENTIFIER s then Err (identityError Identifier_Illegal_Character identity)
      else Ok s)"
| "parse_identifier identity _ = Err (identityError Identifier_Not_A_String identity)"

text \<open>\<open>from\<close> throws where \<open>parse\<close> refuses: \<open>Inl\<close> is the thrown error.\<close>

definition identifier_from :: "string \<Rightarrow> string \<Rightarrow> identity_error + string" where
  "identifier_from identity s =
     (case parse_identifier identity (JStr s) of Ok v \<Rightarrow> Inr v | Err e \<Rightarrow> Inl e)"

fun parse_integer :: "string \<Rightarrow> int \<Rightarrow> js_value \<Rightarrow> (int, identity_error) result" where
  "parse_integer identity minimum (JNum (JInt n)) =
     (if \<not> is_safe_int n then Err (identityError Number_Not_An_Integer identity)
      else if n < minimum then Err (identityError Number_Out_Of_Range identity)
      else Ok n)"
| "parse_integer identity minimum _ = Err (identityError Number_Not_An_Integer identity)"

definition FIRST_SEQUENCE :: int where "FIRST_SEQUENCE = 1"

definition FIRST_CONFIGURATION_GENERATION :: int where "FIRST_CONFIGURATION_GENERATION = 0"

definition nextSequence :: "int \<Rightarrow> int" where "nextSequence current = current + 1"

section \<open>Time\<close>

type_synonym instant = int
type_synonym duration = int

datatype time_error = Instant_Not_An_Integer | Duration_Not_An_Integer | Duration_Out_Of_Range

fun parseInstant :: "js_value \<Rightarrow> (instant, time_error) result" where
  "parseInstant (JNum (JInt n)) = (if is_safe_int n then Ok n else Err Instant_Not_An_Integer)"
| "parseInstant _ = Err Instant_Not_An_Integer"

fun parseDuration :: "js_value \<Rightarrow> (duration, time_error) result" where
  "parseDuration (JNum (JInt n)) =
     (if \<not> is_safe_int n then Err Duration_Not_An_Integer
      else if n < 0 then Err Duration_Out_Of_Range
      else Ok n)"
| "parseDuration _ = Err Duration_Not_An_Integer"

definition addDuration :: "instant \<Rightarrow> duration \<Rightarrow> instant" where
  "addDuration start span = start + span"

definition elapsedBetween :: "instant \<Rightarrow> instant \<Rightarrow> duration" where
  "elapsedBetween start finish = max 0 (finish - start)"

section \<open>Deadlines\<close>

record deadline =
  expiresAt :: instant

definition deadlineAt :: "instant \<Rightarrow> deadline" where
  "deadlineAt t = \<lparr>expiresAt = t\<rparr>"

definition deadlineIn :: "instant \<Rightarrow> duration \<Rightarrow> deadline" where
  "deadlineIn now span = \<lparr>expiresAt = addDuration now span\<rparr>"

fun deriveDeadline :: "deadline option \<Rightarrow> deadline option \<Rightarrow> deadline option" where
  "deriveDeadline None requested = requested"
| "deriveDeadline (Some inherited) None = Some inherited"
| "deriveDeadline (Some inherited) (Some requested) =
     (if expiresAt requested < expiresAt inherited then Some requested else Some inherited)"

fun enlargesDeadline :: "deadline option \<Rightarrow> deadline option \<Rightarrow> bool" where
  "enlargesDeadline (Some inherited) (Some requested) = (expiresAt requested > expiresAt inherited)"
| "enlargesDeadline _ _ = False"

definition isExpired :: "deadline \<Rightarrow> instant \<Rightarrow> bool" where
  "isExpired d now \<longleftrightarrow> now \<ge> expiresAt d"

definition remainingDuration :: "deadline \<Rightarrow> instant \<Rightarrow> duration" where
  "remainingDuration d now = elapsedBetween now (expiresAt d)"

text \<open>The order deadlines live in: no deadline is the loosest.\<close>

fun tighter :: "deadline option \<Rightarrow> deadline option \<Rightarrow> bool" where
  "tighter _ None = True"
| "tighter None (Some _) = False"
| "tighter (Some a) (Some b) = (expiresAt a \<le> expiresAt b)"

section \<open>Lemmas\<close>

lemma tighter_refl [simp]: "tighter d d"
  by (cases d) auto

lemma tighter_trans: "tighter a b \<Longrightarrow> tighter b c \<Longrightarrow> tighter a c"
  by (cases a; cases b; cases c) auto

lemma deriveDeadline_tighter_parent: "tighter (deriveDeadline p r) p"
  by (cases p; cases r) auto

lemma deriveDeadline_tighter_request: "tighter (deriveDeadline p r) r"
  by (cases p; cases r) auto

lemma deriveDeadline_greatest: "tighter d p \<Longrightarrow> tighter d r \<Longrightarrow> tighter d (deriveDeadline p r)"
  by (cases p; cases r) auto

lemma deriveDeadline_choice: "deriveDeadline p r \<in> {p, r}"
  by (cases p; cases r) auto

lemma isExpired_mono:
  "tighter (Some a) (Some b) \<Longrightarrow> isExpired b now \<Longrightarrow> isExpired a now"
  by (simp add: isExpired_def)

lemma remainingDuration_zero_iff: "remainingDuration d now = 0 \<longleftrightarrow> isExpired d now"
  by (auto simp: remainingDuration_def elapsedBetween_def isExpired_def)

lemma identifier_from_Inr: "identifier_from n s = Inr v \<Longrightarrow>
   v = s \<and> s \<noteq> [] \<and> length s \<le> 128 \<and> list_all legal_char s"
  by (auto simp: identifier_from_def MAX_IDENTIFIER_LENGTH_def LEGAL_IDENTIFIER_def
      split: result.splits if_splits)

end
