(* ===== verification/Bounded_Queue.thy ===== *)
theory Bounded_Queue
  imports Foundation
begin

text \<open>
  Bounded queues: the contract of \<^verbatim>\<open>src/domain/orchestration/queue.ts\<close> and the queue of
  \<^verbatim>\<open>src/application/orchestration/bounded-queue.ts\<close>.

  The queue is the record of the closure's variables. \<open>enqueue\<close> is asynchronous under the
  \<open>wait\<close> and \<open>spill\<close> policies, so it is split where it awaits: \<open>enqueue\<close> runs up to the
  outcome or the suspension, \<open>resume\<close> runs a waiting producer after its promise settled, and
  \<open>finishSpill\<close> after the artifact port answered. A waiter carries its request (the closure's
  captured variable) and a ticket, the identity of its promise; \<open>bq_settled\<close> holds the
  producers whose promise has settled but whose continuation has not run, so that any other
  method may run in between, as the event loop allows. The artifact port is outside the
  repository's queue: the handle it answers with is an argument.
\<close>

section \<open>Contracts (queue.ts)\<close>

type_synonym queue_item_id = string

record artifact_handle =
  ah_artifactId :: string
  ah_byteLength :: int

datatype overflow_policy = Policy_Reject | Policy_Wait | Policy_Spill | Policy_Coalesce

record queue_limits =
  ql_maxItems :: int
  ql_maxBytes :: int
  ql_maxItemAgeMs :: duration
  ql_overflow :: overflow_policy

record 'p queue_item =
  qi_id :: queue_item_id
  qi_byteLength :: int
  qi_enqueuedAt :: instant
  qi_coalescable :: bool
  qi_mergeKey :: "string option"
  qi_payload :: 'p

datatype limit_kind = Limit_Items | Limit_Bytes | Limit_Age

datatype 'p enqueue_outcome =
    Accepted
  | Coalesced "'p queue_item"
  | Spilled artifact_handle
  | Waited
  | Enqueue_Cancelled
  | Rejected limit_kind int int

record queue_report =
  qr_items :: nat
  qr_bytes :: int
  qr_maxItems :: int
  qr_maxBytes :: int
  qr_waiting :: nat
  qr_accepted :: nat
  qr_coalesced :: nat
  qr_spilled :: nat
  qr_rejected :: nat
  qr_expired :: nat

section \<open>The queue (bounded-queue.ts)\<close>

record 'p enqueue_request =
  er_id :: queue_item_id
  er_byteLength :: int
  er_coalescable :: bool
  er_mergeKey :: "string option"
  er_payload :: 'p

record 'p bqueue =
  bq_limits :: queue_limits
  bq_spill :: bool
  bq_items :: "'p queue_item list"
  bq_bytes :: int
  bq_waiters :: "(nat \<times> 'p enqueue_request) list"
  bq_settled :: "(nat \<times> bool \<times> 'p enqueue_request) list"
  bq_spilling :: "nat list"
  bq_next :: nat
  bq_accepted :: nat
  bq_coalesced :: nat
  bq_spilled :: nat
  bq_rejected :: nat
  bq_expired :: nat

datatype 'p enqueue_progress = Finished "'p enqueue_outcome" | Suspended nat

definition createBoundedQueue :: "queue_limits \<Rightarrow> bool \<Rightarrow> 'p bqueue" where
  "createBoundedQueue limits spill =
     \<lparr>bq_limits = limits, bq_spill = spill, bq_items = [], bq_bytes = 0, bq_waiters = [],
      bq_settled = [], bq_spilling = [], bq_next = 0, bq_accepted = 0, bq_coalesced = 0,
      bq_spilled = 0, bq_rejected = 0, bq_expired = 0\<rparr>"

fun expire_loop ::
  "instant \<Rightarrow> duration \<Rightarrow> 'p queue_item list \<Rightarrow> int \<Rightarrow> nat \<Rightarrow> 'p queue_item list \<times> int \<times> nat" where
  "expire_loop now maxAge [] bytes expired = ([], bytes, expired)"
| "expire_loop now maxAge (oldest # rest) bytes expired =
     (if elapsedBetween (qi_enqueuedAt oldest) now \<le> maxAge then (oldest # rest, bytes, expired)
      else expire_loop now maxAge rest (bytes - qi_byteLength oldest) (expired + 1))"

definition expire :: "instant \<Rightarrow> 'p bqueue \<Rightarrow> 'p bqueue" where
  "expire now q =
     (case expire_loop now (ql_maxItemAgeMs (bq_limits q)) (bq_items q) (bq_bytes q) (bq_expired q) of
        (items, bytes, expired) \<Rightarrow> q\<lparr>bq_items := items, bq_bytes := bytes, bq_expired := expired\<rparr>)"

definition hasRoomFor :: "'p bqueue \<Rightarrow> int \<Rightarrow> bool" where
  "hasRoomFor q byteLength \<longleftrightarrow>
     int (length (bq_items q)) + 1 \<le> ql_maxItems (bq_limits q) \<and>
     bq_bytes q + byteLength \<le> ql_maxBytes (bq_limits q)"

definition item_of :: "'p enqueue_request \<Rightarrow> instant \<Rightarrow> 'p queue_item" where
  "item_of request at =
     \<lparr>qi_id = er_id request, qi_byteLength = er_byteLength request, qi_enqueuedAt = at,
      qi_coalescable = er_coalescable request, qi_mergeKey = er_mergeKey request,
      qi_payload = er_payload request\<rparr>"

definition admit :: "'p enqueue_request \<Rightarrow> instant \<Rightarrow> 'p bqueue \<Rightarrow> 'p bqueue" where
  "admit request at q =
     q\<lparr>bq_items := bq_items q @ [item_of request at], bq_bytes := bq_bytes q + er_byteLength request\<rparr>"

definition releaseOneWaiter :: "'p bqueue \<Rightarrow> 'p bqueue" where
  "releaseOneWaiter q =
     (case bq_waiters q of
        [] \<Rightarrow> q
      | (ticket, request) # rest \<Rightarrow>
          q\<lparr>bq_waiters := rest, bq_settled := bq_settled q @ [(ticket, True, request)]\<rparr>)"

definition overflowLimit :: "'p bqueue \<Rightarrow> int \<Rightarrow> 'p enqueue_outcome" where
  "overflowLimit q byteLength =
     (if int (length (bq_items q)) + 1 > ql_maxItems (bq_limits q)
      then Rejected Limit_Items (ql_maxItems (bq_limits q)) (int (length (bq_items q)))
      else Rejected Limit_Bytes (ql_maxBytes (bq_limits q)) (bq_bytes q + byteLength))"

definition reject :: "'p bqueue \<Rightarrow> int \<Rightarrow> 'p bqueue \<times> 'p enqueue_progress" where
  "reject q byteLength =
     (q\<lparr>bq_rejected := bq_rejected q + 1\<rparr>, Finished (overflowLimit q byteLength))"

text \<open>\<open>items.findIndex(...)\<close> followed by \<open>items.splice(index, 1)\<close>.\<close>

fun take_first :: "('a \<Rightarrow> bool) \<Rightarrow> 'a list \<Rightarrow> ('a \<times> 'a list) option" where
  "take_first P [] = None"
| "take_first P (x # xs) =
     (if P x then Some (x, xs)
      else case take_first P xs of None \<Rightarrow> None | Some (y, ys) \<Rightarrow> Some (y, x # ys))"

definition coalesce :: "'p bqueue \<Rightarrow> instant \<Rightarrow> 'p enqueue_request \<Rightarrow> 'p bqueue \<times> 'p enqueue_progress" where
  "coalesce q now request =
     (case (case er_mergeKey request of
              None \<Rightarrow> None
            | Some key \<Rightarrow>
                take_first (\<lambda>item. qi_coalescable item \<and> qi_mergeKey item = Some key) (bq_items q)) of
        None \<Rightarrow> reject q (er_byteLength request)
      | Some (replaced, rest) \<Rightarrow>
          if \<not> er_coalescable request then reject q (er_byteLength request)
          else let q' = admit request now
                          (q\<lparr>bq_items := rest, bq_bytes := bq_bytes q - qi_byteLength replaced\<rparr>)
               in (q'\<lparr>bq_coalesced := bq_coalesced q' + 1\<rparr>, Finished (Coalesced replaced)))"

text \<open>\<open>aborted\<close> is \<open>signal?.aborted === true\<close> at the call.\<close>

definition enqueue ::
  "'p bqueue \<Rightarrow> instant \<Rightarrow> bool \<Rightarrow> 'p enqueue_request \<Rightarrow> 'p bqueue \<times> 'p enqueue_progress" where
  "enqueue q0 now aborted request =
     (let q = expire now q0 in
      if hasRoomFor q (er_byteLength request)
      then let q' = admit request now q in (q'\<lparr>bq_accepted := bq_accepted q' + 1\<rparr>, Finished Accepted)
      else case ql_overflow (bq_limits q) of
             Policy_Reject \<Rightarrow> reject q (er_byteLength request)
           | Policy_Coalesce \<Rightarrow> coalesce q now request
           | Policy_Spill \<Rightarrow>
               if \<not> bq_spill q then reject q (er_byteLength request)
               else (q\<lparr>bq_spilling := bq_spilling q @ [bq_next q], bq_next := bq_next q + 1\<rparr>,
                     Suspended (bq_next q))
           | Policy_Wait \<Rightarrow>
               if aborted then (q, Finished Enqueue_Cancelled)
               else (q\<lparr>bq_waiters := bq_waiters q @ [(bq_next q, request)], bq_next := bq_next q + 1\<rparr>,
                     Suspended (bq_next q)))"

definition finishSpill :: "'p bqueue \<Rightarrow> nat \<Rightarrow> artifact_handle \<Rightarrow> ('p bqueue \<times> 'p enqueue_outcome) option" where
  "finishSpill q ticket artifact =
     (if ticket \<in> set (bq_spilling q)
      then Some (q\<lparr>bq_spilling := remove1 ticket (bq_spilling q), bq_spilled := bq_spilled q + 1\<rparr>,
                 Spilled artifact)
      else None)"

text \<open>The abort listener: it settles a producer that still waits and ignores a released one.\<close>

definition onAbort :: "'p bqueue \<Rightarrow> nat \<Rightarrow> 'p bqueue" where
  "onAbort q ticket =
     (case js_get (bq_waiters q) ticket of
        None \<Rightarrow> q
      | Some request \<Rightarrow>
          q\<lparr>bq_waiters := filter (\<lambda>w. fst w \<noteq> ticket) (bq_waiters q),
            bq_settled := bq_settled q @ [(ticket, False, request)]\<rparr>)"

definition resume :: "'p bqueue \<Rightarrow> nat \<Rightarrow> instant \<Rightarrow> ('p bqueue \<times> 'p enqueue_outcome) option" where
  "resume q0 ticket now =
     (case js_get (bq_settled q0) ticket of
        None \<Rightarrow> None
      | Some (admitted, request) \<Rightarrow>
          let q1 = q0\<lparr>bq_settled := filter (\<lambda>w. fst w \<noteq> ticket) (bq_settled q0)\<rparr> in
          if \<not> admitted then Some (q1, Enqueue_Cancelled)
          else let q = expire now q1 in
               if \<not> hasRoomFor q (er_byteLength request)
               then Some (q\<lparr>bq_rejected := bq_rejected q + 1\<rparr>, overflowLimit q (er_byteLength request))
               else let q' = admit request now q in
                    Some (q'\<lparr>bq_accepted := bq_accepted q' + 1\<rparr>, Waited))"

definition dequeue :: "'p bqueue \<Rightarrow> instant \<Rightarrow> 'p bqueue \<times> 'p queue_item option" where
  "dequeue q0 now =
     (let q = expire now q0 in
      case bq_items q of
        [] \<Rightarrow> (q, None)
      | item # rest \<Rightarrow>
          (releaseOneWaiter (q\<lparr>bq_items := rest, bq_bytes := bq_bytes q - qi_byteLength item\<rparr>),
           Some item))"

definition peek :: "'p bqueue \<Rightarrow> instant \<Rightarrow> 'p bqueue \<times> 'p queue_item option" where
  "peek q0 now =
     (let q = expire now q0 in
      (q, case bq_items q of [] \<Rightarrow> None | item # _ \<Rightarrow> Some item))"

definition report_queue :: "'p bqueue \<Rightarrow> queue_report" where
  "report_queue q =
     \<lparr>qr_items = length (bq_items q), qr_bytes = bq_bytes q,
      qr_maxItems = ql_maxItems (bq_limits q), qr_maxBytes = ql_maxBytes (bq_limits q),
      qr_waiting = length (bq_waiters q), qr_accepted = bq_accepted q, qr_coalesced = bq_coalesced q,
      qr_spilled = bq_spilled q, qr_rejected = bq_rejected q, qr_expired = bq_expired q\<rparr>"

definition drain :: "'p bqueue \<Rightarrow> 'p bqueue" where
  "drain q =
     q\<lparr>bq_waiters := [],
       bq_settled := bq_settled q @ map (\<lambda>(ticket, request). (ticket, True, request)) (bq_waiters q)\<rparr>"

text \<open>
  A run of the queue, with what each method answered. Producers offer items of non-negative
  size.
\<close>

datatype 'p queue_label =
    Offered "'p enqueue_progress"
  | Resumed "'p enqueue_outcome"
  | Taken "'p queue_item option"
  | Silent

inductive queue_step :: "'p bqueue \<Rightarrow> 'p queue_label \<Rightarrow> 'p bqueue \<Rightarrow> bool" where
  q_enqueue: "0 \<le> er_byteLength r \<Longrightarrow> enqueue q now aborted r = (q', out) \<Longrightarrow>
     queue_step q (Offered out) q'"
| q_resume: "resume q ticket now = Some (q', out) \<Longrightarrow> queue_step q (Resumed out) q'"
| q_spilled: "finishSpill q ticket artifact = Some (q', out) \<Longrightarrow> queue_step q (Resumed out) q'"
| q_abort: "queue_step q Silent (onAbort q ticket)"
| q_dequeue: "dequeue q now = (q', item) \<Longrightarrow> queue_step q (Taken item) q'"
| q_peek: "peek q now = (q', item) \<Longrightarrow> queue_step q Silent q'"
| q_drain: "queue_step q Silent (drain q)"

inductive queue_run :: "'p bqueue \<Rightarrow> 'p queue_label list \<Rightarrow> 'p bqueue \<Rightarrow> bool" where
  run_nil: "queue_run q [] q"
| run_snoc: "queue_run q ls q' \<Longrightarrow> queue_step q' l q'' \<Longrightarrow> queue_run q (ls @ [l]) q''"

inductive_cases queue_stepE: "queue_step q l q'"

section \<open>The invariant\<close>

definition size_of :: "'p queue_item list \<Rightarrow> int" where
  "size_of items = sum_list (map qi_byteLength items)"

definition tickets_ok :: "(nat \<times> 'a) list \<Rightarrow> (nat \<times> 'b) list \<Rightarrow> nat \<Rightarrow> bool" where
  "tickets_ok ws ss n \<longleftrightarrow> distinct (map fst ws @ map fst ss) \<and>
     (\<forall>t \<in> fst ` set ws \<union> fst ` set ss. t < n)"

definition bytes_bounded :: "'p bqueue \<Rightarrow> bool" where
  "bytes_bounded q \<longleftrightarrow> ql_overflow (bq_limits q) \<noteq> Policy_Coalesce \<longrightarrow>
     bq_bytes q \<le> ql_maxBytes (bq_limits q)"

definition queue_inv :: "'p bqueue \<Rightarrow> bool" where
  "queue_inv q \<longleftrightarrow>
     bq_bytes q = size_of (bq_items q) \<and>
     (\<forall>i \<in> set (bq_items q). 0 \<le> qi_byteLength i) \<and>
     (\<forall>w \<in> set (bq_waiters q). 0 \<le> er_byteLength (snd w)) \<and>
     (\<forall>w \<in> set (bq_settled q). 0 \<le> er_byteLength (snd (snd w))) \<and>
     int (length (bq_items q)) \<le> ql_maxItems (bq_limits q) \<and>
     bytes_bounded q \<and>
     tickets_ok (bq_waiters q) (bq_settled q) (bq_next q)"

lemma tickets_ok_issue:
  "tickets_ok ws ss n \<Longrightarrow> tickets_ok (ws @ [(n, r)]) ss (Suc n)"
  "tickets_ok ws ss n \<Longrightarrow> tickets_ok ws ss (Suc n)"
  by (auto simp: tickets_ok_def less_Suc_eq)

lemma tickets_ok_settle:
  "tickets_ok ((t, w) # ws) ss n \<Longrightarrow> tickets_ok ws (ss @ [(t, s)]) n"
  by (auto simp: tickets_ok_def)

lemma tickets_ok_filter:
  "tickets_ok ws ss n \<Longrightarrow> tickets_ok ws (filter P ss) n"
  by (auto simp: tickets_ok_def distinct_map_filter)

lemma tickets_ok_abort:
  "tickets_ok ws ss n \<Longrightarrow> js_get ws t = Some w \<Longrightarrow>
   tickets_ok (filter (\<lambda>x. fst x \<noteq> t) ws) (ss @ [(t, s)]) n"
  by (auto simp: tickets_ok_def distinct_map_filter dest!: map_of_SomeD) force+

lemma tickets_ok_drain:
  "tickets_ok ws ss n \<Longrightarrow> tickets_ok [] (ss @ map (\<lambda>(t, w). (t, f w)) ws) n"
  by (auto simp: tickets_ok_def comp_def case_prod_unfold) force+

text \<open>Items that entered the queue, and items a consumer took, per answer.\<close>

fun enters :: "'p queue_label \<Rightarrow> nat" where
  "enters (Offered (Finished Accepted)) = 1"
| "enters (Offered (Finished (Coalesced _))) = 1"
| "enters (Resumed Waited) = 1"
| "enters _ = 0"

fun takes :: "'p queue_label \<Rightarrow> nat" where
  "takes (Taken (Some _)) = 1"
| "takes _ = 0"

fun offers :: "'p queue_label \<Rightarrow> nat" where
  "offers (Offered _) = 1"
| "offers _ = 0"

fun cancels :: "'p queue_label \<Rightarrow> nat" where
  "cancels (Offered (Finished Enqueue_Cancelled)) = 1"
| "cancels (Resumed Enqueue_Cancelled) = 1"
| "cancels _ = 0"

definition stock :: "'p bqueue \<Rightarrow> nat" where
  "stock q = length (bq_items q) + bq_expired q + bq_coalesced q"

definition answered :: "'p bqueue \<Rightarrow> nat" where
  "answered q = bq_accepted q + bq_coalesced q + bq_spilled q + bq_rejected q"

definition pending :: "'p bqueue \<Rightarrow> nat" where
  "pending q = length (bq_waiters q) + length (bq_settled q) + length (bq_spilling q)"

section \<open>Expiry\<close>

lemma expire_loop_suffix:
  "expire_loop now age items bytes n = (items', bytes', n') \<Longrightarrow>
   \<exists>old. items = old @ items' \<and> bytes' = bytes - size_of old \<and> n' = n + length old"
proof (induction now age items bytes n rule: expire_loop.induct)
  case (2 now age oldest rest bytes n)
  show ?case
  proof (cases "elapsedBetween (qi_enqueuedAt oldest) now \<le> age")
    case True
    with 2(2) show ?thesis by (intro exI [of _ "[]"]) (simp add: size_of_def)
  next
    case False
    with 2(2) have "expire_loop now age rest (bytes - qi_byteLength oldest) (n + 1) = (items', bytes', n')"
      by simp
    with 2(1) [OF False] obtain old where "rest = old @ items'"
      "bytes' = bytes - qi_byteLength oldest - size_of old" "n' = n + 1 + length old"
      by blast
    then show ?thesis by (intro exI [of _ "oldest # old"]) (simp add: size_of_def)
  qed
qed (simp add: size_of_def)

lemma expire_shape:
  obtains old items where "bq_items q = old @ items"
    "expire now q = q\<lparr>bq_items := items, bq_bytes := bq_bytes q - size_of old,
       bq_expired := bq_expired q + length old\<rparr>"
proof (cases "expire_loop now (ql_maxItemAgeMs (bq_limits q)) (bq_items q) (bq_bytes q) (bq_expired q)")
  case (fields items bytes n)
  with expire_loop_suffix [OF fields] that show ?thesis by (auto simp: expire_def)
qed

lemma size_of_nonneg: "(\<And>i. i \<in> set is \<Longrightarrow> 0 \<le> qi_byteLength i) \<Longrightarrow> 0 \<le> size_of is"
  unfolding size_of_def by (rule sum_list_map_nonneg)

lemma size_of_simps [simp]:
  "size_of [] = 0" "size_of (x # xs) = qi_byteLength x + size_of xs"
  "size_of (xs @ ys) = size_of xs + size_of ys"
  by (simp_all add: size_of_def)

lemma expire_frame [simp]:
  "bq_limits (expire now q) = bq_limits q" "bq_spill (expire now q) = bq_spill q"
  "bq_waiters (expire now q) = bq_waiters q" "bq_settled (expire now q) = bq_settled q"
  "bq_spilling (expire now q) = bq_spilling q" "bq_next (expire now q) = bq_next q"
  "bq_accepted (expire now q) = bq_accepted q" "bq_coalesced (expire now q) = bq_coalesced q"
  "bq_spilled (expire now q) = bq_spilled q" "bq_rejected (expire now q) = bq_rejected q"
  by (rule expire_shape [of q now]; simp)+

lemma expire_stock [simp]: "stock (expire now q) = stock q"
  by (rule expire_shape [of q now]) (simp add: stock_def)

lemma expire_count [simp]:
  "length (bq_items (expire now q)) + bq_expired (expire now q) = length (bq_items q) + bq_expired q"
  by (rule expire_shape [of q now]) simp

lemma expire_inv: "queue_inv q \<Longrightarrow> queue_inv (expire now q)"
proof (rule expire_shape [of q now])
  fix old items
  assume inv: "queue_inv q" and items: "bq_items q = old @ items"
    and eq: "expire now q = q\<lparr>bq_items := items, bq_bytes := bq_bytes q - size_of old,
       bq_expired := bq_expired q + length old\<rparr>"
  have "0 \<le> size_of old" using inv items by (auto simp: queue_inv_def intro: size_of_nonneg)
  with inv items show "queue_inv (expire now q)"
    by (auto simp: eq queue_inv_def bytes_bounded_def)
qed

section \<open>Every method keeps the invariant\<close>

lemma admit_inv:
  assumes "queue_inv q" "0 \<le> er_byteLength r" "hasRoomFor q (er_byteLength r)"
  shows "queue_inv (admit r now q)"
  using assms by (auto simp: queue_inv_def bytes_bounded_def admit_def item_of_def hasRoomFor_def)

lemma counters_inv [simp]:
  "queue_inv (q\<lparr>bq_accepted := a\<rparr>) = queue_inv q"
  "queue_inv (q\<lparr>bq_coalesced := a\<rparr>) = queue_inv q"
  "queue_inv (q\<lparr>bq_spilled := a\<rparr>) = queue_inv q"
  "queue_inv (q\<lparr>bq_rejected := a\<rparr>) = queue_inv q"
  "queue_inv (q\<lparr>bq_spilling := t\<rparr>) = queue_inv q"
  by (simp_all add: queue_inv_def bytes_bounded_def)

lemma take_first_Some:
  "take_first P xs = Some (y, ys) \<Longrightarrow> \<exists>us vs. xs = us @ y # vs \<and> ys = us @ vs \<and> P y"
proof (induction P xs arbitrary: y ys rule: take_first.induct)
  case (2 P x xs)
  show ?case
  proof (cases "P x")
    case True
    with 2(2) show ?thesis by - (rule exI [of _ "[]"], rule exI [of _ xs], simp)
  next
    case False
    with 2(2) obtain zs where "take_first P xs = Some (y, zs)" "ys = x # zs"
      by (auto split: option.splits)
    with 2(1) [OF False] obtain us vs where "xs = us @ y # vs" "zs = us @ vs" "P y" by blast
    with \<open>ys = x # zs\<close> show ?thesis by - (rule exI [of _ "x # us"], rule exI [of _ vs], simp)
  qed
qed simp

lemma coalesce_cases:
  "coalesce q now r = reject q (er_byteLength r) \<or>
   (\<exists>us old vs key q'. bq_items q = us @ old # vs \<and> qi_coalescable old \<and>
      er_mergeKey r = Some key \<and> qi_mergeKey old = Some key \<and> er_coalescable r \<and>
      q' = admit r now (q\<lparr>bq_items := us @ vs, bq_bytes := bq_bytes q - qi_byteLength old\<rparr>) \<and>
      coalesce q now r = (q'\<lparr>bq_coalesced := bq_coalesced q' + 1\<rparr>, Finished (Coalesced old)))"
proof (cases "er_mergeKey r")
  case None
  then show ?thesis by (simp add: coalesce_def)
next
  case (Some key)
  let ?P = "\<lambda>item. qi_coalescable item \<and> qi_mergeKey item = Some key"
  show ?thesis
  proof (cases "er_coalescable r \<and> take_first ?P (bq_items q) \<noteq> None")
    case False
    with Some show ?thesis by (cases "take_first ?P (bq_items q)") (auto simp: coalesce_def)
  next
    case True
    then obtain old rest where hit: "take_first ?P (bq_items q) = Some (old, rest)" by auto
    from take_first_Some [OF hit] obtain us vs where
      parts: "bq_items q = us @ old # vs" "rest = us @ vs" "?P old" by auto
    define q' where
      "q' = admit r now (q\<lparr>bq_items := us @ vs, bq_bytes := bq_bytes q - qi_byteLength old\<rparr>)"
    have eq: "coalesce q now r = (q'\<lparr>bq_coalesced := bq_coalesced q' + 1\<rparr>, Finished (Coalesced old))"
      using Some hit True by (simp add: coalesce_def q'_def parts(2) Let_def)
    have "er_coalescable r" "qi_coalescable old" "qi_mergeKey old = Some key"
      using True parts(3) by auto
    with parts(1) eq q'_def Some show ?thesis by blast
  qed
qed

lemma coalesce_inv:
  assumes "queue_inv q" "0 \<le> er_byteLength r" "ql_overflow (bq_limits q) = Policy_Coalesce"
  shows "queue_inv (fst (coalesce q now r))"
  using coalesce_cases [of q now r]
proof (elim disjE exE conjE)
  assume "coalesce q now r = reject q (er_byteLength r)"
  with assms show ?thesis by (simp add: reject_def)
next
  fix us old vs q'
  assume "bq_items q = us @ old # vs"
    "q' = admit r now (q\<lparr>bq_items := us @ vs, bq_bytes := bq_bytes q - qi_byteLength old\<rparr>)"
    "coalesce q now r = (q'\<lparr>bq_coalesced := bq_coalesced q' + 1\<rparr>, Finished (Coalesced old))"
  with assms show ?thesis
    by (simp add: queue_inv_def bytes_bounded_def admit_def item_of_def)
qed

lemma enqueue_inv:
  assumes "queue_inv q" "0 \<le> er_byteLength r"
  shows "queue_inv (fst (enqueue q now aborted r))"
proof -
  have inv: "queue_inv (expire now q)" using assms(1) by (rule expire_inv)
  show ?thesis
  proof (cases "hasRoomFor (expire now q) (er_byteLength r)")
    case True
    with admit_inv [OF inv assms(2)] show ?thesis by (simp add: enqueue_def Let_def)
  next
    case False
    show ?thesis
    proof (cases "ql_overflow (bq_limits q)")
      case Policy_Coalesce
      with False coalesce_inv [OF inv assms(2)] show ?thesis by (simp add: enqueue_def Let_def)
    next
      case Policy_Wait
      from inv have "queue_inv ((expire now q)\<lparr>bq_waiters := bq_waiters q @ [(bq_next q, r)],
          bq_next := bq_next q + 1\<rparr>)"
        using assms(2) by (auto simp: queue_inv_def bytes_bounded_def intro: tickets_ok_issue)
      with False Policy_Wait inv show ?thesis by (simp add: enqueue_def Let_def)
    next
      case Policy_Spill
      from inv have "queue_inv ((expire now q)\<lparr>bq_spilling := s, bq_next := bq_next q + 1\<rparr>)" for s
        by (auto simp: queue_inv_def bytes_bounded_def intro: tickets_ok_issue)
      with False Policy_Spill inv show ?thesis by (simp add: enqueue_def Let_def reject_def)
    qed (use False inv in \<open>simp add: enqueue_def Let_def reject_def\<close>)
  qed
qed

lemma resume_cases:
  assumes "resume q t now = Some (q', out)"
  obtains (cancelled) r where "js_get (bq_settled q) t = Some (False, r)" "out = Enqueue_Cancelled"
      "q' = q\<lparr>bq_settled := filter (\<lambda>w. fst w \<noteq> t) (bq_settled q)\<rparr>"
  | (full) r q1 where "js_get (bq_settled q) t = Some (True, r)"
      "q1 = expire now (q\<lparr>bq_settled := filter (\<lambda>w. fst w \<noteq> t) (bq_settled q)\<rparr>)"
      "q' = q1\<lparr>bq_rejected := bq_rejected q1 + 1\<rparr>" "out = overflowLimit q1 (er_byteLength r)"
  | (room) r q1 where "js_get (bq_settled q) t = Some (True, r)"
      "q1 = expire now (q\<lparr>bq_settled := filter (\<lambda>w. fst w \<noteq> t) (bq_settled q)\<rparr>)"
      "hasRoomFor q1 (er_byteLength r)" "out = Waited"
      "q' = (admit r now q1)\<lparr>bq_accepted := bq_accepted q1 + 1\<rparr>"
proof (cases "js_get (bq_settled q) t")
  case None
  with assms show ?thesis by (simp add: resume_def)
next
  case (Some p)
  obtain ok r where p: "p = (ok, r)" by (cases p)
  define q1 where "q1 = expire now (q\<lparr>bq_settled := filter (\<lambda>w. fst w \<noteq> t) (bq_settled q)\<rparr>)"
  show ?thesis
  proof (cases ok)
    case False
    with assms Some p show ?thesis by (intro cancelled [of r]) (simp_all add: resume_def Let_def)
  next
    case True
    show ?thesis
    proof (cases "hasRoomFor q1 (er_byteLength r)")
      case False
      with assms Some p True show ?thesis
        by (intro full [of r q1]) (simp_all add: resume_def Let_def q1_def)
    next
      case room': True
      with assms Some p True show ?thesis
        by (intro room [of r q1]) (simp_all add: resume_def Let_def q1_def admit_def)
    qed
  qed
qed

lemma settled_inv:
  "queue_inv q \<Longrightarrow> queue_inv (q\<lparr>bq_settled := filter P (bq_settled q)\<rparr>)"
  by (auto simp: queue_inv_def bytes_bounded_def intro: tickets_ok_filter)

lemma resume_inv:
  assumes "queue_inv q" "resume q t now = Some (q', out)"
  shows "queue_inv q'"
proof -
  let ?q = "q\<lparr>bq_settled := filter (\<lambda>w. fst w \<noteq> t) (bq_settled q)\<rparr>"
  have inv: "queue_inv (expire now ?q)" using assms(1) by (intro expire_inv settled_inv)
  from assms(2) show ?thesis
  proof (cases rule: resume_cases)
    case (cancelled r)
    with settled_inv [OF assms(1)] show ?thesis by simp
  next
    case (full r q1)
    with inv show ?thesis by simp
  next
    case (room r q1)
    then have "(t, True, r) \<in> set (bq_settled q)" by (auto dest: map_of_SomeD)
    with assms(1) have "0 \<le> er_byteLength r" by (auto simp: queue_inv_def)
    with room inv show ?thesis by (simp add: admit_inv)
  qed
qed

lemma releaseOneWaiter_inv: "queue_inv q \<Longrightarrow> queue_inv (releaseOneWaiter q)"
  by (auto simp: releaseOneWaiter_def queue_inv_def bytes_bounded_def split: list.splits
      intro: tickets_ok_settle)

lemma dequeue_inv:
  assumes "queue_inv q" "dequeue q now = (q', item)"
  shows "queue_inv q'"
proof (cases "bq_items (expire now q)")
  case Nil
  with assms expire_inv [OF assms(1), of now] show ?thesis by (auto simp: dequeue_def Let_def)
next
  case (Cons i rest)
  from expire_inv [OF assms(1), of now] Cons have
    "queue_inv ((expire now q)\<lparr>bq_items := rest, bq_bytes := bq_bytes (expire now q) - qi_byteLength i\<rparr>)"
    by (auto simp: queue_inv_def bytes_bounded_def)
  with Cons assms(2) show ?thesis by (auto simp: dequeue_def Let_def intro: releaseOneWaiter_inv)
qed

lemma onAbort_inv:
  assumes "queue_inv q"
  shows "queue_inv (onAbort q t)"
proof (cases "js_get (bq_waiters q) t")
  case None
  with assms show ?thesis by (simp add: onAbort_def)
next
  case (Some r)
  then have "(t, r) \<in> set (bq_waiters q)" by (rule map_of_SomeD)
  with assms have "0 \<le> er_byteLength r" by (auto simp: queue_inv_def)
  with Some assms show ?thesis
    by (auto simp: onAbort_def queue_inv_def bytes_bounded_def intro: tickets_ok_abort)
qed

lemma drain_inv: "queue_inv q \<Longrightarrow> queue_inv (drain q)"
  using tickets_ok_drain [of "bq_waiters q" "bq_settled q" "bq_next q" "\<lambda>w. (True, w)"]
  by (auto simp: drain_def queue_inv_def bytes_bounded_def)

lemma queue_step_inv: "queue_step q l q' \<Longrightarrow> queue_inv q \<Longrightarrow> queue_inv q'"
proof (induction rule: queue_step.induct)
  case (q_enqueue r q now aborted q' out)
  then show ?case using enqueue_inv [of q r now aborted] by simp
next
  case (q_spilled q ticket artifact q' out)
  then show ?case by (auto simp: finishSpill_def split: if_splits)
next
  case (q_peek q now q' item)
  then show ?case using expire_inv [of q now] by (auto simp: peek_def Let_def)
qed (auto intro: resume_inv dequeue_inv onAbort_inv drain_inv)

section \<open>Accounting\<close>

text \<open>Removing one ticket from a list of distinct tickets removes one entry.\<close>

lemma length_filter_ticket:
  assumes "distinct (map fst xs)" "js_get xs t = Some v"
  shows "length xs = Suc (length (filter (\<lambda>x. fst x \<noteq> t) xs))"
  using assms
proof (induction xs)
  case (Cons x xs)
  show ?case
  proof (cases "fst x = t")
    case True
    from Cons.prems(1) have "fst x \<notin> fst ` set xs" by simp
    with True have "\<forall>y \<in> set xs. fst y \<noteq> t" by (metis imageI)
    with True show ?thesis by (simp add: filter_id_conv)
  next
    case False
    with Cons show ?thesis by (cases x) auto
  qed
qed simp

lemma settled_one:
  "queue_inv q \<Longrightarrow> js_get (bq_settled q) t = Some v \<Longrightarrow>
   length (bq_settled q) = Suc (length (filter (\<lambda>w. fst w \<noteq> t) (bq_settled q)))"
  by (rule length_filter_ticket) (auto simp: queue_inv_def tickets_ok_def)

lemma waiters_one:
  "queue_inv q \<Longrightarrow> js_get (bq_waiters q) t = Some v \<Longrightarrow>
   length (bq_waiters q) = Suc (length (filter (\<lambda>w. fst w \<noteq> t) (bq_waiters q)))"
  by (rule length_filter_ticket) (auto simp: queue_inv_def tickets_ok_def)

lemma overflowLimit_labels [simp]:
  "enters (Offered (Finished (overflowLimit q n))) = 0" "enters (Resumed (overflowLimit q n)) = 0"
  "cancels (Offered (Finished (overflowLimit q n))) = 0" "cancels (Resumed (overflowLimit q n)) = 0"
  by (simp_all add: overflowLimit_def)

lemmas ledger_of_queue = stock_def answered_def pending_def

text \<open>What one step adds to each side of the two balances.\<close>

definition balanced :: "'p bqueue \<Rightarrow> 'p queue_label \<Rightarrow> 'p bqueue \<Rightarrow> bool" where
  "balanced q l q' \<longleftrightarrow>
     stock q' + takes l = stock q + enters l \<and>
     answered q' + cancels l + pending q' = answered q + pending q + offers l"

lemma expire_pending [simp]: "pending (expire now q) = pending q" "answered (expire now q) = answered q"
  by (simp_all add: pending_def answered_def)

lemma coalesce_balanced:
  assumes "coalesce q now r = (q', out)"
  shows "balanced q (Offered out) q'"
  using coalesce_cases [of q now r]
proof (elim disjE exE conjE)
  assume "coalesce q now r = reject q (er_byteLength r)"
  with assms show ?thesis by (auto simp: balanced_def ledger_of_queue reject_def)
next
  fix us old vs q1
  assume "bq_items q = us @ old # vs"
    "q1 = admit r now (q\<lparr>bq_items := us @ vs, bq_bytes := bq_bytes q - qi_byteLength old\<rparr>)"
    "coalesce q now r = (q1\<lparr>bq_coalesced := bq_coalesced q1 + 1\<rparr>, Finished (Coalesced old))"
  with assms show ?thesis by (auto simp: balanced_def ledger_of_queue admit_def)
qed

lemma enqueue_balanced:
  assumes "enqueue q now aborted r = (q', out)"
  shows "balanced q (Offered out) q'"
proof -
  have base: "balanced (expire now q) l q' \<Longrightarrow> balanced q l q'" for l
    by (simp add: balanced_def)
  show ?thesis
  proof (cases "hasRoomFor (expire now q) (er_byteLength r)")
    case True
    with assms show ?thesis
      by (intro base) (auto simp: enqueue_def Let_def balanced_def ledger_of_queue admit_def)
  next
    case False
    show ?thesis
    proof (cases "ql_overflow (bq_limits q)")
      case Policy_Coalesce
      with False assms have "coalesce (expire now q) now r = (q', out)"
        by (simp add: enqueue_def Let_def)
      then show ?thesis by (intro base coalesce_balanced)
    qed (use False assms in \<open>intro base,
          auto simp: enqueue_def Let_def balanced_def ledger_of_queue reject_def split: if_splits\<close>)
  qed
qed

lemma resume_balanced:
  assumes "queue_inv q" "resume q t now = Some (q', out)"
  shows "balanced q (Resumed out) q'"
  using assms(2)
proof (cases rule: resume_cases)
  case (cancelled r)
  with settled_one [OF assms(1)] show ?thesis by (simp add: balanced_def ledger_of_queue)
next
  case (full r q1)
  have "stock q1 = stock q"
    unfolding full(2) expire_stock by (simp add: stock_def)
  with full settled_one [OF assms(1) full(1)] show ?thesis
    by (simp add: balanced_def answered_def pending_def stock_def)
next
  case (room r q1)
  have "stock q1 = stock q"
    unfolding room(2) expire_stock by (simp add: stock_def)
  with room settled_one [OF assms(1) room(1)] show ?thesis
    by (simp add: balanced_def answered_def pending_def stock_def admit_def)
qed

lemma dequeue_balanced:
  assumes "dequeue q now = (q', item)"
  shows "balanced q (Taken item) q'"
proof -
  have base: "balanced (expire now q) l q' \<Longrightarrow> balanced q l q'" for l
    by (simp add: balanced_def)
  show ?thesis
  proof (cases "bq_items (expire now q)")
    case Nil
    with assms show ?thesis by (intro base) (simp add: dequeue_def Let_def balanced_def)
  next
    case (Cons i rest)
    define q1 where "q1 = expire now q"
    have "balanced q1 (Taken item) q'"
      using assms Cons unfolding q1_def [symmetric] dequeue_def Let_def
      by (cases "bq_waiters q1")
        (auto simp: balanced_def ledger_of_queue releaseOneWaiter_def)
    then show ?thesis by (intro base) (simp add: q1_def)
  qed
qed

lemma queue_step_balanced: "queue_step q l q' \<Longrightarrow> queue_inv q \<Longrightarrow> balanced q l q'"
proof (induction rule: queue_step.induct)
  case (q_enqueue r q now aborted q' out)
  then show ?case by (intro enqueue_balanced)
next
  case (q_resume q ticket now q' out)
  then show ?case by (intro resume_balanced)
next
  case (q_spilled q ticket artifact q' out)
  then have "ticket \<in> set (bq_spilling q)" by (auto simp: finishSpill_def split: if_splits)
  then have "0 < length (bq_spilling q)" by (cases "bq_spilling q") auto
  with q_spilled show ?case
    by (auto simp: finishSpill_def balanced_def ledger_of_queue length_remove1 split: if_splits)
next
  case (q_abort q ticket)
  then show ?case
    by (cases "js_get (bq_waiters q) ticket")
      (auto simp: onAbort_def balanced_def ledger_of_queue dest: waiters_one)
next
  case (q_dequeue q now q' item)
  then show ?case by (intro dequeue_balanced)
next
  case (q_peek q now q' item)
  then show ?case by (auto simp: peek_def Let_def balanced_def)
next
  case (q_drain q)
  then show ?case by (auto simp: drain_def balanced_def ledger_of_queue)
qed

section \<open>Whole runs\<close>

lemma create_inv: "0 \<le> ql_maxItems L \<Longrightarrow> 0 \<le> ql_maxBytes L \<Longrightarrow> queue_inv (createBoundedQueue L s)"
  by (simp add: queue_inv_def createBoundedQueue_def bytes_bounded_def tickets_ok_def)

lemma queue_step_limits: "queue_step q l q' \<Longrightarrow> bq_limits q' = bq_limits q"
proof (induction rule: queue_step.induct)
  case (q_enqueue r q now aborted q' out)
  then show ?case
    using coalesce_cases [of "expire now q" now r]
    by (auto simp: enqueue_def Let_def reject_def admit_def split: if_splits overflow_policy.splits)
next
  case (q_resume q ticket now q' out)
  from q_resume(1) show ?case by (cases rule: resume_cases) (simp_all add: admit_def)
next
  case (q_dequeue q now q' item)
  then show ?case
    by (auto simp: dequeue_def Let_def releaseOneWaiter_def split: list.splits)
qed (auto simp: finishSpill_def onAbort_def peek_def Let_def drain_def split: if_splits option.splits)

lemma queue_run_inv:
  "queue_run q ls q' \<Longrightarrow> queue_inv q \<Longrightarrow> queue_inv q' \<and> bq_limits q' = bq_limits q"
  by (induction rule: queue_run.induct) (auto simp: queue_step_limits intro: queue_step_inv)

lemma queue_run_balanced:
  "queue_run q ls q' \<Longrightarrow> queue_inv q \<Longrightarrow>
   stock q' + sum_list (map takes ls) = stock q + sum_list (map enters ls) \<and>
   answered q' + sum_list (map cancels ls) + pending q' =
     answered q + pending q + sum_list (map offers ls)"
proof (induction rule: queue_run.induct)
  case (run_snoc q ls q' l q'')
  then have "balanced q' l q''" using queue_run_inv queue_step_balanced by blast
  with run_snoc show ?case by (simp add: balanced_def)
qed simp

text \<open>
  C14. Memory is bounded: in every run of a queue with sane limits, whatever the interleaving of
  producers, aborts, spills, drains and consumers, the byte counter is exactly the size of the
  queued items, the number of items never exceeds \<open>maxItems\<close>, and, except under the coalescing
  policy, the bytes never exceed \<open>maxBytes\<close>.
\<close>

theorem queue_never_grows_past_limits:
  assumes "0 \<le> ql_maxItems L" "0 \<le> ql_maxBytes L"
    and "queue_run (createBoundedQueue L s) ls q"
  shows "bq_bytes q = size_of (bq_items q) \<and>
    int (length (bq_items q)) \<le> ql_maxItems L \<and>
    (ql_overflow L = Policy_Coalesce \<or> bq_bytes q \<le> ql_maxBytes L)"
  using queue_run_inv [OF assms(3) create_inv [OF assms(1,2)]]
  by (auto simp: queue_inv_def bytes_bounded_def createBoundedQueue_def)

definition sample_limits :: "overflow_policy \<Rightarrow> queue_limits" where
  "sample_limits policy = \<lparr>ql_maxItems = 1, ql_maxBytes = 10, ql_maxItemAgeMs = 5, ql_overflow = policy\<rparr>"

definition sample_request :: "int \<Rightarrow> nat enqueue_request" where
  "sample_request n = \<lparr>er_id = ''item'', er_byteLength = n, er_coalescable = True,
     er_mergeKey = Some ''k'', er_payload = 0\<rparr>"

definition sample_item :: "int \<Rightarrow> int \<Rightarrow> nat queue_item" where
  "sample_item n at = item_of (sample_request n) at"

lemmas sample_defs = sample_limits_def sample_request_def sample_item_def item_of_def

lemmas queue_ops = enqueue_def expire_def hasRoomFor_def admit_def coalesce_def reject_def
  overflowLimit_def dequeue_def releaseOneWaiter_def peek_def elapsedBetween_def createBoundedQueue_def

text \<open>A queue of one item: the first producer is accepted, the second one meets the policy.\<close>

definition sample_queue :: "overflow_policy \<Rightarrow> nat bqueue" where
  "sample_queue policy = fst (enqueue (createBoundedQueue (sample_limits policy) False) 0 False (sample_request 4))"

lemma sample_accepts:
  "enqueue (createBoundedQueue (sample_limits policy) False) 0 False (sample_request 4) =
     (sample_queue policy, Finished Accepted)"
  by (simp add: sample_queue_def queue_ops sample_defs Let_def)

lemma sample_run: "queue_run (createBoundedQueue (sample_limits policy) False) [Offered (Finished Accepted)] (sample_queue policy)"
  using run_snoc [OF run_nil q_enqueue [OF _ sample_accepts]] by (simp add: sample_request_def)

theorem queue_never_grows_past_limits_witness:
  "bq_bytes (sample_queue Policy_Wait) = size_of (bq_items (sample_queue Policy_Wait)) \<and>
   int (length (bq_items (sample_queue Policy_Wait))) \<le> 1 \<and> bq_bytes (sample_queue Policy_Wait) \<le> 10"
  using queue_never_grows_past_limits [OF _ _ sample_run [of Policy_Wait]] by (simp add: sample_limits_def)

text \<open>
  C13. Nothing is lost silently. Over any run, every item that entered (accepted, waited in or
  coalesced in) is either still queued, was handed to a consumer, or is counted as expired or as
  replaced; and every offer was answered with exactly one counted outcome or a cancellation, or
  its producer is still suspended.
\<close>

theorem queue_accounts_for_every_item:
  assumes "0 \<le> ql_maxItems L" "0 \<le> ql_maxBytes L"
    and "queue_run (createBoundedQueue L s) ls q"
  shows "sum_list (map enters ls) =
      length (bq_items q) + sum_list (map takes ls) + bq_expired q + bq_coalesced q \<and>
    sum_list (map offers ls) =
      bq_accepted q + bq_coalesced q + bq_spilled q + bq_rejected q + sum_list (map cancels ls) +
      length (bq_waiters q) + length (bq_settled q) + length (bq_spilling q)"
  using queue_run_balanced [OF assms(3) create_inv [OF assms(1,2)]]
  by (simp add: ledger_of_queue createBoundedQueue_def)

theorem queue_accounts_for_every_item_witness:
  "sum_list (map enters [Offered (Finished Accepted) :: nat queue_label]) =
     length (bq_items (sample_queue Policy_Wait)) + 0 + bq_expired (sample_queue Policy_Wait) +
     bq_coalesced (sample_queue Policy_Wait)"
  using queue_accounts_for_every_item [OF _ _ sample_run [of Policy_Wait]] by (simp add: sample_limits_def)

section \<open>Order, and what coalescing may replace\<close>

text \<open>The age loop is \<open>dropWhile\<close> on the age test: it stops at the first item young enough.\<close>

definition live_items :: "instant \<Rightarrow> 'p bqueue \<Rightarrow> 'p queue_item list" where
  "live_items now q =
     dropWhile (\<lambda>i. ql_maxItemAgeMs (bq_limits q) < elapsedBetween (qi_enqueuedAt i) now) (bq_items q)"

lemma expire_loop_dropWhile:
  "fst (expire_loop now age items bytes n) =
     dropWhile (\<lambda>i. age < elapsedBetween (qi_enqueuedAt i) now) items"
  by (induction now age items bytes n rule: expire_loop.induct) auto

lemma expire_items: "bq_items (expire now q) = live_items now q"
  using expire_loop_dropWhile [of now "ql_maxItemAgeMs (bq_limits q)" "bq_items q" "bq_bytes q" "bq_expired q"]
  by (simp add: expire_def live_items_def case_prod_unfold)

text \<open>
  C24. The queue is first-in first-out over what has not expired: \<open>dequeue\<close> answers the first
  item whose age is within the limit, keeps exactly the items behind it in their order, counts
  what it skipped as expired, and answers \<open>null\<close> only when nothing is young enough; a successful
  \<open>dequeue\<close> settles the longest-waiting producer and nobody else.
\<close>

theorem dequeue_takes_oldest_live:
  "dequeue q now =
     (let q1 = q\<lparr>bq_items := tl (live_items now q),
                 bq_bytes := bq_bytes (expire now q) - size_of (take 1 (live_items now q)),
                 bq_expired := bq_expired q + (length (bq_items q) - length (live_items now q))\<rparr>
      in case live_items now q of
           [] \<Rightarrow> (q1, None)
         | i # _ \<Rightarrow>
             (case bq_waiters q of
                [] \<Rightarrow> q1
              | (t, r) # ws \<Rightarrow> q1\<lparr>bq_waiters := ws, bq_settled := bq_settled q @ [(t, True, r)]\<rparr>,
              Some i))"
proof -
  obtain old items where parts: "bq_items q = old @ items"
    and eq: "expire now q = q\<lparr>bq_items := items, bq_bytes := bq_bytes q - size_of old,
       bq_expired := bq_expired q + length old\<rparr>"
    by (rule expire_shape [of q now])
  have live: "live_items now q = items" using expire_items [of now q] by (simp add: eq)
  show ?thesis
    unfolding dequeue_def live eq Let_def
    by (cases items; cases "bq_waiters q") (auto simp: parts releaseOneWaiter_def)
qed

text \<open>
  A semantic fact is never merged away: when an offer answers \<open>coalesced\<close>, the item it
  replaced was queued and live, both it and the offer had declared themselves display-only and
  carried the same merge key, the queue was out of room under the coalescing policy, and every
  other live item is still there in its order with the new one at the end.
\<close>

theorem coalesce_replaces_display_only:
  assumes "enqueue q now aborted r = (q', Finished (Coalesced old))"
  shows "ql_overflow (bq_limits q) = Policy_Coalesce \<and>
    \<not> hasRoomFor (expire now q) (er_byteLength r) \<and>
    qi_coalescable old \<and> er_coalescable r \<and> er_mergeKey r \<noteq> None \<and> qi_mergeKey old = er_mergeKey r \<and>
    (\<exists>us vs. live_items now q = us @ old # vs \<and> bq_items q' = us @ vs @ [item_of r now])"
proof -
  let ?q = "expire now q"
  have policy: "ql_overflow (bq_limits q) = Policy_Coalesce"
    and full: "\<not> hasRoomFor ?q (er_byteLength r)"
    and ran: "coalesce ?q now r = (q', Finished (Coalesced old))"
    using assms
    by (auto simp: enqueue_def Let_def reject_def overflowLimit_def split: if_splits overflow_policy.splits)
  from coalesce_cases [of ?q now r] ran have
    "\<exists>us vs key. bq_items ?q = us @ old # vs \<and> qi_coalescable old \<and> er_mergeKey r = Some key \<and>
       qi_mergeKey old = Some key \<and> er_coalescable r \<and> bq_items q' = us @ vs @ [item_of r now]"
    by (auto simp: reject_def overflowLimit_def admit_def split: if_splits) blast+
  with policy full show ?thesis by (auto simp: expire_items)
qed

lemma sample_coalesces:
  "enqueue (sample_queue Policy_Coalesce) 1 False (sample_request 40) =
     ((sample_queue Policy_Coalesce)\<lparr>bq_items := [sample_item 40 1], bq_bytes := 40, bq_coalesced := 1\<rparr>,
      Finished (Coalesced (sample_item 4 0)))"
  by (simp add: sample_queue_def queue_ops sample_defs Let_def)

theorem coalesce_replaces_display_only_witness:
  "enqueue (sample_queue Policy_Coalesce) 1 False (sample_request 40) =
     ((sample_queue Policy_Coalesce)\<lparr>bq_items := [sample_item 40 1], bq_bytes := 40, bq_coalesced := 1\<rparr>,
      Finished (Coalesced (sample_item 4 0))) \<and>
   qi_coalescable (sample_item 4 0) \<and> qi_mergeKey (sample_item 4 0) = er_mergeKey (sample_request 40)"
  using sample_coalesces coalesce_replaces_display_only [OF sample_coalesces] by blast

section \<open>Two gaps between the contract and the code, each on a sample run\<close>

text \<open>
  Replacing an item does not ask for room again: a large display-only item may replace a small
  one and leave the queue above its byte limit.
\<close>

theorem coalesce_can_exceed_byte_limit:
  "\<exists>ls q. queue_run (createBoundedQueue (sample_limits Policy_Coalesce) False :: nat bqueue) ls q \<and>
     ql_maxBytes (bq_limits q) < bq_bytes q"
  using run_snoc [OF sample_run q_enqueue [OF _ sample_coalesces]]
  by (intro exI conjI) (auto simp: sample_request_def sample_queue_def queue_ops sample_limits_def Let_def)

text \<open>
  Only a successful \<open>dequeue\<close> wakes a producer. On this run the queue empties by expiry instead, and the
  waiting producer stays suspended although there is room for it.
\<close>

theorem waiter_not_woken_by_expiry:
  "\<exists>ls q t r. queue_run (createBoundedQueue (sample_limits Policy_Wait) False :: nat bqueue) (ls @ [Taken None]) q \<and>
     bq_items q = [] \<and> bq_settled q = [] \<and> bq_waiters q = [(t, r)] \<and> hasRoomFor q (er_byteLength r)"
proof -
  let ?q1 = "(sample_queue Policy_Wait)\<lparr>bq_waiters := [(0, sample_request 4)], bq_next := 1\<rparr>"
  let ?q2 = "?q1\<lparr>bq_items := [], bq_bytes := 0, bq_expired := 1\<rparr>"
  have waits: "enqueue (sample_queue Policy_Wait) 1 False (sample_request 4) = (?q1, Suspended 0)"
    by (simp add: sample_queue_def queue_ops sample_defs Let_def)
  have empties: "dequeue ?q1 100 = (?q2, None)"
    by (simp add: sample_queue_def queue_ops sample_defs Let_def)
  have "queue_run (createBoundedQueue (sample_limits Policy_Wait) False)
      ([Offered (Finished Accepted)] @ [Offered (Suspended 0)]) ?q1"
    by (rule run_snoc [OF sample_run q_enqueue [OF _ waits]]) (simp add: sample_request_def)
  from run_snoc [OF this q_dequeue [OF empties]]
  have "queue_run (createBoundedQueue (sample_limits Policy_Wait) False)
      ([Offered (Finished Accepted), Offered (Suspended 0)] @ [Taken None]) ?q2" by simp
  moreover have "bq_items ?q2 = []" "bq_settled ?q2 = []" "bq_waiters ?q2 = [(0, sample_request 4)]"
    "hasRoomFor ?q2 (er_byteLength (sample_request 4))"
    by (simp_all add: sample_queue_def queue_ops sample_defs Let_def)
  ultimately show ?thesis by blast
qed

end
