(* ===== verification/Outcome.thy ===== *)
theory Outcome
  imports Prelude
begin

text \<open>
  Terminal outcomes and effect certainty (\<^verbatim>\<open>src/domain/orchestration/outcome.ts\<close>, and the
  effect scale of \<^verbatim>\<open>scope.ts\<close>). The rule every component builds on: an effect moves up the
  scale and never down. The locale \<open>effect_join\<close> states what it means to be such a join; it is
  interpreted on \<open>worstEffect\<close> here and on the turn machine's \<open>mergeEffect\<close> in its theory.
\<close>

section \<open>Definitions\<close>

datatype effect_certainty = Eff_None | Eff_Completed | Eff_Partial | Eff_Uncertain

datatype terminal_outcome =
    Completed
  | Failed effect_certainty
  | Cancelled effect_certainty
  | Timed_Out effect_certainty
  | Uncertain

fun effectOf :: "terminal_outcome \<Rightarrow> effect_certainty" where
  "effectOf Completed = Eff_Completed"
| "effectOf (Failed e) = e"
| "effectOf (Cancelled e) = e"
| "effectOf (Timed_Out e) = e"
| "effectOf Uncertain = Eff_Uncertain"

definition requiresInspection :: "terminal_outcome \<Rightarrow> bool" where
  "requiresInspection outcome =
     (let effect = effectOf outcome in effect = Eff_Uncertain \<or> effect = Eff_Partial)"

fun effectSeverity :: "effect_certainty \<Rightarrow> nat" where
  "effectSeverity Eff_None = 0"
| "effectSeverity Eff_Completed = 1"
| "effectSeverity Eff_Partial = 2"
| "effectSeverity Eff_Uncertain = 3"

definition worstEffect :: "effect_certainty \<Rightarrow> effect_certainty \<Rightarrow> effect_certainty" where
  "worstEffect left right = (if effectSeverity right > effectSeverity left then right else left)"

fun cancellationOutcomeFor :: "effect_certainty \<Rightarrow> terminal_outcome" where
  "cancellationOutcomeFor Eff_None = Cancelled Eff_None"
| "cancellationOutcomeFor Eff_Completed = Cancelled Eff_Completed"
| "cancellationOutcomeFor Eff_Partial = Uncertain"
| "cancellationOutcomeFor Eff_Uncertain = Uncertain"

fun timeoutOutcomeFor :: "effect_certainty \<Rightarrow> terminal_outcome" where
  "timeoutOutcomeFor Eff_None = Timed_Out Eff_None"
| "timeoutOutcomeFor Eff_Completed = Timed_Out Eff_Completed"
| "timeoutOutcomeFor Eff_Partial = Timed_Out Eff_Uncertain"
| "timeoutOutcomeFor Eff_Uncertain = Timed_Out Eff_Uncertain"

section \<open>The effect scale is a linear order\<close>

instantiation effect_certainty :: linorder
begin

definition less_eq_effect_certainty :: "effect_certainty \<Rightarrow> effect_certainty \<Rightarrow> bool" where
  "less_eq_effect_certainty a b \<longleftrightarrow> effectSeverity a \<le> effectSeverity b"

definition less_effect_certainty :: "effect_certainty \<Rightarrow> effect_certainty \<Rightarrow> bool" where
  "less_effect_certainty a b \<longleftrightarrow> effectSeverity a < effectSeverity b"

instance
proof
  fix a b :: effect_certainty
  show "a \<le> b \<Longrightarrow> b \<le> a \<Longrightarrow> a = b"
    by (cases a; cases b; simp add: less_eq_effect_certainty_def)
qed (auto simp: less_eq_effect_certainty_def less_effect_certainty_def)

end

lemma Eff_None_least [simp]: "Eff_None \<le> e"
  by (simp add: less_eq_effect_certainty_def)

lemma Eff_Uncertain_greatest [simp]: "e \<le> Eff_Uncertain"
  by (cases e) (simp_all add: less_eq_effect_certainty_def)

section \<open>Joins on the effect scale\<close>

locale effect_join =
  fixes join :: "effect_certainty \<Rightarrow> effect_certainty \<Rightarrow> effect_certainty"
  assumes join_max: "join a b = max a b"
begin

lemma join_ge1 [simp]: "a \<le> join a b"
  by (simp add: join_max)

lemma join_ge2 [simp]: "b \<le> join a b"
  by (simp add: join_max)

lemma join_least: "a \<le> c \<Longrightarrow> b \<le> c \<Longrightarrow> join a b \<le> c"
  by (simp add: join_max)

lemma join_idem [simp]: "join a a = a"
  by (simp add: join_max)

lemma join_comm: "join a b = join b a"
  by (simp add: join_max max.commute)

lemma join_assoc: "join (join a b) c = join a (join b c)"
  by (simp add: join_max max.assoc)

lemma join_none [simp]: "join Eff_None a = a" "join a Eff_None = a"
  by (simp_all add: join_max max_absorb1 max_absorb2)

lemma fold_join_ge_start: "a \<le> foldl (\<lambda>w x. join w (f x)) a xs"
  by (induction xs arbitrary: a) (auto intro: order_trans [OF join_ge1])

lemma fold_join_ge_elem: "x \<in> set xs \<Longrightarrow> f x \<le> foldl (\<lambda>w y. join w (f y)) a xs"
  by (induction xs arbitrary: a) (auto intro: order_trans [OF join_ge2 fold_join_ge_start])

lemma fold_join_least:
  "a \<le> c \<Longrightarrow> (\<And>x. x \<in> set xs \<Longrightarrow> f x \<le> c) \<Longrightarrow> foldl (\<lambda>w y. join w (f y)) a xs \<le> c"
  by (induction xs arbitrary: a) (auto intro: join_least)

end

interpretation worst: effect_join worstEffect
  by unfold_locales
    (auto simp: worstEffect_def max_def less_eq_effect_certainty_def,
     metis effectSeverity.elims le_antisym less_eq_effect_certainty_def nle_le)

lemma requiresInspection_iff: "requiresInspection out \<longleftrightarrow> Eff_Partial \<le> effectOf out"
  by (cases "effectOf out") (auto simp: requiresInspection_def less_eq_effect_certainty_def)

lemma cancellationOutcome_effect: "e \<le> effectOf (cancellationOutcomeFor e)"
  by (cases e) (auto simp: less_eq_effect_certainty_def)

lemma timeoutOutcome_effect: "e \<le> effectOf (timeoutOutcomeFor e)"
  by (cases e) (auto simp: less_eq_effect_certainty_def)

end
