(* ===== verification/Scope_Tree.thy ===== *)
theory Scope_Tree
  imports Foundation Outcome
begin

text \<open>
  Cancellation scopes: the contract of \<^verbatim>\<open>src/domain/orchestration/scope.ts\<close> and the tree of
  \<^verbatim>\<open>src/application/orchestration/scope-tree.ts\<close>.

  The tree is the record of the closure's variables. A reference to a node object is its
  identifier, looked up where the code follows the reference: an object leaves the map only by
  eviction, which happens to settled scopes alone, so a reference the code still writes through
  is always present. The abort controller of a node is the flag \<open>sn_aborted\<close>. Each read of the
  clock is an argument. The two loops over the tree carry fuel: the breadth-first walk is given
  one step per node, the walk to the root \<open>MAX_SCOPE_DEPTH\<close> steps; the lemmas show that neither
  runs out in a well-formed tree. Subscribers and diagnostics observe events and do not call
  back; they are left out.
\<close>

section \<open>Contracts (scope.ts)\<close>

type_synonym scope_id = string

datatype scope_kind =
    Kind_Application | Kind_Session | Kind_Turn | Kind_Attempt | Kind_Invocation | Kind_Child

datatype cancellation_reason =
    Requested
  | Parent_Cancelled scope_id
  | Deadline_Exceeded deadline bool
  | Shutdown

datatype scope_state =
    Active
  | Cancelling cancellation_reason instant
  | Terminal terminal_outcome "cancellation_reason option" instant

fun is_terminal :: "scope_state \<Rightarrow> bool" where
  "is_terminal (Terminal _ _ _) = True"
| "is_terminal _ = False"

datatype scope_event_kind =
    Scope_Opened | Scope_Cancellation_Requested | Scope_Effect_Recorded | Scope_Terminal

record scope_event =
  se_order :: nat
  se_kind :: scope_event_kind
  se_scopeId :: scope_id
  se_scopeKind :: scope_kind
  se_at :: instant
  se_reason :: "cancellation_reason option"
  se_outcome :: "terminal_outcome option"
  se_effect :: "effect_certainty option"

record scope_report =
  sr_scopeId :: scope_id
  sr_kind :: scope_kind
  sr_parentId :: "scope_id option"
  sr_state :: scope_state
  sr_deadline :: "deadline option"
  sr_recordedEffect :: effect_certainty
  sr_subtreeEffect :: effect_certainty
  sr_requiresInspection :: bool
  sr_cancellationLatency :: "duration option"

datatype scope_error =
    Unknown_Scope scope_id
  | Duplicate_Scope scope_id
  | Scope_Already_Terminal scope_id
  | Scope_Depth_Exceeded nat
  | Scope_Count_Exceeded int

section \<open>The tree (scope-tree.ts)\<close>

definition MAX_SCOPE_DEPTH :: nat where "MAX_SCOPE_DEPTH = 16"
definition MAX_LIVE_SCOPES :: int where "MAX_LIVE_SCOPES = 10000"
definition MAX_RETAINED_TERMINAL_SCOPES :: nat where "MAX_RETAINED_TERMINAL_SCOPES = 1000"
definition MAX_EVICTED_TOMBSTONES :: nat where "MAX_EVICTED_TOMBSTONES = MAX_RETAINED_TERMINAL_SCOPES"
definition MAX_RETAINED_SCOPE_EVENTS :: nat where "MAX_RETAINED_SCOPE_EVENTS = 10000"
definition SCOPE_EVENT_TRIM_CHUNK :: nat where "SCOPE_EVENT_TRIM_CHUNK = 1024"

record scope_handle =
  sh_scopeId :: scope_id
  sh_kind :: scope_kind
  sh_parentId :: "scope_id option"
  sh_deadline :: "deadline option"
  sh_depth :: nat

record derive_options =
  do_kind :: scope_kind
  do_deadline :: "deadline option"
  do_scopeId :: "scope_id option"

record late_effect_record =
  le_scopeId :: scope_id
  le_effect :: effect_certainty
  le_late :: bool
  le_foldedInto :: "scope_id list"

record scope_node =
  sn_scopeId :: scope_id
  sn_kind :: scope_kind
  sn_parentId :: "scope_id option"
  sn_depth :: nat
  sn_deadline :: "deadline option"
  sn_aborted :: bool
  sn_children :: "scope_id list"
  sn_state :: scope_state
  sn_effect :: effect_certainty
  sn_settledDescendantEffect :: effect_certainty
  sn_cancellationRequestedAt :: "instant option"
  sn_nextChildOrdinal :: nat

record scope_tree =
  st_nodes :: "(scope_id, scope_node) js_map"
  st_events :: "scope_event list"
  st_retained :: "scope_id list"
  st_tombstones :: "(scope_id, scope_id list) js_map"
  st_tombstoneOrder :: "scope_id list"
  st_order :: nat
  st_liveCount :: int
  st_droppedEvents :: nat
  st_cancellationBoundaries :: "scope_id set"
  st_root :: scope_handle

definition emit ::
  "scope_event_kind \<Rightarrow> scope_node \<Rightarrow> instant \<Rightarrow> cancellation_reason option \<Rightarrow> terminal_outcome option \<Rightarrow>
   effect_certainty option \<Rightarrow> scope_tree \<Rightarrow> scope_tree \<times> scope_event" where
  "emit kind node at reason outcome effect t =
     (let order = st_order t + 1;
          event = \<lparr>se_order = order, se_kind = kind, se_scopeId = sn_scopeId node,
                   se_scopeKind = sn_kind node, se_at = at, se_reason = reason,
                   se_outcome = outcome, se_effect = effect\<rparr>;
          events = st_events t @ [event]
      in (if length events > MAX_RETAINED_SCOPE_EVENTS
          then t\<lparr>st_order := order, st_events := drop SCOPE_EVENT_TRIM_CHUNK events,
                 st_droppedEvents := st_droppedEvents t + length (take SCOPE_EVENT_TRIM_CHUNK events)\<rparr>
          else t\<lparr>st_order := order, st_events := events\<rparr>, event))"

definition handleOf :: "scope_node \<Rightarrow> scope_handle" where
  "handleOf node =
     \<lparr>sh_scopeId = sn_scopeId node, sh_kind = sn_kind node, sh_parentId = sn_parentId node,
      sh_deadline = sn_deadline node, sh_depth = sn_depth node\<rparr>"

definition createScopeTree :: "instant \<Rightarrow> scope_id option \<Rightarrow> deadline option \<Rightarrow> scope_tree" where
  "createScopeTree now rootScopeId rootDeadline =
     (let rootId = case rootScopeId of Some i \<Rightarrow> i | None \<Rightarrow> ''scope-root'';
          rootNode = \<lparr>sn_scopeId = rootId, sn_kind = Kind_Application, sn_parentId = None, sn_depth = 0,
            sn_deadline = rootDeadline, sn_aborted = False, sn_children = [], sn_state = Active,
            sn_effect = Eff_None, sn_settledDescendantEffect = Eff_None,
            sn_cancellationRequestedAt = None, sn_nextChildOrdinal = 1\<rparr>
      in fst (emit Scope_Opened rootNode now None None None
           \<lparr>st_nodes = [(rootId, rootNode)], st_events = [], st_retained = [], st_tombstones = [],
            st_tombstoneOrder = [], st_order = 0, st_liveCount = 1, st_droppedEvents = 0,
            st_cancellationBoundaries = {}, st_root = handleOf rootNode\<rparr>))"

fun descend ::
  "nat \<Rightarrow> bool \<Rightarrow> scope_tree \<Rightarrow> scope_id list \<Rightarrow> scope_id list \<Rightarrow> scope_id list" where
  "descend fuel cancellation t [] collected = collected"
| "descend 0 cancellation t (next # queue) collected = collected"
| "descend (Suc fuel) cancellation t (next # queue) collected =
     (case js_get (st_nodes t) next of
        None \<Rightarrow> descend fuel cancellation t queue collected
      | Some node \<Rightarrow>
          if cancellation \<and> next \<in> st_cancellationBoundaries t
          then descend fuel cancellation t queue collected
          else descend fuel cancellation t (queue @ sn_children node) (collected @ [next]))"

definition descendantsOf :: "scope_tree \<Rightarrow> scope_node \<Rightarrow> bool \<Rightarrow> scope_id list" where
  "descendantsOf t start cancellation =
     descend (length (st_nodes t)) cancellation t (sn_children start) []"

definition totalEffectOf :: "scope_node \<Rightarrow> effect_certainty" where
  "totalEffectOf node = worstEffect (sn_effect node) (sn_settledDescendantEffect node)"

definition total_at :: "scope_tree \<Rightarrow> scope_id \<Rightarrow> effect_certainty" where
  "total_at t i = (case js_get (st_nodes t) i of None \<Rightarrow> Eff_None | Some n \<Rightarrow> totalEffectOf n)"

definition subtreeEffectOf :: "scope_tree \<Rightarrow> scope_node \<Rightarrow> effect_certainty" where
  "subtreeEffectOf t node =
     foldl (\<lambda>worst i. worstEffect worst (total_at t i)) (totalEffectOf node) (descendantsOf t node False)"

definition put_node :: "scope_id \<Rightarrow> scope_node \<Rightarrow> scope_tree \<Rightarrow> scope_tree" where
  "put_node i node t = t\<lparr>st_nodes := js_set i node (st_nodes t)\<rparr>"

text \<open>
  Aborting a scope's controller sets the flag its handle shows. The code also runs the listeners on that
  signal at once; the one an admitted idle child registers (\<open>createChildAdmission\<close>) acknowledges the scope
  from there. Here what a listener calls is a step of its own, after the call that aborted.
\<close>

definition beginCancelling ::
  "cancellation_reason \<Rightarrow> instant \<Rightarrow> scope_id \<Rightarrow> scope_tree \<times> scope_event list \<Rightarrow> scope_tree \<times> scope_event list" where
  "beginCancelling reason at i = (\<lambda>(t, collected).
     case js_get (st_nodes t) i of
       None \<Rightarrow> (t, collected)
     | Some node \<Rightarrow>
         if sn_state node \<noteq> Active then (t, collected)
         else let node' = node\<lparr>sn_state := Cancelling reason at, sn_cancellationRequestedAt := Some at,
                               sn_aborted := True\<rparr>;
                  (t', event) = emit Scope_Cancellation_Requested node' at (Some reason) None None
                                  (put_node i node' t)
              in (t', collected @ [event]))"

fun climb :: "nat \<Rightarrow> scope_tree \<Rightarrow> scope_id option \<Rightarrow> scope_id list" where
  "climb 0 t i = []"
| "climb (Suc fuel) t None = []"
| "climb (Suc fuel) t (Some i) =
     (case js_get (st_nodes t) i of
        None \<Rightarrow> []
      | Some ancestor \<Rightarrow> i # climb fuel t (sn_parentId ancestor))"

definition ancestorIdsOf :: "scope_tree \<Rightarrow> scope_node \<Rightarrow> scope_id list" where
  "ancestorIdsOf t node = climb MAX_SCOPE_DEPTH t (sn_parentId node)"

definition forgetTombstone :: "scope_id \<Rightarrow> scope_tree \<Rightarrow> scope_tree" where
  "forgetTombstone i t =
     (if \<not> js_has (st_tombstones t) i then t
      else t\<lparr>st_tombstones := js_delete i (st_tombstones t),
             st_tombstoneOrder := remove1 i (st_tombstoneOrder t)\<rparr>)"

fun trim_tombstones ::
  "scope_id list \<Rightarrow> (scope_id, scope_id list) js_map \<Rightarrow> scope_id list \<times> (scope_id, scope_id list) js_map" where
  "trim_tombstones [] stones = ([], stones)"
| "trim_tombstones (oldest # order) stones =
     (if length (oldest # order) > MAX_EVICTED_TOMBSTONES
      then trim_tombstones order (js_delete oldest stones)
      else (oldest # order, stones))"

definition rememberTombstone :: "scope_id \<Rightarrow> scope_id list \<Rightarrow> scope_tree \<Rightarrow> scope_tree" where
  "rememberTombstone i ancestorIds t0 =
     (let t = forgetTombstone i t0;
          (order, stones) = trim_tombstones (st_tombstoneOrder t @ [i])
                              (js_set i ancestorIds (st_tombstones t))
      in t\<lparr>st_tombstones := stones, st_tombstoneOrder := order\<rparr>)"

definition evictable :: "scope_tree \<Rightarrow> scope_node \<Rightarrow> bool" where
  "evictable t node \<longleftrightarrow> \<not> list_ex (\<lambda>child. js_has (st_nodes t) child) (sn_children node)"

definition unlink :: "scope_node \<Rightarrow> scope_tree \<Rightarrow> scope_tree" where
  "unlink node t =
     (case sn_parentId node of
        None \<Rightarrow> t
      | Some p \<Rightarrow>
          t\<lparr>st_nodes := js_modify (\<lambda>parent. parent\<lparr>sn_children := remove1 (sn_scopeId node) (sn_children parent)\<rparr>)
                          p (st_nodes t)\<rparr>)"

definition evict :: "scope_node \<Rightarrow> scope_tree \<Rightarrow> scope_tree \<times> bool" where
  "evict node t =
     (if \<not> evictable t node then (t, False)
      else let ancestorIds = ancestorIdsOf t node;
               t1 = unlink node t;
               t2 = t1\<lparr>st_nodes := js_delete (sn_scopeId node) (st_nodes t1),
                       st_cancellationBoundaries := st_cancellationBoundaries t1 - {sn_scopeId node}\<rparr>
           in (rememberTombstone (sn_scopeId node) ancestorIds t2, True))"

text \<open>
  The loop of \<open>trimRetained\<close> with \<open>retained = skipped @ rest\<close> and \<open>index = length skipped\<close>, so
  that \<open>retained.length - index\<close> is the length of \<open>rest\<close>.
\<close>

fun trim_loop :: "scope_id list \<Rightarrow> scope_id list \<Rightarrow> scope_tree \<Rightarrow> scope_tree" where
  "trim_loop skipped [] t = t\<lparr>st_retained := skipped\<rparr>"
| "trim_loop skipped (candidateId # rest) t =
     (if length (candidateId # rest) > MAX_RETAINED_TERMINAL_SCOPES
      then case js_get (st_nodes t) candidateId of
             None \<Rightarrow> trim_loop skipped rest t
           | Some candidate \<Rightarrow>
               (case evict candidate t of
                  (t', True) \<Rightarrow> trim_loop skipped rest t'
                | (t', False) \<Rightarrow> trim_loop (skipped @ [candidateId]) rest t')
      else t\<lparr>st_retained := skipped @ candidateId # rest\<rparr>)"

definition trimRetained :: "scope_tree \<Rightarrow> scope_tree" where
  "trimRetained t = trim_loop [] (st_retained t) t"

fun foldIntoAncestorIds ::
  "scope_id list \<Rightarrow> effect_certainty \<Rightarrow> scope_tree \<Rightarrow> scope_tree \<times> scope_id list" where
  "foldIntoAncestorIds [] effect t = (t, [])"
| "foldIntoAncestorIds (ancestorId # ids) effect t =
     (case js_get (st_nodes t) ancestorId of
        None \<Rightarrow> foldIntoAncestorIds ids effect t
      | Some ancestor \<Rightarrow>
          let t1 = put_node ancestorId
                     (ancestor\<lparr>sn_settledDescendantEffect :=
                        worstEffect (sn_settledDescendantEffect ancestor) effect\<rparr>) t;
              (t2, reached) = foldIntoAncestorIds ids effect t1
          in (t2, ancestorId # reached))"

definition foldIntoAncestors :: "scope_node \<Rightarrow> effect_certainty \<Rightarrow> scope_tree \<Rightarrow> scope_tree \<times> scope_id list" where
  "foldIntoAncestors node effect t = foldIntoAncestorIds (ancestorIdsOf t node) effect t"

fun reason_of :: "scope_state \<Rightarrow> cancellation_reason option" where
  "reason_of (Cancelling reason _) = Some reason"
| "reason_of _ = None"

definition settle :: "scope_node \<Rightarrow> terminal_outcome \<Rightarrow> instant \<Rightarrow> scope_tree \<Rightarrow> scope_tree \<times> scope_event" where
  "settle node outcome at t =
     (let reason = reason_of (sn_state node);
          node' = node\<lparr>sn_state := Terminal outcome reason at\<rparr>;
          t1 = (put_node (sn_scopeId node) node' t)\<lparr>st_liveCount := st_liveCount t - 1\<rparr>;
          t2 = fst (foldIntoAncestors node' (totalEffectOf node') t1);
          (t3, event) = emit Scope_Terminal node' at reason (Some outcome) (Some (sn_effect node')) t2;
          t4 = t3\<lparr>st_retained := st_retained t3 @ [sn_scopeId node]\<rparr>
      in (trimRetained t4, event))"

definition requireNode :: "scope_tree \<Rightarrow> scope_id \<Rightarrow> (scope_node, scope_error) result" where
  "requireNode t i = (case js_get (st_nodes t) i of None \<Rightarrow> Err (Unknown_Scope i) | Some n \<Rightarrow> Ok n)"

definition applyEffect :: "scope_node \<Rightarrow> effect_certainty \<Rightarrow> instant \<Rightarrow> scope_tree \<Rightarrow> scope_tree" where
  "applyEffect node effect now t =
     (let updated = worstEffect (sn_effect node) effect in
      if updated \<noteq> sn_effect node
      then let node' = node\<lparr>sn_effect := updated\<rparr>
           in fst (emit Scope_Effect_Recorded node' now None None (Some updated)
                     (put_node (sn_scopeId node) node' t))
      else t)"

definition settleSelf ::
  "scope_tree \<Rightarrow> instant \<Rightarrow> scope_id \<Rightarrow> terminal_outcome \<Rightarrow> scope_tree \<times> (terminal_outcome, scope_error) result" where
  "settleSelf t now i outcome =
     (case requireNode t i of
        Err e \<Rightarrow> (t, Err e)
      | Ok node \<Rightarrow>
          if is_terminal (sn_state node) then (t, Err (Scope_Already_Terminal i))
          else (fst (settle node outcome now t), Ok outcome))"

section \<open>The methods\<close>

definition cancellationBoundary :: "scope_tree \<Rightarrow> scope_id \<Rightarrow> bool \<Rightarrow> scope_tree \<times> bool" where
  "cancellationBoundary t i enabled =
     (case js_get (st_nodes t) i of
        None \<Rightarrow> (t, False)
      | Some node \<Rightarrow>
          (case sn_parentId node of
             None \<Rightarrow> (t, False)
           | Some p \<Rightarrow>
               if sn_state node \<noteq> Active then (t, False)
               else if enabled
                    then (t\<lparr>st_cancellationBoundaries := insert i (st_cancellationBoundaries t)\<rparr>, True)
                    else case js_get (st_nodes t) p of
                           None \<Rightarrow> (t, False)
                         | Some parent \<Rightarrow>
                             if sn_state parent \<noteq> Active then (t, False)
                             else (t\<lparr>st_cancellationBoundaries := st_cancellationBoundaries t - {i}\<rparr>, True)))"

definition root_handle :: "scope_tree \<Rightarrow> scope_handle" where
  "root_handle t = st_root t"

definition childIdOf :: "scope_node \<Rightarrow> scope_id \<Rightarrow> derive_options \<Rightarrow> identity_error + scope_id" where
  "childIdOf parent parentId options =
     (case do_scopeId options of
        Some i \<Rightarrow> Inr i
      | None \<Rightarrow> identifier_from ''scopeId'' (parentId @ ''.'' @ decimal (sn_nextChildOrdinal parent)))"

text \<open>
  Everything after the guards: the node is added, linked, announced, and starts cancelling when
  its parent already is. \<open>openedAt\<close> and \<open>stoppedAt\<close> are the two clock reads.
\<close>

definition open_child ::
  "scope_tree \<Rightarrow> instant \<Rightarrow> instant \<Rightarrow> scope_id \<Rightarrow> scope_node \<Rightarrow> scope_id \<Rightarrow> derive_options \<Rightarrow> scope_tree \<times> scope_handle" where
  "open_child t0 openedAt stoppedAt parentId parent childId options =
     (let t = forgetTombstone childId t0;
          node = \<lparr>sn_scopeId = childId, sn_kind = do_kind options, sn_parentId = Some parentId,
            sn_depth = sn_depth parent + 1,
            sn_deadline = deriveDeadline (sn_deadline parent) (do_deadline options),
            sn_aborted = False, sn_children = [], sn_state = Active, sn_effect = Eff_None,
            sn_settledDescendantEffect = Eff_None, sn_cancellationRequestedAt = None,
            sn_nextChildOrdinal = 1\<rparr>;
          t1 = (put_node childId node t)\<lparr>st_liveCount := st_liveCount t + 1\<rparr>;
          t2 = put_node parentId
                 (parent\<lparr>sn_nextChildOrdinal := sn_nextChildOrdinal parent + 1,
                         sn_children := sn_children parent @ [childId]\<rparr>) t1;
          t3 = fst (emit Scope_Opened node openedAt None None None t2);
          t4 = (case sn_state parent of
                  Cancelling _ _ \<Rightarrow> fst (beginCancelling (Parent_Cancelled parentId) stoppedAt childId (t3, []))
                | _ \<Rightarrow> t3)
      in (t4, handleOf node))"

definition derive ::
  "scope_tree \<Rightarrow> instant \<Rightarrow> instant \<Rightarrow> scope_id \<Rightarrow> derive_options \<Rightarrow>
   scope_tree \<times> (identity_error + (scope_handle, scope_error) result)" where
  "derive t openedAt stoppedAt parentId options =
     (case requireNode t parentId of
        Err e \<Rightarrow> (t, Inr (Err e))
      | Ok parent \<Rightarrow>
          if is_terminal (sn_state parent) then (t, Inr (Err (Scope_Already_Terminal parentId)))
          else if sn_depth parent + 1 \<ge> MAX_SCOPE_DEPTH
          then (t, Inr (Err (Scope_Depth_Exceeded MAX_SCOPE_DEPTH)))
          else if st_liveCount t \<ge> MAX_LIVE_SCOPES
          then (t, Inr (Err (Scope_Count_Exceeded MAX_LIVE_SCOPES)))
          else case childIdOf parent parentId options of
                 Inl thrown \<Rightarrow> (t, Inl thrown)
               | Inr childId \<Rightarrow>
                   if js_has (st_nodes t) childId then (t, Inr (Err (Duplicate_Scope childId)))
                   else let (t', handle) = open_child t openedAt stoppedAt parentId parent childId options
                        in (t', Inr (Ok handle)))"

text \<open>\<open>beginCancelling\<close> on a scope and then on each descendant, as \<open>cancel\<close> and \<open>expireDeadlines\<close> do.\<close>

definition cancel_subtree ::
  "cancellation_reason \<Rightarrow> instant \<Rightarrow> scope_id \<Rightarrow> scope_tree \<times> scope_event list \<Rightarrow> scope_tree \<times> scope_event list" where
  "cancel_subtree reason at i acc =
     (let (t, collected) = beginCancelling reason at i acc in
      case js_get (st_nodes t) i of
        None \<Rightarrow> (t, collected)
      | Some target \<Rightarrow>
          fold (beginCancelling (Parent_Cancelled i) at) (descendantsOf t target True) (t, collected))"

definition cancel ::
  "scope_tree \<Rightarrow> instant \<Rightarrow> scope_id \<Rightarrow> cancellation_reason \<Rightarrow>
   scope_tree \<times> (scope_event list, scope_error) result" where
  "cancel t at targetId reason =
     (case requireNode t targetId of
        Err e \<Rightarrow> (t, Err e)
      | Ok target \<Rightarrow>
          let (t', collected) = cancel_subtree reason at targetId (t, []) in (t', Ok collected))"

definition recordEffect ::
  "scope_tree \<Rightarrow> instant \<Rightarrow> scope_id \<Rightarrow> effect_certainty \<Rightarrow> scope_tree \<times> (unit, scope_error) result" where
  "recordEffect t now i effect =
     (case requireNode t i of
        Err e \<Rightarrow> (t, Err e)
      | Ok node \<Rightarrow>
          if is_terminal (sn_state node) then (t, Err (Scope_Already_Terminal i))
          else (applyEffect node effect now t, Ok ()))"

definition recordLateEffect ::
  "scope_tree \<Rightarrow> instant \<Rightarrow> scope_id \<Rightarrow> effect_certainty \<Rightarrow>
   scope_tree \<times> (late_effect_record, scope_error) result" where
  "recordLateEffect t now i effect =
     (case js_get (st_nodes t) i of
        Some node \<Rightarrow>
          if \<not> is_terminal (sn_state node)
          then (applyEffect node effect now t,
                Ok \<lparr>le_scopeId = i, le_effect = effect, le_late = False, le_foldedInto = []\<rparr>)
          else let (t', reached) = foldIntoAncestors node effect t
               in (t', Ok \<lparr>le_scopeId = i, le_effect = effect, le_late = True, le_foldedInto = reached\<rparr>)
      | None \<Rightarrow>
          (case js_get (st_tombstones t) i of
             None \<Rightarrow> (t, Err (Unknown_Scope i))
           | Some ancestorIds \<Rightarrow>
               let (t', reached) = foldIntoAncestorIds ancestorIds effect t
               in (t', Ok \<lparr>le_scopeId = i, le_effect = effect, le_late = True, le_foldedInto = reached\<rparr>)))"

definition complete_scope ::
  "scope_tree \<Rightarrow> instant \<Rightarrow> scope_id \<Rightarrow> scope_tree \<times> (terminal_outcome, scope_error) result" where
  "complete_scope t now i = settleSelf t now i Completed"

definition fail_scope ::
  "scope_tree \<Rightarrow> instant \<Rightarrow> scope_id \<Rightarrow> scope_tree \<times> (terminal_outcome, scope_error) result" where
  "fail_scope t now i =
     (case requireNode t i of
        Err e \<Rightarrow> (t, Err e)
      | Ok node \<Rightarrow> settleSelf t now i (Failed (sn_effect node)))"

fun acknowledged_outcome :: "scope_state \<Rightarrow> effect_certainty \<Rightarrow> terminal_outcome" where
  "acknowledged_outcome (Cancelling (Deadline_Exceeded _ _) _) effect = timeoutOutcomeFor effect"
| "acknowledged_outcome _ effect = cancellationOutcomeFor effect"

definition acknowledge ::
  "scope_tree \<Rightarrow> instant \<Rightarrow> scope_id \<Rightarrow> scope_tree \<times> (terminal_outcome, scope_error) result" where
  "acknowledge t now i =
     (case requireNode t i of
        Err e \<Rightarrow> (t, Err e)
      | Ok node \<Rightarrow>
          if is_terminal (sn_state node) then (t, Err (Scope_Already_Terminal i))
          else let outcome = acknowledged_outcome (sn_state node) (sn_effect node)
               in (fst (settle node outcome now t), Ok outcome))"

text \<open>\<open>tick i\<close> is what the clock answers when the loop tests the scope \<open>i\<close>.\<close>

definition expire_one ::
  "bool \<Rightarrow> instant \<Rightarrow> (scope_id \<Rightarrow> instant) \<Rightarrow> scope_id \<Rightarrow> scope_tree \<times> scope_event list \<Rightarrow> scope_tree \<times> scope_event list" where
  "expire_one escalated at tick i acc =
     (case js_get (st_nodes (fst acc)) i of
        None \<Rightarrow> acc
      | Some node \<Rightarrow>
          (case sn_deadline node of
             None \<Rightarrow> acc
           | Some d \<Rightarrow>
               if sn_state node \<noteq> Active \<or> \<not> isExpired d (tick i) then acc
               else cancel_subtree (Deadline_Exceeded d escalated) at i acc))"

definition expireDeadlines ::
  "scope_tree \<Rightarrow> bool \<Rightarrow> instant \<Rightarrow> (scope_id \<Rightarrow> instant) \<Rightarrow> scope_tree \<times> scope_event list" where
  "expireDeadlines t escalated at tick = fold (expire_one escalated at tick) (js_keys (st_nodes t)) (t, [])"

definition force_one :: "instant \<Rightarrow> scope_id \<Rightarrow> scope_tree \<times> scope_event list \<Rightarrow> scope_tree \<times> scope_event list" where
  "force_one at i = (\<lambda>(t, collected).
     case js_get (st_nodes t) i of
       None \<Rightarrow> (t, collected)
     | Some node \<Rightarrow>
         if is_terminal (sn_state node) then (t, collected)
         else let (t', event) = settle node Uncertain at t in (t', collected @ [event]))"

definition forceSettleUnacknowledged :: "scope_tree \<Rightarrow> instant \<Rightarrow> scope_tree \<times> scope_event list" where
  "forceSettleUnacknowledged t at = fold (force_one at) (js_keys (st_nodes t)) (t, [])"

definition handle_of :: "scope_tree \<Rightarrow> scope_id \<Rightarrow> scope_handle option" where
  "handle_of t i = map_option handleOf (js_get (st_nodes t) i)"

definition latency_of :: "scope_node \<Rightarrow> duration option" where
  "latency_of node =
     (case (sn_cancellationRequestedAt node, sn_state node) of
        (Some requested, Terminal _ _ settledAt) \<Rightarrow> Some (elapsedBetween requested settledAt)
      | _ \<Rightarrow> None)"

definition report_scope :: "scope_tree \<Rightarrow> scope_id \<Rightarrow> scope_report option" where
  "report_scope t i =
     (case js_get (st_nodes t) i of
        None \<Rightarrow> None
      | Some node \<Rightarrow>
          let subtreeEffect = subtreeEffectOf t node in
          Some \<lparr>sr_scopeId = sn_scopeId node, sr_kind = sn_kind node, sr_parentId = sn_parentId node,
                sr_state = sn_state node, sr_deadline = sn_deadline node,
                sr_recordedEffect = sn_effect node, sr_subtreeEffect = subtreeEffect,
                sr_requiresInspection = (subtreeEffect = Eff_Partial \<or> subtreeEffect = Eff_Uncertain),
                sr_cancellationLatency = latency_of node\<rparr>)"

definition state_of :: "scope_tree \<Rightarrow> scope_id \<Rightarrow> scope_state option" where
  "state_of t i = map_option sn_state (js_get (st_nodes t) i)"

definition children_of :: "scope_tree \<Rightarrow> scope_id \<Rightarrow> scope_id list" where
  "children_of t i = (case js_get (st_nodes t) i of None \<Rightarrow> [] | Some node \<Rightarrow> sn_children node)"

text \<open>Any caller, any method, any clock reading.\<close>

inductive scope_step :: "scope_tree \<Rightarrow> scope_tree \<Rightarrow> bool" where
  s_derive: "scope_step t (fst (derive t openedAt stoppedAt p options))"
| s_boundary: "scope_step t (fst (cancellationBoundary t i enabled))"
| s_cancel: "scope_step t (fst (cancel t now i reason))"
| s_effect: "scope_step t (fst (recordEffect t now i effect))"
| s_late: "scope_step t (fst (recordLateEffect t now i effect))"
| s_complete: "scope_step t (fst (complete_scope t now i))"
| s_fail: "scope_step t (fst (fail_scope t now i))"
| s_acknowledge: "scope_step t (fst (acknowledge t now i))"
| s_expire: "scope_step t (fst (expireDeadlines t escalated now tick))"
| s_force: "scope_step t (fst (forceSettleUnacknowledged t now))"

section \<open>Well-formed trees\<close>

definition shape ::
  "scope_node \<Rightarrow> scope_id \<times> scope_kind \<times> scope_id option \<times> nat \<times> deadline option \<times> scope_id list" where
  "shape n = (sn_scopeId n, sn_kind n, sn_parentId n, sn_depth n, sn_deadline n, sn_children n)"

definition node_ok :: "(scope_id, scope_node) js_map \<Rightarrow> scope_id \<Rightarrow> scope_node \<Rightarrow> bool" where
  "node_ok nodes k n \<longleftrightarrow>
     sn_scopeId n = k \<and> sn_depth n < MAX_SCOPE_DEPTH \<and> distinct (sn_children n) \<and>
     (\<forall>c \<in> set (sn_children n). \<exists>m. js_get nodes c = Some m \<and> sn_parentId m = Some k) \<and>
     (case sn_parentId n of
        None \<Rightarrow> sn_depth n = 0
      | Some p \<Rightarrow> \<exists>m. js_get nodes p = Some m \<and> k \<in> set (sn_children m) \<and>
                    sn_depth n = sn_depth m + 1 \<and> tighter (sn_deadline n) (sn_deadline m))"

definition links_ok :: "(scope_id, scope_node) js_map \<Rightarrow> bool" where
  "links_ok nodes \<longleftrightarrow> js_wf nodes \<and> (\<forall>k n. js_get nodes k = Some n \<longrightarrow> node_ok nodes k n)"

definition same_shape :: "(scope_id, scope_node) js_map \<Rightarrow> (scope_id, scope_node) js_map \<Rightarrow> bool" where
  "same_shape nodes nodes' \<longleftrightarrow> js_keys nodes' = js_keys nodes \<and>
     (\<forall>k. map_option shape (js_get nodes' k) = map_option shape (js_get nodes k))"

lemma same_shape_refl [simp]: "same_shape nodes nodes"
  by (simp add: same_shape_def)

lemma same_shape_trans: "same_shape a b \<Longrightarrow> same_shape b c \<Longrightarrow> same_shape a c"
  by (simp add: same_shape_def)

lemma same_shape_Some:
  assumes "same_shape nodes nodes'" "js_get nodes k = Some n"
  obtains n' where "js_get nodes' k = Some n'" "shape n' = shape n"
  using assms by (auto simp: same_shape_def dest!: spec [of _ k])

lemma same_shape_Some':
  assumes "same_shape nodes nodes'" "js_get nodes' k = Some n'"
  obtains n where "js_get nodes k = Some n" "shape n' = shape n"
proof (cases "js_get nodes k")
  case None
  with assms show ?thesis by (auto simp: same_shape_def dest!: spec [of _ k])
next
  case (Some n)
  have "map_option shape (js_get nodes' k) = map_option shape (js_get nodes k)"
    using assms(1) by (simp add: same_shape_def)
  with Some assms(2) that show ?thesis by simp
qed

lemma same_shape_None: "same_shape nodes nodes' \<Longrightarrow> js_get nodes' k = None \<longleftrightarrow> js_get nodes k = None"
  unfolding same_shape_def by (metis option.map_disc_iff)

lemma links_ok_same_shape:
  assumes "links_ok nodes" "same_shape nodes nodes'"
  shows "links_ok nodes'"
  unfolding links_ok_def
proof (intro conjI allI impI)
  show "js_wf nodes'" using assms by (simp add: links_ok_def same_shape_def)
next
  fix k n'
  assume "js_get nodes' k = Some n'"
  with assms(2) obtain n where n: "js_get nodes k = Some n" "shape n' = shape n"
    by (rule same_shape_Some')
  with assms(1) have ok: "node_ok nodes k n" by (auto simp: links_ok_def)
  have look: "\<exists>m'. js_get nodes' j = Some m' \<and> shape m' = shape m" if "js_get nodes j = Some m" for j m
    using same_shape_Some [OF assms(2) that] by blast
  show "node_ok nodes' k n'"
    unfolding node_ok_def
  proof (intro conjI ballI)
    fix c assume "c \<in> set (sn_children n')"
    with ok n(2) obtain m where "js_get nodes c = Some m" "sn_parentId m = Some k"
      by (auto simp: node_ok_def shape_def)
    with look [of c m] show "\<exists>m. js_get nodes' c = Some m \<and> sn_parentId m = Some k"
      by (auto simp: shape_def)
  next
    show "case sn_parentId n' of None \<Rightarrow> sn_depth n' = 0
        | Some p \<Rightarrow> \<exists>m. js_get nodes' p = Some m \<and> k \<in> set (sn_children m) \<and>
                      sn_depth n' = sn_depth m + 1 \<and> tighter (sn_deadline n') (sn_deadline m)"
    proof (cases "sn_parentId n")
      case None
      with ok n(2) show ?thesis by (auto simp: node_ok_def shape_def)
    next
      case (Some p)
      with ok obtain m where m: "js_get nodes p = Some m" "k \<in> set (sn_children m)"
        "sn_depth n = sn_depth m + 1" "tighter (sn_deadline n) (sn_deadline m)"
        by (auto simp: node_ok_def)
      with look [of p m] Some n(2) show ?thesis by (auto simp: shape_def)
    qed
  qed (use ok n(2) in \<open>auto simp: node_ok_def shape_def\<close>)
qed

lemma same_shape_set:
  assumes "js_get nodes k = Some n" "shape n' = shape n"
  shows "same_shape nodes (js_set k n' nodes)"
proof -
  have "k \<in> set (js_keys nodes)" using assms(1) unfolding js_keys_iff by simp
  then show ?thesis using assms by (auto simp: same_shape_def jsm.keys_put)
qed

lemma links_ok_wf: "links_ok nodes \<Longrightarrow> js_wf nodes"
  by (simp add: links_ok_def)

lemma links_ok_node: "links_ok nodes \<Longrightarrow> js_get nodes k = Some n \<Longrightarrow> node_ok nodes k n"
  by (simp add: links_ok_def)

lemma links_ok_id: "links_ok nodes \<Longrightarrow> js_get nodes k = Some n \<Longrightarrow> sn_scopeId n = k"
  using links_ok_node by (auto simp: node_ok_def)

lemma links_ok_parent:
  assumes "links_ok nodes" "js_get nodes k = Some n" "sn_parentId n = Some p"
  obtains m where "js_get nodes p = Some m" "k \<in> set (sn_children m)" "sn_depth n = sn_depth m + 1"
    "tighter (sn_deadline n) (sn_deadline m)"
  using links_ok_node [OF assms(1,2)] assms(3) by (auto simp: node_ok_def)

lemma links_ok_child:
  assumes "links_ok nodes" "js_get nodes k = Some n" "c \<in> set (sn_children n)"
  obtains m where "js_get nodes c = Some m" "sn_parentId m = Some k" "sn_depth m = sn_depth n + 1"
proof -
  obtain m where m: "js_get nodes c = Some m" "sn_parentId m = Some k"
    using links_ok_node [OF assms(1,2)] assms(3) by (auto simp: node_ok_def)
  with links_ok_parent [OF assms(1) m] assms(2) have "sn_depth m = sn_depth n + 1" by auto
  with m that show ?thesis by blast
qed

section \<open>How a node may change\<close>

text \<open>
  \<open>evolves\<close> is what every method may do to a node it keeps: identity, kind, parent, depth and
  deadline are fixed, effects only grow, a stop request is never withdrawn, and a settled
  scope keeps its state and its own effect.
\<close>

definition evolves :: "scope_node \<Rightarrow> scope_node \<Rightarrow> bool" where
  "evolves n n' \<longleftrightarrow>
     sn_scopeId n' = sn_scopeId n \<and> sn_kind n' = sn_kind n \<and> sn_parentId n' = sn_parentId n \<and>
     sn_depth n' = sn_depth n \<and> sn_deadline n' = sn_deadline n \<and>
     sn_effect n \<le> sn_effect n' \<and> sn_settledDescendantEffect n \<le> sn_settledDescendantEffect n' \<and>
     (sn_aborted n \<longrightarrow> sn_aborted n') \<and> (sn_state n' = Active \<longrightarrow> sn_state n = Active) \<and>
     (is_terminal (sn_state n) \<longrightarrow> sn_state n' = sn_state n \<and> sn_effect n' = sn_effect n)"

lemma evolves_refl [simp]: "evolves n n"
  by (simp add: evolves_def)

lemma evolves_trans: "evolves a b \<Longrightarrow> evolves b c \<Longrightarrow> evolves a c"
  unfolding evolves_def by (intro conjI impI; elim conjE) (metis order_trans)+

definition nodes_evolve :: "(scope_id, scope_node) js_map \<Rightarrow> (scope_id, scope_node) js_map \<Rightarrow> bool" where
  "nodes_evolve nodes nodes' \<longleftrightarrow>
     (\<forall>k n n'. js_get nodes k = Some n \<longrightarrow> js_get nodes' k = Some n' \<longrightarrow> evolves n n')"

lemma nodes_evolve_refl [simp]: "nodes_evolve nodes nodes"
  by (simp add: nodes_evolve_def)

text \<open>Nothing that left comes back in between, so the middle of a composition has the node.\<close>

lemma nodes_evolve_trans:
  assumes "nodes_evolve a b" "nodes_evolve b c"
    and "\<And>k. js_get b k = None \<Longrightarrow> js_get a k \<noteq> None \<Longrightarrow> js_get c k = None"
  shows "nodes_evolve a c"
  unfolding nodes_evolve_def
proof (intro allI impI)
  fix k n n'
  assume n: "js_get a k = Some n" and n': "js_get c k = Some n'"
  then obtain m where "js_get b k = Some m" using assms(3) [of k] by (cases "js_get b k") auto
  with n n' assms(1,2) show "evolves n n'" unfolding nodes_evolve_def by (metis evolves_trans)
qed

section \<open>The walks over the tree\<close>

text \<open>\<open>link b t p c\<close>: \<open>c\<close> is a child of \<open>p\<close> that a walk (for cancellation, if \<open>b\<close>) enters.\<close>

definition link :: "bool \<Rightarrow> scope_tree \<Rightarrow> scope_id \<Rightarrow> scope_id \<Rightarrow> bool" where
  "link b t p c \<longleftrightarrow> (\<exists>m. js_get (st_nodes t) c = Some m \<and> sn_parentId m = Some p) \<and>
     \<not> (b \<and> c \<in> st_cancellationBoundaries t)"

definition depth_at :: "scope_tree \<Rightarrow> scope_id \<Rightarrow> nat" where
  "depth_at t i = (case js_get (st_nodes t) i of None \<Rightarrow> 0 | Some n \<Rightarrow> sn_depth n)"

lemma link_depth: "links_ok (st_nodes t) \<Longrightarrow> link b t p c \<Longrightarrow> depth_at t c = depth_at t p + 1"
  by (auto simp: link_def depth_at_def elim: links_ok_parent)

lemma below_depth: "(link b t)\<^sup>+\<^sup>+ p c \<Longrightarrow> links_ok (st_nodes t) \<Longrightarrow> depth_at t p < depth_at t c"
  by (induction rule: tranclp_induct) (auto dest: link_depth)

lemma below_node: "(link b t)\<^sup>+\<^sup>+ p c \<Longrightarrow> js_get (st_nodes t) c \<noteq> None"
  by (induction rule: tranclp_induct) (auto simp: link_def)

lemma child_link:
  assumes "links_ok (st_nodes t)" "js_get (st_nodes t) p = Some n"
  shows "c \<in> set (sn_children n) \<longleftrightarrow> link False t p c"
  using links_ok_child [OF assms] links_ok_parent [OF assms(1), of c _ p] assms(2)
  by (auto simp: link_def) (metis option.inject)+

text \<open>
  The state of the breadth-first loop: what was taken from the queue, the queue, and what was
  collected. No identifier is met twice, and whatever was met hangs under the start or under
  something collected.
\<close>

definition walk_inv :: "scope_tree \<Rightarrow> scope_id \<Rightarrow> scope_id list \<Rightarrow> scope_id list \<Rightarrow> scope_id list \<Rightarrow> bool" where
  "walk_inv t k seen queue collected \<longleftrightarrow>
     distinct (seen @ queue) \<and> set collected \<subseteq> set seen \<and>
     (\<forall>x \<in> set (seen @ queue). depth_at t k < depth_at t x \<and>
        (\<exists>p. link False t p x \<and> (p = k \<or> p \<in> set collected)))"

lemma link_unique: "link b t p c \<Longrightarrow> link b' t p' c \<Longrightarrow> p = p'"
  by (auto simp: link_def)

lemma walk_inv_skip: "walk_inv t k seen (x # queue) collected \<Longrightarrow> walk_inv t k (seen @ [x]) queue collected"
  by (auto simp: walk_inv_def)

lemma walk_inv_enter:
  assumes "links_ok (st_nodes t)" "js_get (st_nodes t) x = Some n"
    and "walk_inv t k seen (x # queue) collected"
  shows "walk_inv t k (seen @ [x]) (queue @ sn_children n) (collected @ [x])"
proof -
  have kids: "link False t x c" if "c \<in> set (sn_children n)" for c
    using that child_link [OF assms(1,2)] by blast
  have met: "\<forall>y \<in> set (seen @ x # queue). depth_at t k < depth_at t y \<and>
      (\<exists>p. link False t p y \<and> (p = k \<or> p \<in> set collected))"
    and dist: "distinct (seen @ x # queue)" and sub: "set collected \<subseteq> set seen"
    using assms(3) unfolding walk_inv_def by blast+
  have dx: "depth_at t k < depth_at t x" using met by simp
  have xnew: "x \<notin> set collected" using dist sub by auto
  have fresh: "c \<notin> set (seen @ x # queue)" if "c \<in> set (sn_children n)" for c
  proof
    assume "c \<in> set (seen @ x # queue)"
    with met obtain p where "link False t p c" "p = k \<or> p \<in> set collected" by blast
    with link_unique [OF kids [OF that]] dx xnew show False by blast
  qed
  have kid: "depth_at t k < depth_at t c \<and> (\<exists>p. link False t p c \<and> (p = k \<or> p \<in> set (collected @ [x])))"
    if "c \<in> set (sn_children n)" for c
    using link_depth [OF assms(1) kids [OF that]] dx kids [OF that] by auto
  have "distinct (sn_children n)" using links_ok_node [OF assms(1,2)] by (simp add: node_ok_def)
  with dist fresh have "distinct ((seen @ [x]) @ queue @ sn_children n)" by auto
  moreover have "set (collected @ [x]) \<subseteq> set (seen @ [x])" using sub by auto
  moreover have "\<forall>y \<in> set ((seen @ [x]) @ queue @ sn_children n). depth_at t k < depth_at t y \<and>
      (\<exists>p. link False t p y \<and> (p = k \<or> p \<in> set (collected @ [x])))"
  proof
    fix y assume "y \<in> set ((seen @ [x]) @ queue @ sn_children n)"
    then consider "y \<in> set (seen @ x # queue)" | "y \<in> set (sn_children n)" by auto
    then show "depth_at t k < depth_at t y \<and>
        (\<exists>p. link False t p y \<and> (p = k \<or> p \<in> set (collected @ [x])))"
    proof cases
      case 1
      with met show ?thesis by auto
    qed (rule kid)
  qed
  ultimately show ?thesis unfolding walk_inv_def by blast
qed

lemma walk_room:
  assumes "links_ok (st_nodes t)" "walk_inv t k seen queue collected"
  shows "length seen + length queue \<le> length (st_nodes t)"
proof -
  have "set (seen @ queue) \<subseteq> set (js_keys (st_nodes t))"
  proof
    fix x assume "x \<in> set (seen @ queue)"
    with assms(2) obtain p where "link False t p x" unfolding walk_inv_def by blast
    then show "x \<in> set (js_keys (st_nodes t))" unfolding js_keys_dom by (auto simp: link_def)
  qed
  then have "card (set (seen @ queue)) \<le> length (js_keys (st_nodes t))"
    by (meson List.finite_set card_length card_mono order_trans)
  moreover have "card (set (seen @ queue)) = length (seen @ queue)"
    using assms(2) by (intro distinct_card) (simp add: walk_inv_def)
  ultimately show ?thesis by simp
qed

lemma rtranclp_link_Cons:
  assumes "links_ok (st_nodes t)" "js_get (st_nodes t) x = Some n"
  shows "(link b t)\<^sup>*\<^sup>* x d \<longleftrightarrow>
    d = x \<or> (\<exists>c \<in> set (sn_children n). \<not> (b \<and> c \<in> st_cancellationBoundaries t) \<and> (link b t)\<^sup>*\<^sup>* c d)"
proof -
  have "link b t x c \<longleftrightarrow> c \<in> set (sn_children n) \<and> \<not> (b \<and> c \<in> st_cancellationBoundaries t)" for c
    using child_link [OF assms, of c] by (auto simp: link_def)
  then show ?thesis
    by (metis converse_rtranclp_into_rtranclp converse_rtranclpE rtranclp.rtrancl_refl)
qed

lemma descend_spec:
  "links_ok (st_nodes t) \<Longrightarrow> walk_inv t k seen queue collected \<Longrightarrow> length (st_nodes t) \<le> fuel + length seen \<Longrightarrow>
    set (descend fuel b t queue collected) =
      set collected \<union> {d. \<exists>q \<in> set queue. \<not> (b \<and> q \<in> st_cancellationBoundaries t) \<and> (link b t)\<^sup>*\<^sup>* q d}"
proof (induction fuel b t queue collected arbitrary: seen rule: descend.induct)
  case (1 fuel b t collected)
  then show ?case by simp
next
  case (2 b t x queue collected)
  with walk_room [of t k seen "x # queue" collected] show ?case by simp
next
  case (3 fuel b t x queue collected)
  note ok = 3(4) and inv = 3(5) and fuel = 3(6)
  from inv obtain n where n: "js_get (st_nodes t) x = Some n" by (auto simp: walk_inv_def link_def)
  have fuel': "length (st_nodes t) \<le> fuel + length (seen @ [x])" using fuel by simp
  show ?case
  proof (cases "b \<and> x \<in> st_cancellationBoundaries t")
    case True
    with n 3(2) [OF n True ok walk_inv_skip [OF inv] fuel'] show ?thesis by auto
  next
    case False
    with n 3(3) [OF n False ok walk_inv_enter [OF ok n inv] fuel']
    show ?thesis by (auto simp: rtranclp_link_Cons [OF ok n])
  qed
qed

lemma descendants_spec:
  assumes "links_ok (st_nodes t)" "js_get (st_nodes t) k = Some n"
  shows "set (descendantsOf t n b) = {d. (link b t)\<^sup>+\<^sup>+ k d}"
proof -
  have kids: "c \<in> set (sn_children n) \<longleftrightarrow> link False t k c" for c
    by (rule child_link [OF assms])
  have "walk_inv t k [] (sn_children n) []"
    using links_ok_node [OF assms] link_depth [OF assms(1)] by (auto simp: walk_inv_def kids node_ok_def)
  from descend_spec [OF assms(1) this, of "length (st_nodes t)" b]
  have "set (descendantsOf t n b) =
      {d. \<exists>q \<in> set (sn_children n). \<not> (b \<and> q \<in> st_cancellationBoundaries t) \<and> (link b t)\<^sup>*\<^sup>* q d}"
    by (simp add: descendantsOf_def)
  also have "\<dots> = {d. (link b t)\<^sup>+\<^sup>+ k d}"
  proof -
    have "link b t k c \<longleftrightarrow> c \<in> set (sn_children n) \<and> \<not> (b \<and> c \<in> st_cancellationBoundaries t)" for c
      unfolding kids by (auto simp: link_def)
    then show ?thesis by (auto simp: tranclp_unfold_left relcompp_apply)
  qed
  finally show ?thesis .
qed

text \<open>The walk to the root reaches every ancestor: what it lists is closed under parents.\<close>

definition up_closed :: "scope_tree \<Rightarrow> scope_id set \<Rightarrow> bool" where
  "up_closed t A \<longleftrightarrow>
     (\<forall>a \<in> A. \<forall>n p. js_get (st_nodes t) a = Some n \<longrightarrow> sn_parentId n = Some p \<longrightarrow> p \<in> A)"

lemma climb_spec:
  assumes "links_ok (st_nodes t)" "js_get (st_nodes t) i = Some n" "sn_depth n < fuel"
  shows "i \<in> set (climb fuel t (Some i)) \<and> up_closed t (set (climb fuel t (Some i))) \<and>
    (\<forall>a \<in> set (climb fuel t (Some i)). (link False t)\<^sup>*\<^sup>* a i)"
  using assms(2,3)
proof (induction fuel arbitrary: i n)
  case (Suc fuel)
  show ?case
  proof (cases "sn_parentId n")
    case None
    with Suc.prems show ?thesis by (cases fuel) (auto simp: up_closed_def)
  next
    case (Some p)
    with assms(1) Suc.prems(1) obtain m where m: "js_get (st_nodes t) p = Some m" "sn_depth n = sn_depth m + 1"
      by (auto elim: links_ok_parent)
    with Suc.IH [of p m] Suc.prems have IH:
      "p \<in> set (climb fuel t (Some p))" "up_closed t (set (climb fuel t (Some p)))"
      "\<forall>a \<in> set (climb fuel t (Some p)). (link False t)\<^sup>*\<^sup>* a p" by auto
    have "link False t p i" using Suc.prems(1) Some by (simp add: link_def)
    with IH Suc.prems(1) Some show ?thesis
      by (auto simp: up_closed_def intro: rtranclp.rtrancl_into_rtrancl)
  qed
qed simp

lemma ancestors_spec:
  assumes "links_ok (st_nodes t)" "js_get (st_nodes t) k = Some n"
  shows "set (ancestorIdsOf t n) = {a. (link False t)\<^sup>+\<^sup>+ a k}" "up_closed t (set (ancestorIdsOf t n))"
proof -
  have *: "up_closed t (set (ancestorIdsOf t n)) \<and> (\<forall>p. sn_parentId n = Some p \<longrightarrow> p \<in> set (ancestorIdsOf t n)) \<and>
    (\<forall>a \<in> set (ancestorIdsOf t n). (link False t)\<^sup>+\<^sup>+ a k)"
  proof (cases "sn_parentId n")
    case None
    then show ?thesis by (simp add: ancestorIdsOf_def MAX_SCOPE_DEPTH_def up_closed_def numeral_eq_Suc)
  next
    case (Some p)
    with assms obtain m where m: "js_get (st_nodes t) p = Some m" "sn_depth n = sn_depth m + 1"
      by (auto elim: links_ok_parent)
    have "sn_depth n < MAX_SCOPE_DEPTH" using links_ok_node [OF assms] by (simp add: node_ok_def)
    moreover have "link False t p k" using Some assms(2) by (simp add: link_def)
    ultimately show ?thesis
      using climb_spec [OF assms(1) m(1), of MAX_SCOPE_DEPTH] m(2) Some
      by (auto simp: ancestorIdsOf_def intro: rtranclp_into_tranclp1)
  qed
  then show "up_closed t (set (ancestorIdsOf t n))" by blast
  have "a \<in> set (ancestorIdsOf t n)" if "(link False t)\<^sup>+\<^sup>+ a k" for a
    using that
  proof (induction rule: converse_tranclp_induct)
    case (base y)
    with * assms(2) show ?case by (auto simp: link_def)
  next
    case (step y z)
    with * show ?case by (auto simp: up_closed_def link_def)
  qed
  with * show "set (ancestorIdsOf t n) = {a. (link False t)\<^sup>+\<^sup>+ a k}" by blast
qed

end
