(* ===== verification/Scope_Invariants.thy ===== *)
theory Scope_Invariants
  imports Scope_Tree
begin

text \<open>
  The invariants of the scope tree. \<open>tree_inv\<close> is what the closure maintains whatever its
  callers do: the links form a forest with narrowing deadlines, the live count and the
  retention list are exact, the event log is the contiguous tail of the history, tombstones are
  bounded. \<open>calm\<close> collects what the methods that neither add, settle nor evict a scope have in
  common, so that each invariant is proved once for all of them.
\<close>

section \<open>The invariant\<close>

definition live_ids :: "(scope_id, scope_node) js_map \<Rightarrow> scope_id set" where
  "live_ids nodes = {k. \<exists>n. js_get nodes k = Some n \<and> \<not> is_terminal (sn_state n)}"

definition terminal_ids :: "(scope_id, scope_node) js_map \<Rightarrow> scope_id set" where
  "terminal_ids nodes = {k. \<exists>n. js_get nodes k = Some n \<and> is_terminal (sn_state n)}"

definition stop_ok :: "scope_node \<Rightarrow> bool" where
  "stop_ok n \<longleftrightarrow>
     (sn_aborted n \<longleftrightarrow> sn_cancellationRequestedAt n \<noteq> None) \<and>
     (case sn_state n of
        Active \<Rightarrow> \<not> sn_aborted n
      | Cancelling _ at \<Rightarrow> sn_cancellationRequestedAt n = Some at
      | Terminal _ reason _ \<Rightarrow> (reason \<noteq> None) = sn_aborted n)"

lemma stop_ok_effects [simp]:
  "stop_ok (n\<lparr>sn_effect := e\<rparr>) = stop_ok n" "stop_ok (n\<lparr>sn_settledDescendantEffect := e\<rparr>) = stop_ok n"
  "stop_ok (n\<lparr>sn_children := cs\<rparr>) = stop_ok n" "stop_ok (n\<lparr>sn_nextChildOrdinal := k\<rparr>) = stop_ok n"
  by (simp_all add: stop_ok_def split: scope_state.split)

definition log_ok :: "scope_tree \<Rightarrow> bool" where
  "log_ok t \<longleftrightarrow>
     map se_order (st_events t) = [Suc (st_droppedEvents t) ..< Suc (st_order t)] \<and>
     st_droppedEvents t \<le> st_order t \<and> length (st_events t) \<le> MAX_RETAINED_SCOPE_EVENTS"

definition tombs_ok :: "scope_tree \<Rightarrow> bool" where
  "tombs_ok t \<longleftrightarrow>
     distinct (st_tombstoneOrder t) \<and> length (st_tombstoneOrder t) \<le> MAX_EVICTED_TOMBSTONES \<and>
     (\<forall>i. js_get (st_tombstones t) i \<noteq> None \<longleftrightarrow> i \<in> set (st_tombstoneOrder t)) \<and>
     (\<forall>i. js_get (st_tombstones t) i \<noteq> None \<longrightarrow> js_get (st_nodes t) i = None)"

definition live_ok :: "scope_tree \<Rightarrow> bool" where
  "live_ok t \<longleftrightarrow> st_liveCount t = int (card (live_ids (st_nodes t))) \<and> st_liveCount t \<le> MAX_LIVE_SCOPES"

definition stops_ok :: "(scope_id, scope_node) js_map \<Rightarrow> bool" where
  "stops_ok nodes \<longleftrightarrow> (\<forall>k n. js_get nodes k = Some n \<longrightarrow> stop_ok n)"

text \<open>The retention list is a parameter: inside the trimming loop it is not yet stored.\<close>

definition core_inv :: "scope_tree \<Rightarrow> scope_id list \<Rightarrow> bool" where
  "core_inv t retained \<longleftrightarrow>
     links_ok (st_nodes t) \<and> live_ok t \<and> stops_ok (st_nodes t) \<and> log_ok t \<and> tombs_ok t \<and>
     distinct retained \<and> set retained = terminal_ids (st_nodes t)"

definition tree_inv :: "scope_tree \<Rightarrow> bool" where
  "tree_inv t \<longleftrightarrow> core_inv t (st_retained t)"

section \<open>Emitting\<close>

lemma emit_frame [simp]:
  "st_nodes (fst (emit k n at r out e t)) = st_nodes t"
  "st_retained (fst (emit k n at r out e t)) = st_retained t"
  "st_tombstones (fst (emit k n at r out e t)) = st_tombstones t"
  "st_tombstoneOrder (fst (emit k n at r out e t)) = st_tombstoneOrder t"
  "st_liveCount (fst (emit k n at r out e t)) = st_liveCount t"
  "st_cancellationBoundaries (fst (emit k n at r out e t)) = st_cancellationBoundaries t"
  "st_root (fst (emit k n at r out e t)) = st_root t"
  by (simp_all add: emit_def Let_def)

lemma emit_log:
  assumes "log_ok t"
  shows "log_ok (fst (emit k n at r out e t))"
proof -
  have orders: "map se_order (st_events t) = [Suc (st_droppedEvents t) ..< Suc (st_order t)]"
    using assms by (simp add: log_ok_def del: upt_Suc)
  then have len: "length (st_events t) = st_order t - st_droppedEvents t"
    by (metis length_map length_upt diff_Suc_Suc)
  have grow: "[d ..< Suc (st_order t)] @ [Suc (st_order t)] = [d ..< Suc (Suc (st_order t))]"
    if "d \<le> Suc (st_order t)" for d
    using that by (subst (2) upt_Suc_append) simp_all
  show ?thesis
    using assms orders len grow
    by (auto simp: log_ok_def emit_def Let_def SCOPE_EVENT_TRIM_CHUNK_def MAX_RETAINED_SCOPE_EVENTS_def
        drop_map [symmetric] simp del: upt_Suc)
qed

section \<open>Methods that keep the population\<close>

text \<open>
  Same scopes, same links, same settled ones; only states, effects and the log moved forward.
\<close>

definition calm :: "scope_tree \<Rightarrow> scope_tree \<Rightarrow> bool" where
  "calm t t' \<longleftrightarrow>
     same_shape (st_nodes t) (st_nodes t') \<and> nodes_evolve (st_nodes t) (st_nodes t') \<and>
     terminal_ids (st_nodes t') = terminal_ids (st_nodes t) \<and>
     (stops_ok (st_nodes t) \<longrightarrow> stops_ok (st_nodes t')) \<and> (log_ok t \<longrightarrow> log_ok t') \<and>
     st_retained t' = st_retained t \<and> st_tombstones t' = st_tombstones t \<and>
     st_tombstoneOrder t' = st_tombstoneOrder t \<and> st_liveCount t' = st_liveCount t \<and>
     st_cancellationBoundaries t' = st_cancellationBoundaries t \<and> st_root t' = st_root t"

lemma calm_refl [simp]: "calm t t"
  by (simp add: calm_def)

lemma calm_trans:
  assumes "calm a b" "calm b c"
  shows "calm a c"
proof -
  have "same_shape (st_nodes a) (st_nodes c)"
    using assms same_shape_trans by (auto simp: calm_def)
  moreover have "nodes_evolve (st_nodes a) (st_nodes c)"
    by (rule nodes_evolve_trans [of _ "st_nodes b"])
      (use assms in \<open>auto simp: calm_def same_shape_None\<close>)
  ultimately show ?thesis using assms by (simp add: calm_def)
qed

lemma calm_None: "calm t t' \<Longrightarrow> js_get (st_nodes t') k = None \<longleftrightarrow> js_get (st_nodes t) k = None"
  by (simp add: calm_def same_shape_None)

lemma live_terminal: "live_ids nodes = {k. js_get nodes k \<noteq> None} - terminal_ids nodes"
  by (auto simp: live_ids_def terminal_ids_def)

lemma calm_live: "calm t t' \<Longrightarrow> live_ids (st_nodes t') = live_ids (st_nodes t)"
  unfolding live_terminal using calm_None [of t t'] by (simp add: calm_def)

lemma calm_core: "calm t t' \<Longrightarrow> core_inv t R \<Longrightarrow> core_inv t' R"
  using links_ok_same_shape [of "st_nodes t" "st_nodes t'"] calm_live [of t t'] calm_None [of t t']
  by (simp add: core_inv_def live_ok_def tombs_ok_def calm_def)

lemma calm_inv: "calm t t' \<Longrightarrow> tree_inv t \<Longrightarrow> tree_inv t'"
  using calm_core [of t t'] by (simp add: tree_inv_def calm_def)

lemma calm_link: "calm t t' \<Longrightarrow> link b t' = link b t"
proof (intro ext)
  fix p c
  assume "calm t t'"
  then have sh: "same_shape (st_nodes t) (st_nodes t')"
    and bd: "st_cancellationBoundaries t' = st_cancellationBoundaries t" by (auto simp: calm_def)
  have "map_option shape (js_get (st_nodes t') c) = map_option shape (js_get (st_nodes t) c)"
    using sh by (simp add: same_shape_def)
  then show "link b t' p c = link b t p c"
    using bd by (cases "js_get (st_nodes t) c"; cases "js_get (st_nodes t') c") (auto simp: link_def shape_def)
qed

text \<open>One node overwritten by a later version of itself, and an event.\<close>

lemma calm_put:
  assumes "js_get (st_nodes t) i = Some n" "shape n' = shape n" "evolves n n'"
    and "is_terminal (sn_state n') = is_terminal (sn_state n)" "stop_ok n \<Longrightarrow> stop_ok n'"
  shows "calm t (put_node i n' t)"
proof -
  have "same_shape (st_nodes t) (js_set i n' (st_nodes t))"
    using assms(1,2) by (rule same_shape_set)
  moreover have "nodes_evolve (st_nodes t) (js_set i n' (st_nodes t))"
    using assms(1,3) by (auto simp: nodes_evolve_def)
  moreover have "terminal_ids (js_set i n' (st_nodes t)) = terminal_ids (st_nodes t)"
    using assms(1,4) by (auto simp: terminal_ids_def)
  moreover have "stops_ok (st_nodes t) \<longrightarrow> stops_ok (js_set i n' (st_nodes t))"
    using assms(1,5) by (auto simp: stops_ok_def)
  ultimately show ?thesis by (simp add: calm_def put_node_def log_ok_def)
qed

lemma calm_emit: "calm t (fst (emit k n at r out e t))"
  using emit_log by (auto simp: calm_def)

lemma beginCancelling_active:
  assumes "js_get (st_nodes t) i = Some n" "sn_state n = Active"
  shows "\<exists>event. beginCancelling r at i (t, c) =
    (fst (emit Scope_Cancellation_Requested
            (n\<lparr>sn_state := Cancelling r at, sn_cancellationRequestedAt := Some at, sn_aborted := True\<rparr>)
            at (Some r) None None
            (put_node i (n\<lparr>sn_state := Cancelling r at, sn_cancellationRequestedAt := Some at,
                            sn_aborted := True\<rparr>) t)), c @ [event])"
  using assms by (simp add: beginCancelling_def Let_def case_prod_unfold)

lemma beginCancelling_idle:
  "js_get (st_nodes t) i = None \<or> js_get (st_nodes t) i = Some n \<and> sn_state n \<noteq> Active \<Longrightarrow>
   beginCancelling r at i (t, c) = (t, c)"
  by (auto simp: beginCancelling_def)

lemma beginCancelling_calm: "calm t (fst (beginCancelling r at i (t, c)))"
proof (cases "\<exists>n. js_get (st_nodes t) i = Some n \<and> sn_state n = Active")
  case True
  then obtain n where n: "js_get (st_nodes t) i = Some n" "sn_state n = Active" by blast
  let ?n = "n\<lparr>sn_state := Cancelling r at, sn_cancellationRequestedAt := Some at, sn_aborted := True\<rparr>"
  have "calm t (put_node i ?n t)"
    using n by (intro calm_put [of t i n]) (simp_all add: shape_def evolves_def stop_ok_def)
  with beginCancelling_active [OF n, of r at c] show ?thesis
    by (auto intro: calm_trans [OF _ calm_emit])
next
  case False
  then show ?thesis using beginCancelling_idle [of t i _ r at c] by (cases "js_get (st_nodes t) i") auto
qed

text \<open>What stopping does to the states: exactly the active one becomes cancelling.\<close>

definition stop_node :: "cancellation_reason \<Rightarrow> instant \<Rightarrow> scope_node \<Rightarrow> scope_node" where
  "stop_node r at n =
     (if sn_state n = Active
      then n\<lparr>sn_state := Cancelling r at, sn_cancellationRequestedAt := Some at, sn_aborted := True\<rparr>
      else n)"

lemma beginCancelling_get:
  "js_get (st_nodes (fst (beginCancelling r at i (t, c)))) k =
     (if k = i then map_option (stop_node r at) (js_get (st_nodes t) k) else js_get (st_nodes t) k)"
  by (cases "js_get (st_nodes t) i")
    (auto simp: beginCancelling_def stop_node_def put_node_def Let_def case_prod_unfold)

lemma stop_node_idem [simp]: "stop_node r at (stop_node r' at' n) = stop_node r' at' n"
  by (simp add: stop_node_def)

lemma fold_beginCancelling_get:
  "js_get (st_nodes (fst (fold (beginCancelling r at) is (t, c)))) k =
     (if k \<in> set is then map_option (stop_node r at) (js_get (st_nodes t) k) else js_get (st_nodes t) k)"
proof (induction "is" arbitrary: t c)
  case (Cons i "is")
  obtain t' c' where step: "beginCancelling r at i (t, c) = (t', c')" by fastforce
  show ?case
    using Cons.IH [of t' c'] beginCancelling_get [of r at i t c k]
    by (cases "js_get (st_nodes t) k") (auto simp: step)
qed simp

text \<open>Loops that thread a tree and the events collected so far.\<close>

lemma fold_rel:
  assumes refl: "\<And>t. R t t" and trans: "\<And>a b c. R a b \<Longrightarrow> R b c \<Longrightarrow> R a c"
    and step: "\<And>i t c. R t (fst (f i (t, c)))"
  shows "R t (fst (fold f is (t, c)))"
proof (induction "is" arbitrary: t c)
  case (Cons i "is")
  obtain t' c' where eq: "f i (t, c) = (t', c')" by fastforce
  from step [of t i c] have "R t t'" by (simp add: eq)
  with Cons.IH [of t' c'] show ?case by (auto simp: eq intro: trans)
qed (simp add: refl)

lemma fold_keeps:
  assumes "\<And>i acc. P (fst acc) \<Longrightarrow> P (fst (f i acc))" "P (fst acc)"
  shows "P (fst (fold f is acc))"
  using assms(2) by (induction "is" arbitrary: acc) (simp_all add: assms(1) del: split_paired_All)

lemma fold_calm: "(\<And>i t c. calm t (fst (f i (t, c)))) \<Longrightarrow> calm t (fst (fold f is (t, c)))"
  by (rule fold_rel [of calm]) (auto intro: calm_trans)

section \<open>Cancelling, recording and folding are calm\<close>

lemma cancel_subtree_calm: "calm t (fst (cancel_subtree r at i (t, c)))"
proof -
  obtain t1 c1 where step: "beginCancelling r at i (t, c) = (t1, c1)" by fastforce
  have "calm t t1" using beginCancelling_calm [of t r at i c] by (simp add: step)
  moreover have "calm t1 (fst (fold (beginCancelling r' at) is (t1, c1)))" for r' "is"
    by (rule fold_calm) (rule beginCancelling_calm)
  ultimately show ?thesis
    by (auto simp: cancel_subtree_def step intro: calm_trans split: option.split)
qed

lemma cancel_calm: "calm t (fst (cancel t at i r))"
  using cancel_subtree_calm [of t r at i "[]"]
  by (auto simp: cancel_def requireNode_def case_prod_unfold Let_def split: option.splits)

lemma expireDeadlines_calm: "calm t (fst (expireDeadlines t escalated at tick))"
  unfolding expireDeadlines_def
proof (rule fold_calm)
  fix i t c
  show "calm t (fst (expire_one escalated at tick i (t, c)))"
    using cancel_subtree_calm by (auto simp: expire_one_def split: option.split)
qed

lemma applyEffect_calm:
  assumes "js_get (st_nodes t) (sn_scopeId n) = Some n" "\<not> is_terminal (sn_state n)"
  shows "calm t (applyEffect n e now t)"
proof (cases "worstEffect (sn_effect n) e = sn_effect n")
  case False
  have "calm t (put_node (sn_scopeId n) (n\<lparr>sn_effect := worstEffect (sn_effect n) e\<rparr>) t)"
    using assms by (intro calm_put [OF assms(1)]) (auto simp: shape_def evolves_def)
  with False show ?thesis by (auto simp: applyEffect_def Let_def intro: calm_trans [OF _ calm_emit])
qed (simp add: applyEffect_def)

text \<open>Folding an effect into a list of ancestors, as a function on the nodes.\<close>

definition raise_node :: "effect_certainty \<Rightarrow> scope_node \<Rightarrow> scope_node" where
  "raise_node e n = n\<lparr>sn_settledDescendantEffect := worstEffect (sn_settledDescendantEffect n) e\<rparr>"

lemma raise_node_idem [simp]: "raise_node e (raise_node e n) = raise_node e n"
  by (simp add: raise_node_def worst.join_assoc)

lemma raise_node_simps [simp]:
  "sn_effect (raise_node e n) = sn_effect n" "sn_state (raise_node e n) = sn_state n"
  "sn_parentId (raise_node e n) = sn_parentId n" "sn_scopeId (raise_node e n) = sn_scopeId n"
  "sn_settledDescendantEffect (raise_node e n) = worstEffect (sn_settledDescendantEffect n) e"
  "sn_children (raise_node e n) = sn_children n" "shape (raise_node e n) = shape n"
  "sn_aborted (raise_node e n) = sn_aborted n"
  by (simp_all add: raise_node_def shape_def)

lemma fold_ids_calm: "calm t (fst (foldIntoAncestorIds ids e t))"
proof (induction ids e t rule: foldIntoAncestorIds.induct)
  case (2 i ids e t)
  show ?case
  proof (cases "js_get (st_nodes t) i")
    case None
    with 2(1) show ?thesis by simp
  next
    case (Some n)
    have "calm t (put_node i (raise_node e n) t)"
      using Some by (intro calm_put [OF Some]) (simp_all add: evolves_def raise_node_def shape_def)
    with 2(2) [OF Some refl] Some show ?thesis
      by (auto simp: raise_node_def Let_def case_prod_unfold intro: calm_trans)
  qed
qed simp

lemma fold_ids_get:
  "js_get (st_nodes (fst (foldIntoAncestorIds ids e t))) k =
     (if k \<in> set ids then map_option (raise_node e) (js_get (st_nodes t) k) else js_get (st_nodes t) k)"
proof (induction ids e t rule: foldIntoAncestorIds.induct)
  case (2 i ids e t)
  show ?case
  proof (cases "js_get (st_nodes t) i")
    case None
    with 2(1) show ?thesis by simp
  next
    case (Some n)
    with 2(2) [OF Some refl] show ?thesis
      by (cases "js_get (st_nodes t) k")
        (auto simp: put_node_def raise_node_def [symmetric] Let_def case_prod_unfold)
  qed
qed simp

lemma fold_ids_reached:
  "set (snd (foldIntoAncestorIds ids e t)) = {a \<in> set ids. js_get (st_nodes t) a \<noteq> None}"
proof (induction ids e t rule: foldIntoAncestorIds.induct)
  case (2 i ids e t)
  show ?case
  proof (cases "js_get (st_nodes t) i")
    case None
    with 2(1) show ?thesis by auto
  next
    case (Some n)
    with 2(2) [OF Some refl] show ?thesis
      by (auto simp: put_node_def Let_def case_prod_unfold split: if_splits)
  qed
qed simp

lemma recordEffect_calm: "tree_inv t \<Longrightarrow> calm t (fst (recordEffect t now i e))"
  using links_ok_id [of "st_nodes t" i]
  by (auto simp: recordEffect_def requireNode_def tree_inv_def core_inv_def intro: applyEffect_calm
      split: option.split)

lemma recordLateEffect_calm: "tree_inv t \<Longrightarrow> calm t (fst (recordLateEffect t now i e))"
  using links_ok_id [of "st_nodes t" i] fold_ids_calm [of t]
  by (auto simp: recordLateEffect_def tree_inv_def core_inv_def foldIntoAncestors_def case_prod_unfold Let_def
      intro: applyEffect_calm split: option.split)

section \<open>Tombstones\<close>

lemma trim_tombstones_spec:
  assumes "distinct order" "\<forall>i. js_get stones i \<noteq> None \<longleftrightarrow> i \<in> set order"
    and "trim_tombstones order stones = (order', stones')"
  shows "distinct order' \<and> length order' \<le> MAX_EVICTED_TOMBSTONES \<and> set order' \<subseteq> set order \<and>
    (\<forall>i. js_get stones' i \<noteq> None \<longleftrightarrow> i \<in> set order') \<and>
    (\<forall>i as. js_get stones' i = Some as \<longrightarrow> js_get stones i = Some as)"
  using assms
proof (induction order stones rule: trim_tombstones.induct)
  case (2 oldest order stones)
  show ?case
  proof (cases "length (oldest # order) > MAX_EVICTED_TOMBSTONES")
    case True
    have d: "distinct order" "oldest \<notin> set order" using 2(2) by auto
    have dom: "\<forall>i. js_get (js_delete oldest stones) i \<noteq> None \<longleftrightarrow> i \<in> set order"
      unfolding js_get_delete using 2(3) d(2) by simp
    have step: "trim_tombstones order (js_delete oldest stones) = (order', stones')" using 2(4) True by simp
    note IH = 2(1) [OF True d(1) dom step]
    have "js_get stones i = Some as" if "js_get stones' i = Some as" for i as
    proof -
      from IH that have "js_get (js_delete oldest stones) i = Some as" by blast
      then show ?thesis unfolding js_get_delete by (simp split: if_splits)
    qed
    with IH show ?thesis by (simp only: list.set) blast
  next
    case False
    with 2(2-4) show ?thesis by auto
  qed
qed auto

lemma forgetTombstone_frame [simp]:
  "st_nodes (forgetTombstone i t) = st_nodes t" "st_events (forgetTombstone i t) = st_events t"
  "st_retained (forgetTombstone i t) = st_retained t" "st_order (forgetTombstone i t) = st_order t"
  "st_liveCount (forgetTombstone i t) = st_liveCount t"
  "st_droppedEvents (forgetTombstone i t) = st_droppedEvents t"
  "st_cancellationBoundaries (forgetTombstone i t) = st_cancellationBoundaries t"
  "st_root (forgetTombstone i t) = st_root t"
  by (simp_all add: forgetTombstone_def)

lemma forgetTombstone_get:
  "js_get (st_tombstones (forgetTombstone i t)) j = (if j = i then None else js_get (st_tombstones t) j)"
  by (auto simp: forgetTombstone_def)

lemma forgetTombstone_order:
  "tombs_ok t \<Longrightarrow> distinct (st_tombstoneOrder (forgetTombstone i t)) \<and>
     set (st_tombstoneOrder (forgetTombstone i t)) = set (st_tombstoneOrder t) - {i} \<and>
     length (st_tombstoneOrder (forgetTombstone i t)) \<le> MAX_EVICTED_TOMBSTONES"
  by (auto simp: tombs_ok_def forgetTombstone_def set_remove1_eq length_remove1)

lemma forgetTombstone_tombs: "tombs_ok t \<Longrightarrow> tombs_ok (forgetTombstone i t)"
  using forgetTombstone_order [of t i] unfolding tombs_ok_def [of "forgetTombstone i t"]
  by (simp add: forgetTombstone_get) (simp add: tombs_ok_def)

lemma rememberTombstone_frame [simp]:
  "st_nodes (rememberTombstone i as t) = st_nodes t" "st_events (rememberTombstone i as t) = st_events t"
  "st_retained (rememberTombstone i as t) = st_retained t" "st_order (rememberTombstone i as t) = st_order t"
  "st_liveCount (rememberTombstone i as t) = st_liveCount t"
  "st_droppedEvents (rememberTombstone i as t) = st_droppedEvents t"
  "st_cancellationBoundaries (rememberTombstone i as t) = st_cancellationBoundaries t"
  "st_root (rememberTombstone i as t) = st_root t"
  by (simp_all add: rememberTombstone_def Let_def case_prod_unfold)

lemma rememberTombstone_spec:
  assumes "tombs_ok t" "t' = rememberTombstone i as (t\<lparr>st_nodes := nodes, st_cancellationBoundaries := B\<rparr>)"
    and "\<And>k. js_get (st_nodes t) k = None \<Longrightarrow> js_get nodes k = None" "js_get nodes i = None"
  shows "tombs_ok t' \<and>
    (\<forall>j bs. js_get (st_tombstones t') j = Some bs \<longrightarrow>
       j = i \<and> bs = as \<or> j \<noteq> i \<and> js_get (st_tombstones t) j = Some bs)"
proof -
  let ?t0 = "t\<lparr>st_nodes := nodes, st_cancellationBoundaries := B\<rparr>"
  let ?f = "forgetTombstone i ?t0"
  have ok: "tombs_ok ?t0" using assms(1,3) by (auto simp: tombs_ok_def)
  obtain order stones where trim:
    "trim_tombstones (st_tombstoneOrder ?f @ [i]) (js_set i as (st_tombstones ?f)) = (order, stones)"
    by fastforce
  have "distinct (st_tombstoneOrder ?f @ [i])" using forgetTombstone_order [OF ok, of i] by simp
  moreover have "\<forall>j. js_get (js_set i as (st_tombstones ?f)) j \<noteq> None \<longleftrightarrow> j \<in> set (st_tombstoneOrder ?f @ [i])"
    using forgetTombstone_order [OF ok, of i] ok by (auto simp: forgetTombstone_get tombs_ok_def)
  moreover note trim
  ultimately have spec: "distinct order \<and> length order \<le> MAX_EVICTED_TOMBSTONES \<and>
      set order \<subseteq> set (st_tombstoneOrder ?f @ [i]) \<and>
      (\<forall>j. js_get stones j \<noteq> None \<longleftrightarrow> j \<in> set order) \<and>
      (\<forall>j bs. js_get stones j = Some bs \<longrightarrow> js_get (js_set i as (st_tombstones ?f)) j = Some bs)"
    by (rule trim_tombstones_spec)
  have t': "st_tombstones t' = stones" "st_tombstoneOrder t' = order" "st_nodes t' = nodes"
    by (simp_all add: assms(2) rememberTombstone_def Let_def trim)
  have "js_get stones j = Some bs \<Longrightarrow> j = i \<and> bs = as \<or> j \<noteq> i \<and> js_get (st_tombstones t) j = Some bs" for j bs
    using spec by (auto simp: forgetTombstone_get split: if_splits)
  moreover from this have "js_get stones j \<noteq> None \<Longrightarrow> js_get nodes j = None" for j
    using assms(1,3,4) unfolding tombs_ok_def by (metis not_None_eq)
  ultimately show ?thesis using spec unfolding tombs_ok_def t' by blast
qed

section \<open>Eviction and trimming\<close>

lemma evict_True:
  assumes "links_ok (st_nodes t)" "js_get (st_nodes t) c = Some n" "evict n t = (t', True)"
  obtains nodes where "sn_children n = []"
    "t' = rememberTombstone c (ancestorIdsOf t n)
            (t\<lparr>st_nodes := nodes, st_cancellationBoundaries := st_cancellationBoundaries t - {c}\<rparr>)"
    "js_keys nodes = filter (\<lambda>k. k \<noteq> c) (js_keys (st_nodes t))"
    "\<And>k. js_get nodes k =
       (if k = c then None
        else if sn_parentId n = Some k
        then map_option (\<lambda>p. p\<lparr>sn_children := remove1 c (sn_children p)\<rparr>) (js_get (st_nodes t) k)
        else js_get (st_nodes t) k)"
proof
  let ?nodes = "js_delete c (st_nodes (unlink n t))"
  have id: "sn_scopeId n = c" using assms(1,2) by (rule links_ok_id)
  have ev: "evictable t n" using assms(3) by (auto simp: evict_def split: if_splits)
  show "sn_children n = []"
  proof (rule ccontr)
    assume "sn_children n \<noteq> []"
    then obtain x where x: "x \<in> set (sn_children n)" by (cases "sn_children n") auto
    then obtain m where "js_get (st_nodes t) x = Some m" by (rule links_ok_child [OF assms(1,2)])
    with x ev show False by (auto simp: evictable_def list_ex_iff)
  qed
  show "t' = rememberTombstone c (ancestorIdsOf t n)
      (t\<lparr>st_nodes := ?nodes, st_cancellationBoundaries := st_cancellationBoundaries t - {c}\<rparr>)"
    using assms(3) ev id by (auto simp: evict_def Let_def unlink_def split: option.split)
  show "js_keys ?nodes = filter (\<lambda>k. k \<noteq> c) (js_keys (st_nodes t))"
    by (simp add: js_keys_delete unlink_def split: option.split)
  show "js_get ?nodes k =
      (if k = c then None
       else if sn_parentId n = Some k
       then map_option (\<lambda>p. p\<lparr>sn_children := remove1 c (sn_children p)\<rparr>) (js_get (st_nodes t) k)
       else js_get (st_nodes t) k)" for k
    using id by (auto simp: unlink_def split: option.split)
qed

lemma evict_False: "evict n t = (t', False) \<Longrightarrow> t' = t"
  by (auto simp: evict_def Let_def split: if_splits)

lemma links_ok_evict:
  assumes ok: "links_ok nodes" and c: "js_get nodes c = Some n" "sn_children n = []"
    and keys: "js_keys nodes' = filter (\<lambda>k. k \<noteq> c) (js_keys nodes)"
    and get: "\<And>k. js_get nodes' k =
       (if k = c then None
        else if sn_parentId n = Some k
        then map_option (\<lambda>p. p\<lparr>sn_children := remove1 c (sn_children p)\<rparr>) (js_get nodes k)
        else js_get nodes k)"
  shows "links_ok nodes'"
  unfolding links_ok_def
proof (intro conjI allI impI)
  show "js_wf nodes'" unfolding keys using links_ok_wf [OF ok] by simp
next
  fix k m'
  assume k: "js_get nodes' k = Some m'"
  have kept: "\<exists>m'. js_get nodes' j = Some m' \<and> sn_parentId m' = sn_parentId m \<and> sn_depth m' = sn_depth m \<and>
      sn_deadline m' = sn_deadline m \<and> set (sn_children m) - {c} \<subseteq> set (sn_children m')"
    if "js_get nodes j = Some m" "j \<noteq> c" for j m
    using that get [of j] by auto (metis in_set_remove1)
  from k get [of k] obtain m where m: "js_get nodes k = Some m" "k \<noteq> c"
    and m': "m' = (if sn_parentId n = Some k then m\<lparr>sn_children := remove1 c (sn_children m)\<rparr> else m)"
    by (auto split: if_splits)
  have mok: "node_ok nodes k m" by (rule links_ok_node [OF ok m(1)])
  have kids: "x \<in> set (sn_children m) \<and> x \<noteq> c" if "x \<in> set (sn_children m')" for x
  proof (cases "sn_parentId n = Some k")
    case True
    with that m' mok show ?thesis by (simp add: node_ok_def)
  next
    case False
    with that m' have "x \<in> set (sn_children m)" by simp
    moreover from this have "x \<noteq> c" using mok c(1) False by (auto simp: node_ok_def)
    ultimately show ?thesis by blast
  qed
  show "node_ok nodes' k m'"
    unfolding node_ok_def
  proof (intro conjI ballI)
    fix x assume "x \<in> set (sn_children m')"
    with kids have "x \<in> set (sn_children m)" "x \<noteq> c" by auto
    with mok obtain y where "js_get nodes x = Some y" "sn_parentId y = Some k" by (auto simp: node_ok_def)
    with kept [of x y] \<open>x \<noteq> c\<close> show "\<exists>y. js_get nodes' x = Some y \<and> sn_parentId y = Some k" by auto
  next
    show "case sn_parentId m' of None \<Rightarrow> sn_depth m' = 0
        | Some p \<Rightarrow> \<exists>y. js_get nodes' p = Some y \<and> k \<in> set (sn_children y) \<and>
                      sn_depth m' = sn_depth y + 1 \<and> tighter (sn_deadline m') (sn_deadline y)"
    proof (cases "sn_parentId m")
      case None
      with mok m' show ?thesis by (simp add: node_ok_def)
    next
      case (Some p)
      with ok m(1) obtain y where y: "js_get nodes p = Some y" "k \<in> set (sn_children y)"
        "sn_depth m = sn_depth y + 1" "tighter (sn_deadline m) (sn_deadline y)"
        by (auto elim: links_ok_parent)
      have "p \<noteq> c" using y c by auto
      with kept [OF y(1)] y m(2) Some m' show ?thesis by auto
    qed
  qed (use mok m' in \<open>auto simp: node_ok_def\<close>)
qed

lemma evict_core:
  assumes inv: "core_inv t (xs @ c # ys)" and c: "js_get (st_nodes t) c = Some n"
    and ev: "evict n t = (t', True)"
  shows "core_inv t' (xs @ ys)"
proof -
  have ok: "links_ok (st_nodes t)" and R: "distinct (xs @ c # ys)" "set (xs @ c # ys) = terminal_ids (st_nodes t)"
    using inv by (auto simp: core_inv_def)
  from ok c ev obtain nodes where kids: "sn_children n = []"
    and t': "t' = rememberTombstone c (ancestorIdsOf t n)
            (t\<lparr>st_nodes := nodes, st_cancellationBoundaries := st_cancellationBoundaries t - {c}\<rparr>)"
    and keys: "js_keys nodes = filter (\<lambda>k. k \<noteq> c) (js_keys (st_nodes t))"
    and get: "\<And>k. js_get nodes k =
       (if k = c then None
        else if sn_parentId n = Some k
        then map_option (\<lambda>p. p\<lparr>sn_children := remove1 c (sn_children p)\<rparr>) (js_get (st_nodes t) k)
        else js_get (st_nodes t) k)"
    by (rule evict_True) blast
  have "c \<in> terminal_ids (st_nodes t)" using R(2) by auto
  then have settled: "is_terminal (sn_state n)" using c by (auto simp: terminal_ids_def)
  have "terminal_ids nodes = terminal_ids (st_nodes t) - {c}"
    by (auto simp: terminal_ids_def get split: if_splits)
  moreover have "live_ids nodes = live_ids (st_nodes t)"
    using c settled by (auto simp: live_ids_def get split: if_splits)
  moreover have "stops_ok nodes"
    using inv by (auto simp: core_inv_def stops_ok_def get split: if_splits)
  moreover have "links_ok nodes" by (rule links_ok_evict [OF ok c kids keys get])
  moreover have "tombs_ok t'"
  proof -
    have "tombs_ok t" using inv by (simp add: core_inv_def)
    from rememberTombstone_spec [OF this t'] get show ?thesis by auto
  qed
  ultimately show ?thesis
    using inv R by (auto simp: core_inv_def live_ok_def log_ok_def t')
qed

lemma trim_loop_inv: "core_inv t (skipped @ rest) \<Longrightarrow> tree_inv (trim_loop skipped rest t)"
proof (induction skipped rest t rule: trim_loop.induct)
  case (1 skipped t)
  then show ?case by (simp add: tree_inv_def core_inv_def live_ok_def log_ok_def tombs_ok_def)
next
  case (2 skipped c rest t)
  show ?case
  proof (cases "length (c # rest) > MAX_RETAINED_TERMINAL_SCOPES")
    case False
    with 2(4) show ?thesis by (simp add: tree_inv_def core_inv_def live_ok_def log_ok_def tombs_ok_def)
  next
    case True
    have "c \<in> terminal_ids (st_nodes t)" using 2(4) by (auto simp: core_inv_def)
    then obtain n where n: "js_get (st_nodes t) c = Some n" by (auto simp: terminal_ids_def)
    obtain t' ok where ev: "evict n t = (t', ok)" by fastforce
    show ?thesis
    proof (cases ok)
      case True
      with ev evict_core [OF 2(4) n] have "core_inv t' (skipped @ rest)" by simp
      with 2(2) [OF _ n ev [symmetric]] \<open>ok\<close> \<open>length (c # rest) > _\<close> n ev show ?thesis by simp
    next
      case False
      with ev have "t' = t" by (auto intro: evict_False)
      with 2(3) [OF _ n ev [symmetric]] 2(4) False \<open>length (c # rest) > _\<close> n ev show ?thesis by simp
    qed
  qed
qed

text \<open>
  The loop as a chain of evictions: a relation that composes, ignores the retention list and
  holds for each eviction of a settled scope, holds for the whole trim.
\<close>

lemma trim_loop_rel:
  assumes retain: "\<And>t r. I t \<Longrightarrow> links_ok (st_nodes t) \<Longrightarrow> I (t\<lparr>st_retained := r\<rparr>) \<and> R t (t\<lparr>st_retained := r\<rparr>)"
    and trans: "\<And>a b c. R a b \<Longrightarrow> R b c \<Longrightarrow> R a c"
    and evict: "\<And>t c n t'. I t \<Longrightarrow> links_ok (st_nodes t) \<Longrightarrow> tombs_ok t \<Longrightarrow> js_get (st_nodes t) c = Some n \<Longrightarrow>
       is_terminal (sn_state n) \<Longrightarrow> evict n t = (t', True) \<Longrightarrow> I t' \<and> R t t'"
  shows "core_inv t (skipped @ rest) \<Longrightarrow> I t \<Longrightarrow>
    I (trim_loop skipped rest t) \<and> R t (trim_loop skipped rest t)"
proof (induction skipped rest t rule: trim_loop.induct)
  case (1 skipped t)
  with retain [of t skipped] show ?case by (simp add: core_inv_def)
next
  case (2 skipped c rest t)
  show ?case
  proof (cases "length (c # rest) > MAX_RETAINED_TERMINAL_SCOPES")
    case False
    with retain [of t "skipped @ c # rest"] 2(4,5) show ?thesis by (simp add: core_inv_def)
  next
    case long: True
    have "c \<in> terminal_ids (st_nodes t)" using 2(4) by (auto simp: core_inv_def)
    then obtain n where n: "js_get (st_nodes t) c = Some n" "is_terminal (sn_state n)"
      by (auto simp: terminal_ids_def)
    obtain t' ok where ev: "evict n t = (t', ok)" by fastforce
    show ?thesis
    proof (cases ok)
      case True
      have core: "core_inv t' (skipped @ rest)" using evict_core [OF 2(4) n(1)] ev True by simp
      have "I t' \<and> R t t'" using evict [OF 2(5) _ _ n(1,2)] 2(4) ev True by (simp add: core_inv_def)
      with 2(2) [OF long n(1) ev [symmetric] _ core] True long n ev show ?thesis by (auto intro: trans)
    next
      case False
      with ev have "t' = t" by (auto intro: evict_False)
      with 2(3) [OF long n(1) ev [symmetric]] 2(4,5) False long n ev show ?thesis by simp
    qed
  qed
qed

section \<open>Settling\<close>

text \<open>Everything \<open>settle\<close> does before it trims, and the fact that it is calm but for the one scope.\<close>

definition settled_node :: "scope_node \<Rightarrow> terminal_outcome \<Rightarrow> instant \<Rightarrow> scope_node" where
  "settled_node n out at = n\<lparr>sn_state := Terminal out (reason_of (sn_state n)) at\<rparr>"

definition marked :: "scope_node \<Rightarrow> terminal_outcome \<Rightarrow> instant \<Rightarrow> scope_tree \<Rightarrow> scope_tree" where
  "marked n out at t =
     (put_node (sn_scopeId n) (settled_node n out at) t)\<lparr>st_liveCount := st_liveCount t - 1\<rparr>"

lemma settled_node_simps [simp]:
  "sn_scopeId (settled_node n out at) = sn_scopeId n" "sn_effect (settled_node n out at) = sn_effect n"
  "sn_parentId (settled_node n out at) = sn_parentId n" "sn_children (settled_node n out at) = sn_children n"
  "sn_settledDescendantEffect (settled_node n out at) = sn_settledDescendantEffect n"
  "is_terminal (sn_state (settled_node n out at))" "shape (settled_node n out at) = shape n"
  "sn_aborted (settled_node n out at) = sn_aborted n"
  "totalEffectOf (settled_node n out at) = totalEffectOf n"
  by (simp_all add: settled_node_def shape_def totalEffectOf_def)

lemma settle_shape:
  obtains t1 where "fst (settle n out at t) = trim_loop [] (st_retained t @ [sn_scopeId n]) t1"
    "calm (fst (foldIntoAncestors (settled_node n out at) (totalEffectOf n) (marked n out at t)))
       (t1\<lparr>st_retained := st_retained t\<rparr>)"
    "st_nodes t1 = st_nodes (fst (foldIntoAncestors (settled_node n out at) (totalEffectOf n) (marked n out at t)))"
proof -
  let ?t2 = "fst (foldIntoAncestors (settled_node n out at) (totalEffectOf n) (marked n out at t))"
  let ?t3 = "fst (emit Scope_Terminal (settled_node n out at) at (reason_of (sn_state n)) (Some out)
                (Some (sn_effect n)) ?t2)"
  have R: "st_retained ?t2 = st_retained t"
    using fold_ids_calm [of "marked n out at t"]
    by (simp add: foldIntoAncestors_def calm_def marked_def put_node_def)
  have calm3: "calm ?t2 ?t3" by (rule calm_emit)
  have "calm ?t2 (?t3\<lparr>st_retained := st_retained t\<rparr>)"
    using calm3 R by (simp add: calm_def log_ok_def)
  moreover have "fst (settle n out at t) =
      trim_loop [] (st_retained t @ [sn_scopeId n]) (?t3\<lparr>st_retained := st_retained t @ [sn_scopeId n]\<rparr>)"
    using R unfolding settle_def Let_def case_prod_unfold trimRetained_def
    by (simp add: settled_node_def marked_def totalEffectOf_def)
  ultimately show thesis
    by (intro that [of "?t3\<lparr>st_retained := st_retained t @ [sn_scopeId n]\<rparr>"]) simp_all
qed

lemma finite_live [simp]: "finite (live_ids nodes)"
  by (rule finite_subset [OF _ finite_dom_map_of [of nodes]]) (auto simp: live_ids_def)

lemma marked_core:
  assumes inv: "tree_inv t" and n: "js_get (st_nodes t) (sn_scopeId n) = Some n"
    and live: "\<not> is_terminal (sn_state n)"
  shows "core_inv (marked n out at t) (st_retained t @ [sn_scopeId n])"
proof -
  let ?i = "sn_scopeId n" and ?nodes = "js_set (sn_scopeId n) (settled_node n out at) (st_nodes t)"
  have core: "core_inv t (st_retained t)" using inv by (simp add: tree_inv_def)
  have "same_shape (st_nodes t) ?nodes" using n by (intro same_shape_set) auto
  then have "links_ok ?nodes" using core links_ok_same_shape by (auto simp: core_inv_def)
  moreover have "terminal_ids ?nodes = insert ?i (terminal_ids (st_nodes t))"
    by (auto simp: terminal_ids_def)
  moreover have "?i \<notin> terminal_ids (st_nodes t)" using n live by (auto simp: terminal_ids_def)
  moreover have "live_ids ?nodes = live_ids (st_nodes t) - {?i}"
    by (auto simp: live_ids_def)
  moreover have "?i \<in> live_ids (st_nodes t)" using n live by (auto simp: live_ids_def)
  moreover from this have "int (card (live_ids (st_nodes t) - {?i})) = int (card (live_ids (st_nodes t))) - 1"
    using card_Suc_Diff1 [OF finite_live, of ?i "st_nodes t"] by linarith
  moreover have "stops_ok ?nodes"
  proof -
    have "stop_ok n" using core n by (auto simp: core_inv_def stops_ok_def)
    then have "stop_ok (settled_node n out at)"
      using live by (cases "sn_state n") (auto simp: stop_ok_def settled_node_def)
    then show ?thesis using core by (auto simp: core_inv_def stops_ok_def)
  qed
  ultimately show ?thesis
    using core n by (auto simp: core_inv_def marked_def put_node_def live_ok_def log_ok_def tombs_ok_def)
qed

lemma settle_inv:
  assumes "tree_inv t" "js_get (st_nodes t) i = Some n" "\<not> is_terminal (sn_state n)"
  shows "tree_inv (fst (settle n out at t))"
proof -
  have n: "js_get (st_nodes t) (sn_scopeId n) = Some n"
    using assms links_ok_id by (fastforce simp: tree_inv_def core_inv_def)
  obtain t1 where t1: "fst (settle n out at t) = trim_loop [] (st_retained t @ [sn_scopeId n]) t1"
    and calm: "calm (fst (foldIntoAncestors (settled_node n out at) (totalEffectOf n) (marked n out at t)))
       (t1\<lparr>st_retained := st_retained t\<rparr>)"
    by (rule settle_shape [of n out at t])
  have "core_inv (fst (foldIntoAncestors (settled_node n out at) (totalEffectOf n) (marked n out at t)))
      (st_retained t @ [sn_scopeId n])"
    using calm_core [OF fold_ids_calm marked_core [OF assms(1) n assms(3)]]
    by (simp add: foldIntoAncestors_def)
  from calm_core [OF calm this] have "core_inv t1 ([] @ (st_retained t @ [sn_scopeId n]))"
    by (simp add: core_inv_def live_ok_def log_ok_def tombs_ok_def)
  then show ?thesis unfolding t1 by (rule trim_loop_inv)
qed

lemma settleSelf_inv: "tree_inv t \<Longrightarrow> tree_inv (fst (settleSelf t now i out))"
  using settle_inv [of t i] by (auto simp: settleSelf_def requireNode_def split: option.split)

lemma settling_inv:
  "tree_inv t \<Longrightarrow> tree_inv (fst (complete_scope t now i))"
  "tree_inv t \<Longrightarrow> tree_inv (fst (fail_scope t now i))"
  "tree_inv t \<Longrightarrow> tree_inv (fst (acknowledge t now i))"
  using settleSelf_inv settle_inv [of t i]
  by (auto simp: complete_scope_def fail_scope_def acknowledge_def requireNode_def Let_def split: option.split)

lemma force_one_inv: "tree_inv (fst acc) \<Longrightarrow> tree_inv (fst (force_one at i acc))"
  using settle_inv [of "fst acc" i]
  by (auto simp: force_one_def case_prod_unfold Let_def split: option.split)

lemma forceSettle_inv: "tree_inv t \<Longrightarrow> tree_inv (fst (forceSettleUnacknowledged t at))"
  unfolding forceSettleUnacknowledged_def by (rule fold_keeps [of tree_inv]) (auto intro: force_one_inv)

section \<open>Deriving\<close>

lemma links_ok_derive:
  assumes ok: "links_ok nodes" and p: "js_get nodes p = Some parent" and fresh: "js_get nodes c = None"
    and node: "sn_scopeId node = c" "sn_parentId node = Some p" "sn_depth node = sn_depth parent + 1"
      "sn_depth parent + 1 < MAX_SCOPE_DEPTH" "sn_children node = []"
      "tighter (sn_deadline node) (sn_deadline parent)"
    and parent': "parent' = parent\<lparr>sn_nextChildOrdinal := z, sn_children := sn_children parent @ [c]\<rparr>"
  shows "links_ok (js_set p parent' (js_set c node nodes))"
  unfolding links_ok_def
proof (intro conjI allI impI)
  let ?nodes = "js_set p parent' (js_set c node nodes)"
  show "js_wf ?nodes" using links_ok_wf [OF ok] by simp
  have "p \<noteq> c" using p fresh by auto
  have kept: "\<exists>m'. js_get ?nodes j = Some m' \<and> sn_parentId m' = sn_parentId m \<and> sn_depth m' = sn_depth m \<and>
      sn_deadline m' = sn_deadline m \<and> set (sn_children m) \<subseteq> set (sn_children m')"
    if "js_get nodes j = Some m" for j m
    using that fresh p parent' by auto
  fix k m
  assume k: "js_get ?nodes k = Some m"
  show "node_ok ?nodes k m"
  proof (cases "k = c")
    case True
    with k \<open>p \<noteq> c\<close> have "m = node" by simp
    then show ?thesis using node parent' \<open>p \<noteq> c\<close> True by (simp add: node_ok_def)
  next
    case False
    with k p parent' obtain m0 where m0: "js_get nodes k = Some m0"
      "m = m0 \<or> k = p \<and> m = m0\<lparr>sn_nextChildOrdinal := z, sn_children := sn_children m0 @ [c]\<rparr>"
      by (auto split: if_splits)
    have mok: "node_ok nodes k m0" by (rule links_ok_node [OF ok m0(1)])
    have cnew: "c \<notin> set (sn_children m0)" using mok fresh by (auto simp: node_ok_def)
    have fields: "sn_scopeId m = sn_scopeId m0" "sn_parentId m = sn_parentId m0" "sn_depth m = sn_depth m0"
      "sn_deadline m = sn_deadline m0" using m0(2) by auto
    show ?thesis
      unfolding node_ok_def
    proof (intro conjI ballI)
      fix x assume "x \<in> set (sn_children m)"
      then consider "x \<in> set (sn_children m0)" | "x = c" "k = p" using m0(2) by auto
      then show "\<exists>y. js_get ?nodes x = Some y \<and> sn_parentId y = Some k"
      proof cases
        case 1
        with mok obtain y where "js_get nodes x = Some y" "sn_parentId y = Some k" by (auto simp: node_ok_def)
        with kept [of x y] show ?thesis by auto
      next
        case 2
        with node \<open>p \<noteq> c\<close> show ?thesis by simp
      qed
    next
      show "case sn_parentId m of None \<Rightarrow> sn_depth m = 0
          | Some q \<Rightarrow> \<exists>y. js_get ?nodes q = Some y \<and> k \<in> set (sn_children y) \<and>
                        sn_depth m = sn_depth y + 1 \<and> tighter (sn_deadline m) (sn_deadline y)"
      proof (cases "sn_parentId m0")
        case None
        with mok fields show ?thesis by (simp add: node_ok_def)
      next
        case (Some q)
        with ok m0(1) obtain y where y: "js_get nodes q = Some y" "k \<in> set (sn_children y)"
          "sn_depth m0 = sn_depth y + 1" "tighter (sn_deadline m0) (sn_deadline y)"
          by (auto elim: links_ok_parent)
        with kept [OF y(1)] Some fields show ?thesis by auto
      qed
    next
      show "sn_scopeId m = k" "sn_depth m < MAX_SCOPE_DEPTH" using mok unfolding fields by (simp_all add: node_ok_def)
      have "distinct (sn_children m0)" using mok by (simp add: node_ok_def)
      with m0(2) cnew show "distinct (sn_children m)" by auto
    qed
  qed
qed

definition child_node :: "scope_id \<Rightarrow> scope_node \<Rightarrow> scope_id \<Rightarrow> derive_options \<Rightarrow> scope_node" where
  "child_node p parent c options =
     \<lparr>sn_scopeId = c, sn_kind = do_kind options, sn_parentId = Some p, sn_depth = sn_depth parent + 1,
      sn_deadline = deriveDeadline (sn_deadline parent) (do_deadline options),
      sn_aborted = False, sn_children = [], sn_state = Active, sn_effect = Eff_None,
      sn_settledDescendantEffect = Eff_None, sn_cancellationRequestedAt = None, sn_nextChildOrdinal = 1\<rparr>"

definition grown_parent :: "scope_node \<Rightarrow> scope_id \<Rightarrow> scope_node" where
  "grown_parent parent c = parent\<lparr>sn_nextChildOrdinal := sn_nextChildOrdinal parent + 1,
     sn_children := sn_children parent @ [c]\<rparr>"

text \<open>The tree with the child linked in, before anything is announced or stopped.\<close>

definition linked_child :: "scope_tree \<Rightarrow> scope_id \<Rightarrow> scope_node \<Rightarrow> scope_id \<Rightarrow> derive_options \<Rightarrow> scope_tree" where
  "linked_child t p parent c options =
     put_node p (grown_parent parent c)
       ((put_node c (child_node p parent c options) (forgetTombstone c t))
          \<lparr>st_liveCount := st_liveCount t + 1\<rparr>)"

definition announced ::
  "scope_tree \<Rightarrow> instant \<Rightarrow> scope_id \<Rightarrow> scope_node \<Rightarrow> scope_id \<Rightarrow> derive_options \<Rightarrow> scope_tree" where
  "announced t a p parent c options =
     fst (emit Scope_Opened (child_node p parent c options) a None None None (linked_child t p parent c options))"

lemma open_child_fst:
  "fst (open_child t a b p parent c options) =
     (case sn_state parent of
        Cancelling _ _ \<Rightarrow>
          fst (beginCancelling (Parent_Cancelled p) b c (announced t a p parent c options, []))
      | _ \<Rightarrow> announced t a p parent c options)"
  by (cases "sn_state parent")
    (simp_all add: open_child_def announced_def linked_child_def child_node_def grown_parent_def Let_def)

lemma open_child_shape:
  "calm (linked_child t p parent c options) (fst (open_child t a b p parent c options))"
  unfolding open_child_fst announced_def
  by (cases "sn_state parent") (simp_all add: calm_emit calm_trans [OF calm_emit beginCancelling_calm])

lemma linked_child_inv:
  assumes inv: "tree_inv t" and p: "js_get (st_nodes t) p = Some parent"
    and fresh: "js_get (st_nodes t) c = None" and live: "st_liveCount t < MAX_LIVE_SCOPES"
    and depth: "sn_depth parent + 1 < MAX_SCOPE_DEPTH"
  shows "tree_inv (linked_child t p parent c options)"
proof -
  let ?nodes = "js_set p (grown_parent parent c) (js_set c (child_node p parent c options) (st_nodes t))"
  have core: "core_inv t (st_retained t)" using inv by (simp add: tree_inv_def)
  have "p \<noteq> c" using p fresh by auto
  have "links_ok ?nodes"
    using core p fresh depth
    by (intro links_ok_derive) (auto simp: core_inv_def child_node_def grown_parent_def deriveDeadline_tighter_parent)
  moreover have "live_ids ?nodes = insert c (live_ids (st_nodes t))"
    using p \<open>p \<noteq> c\<close> by (auto simp: live_ids_def child_node_def grown_parent_def split: if_splits)
  moreover have "c \<notin> live_ids (st_nodes t)" using fresh by (auto simp: live_ids_def)
  moreover have "terminal_ids ?nodes = terminal_ids (st_nodes t)"
    using p fresh \<open>p \<noteq> c\<close>
    by (auto simp: terminal_ids_def child_node_def grown_parent_def split: if_splits)
  moreover have "stops_ok ?nodes"
  proof -
    have "stop_ok parent" using core p by (auto simp: core_inv_def stops_ok_def)
    moreover have "stop_ok (child_node p parent c options)" by (simp add: stop_ok_def child_node_def)
    ultimately show ?thesis using core by (auto simp: core_inv_def stops_ok_def grown_parent_def)
  qed
  moreover have "tombs_ok (linked_child t p parent c options)"
  proof -
    have "tombs_ok (forgetTombstone c t)" using core by (simp add: core_inv_def forgetTombstone_tombs)
    moreover have "c \<notin> set (st_tombstoneOrder (forgetTombstone c t))"
      using forgetTombstone_order [of t c] core by (simp add: core_inv_def)
    ultimately show ?thesis using p
      unfolding tombs_ok_def linked_child_def put_node_def by (auto simp: forgetTombstone_get)
  qed
  ultimately show ?thesis
    using core live by (simp add: tree_inv_def core_inv_def linked_child_def put_node_def live_ok_def log_ok_def)
qed

text \<open>The one way \<open>derive\<close> changes the tree.\<close>

lemma derive_cases:
  obtains (refused) "fst (derive t a b p options) = t" "\<And>h. snd (derive t a b p options) \<noteq> Inr (Ok h)"
  | (opened) parent c where "js_get (st_nodes t) p = Some parent" "\<not> is_terminal (sn_state parent)"
      "sn_depth parent + 1 < MAX_SCOPE_DEPTH" "st_liveCount t < MAX_LIVE_SCOPES"
      "childIdOf parent p options = Inr c" "js_get (st_nodes t) c = None"
      "derive t a b p options =
         (fst (open_child t a b p parent c options), Inr (Ok (snd (open_child t a b p parent c options))))"
proof (cases "js_get (st_nodes t) p")
  case None
  then show ?thesis by (intro refused) (simp_all add: derive_def requireNode_def)
next
  case (Some parent)
  show ?thesis
  proof (cases "is_terminal (sn_state parent) \<or> sn_depth parent + 1 \<ge> MAX_SCOPE_DEPTH \<or>
      st_liveCount t \<ge> MAX_LIVE_SCOPES \<or> (\<exists>e. childIdOf parent p options = Inl e) \<or>
      (\<exists>c. childIdOf parent p options = Inr c \<and> js_has (st_nodes t) c)")
    case True
    with Some show ?thesis by (intro refused) (auto simp: derive_def requireNode_def)
  next
    case False
    then obtain c where c: "childIdOf parent p options = Inr c" "js_get (st_nodes t) c = None"
      by (cases "childIdOf parent p options") auto
    with False Some show ?thesis
      by (intro opened [of parent c]) (auto simp: derive_def requireNode_def case_prod_unfold Let_def)
  qed
qed

lemma derive_inv: "tree_inv t \<Longrightarrow> tree_inv (fst (derive t a b p options))"
proof (cases rule: derive_cases [of t a b p options])
  case (opened parent c)
  assume "tree_inv t"
  then have "tree_inv (linked_child t p parent c options)" using opened(1,6,4,3) by (rule linked_child_inv)
  with open_child_shape have "tree_inv (fst (open_child t a b p parent c options))" by (rule calm_inv)
  with opened(7) show ?thesis by simp
qed simp

lemma boundary_inv: "tree_inv t \<Longrightarrow> tree_inv (fst (cancellationBoundary t i enabled))"
  by (auto simp: cancellationBoundary_def tree_inv_def core_inv_def live_ok_def log_ok_def tombs_ok_def
      split: option.split)

lemma create_tree_inv: "tree_inv (createScopeTree now rootId d)"
proof -
  let ?root = "case rootId of Some i \<Rightarrow> i | None \<Rightarrow> ''scope-root''"
  have "calm t (fst (emit k n at r out e t))" for k n at r out e t by (rule calm_emit)
  then show ?thesis
    unfolding createScopeTree_def Let_def
    by (rule calm_inv)
      (auto simp: tree_inv_def core_inv_def links_ok_def node_ok_def live_ok_def live_ids_def stops_ok_def
        stop_ok_def log_ok_def tombs_ok_def terminal_ids_def MAX_SCOPE_DEPTH_def MAX_LIVE_SCOPES_def
        cong: conj_cong)
qed

lemma scope_step_inv: "tree_inv t \<Longrightarrow> scope_step t t' \<Longrightarrow> tree_inv t'"
  by (erule scope_step.cases)
    (auto intro: derive_inv boundary_inv settling_inv forceSettle_inv
       calm_inv [OF cancel_calm] calm_inv [OF recordEffect_calm] calm_inv [OF recordLateEffect_calm]
       calm_inv [OF expireDeadlines_calm])

abbreviation tree_start :: "scope_tree \<Rightarrow> bool" where
  "tree_start t \<equiv> \<exists>now rootId d. t = createScopeTree now rootId d"

interpretation scopes: safety_machine tree_start scope_step tree_inv
  by unfold_locales (auto intro: create_tree_inv scope_step_inv)

end
