(* ===== verification/Scope_Effects.thy ===== *)
theory Scope_Effects
  imports Scope_Invariants
begin

text \<open>
  What the scope tree promises: settled scopes are frozen, cancellation reaches exactly the
  subtree it should, and no recorded effect ever disappears from the scopes above it, evicted or
  not. Each promise is an invariant or a relation between a tree and its successor, proved for
  the elementary changes (stopping, folding, settling, evicting, linking) and composed.
\<close>

lemma tranclp_sub: "R\<^sup>+\<^sup>+ a b \<Longrightarrow> (\<And>x y. R x y \<Longrightarrow> S x y) \<Longrightarrow> S\<^sup>+\<^sup>+ a b"
  by (induction rule: tranclp_induct) (auto intro: tranclp.intros)

section \<open>Trees that only move forward\<close>

definition subtree_le :: "scope_tree \<Rightarrow> scope_tree \<Rightarrow> bool" where
  "subtree_le t t' \<longleftrightarrow>
     (\<forall>k n n'. js_get (st_nodes t) k = Some n \<longrightarrow> js_get (st_nodes t') k = Some n' \<longrightarrow>
        subtreeEffectOf t n \<le> subtreeEffectOf t' n')"

text \<open>Nothing is born, what stays evolves, and no subtree effect goes down.\<close>

definition forward :: "scope_tree \<Rightarrow> scope_tree \<Rightarrow> bool" where
  "forward t t' \<longleftrightarrow>
     (\<forall>k. js_get (st_nodes t) k = None \<longrightarrow> js_get (st_nodes t') k = None) \<and>
     nodes_evolve (st_nodes t) (st_nodes t') \<and> subtree_le t t'"

lemma forward_refl [simp]: "forward t t"
  by (auto simp: forward_def subtree_le_def)

lemma forward_trans:
  assumes ab: "forward a b" and bc: "forward b c"
  shows "forward a c"
proof -
  have mid: "js_get (st_nodes b) k \<noteq> None" if "js_get (st_nodes c) k \<noteq> None" for k
    using that bc unfolding forward_def by metis
  have "nodes_evolve (st_nodes a) (st_nodes c)"
    by (rule nodes_evolve_trans [of _ "st_nodes b"]) (use ab bc in \<open>auto simp: forward_def\<close>)
  moreover have "subtree_le a c"
    unfolding subtree_le_def
  proof (intro allI impI)
    fix k n n'
    assume n: "js_get (st_nodes a) k = Some n" "js_get (st_nodes c) k = Some n'"
    with mid [of k] obtain m where "js_get (st_nodes b) k = Some m" by auto
    with n ab bc show "subtreeEffectOf a n \<le> subtreeEffectOf c n'"
      unfolding forward_def subtree_le_def by (meson order_trans)
  qed
  ultimately show ?thesis using ab bc by (auto simp: forward_def)
qed

lemma subtree_bound:
  assumes "links_ok (st_nodes t)" "js_get (st_nodes t) k = Some n"
  shows "subtreeEffectOf t n \<le> e \<longleftrightarrow> totalEffectOf n \<le> e \<and> (\<forall>d. (link False t)\<^sup>+\<^sup>+ k d \<longrightarrow> total_at t d \<le> e)"
proof -
  have below: "d \<in> set (descendantsOf t n False) \<longleftrightarrow> (link False t)\<^sup>+\<^sup>+ k d" for d
    using descendants_spec [OF assms, of False] by simp
  show ?thesis
  proof (intro iffI conjI allI impI)
    assume le: "subtreeEffectOf t n \<le> e"
    have "totalEffectOf n \<le> subtreeEffectOf t n"
      unfolding subtreeEffectOf_def by (rule worst.fold_join_ge_start)
    then show "totalEffectOf n \<le> e" using le by simp
    fix d assume "(link False t)\<^sup>+\<^sup>+ k d"
    then have "d \<in> set (descendantsOf t n False)" by (simp add: below)
    then have "total_at t d \<le> subtreeEffectOf t n"
      unfolding subtreeEffectOf_def by (rule worst.fold_join_ge_elem)
    then show "total_at t d \<le> e" using le by simp
  next
    assume "totalEffectOf n \<le> e \<and> (\<forall>d. (link False t)\<^sup>+\<^sup>+ k d \<longrightarrow> total_at t d \<le> e)"
    then show "subtreeEffectOf t n \<le> e"
      unfolding subtreeEffectOf_def by (intro worst.fold_join_least) (auto simp: below)
  qed
qed

lemma subtree_ge_self:
  "links_ok (st_nodes t) \<Longrightarrow> js_get (st_nodes t) k = Some n \<Longrightarrow> totalEffectOf n \<le> subtreeEffectOf t n"
  using subtree_bound [of t k n "subtreeEffectOf t n"] by simp

lemma subtree_ge_below:
  "links_ok (st_nodes t) \<Longrightarrow> js_get (st_nodes t) k = Some n \<Longrightarrow> (link False t)\<^sup>+\<^sup>+ k d \<Longrightarrow>
   total_at t d \<le> subtreeEffectOf t n"
  using subtree_bound [of t k n "subtreeEffectOf t n"] by simp

lemma evolves_total: "evolves n n' \<Longrightarrow> totalEffectOf n \<le> totalEffectOf n'"
  by (simp add: evolves_def totalEffectOf_def worst.join_max max.coboundedI1 max.coboundedI2)

lemma same_shape_link: "same_shape (st_nodes t) (st_nodes t') \<Longrightarrow> link False t' = link False t"
proof (intro ext)
  fix p c
  assume "same_shape (st_nodes t) (st_nodes t')"
  then have "map_option shape (js_get (st_nodes t') c) = map_option shape (js_get (st_nodes t) c)"
    by (simp add: same_shape_def)
  then show "link False t' p c = link False t p c"
    by (cases "js_get (st_nodes t) c"; cases "js_get (st_nodes t') c") (auto simp: link_def shape_def)
qed

lemma same_shape_forward:
  assumes ok: "links_ok (st_nodes t)" and sh: "same_shape (st_nodes t) (st_nodes t')"
    and ev: "nodes_evolve (st_nodes t) (st_nodes t')"
  shows "forward t t'"
proof -
  have ok': "links_ok (st_nodes t')" by (rule links_ok_same_shape [OF ok sh])
  have total: "total_at t d \<le> total_at t' d" for d
  proof (cases "js_get (st_nodes t) d")
    case (Some n)
    with sh obtain n' where "js_get (st_nodes t') d = Some n'" by (rule same_shape_Some)
    with Some ev show ?thesis by (simp add: total_at_def nodes_evolve_def evolves_total)
  qed (simp add: total_at_def)
  have "subtree_le t t'"
    unfolding subtree_le_def
  proof (intro allI impI)
    fix k n n'
    assume n: "js_get (st_nodes t) k = Some n" and n': "js_get (st_nodes t') k = Some n'"
    have "totalEffectOf n \<le> subtreeEffectOf t' n'"
      using n n' ev by (intro order_trans [OF evolves_total subtree_ge_self [OF ok' n']]) (auto simp: nodes_evolve_def)
    moreover have "total_at t d \<le> subtreeEffectOf t' n'" if "(link False t)\<^sup>+\<^sup>+ k d" for d
      using that same_shape_link [OF sh] by (intro order_trans [OF total subtree_ge_below [OF ok' n']]) simp
    ultimately show "subtreeEffectOf t n \<le> subtreeEffectOf t' n'"
      by (simp add: subtree_bound [OF ok n])
  qed
  with ev sh show ?thesis by (simp add: forward_def same_shape_None)
qed

lemma calm_forward: "links_ok (st_nodes t) \<Longrightarrow> calm t t' \<Longrightarrow> forward t t'"
  by (rule same_shape_forward) (auto simp: calm_def)

section \<open>Effects are folded before they can be forgotten\<close>

definition effects_ok :: "(scope_id, scope_node) js_map \<Rightarrow> bool" where
  "effects_ok nodes \<longleftrightarrow>
     (\<forall>k n p m. js_get nodes k = Some n \<longrightarrow> sn_parentId n = Some p \<longrightarrow> js_get nodes p = Some m \<longrightarrow>
        sn_settledDescendantEffect n \<le> sn_settledDescendantEffect m \<and>
        (is_terminal (sn_state n) \<longrightarrow> sn_effect n \<le> sn_settledDescendantEffect m))"

lemma effects_okD:
  "effects_ok nodes \<Longrightarrow> js_get nodes k = Some n \<Longrightarrow> sn_parentId n = Some p \<Longrightarrow> js_get nodes p = Some m \<Longrightarrow>
   sn_settledDescendantEffect n \<le> sn_settledDescendantEffect m \<and>
   (is_terminal (sn_state n) \<longrightarrow> sn_effect n \<le> sn_settledDescendantEffect m)"
  unfolding effects_ok_def by blast

definition chains_ok :: "scope_tree \<Rightarrow> bool" where
  "chains_ok t \<longleftrightarrow> (\<forall>i as. js_get (st_tombstones t) i = Some as \<longrightarrow> up_closed t (set as))"

definition eff_inv :: "scope_tree \<Rightarrow> bool" where
  "eff_inv t \<longleftrightarrow> effects_ok (st_nodes t) \<and> chains_ok t"

definition eff_view ::
  "scope_node \<Rightarrow> scope_id option \<times> effect_certainty \<times> effect_certainty \<times> bool" where
  "eff_view n = (sn_parentId n, sn_effect n, sn_settledDescendantEffect n, is_terminal (sn_state n))"

text \<open>Changes that effects cannot see.\<close>

definition quiet :: "scope_tree \<Rightarrow> scope_tree \<Rightarrow> bool" where
  "quiet t t' \<longleftrightarrow> st_tombstones t' = st_tombstones t \<and>
     (\<forall>k. map_option eff_view (js_get (st_nodes t') k) = map_option eff_view (js_get (st_nodes t) k))"

lemma quiet_refl [simp]: "quiet t t"
  by (simp add: quiet_def)

lemma quiet_trans: "quiet a b \<Longrightarrow> quiet b c \<Longrightarrow> quiet a c"
  by (simp add: quiet_def)

lemma quiet_Some:
  assumes "quiet t t'" "js_get (st_nodes t') k = Some n'"
  obtains n where "js_get (st_nodes t) k = Some n" "eff_view n' = eff_view n"
proof (cases "js_get (st_nodes t) k")
  case None
  with assms show ?thesis by (auto simp: quiet_def dest!: spec [of _ k])
next
  case (Some n)
  have "map_option eff_view (js_get (st_nodes t') k) = map_option eff_view (js_get (st_nodes t) k)"
    using assms(1) by (simp add: quiet_def)
  with Some assms(2) that show ?thesis by simp
qed

lemma quiet_eff:
  assumes "quiet t t'" "eff_inv t"
  shows "eff_inv t'"
  unfolding eff_inv_def
proof
  show "effects_ok (st_nodes t')"
    unfolding effects_ok_def
  proof (intro allI impI)
    fix k n p m
    assume n: "js_get (st_nodes t') k = Some n" "sn_parentId n = Some p" and m: "js_get (st_nodes t') p = Some m"
    from assms(1) n(1) obtain n0 where n0: "js_get (st_nodes t) k = Some n0" "eff_view n = eff_view n0"
      by (rule quiet_Some)
    from assms(1) m obtain m0 where m0: "js_get (st_nodes t) p = Some m0" "eff_view m = eff_view m0"
      by (rule quiet_Some)
    have "sn_parentId n0 = Some p" using n(2) n0(2) by (simp add: eff_view_def)
    from effects_okD [OF _ n0(1) this m0(1)] assms(2) n0(2) m0(2)
    show "sn_settledDescendantEffect n \<le> sn_settledDescendantEffect m \<and>
        (is_terminal (sn_state n) \<longrightarrow> sn_effect n \<le> sn_settledDescendantEffect m)"
      by (simp add: eff_inv_def eff_view_def)
  qed
  show "chains_ok t'"
    unfolding chains_ok_def up_closed_def
  proof (intro allI impI ballI)
    fix i as a n p
    assume as: "js_get (st_tombstones t') i = Some as" "a \<in> set as"
      and n: "js_get (st_nodes t') a = Some n" "sn_parentId n = Some p"
    from assms(1) n(1) obtain n0 where n0: "js_get (st_nodes t) a = Some n0" "eff_view n = eff_view n0"
      by (rule quiet_Some)
    have "js_get (st_tombstones t) i = Some as" using assms(1) as(1) by (simp add: quiet_def)
    then have "up_closed t (set as)" using assms(2) by (simp add: eff_inv_def chains_ok_def)
    moreover have "sn_parentId n0 = Some p" using n(2) n0(2) by (simp add: eff_view_def)
    ultimately show "p \<in> set as" using as(2) n0(1) unfolding up_closed_def by blast
  qed
qed

lemma stop_node_view [simp]: "eff_view (stop_node r at n) = eff_view n"
  by (simp add: eff_view_def stop_node_def)

lemma beginCancelling_quiet: "quiet t (fst (beginCancelling r at i (t, c)))"
proof -
  have "st_tombstones (fst (beginCancelling r at i (t, c))) = st_tombstones t"
    using beginCancelling_calm [of t r at i c] by (simp add: calm_def)
  then show ?thesis by (simp add: quiet_def beginCancelling_get option.map_comp comp_def)
qed

lemma fold_quiet: "(\<And>i t c. quiet t (fst (f i (t, c)))) \<Longrightarrow> quiet t (fst (fold f is (t, c)))"
  by (rule fold_rel [of quiet]) (auto intro: quiet_trans)

lemma cancel_subtree_quiet: "quiet t (fst (cancel_subtree r at i (t, c)))"
proof -
  obtain t1 c1 where step: "beginCancelling r at i (t, c) = (t1, c1)" by fastforce
  have "quiet t t1" using beginCancelling_quiet [of t r at i c] by (simp add: step)
  moreover have "quiet t1 (fst (fold (beginCancelling r' at) is (t1, c1)))" for r' "is"
    by (rule fold_quiet) (rule beginCancelling_quiet)
  ultimately show ?thesis
    by (auto simp: cancel_subtree_def step intro: quiet_trans split: option.split)
qed

lemma cancel_quiet: "quiet t (fst (cancel t at i r))"
  using cancel_subtree_quiet [of t r at i "[]"]
  by (auto simp: cancel_def requireNode_def case_prod_unfold Let_def split: option.splits)

lemma expireDeadlines_quiet: "quiet t (fst (expireDeadlines t escalated at tick))"
  unfolding expireDeadlines_def
proof (rule fold_quiet)
  fix i t c
  show "quiet t (fst (expire_one escalated at tick i (t, c)))"
    using cancel_subtree_quiet by (auto simp: expire_one_def split: option.split)
qed

text \<open>Tombstone chains only look at the parents of the scopes that are still there.\<close>

lemma chains_parents:
  assumes "chains_ok t" "st_tombstones t' = st_tombstones t"
    and "\<And>k n'. js_get (st_nodes t') k = Some n' \<Longrightarrow>
           \<exists>n. js_get (st_nodes t) k = Some n \<and> sn_parentId n = sn_parentId n'"
  shows "chains_ok t'"
  unfolding chains_ok_def up_closed_def
proof (intro allI impI ballI)
  fix i as a n' p
  assume as: "js_get (st_tombstones t') i = Some as" "a \<in> set as"
    and n': "js_get (st_nodes t') a = Some n'" "sn_parentId n' = Some p"
  from assms(3) [OF n'(1)] n'(2) obtain n where "js_get (st_nodes t) a = Some n" "sn_parentId n = Some p" by auto
  with assms(1,2) as show "p \<in> set as" by (auto simp: chains_ok_def up_closed_def)
qed

lemma calm_chains: "calm t t' \<Longrightarrow> chains_ok t \<Longrightarrow> chains_ok t'"
proof (rule chains_parents)
  fix k n'
  assume calm: "calm t t'" and "js_get (st_nodes t') k = Some n'"
  then obtain n where "js_get (st_nodes t) k = Some n" "shape n' = shape n"
    unfolding calm_def by (blast elim: same_shape_Some')
  then show "\<exists>n. js_get (st_nodes t) k = Some n \<and> sn_parentId n = sn_parentId n'"
    by (auto simp: shape_def)
qed (auto simp: calm_def)

lemma applyEffect_eff:
  assumes n: "js_get (st_nodes t) (sn_scopeId n) = Some n" "\<not> is_terminal (sn_state n)" and inv: "eff_inv t"
  shows "eff_inv (applyEffect n e now t)"
proof (cases "worstEffect (sn_effect n) e = sn_effect n")
  case False
  let ?n = "n\<lparr>sn_effect := worstEffect (sn_effect n) e\<rparr>"
  have nodes: "st_nodes (applyEffect n e now t) = js_set (sn_scopeId n) ?n (st_nodes t)"
    using False by (simp add: applyEffect_def Let_def put_node_def)
  have "effects_ok (js_set (sn_scopeId n) ?n (st_nodes t))"
    unfolding effects_ok_def
  proof (intro allI impI)
    fix k x p m
    assume "js_get (js_set (sn_scopeId n) ?n (st_nodes t)) k = Some x" "sn_parentId x = Some p"
      "js_get (js_set (sn_scopeId n) ?n (st_nodes t)) p = Some m"
    then obtain x0 m0 where "js_get (st_nodes t) k = Some x0" "sn_parentId x0 = Some p"
      "js_get (st_nodes t) p = Some m0"
      "sn_settledDescendantEffect m = sn_settledDescendantEffect m0" "x = x0 \<or> x0 = n \<and> x = ?n"
      using n(1) by (auto split: if_splits)
    with effects_okD [of "st_nodes t" k x0 p m0] inv n(2)
    show "sn_settledDescendantEffect x \<le> sn_settledDescendantEffect m \<and>
        (is_terminal (sn_state x) \<longrightarrow> sn_effect x \<le> sn_settledDescendantEffect m)"
      by (auto simp: eff_inv_def)
  qed
  moreover have "chains_ok (applyEffect n e now t)"
    using calm_chains [OF applyEffect_calm [OF n]] inv by (simp add: eff_inv_def)
  ultimately show ?thesis by (simp add: eff_inv_def nodes)
qed (simp add: applyEffect_def inv)

text \<open>
  Folding into a list of scopes that is closed under parents keeps the chain of effects; when
  one more scope is settled at the same time, its own effect must be what is folded.
\<close>

lemma fold_effects:
  assumes ok: "effects_ok nodes" and up: "up_closed t ids" and t: "st_nodes t = nodes"
    and get: "\<And>k. js_get nodes' k = (if k \<in> ids then map_option (raise_node e) (js_get nodes k) else js_get nodes k)"
  shows "effects_ok nodes'"
  unfolding effects_ok_def
proof (intro allI impI)
  fix k n p m
  assume n: "js_get nodes' k = Some n" "sn_parentId n = Some p" and m: "js_get nodes' p = Some m"
  from n(1) obtain n0 where n0: "js_get nodes k = Some n0" "n = (if k \<in> ids then raise_node e n0 else n0)"
    by (auto simp: get split: if_splits)
  from m obtain m0 where m0: "js_get nodes p = Some m0" "m = (if p \<in> ids then raise_node e m0 else m0)"
    by (auto simp: get split: if_splits)
  have par: "sn_parentId n0 = Some p" using n(2) n0(2) by (simp split: if_splits)
  have up': "k \<in> ids \<Longrightarrow> p \<in> ids" using up n0(1) par t unfolding up_closed_def by blast
  from effects_okD [OF ok n0(1) par m0(1)]
  show "sn_settledDescendantEffect n \<le> sn_settledDescendantEffect m \<and>
      (is_terminal (sn_state n) \<longrightarrow> sn_effect n \<le> sn_settledDescendantEffect m)"
    using up' by (auto simp: n0(2) m0(2) worst.join_max intro: max.coboundedI1 max.mono)
qed

lemma fold_ids_eff:
  assumes "eff_inv t" "up_closed t (set ids)"
  shows "eff_inv (fst (foldIntoAncestorIds ids e t))"
proof -
  have "effects_ok (st_nodes (fst (foldIntoAncestorIds ids e t)))"
    using assms(1) by (intro fold_effects [OF _ assms(2) refl fold_ids_get]) (simp add: eff_inv_def)
  moreover have "chains_ok (fst (foldIntoAncestorIds ids e t))"
    using calm_chains [OF fold_ids_calm] assms(1) by (simp add: eff_inv_def)
  ultimately show ?thesis by (simp add: eff_inv_def)
qed

lemma recordEffect_eff:
  assumes "tree_inv t" "eff_inv t"
  shows "eff_inv (fst (recordEffect t now i e))"
proof (cases "js_get (st_nodes t) i")
  case None
  with assms(2) show ?thesis by (simp add: recordEffect_def requireNode_def)
next
  case (Some n)
  have "links_ok (st_nodes t)" using assms(1) by (simp add: tree_inv_def core_inv_def)
  then have "sn_scopeId n = i" using Some by (rule links_ok_id)
  with Some assms(2) show ?thesis by (simp add: recordEffect_def requireNode_def applyEffect_eff)
qed

lemma recordLateEffect_eff:
  assumes "tree_inv t" "eff_inv t"
  shows "eff_inv (fst (recordLateEffect t now i e))"
proof (cases "js_get (st_nodes t) i")
  case None
  show ?thesis
  proof (cases "js_get (st_tombstones t) i")
    case None
    with \<open>js_get (st_nodes t) i = None\<close> assms(2) show ?thesis by (simp add: recordLateEffect_def)
  next
    case (Some as)
    with assms(2) have "up_closed t (set as)" by (simp add: eff_inv_def chains_ok_def)
    with fold_ids_eff [OF assms(2)] Some None show ?thesis
      by (simp add: recordLateEffect_def case_prod_unfold Let_def)
  qed
next
  case (Some n)
  have ok: "links_ok (st_nodes t)" using assms(1) by (simp add: tree_inv_def core_inv_def)
  have "sn_scopeId n = i" by (rule links_ok_id [OF ok Some])
  with Some assms(2) fold_ids_eff [OF assms(2) ancestors_spec(2) [OF ok Some]] show ?thesis
    by (auto simp: recordLateEffect_def case_prod_unfold Let_def foldIntoAncestors_def intro: applyEffect_eff)
qed

section \<open>Settling keeps effects visible\<close>

text \<open>The nodes after a scope was marked settled and its effect folded upwards.\<close>

lemma marked_fold_get:
  assumes ok: "links_ok (st_nodes t)" and n: "js_get (st_nodes t) (sn_scopeId n) = Some n"
  shows "js_get (st_nodes (fst (foldIntoAncestors (settled_node n out at) (totalEffectOf n) (marked n out at t)))) k =
     (if k = sn_scopeId n then Some (settled_node n out at)
      else if (link False t)\<^sup>+\<^sup>+ k (sn_scopeId n)
      then map_option (raise_node (totalEffectOf n)) (js_get (st_nodes t) k)
      else js_get (st_nodes t) k)"
    and "\<not> (link False t)\<^sup>+\<^sup>+ (sn_scopeId n) (sn_scopeId n)"
proof -
  let ?t1 = "marked n out at t"
  have sh: "same_shape (st_nodes t) (st_nodes ?t1)"
    using n by (simp add: marked_def put_node_def same_shape_set)
  have ok1: "links_ok (st_nodes ?t1)" by (rule links_ok_same_shape [OF ok sh])
  have n1: "js_get (st_nodes ?t1) (sn_scopeId n) = Some (settled_node n out at)"
    by (simp add: marked_def put_node_def)
  have A: "set (ancestorIdsOf ?t1 (settled_node n out at)) = {a. (link False t)\<^sup>+\<^sup>+ a (sn_scopeId n)}"
    using ancestors_spec(1) [OF ok1 n1] same_shape_link [OF sh] by simp
  show i: "\<not> (link False t)\<^sup>+\<^sup>+ (sn_scopeId n) (sn_scopeId n)" using below_depth [OF _ ok] by blast
  show "js_get (st_nodes (fst (foldIntoAncestors (settled_node n out at) (totalEffectOf n) (marked n out at t)))) k =
     (if k = sn_scopeId n then Some (settled_node n out at)
      else if (link False t)\<^sup>+\<^sup>+ k (sn_scopeId n)
      then map_option (raise_node (totalEffectOf n)) (js_get (st_nodes t) k)
      else js_get (st_nodes t) k)"
    unfolding foldIntoAncestors_def fold_ids_get A using i n1
    by (auto simp: marked_def put_node_def)
qed

lemma marked_fold_effects:
  assumes ok: "links_ok (st_nodes t)" and eff: "effects_ok (st_nodes t)"
    and n: "js_get (st_nodes t) (sn_scopeId n) = Some n"
  shows "effects_ok (st_nodes (fst (foldIntoAncestors (settled_node n out at) (totalEffectOf n) (marked n out at t))))"
    (is "effects_ok ?nodes")
  unfolding effects_ok_def
proof (intro allI impI)
  fix k x p m
  assume x: "js_get ?nodes k = Some x" "sn_parentId x = Some p" and m: "js_get ?nodes p = Some m"
  let ?A = "{a. (link False t)\<^sup>+\<^sup>+ a (sn_scopeId n)}" and ?e = "totalEffectOf n"
  note get = marked_fold_get(1) [OF ok n, of out at] marked_fold_get(2) [OF ok n]
  from x(1) obtain x0 where x0: "js_get (st_nodes t) k = Some x0" "sn_effect x = sn_effect x0"
      "k \<noteq> sn_scopeId n \<Longrightarrow> is_terminal (sn_state x) = is_terminal (sn_state x0)" "k = sn_scopeId n \<Longrightarrow> x0 = n"
      "sn_settledDescendantEffect x =
         (if k \<in> ?A then worstEffect (sn_settledDescendantEffect x0) ?e else sn_settledDescendantEffect x0)"
      "sn_parentId x = sn_parentId x0"
    unfolding get(1) using n get(2) by (auto split: if_splits)
  from m obtain m0 where m0: "js_get (st_nodes t) p = Some m0"
      "sn_settledDescendantEffect m =
         (if p \<in> ?A then worstEffect (sn_settledDescendantEffect m0) ?e else sn_settledDescendantEffect m0)"
    unfolding get(1) using n get(2) by (auto split: if_splits)
  have par: "sn_parentId x0 = Some p" using x(2) x0(6) by simp
  then have "link False t p k" using x0(1) by (simp add: link_def)
  then have up: "k \<in> ?A \<or> k = sn_scopeId n \<Longrightarrow> p \<in> ?A"
    by (auto intro: tranclp_into_tranclp2)
  have old: "sn_settledDescendantEffect x0 \<le> sn_settledDescendantEffect m0"
    "is_terminal (sn_state x0) \<Longrightarrow> sn_effect x0 \<le> sn_settledDescendantEffect m0"
    using effects_okD [OF eff x0(1) par m0(1)] by auto
  have own: "k = sn_scopeId n \<Longrightarrow> sn_effect x0 \<le> ?e"
    using x0(4) by (simp add: totalEffectOf_def)
  show "sn_settledDescendantEffect x \<le> sn_settledDescendantEffect m \<and>
      (is_terminal (sn_state x) \<longrightarrow> sn_effect x \<le> sn_settledDescendantEffect m)"
  proof (cases "k = sn_scopeId n")
    case True
    with up own old(1) get(2) show ?thesis
      unfolding x0(2,5) m0(2) by (auto simp: worst.join_max intro: max.coboundedI1 max.coboundedI2)
  next
    case False
    with up old x0(3) show ?thesis
      unfolding x0(2,5) m0(2) by (auto simp: worst.join_max intro: max.coboundedI1 max.mono)
  qed
qed

section \<open>Evicting forgets nothing\<close>

lemma evict_subtree:
  assumes ok: "links_ok (st_nodes t)" and eff: "effects_ok (st_nodes t)"
    and c: "js_get (st_nodes t) c = Some n" "sn_children n = []" "is_terminal (sn_state n)"
    and ok': "links_ok (st_nodes t')"
    and get: "\<And>k. js_get (st_nodes t') k =
       (if k = c then None
        else if sn_parentId n = Some k
        then map_option (\<lambda>p. p\<lparr>sn_children := remove1 c (sn_children p)\<rparr>) (js_get (st_nodes t) k)
        else js_get (st_nodes t) k)"
  shows "subtree_le t t'"
  unfolding subtree_le_def
proof (intro allI impI)
  fix k m m'
  assume m: "js_get (st_nodes t) k = Some m" and m': "js_get (st_nodes t') k = Some m'"
  have keep: "link False t p x \<Longrightarrow> x \<noteq> c \<Longrightarrow> link False t' p x" for p x
    by (auto simp: link_def get)
  have leaf: "\<not> link False t c x" for x using child_link [OF ok c(1), of x] c(2) by simp
  have path: "x \<noteq> c \<Longrightarrow> (link False t')\<^sup>+\<^sup>+ k x" if "(link False t)\<^sup>+\<^sup>+ k x" for x
    using that
  proof (induction rule: tranclp_induct)
    case (base y)
    then show ?case using keep by blast
  next
    case (step y z)
    then have "y \<noteq> c" using leaf by blast
    with step keep show ?case by (meson tranclp.trancl_into_trancl)
  qed
  have same: "total_at t' x = total_at t x" if "x \<noteq> c" for x
    using that by (auto simp: total_at_def get totalEffectOf_def split: option.split)
  have "totalEffectOf m = totalEffectOf m'" using m m' by (auto simp: get totalEffectOf_def split: if_splits)
  then have self: "totalEffectOf m \<le> subtreeEffectOf t' m'" using subtree_ge_self [OF ok' m'] by simp
  have "total_at t x \<le> subtreeEffectOf t' m'" if below: "(link False t)\<^sup>+\<^sup>+ k x" for x
  proof (cases "x = c")
    case False
    with subtree_ge_below [OF ok' m' path [OF below]] same show ?thesis by metis
  next
    case True
    from below obtain q where q: "link False t q c" "q = k \<or> (link False t)\<^sup>+\<^sup>+ k q"
      unfolding True by (cases rule: tranclp.cases) auto
    then have par: "sn_parentId n = Some q" using c(1) by (auto simp: link_def)
    with ok c(1) obtain y where y: "js_get (st_nodes t) q = Some y" by (auto elim: links_ok_parent)
    have "q \<noteq> c" using q(1) leaf by blast
    have "totalEffectOf n \<le> sn_settledDescendantEffect y"
      using effects_okD [OF eff c(1) par y] c(3) by (simp add: totalEffectOf_def worst.join_max)
    also have "\<dots> \<le> total_at t' q" using same [OF \<open>q \<noteq> c\<close>] y by (simp add: total_at_def totalEffectOf_def)
    also have "\<dots> \<le> subtreeEffectOf t' m'"
    proof (cases "q = k")
      case True
      with m' subtree_ge_self [OF ok' m'] show ?thesis by (simp add: total_at_def)
    next
      case False
      with q(2) path \<open>q \<noteq> c\<close> show ?thesis by (intro subtree_ge_below [OF ok' m']) auto
    qed
    finally show ?thesis using True c(1) by (simp add: total_at_def)
  qed
  with self show "subtreeEffectOf t m \<le> subtreeEffectOf t' m'" by (simp add: subtree_bound [OF ok m])
qed

lemma evict_effects:
  assumes inv: "links_ok (st_nodes t)" "tombs_ok t" "eff_inv t" and c: "js_get (st_nodes t) c = Some n"
    and ev: "evict n t = (t', True)" and settled: "is_terminal (sn_state n)"
  shows "eff_inv t' \<and> forward t t'"
proof -
  from inv(1) c ev obtain nodes where kids: "sn_children n = []"
    and t': "t' = rememberTombstone c (ancestorIdsOf t n)
            (t\<lparr>st_nodes := nodes, st_cancellationBoundaries := st_cancellationBoundaries t - {c}\<rparr>)"
    and keys: "js_keys nodes = filter (\<lambda>k. k \<noteq> c) (js_keys (st_nodes t))"
    and get: "\<And>k. js_get nodes k =
       (if k = c then None
        else if sn_parentId n = Some k
        then map_option (\<lambda>p. p\<lparr>sn_children := remove1 c (sn_children p)\<rparr>) (js_get (st_nodes t) k)
        else js_get (st_nodes t) k)"
    by (rule evict_True) blast
  have nodes: "st_nodes t' = nodes" by (simp add: t')
  have origin: "\<exists>m. js_get (st_nodes t) k = Some m \<and> k \<noteq> c \<and> (m' = m \<or> m' = m\<lparr>sn_children := remove1 c (sn_children m)\<rparr>)"
    if "js_get nodes k = Some m'" for k m'
    using that by (auto simp: get split: if_splits)
  have ok': "links_ok nodes" by (rule links_ok_evict [OF inv(1) c kids keys get])
  have "effects_ok nodes"
    unfolding effects_ok_def
  proof (intro allI impI)
    fix k x p m
    assume x: "js_get nodes k = Some x" "sn_parentId x = Some p" "js_get nodes p = Some m"
    from origin [OF x(1)] origin [OF x(3)] obtain x0 m0 where
      "js_get (st_nodes t) k = Some x0" "js_get (st_nodes t) p = Some m0"
      "eff_view x = eff_view x0" "eff_view m = eff_view m0"
      by (auto simp: eff_view_def)
    with effects_okD [of "st_nodes t" k x0 p m0] inv(3) x(2)
    show "sn_settledDescendantEffect x \<le> sn_settledDescendantEffect m \<and>
        (is_terminal (sn_state x) \<longrightarrow> sn_effect x \<le> sn_settledDescendantEffect m)"
      by (simp add: eff_inv_def eff_view_def)
  qed
  moreover have "chains_ok t'"
    unfolding chains_ok_def
  proof (intro allI impI)
    fix j bs
    assume "js_get (st_tombstones t') j = Some bs"
    moreover have "tombs_ok t' \<and> (\<forall>j bs. js_get (st_tombstones t') j = Some bs \<longrightarrow>
        j = c \<and> bs = ancestorIdsOf t n \<or> j \<noteq> c \<and> js_get (st_tombstones t) j = Some bs)"
      by (rule rememberTombstone_spec [OF inv(2) t']) (simp_all add: get)
    ultimately have "bs = ancestorIdsOf t n \<or> js_get (st_tombstones t) j = Some bs" by blast
    then have "up_closed t (set bs)"
      using ancestors_spec(2) [OF inv(1) c] inv(3) by (auto simp: eff_inv_def chains_ok_def)
    then show "up_closed t' (set bs)"
      unfolding up_closed_def nodes using origin by fastforce
  qed
  moreover have "forward t t'"
    unfolding forward_def nodes
  proof (intro conjI)
    show "\<forall>k. js_get (st_nodes t) k = None \<longrightarrow> js_get nodes k = None" by (simp add: get)
    show "nodes_evolve (st_nodes t) nodes"
      unfolding nodes_evolve_def
    proof (intro allI impI)
      fix k m m'
      assume "js_get (st_nodes t) k = Some m" "js_get nodes k = Some m'"
      with origin [of k m'] show "evolves m m'" by (auto simp: evolves_def)
    qed
    show "subtree_le t t'" by (rule evict_subtree [OF inv(1) _ c kids settled]) (use inv(3) ok' get nodes in \<open>auto simp: eff_inv_def\<close>)
  qed
  ultimately show ?thesis by (simp add: eff_inv_def nodes)
qed

lemma trim_loop_effects:
  "core_inv t (skipped @ rest) \<Longrightarrow> eff_inv t \<Longrightarrow>
   eff_inv (trim_loop skipped rest t) \<and> forward t (trim_loop skipped rest t)"
proof (rule trim_loop_rel [of eff_inv forward])
  fix t r
  assume "eff_inv t" "links_ok (st_nodes t)"
  then show "eff_inv (t\<lparr>st_retained := r\<rparr>) \<and> forward t (t\<lparr>st_retained := r\<rparr>)"
    by (auto simp: eff_inv_def chains_ok_def up_closed_def intro: same_shape_forward)
qed (auto intro: forward_trans dest: evict_effects)

lemma settle_effects:
  assumes inv: "tree_inv t" "eff_inv t" and n: "js_get (st_nodes t) i = Some n" "\<not> is_terminal (sn_state n)"
  shows "eff_inv (fst (settle n out at t)) \<and> forward t (fst (settle n out at t))"
proof -
  have ok: "links_ok (st_nodes t)" using inv(1) by (simp add: tree_inv_def core_inv_def)
  have self: "js_get (st_nodes t) (sn_scopeId n) = Some n" using n(1) links_ok_id [OF ok n(1)] by simp
  let ?t1 = "marked n out at t"
  let ?t2 = "fst (foldIntoAncestors (settled_node n out at) (totalEffectOf n) (marked n out at t))"
  obtain t3 where t3: "fst (settle n out at t) = trim_loop [] (st_retained t @ [sn_scopeId n]) t3"
    and calm: "calm ?t2 (t3\<lparr>st_retained := st_retained t\<rparr>)" and nodes: "st_nodes t3 = st_nodes ?t2"
    by (rule settle_shape [of n out at t])
  have calm12: "calm ?t1 ?t2" unfolding foldIntoAncestors_def by (rule fold_ids_calm)
  have sh1: "same_shape (st_nodes t) (st_nodes ?t1)" and ev1: "nodes_evolve (st_nodes t) (st_nodes ?t1)"
    using self n(2) by (auto simp: marked_def put_node_def nodes_evolve_def evolves_def settled_node_def
        shape_def intro: same_shape_set)
  have "forward t ?t1" by (rule same_shape_forward [OF ok sh1 ev1])
  moreover have "forward ?t1 ?t2" by (rule calm_forward [OF links_ok_same_shape [OF ok sh1] calm12])
  moreover have "forward ?t2 t3"
    using links_ok_same_shape [OF ok sh1] calm12 links_ok_same_shape
    by (intro same_shape_forward) (auto simp: nodes calm_def)
  ultimately have fwd: "forward t t3" by (blast intro: forward_trans)
  have core: "core_inv t3 ([] @ st_retained t @ [sn_scopeId n])"
    using calm_core [OF calm calm_core [OF calm12 marked_core [OF inv(1) self n(2)]]]
    by (simp add: core_inv_def live_ok_def log_ok_def tombs_ok_def)
  have "chains_ok ?t1"
  proof (rule chains_parents)
    show "chains_ok t" using inv(2) by (simp add: eff_inv_def)
    show "\<exists>m. js_get (st_nodes t) k = Some m \<and> sn_parentId m = sn_parentId m'"
      if "js_get (st_nodes ?t1) k = Some m'" for k m'
      using that self by (auto simp: marked_def put_node_def split: if_splits)
  qed (simp add: marked_def put_node_def)
  then have "chains_ok (t3\<lparr>st_retained := st_retained t\<rparr>)"
    using calm_chains [OF calm] calm_chains [OF calm12] by blast
  then have "chains_ok t3" by (simp add: chains_ok_def up_closed_def)
  moreover have "effects_ok (st_nodes t3)"
    unfolding nodes using inv(2) by (intro marked_fold_effects [OF ok _ self]) (simp add: eff_inv_def)
  ultimately have "eff_inv t3" by (simp add: eff_inv_def)
  with trim_loop_effects [OF core] fwd show ?thesis unfolding t3 by (auto intro: forward_trans)
qed

lemma settleSelf_effects:
  "tree_inv t \<Longrightarrow> eff_inv t \<Longrightarrow>
   eff_inv (fst (settleSelf t now i out)) \<and> forward t (fst (settleSelf t now i out))"
  using settle_effects [of t i] by (auto simp: settleSelf_def requireNode_def split: option.split)

lemma settling_effects:
  "tree_inv t \<Longrightarrow> eff_inv t \<Longrightarrow> eff_inv (fst (complete_scope t now i)) \<and> forward t (fst (complete_scope t now i))"
  "tree_inv t \<Longrightarrow> eff_inv t \<Longrightarrow> eff_inv (fst (fail_scope t now i)) \<and> forward t (fst (fail_scope t now i))"
  "tree_inv t \<Longrightarrow> eff_inv t \<Longrightarrow> eff_inv (fst (acknowledge t now i)) \<and> forward t (fst (acknowledge t now i))"
  using settleSelf_effects settle_effects [of t i]
  by (auto simp: complete_scope_def fail_scope_def acknowledge_def requireNode_def Let_def split: option.split)

lemma forceSettle_effects:
  assumes "tree_inv t" "eff_inv t"
  shows "eff_inv (fst (forceSettleUnacknowledged t at)) \<and> forward t (fst (forceSettleUnacknowledged t at))"
proof -
  have one: "eff_inv (fst (force_one at i acc)) \<and> forward (fst acc) (fst (force_one at i acc))"
    if "tree_inv (fst acc)" "eff_inv (fst acc)" for i acc
    using that settle_effects [of "fst acc" i]
    by (auto simp: force_one_def case_prod_unfold Let_def split: option.split)
  have "tree_inv (fst acc) \<Longrightarrow> eff_inv (fst acc) \<Longrightarrow>
      eff_inv (fst (fold (force_one at) is acc)) \<and> forward (fst acc) (fst (fold (force_one at) is acc))"
    for "is" acc
  proof (induction "is" arbitrary: acc)
    case (Cons i "is")
    note first = one [OF Cons.prems, of i]
    with Cons.IH [of "force_one at i acc"] force_one_inv [OF Cons.prems(1)] show ?case
      by (auto intro: forward_trans)
  qed simp
  from this [of "(t, [])"] assms show ?thesis by (simp add: forceSettleUnacknowledged_def)
qed

section \<open>A new scope hides nothing\<close>

definition grows :: "scope_tree \<Rightarrow> scope_tree \<Rightarrow> bool" where
  "grows t t' \<longleftrightarrow> nodes_evolve (st_nodes t) (st_nodes t') \<and> subtree_le t t'"

lemma forward_grows: "forward t t' \<Longrightarrow> grows t t'"
  by (simp add: forward_def grows_def)

lemma grows_calm:
  assumes "grows a b" "calm b c" "links_ok (st_nodes b)"
  shows "grows a c"
proof -
  have bc: "forward b c" by (rule calm_forward [OF assms(3,2)])
  have "nodes_evolve (st_nodes a) (st_nodes c)"
    by (rule nodes_evolve_trans [of _ "st_nodes b"]) (use assms bc in \<open>auto simp: grows_def forward_def\<close>)
  moreover have "subtree_le a c"
    unfolding subtree_le_def
  proof (intro allI impI)
    fix k n n'
    assume n: "js_get (st_nodes a) k = Some n" "js_get (st_nodes c) k = Some n'"
    then obtain m where "js_get (st_nodes b) k = Some m" using calm_None [OF assms(2), of k] by auto
    with n assms(1) bc show "subtreeEffectOf a n \<le> subtreeEffectOf c n'"
      unfolding forward_def subtree_le_def grows_def by (meson order_trans)
  qed
  ultimately show ?thesis by (simp add: grows_def)
qed

lemma linked_child_get:
  "js_get (st_nodes (linked_child t p parent c options)) k =
     (if k = p then Some (grown_parent parent c)
      else if k = c then Some (child_node p parent c options) else js_get (st_nodes t) k)"
  by (simp add: linked_child_def put_node_def)

lemma grown_parent_simps [simp]:
  "sn_parentId (grown_parent parent c) = sn_parentId parent" "sn_effect (grown_parent parent c) = sn_effect parent"
  "sn_state (grown_parent parent c) = sn_state parent" "sn_aborted (grown_parent parent c) = sn_aborted parent"
  "sn_settledDescendantEffect (grown_parent parent c) = sn_settledDescendantEffect parent"
  "totalEffectOf (grown_parent parent c) = totalEffectOf parent" "evolves parent (grown_parent parent c)"
  by (simp_all add: grown_parent_def evolves_def totalEffectOf_def)

lemma linked_child_grows:
  assumes ok: "links_ok (st_nodes t)" and p: "js_get (st_nodes t) p = Some parent"
    and c: "js_get (st_nodes t) c = None" and ok': "links_ok (st_nodes (linked_child t p parent c options))"
  shows "grows t (linked_child t p parent c options)"
proof -
  let ?t = "linked_child t p parent c options"
  have "nodes_evolve (st_nodes t) (st_nodes ?t)"
    using p c by (auto simp: nodes_evolve_def linked_child_get split: if_splits)
  moreover have "subtree_le t ?t"
    unfolding subtree_le_def
  proof (intro allI impI)
    fix k m m'
    assume m: "js_get (st_nodes t) k = Some m" and m': "js_get (st_nodes ?t) k = Some m'"
    have "link False t x y \<Longrightarrow> link False ?t x y" for x y
      using p c by (auto simp: link_def linked_child_get)
    then have path: "(link False t)\<^sup>+\<^sup>+ k d \<Longrightarrow> (link False ?t)\<^sup>+\<^sup>+ k d" for d
      by (blast intro: tranclp_sub)
    have total: "total_at ?t d = total_at t d" if "d \<noteq> c" for d
      using p that by (simp add: total_at_def linked_child_get)
    have "totalEffectOf m \<le> subtreeEffectOf ?t m'"
      using subtree_ge_self [OF ok' m'] m m' p c by (auto simp: linked_child_get split: if_splits)
    moreover have "total_at t d \<le> subtreeEffectOf ?t m'" if "(link False t)\<^sup>+\<^sup>+ k d" for d
    proof -
      have "d \<noteq> c" using below_node [OF that] c by auto
      with subtree_ge_below [OF ok' m' path [OF that]] total show ?thesis by simp
    qed
    ultimately show "subtreeEffectOf t m \<le> subtreeEffectOf ?t m'" by (simp add: subtree_bound [OF ok m])
  qed
  ultimately show ?thesis by (simp add: grows_def)
qed

text \<open>The tombstones that still name a scope.\<close>

definition named_by_tombstone :: "scope_tree \<Rightarrow> scope_id \<Rightarrow> bool" where
  "named_by_tombstone t i \<longleftrightarrow> (\<exists>j as. js_get (st_tombstones t) j = Some as \<and> i \<in> set as)"

lemma linked_child_eff:
  assumes eff: "eff_inv t" and p: "js_get (st_nodes t) p = Some parent"
    and c: "js_get (st_nodes t) c = None" "\<not> named_by_tombstone t c" and ok: "links_ok (st_nodes t)"
  shows "eff_inv (linked_child t p parent c options)"
proof -
  let ?t = "linked_child t p parent c options"
  have orphan: "sn_parentId m \<noteq> Some c" if "js_get (st_nodes t) k = Some m" for k m
    using links_ok_parent [OF ok that, of c] c(1) by auto
  have "p \<noteq> c" using p c by auto
  have "effects_ok (st_nodes ?t)"
    unfolding effects_ok_def
  proof (intro allI impI)
    fix k x q m
    assume x: "js_get (st_nodes ?t) k = Some x" "sn_parentId x = Some q" "js_get (st_nodes ?t) q = Some m"
    show "sn_settledDescendantEffect x \<le> sn_settledDescendantEffect m \<and>
        (is_terminal (sn_state x) \<longrightarrow> sn_effect x \<le> sn_settledDescendantEffect m)"
    proof (cases "k = c")
      case True
      with x(1) \<open>p \<noteq> c\<close> have "x = child_node p parent c options" by (simp add: linked_child_get)
      then show ?thesis by (simp add: child_node_def)
    next
      case False
      with x p obtain x0 where x0: "js_get (st_nodes t) k = Some x0" "sn_parentId x0 = Some q"
          "eff_view x = eff_view x0"
        by (auto simp: linked_child_get eff_view_def split: if_splits)
      with orphan have "q \<noteq> c" by blast
      with x(3) p obtain m0 where "js_get (st_nodes t) q = Some m0"
          "sn_settledDescendantEffect m = sn_settledDescendantEffect m0"
        by (auto simp: linked_child_get split: if_splits)
      with effects_okD [of "st_nodes t" k x0 q m0] eff x0 show ?thesis
        by (simp add: eff_inv_def eff_view_def)
    qed
  qed
  moreover have "chains_ok ?t"
    unfolding chains_ok_def up_closed_def
  proof (intro allI impI ballI)
    fix i as a n q
    assume as: "js_get (st_tombstones ?t) i = Some as" "a \<in> set as"
      and n: "js_get (st_nodes ?t) a = Some n" "sn_parentId n = Some q"
    have old: "js_get (st_tombstones t) i = Some as"
      using as(1) by (simp add: linked_child_def put_node_def forgetTombstone_get split: if_splits)
    with as(2) c(2) have "a \<noteq> c" by (auto simp: named_by_tombstone_def)
    with n p obtain n0 where "js_get (st_nodes t) a = Some n0" "sn_parentId n0 = Some q"
      by (auto simp: linked_child_get split: if_splits)
    with old as(2) eff show "q \<in> set as" by (auto simp: eff_inv_def chains_ok_def up_closed_def)
  qed
  ultimately show ?thesis by (simp add: eff_inv_def)
qed

end
