(* ===== verification/Scope_Promises.thy ===== *)
theory Scope_Promises
  imports Scope_Effects
begin

text \<open>
  The promises of the scope tree over whole histories: what every method keeps, composed from
  the elementary changes of \<open>Scope_Invariants\<close> and \<open>Scope_Effects\<close>, and the properties that
  rest on it.
\<close>

section \<open>What no method undoes\<close>

definition drops :: "scope_tree \<Rightarrow> scope_tree \<Rightarrow> bool" where
  "drops t t' \<longleftrightarrow>
     (\<forall>k. js_get (st_nodes t) k = None \<longrightarrow> js_get (st_nodes t') k = None) \<and>
     nodes_evolve (st_nodes t) (st_nodes t')"

lemma drops_refl [simp]: "drops t t"
  by (simp add: drops_def)

lemma drops_trans: "drops a b \<Longrightarrow> drops b c \<Longrightarrow> drops a c"
  unfolding drops_def using nodes_evolve_trans [of "st_nodes a" "st_nodes b" "st_nodes c"] by blast

lemma calm_drops: "calm t t' \<Longrightarrow> drops t t'"
  using calm_None [of t t'] by (simp add: drops_def calm_def)

text \<open>
  \<open>holds_still\<close>: nothing is born, nothing is newly stopped, nothing settled revives and no walk
  gains a path. Everything but \<open>cancel\<close>, \<open>expireDeadlines\<close>, \<open>derive\<close> and lifting a boundary is
  of this kind.
\<close>

definition holds_still :: "scope_tree \<Rightarrow> scope_tree \<Rightarrow> bool" where
  "holds_still t t' \<longleftrightarrow>
     (\<forall>k n'. js_get (st_nodes t') k = Some n' \<longrightarrow>
        (\<exists>n. js_get (st_nodes t) k = Some n \<and> sn_aborted n' = sn_aborted n \<and>
             (is_terminal (sn_state n) \<longrightarrow> is_terminal (sn_state n')))) \<and>
     (\<forall>x y. link True t' x y \<longrightarrow> link True t x y)"

lemma holds_still_refl [simp]: "holds_still t t"
  by (simp add: holds_still_def)

lemma holds_still_trans: "holds_still a b \<Longrightarrow> holds_still b c \<Longrightarrow> holds_still a c"
  unfolding holds_still_def by metis

definition stops_reach :: "scope_tree \<Rightarrow> bool" where
  "stops_reach t \<longleftrightarrow>
     (\<forall>a g na ng. js_get (st_nodes t) a = Some na \<longrightarrow> sn_aborted na \<longrightarrow> (link True t)\<^sup>+\<^sup>+ a g \<longrightarrow>
        js_get (st_nodes t) g = Some ng \<longrightarrow> sn_aborted ng \<or> is_terminal (sn_state ng))"

lemma stops_reachD:
  "stops_reach t \<Longrightarrow> js_get (st_nodes t) a = Some na \<Longrightarrow> sn_aborted na \<Longrightarrow> (link True t)\<^sup>+\<^sup>+ a g \<Longrightarrow>
   js_get (st_nodes t) g = Some ng \<Longrightarrow> sn_aborted ng \<or> is_terminal (sn_state ng)"
  unfolding stops_reach_def by blast

lemma holds_still_stops:
  assumes still: "holds_still t t'" and inv: "stops_reach t"
  shows "stops_reach t'"
  unfolding stops_reach_def
proof (intro allI impI)
  fix a g na ng
  assume a: "js_get (st_nodes t') a = Some na" "sn_aborted na" and path: "(link True t')\<^sup>+\<^sup>+ a g"
    and g: "js_get (st_nodes t') g = Some ng"
  from still a(1) obtain na0 where "js_get (st_nodes t) a = Some na0" "sn_aborted na = sn_aborted na0"
    unfolding holds_still_def by blast
  moreover from still g obtain ng0 where g0: "js_get (st_nodes t) g = Some ng0"
    "sn_aborted ng = sn_aborted ng0" "is_terminal (sn_state ng0) \<longrightarrow> is_terminal (sn_state ng)"
    unfolding holds_still_def by blast
  moreover have "(link True t)\<^sup>+\<^sup>+ a g"
    using path by (rule tranclp_sub) (use still in \<open>auto simp: holds_still_def\<close>)
  ultimately have "sn_aborted ng0 \<or> is_terminal (sn_state ng0)"
    using stops_reachD [OF inv] a(2) by metis
  with g0 show "sn_aborted ng \<or> is_terminal (sn_state ng)" by auto
qed

lemma same_nodes_still:
  assumes "st_cancellationBoundaries t' = st_cancellationBoundaries t"
    and "\<And>k n'. js_get (st_nodes t') k = Some n' \<Longrightarrow>
      \<exists>n. js_get (st_nodes t) k = Some n \<and> sn_aborted n' = sn_aborted n \<and>
          sn_parentId n' = sn_parentId n \<and> (is_terminal (sn_state n) \<longrightarrow> is_terminal (sn_state n'))"
  shows "holds_still t t'"
  unfolding holds_still_def
proof (intro conjI allI impI)
  fix k n'
  assume "js_get (st_nodes t') k = Some n'"
  from assms(2) [OF this] show "\<exists>n. js_get (st_nodes t) k = Some n \<and> sn_aborted n' = sn_aborted n \<and>
      (is_terminal (sn_state n) \<longrightarrow> is_terminal (sn_state n'))" by blast
next
  fix x y
  assume "link True t' x y"
  then obtain m' where "js_get (st_nodes t') y = Some m'" "sn_parentId m' = Some x"
    "y \<notin> st_cancellationBoundaries t'" by (auto simp: link_def)
  with assms(2) [of y m'] assms(1) show "link True t x y" by (auto simp: link_def)
qed

lemma applyEffect_still:
  assumes "js_get (st_nodes t) (sn_scopeId n) = Some n"
  shows "holds_still t (applyEffect n e now t)"
proof (rule same_nodes_still)
  fix k n'
  assume "js_get (st_nodes (applyEffect n e now t)) k = Some n'"
  with assms show "\<exists>n. js_get (st_nodes t) k = Some n \<and> sn_aborted n' = sn_aborted n \<and>
      sn_parentId n' = sn_parentId n \<and> (is_terminal (sn_state n) \<longrightarrow> is_terminal (sn_state n'))"
    by (auto simp: applyEffect_def Let_def put_node_def split: if_splits)
qed (simp add: applyEffect_def Let_def put_node_def)

lemma fold_ids_still: "holds_still t (fst (foldIntoAncestorIds ids e t))"
proof (rule same_nodes_still)
  fix k n'
  assume "js_get (st_nodes (fst (foldIntoAncestorIds ids e t))) k = Some n'"
  then show "\<exists>n. js_get (st_nodes t) k = Some n \<and> sn_aborted n' = sn_aborted n \<and>
      sn_parentId n' = sn_parentId n \<and> (is_terminal (sn_state n) \<longrightarrow> is_terminal (sn_state n'))"
    by (auto simp: fold_ids_get split: if_splits)
qed (use fold_ids_calm [of t ids e] in \<open>simp add: calm_def\<close>)

lemma evict_still:
  assumes ok: "links_ok (st_nodes t)" and c: "js_get (st_nodes t) c = Some n" and ev: "evict n t = (t', True)"
  shows "drops t t' \<and> holds_still t t'"
proof -
  from ok c ev obtain nodes where
    t': "t' = rememberTombstone c (ancestorIdsOf t n)
            (t\<lparr>st_nodes := nodes, st_cancellationBoundaries := st_cancellationBoundaries t - {c}\<rparr>)"
    and get: "\<And>k. js_get nodes k =
       (if k = c then None
        else if sn_parentId n = Some k
        then map_option (\<lambda>p. p\<lparr>sn_children := remove1 c (sn_children p)\<rparr>) (js_get (st_nodes t) k)
        else js_get (st_nodes t) k)"
    by (rule evict_True) blast
  have origin: "\<exists>m. js_get (st_nodes t) k = Some m \<and> k \<noteq> c \<and> (m' = m \<or> m' = m\<lparr>sn_children := remove1 c (sn_children m)\<rparr>)"
    if "js_get nodes k = Some m'" for k m'
    using that by (auto simp: get split: if_splits)
  have nodes: "st_nodes t' = nodes" by (simp add: t')
  have "drops t t'"
    unfolding drops_def nodes nodes_evolve_def
  proof (intro conjI allI impI)
    fix k m m'
    assume "js_get (st_nodes t) k = Some m" "js_get nodes k = Some m'"
    with origin [of k m'] show "evolves m m'" by (auto simp: evolves_def)
  qed (simp add: get)
  moreover have "link True t x y" if "link True t' x y" for x y
  proof -
    from that obtain m' where m': "js_get nodes y = Some m'" "sn_parentId m' = Some x"
      "y \<notin> st_cancellationBoundaries t - {c}" by (auto simp: link_def t')
    with origin [OF m'(1)] show ?thesis by (auto simp: link_def)
  qed
  moreover have "\<exists>m. js_get (st_nodes t) k = Some m \<and> sn_aborted m' = sn_aborted m \<and>
      (is_terminal (sn_state m) \<longrightarrow> is_terminal (sn_state m'))" if "js_get (st_nodes t') k = Some m'" for k m'
    using origin [of k m'] that by (auto simp: nodes)
  ultimately show ?thesis by (simp add: holds_still_def)
qed

lemma trim_loop_still:
  "core_inv t (skipped @ rest) \<Longrightarrow>
   drops t (trim_loop skipped rest t) \<and> holds_still t (trim_loop skipped rest t)"
proof -
  assume core: "core_inv t (skipped @ rest)"
  have "True \<and> drops t (trim_loop skipped rest t) \<and> holds_still t (trim_loop skipped rest t)"
  proof (rule trim_loop_rel [of "\<lambda>_. True" "\<lambda>t t'. drops t t' \<and> holds_still t t'", OF _ _ _ core])
    show "True \<and> drops t (t\<lparr>st_retained := r\<rparr>) \<and> holds_still t (t\<lparr>st_retained := r\<rparr>)" for t r
      by (auto simp: drops_def intro: same_nodes_still)
  qed (auto intro: drops_trans holds_still_trans dest: evict_still)
  then show ?thesis by blast
qed

lemma settle_still:
  assumes inv: "tree_inv t" and n: "js_get (st_nodes t) i = Some n" "\<not> is_terminal (sn_state n)"
  shows "drops t (fst (settle n out at t)) \<and> holds_still t (fst (settle n out at t))"
proof -
  have ok: "links_ok (st_nodes t)" using inv by (simp add: tree_inv_def core_inv_def)
  have self: "js_get (st_nodes t) (sn_scopeId n) = Some n" using n(1) links_ok_id [OF ok n(1)] by simp
  let ?t1 = "marked n out at t"
  let ?t2 = "fst (foldIntoAncestors (settled_node n out at) (totalEffectOf n) (marked n out at t))"
  obtain t3 where t3: "fst (settle n out at t) = trim_loop [] (st_retained t @ [sn_scopeId n]) t3"
    and calm: "calm ?t2 (t3\<lparr>st_retained := st_retained t\<rparr>)" and nodes: "st_nodes t3 = st_nodes ?t2"
    by (rule settle_shape [of n out at t])
  have bd3: "st_cancellationBoundaries t3 = st_cancellationBoundaries ?t2" using calm by (simp add: calm_def)
  have calm12: "calm ?t1 ?t2" unfolding foldIntoAncestors_def by (rule fold_ids_calm)
  have "drops t ?t1"
    using self n(2) by (auto simp: drops_def marked_def put_node_def nodes_evolve_def evolves_def settled_node_def)
  moreover have "holds_still t ?t1"
    by (rule same_nodes_still) (use self n(2) in \<open>auto simp: marked_def put_node_def split: if_splits\<close>)
  moreover have "drops ?t1 t3" using calm_drops [OF calm12] by (simp add: drops_def nodes)
  moreover have "holds_still ?t1 t3"
    using fold_ids_still [of ?t1] unfolding foldIntoAncestors_def [symmetric]
    by (intro holds_still_trans [OF _ same_nodes_still [OF bd3]]) (auto simp: nodes foldIntoAncestors_def)
  moreover have "core_inv t3 ([] @ st_retained t @ [sn_scopeId n])"
    using calm_core [OF calm calm_core [OF calm12 marked_core [OF inv self n(2)]]]
    by (simp add: core_inv_def live_ok_def log_ok_def tombs_ok_def)
  ultimately show ?thesis
    unfolding t3 using trim_loop_still by (blast intro: drops_trans holds_still_trans)
qed

section \<open>Cancellation travels downward, and all the way\<close>

lemma cancel_subtree_get:
  assumes ok: "links_ok (st_nodes t)" and i: "js_get (st_nodes t) i = Some n"
  shows "js_get (st_nodes (fst (cancel_subtree r at i (t, c)))) k =
    (if k = i then map_option (stop_node r at) (js_get (st_nodes t) k)
     else if (link True t)\<^sup>+\<^sup>+ i k then map_option (stop_node (Parent_Cancelled i) at) (js_get (st_nodes t) k)
     else js_get (st_nodes t) k)"
proof -
  obtain t1 c1 where step: "beginCancelling r at i (t, c) = (t1, c1)" by fastforce
  have calm: "calm t t1" using beginCancelling_calm [of t r at i c] by (simp add: step)
  have get1: "js_get (st_nodes t1) k =
      (if k = i then map_option (stop_node r at) (js_get (st_nodes t) k) else js_get (st_nodes t) k)" for k
    using beginCancelling_get [of r at i t c k] by (simp add: step)
  have ok1: "links_ok (st_nodes t1)" using links_ok_same_shape [OF ok] calm by (simp add: calm_def)
  have i1: "js_get (st_nodes t1) i = Some (stop_node r at n)" using i by (simp add: get1)
  have desc: "set (descendantsOf t1 (stop_node r at n) True) = {d. (link True t)\<^sup>+\<^sup>+ i d}"
    using descendants_spec [OF ok1 i1, of True] calm_link [OF calm, of True] by simp
  have "\<not> (link True t)\<^sup>+\<^sup>+ i i" using below_depth [OF _ ok] by blast
  moreover have "cancel_subtree r at i (t, c) =
      fold (beginCancelling (Parent_Cancelled i) at) (descendantsOf t1 (stop_node r at n) True) (t1, c1)"
    by (simp add: cancel_subtree_def step i1)
  ultimately show ?thesis by (simp add: fold_beginCancelling_get desc get1)
qed

lemma cancel_subtree_stops:
  assumes "tree_inv t" "stops_reach t"
  shows "stops_reach (fst (cancel_subtree r at i (t, c)))"
proof (cases "js_get (st_nodes t) i")
  case None
  then have "beginCancelling r at i (t, c) = (t, c)" by (simp add: beginCancelling_def)
  with None assms(2) show ?thesis by (simp add: cancel_subtree_def)
next
  case (Some n)
  let ?t = "fst (cancel_subtree r at i (t, c))"
  have ok: "links_ok (st_nodes t)" and st: "stops_ok (st_nodes t)"
    using assms(1) by (simp_all add: tree_inv_def core_inv_def)
  note get = cancel_subtree_get [OF ok Some, of r at c]
  have link: "link True ?t = link True t" by (rule calm_link [OF cancel_subtree_calm])
  have stopped: "sn_aborted ng \<or> is_terminal (sn_state ng)"
    if "js_get (st_nodes ?t) g = Some ng" "g = i \<or> (link True t)\<^sup>+\<^sup>+ i g" for g ng
  proof -
    from that obtain ng0 r' where ng0: "js_get (st_nodes t) g = Some ng0" "ng = stop_node r' at ng0"
      by (auto simp: get split: if_splits)
    then have "stop_ok ng0" using st by (auto simp: stops_ok_def)
    then show ?thesis unfolding ng0(2)
      by (cases "sn_state ng0") (auto simp: stop_node_def stop_ok_def)
  qed
  show ?thesis
    unfolding stops_reach_def link
  proof (intro allI impI)
    fix a g na ng
    assume a: "js_get (st_nodes ?t) a = Some na" "sn_aborted na" and path: "(link True t)\<^sup>+\<^sup>+ a g"
      and g: "js_get (st_nodes ?t) g = Some ng"
    show "sn_aborted ng \<or> is_terminal (sn_state ng)"
    proof (cases "a = i \<or> (link True t)\<^sup>+\<^sup>+ i a")
      case True
      with path have "(link True t)\<^sup>+\<^sup>+ i g" by auto
      with stopped [OF g] show ?thesis by blast
    next
      case False
      then have a0: "js_get (st_nodes t) a = Some na" using a(1) by (simp add: get)
      show ?thesis
      proof (cases "g = i \<or> (link True t)\<^sup>+\<^sup>+ i g")
        case True
        with stopped [OF g] show ?thesis by blast
      next
        case False
        then have "js_get (st_nodes t) g = Some ng" using g by (simp add: get)
        with stops_reachD [OF assms(2) a0 a(2) path] show ?thesis by blast
      qed
    qed
  qed
qed

lemma expireDeadlines_stops:
  assumes "tree_inv t" "stops_reach t"
  shows "stops_reach (fst (expireDeadlines t escalated at tick))"
proof -
  have one: "tree_inv (fst (expire_one escalated at tick i acc)) \<and> stops_reach (fst (expire_one escalated at tick i acc))"
    if "tree_inv (fst acc) \<and> stops_reach (fst acc)" for i acc
    using that cancel_subtree_stops [of "fst acc"] calm_inv [OF cancel_subtree_calm [of "fst acc"]]
    by (cases acc) (auto simp: expire_one_def split: option.split)
  have "tree_inv (fst (expireDeadlines t escalated at tick)) \<and>
      stops_reach (fst (expireDeadlines t escalated at tick))"
    unfolding expireDeadlines_def
    by (rule fold_keeps [of "\<lambda>t. tree_inv t \<and> stops_reach t"]) (use one assms in auto)
  then show ?thesis by blast
qed

lemma boundary_stops:
  assumes "tree_inv t" "stops_reach t"
  shows "stops_reach (fst (cancellationBoundary t i enabled))"
proof (cases "snd (cancellationBoundary t i enabled)")
  case False
  then have "fst (cancellationBoundary t i enabled) = t"
    by (auto simp: cancellationBoundary_def split: option.splits if_splits)
  with assms(2) show ?thesis by simp
next
  case True
  then obtain n p where n: "js_get (st_nodes t) i = Some n" "sn_parentId n = Some p"
    by (auto simp: cancellationBoundary_def split: option.splits)
  show ?thesis
  proof (cases enabled)
    case True
    with n \<open>snd _\<close> have "fst (cancellationBoundary t i enabled) =
        t\<lparr>st_cancellationBoundaries := insert i (st_cancellationBoundaries t)\<rparr>"
      by (auto simp: cancellationBoundary_def split: if_splits)
    then have "holds_still t (fst (cancellationBoundary t i enabled))"
      by (auto simp: holds_still_def link_def)
    then show ?thesis using assms(2) by (rule holds_still_stops)
  next
    case False
    let ?t = "t\<lparr>st_cancellationBoundaries := st_cancellationBoundaries t - {i}\<rparr>"
    from False n \<open>snd _\<close> obtain m where m: "js_get (st_nodes t) p = Some m" "sn_state m = Active"
      and eq: "fst (cancellationBoundary t i enabled) = ?t"
      by (auto simp: cancellationBoundary_def split: if_splits option.splits)
    have "stop_ok m" using assms(1) m(1) by (auto simp: tree_inv_def core_inv_def stops_ok_def)
    then have calm_m: "\<not> sn_aborted m" using m(2) by (auto simp: stop_ok_def)
    have link: "link True ?t x y \<Longrightarrow> link True t x y \<or> x = p \<and> y = i" for x y
      using n by (auto simp: link_def)
    have old: "(link True t)\<^sup>+\<^sup>+ a g" if "(link True ?t)\<^sup>+\<^sup>+ a g" "js_get (st_nodes t) a = Some na" "sn_aborted na"
      for a g na
      using that(1)
    proof (induction rule: tranclp_induct)
      case (base y)
      with link [of a y] m(1) calm_m that(2,3) show ?case by auto
    next
      case (step y z)
      have "\<not> (y = p \<and> z = i)"
        using stops_reachD [OF assms(2) that(2,3) step.IH] m calm_m by auto
      with step link [of y z] show ?case by (meson tranclp.trancl_into_trancl)
    qed
    show ?thesis
      unfolding eq stops_reach_def using old stops_reachD [OF assms(2)] by (metis scope_tree.select_convs(1) scope_tree.surjective scope_tree.update_convs(9))
  qed
qed

lemma open_child_get:
  assumes "p \<noteq> c"
  shows "js_get (st_nodes (fst (open_child t a b p parent c options))) k =
    (if k = c \<and> (\<exists>r at. sn_state parent = Cancelling r at)
     then Some (stop_node (Parent_Cancelled p) b (child_node p parent c options))
     else js_get (st_nodes (linked_child t p parent c options)) k)"
  using assms unfolding open_child_fst announced_def
  by (cases "sn_state parent") (auto simp: beginCancelling_get linked_child_get)

lemma open_child_stops:
  assumes inv: "tree_inv t" "stops_reach t" and p: "js_get (st_nodes t) p = Some parent"
    and live: "\<not> is_terminal (sn_state parent)" and c: "js_get (st_nodes t) c = None"
  shows "stops_reach (fst (open_child t a b p parent c options))"
proof -
  let ?t = "fst (open_child t a b p parent c options)" and ?l = "linked_child t p parent c options"
  have ok: "links_ok (st_nodes t)" using inv(1) by (simp add: tree_inv_def core_inv_def)
  have "p \<noteq> c" using p c by auto
  note get = open_child_get [OF this, of t a b parent options]
  have "link True ?t = link True ?l" by (rule calm_link [OF open_child_shape])
  moreover have "link True ?l x y \<Longrightarrow> link True t x y \<or> x = p \<and> y = c" for x y
    using p by (auto simp: link_def linked_child_get linked_child_def put_node_def child_node_def split: if_splits)
  ultimately have link: "link True ?t x y \<Longrightarrow> link True t x y \<or> x = p \<and> y = c" for x y by simp
  have leaf: "\<not> link True t c y" for y
    using c links_ok_parent [OF ok, of y _ c] by (auto simp: link_def)
  have leaf': "\<not> link True ?t c y" for y using leaf link \<open>p \<noteq> c\<close> by blast
  have old: "g \<noteq> c \<Longrightarrow> (link True t)\<^sup>+\<^sup>+ x g" if "(link True ?t)\<^sup>+\<^sup>+ x g" for x g
    using that
  proof (induction rule: tranclp_induct)
    case (base y)
    then show ?case using link by blast
  next
    case (step y z)
    then have "y \<noteq> c" using leaf' by blast
    with step link show ?case by (meson tranclp.trancl_into_trancl)
  qed
  have par: "stop_ok parent" using inv(1) p by (auto simp: tree_inv_def core_inv_def stops_ok_def)
  have same: "\<exists>n0. js_get (st_nodes t) x = Some n0 \<and> sn_aborted n = sn_aborted n0 \<and> sn_state n = sn_state n0"
    if "js_get (st_nodes ?t) x = Some n" "x \<noteq> c" for x n
    using that p by (auto simp: get linked_child_get split: if_splits)
  show ?thesis
    unfolding stops_reach_def
  proof (intro allI impI)
    fix x g nx ng
    assume x: "js_get (st_nodes ?t) x = Some nx" "sn_aborted nx" and path: "(link True ?t)\<^sup>+\<^sup>+ x g"
      and g: "js_get (st_nodes ?t) g = Some ng"
    from path have "x \<noteq> c" using leaf' by (auto dest: tranclpD)
    with same [OF x(1)] x(2) obtain nx0 where x0: "js_get (st_nodes t) x = Some nx0" "sn_aborted nx0" by auto
    show "sn_aborted ng \<or> is_terminal (sn_state ng)"
    proof (cases "g = c")
      case False
      with same [OF g] obtain ng0 where "js_get (st_nodes t) g = Some ng0" "sn_aborted ng = sn_aborted ng0"
        "sn_state ng = sn_state ng0" by auto
      with stops_reachD [OF inv(2) x0 old [OF path False]] show ?thesis by auto
    next
      case True
      from path obtain q where q: "link True ?t q c" "q = x \<or> (link True ?t)\<^sup>+\<^sup>+ x q"
        unfolding True by (cases rule: tranclp.cases) auto
      have "q = p" using link [OF q(1)] c by (auto simp: link_def)
      then have "sn_aborted parent"
        using q(2) x0 p live stops_reachD [OF inv(2) x0 old [of x p] p] \<open>p \<noteq> c\<close> by auto
      with par live have "\<exists>r at. sn_state parent = Cancelling r at"
        by (cases "sn_state parent") (auto simp: stop_ok_def)
      with g True show ?thesis by (auto simp: get stop_node_def child_node_def)
    qed
  qed
qed

section \<open>Every method\<close>

lemma still_methods:
  assumes "tree_inv t"
  shows "holds_still t (fst (recordEffect t now i e)) \<and> drops t (fst (recordEffect t now i e))"
    and "holds_still t (fst (recordLateEffect t now i e)) \<and> drops t (fst (recordLateEffect t now i e))"
    and "holds_still t (fst (settleSelf t now i out)) \<and> drops t (fst (settleSelf t now i out))"
    and "holds_still t (fst (acknowledge t now i)) \<and> drops t (fst (acknowledge t now i))"
proof -
  have ok: "links_ok (st_nodes t)" using assms by (simp add: tree_inv_def core_inv_def)
  have self: "js_get (st_nodes t) (sn_scopeId n) = Some n" if "js_get (st_nodes t) i = Some n" for n
    using links_ok_id [OF ok that] that by simp
  show "holds_still t (fst (recordEffect t now i e)) \<and> drops t (fst (recordEffect t now i e))"
    using applyEffect_still [OF self] calm_drops [OF recordEffect_calm [OF assms]]
    by (simp add: recordEffect_def requireNode_def split: option.split)
  show "holds_still t (fst (recordLateEffect t now i e)) \<and> drops t (fst (recordLateEffect t now i e))"
    using applyEffect_still [OF self] calm_drops [OF recordLateEffect_calm [OF assms]] fold_ids_still [of t]
    by (simp add: recordLateEffect_def foldIntoAncestors_def case_prod_unfold Let_def split: option.split)
  show "holds_still t (fst (settleSelf t now i out)) \<and> drops t (fst (settleSelf t now i out))"
    using settle_still [OF assms, of i]
    by (simp add: settleSelf_def requireNode_def split: option.split)
  show "holds_still t (fst (acknowledge t now i)) \<and> drops t (fst (acknowledge t now i))"
    using settle_still [OF assms, of i]
    by (simp add: acknowledge_def requireNode_def Let_def split: option.split)
qed

lemma force_still:
  assumes "tree_inv t"
  shows "holds_still t (fst (forceSettleUnacknowledged t at)) \<and> drops t (fst (forceSettleUnacknowledged t at))"
proof -
  let ?P = "\<lambda>t'. tree_inv t' \<and> holds_still t t' \<and> drops t t'"
  have one: "?P (fst (force_one at i acc))" if acc: "?P (fst acc)" for i acc
  proof -
    have "holds_still (fst acc) (fst (force_one at i acc)) \<and> drops (fst acc) (fst (force_one at i acc))"
      using settle_still [of "fst acc" i] acc
      by (auto simp: force_one_def case_prod_unfold Let_def split: option.split)
    with acc force_one_inv [of acc at i] show ?thesis by (blast intro: holds_still_trans drops_trans)
  qed
  have "?P (fst (forceSettleUnacknowledged t at))"
    unfolding forceSettleUnacknowledged_def by (rule fold_keeps [of ?P]) (use one assms in auto)
  then show ?thesis by blast
qed

lemma scope_step_stops:
  assumes "scope_step t t'" "tree_inv t" "stops_reach t"
  shows "stops_reach t'"
  using assms(1)
proof cases
  case (s_derive a b p options)
  then show ?thesis
    using assms(2,3) open_child_stops [OF assms(2,3)] by (cases rule: derive_cases [of t a b p options]) auto
next
  case (s_cancel now i r)
  then show ?thesis
    using cancel_subtree_stops [OF assms(2,3), of r now i "[]"] assms(3)
    by (simp add: cancel_def requireNode_def case_prod_unfold Let_def split: option.split)
next
  case (s_fail now i)
  then show ?thesis
    using still_methods(3) [OF assms(2), of now i] assms(3)
    by (auto simp: fail_scope_def requireNode_def intro: holds_still_stops [OF _ assms(3)] split: option.split)
next
  case (s_boundary i enabled)
  with boundary_stops [OF assms(2,3)] show ?thesis by simp
next
  case (s_expire escalated now tick)
  with expireDeadlines_stops [OF assms(2,3)] show ?thesis by simp
qed (use still_methods [OF assms(2)] force_still [OF assms(2)] in
    \<open>auto simp: complete_scope_def intro: holds_still_stops [OF _ assms(3)]\<close>)

lemma scope_step_evolves:
  assumes "scope_step t t'" "tree_inv t"
  shows "nodes_evolve (st_nodes t) (st_nodes t')"
  using assms(1)
proof cases
  case (s_derive a b p options)
  have ok: "links_ok (st_nodes t)" using assms(2) by (simp add: tree_inv_def core_inv_def)
  from s_derive show ?thesis
  proof (cases rule: derive_cases [of t a b p options])
    case (opened parent c)
    have ok': "links_ok (st_nodes (linked_child t p parent c options))"
      using linked_child_inv [OF assms(2) opened(1,6,4,3)] by (simp add: tree_inv_def core_inv_def)
    with grows_calm [OF linked_child_grows [OF ok opened(1,6) ok'] open_child_shape ok'] opened(7) s_derive
    show ?thesis by (simp add: grows_def)
  qed simp
next
  case (s_boundary i enabled)
  then show ?thesis by (auto simp: cancellationBoundary_def split: option.split)
next
  case (s_fail now i)
  then show ?thesis
    using still_methods(3) [OF assms(2), of now i]
    by (auto simp: fail_scope_def requireNode_def drops_def split: option.split)
qed (use still_methods [OF assms(2)] force_still [OF assms(2)] calm_drops [OF cancel_calm [of t]]
      calm_drops [OF expireDeadlines_calm [of t]] in \<open>auto simp: complete_scope_def drops_def\<close>)

lemma emit_quiet: "quiet t (fst (emit k n at r out e t))"
  by (simp add: quiet_def)

lemma open_child_quiet: "quiet (linked_child t p parent c options) (fst (open_child t a b p parent c options))"
  unfolding open_child_fst announced_def
  by (cases "sn_state parent") (simp_all add: emit_quiet quiet_trans [OF emit_quiet beginCancelling_quiet])

text \<open>
  A caller may name a scope itself. \<open>fresh_names\<close> says that a step does not give a new scope a
  name that a tombstone still lists among the ancestors of an evicted one.
\<close>

definition fresh_names :: "scope_tree \<Rightarrow> scope_tree \<Rightarrow> bool" where
  "fresh_names t t' \<longleftrightarrow>
     (\<forall>k. js_get (st_nodes t) k = None \<longrightarrow> js_get (st_nodes t') k \<noteq> None \<longrightarrow> \<not> named_by_tombstone t k)"

abbreviation careful_step :: "scope_tree \<Rightarrow> scope_tree \<Rightarrow> bool" where
  "careful_step t t' \<equiv> scope_step t t' \<and> fresh_names t t'"

lemma derive_grows:
  assumes "tree_inv t"
  shows "grows t (fst (derive t a b p options))"
proof (cases rule: derive_cases [of t a b p options])
  case refused
  then show ?thesis by (simp add: forward_grows)
next
  case (opened parent c)
  have ok: "links_ok (st_nodes t)" and ok': "links_ok (st_nodes (linked_child t p parent c options))"
    using assms linked_child_inv [OF assms opened(1,6,4,3)] by (simp_all add: tree_inv_def core_inv_def)
  from grows_calm [OF linked_child_grows [OF ok opened(1,6) ok'] open_child_shape ok'] opened(7)
  show ?thesis by simp
qed

lemma derive_eff:
  assumes "tree_inv t" "eff_inv t" "fresh_names t (fst (derive t a b p options))"
  shows "eff_inv (fst (derive t a b p options))"
proof (cases rule: derive_cases [of t a b p options])
  case refused
  with assms(2) show ?thesis by simp
next
  case (opened parent c)
  have "p \<noteq> c" using opened(1,6) by auto
  then have "js_get (st_nodes (fst (open_child t a b p parent c options))) c \<noteq> None"
    by (simp add: open_child_get linked_child_get)
  with assms(3) opened(6,7) have "\<not> named_by_tombstone t c" by (simp add: fresh_names_def)
  with assms opened(1,6) have "eff_inv (linked_child t p parent c options)"
    by (intro linked_child_eff) (simp_all add: tree_inv_def core_inv_def)
  with quiet_eff [OF open_child_quiet] opened(7) show ?thesis by simp
qed

lemma boundary_grows: "grows t (fst (cancellationBoundary t i enabled)) \<and>
   (eff_inv t \<longrightarrow> eff_inv (fst (cancellationBoundary t i enabled)))" if "tree_inv t"
proof -
  have "forward t (t\<lparr>st_cancellationBoundaries := B\<rparr>)" for B
    using that by (intro same_shape_forward) (simp_all add: tree_inv_def core_inv_def)
  moreover have "eff_inv t \<longrightarrow> eff_inv (t\<lparr>st_cancellationBoundaries := B\<rparr>)" for B
    by (simp add: eff_inv_def chains_ok_def up_closed_def)
  ultimately show ?thesis
    by (auto simp: cancellationBoundary_def forward_grows split: option.split)
qed

lemma scope_step_grows:
  assumes "scope_step t t'" "tree_inv t" "eff_inv t"
  shows "grows t t' \<and> (fresh_names t t' \<longrightarrow> eff_inv t')"
proof -
  have ok: "links_ok (st_nodes t)" using assms(2) by (simp add: tree_inv_def core_inv_def)
  note settled = settling_effects [OF assms(2,3)] forceSettle_effects [OF assms(2,3)]
  note calm_steps = calm_forward [OF ok cancel_calm] calm_forward [OF ok recordEffect_calm [OF assms(2)]]
    calm_forward [OF ok recordLateEffect_calm [OF assms(2)]] calm_forward [OF ok expireDeadlines_calm]
  note eff_steps = quiet_eff [OF cancel_quiet assms(3)] quiet_eff [OF expireDeadlines_quiet assms(3)]
    recordEffect_eff [OF assms(2,3)] recordLateEffect_eff [OF assms(2,3)]
  from assms(1) show ?thesis
    by cases (use settled calm_steps eff_steps derive_grows [OF assms(2)] derive_eff [OF assms(2,3)]
        boundary_grows [OF assms(2)] assms(3) in \<open>auto intro: forward_grows\<close>)
qed

lemma create_nodes:
  obtains i n where "st_nodes (createScopeTree now rootId d) = [(i, n)]" "\<not> sn_aborted n" "sn_parentId n = None"
    "st_tombstones (createScopeTree now rootId d) = []"
  by (simp add: createScopeTree_def Let_def)

lemma create_stops: "stops_reach (createScopeTree now rootId d)"
  by (rule create_nodes [of now rootId d]) (auto simp: stops_reach_def split: if_splits)

lemma create_eff: "eff_inv (createScopeTree now rootId d)"
  by (rule create_nodes [of now rootId d]) (auto simp: eff_inv_def effects_ok_def chains_ok_def split: if_splits)

interpretation scope_stops: safety_machine tree_start scope_step "\<lambda>t. tree_inv t \<and> stops_reach t"
  by unfold_locales (auto intro: create_tree_inv create_stops scope_step_inv scope_step_stops)

interpretation scope_effects: safety_machine tree_start careful_step "\<lambda>t. tree_inv t \<and> eff_inv t"
proof unfold_locales
  fix t t'
  assume "tree_inv t \<and> eff_inv t" "careful_step t t'"
  then show "tree_inv t' \<and> eff_inv t'" using scope_step_inv scope_step_grows by blast
qed (auto intro: create_tree_inv create_eff)

section \<open>A small history, for the examples\<close>

definition named :: "scope_kind \<Rightarrow> scope_id \<Rightarrow> derive_options" where
  "named kind i = \<lparr>do_kind = kind, do_deadline = None, do_scopeId = Some i\<rparr>"

definition tree_demo_root :: scope_tree where
  "tree_demo_root = createScopeTree 0 (Some ''app'') None"

definition demo_session :: scope_tree where
  "demo_session = fst (derive tree_demo_root 1 1 ''app'' (named Kind_Session ''s''))"

definition demo_turn :: scope_tree where
  "demo_turn = fst (derive demo_session 2 2 ''s'' (named Kind_Turn ''t''))"

definition demo_partial :: scope_tree where
  "demo_partial = fst (recordEffect demo_turn 3 ''t'' Eff_Partial)"

definition demo_done :: scope_tree where
  "demo_done = fst (complete_scope demo_partial 4 ''t'')"

lemmas demo_history = demo_session_def demo_turn_def demo_partial_def demo_done_def

lemma tree_demo_reachable:
  "reachable tree_start scope_step tree_demo_root" "reachable tree_start scope_step demo_session"
  "reachable tree_start scope_step demo_turn" "reachable tree_start scope_step demo_partial"
  "reachable tree_start scope_step demo_done"
proof -
  show root: "reachable tree_start scope_step tree_demo_root"
    unfolding tree_demo_root_def by (rule reach_start) blast
  show session: "reachable tree_start scope_step demo_session"
    unfolding demo_session_def by (rule reach_step [OF root s_derive])
  show turn: "reachable tree_start scope_step demo_turn"
    unfolding demo_turn_def by (rule reach_step [OF session s_derive])
  show partial: "reachable tree_start scope_step demo_partial"
    unfolding demo_partial_def by (rule reach_step [OF turn s_effect])
  show "reachable tree_start scope_step demo_done"
    unfolding demo_done_def by (rule reach_step [OF partial s_complete])
qed

lemma demo_facts:
  "map_option sn_state (js_get (st_nodes demo_done) ''t'') = Some (Terminal Completed None 4)"
  "map_option sn_state (js_get (st_nodes demo_turn) ''t'') = Some Active"
  "map_option sn_parentId (js_get (st_nodes demo_turn) ''t'') = Some (Some ''s'')"
  "map_option sn_parentId (js_get (st_nodes demo_turn) ''s'') = Some (Some ''app'')"
  "map_option sn_parentId (js_get (st_nodes demo_turn) ''app'') = Some None"
  "st_cancellationBoundaries demo_turn = {}"
  "st_tombstones tree_demo_root = []" "st_tombstones demo_session = []" "st_tombstones demo_turn = []"
  "st_tombstones demo_partial = []"
  "map_option sn_parentId (js_get (st_nodes demo_partial) ''app'') = Some None"
  "map_option sn_parentId (js_get (st_nodes demo_done) ''app'') = Some None"
  by code_simp+

lemma fresh_names_empty: "st_tombstones t = [] \<Longrightarrow> fresh_names t t'"
  by (simp add: fresh_names_def named_by_tombstone_def)

lemma demo_careful: "reachable tree_start careful_step demo_partial"
proof -
  have step: "reachable tree_start careful_step t \<Longrightarrow> scope_step t t' \<Longrightarrow> st_tombstones t = [] \<Longrightarrow>
      reachable tree_start careful_step t'" for t t'
    by (rule reach_step [of _ careful_step t]) (auto intro: fresh_names_empty)
  have "reachable tree_start careful_step tree_demo_root"
    unfolding tree_demo_root_def by (rule reach_start) blast
  then have "reachable tree_start careful_step demo_session"
    unfolding demo_session_def by (rule step [OF _ s_derive]) (rule demo_facts)
  then have "reachable tree_start careful_step demo_turn"
    unfolding demo_turn_def by (rule step [OF _ s_derive]) (rule demo_facts)
  then show ?thesis
    unfolding demo_partial_def by (rule step [OF _ s_effect]) (rule demo_facts)
qed

section \<open>Properties\<close>

text \<open>
  C15. Whatever the callers do, the scopes form a tree: every scope is filed under its own
  identifier, its parent is still there and lists it exactly as its child, its children exist and
  name it, the chain is never deeper than the maximum, and no scope has a looser deadline than
  its parent.
\<close>

theorem scope_tree_well_formed:
  assumes "reachable tree_start scope_step t" and "js_get (st_nodes t) k = Some n"
  shows "sn_scopeId n = k \<and> sn_depth n < 16 \<and> distinct (sn_children n) \<and>
    (\<forall>c. c \<in> set (sn_children n) \<longleftrightarrow> (\<exists>m. js_get (st_nodes t) c = Some m \<and> sn_parentId m = Some k)) \<and>
    (case sn_parentId n of
       None \<Rightarrow> sn_depth n = 0
     | Some p \<Rightarrow> \<exists>m. js_get (st_nodes t) p = Some m \<and> sn_depth n = sn_depth m + 1 \<and>
                   tighter (sn_deadline n) (sn_deadline m))"
proof -
  have ok: "links_ok (st_nodes t)" using scopes.always [OF assms(1)] by (simp add: tree_inv_def core_inv_def)
  have "c \<in> set (sn_children n) \<longleftrightarrow> (\<exists>m. js_get (st_nodes t) c = Some m \<and> sn_parentId m = Some k)" for c
    using child_link [OF ok assms(2), of c] by (simp add: link_def)
  with links_ok_node [OF ok assms(2)] show ?thesis
    by (auto simp: node_ok_def MAX_SCOPE_DEPTH_def split: option.splits)
qed

theorem scope_tree_well_formed_witness:
  "\<exists>n. js_get (st_nodes demo_turn) ''t'' = Some n \<and> sn_scopeId n = ''t'' \<and> sn_depth n < 16"
  using demo_facts(2) scope_tree_well_formed [OF tree_demo_reachable(3), of "''t''"] by auto

text \<open>
  The tree's bookkeeping is exact and bounded: the live count is the number of scopes not yet
  settled and never exceeds the limit, the retention list names each settled scope once, the log
  holds at most its limit of events and their order numbers are the consecutive ones from the
  first not dropped up to the last issued, and at most the limit of tombstones is kept, none of
  them for a scope that exists.
\<close>

theorem scope_bookkeeping_exact:
  assumes "reachable tree_start scope_step t"
  shows "st_liveCount t = int (card {k. \<exists>n. js_get (st_nodes t) k = Some n \<and> \<not> is_terminal (sn_state n)}) \<and>
    st_liveCount t \<le> 10000 \<and>
    distinct (st_retained t) \<and>
    set (st_retained t) = {k. \<exists>n. js_get (st_nodes t) k = Some n \<and> is_terminal (sn_state n)} \<and>
    length (st_events t) \<le> 10000 \<and>
    map se_order (st_events t) = [Suc (st_droppedEvents t) ..< Suc (st_order t)] \<and>
    card {i. js_has (st_tombstones t) i} \<le> 1000 \<and>
    {i. js_has (st_tombstones t) i} \<inter> {i. js_has (st_nodes t) i} = {}"
proof -
  have inv: "core_inv t (st_retained t)" using scopes.always [OF assms] by (simp add: tree_inv_def)
  then have tombs: "tombs_ok t" by (simp add: core_inv_def)
  have "{i. js_has (st_tombstones t) i} = set (st_tombstoneOrder t)"
    using tombs by (auto simp: tombs_ok_def)
  then have "card {i. js_has (st_tombstones t) i} \<le> 1000"
    using card_length [of "st_tombstoneOrder t"] tombs
    by (simp add: tombs_ok_def MAX_EVICTED_TOMBSTONES_def MAX_RETAINED_TERMINAL_SCOPES_def)
  moreover have "{i. js_has (st_tombstones t) i} \<inter> {i. js_has (st_nodes t) i} = {}"
    using tombs by (auto simp: tombs_ok_def)
  ultimately show ?thesis
    using inv by (simp add: core_inv_def live_ok_def live_ids_def terminal_ids_def log_ok_def
        MAX_LIVE_SCOPES_def MAX_RETAINED_SCOPE_EVENTS_def del: upt_Suc)
qed

theorem scope_bookkeeping_exact_witness:
  "map se_order (st_events demo_done) = [Suc (st_droppedEvents demo_done) ..< Suc (st_order demo_done)]"
  using scope_bookkeeping_exact [OF tree_demo_reachable(5)] by blast

text \<open>
  A settled scope is final. Whatever is called next, as long as the scope is retained, its
  state (outcome, reason, instant) and its own recorded effect stay what they were; and no call
  ever changes the kind, parent, depth or deadline of a retained scope, lowers an effect, or
  withdraws a stop request.
\<close>

theorem settled_scope_is_final:
  assumes "reachable tree_start scope_step t" and "scope_step t t'"
    and "js_get (st_nodes t) k = Some n" and "js_get (st_nodes t') k = Some n'"
  shows "(is_terminal (sn_state n) \<longrightarrow> sn_state n' = sn_state n \<and> sn_effect n' = sn_effect n) \<and>
    sn_effect n \<le> sn_effect n' \<and> sn_settledDescendantEffect n \<le> sn_settledDescendantEffect n' \<and>
    (sn_aborted n \<longrightarrow> sn_aborted n') \<and>
    sn_kind n' = sn_kind n \<and> sn_parentId n' = sn_parentId n \<and> sn_depth n' = sn_depth n \<and>
    sn_deadline n' = sn_deadline n"
  using scope_step_evolves [OF assms(2) scopes.always [OF assms(1)]] assms(3,4)
  unfolding nodes_evolve_def evolves_def by blast

theorem settled_scope_is_final_witness:
  "\<exists>n n'. js_get (st_nodes demo_done) ''t'' = Some n \<and> is_terminal (sn_state n) \<and>
     js_get (st_nodes (fst (recordLateEffect demo_done 9 ''t'' Eff_Uncertain))) ''t'' = Some n' \<and>
     sn_state n' = sn_state n \<and> sn_effect n' = sn_effect n"
proof -
  obtain n where n: "js_get (st_nodes demo_done) ''t'' = Some n" "is_terminal (sn_state n)"
    using demo_facts(1) by auto
  have "map_option sn_kind (js_get (st_nodes (fst (recordLateEffect demo_done 9 ''t'' Eff_Uncertain))) ''t'') =
      Some Kind_Turn" by code_simp
  then obtain n' where "js_get (st_nodes (fst (recordLateEffect demo_done 9 ''t'' Eff_Uncertain))) ''t'' = Some n'"
    by auto
  with n settled_scope_is_final [OF tree_demo_reachable(5) s_late n(1)] show ?thesis by blast
qed

text \<open>
  C4. A stop request cannot be escaped. In every reachable tree, when a scope has been asked to
  stop, every scope below it that is not behind a cancellation boundary has been asked to stop
  or has settled, also one derived after the request, and also below a scope that had already
  settled.
\<close>

theorem stop_request_reaches_every_descendant:
  assumes "reachable tree_start scope_step t"
    and "js_get (st_nodes t) a = Some na" and "sn_aborted na"
    and "(link True t)\<^sup>+\<^sup>+ a g" and "js_get (st_nodes t) g = Some ng"
  shows "sn_aborted ng \<or> is_terminal (sn_state ng)"
  using scope_stops.always [OF assms(1)] stops_reachD assms(2-5) by blast

lemma inspection_iff: "e = Eff_Partial \<or> e = Eff_Uncertain \<longleftrightarrow> Eff_Partial \<le> e"
  by (cases e) (auto simp: less_eq_effect_certainty_def)

definition demo_stopped :: scope_tree where
  "demo_stopped = fst (derive (fst (cancel demo_turn 7 ''s'' Requested)) 8 8 ''s'' (named Kind_Turn ''u''))"

theorem stop_request_reaches_every_descendant_witness:
  "\<exists>n. js_get (st_nodes demo_stopped) ''u'' = Some n \<and> (sn_aborted n \<or> is_terminal (sn_state n))"
proof -
  have reach: "reachable tree_start scope_step demo_stopped"
    unfolding demo_stopped_def
    by (rule reach_step [of _ scope_step, OF reach_step [of _ scope_step, OF tree_demo_reachable(3) s_cancel] s_derive])
  have facts: "map_option sn_aborted (js_get (st_nodes demo_stopped) ''s'') = Some True"
    "map_option sn_parentId (js_get (st_nodes demo_stopped) ''u'') = Some (Some ''s'')"
    "st_cancellationBoundaries demo_stopped = {}"
    by code_simp+
  then have "(link True demo_stopped)\<^sup>+\<^sup>+ ''s'' ''u''" by (auto simp: link_def intro!: tranclp.r_into_trancl)
  with facts stop_request_reaches_every_descendant [OF reach, of "''s''" _ "''u''"] show ?thesis by auto
qed

text \<open>
  C1. No effect is ever lost. As long as no new scope takes a name that a tombstone still holds
  as the ancestor of an evicted scope, the effect a scope reports for its subtree never
  decreases, whatever is called: settling, late effects, the trimming of settled scopes and
  their eviction included. An uncertain effect stays visible from above after every trace of
  the scope that caused it is gone.
\<close>

theorem subtree_effect_never_shrinks:
  assumes "reachable tree_start careful_step t" and "scope_step t t'"
    and "report_scope t k = Some before" and "report_scope t' k = Some after"
  shows "sr_subtreeEffect before \<le> sr_subtreeEffect after \<and>
    (sr_requiresInspection before \<longrightarrow> sr_requiresInspection after)"
proof -
  obtain n n' where n: "js_get (st_nodes t) k = Some n" "js_get (st_nodes t') k = Some n'"
    using assms(3,4) by (auto simp: report_scope_def split: option.splits)
  have "subtreeEffectOf t n \<le> subtreeEffectOf t' n'"
    using scope_step_grows [OF assms(2)] scope_effects.always [OF assms(1)] n
    by (auto simp: grows_def subtree_le_def)
  with n assms(3,4) show ?thesis
    by (auto simp: report_scope_def Let_def inspection_iff)
qed

theorem subtree_effect_never_shrinks_witness:
  "\<exists>before after. report_scope demo_partial ''app'' = Some before \<and> report_scope demo_done ''app'' = Some after \<and>
     sr_requiresInspection before \<and> sr_requiresInspection after"
proof -
  have "map_option sr_requiresInspection (report_scope demo_partial ''app'') = Some True"
    "map_option sr_kind (report_scope demo_done ''app'') = Some Kind_Application" by code_simp+
  then obtain before after where "report_scope demo_partial ''app'' = Some before" "sr_requiresInspection before"
    "report_scope demo_done ''app'' = Some after" by auto
  moreover have "scope_step demo_partial demo_done" unfolding demo_done_def by (rule s_complete)
  ultimately show ?thesis using subtree_effect_never_shrinks [OF demo_careful] by blast
qed

text \<open>
  An effect that arrives after its scope settled is attributed, not dropped and not used to
  rewrite history: \<open>recordLateEffect\<close> on a settled scope leaves that scope and everything beside
  it as it was, raises the settled-descendant effect of every ancestor to at least the effect,
  and answers with exactly those ancestors; on a live scope it records the effect there; on an
  unknown one without a tombstone it fails and changes nothing.
\<close>

theorem late_effect_is_attributed:
  assumes "reachable tree_start scope_step t"
  shows "case js_get (st_nodes t) i of
      Some n \<Rightarrow>
        if is_terminal (sn_state n)
        then \<exists>reached. snd (recordLateEffect t now i e) =
               Ok \<lparr>le_scopeId = i, le_effect = e, le_late = True, le_foldedInto = reached\<rparr> \<and>
             set reached = {a. (link False t)\<^sup>+\<^sup>+ a i} \<and> i \<notin> set reached \<and>
             (\<forall>k. js_get (st_nodes (fst (recordLateEffect t now i e))) k =
                (if k \<in> set reached
                 then map_option (\<lambda>m. m\<lparr>sn_settledDescendantEffect := worstEffect (sn_settledDescendantEffect m) e\<rparr>)
                        (js_get (st_nodes t) k)
                 else js_get (st_nodes t) k))
        else recordLateEffect t now i e =
               (fst (recordEffect t now i e),
                Ok \<lparr>le_scopeId = i, le_effect = e, le_late = False, le_foldedInto = []\<rparr>)
    | None \<Rightarrow> js_get (st_tombstones t) i = None \<longrightarrow> recordLateEffect t now i e = (t, Err (Unknown_Scope i))"
proof (cases "js_get (st_nodes t) i")
  case None
  then show ?thesis by (simp add: recordLateEffect_def)
next
  case (Some n)
  have ok: "links_ok (st_nodes t)" using scopes.always [OF assms] by (simp add: tree_inv_def core_inv_def)
  show ?thesis
  proof (cases "is_terminal (sn_state n)")
    case False
    with Some show ?thesis by (simp add: recordLateEffect_def recordEffect_def requireNode_def)
  next
    case True
    have anc: "set (ancestorIdsOf t n) = {a. (link False t)\<^sup>+\<^sup>+ a i}" by (rule ancestors_spec(1) [OF ok Some])
    have "set (snd (foldIntoAncestorIds (ancestorIdsOf t n) e t)) = set (ancestorIdsOf t n)"
    proof -
      have "js_get (st_nodes t) a \<noteq> None" if "(link False t)\<^sup>+\<^sup>+ a i" for a
        using tranclpD [OF that] ok by (auto simp: link_def elim: links_ok_parent)
      then show ?thesis using anc by (auto simp: fold_ids_reached)
    qed
    moreover have "\<not> (link False t)\<^sup>+\<^sup>+ i i" using below_depth [OF _ ok] by blast
    ultimately show ?thesis
      using True Some fold_ids_get [of "ancestorIdsOf t n" e t] anc
      by (simp add: recordLateEffect_def foldIntoAncestors_def case_prod_unfold Let_def raise_node_def [abs_def])
  qed
qed

theorem late_effect_is_attributed_witness:
  "\<exists>reached. snd (recordLateEffect demo_done 9 ''t'' Eff_Uncertain) =
     Ok \<lparr>le_scopeId = ''t'', le_effect = Eff_Uncertain, le_late = True, le_foldedInto = reached\<rparr> \<and>
     ''t'' \<notin> set reached"
  using late_effect_is_attributed [OF tree_demo_reachable(5), where i = "''t''" and now = 9 and e = Eff_Uncertain] demo_facts(1)
  by auto

text \<open>
  The acknowledgement of a stop never claims less than what was recorded: the outcome is a
  time-out exactly when the scope was stopping for its deadline, its effect is at least the
  recorded one, and a scope that may have left something half done always asks for inspection.
\<close>

theorem acknowledged_outcome_hides_nothing:
  assumes "js_get (st_nodes t) i = Some n" and "snd (acknowledge t now i) = Ok out"
  shows "sn_effect n \<le> effectOf out \<and>
    ((\<exists>e. out = Timed_Out e) \<longleftrightarrow> (\<exists>d esc at. sn_state n = Cancelling (Deadline_Exceeded d esc) at)) \<and>
    (Eff_Partial \<le> sn_effect n \<longrightarrow> requiresInspection out)"
proof -
  have out: "out = acknowledged_outcome (sn_state n) (sn_effect n)"
    using assms by (auto simp: acknowledge_def requireNode_def Let_def split: if_splits)
  have "sn_effect n \<le> effectOf out"
    unfolding out by (cases "(sn_state n, sn_effect n)" rule: acknowledged_outcome.cases)
      (auto simp: cancellationOutcome_effect timeoutOutcome_effect)
  moreover have "(\<exists>e. out = Timed_Out e) \<longleftrightarrow> (\<exists>d esc at. sn_state n = Cancelling (Deadline_Exceeded d esc) at)"
    unfolding out by (cases "(sn_state n, sn_effect n)" rule: acknowledged_outcome.cases; cases "sn_effect n") auto
  ultimately show ?thesis by (auto simp: requiresInspection_iff)
qed

theorem acknowledged_outcome_hides_nothing_witness:
  "\<exists>n. js_get (st_nodes demo_partial) ''t'' = Some n \<and> snd (acknowledge demo_partial 5 ''t'') = Ok Uncertain \<and>
     sn_effect n \<le> effectOf Uncertain"
proof -
  have "map_option sn_effect (js_get (st_nodes demo_partial) ''t'') = Some Eff_Partial"
    "snd (acknowledge demo_partial 5 ''t'') = Ok Uncertain" by code_simp+
  then show ?thesis using acknowledged_outcome_hides_nothing [of demo_partial "''t''"] by blast
qed

end
