(* ===== verification/Turn_Machine.thy ===== *)
theory Turn_Machine
  imports Foundation Outcome
begin

text \<open>
  The turn state machine (\<^verbatim>\<open>src/domain/sessions/turn-machine.ts\<close>): phases, commands, and the
  function that applies one command to a snapshot. A snapshot is active or terminal over the
  same fields; optional inputs are options. \<open>turn_run\<close> is a sequence of applied commands from a
  new turn, recoveries included.
\<close>

section \<open>Definitions\<close>

definition TURN_MACHINE_SCHEMA_VERSION :: nat where "TURN_MACHINE_SCHEMA_VERSION = 1"

datatype turn_phase =
    Created | Orienting | Assembling_Context | Awaiting_Model | Handling_Model_Event
  | Executing_Capability | Evaluating_Completion

datatype turn_command =
    Begin_Orienting | Begin_Assembling_Context | Begin_Awaiting_Model | Begin_Handling_Model_Event
  | Begin_Executing_Capability | Begin_Evaluating_Completion | Cycle_To_Model
  | Complete | Fail | Cancel | Time_Out | Mark_Uncertain | Recover

datatype turn_transition_error =
    Illegal_Transition turn_phase turn_command bool
  | Already_Terminal turn_command terminal_outcome
  | Recovery_Requires_Interrupted bool turn_phase

record turn_fields =
  tf_turnId :: string
  tf_sessionId :: string
  tf_workspaceId :: string
  tf_traceId :: string
  tf_phase :: turn_phase
  tf_configurationGeneration :: int
  tf_runtimeGeneration :: int
  tf_observationOrder :: nat
  tf_recordedEffect :: effect_certainty

datatype turn_snapshot = Active_Turn turn_fields | Terminal_Turn turn_fields terminal_outcome

fun fields_of :: "turn_snapshot \<Rightarrow> turn_fields" where
  "fields_of (Active_Turn f) = f"
| "fields_of (Terminal_Turn f _) = f"

record turn_observation =
  to_schemaVersion :: nat
  to_order :: nat
  to_turnId :: string
  to_sessionId :: string
  to_from :: turn_phase
  to_to :: turn_phase
  to_command :: turn_command
  to_terminal :: bool
  to_runtimeGeneration :: int
  to_causationEventId :: "string option"
  to_outcome :: "terminal_outcome option"

datatype turn_transition_result =
    Transitioned turn_snapshot turn_observation
  | Rejected_Turn turn_transition_error

fun PHASE_EDGES :: "turn_phase \<Rightarrow> (turn_command \<times> turn_phase) list" where
  "PHASE_EDGES Created = [(Begin_Orienting, Orienting)]"
| "PHASE_EDGES Orienting = [(Begin_Assembling_Context, Assembling_Context)]"
| "PHASE_EDGES Assembling_Context = [(Begin_Awaiting_Model, Awaiting_Model)]"
| "PHASE_EDGES Awaiting_Model = [(Begin_Handling_Model_Event, Handling_Model_Event)]"
| "PHASE_EDGES Handling_Model_Event =
     [(Begin_Executing_Capability, Executing_Capability),
      (Begin_Evaluating_Completion, Evaluating_Completion)]"
| "PHASE_EDGES Executing_Capability =
     [(Cycle_To_Model, Awaiting_Model), (Begin_Evaluating_Completion, Evaluating_Completion)]"
| "PHASE_EDGES Evaluating_Completion = []"

definition TERMINAL_COMMANDS :: "turn_command list" where
  "TERMINAL_COMMANDS = [Complete, Fail, Cancel, Time_Out, Mark_Uncertain]"

fun legalTurnCommands :: "turn_snapshot \<Rightarrow> turn_command list" where
  "legalTurnCommands (Terminal_Turn _ _) = [Recover]"
| "legalTurnCommands (Active_Turn f) =
     (let phaseCommands = map fst (PHASE_EDGES (tf_phase f)) in
      if tf_phase f = Evaluating_Completion
      then phaseCommands @ [Complete, Fail, Cancel, Time_Out, Mark_Uncertain]
      else phaseCommands @ [Cancel, Time_Out, Mark_Uncertain, Fail])"

record turn_input =
  ti_command :: turn_command
  ti_configurationGeneration :: int
  ti_causationEventId :: "string option"
  ti_effect :: "effect_certainty option"
  ti_recoveryGeneration :: "int option"

definition phaseTarget :: "turn_phase \<Rightarrow> turn_command \<Rightarrow> turn_phase option" where
  "phaseTarget phase command = map_of (PHASE_EDGES phase) command"

fun outcomeFor :: "turn_command \<Rightarrow> turn_phase \<Rightarrow> effect_certainty \<Rightarrow> terminal_outcome option" where
  "outcomeFor Complete phase effect = Some Completed"
| "outcomeFor Fail phase effect = Some (Failed effect)"
| "outcomeFor Cancel phase effect =
     (if phase = Executing_Capability then Some Uncertain else Some (Cancelled effect))"
| "outcomeFor Time_Out phase effect = Some (Timed_Out effect)"
| "outcomeFor Mark_Uncertain phase effect = Some Uncertain"
| "outcomeFor _ phase effect = None"

fun mergeRank :: "effect_certainty \<Rightarrow> nat" where
  "mergeRank Eff_None = 0"
| "mergeRank Eff_Completed = 1"
| "mergeRank Eff_Partial = 2"
| "mergeRank Eff_Uncertain = 3"

definition mergeEffect :: "effect_certainty \<Rightarrow> effect_certainty \<Rightarrow> effect_certainty" where
  "mergeEffect prior next = (if mergeRank next \<ge> mergeRank prior then next else prior)"

fun effectOfOutcome :: "terminal_outcome \<Rightarrow> effect_certainty" where
  "effectOfOutcome Completed = Eff_Completed"
| "effectOfOutcome (Failed e) = e"
| "effectOfOutcome (Cancelled e) = e"
| "effectOfOutcome (Timed_Out e) = e"
| "effectOfOutcome Uncertain = Eff_Uncertain"

text \<open>The observation every transition reports.\<close>

definition observe ::
  "turn_fields \<Rightarrow> nat \<Rightarrow> turn_phase \<Rightarrow> turn_command \<Rightarrow> bool \<Rightarrow> int \<Rightarrow> string option \<Rightarrow> terminal_outcome option \<Rightarrow>
   turn_observation" where
  "observe f order to command terminal generation causation outcome =
     \<lparr>to_schemaVersion = TURN_MACHINE_SCHEMA_VERSION, to_order = order, to_turnId = tf_turnId f,
      to_sessionId = tf_sessionId f, to_from = tf_phase f, to_to = to, to_command = command,
      to_terminal = terminal, to_runtimeGeneration = generation, to_causationEventId = causation,
      to_outcome = outcome\<rparr>"

definition settleTurn :: "turn_input \<Rightarrow> turn_fields \<Rightarrow> turn_transition_result" where
  "settleTurn input f =
     (let command = ti_command input;
          effect = (case ti_effect input of None \<Rightarrow> tf_recordedEffect f | Some e \<Rightarrow> e)
      in case outcomeFor command (tf_phase f) effect of
           None \<Rightarrow> Rejected_Turn (Illegal_Transition (tf_phase f) command False)
         | Some outcome \<Rightarrow>
             if command = Complete \<and> tf_phase f \<noteq> Evaluating_Completion
             then Rejected_Turn (Illegal_Transition (tf_phase f) command False)
             else if command = Complete \<and>
                (tf_recordedEffect f = Eff_Partial \<or> tf_recordedEffect f = Eff_Uncertain)
             then Rejected_Turn (Illegal_Transition (tf_phase f) command False)
             else let order = tf_observationOrder f + 1;
                      recordedEffect =
                        (if outcome = Completed then Eff_Completed
                         else mergeEffect (tf_recordedEffect f) (effectOfOutcome outcome))
                  in Transitioned
                       (Terminal_Turn
                          (f\<lparr>tf_configurationGeneration := ti_configurationGeneration input,
                             tf_observationOrder := order, tf_recordedEffect := recordedEffect\<rparr>) outcome)
                       (observe f order (tf_phase f) command True (tf_runtimeGeneration f)
                          (ti_causationEventId input) (Some outcome)))"

fun recoverTurn :: "turn_input \<Rightarrow> turn_snapshot \<Rightarrow> turn_transition_result" where
  "recoverTurn input (Active_Turn f) = Rejected_Turn (Recovery_Requires_Interrupted False (tf_phase f))"
| "recoverTurn input (Terminal_Turn f outcome) =
     (case ti_recoveryGeneration input of
        None \<Rightarrow> Rejected_Turn (Recovery_Requires_Interrupted True (tf_phase f))
      | Some generation \<Rightarrow>
          if generation = tf_runtimeGeneration f
          then Rejected_Turn (Recovery_Requires_Interrupted True (tf_phase f))
          else let order = tf_observationOrder f + 1
               in Transitioned
                    (Active_Turn
                       (f\<lparr>tf_phase := Orienting, tf_configurationGeneration := generation,
                          tf_runtimeGeneration := generation, tf_observationOrder := order\<rparr>))
                    (observe f order Orienting Recover False generation
                       (ti_causationEventId input) None))"

definition applyTurnTransition :: "turn_input \<Rightarrow> turn_snapshot \<Rightarrow> turn_transition_result" where
  "applyTurnTransition input snapshot =
     (let command = ti_command input in
      if command = Recover then recoverTurn input snapshot
      else case snapshot of
             Terminal_Turn f outcome \<Rightarrow> Rejected_Turn (Already_Terminal command outcome)
           | Active_Turn f \<Rightarrow>
               if command \<in> set TERMINAL_COMMANDS then settleTurn input f
               else case phaseTarget (tf_phase f) command of
                      None \<Rightarrow> Rejected_Turn (Illegal_Transition (tf_phase f) command False)
                    | Some to \<Rightarrow>
                        let order = tf_observationOrder f + 1;
                            recordedEffect = mergeEffect (tf_recordedEffect f)
                              (case ti_effect input of None \<Rightarrow> Eff_None | Some e \<Rightarrow> e)
                        in Transitioned
                             (Active_Turn
                                (f\<lparr>tf_phase := to,
                                   tf_configurationGeneration := ti_configurationGeneration input,
                                   tf_observationOrder := order, tf_recordedEffect := recordedEffect\<rparr>))
                             (observe f order to command False (tf_runtimeGeneration f)
                                (ti_causationEventId input) None))"

definition createTurnSnapshot :: "string \<Rightarrow> string \<Rightarrow> string \<Rightarrow> string \<Rightarrow> int \<Rightarrow> turn_snapshot" where
  "createTurnSnapshot turnId sessionId workspaceId traceId generation =
     Active_Turn \<lparr>tf_turnId = turnId, tf_sessionId = sessionId, tf_workspaceId = workspaceId,
       tf_traceId = traceId, tf_phase = Created, tf_configurationGeneration = generation,
       tf_runtimeGeneration = generation, tf_observationOrder = 0, tf_recordedEffect = Eff_None\<rparr>"

fun turnPhaseLabel :: "turn_phase \<Rightarrow> string" where
  "turnPhaseLabel Created = ''created''"
| "turnPhaseLabel Orienting = ''orienting''"
| "turnPhaseLabel Assembling_Context = ''assembling-context''"
| "turnPhaseLabel Awaiting_Model = ''awaiting-model''"
| "turnPhaseLabel Handling_Model_Event = ''handling-model-event''"
| "turnPhaseLabel Executing_Capability = ''executing-capability''"
| "turnPhaseLabel Evaluating_Completion = ''evaluating-completion''"

section \<open>Runs\<close>

inductive turn_run :: "turn_observation list \<Rightarrow> turn_snapshot \<Rightarrow> bool" where
  turn_start: "turn_run [] (createTurnSnapshot turnId sessionId workspaceId traceId generation)"
| turn_next: "turn_run obs s \<Longrightarrow> applyTurnTransition input s = Transitioned s' ob \<Longrightarrow> turn_run (obs @ [ob]) s'"

section \<open>The join\<close>

lemma mergeRank_severity: "mergeRank e = effectSeverity e"
  by (cases e) auto

interpretation merge: effect_join mergeEffect
proof unfold_locales
  fix a b
  show "mergeEffect a b = max a b"
    by (cases a; cases b) (simp_all add: mergeEffect_def max_def less_eq_effect_certainty_def)
qed

lemma effectOfOutcome_effectOf: "effectOfOutcome = effectOf"
  by (rule ext) (case_tac x; simp)

section \<open>What one command does\<close>

lemma apply_recover:
  "ti_command input = Recover \<Longrightarrow> applyTurnTransition input s = recoverTurn input s"
  by (simp add: applyTurnTransition_def)

lemma apply_cases:
  assumes "applyTurnTransition input s = Transitioned s' ob"
  obtains (recover) f out g where "s = Terminal_Turn f out" "ti_command input = Recover"
      "ti_recoveryGeneration input = Some g" "g \<noteq> tf_runtimeGeneration f"
      "s' = Active_Turn (f\<lparr>tf_phase := Orienting, tf_configurationGeneration := g,
         tf_runtimeGeneration := g, tf_observationOrder := tf_observationOrder f + 1\<rparr>)"
      "ob = observe f (tf_observationOrder f + 1) Orienting Recover False g (ti_causationEventId input) None"
  | (settle) f out where "s = Active_Turn f" "ti_command input \<in> set TERMINAL_COMMANDS"
      "outcomeFor (ti_command input) (tf_phase f)
         (case ti_effect input of None \<Rightarrow> tf_recordedEffect f | Some e \<Rightarrow> e) = Some out"
      "ti_command input = Complete \<Longrightarrow> tf_phase f = Evaluating_Completion \<and> tf_recordedEffect f \<le> Eff_Completed"
      "s' = Terminal_Turn (f\<lparr>tf_configurationGeneration := ti_configurationGeneration input,
         tf_observationOrder := tf_observationOrder f + 1,
         tf_recordedEffect := (if out = Completed then Eff_Completed
            else mergeEffect (tf_recordedEffect f) (effectOf out))\<rparr>) out"
      "ob = observe f (tf_observationOrder f + 1) (tf_phase f) (ti_command input) True
         (tf_runtimeGeneration f) (ti_causationEventId input) (Some out)"
  | (advance) f to where "s = Active_Turn f" "(ti_command input, to) \<in> set (PHASE_EDGES (tf_phase f))"
      "s' = Active_Turn (f\<lparr>tf_phase := to, tf_configurationGeneration := ti_configurationGeneration input,
         tf_observationOrder := tf_observationOrder f + 1,
         tf_recordedEffect := mergeEffect (tf_recordedEffect f)
            (case ti_effect input of None \<Rightarrow> Eff_None | Some e \<Rightarrow> e)\<rparr>)"
      "ob = observe f (tf_observationOrder f + 1) to (ti_command input) False
         (tf_runtimeGeneration f) (ti_causationEventId input) None"
proof (cases s)
  case (Terminal_Turn f out)
  have "ti_command input = Recover"
    using assms Terminal_Turn by (auto simp: applyTurnTransition_def Let_def split: if_splits)
  with assms Terminal_Turn show ?thesis
    by (intro recover [of f out "the (ti_recoveryGeneration input)"])
      (auto simp: apply_recover Let_def split: option.splits if_splits)
next
  case (Active_Turn f)
  have cmd: "ti_command input \<noteq> Recover" using assms Active_Turn by (auto simp: apply_recover)
  show ?thesis
  proof (cases "ti_command input \<in> set TERMINAL_COMMANDS")
    case True
    with assms Active_Turn cmd have eq: "settleTurn input f = Transitioned s' ob"
      by (simp add: applyTurnTransition_def Let_def)
    have low: "tf_recordedEffect f \<noteq> Eff_Partial \<Longrightarrow> tf_recordedEffect f \<noteq> Eff_Uncertain \<Longrightarrow>
        tf_recordedEffect f \<le> Eff_Completed"
      by (cases "tf_recordedEffect f") (auto simp: less_eq_effect_certainty_def)
    from eq obtain out where "outcomeFor (ti_command input) (tf_phase f)
         (case ti_effect input of None \<Rightarrow> tf_recordedEffect f | Some e \<Rightarrow> e) = Some out"
      by (auto simp: settleTurn_def Let_def split: option.splits)
    with eq True Active_Turn low show ?thesis
      by (intro settle [of f out]) (auto simp: settleTurn_def Let_def effectOfOutcome_effectOf split: if_splits)
  next
    case False
    with assms Active_Turn cmd obtain to where "phaseTarget (tf_phase f) (ti_command input) = Some to"
      by (auto simp: applyTurnTransition_def Let_def split: option.splits)
    with assms Active_Turn cmd False show ?thesis
      by (intro advance [of f to]) (auto simp: applyTurnTransition_def Let_def phaseTarget_def dest: map_of_SomeD)
  qed
qed

lemmas turn_defs = applyTurnTransition_def settleTurn_def phaseTarget_def TERMINAL_COMMANDS_def observe_def
  createTurnSnapshot_def Let_def

lemma edges_plain: "(Complete, p) \<notin> set (PHASE_EDGES q)" "(Recover, p) \<notin> set (PHASE_EDGES q)"
  by (cases q; simp)+

text \<open>The commands applied since the turn was created or last recovered, newest first.\<close>

definition since_start :: "turn_observation list \<Rightarrow> turn_command list" where
  "since_start obs = takeWhile (\<lambda>c. c \<noteq> Recover) (map to_command (rev obs))"

lemma since_start_snoc:
  "since_start (obs @ [ob]) = (if to_command ob = Recover then [] else to_command ob # since_start obs)"
  by (simp add: since_start_def)

definition behind_model :: "turn_phase \<Rightarrow> bool" where
  "behind_model p \<longleftrightarrow> p \<in> {Handling_Model_Event, Executing_Capability, Evaluating_Completion}"

lemma edge_model: "(c, to) \<in> set (PHASE_EDGES p) \<Longrightarrow> behind_model to \<Longrightarrow>
   c = Begin_Handling_Model_Event \<or> behind_model p"
  by (cases p) (auto simp: behind_model_def)

lemma edge_context: "(c, to) \<in> set (PHASE_EDGES p) \<Longrightarrow> to \<notin> {Created, Orienting} \<Longrightarrow>
   c = Begin_Assembling_Context \<or> p \<notin> {Created, Orienting}"
  by (cases p) auto

text \<open>Where a turn stands tells what it went through since it started.\<close>

lemma turn_run_passed:
  "turn_run obs s \<Longrightarrow>
   (behind_model (tf_phase (fields_of s)) \<longrightarrow> Begin_Handling_Model_Event \<in> set (since_start obs)) \<and>
   (tf_phase (fields_of s) \<notin> {Created, Orienting} \<longrightarrow> Begin_Assembling_Context \<in> set (since_start obs))"
proof (induction rule: turn_run.induct)
  case (turn_start turnId sessionId workspaceId traceId generation)
  then show ?case by (simp add: createTurnSnapshot_def behind_model_def)
next
  case (turn_next obs s input s' ob)
  from turn_next(2) show ?case
  proof (cases rule: apply_cases)
    case (recover f out g)
    then show ?thesis by (simp add: behind_model_def)
  next
    case (settle f out)
    then have "ti_command input \<noteq> Recover" by (auto simp: TERMINAL_COMMANDS_def)
    with settle turn_next(3) show ?thesis by (simp add: since_start_snoc observe_def)
  next
    case (advance f to)
    then have "ti_command input \<noteq> Recover" using edges_plain by metis
    with advance turn_next(3) edge_model [OF advance(2)] edge_context [OF advance(2)] show ?thesis
      by (auto simp: since_start_snoc observe_def)
  qed
qed

section \<open>Properties\<close>

text \<open>
  C25. What a turn has done to the world is never forgotten: whichever command is applied, with
  whatever effect the caller claims, the effect recorded in the next snapshot is at least the one
  recorded before, through settlement and through recovery into a new generation; and every step
  advances the observation order by exactly one and keeps the identity of the turn.
\<close>

theorem turn_effect_never_shrinks:
  assumes "applyTurnTransition input s = Transitioned s' ob"
  shows "tf_recordedEffect (fields_of s) \<le> tf_recordedEffect (fields_of s') \<and>
    tf_observationOrder (fields_of s') = tf_observationOrder (fields_of s) + 1 \<and>
    tf_turnId (fields_of s') = tf_turnId (fields_of s) \<and>
    tf_sessionId (fields_of s') = tf_sessionId (fields_of s) \<and>
    tf_workspaceId (fields_of s') = tf_workspaceId (fields_of s) \<and>
    tf_traceId (fields_of s') = tf_traceId (fields_of s) \<and>
    to_order ob = tf_observationOrder (fields_of s') \<and> to_from ob = tf_phase (fields_of s) \<and>
    to_to ob = tf_phase (fields_of s') \<and> to_command ob = ti_command input \<and>
    to_runtimeGeneration ob = tf_runtimeGeneration (fields_of s')"
  using assms
proof (cases rule: apply_cases)
  case (settle f out)
  have "out = Completed \<Longrightarrow> ti_command input = Complete"
    using settle(3) by (cases "ti_command input") (auto split: if_splits)
  with settle show ?thesis by (auto simp: observe_def)
qed (simp_all add: observe_def)

definition sample_turn :: turn_snapshot where
  "sample_turn = createTurnSnapshot ''t'' ''s'' ''w'' ''x'' 0"

definition command_only :: "turn_command \<Rightarrow> effect_certainty option \<Rightarrow> turn_input" where
  "command_only command effect = \<lparr>ti_command = command, ti_configurationGeneration = 0,
     ti_causationEventId = None, ti_effect = effect, ti_recoveryGeneration = Some 1\<rparr>"

text \<open>A turn taken through a list of commands; \<open>None\<close> when one is rejected.\<close>

fun drive :: "turn_snapshot \<Rightarrow> (turn_command \<times> effect_certainty option) list \<Rightarrow> turn_snapshot option" where
  "drive s [] = Some s"
| "drive s ((command, effect) # rest) =
     (case applyTurnTransition (command_only command effect) s of
        Transitioned s' _ \<Rightarrow> drive s' rest
      | Rejected_Turn _ \<Rightarrow> None)"

definition to_execution :: "(turn_command \<times> effect_certainty option) list" where
  "to_execution = [(Begin_Orienting, None), (Begin_Assembling_Context, None), (Begin_Awaiting_Model, None),
     (Begin_Handling_Model_Event, None), (Begin_Executing_Capability, Some Eff_Partial)]"

theorem turn_effect_never_shrinks_witness:
  "\<exists>s' ob. applyTurnTransition (command_only Begin_Orienting (Some Eff_Partial)) sample_turn = Transitioned s' ob \<and>
     tf_recordedEffect (fields_of sample_turn) \<le> tf_recordedEffect (fields_of s')"
proof -
  obtain s' ob where
    ap: "applyTurnTransition (command_only Begin_Orienting (Some Eff_Partial)) sample_turn = Transitioned s' ob"
    by (simp add: turn_defs sample_turn_def command_only_def)
  with turn_effect_never_shrinks [OF ap] show ?thesis by blast
qed

text \<open>
  Which commands are accepted, exactly. On an active turn: the edges of the phase diagram,
  and failing, cancelling, timing out and marking uncertain from every phase, and completing only
  from \<open>evaluating-completion\<close> with no partial or uncertain effect recorded. On a terminal turn:
  only recovery, under a generation that is given and differs from the one it ran under.
  Everything else is rejected.
\<close>

theorem turn_accepts_exactly:
  "(\<exists>s' ob. applyTurnTransition input s = Transitioned s' ob) \<longleftrightarrow>
   (case s of
      Terminal_Turn f _ \<Rightarrow>
        ti_command input = Recover \<and>
        ti_recoveryGeneration input \<notin> {None, Some (tf_runtimeGeneration f)}
    | Active_Turn f \<Rightarrow>
        ti_command input \<in> fst ` set (PHASE_EDGES (tf_phase f)) \<or>
        ti_command input \<in> {Fail, Cancel, Time_Out, Mark_Uncertain} \<or>
        ti_command input = Complete \<and> tf_phase f = Evaluating_Completion \<and>
        tf_recordedEffect f \<notin> {Eff_Partial, Eff_Uncertain})"
proof (cases s)
  case (Terminal_Turn f out)
  then show ?thesis
    by (cases "ti_command input = Recover")
      (auto simp: turn_defs split: option.splits)
next
  case (Active_Turn f)
  show ?thesis
  proof (cases "ti_command input \<in> set TERMINAL_COMMANDS \<or> ti_command input = Recover")
    case True
    then consider "ti_command input = Complete" | "ti_command input = Fail" | "ti_command input = Cancel"
      | "ti_command input = Time_Out" | "ti_command input = Mark_Uncertain" | "ti_command input = Recover"
      by (auto simp: TERMINAL_COMMANDS_def)
    then show ?thesis
      by cases (auto simp: turn_defs Active_Turn edges_plain)
  next
    case False
    have "map_of (PHASE_EDGES (tf_phase f)) (ti_command input) = None \<longleftrightarrow>
        ti_command input \<notin> fst ` set (PHASE_EDGES (tf_phase f))"
      by (rule map_of_eq_None_iff)
    with False show ?thesis
      by (auto simp: turn_defs Active_Turn split: option.splits)
  qed
qed

text \<open>
  C26. No turn completes without having been through the model. In every history, recoveries
  included, a turn that ended as completed had assembled its context and handled a model event
  since it was created or last recovered, was evaluating completion, and had no unresolved
  partial or uncertain effect.
\<close>

theorem completed_turn_went_through_the_model:
  assumes "turn_run obs s" and "applyTurnTransition input s = Transitioned (Terminal_Turn f Completed) ob"
  shows "Begin_Handling_Model_Event \<in> set (since_start obs) \<and>
    Begin_Assembling_Context \<in> set (since_start obs) \<and>
    tf_phase (fields_of s) = Evaluating_Completion \<and>
    tf_recordedEffect (fields_of s) \<in> {Eff_None, Eff_Completed} \<and> tf_recordedEffect f = Eff_Completed"
  using assms(2)
proof (cases rule: apply_cases)
  case (settle g out)
  then have "out = Completed" by simp
  with settle(3) have "ti_command input = Complete"
    by (cases "ti_command input") (auto split: if_splits)
  with settle(4) have ph: "tf_phase g = Evaluating_Completion" "tf_recordedEffect g \<le> Eff_Completed" by auto
  then have "tf_recordedEffect g \<in> {Eff_None, Eff_Completed}"
    by (cases "tf_recordedEffect g") (auto simp: less_eq_effect_certainty_def)
  with settle ph \<open>out = Completed\<close> turn_run_passed [OF assms(1)] show ?thesis by (auto simp: behind_model_def)
qed simp_all

text \<open>The shortest history that completes.\<close>

definition plain_history :: "turn_command list" where
  "plain_history = [Begin_Orienting, Begin_Assembling_Context, Begin_Awaiting_Model,
     Begin_Handling_Model_Event, Begin_Evaluating_Completion]"

fun history :: "turn_snapshot \<Rightarrow> turn_command list \<Rightarrow> (turn_observation list \<times> turn_snapshot) option" where
  "history s [] = Some ([], s)"
| "history s (command # rest) =
     (case applyTurnTransition (command_only command None) s of
        Transitioned s' ob \<Rightarrow> map_option (\<lambda>(obs, s''). (ob # obs, s'')) (history s' rest)
      | Rejected_Turn _ \<Rightarrow> None)"

lemma history_run: "turn_run obs s \<Longrightarrow> history s cs = Some (obs', s') \<Longrightarrow> turn_run (obs @ obs') s'"
proof (induction cs arbitrary: obs s obs')
  case (Cons c cs)
  then obtain s1 ob obs1 where step: "applyTurnTransition (command_only c None) s = Transitioned s1 ob"
    "history s1 cs = Some (obs1, s')" "obs' = ob # obs1"
    by (auto split: turn_transition_result.splits)
  from Cons.IH [OF turn_next [OF Cons.prems(1) step(1)] step(2)] step(3) show ?case by simp
qed simp

theorem completed_turn_went_through_the_model_witness:
  "\<exists>obs s f ob. history sample_turn plain_history = Some (obs, s) \<and>
     applyTurnTransition (command_only Complete None) s = Transitioned (Terminal_Turn f Completed) ob \<and>
     Begin_Handling_Model_Event \<in> set (since_start obs)"
proof -
  obtain obs s where run: "history sample_turn plain_history = Some (obs, s)"
    "tf_phase (fields_of s) = Evaluating_Completion" "\<exists>f. s = Active_Turn f" "tf_recordedEffect (fields_of s) = Eff_None"
    by (simp add: plain_history_def sample_turn_def command_only_def turn_defs mergeEffect_def)
  then have "turn_run obs s"
    using history_run [of "[]" sample_turn plain_history obs s] turn_start by (simp add: sample_turn_def)
  moreover from run obtain f ob where
    "applyTurnTransition (command_only Complete None) s = Transitioned (Terminal_Turn f Completed) ob"
    by (auto simp: turn_defs command_only_def)
  ultimately show ?thesis using completed_turn_went_through_the_model [of obs s] run by blast
qed

text \<open>
  A cancellation tells the truth about a mutation in flight: cancelling while a capability
  executes settles as uncertain, with an uncertain effect recorded, whatever effect the caller
  claims; cancelling from any other phase settles as cancelled with the effect the caller claims
  or, if none, the recorded one.
\<close>

theorem cancel_reports_mutation_in_flight:
  assumes "ti_command input = Cancel"
  shows "\<exists>f' ob. applyTurnTransition input (Active_Turn f) =
      Transitioned (Terminal_Turn f'
        (if tf_phase f = Executing_Capability then Uncertain
         else Cancelled (case ti_effect input of None \<Rightarrow> tf_recordedEffect f | Some e \<Rightarrow> e))) ob \<and>
      (tf_phase f = Executing_Capability \<longrightarrow> tf_recordedEffect f' = Eff_Uncertain)"
  using assms
  by (auto simp: turn_defs mergeEffect_def split: option.splits) (cases "tf_recordedEffect f"; simp)+

theorem cancel_reports_mutation_in_flight_witness:
  "\<exists>f. drive sample_turn to_execution = Some (Active_Turn f) \<and> tf_phase f = Executing_Capability \<and>
     (\<exists>f' ob. applyTurnTransition (command_only Cancel (Some Eff_None)) (Active_Turn f) =
        Transitioned (Terminal_Turn f' Uncertain) ob)"
proof -
  obtain f where "drive sample_turn to_execution = Some (Active_Turn f)" "tf_phase f = Executing_Capability"
    by (simp add: to_execution_def sample_turn_def command_only_def turn_defs mergeEffect_def)
  moreover from this cancel_reports_mutation_in_flight [of "command_only Cancel (Some Eff_None)" f]
  have "\<exists>f' ob. applyTurnTransition (command_only Cancel (Some Eff_None)) (Active_Turn f) =
      Transitioned (Terminal_Turn f' Uncertain) ob"
    by (auto simp: command_only_def)
  ultimately show ?thesis by blast
qed

text \<open>
  \<open>legalTurnCommands\<close> omits nothing that is accepted, but it lists \<open>complete\<close> for a turn whose
  recorded effect makes \<open>applyTurnTransition\<close> refuse it.
\<close>

theorem legal_commands_overstate_completion:
  "(\<forall>input s s' ob. applyTurnTransition input s = Transitioned s' ob \<longrightarrow>
      ti_command input \<in> set (legalTurnCommands s)) \<and>
   (\<exists>s. drive sample_turn (to_execution @ [(Begin_Evaluating_Completion, None)]) = Some s \<and>
      Complete \<in> set (legalTurnCommands s) \<and>
      (\<forall>input. ti_command input = Complete \<longrightarrow>
         (\<exists>e. applyTurnTransition input s = Rejected_Turn e)))"
proof
  show "\<forall>input s s' ob. applyTurnTransition input s = Transitioned s' ob \<longrightarrow>
      ti_command input \<in> set (legalTurnCommands s)"
  proof (intro allI impI)
    fix input s s' ob
    assume "applyTurnTransition input s = Transitioned s' ob"
    then show "ti_command input \<in> set (legalTurnCommands s)"
      by (cases rule: apply_cases) (auto simp: TERMINAL_COMMANDS_def Let_def image_iff split: if_splits, force)
  qed
  show "\<exists>s. drive sample_turn (to_execution @ [(Begin_Evaluating_Completion, None)]) = Some s \<and>
      Complete \<in> set (legalTurnCommands s) \<and>
      (\<forall>input. ti_command input = Complete \<longrightarrow> (\<exists>e. applyTurnTransition input s = Rejected_Turn e))"
    by (simp add: to_execution_def sample_turn_def command_only_def turn_defs mergeEffect_def)
qed

theorem legal_commands_overstate_completion_witness:
  "Begin_Orienting \<in> set (legalTurnCommands sample_turn) \<and>
   (\<exists>s' ob. applyTurnTransition (command_only Begin_Orienting None) sample_turn = Transitioned s' ob)"
proof -
  obtain s' ob where ap: "applyTurnTransition (command_only Begin_Orienting None) sample_turn = Transitioned s' ob"
    by (simp add: sample_turn_def command_only_def turn_defs)
  then have "ti_command (command_only Begin_Orienting None) \<in> set (legalTurnCommands sample_turn)"
    using legal_commands_overstate_completion by blast
  with ap show ?thesis by (simp add: command_only_def)
qed

text \<open>
  The outcome a turn settles with can claim less than the turn recorded: a caller that fails
  a turn and claims no effect gets a failure without effect, which asks for no inspection, although
  the snapshot it carries records a partial one.
\<close>

theorem failed_outcome_can_understate_effect:
  "\<exists>f f' ob. drive sample_turn to_execution = Some (Active_Turn f) \<and>
     applyTurnTransition (command_only Fail (Some Eff_None)) (Active_Turn f) =
       Transitioned (Terminal_Turn f' (Failed Eff_None)) ob \<and>
     \<not> requiresInspection (Failed Eff_None) \<and> tf_recordedEffect f' = Eff_Partial"
  by (simp add: to_execution_def sample_turn_def command_only_def turn_defs mergeEffect_def requiresInspection_def)

end
