(* ===== verification/Js_Text.thy ===== *)
theory Js_Text
  imports Prelude "HOL-Library.Word"
begin

text \<open>
  JavaScript strings as sequences of UTF-16 code units, and the methods of \<open>String\<close> the sources
  use on free text: \<open>length\<close>, \<open>trim\<close>, \<open>split\<close> and \<open>join\<close> on a single separator. \<open>ascii\<close> embeds the
  literals of the sources.
\<close>

type_synonym code_unit = "16 word"
type_synonym js_text = "code_unit list"

definition ascii :: "string \<Rightarrow> js_text" where
  "ascii s = map (\<lambda>c. word_of_nat (of_char c)) s"

text \<open>\<open>WhiteSpace\<close> and \<open>LineTerminator\<close> of the language definition, which is what \<open>trim\<close> removes.\<close>

definition is_js_space :: "code_unit \<Rightarrow> bool" where
  "is_js_space u \<longleftrightarrow>
     (let n = unat u in
        9 \<le> n \<and> n \<le> 13 \<or> n = 32 \<or> n = 160 \<or> n = 5760 \<or> 8192 \<le> n \<and> n \<le> 8202 \<or>
        n = 8232 \<or> n = 8233 \<or> n = 8239 \<or> n = 8287 \<or> n = 12288 \<or> n = 65279)"

definition trim :: "js_text \<Rightarrow> js_text" where
  "trim s = rev (dropWhile is_js_space (rev (dropWhile is_js_space s)))"

text \<open>\<open>split(sep)\<close> on a one-unit separator: always at least one piece. \<open>join\<close> puts them back.\<close>

fun split_on :: "'a \<Rightarrow> 'a list \<Rightarrow> 'a list list" where
  "split_on sep [] = [[]]"
| "split_on sep (x # xs) =
     (if x = sep then [] # split_on sep xs
      else case split_on sep xs of [] \<Rightarrow> [[x]] | p # ps \<Rightarrow> (x # p) # ps)"

fun join_with :: "'a \<Rightarrow> 'a list list \<Rightarrow> 'a list" where
  "join_with sep [] = []"
| "join_with sep [p] = p"
| "join_with sep (p # q # ps) = p @ sep # join_with sep (q # ps)"

section \<open>Lemmas\<close>

lemma trim_empty_iff: "trim s = [] \<longleftrightarrow> (\<forall>u \<in> set s. is_js_space u)"
proof
  assume "trim s = []"
  then have all: "\<forall>u \<in> set (dropWhile is_js_space s). is_js_space u"
    by (simp add: trim_def dropWhile_eq_Nil_conv)
  have "dropWhile is_js_space s = []"
  proof (rule ccontr)
    assume ne: "dropWhile is_js_space s \<noteq> []"
    from hd_dropWhile [OF ne] all ne show False by simp
  qed
  then show "\<forall>u \<in> set s. is_js_space u" by (simp add: dropWhile_eq_Nil_conv)
next
  assume "\<forall>u \<in> set s. is_js_space u"
  then have "dropWhile is_js_space s = []" by (simp add: dropWhile_eq_Nil_conv)
  then show "trim s = []" unfolding trim_def by (simp only: rev.simps dropWhile.simps)
qed

lemma split_on_nonempty [simp]: "split_on sep xs \<noteq> []"
  by (induction xs) (auto split: list.split)

lemma join_split [simp]: "join_with sep (split_on sep xs) = xs"
proof (induction xs)
  case (Cons x xs)
  then show ?case
    by (cases "split_on sep xs" rule: list.exhaust; cases "tl (split_on sep xs)") auto
qed simp

lemma split_pieces_clean: "p \<in> set (split_on sep xs) \<Longrightarrow> sep \<notin> set p"
  by (induction xs arbitrary: p) (auto split: list.splits if_splits)

lemma split_on_clean: "sep \<notin> set p \<Longrightarrow> split_on sep p = [p]"
  by (induction p) auto

lemma split_on_append: "sep \<notin> set p \<Longrightarrow> split_on sep (p @ sep # xs) = p # split_on sep xs"
  by (induction p) auto

lemma split_join: "ps \<noteq> [] \<Longrightarrow> (\<forall>p \<in> set ps. sep \<notin> set p) \<Longrightarrow> split_on sep (join_with sep ps) = ps"
  by (induction sep ps rule: join_with.induct) (simp_all add: split_on_clean split_on_append)

end
