(* ===== verification/Work_Units.thy ===== *)
theory Work_Units
  imports Foundation Js_Text
begin

text \<open>
  Work units and conflict keys (\<^verbatim>\<open>src/domain/orchestration/work.ts\<close>). Keys and their targets are
  sequences of code units. \<open>toLowerCase\<close> of the language is the argument \<open>lower\<close> of \<open>conflictKey\<close>:
  nothing here depends on what it answers.
\<close>

section \<open>Definitions\<close>

datatype effect_class = Observation | Mutation | External | Interactive_Effect

datatype priority_class = Interactive | Active_Turn_Priority | User_Visible_Background | Maintenance

definition EFFECT_CLASSES :: "string list" where
  "EFFECT_CLASSES = [''observation'', ''mutation'', ''external'', ''interactive'']"

definition PRIORITY_CLASSES :: "string list" where
  "PRIORITY_CLASSES = [''interactive'', ''active-turn'', ''user-visible-background'', ''maintenance'']"

fun priorityRank :: "priority_class \<Rightarrow> nat" where
  "priorityRank Interactive = 0"
| "priorityRank Active_Turn_Priority = 1"
| "priorityRank User_Visible_Background = 2"
| "priorityRank Maintenance = 3"

fun isPriorityClass :: "js_value \<Rightarrow> bool" where
  "isPriorityClass (JStr s) \<longleftrightarrow> s \<in> set PRIORITY_CLASSES"
| "isPriorityClass _ \<longleftrightarrow> False"

fun isEffectClass :: "js_value \<Rightarrow> bool" where
  "isEffectClass (JStr s) \<longleftrightarrow> s \<in> set EFFECT_CLASSES"
| "isEffectClass _ \<longleftrightarrow> False"

type_synonym conflict_key = js_text

record retry_policy =
  rp_maxAttempts :: int
  rp_retryable :: bool

definition NO_RETRY :: retry_policy where
  "NO_RETRY = \<lparr>rp_maxAttempts = 1, rp_retryable = False\<rparr>"

record work_unit =
  wu_id :: string
  wu_effect :: effect_class
  wu_priority :: priority_class
  wu_conflictKeys :: "conflict_key list"
  wu_dependencies :: "string list"
  wu_deadline :: "deadline option"
  wu_expectedOutputBytes :: int
  wu_retry :: retry_policy
  wu_scopeId :: "string option"

datatype work_unit_error_code = Unit_Identifier_Empty | Unit_Identifier_Too_Long

definition MAX_WORK_IDENTIFIER_LENGTH :: nat where "MAX_WORK_IDENTIFIER_LENGTH = 512"

fun parseWorkUnitId :: "js_value \<Rightarrow> (string, work_unit_error_code) result" where
  "parseWorkUnitId (JStr s) =
     (if length s = 0 then Err Unit_Identifier_Empty
      else if length s > MAX_WORK_IDENTIFIER_LENGTH then Err Unit_Identifier_Too_Long
      else Ok s)"
| "parseWorkUnitId _ = Err Unit_Identifier_Empty"

text \<open>\<open>workUnitId\<close> throws where \<open>parseWorkUnitId\<close> refuses.\<close>

definition workUnitId :: "string \<Rightarrow> work_unit_error_code + string" where
  "workUnitId s = (case parseWorkUnitId (JStr s) of Ok v \<Rightarrow> Inr v | Err e \<Rightarrow> Inl e)"

abbreviation slash :: code_unit where "slash \<equiv> 47"
abbreviation backslash :: code_unit where "backslash \<equiv> 92"
abbreviation dot :: code_unit where "dot \<equiv> 46"
abbreviation colon :: code_unit where "colon \<equiv> 58"

text \<open>\<open>replace(/\/{2,}/g, "/")\<close>.\<close>

fun collapse_slashes :: "js_text \<Rightarrow> js_text" where
  "collapse_slashes (a # b # s) =
     (if a = slash \<and> b = slash then collapse_slashes (b # s) else a # collapse_slashes (b # s))"
| "collapse_slashes s = s"

fun push_segment :: "js_text list \<Rightarrow> js_text \<Rightarrow> js_text list" where
  "push_segment segments segment =
     (if segment = [] \<or> segment = [dot] then segments
      else if segment = [dot, dot] then (if segments \<noteq> [] then butlast segments else segments)
      else segments @ [segment])"

definition normalizeTarget :: "js_text \<Rightarrow> js_text" where
  "normalizeTarget target =
     (let collapsed = collapse_slashes (map (\<lambda>u. if u = backslash then slash else u) (trim target));
          absolute = (case collapsed of [] \<Rightarrow> False | u # _ \<Rightarrow> u = slash);
          segments = foldl push_segment [] (split_on slash collapsed);
          joined = join_with slash segments
      in if absolute then slash # joined else joined)"

definition conflictKey :: "(js_text \<Rightarrow> js_text) \<Rightarrow> js_text \<Rightarrow> js_text \<Rightarrow> conflict_key" where
  "conflictKey lower kind target =
     (let family = lower (trim kind); normalized = normalizeTarget target in family @ colon # normalized)"

definition GLOBAL_CONFLICT_KEY :: conflict_key where
  "GLOBAL_CONFLICT_KEY = ascii ''global:*''"

definition effectiveConflictKeys :: "work_unit \<Rightarrow> conflict_key list" where
  "effectiveConflictKeys unit =
     (if length (wu_conflictKeys unit) > 0 then wu_conflictKeys unit
      else if wu_effect unit = Observation then [] else [GLOBAL_CONFLICT_KEY])"

definition isFreelyParallel :: "work_unit \<Rightarrow> bool" where
  "isFreelyParallel unit \<longleftrightarrow> length (effectiveConflictKeys unit) = 0"

section \<open>What a target means\<close>

text \<open>
  The path a target names, resolved segment by segment: whether it is absolute, and its segments
  with \<open>.\<close> and empty ones left out and \<open>..\<close> removing the one before, clamped at the root.
\<close>

definition slashed :: "js_text \<Rightarrow> js_text" where
  "slashed target = map (\<lambda>u. if u = backslash then slash else u) (trim target)"

definition is_absolute :: "js_text \<Rightarrow> bool" where
  "is_absolute target \<longleftrightarrow> (\<exists>rest. slashed target = slash # rest)"

definition resolved :: "js_text \<Rightarrow> js_text list" where
  "resolved target = foldl push_segment [] (split_on slash (slashed target))"

section \<open>Lemmas\<close>

lemma split_on_Cons:
  "split_on sep (x # xs) =
     (if x = sep then [] # split_on sep xs else (x # hd (split_on sep xs)) # tl (split_on sep xs))"
  using split_on_nonempty [of sep xs] by (auto split: list.split)

lemma split_sep: "split_on sep (sep # xs) = [] # split_on sep xs"
  by simp

lemma split_other: "x \<noteq> sep \<Longrightarrow> split_on sep (x # xs) = (x # hd (split_on sep xs)) # tl (split_on sep xs)"
  by (simp add: split_on_Cons del: split_on.simps)

text \<open>Collapsing runs of slashes only removes empty segments, and never the first.\<close>

lemma collapse_pieces:
  "hd (split_on slash (collapse_slashes s)) = hd (split_on slash s) \<and>
   filter (\<lambda>p. p \<noteq> []) (tl (split_on slash (collapse_slashes s))) = filter (\<lambda>p. p \<noteq> []) (tl (split_on slash s))"
proof (induction s rule: collapse_slashes.induct)
  case (1 a b s)
  have expand: "filter (\<lambda>p. p \<noteq> []) (split_on slash t) =
      (if hd (split_on slash t) = [] then [] else [hd (split_on slash t)]) @
      filter (\<lambda>p. p \<noteq> []) (tl (split_on slash t))" for t
    by (cases "split_on slash t") (use split_on_nonempty [of slash t] in auto)
  show ?case
  proof (cases "a = slash \<and> b = slash")
    case True
    with 1(1) show ?thesis by (simp add: split_on_Cons del: split_on.simps)
  next
    case False
    have tails: "filter (\<lambda>p. p \<noteq> []) (split_on slash (collapse_slashes (b # s))) =
        filter (\<lambda>p. p \<noteq> []) (split_on slash (b # s))"
      using 1(2) [OF False] expand [of "b # s"] expand [of "collapse_slashes (b # s)"] by metis
    have eq: "collapse_slashes (a # b # s) = a # collapse_slashes (b # s)" using False by simp
    show ?thesis
    proof (cases "a = slash")
      case True
      with 1(2) [OF False] tails eq show ?thesis by (simp only: split_sep list.sel simp_thms)
    next
      case other: False
      with 1(2) [OF False] eq show ?thesis by (simp only: split_other [OF other] list.sel simp_thms)
    qed
  qed
qed simp_all

lemma push_skips_empty: "foldl push_segment acc ps = foldl push_segment acc (filter (\<lambda>p. p \<noteq> []) ps)"
  by (induction ps arbitrary: acc) auto

lemma fold_segments_collapse:
  "foldl push_segment [] (split_on slash (collapse_slashes s)) = foldl push_segment [] (split_on slash s)"
proof -
  have "filter (\<lambda>p. p \<noteq> []) (split_on slash (collapse_slashes s)) = filter (\<lambda>p. p \<noteq> []) (split_on slash s)"
    using collapse_pieces [of s] split_on_nonempty [of slash s] split_on_nonempty [of slash "collapse_slashes s"]
    by (cases "split_on slash s"; cases "split_on slash (collapse_slashes s)") auto
  then show ?thesis by (metis push_skips_empty)
qed

lemma collapse_head: "(\<exists>rest. collapse_slashes s = slash # rest) \<longleftrightarrow> (\<exists>rest. s = slash # rest)"
  by (induction s rule: collapse_slashes.induct) auto

text \<open>The resolved segments are proper names: not empty, without slash, neither \<open>.\<close> nor \<open>..\<close>.\<close>

definition proper :: "js_text list \<Rightarrow> bool" where
  "proper ps \<longleftrightarrow> (\<forall>p \<in> set ps. p \<noteq> [] \<and> slash \<notin> set p \<and> p \<noteq> [dot] \<and> p \<noteq> [dot, dot])"

lemma proper_push: "proper ps \<Longrightarrow> slash \<notin> set p \<Longrightarrow> proper (push_segment ps p)"
  by (auto simp: proper_def dest: in_set_butlastD)

lemma proper_fold: "proper ps \<Longrightarrow> \<forall>p \<in> set qs. slash \<notin> set p \<Longrightarrow> proper (foldl push_segment ps qs)"
proof (induction qs arbitrary: ps)
  case (Cons q qs)
  then show ?case using proper_push [of ps q] by (simp del: push_segment.simps)
qed simp

lemma proper_resolved: "proper (resolved target)"
  unfolding resolved_def
  by (rule proper_fold) (auto simp: proper_def dest: split_pieces_clean)

lemma normalize_resolved:
  "normalizeTarget target =
     (if is_absolute target then [slash] else []) @ join_with slash (resolved target)"
proof -
  have "(case collapse_slashes (slashed target) of [] \<Rightarrow> False | u # _ \<Rightarrow> u = slash) \<longleftrightarrow> is_absolute target"
    using collapse_head [of "slashed target"] by (auto simp: is_absolute_def split: list.split)
  then show ?thesis
    by (simp add: normalizeTarget_def Let_def resolved_def fold_segments_collapse slashed_def [symmetric])
qed

lemma join_proper_head:
  assumes "proper ps"
  shows "join_with slash ps \<noteq> slash # rest"
proof (cases ps)
  case (Cons p qs)
  then obtain u p' where "p = u # p'" "u \<noteq> slash"
    using assms(1) by (cases p) (auto simp: proper_def)
  with Cons show ?thesis by (cases qs) auto
qed simp

lemma join_proper_inj:
  assumes "proper ps" "proper qs" "join_with slash ps = join_with slash qs"
  shows "ps = qs"
proof -
  have empty: "join_with slash rs = [] \<longleftrightarrow> rs = []" if "proper rs" for rs
  proof (cases rs)
    case (Cons p qs)
    with that have "p \<noteq> []" by (simp add: proper_def)
    with Cons show ?thesis by (cases qs) simp_all
  qed simp
  show ?thesis
  proof (cases "ps = [] \<or> qs = []")
    case True
    then show ?thesis using empty [OF assms(1)] empty [OF assms(2)] assms(3) by auto
  next
    case False
    then have "split_on slash (join_with slash ps) = ps" "split_on slash (join_with slash qs) = qs"
      using assms(1,2) by (auto simp: proper_def intro!: split_join)
    with assms(3) show ?thesis by metis
  qed
qed

section \<open>Properties\<close>

text \<open>
  C40. Two targets of one family get the same conflict key exactly when they name the same path:
  both absolute or both relative, with the same segments once backslashes are read as slashes,
  surrounding blanks, empty and \<open>.\<close> segments are dropped and \<open>..\<close> is resolved (clamped at the
  root). So every spelling of a path is one lock, and two different paths never share one.
\<close>

theorem conflict_key_identifies_paths:
  "conflictKey lower kind target = conflictKey lower kind target' \<longleftrightarrow>
     is_absolute target = is_absolute target' \<and> resolved target = resolved target'"
proof -
  have "normalizeTarget target = normalizeTarget target' \<longleftrightarrow>
      is_absolute target = is_absolute target' \<and> resolved target = resolved target'"
    using join_proper_inj [OF proper_resolved [of target] proper_resolved [of target']]
      join_proper_head [OF proper_resolved [of target]] join_proper_head [OF proper_resolved [of target'], symmetric]
    by (cases "is_absolute target"; cases "is_absolute target'") (auto simp: normalize_resolved)
  then show ?thesis by (simp add: conflictKey_def)
qed

text \<open>
  A unit takes no lock exactly when it is an observation that declares none; two units that declare
  no key and may change something share the global key.
\<close>

lemma freely_parallel_iff: "isFreelyParallel unit \<longleftrightarrow> wu_conflictKeys unit = [] \<and> wu_effect unit = Observation"
  by (auto simp: isFreelyParallel_def effectiveConflictKeys_def)

lemma global_key_shared:
  "wu_conflictKeys u = [] \<Longrightarrow> wu_effect u \<noteq> Observation \<Longrightarrow> effectiveConflictKeys u = [GLOBAL_CONFLICT_KEY]"
  by (simp add: effectiveConflictKeys_def)

end
