(* ===== verification/Attempt_Policy.thy ===== *)
theory Attempt_Policy
  imports Complex_Main Turn_Machine Work_Units
begin

text \<open>
  Retry decisions (\<^verbatim>\<open>src/domain/sessions/retry.ts\<close>), the classification of a model attempt and the
  action that follows it (\<^verbatim>\<open>src/domain/sessions/attempt-policy.ts\<close>), and the mappings of
  \<^verbatim>\<open>src/application/runtime/turn-attempt-policy.ts\<close> between provider failures, attempts and turn
  commands. Delays and ratios are rationals: the arithmetic is exact where the code's is in
  double precision. An attempt's error carries the two fields the decision reads.
\<close>

section \<open>Retry (retry.ts)\<close>

datatype retry_refusal =
    Not_Retryable | Effect_Not_Observed | Not_Idempotent | Attempts_Exhausted
  | Elapsed_Budget_Exhausted | Retry_Cancelled

datatype retry_decision = Retry int int | Do_Not_Retry retry_refusal

record retry_backoff =
  rb_baseDelayMs :: rat
  rb_maxDelayMs :: rat
  rb_jitterRatio :: rat

definition DEFAULT_RETRY_BACKOFF :: retry_backoff where
  "DEFAULT_RETRY_BACKOFF = \<lparr>rb_baseDelayMs = 100, rb_maxDelayMs = 30000, rb_jitterRatio = 1 / 4\<rparr>"

record retry_request =
  rq_error_retryable :: bool
  rq_error_effect :: effect_certainty
  rq_policy :: retry_policy
  rq_attemptsMade :: int
  rq_elapsedMs :: rat
  rq_elapsedBudgetMs :: "rat option"
  rq_idempotent :: bool
  rq_cancelled :: bool
  rq_backoff :: "retry_backoff option"
  rq_jitter :: "rat option"

definition backoffDelayMs :: "int \<Rightarrow> retry_backoff \<Rightarrow> rat \<Rightarrow> int" where
  "backoffDelayMs attempt backoff jitter =
     (let exponential = rb_baseDelayMs backoff * 2 ^ nat (max 0 (attempt - 1));
          capped = min exponential (rb_maxDelayMs backoff);
          spread = \<lfloor>capped * rb_jitterRatio backoff * min (max jitter 0) 1\<rfloor>
      in max 0 (\<lfloor>capped\<rfloor> + spread))"

definition evaluateRetry :: "retry_request \<Rightarrow> retry_decision" where
  "evaluateRetry request =
     (if rq_cancelled request then Do_Not_Retry Retry_Cancelled
      else if \<not> rq_error_retryable request \<or> \<not> rp_retryable (rq_policy request)
      then Do_Not_Retry Not_Retryable
      else if rq_error_effect request = Eff_Uncertain \<or> rq_error_effect request = Eff_Partial
      then Do_Not_Retry Effect_Not_Observed
      else if \<not> rq_idempotent request \<and> rq_error_effect request \<noteq> Eff_None
      then Do_Not_Retry Not_Idempotent
      else if rq_attemptsMade request \<ge> rp_maxAttempts (rq_policy request)
      then Do_Not_Retry Attempts_Exhausted
      else if (case rq_elapsedBudgetMs request of None \<Rightarrow> False | Some b \<Rightarrow> rq_elapsedMs request \<ge> b)
      then Do_Not_Retry Elapsed_Budget_Exhausted
      else let backoff = (case rq_backoff request of None \<Rightarrow> DEFAULT_RETRY_BACKOFF | Some b \<Rightarrow> b);
               jitter = (case rq_jitter request of None \<Rightarrow> 0 | Some j \<Rightarrow> j)
           in Retry (rq_attemptsMade request + 1) (backoffDelayMs (rq_attemptsMade request) backoff jitter))"

section \<open>Attempts (attempt-policy.ts)\<close>

datatype attempt_failure_category =
    Cat_Transport | Cat_Rate_Limit | Cat_Authentication | Cat_Authorization | Cat_Invalid_Request
  | Cat_Unsupported | Cat_Malformed | Cat_Server | Cat_Adapter | Cat_Safety | Cat_Other

definition REFUSAL_FINISH_REASONS :: "string list" where
  "REFUSAL_FINISH_REASONS = [''refusal'', ''content_filter'', ''safety'']"

definition isRefusalFinishReason :: "string \<Rightarrow> bool" where
  "isRefusalFinishReason v \<longleftrightarrow> v \<in> set REFUSAL_FINISH_REASONS"

datatype refusal_source = From_Model | From_Policy | From_Provider_Safety

datatype attempt_fact =
    Fact_Completed string bool bool
  | Fact_Failed attempt_failure_category bool effect_certainty bool bool string
  | Fact_Partial string effect_certainty bool bool
  | Fact_Cancelled effect_certainty
  | Fact_Timed_Out effect_certainty bool
  | Fact_Refusal refusal_source string effect_certainty
  | Fact_Routing_Refused string string

datatype attempt_classification =
    Class_Completed
  | Class_Refusal refusal_source string effect_certainty
  | Class_Partial string effect_certainty
  | Class_Cancelled effect_certainty
  | Class_Timed_Out effect_certainty
  | Class_Uncertain
  | Class_Failed effect_certainty string
  | Class_May_Retry_Same effect_certainty string
  | Class_May_Fallback effect_certainty string

fun classifyAttempt :: "attempt_fact \<Rightarrow> attempt_classification" where
  "classifyAttempt (Fact_Completed finishReason observedContent emittedToolProposal) =
     (if isRefusalFinishReason finishReason
      then Class_Refusal From_Model finishReason (if observedContent then Eff_Partial else Eff_None)
      else if finishReason = ''length''
      then Class_Partial ''finish-reason-length''
             (if observedContent \<or> emittedToolProposal then Eff_Partial else Eff_None)
      else Class_Completed)"
| "classifyAttempt (Fact_Refusal source reason effect) = Class_Refusal source reason effect"
| "classifyAttempt (Fact_Routing_Refused code detail) = Class_Refusal From_Policy code Eff_None"
| "classifyAttempt (Fact_Partial reason effect _ _) = Class_Partial reason effect"
| "classifyAttempt (Fact_Cancelled effect) = Class_Cancelled effect"
| "classifyAttempt (Fact_Timed_Out effect retryable) =
     (if effect = Eff_Uncertain then Class_Uncertain
      else if retryable \<and> effect = Eff_None
      then Class_May_Retry_Same effect ''attempt timed out before observed output''
      else Class_Timed_Out effect)"
| "classifyAttempt (Fact_Failed category retryable effect observedContent emittedToolProposal message) =
     (if category = Cat_Safety then Class_Refusal From_Provider_Safety message effect
      else if effect = Eff_Uncertain then Class_Uncertain
      else if emittedToolProposal
      then Class_Failed (if effect = Eff_None then Eff_Partial else effect) message
      else if effect = Eff_Partial then Class_Partial message Eff_Partial
      else if retryable \<and> effect = Eff_None then Class_May_Retry_Same Eff_None message
      else if effect = Eff_None then Class_May_Fallback Eff_None message
      else Class_Failed effect message)"

datatype exhaustion = Refused_Retry retry_refusal | Fallback_Exhausted

datatype attempt_action =
    Retry_Same int int
  | Fallback
  | Settle attempt_classification
  | Exhausted exhaustion attempt_classification

fun decideAttemptAction :: "attempt_classification \<Rightarrow> retry_decision option \<Rightarrow> bool \<Rightarrow> attempt_action" where
  "decideAttemptAction (Class_May_Retry_Same effect message) decision fallbackAvailable =
     (case decision of
        Some (Retry attempt delayMs) \<Rightarrow> Retry_Same attempt delayMs
      | _ \<Rightarrow>
          if fallbackAvailable then Fallback
          else Exhausted
                 (case decision of
                    Some (Do_Not_Retry reason) \<Rightarrow> Refused_Retry reason
                  | _ \<Rightarrow> Refused_Retry Attempts_Exhausted)
                 (Class_May_Retry_Same effect message))"
| "decideAttemptAction (Class_May_Fallback effect message) decision fallbackAvailable =
     (if fallbackAvailable then Fallback
      else Exhausted Fallback_Exhausted (Class_May_Fallback effect message))"
| "decideAttemptAction classification decision fallbackAvailable = Settle classification"

text \<open>Partial: a completed attempt or one that may go on has no terminal outcome here.\<close>

fun terminalOutcomeForClassification :: "attempt_classification \<Rightarrow> terminal_outcome option" where
  "terminalOutcomeForClassification (Class_Refusal _ _ effect) = Some (Failed effect)"
| "terminalOutcomeForClassification (Class_Partial _ effect) = Some (Failed effect)"
| "terminalOutcomeForClassification (Class_Failed effect _) = Some (Failed effect)"
| "terminalOutcomeForClassification (Class_Cancelled effect) = Some (Cancelled effect)"
| "terminalOutcomeForClassification (Class_Timed_Out effect) = Some (Timed_Out effect)"
| "terminalOutcomeForClassification Class_Uncertain = Some Uncertain"
| "terminalOutcomeForClassification _ = None"

section \<open>Mappings of the turn policy (turn-attempt-policy.ts)\<close>

datatype provider_failure_kind =
    PF_Network | PF_Authentication | PF_Authorization | PF_Rate_Limit | PF_Invalid_Request
  | PF_Unsupported_Capability | PF_Malformed_Stream | PF_Provider_Safety | PF_Server_Failure
  | PF_Cancellation | PF_Timeout | PF_Adapter_Defect

record provider_failure =
  pf_kind :: provider_failure_kind
  pf_retryable :: bool
  pf_message :: string

fun attemptCategoryForProviderFailure :: "provider_failure_kind \<Rightarrow> attempt_failure_category" where
  "attemptCategoryForProviderFailure PF_Network = Cat_Transport"
| "attemptCategoryForProviderFailure PF_Rate_Limit = Cat_Rate_Limit"
| "attemptCategoryForProviderFailure PF_Authentication = Cat_Authentication"
| "attemptCategoryForProviderFailure PF_Authorization = Cat_Authorization"
| "attemptCategoryForProviderFailure PF_Invalid_Request = Cat_Invalid_Request"
| "attemptCategoryForProviderFailure PF_Unsupported_Capability = Cat_Unsupported"
| "attemptCategoryForProviderFailure PF_Malformed_Stream = Cat_Malformed"
| "attemptCategoryForProviderFailure PF_Provider_Safety = Cat_Safety"
| "attemptCategoryForProviderFailure PF_Server_Failure = Cat_Server"
| "attemptCategoryForProviderFailure PF_Adapter_Defect = Cat_Adapter"
| "attemptCategoryForProviderFailure PF_Cancellation = Cat_Other"
| "attemptCategoryForProviderFailure PF_Timeout = Cat_Other"

definition attemptFactFromProviderFailure ::
  "provider_failure \<Rightarrow> effect_certainty \<Rightarrow> bool \<Rightarrow> bool \<Rightarrow> attempt_fact" where
  "attemptFactFromProviderFailure failure effect observedContent emittedToolProposal =
     (if pf_kind failure = PF_Cancellation then Fact_Cancelled effect
      else if pf_kind failure = PF_Timeout then Fact_Timed_Out effect (pf_retryable failure)
      else if pf_kind failure = PF_Provider_Safety
      then Fact_Refusal From_Provider_Safety (pf_message failure) effect
      else Fact_Failed (attemptCategoryForProviderFailure (pf_kind failure)) (pf_retryable failure) effect
             observedContent emittedToolProposal (pf_message failure))"

definition settleCommandFor :: "attempt_classification \<Rightarrow> (turn_command \<times> effect_certainty) option" where
  "settleCommandFor classification =
     map_option (\<lambda>outcome. case outcome of
         Failed effect \<Rightarrow> (Fail, effect)
       | Cancelled effect \<Rightarrow> (Cancel, effect)
       | Timed_Out effect \<Rightarrow> (Time_Out, effect)
       | Uncertain \<Rightarrow> (Mark_Uncertain, Eff_Uncertain)
       | Completed \<Rightarrow> (Fail, Eff_None))
       (terminalOutcomeForClassification classification)"

fun outcomeForAttemptRecord :: "attempt_classification \<Rightarrow> terminal_outcome" where
  "outcomeForAttemptRecord Class_Completed = Completed"
| "outcomeForAttemptRecord (Class_May_Retry_Same effect _) = Failed effect"
| "outcomeForAttemptRecord (Class_May_Fallback effect _) = Failed effect"
| "outcomeForAttemptRecord classification =
     (case terminalOutcomeForClassification classification of Some outcome \<Rightarrow> outcome | None \<Rightarrow> Completed)"

section \<open>Retries are safe and bounded\<close>

lemma evaluateRetry_Retry:
  "evaluateRetry r = Retry n d \<longleftrightarrow>
     \<not> rq_cancelled r \<and> rq_error_retryable r \<and> rp_retryable (rq_policy r) \<and>
     (rq_error_effect r = Eff_None \<or> rq_error_effect r = Eff_Completed \<and> rq_idempotent r) \<and>
     rq_attemptsMade r < rp_maxAttempts (rq_policy r) \<and>
     (\<forall>b. rq_elapsedBudgetMs r = Some b \<longrightarrow> rq_elapsedMs r < b) \<and>
     n = rq_attemptsMade r + 1 \<and>
     d = backoffDelayMs (rq_attemptsMade r)
           (case rq_backoff r of None \<Rightarrow> DEFAULT_RETRY_BACKOFF | Some b \<Rightarrow> b)
           (case rq_jitter r of None \<Rightarrow> 0 | Some j \<Rightarrow> j)"
proof -
  have eff: "rq_error_effect r = Eff_None \<or> rq_error_effect r = Eff_Completed \<or>
      rq_error_effect r = Eff_Partial \<or> rq_error_effect r = Eff_Uncertain"
    by (cases "rq_error_effect r") auto
  show ?thesis
    using eff by (cases "rq_elapsedBudgetMs r") (auto simp: evaluateRetry_def Let_def not_le)
qed

text \<open>A chain of attempts under one policy, each request counting the attempt the last decision led to.\<close>

inductive retry_chain :: "retry_policy \<Rightarrow> int \<Rightarrow> nat \<Rightarrow> bool" for policy where
  chain_first: "retry_chain policy 1 0"
| chain_retry: "retry_chain policy made retries \<Longrightarrow> rq_policy r = policy \<Longrightarrow> rq_attemptsMade r = made \<Longrightarrow>
    evaluateRetry r = Retry next d \<Longrightarrow> retry_chain policy next (Suc retries)"

lemma retry_chain_count:
  "retry_chain policy made retries \<Longrightarrow>
   made = 1 + int retries \<and> (retries = 0 \<or> int retries < rp_maxAttempts policy)"
  by (induction rule: retry_chain.induct) (auto simp: evaluateRetry_Retry)

section \<open>The size of a delay\<close>

lemma clamp_unit: "0 \<le> min (max j 0) 1" "min (max j 0) (1 :: rat) \<le> 1"
  by auto

lemma backoff_bounds:
  assumes "0 \<le> rb_baseDelayMs b" "0 \<le> rb_maxDelayMs b" "0 \<le> rb_jitterRatio b"
  shows "0 \<le> backoffDelayMs n b j" "of_int (backoffDelayMs n b j) \<le> rb_maxDelayMs b * (1 + rb_jitterRatio b)"
proof -
  define c where "c = min (rb_baseDelayMs b * 2 ^ nat (max 0 (n - 1))) (rb_maxDelayMs b)"
  define s where "s = min (max j 0) (1 :: rat)"
  have c: "0 \<le> c" "c \<le> rb_maxDelayMs b" using assms by (auto simp: c_def)
  have s: "0 \<le> s" "s \<le> 1" using clamp_unit [of j] by (auto simp: s_def)
  have eq: "backoffDelayMs n b j = max 0 (\<lfloor>c\<rfloor> + \<lfloor>c * rb_jitterRatio b * s\<rfloor>)"
    by (simp only: backoffDelayMs_def Let_def c_def s_def)
  show "0 \<le> backoffDelayMs n b j" by (simp add: eq)
  have "c * rb_jitterRatio b * s \<le> c * rb_jitterRatio b"
    using c(1) assms(3) s by (intro mult_left_le) auto
  also have "\<dots> \<le> rb_maxDelayMs b * rb_jitterRatio b" using c(2) assms(3) by (rule mult_right_mono)
  finally have "c * rb_jitterRatio b * s \<le> rb_maxDelayMs b * rb_jitterRatio b" .
  moreover have "of_int \<lfloor>c\<rfloor> \<le> c" "of_int \<lfloor>c * rb_jitterRatio b * s\<rfloor> \<le> c * rb_jitterRatio b * s"
    by (rule of_int_floor_le)+
  ultimately have "of_int (\<lfloor>c\<rfloor> + \<lfloor>c * rb_jitterRatio b * s\<rfloor>) \<le> rb_maxDelayMs b * (1 + rb_jitterRatio b)"
    unfolding of_int_add distrib_left mult_1_right using c(2) by linarith
  moreover have "0 \<le> rb_maxDelayMs b * (1 + rb_jitterRatio b)" using assms by simp
  ultimately show "of_int (backoffDelayMs n b j) \<le> rb_maxDelayMs b * (1 + rb_jitterRatio b)"
    by (simp add: eq max_def)
qed

lemma backoff_mono:
  assumes "0 \<le> rb_baseDelayMs b" "0 \<le> rb_jitterRatio b" "m \<le> n"
  shows "backoffDelayMs m b j \<le> backoffDelayMs n b j"
proof -
  define c where "c k = min (rb_baseDelayMs b * 2 ^ nat (max 0 (k - 1))) (rb_maxDelayMs b)" for k :: int
  define s where "s = min (max j 0) (1 :: rat)"
  have "(2 :: rat) ^ nat (max 0 (m - 1)) \<le> 2 ^ nat (max 0 (n - 1))"
    using assms(3) by (intro power_increasing) auto
  then have "rb_baseDelayMs b * 2 ^ nat (max 0 (m - 1)) \<le> rb_baseDelayMs b * 2 ^ nat (max 0 (n - 1))"
    using assms(1) by (rule mult_left_mono)
  then have "c m \<le> c n" by (auto simp: c_def)
  moreover have "0 \<le> rb_jitterRatio b * s" using assms(2) clamp_unit [of j] by (simp add: s_def)
  ultimately have "c m * (rb_jitterRatio b * s) \<le> c n * (rb_jitterRatio b * s)" by (rule mult_right_mono)
  then have "\<lfloor>c m * rb_jitterRatio b * s\<rfloor> \<le> \<lfloor>c n * rb_jitterRatio b * s\<rfloor>"
    by (intro floor_mono) (simp add: mult.assoc)
  moreover have "\<lfloor>c m\<rfloor> \<le> \<lfloor>c n\<rfloor>" using \<open>c m \<le> c n\<close> by (rule floor_mono)
  moreover have "backoffDelayMs k b j = max 0 (\<lfloor>c k\<rfloor> + \<lfloor>c k * rb_jitterRatio b * s\<rfloor>)" for k
    by (simp only: backoffDelayMs_def Let_def c_def s_def)
  ultimately show ?thesis by (simp only: max.mono add_mono order_refl)
qed

section \<open>What an attempt's facts authorize\<close>

fun fact_effect :: "attempt_fact \<Rightarrow> effect_certainty" where
  "fact_effect (Fact_Completed _ observed emitted) = Eff_None"
| "fact_effect (Fact_Failed _ _ e _ _ _) = e"
| "fact_effect (Fact_Partial _ e _ _) = e"
| "fact_effect (Fact_Cancelled e) = e"
| "fact_effect (Fact_Timed_Out e _) = e"
| "fact_effect (Fact_Refusal _ _ e) = e"
| "fact_effect (Fact_Routing_Refused _ _) = Eff_None"

definition goes_on :: "attempt_action \<Rightarrow> bool" where
  "goes_on a \<longleftrightarrow> a = Fallback \<or> (\<exists>n d. a = Retry_Same n d)"

lemma decide_goes_on:
  "goes_on (decideAttemptAction c decision fb) \<Longrightarrow>
   (\<exists>e m. c = Class_May_Retry_Same e m) \<or> (\<exists>e m. c = Class_May_Fallback e m)"
  by (cases c) (auto simp: goes_on_def)

lemma classify_may_go_on:
  "(\<exists>e m. classifyAttempt f = Class_May_Retry_Same e m) \<or> (\<exists>e m. classifyAttempt f = Class_May_Fallback e m) \<Longrightarrow>
   (\<exists>r. f = Fact_Timed_Out Eff_None r) \<or>
   (\<exists>cat r observed m. f = Fact_Failed cat r Eff_None observed False m \<and> cat \<noteq> Cat_Safety)"
  by (cases f) (auto split: if_splits)

text \<open>The outcome an attempt settles with shows at least what the attempt did.\<close>

lemma outcome_shows_effect:
  "terminalOutcomeForClassification (classifyAttempt f) = Some out \<Longrightarrow> fact_effect f \<le> effectOf out"
  by (cases f) (auto split: if_splits)

section \<open>Properties\<close>

text \<open>
  A retry is granted only when repeating is safe and there is room for it: the operation was
  not cancelled, both the error and the policy allow it, the effect is known to be none, or is
  completed and the operation is idempotent, attempts and time are left. Any chain of retries
  under one policy makes at most the policy's number of attempts, the first one included.
\<close>

theorem retry_is_safe_and_bounded:
  assumes "retry_chain (rq_policy r) (rq_attemptsMade r) retries" and "evaluateRetry r = Retry n d"
  shows "\<not> rq_cancelled r \<and> rq_error_retryable r \<and> rp_retryable (rq_policy r) \<and>
    (rq_error_effect r = Eff_None \<or> rq_error_effect r = Eff_Completed \<and> rq_idempotent r) \<and>
    (case rq_elapsedBudgetMs r of None \<Rightarrow> True | Some b \<Rightarrow> rq_elapsedMs r < b) \<and>
    n = 2 + int retries \<and> n \<le> rp_maxAttempts (rq_policy r)"
  using assms(2) retry_chain_count [OF assms(1)] unfolding evaluateRetry_Retry by (auto split: option.split)

definition sample_retry :: retry_request where
  "sample_retry = \<lparr>rq_error_retryable = True, rq_error_effect = Eff_None,
     rq_policy = \<lparr>rp_maxAttempts = 3, rp_retryable = True\<rparr>, rq_attemptsMade = 1, rq_elapsedMs = 5,
     rq_elapsedBudgetMs = None, rq_idempotent = True, rq_cancelled = False, rq_backoff = None,
     rq_jitter = None\<rparr>"

lemma sample_retry_granted: "evaluateRetry sample_retry = Retry 2 100"
  by (simp add: sample_retry_def evaluateRetry_def Let_def backoffDelayMs_def DEFAULT_RETRY_BACKOFF_def)

theorem retry_is_safe_and_bounded_witness:
  "evaluateRetry sample_retry = Retry 2 100 \<and> (2 :: int) \<le> rp_maxAttempts (rq_policy sample_retry)"
  using sample_retry_granted retry_is_safe_and_bounded [OF _ sample_retry_granted, of 0]
    chain_first [of "rq_policy sample_retry"] by (simp add: sample_retry_def)

text \<open>
  The backoff grows with the attempts and is bounded: for a non-negative base, cap and ratio the
  delay is not negative, never smaller for a later attempt, and never above the cap plus the
  jitter share of the cap.
\<close>

theorem backoff_grows_and_is_bounded:
  assumes "0 \<le> rb_baseDelayMs b" "0 \<le> rb_maxDelayMs b" "0 \<le> rb_jitterRatio b" "m \<le> n"
  shows "0 \<le> backoffDelayMs m b j \<and> backoffDelayMs m b j \<le> backoffDelayMs n b j \<and>
    of_int (backoffDelayMs n b j) \<le> rb_maxDelayMs b * (1 + rb_jitterRatio b)"
  using backoff_bounds [OF assms(1-3)] backoff_mono [OF assms(1,3,4)] by blast

theorem backoff_grows_and_is_bounded_witness:
  "backoffDelayMs 1 DEFAULT_RETRY_BACKOFF (1 / 2) \<le> backoffDelayMs 20 DEFAULT_RETRY_BACKOFF (1 / 2) \<and>
   of_int (backoffDelayMs 20 DEFAULT_RETRY_BACKOFF (1 / 2)) \<le> (37500 :: rat)"
  using backoff_grows_and_is_bounded [of DEFAULT_RETRY_BACKOFF 1 20 "1 / 2"]
  by (simp add: DEFAULT_RETRY_BACKOFF_def)

text \<open>
  The cap is not a ceiling of the delay: with the default backoff a late attempt with jitter one
  half waits 33750 milliseconds, above the maximum of 30000.
\<close>

theorem backoff_exceeds_its_maximum:
  "backoffDelayMs 20 DEFAULT_RETRY_BACKOFF (1 / 2) = 33750 \<and>
   rb_maxDelayMs DEFAULT_RETRY_BACKOFF < of_int (backoffDelayMs 20 DEFAULT_RETRY_BACKOFF (1 / 2))"
  by (simp add: backoffDelayMs_def Let_def DEFAULT_RETRY_BACKOFF_def)

text \<open>
  C36. Another attempt, on the same route or a fallback, follows only an attempt that is known to
  have had no effect: one that timed out, or one that failed without a tool proposal and not for
  safety. A refusal, a partial answer, an uncertain effect or an emitted tool proposal always
  settles.
\<close>

theorem only_effectless_attempts_go_on:
  assumes "goes_on (decideAttemptAction (classifyAttempt f) decision fallbackAvailable)"
  shows "(\<exists>retryable. f = Fact_Timed_Out Eff_None retryable) \<or>
    (\<exists>category retryable observed message.
       f = Fact_Failed category retryable Eff_None observed False message \<and> category \<noteq> Cat_Safety)"
  using classify_may_go_on [OF decide_goes_on [OF assms]] .

theorem only_effectless_attempts_go_on_witness:
  "goes_on (decideAttemptAction (classifyAttempt (Fact_Timed_Out Eff_None True)) None True) \<and>
   (\<exists>retryable. Fact_Timed_Out Eff_None True = Fact_Timed_Out Eff_None retryable)"
proof -
  have "goes_on (decideAttemptAction (classifyAttempt (Fact_Timed_Out Eff_None True)) None True)"
    by (simp add: goes_on_def)
  with only_effectless_attempts_go_on [OF this] show ?thesis by simp
qed

text \<open>
  Settling a turn for an attempt keeps the attempt's effect: for every attempt that ends in a
  terminal classification, the command chosen for the turn machine is accepted in every phase of an
  active turn, and the effect recorded on the settled turn and the effect of its outcome are both
  at least the attempt's.
\<close>

theorem settling_a_turn_keeps_the_attempt_effect:
  assumes "settleCommandFor (classifyAttempt f) = Some (command, effect)"
    and "ti_command input = command" and "ti_effect input = Some effect"
  shows "\<exists>g out ob. applyTurnTransition input (Active_Turn t) = Transitioned (Terminal_Turn g out) ob \<and>
    fact_effect f \<le> effectOf out \<and> fact_effect f \<le> tf_recordedEffect g \<and>
    tf_recordedEffect t \<le> tf_recordedEffect g"
proof -
  from assms(1) obtain o0 where o0: "terminalOutcomeForClassification (classifyAttempt f) = Some o0"
    by (auto simp: settleCommandFor_def)
  then have le: "fact_effect f \<le> effectOf o0" by (rule outcome_shows_effect)
  have no: "o0 \<noteq> Completed" using o0 by (cases "classifyAttempt f") auto
  then have eff: "effect = effectOf o0" and cmd: "command \<in> {Fail, Cancel, Time_Out, Mark_Uncertain}"
    using assms(1) o0 by (cases o0; auto simp: settleCommandFor_def)+
  then have acc: "\<exists>s' ob. applyTurnTransition input (Active_Turn t) = Transitioned s' ob"
    using assms(2) by (auto simp: turn_defs)
  then obtain s' ob where step: "applyTurnTransition input (Active_Turn t) = Transitioned s' ob" by blast
  then show ?thesis
  proof (cases rule: apply_cases)
    case (settle g out)
    have "out \<noteq> Completed" "effectOf o0 \<le> effectOf out"
      using settle(3) cmd assms(2,3) eff by (auto split: if_splits)
    with settle step le show ?thesis by (auto simp: merge.join_max intro: order_trans max.coboundedI2)
  next
    case (advance g to)
    then have "command \<in> fst ` set (PHASE_EDGES (tf_phase g))" using assms(2) by force
    with cmd show ?thesis by (cases "tf_phase g") auto
  qed simp
qed

theorem settling_a_turn_keeps_the_attempt_effect_witness:
  "settleCommandFor (classifyAttempt (Fact_Partial ''cut'' Eff_Partial True False)) = Some (Fail, Eff_Partial) \<and>
   (\<exists>t g out ob. sample_turn = Active_Turn t \<and>
      applyTurnTransition (command_only Fail (Some Eff_Partial)) (Active_Turn t) =
        Transitioned (Terminal_Turn g out) ob \<and> Eff_Partial \<le> tf_recordedEffect g)"
proof -
  have c: "settleCommandFor (classifyAttempt (Fact_Partial ''cut'' Eff_Partial True False)) = Some (Fail, Eff_Partial)"
    by (simp add: settleCommandFor_def)
  obtain t where "sample_turn = Active_Turn t" by (simp add: sample_turn_def createTurnSnapshot_def)
  with c settling_a_turn_keeps_the_attempt_effect [OF c, of "command_only Fail (Some Eff_Partial)" t]
  show ?thesis by (auto simp: command_only_def)
qed

end
