(* ===== verification/Turn_Coordinator.thy ===== *)
theory Turn_Coordinator
  imports Turn_Machine
begin

text \<open>
  The in-memory turn coordinator (\<^verbatim>\<open>src/application/runtime/turn-coordinator.ts\<close>): the turns of a
  process by identifier, their observations, and the two callbacks it is created with.
  \<open>canComplete\<close> is an argument (a caller may or may not install it); \<open>onTerminal\<close> is the trace of
  the snapshots it was called with. The development shows that the coordinator is a faithful
  driver of the turn machine: what it holds of a turn is always a run of that machine.
\<close>

section \<open>Definitions\<close>

datatype coordinator_error =
    Turn_Error turn_transition_error
  | Turn_Not_Found string
  | Turn_Already_Exists string

record start_turn_input =
  sti_turnId :: string
  sti_sessionId :: string
  sti_workspaceId :: string
  sti_traceId :: string
  sti_configurationGeneration :: int

record turn_command_input =
  tci_turnId :: string
  tci_input :: turn_input

record coordinator =
  tc_snapshots :: "(string, turn_snapshot) js_map"
  tc_history :: "(string, turn_observation list) js_map"
  tc_notified :: "turn_snapshot list"

type_synonym completion_guard = "(turn_snapshot \<Rightarrow> bool \<times> effect_certainty) option"

fun turn_is_terminal :: "turn_snapshot \<Rightarrow> bool" where
  "turn_is_terminal (Terminal_Turn _ _) = True"
| "turn_is_terminal (Active_Turn _) = False"

definition createTurnCoordinator :: coordinator where
  "createTurnCoordinator = \<lparr>tc_snapshots = [], tc_history = [], tc_notified = []\<rparr>"

definition coord_start ::
  "start_turn_input \<Rightarrow> coordinator \<Rightarrow> coordinator \<times> (turn_snapshot, coordinator_error) result" where
  "coord_start input c =
     (if js_has (tc_snapshots c) (sti_turnId input)
      then (c, Err (Turn_Already_Exists (sti_turnId input)))
      else let snapshot = createTurnSnapshot (sti_turnId input) (sti_sessionId input)
                 (sti_workspaceId input) (sti_traceId input) (sti_configurationGeneration input)
           in (c\<lparr>tc_snapshots := js_set (sti_turnId input) snapshot (tc_snapshots c),
                 tc_history := js_set (sti_turnId input) [] (tc_history c)\<rparr>,
               Ok snapshot))"

text \<open>The transition a command comes to: a legal completion that the guard forbids is a failure.\<close>

definition guarded_transition :: "completion_guard \<Rightarrow> turn_input \<Rightarrow> turn_snapshot \<Rightarrow> turn_transition_result" where
  "guarded_transition canComplete transition current =
     (case applyTurnTransition transition current of
        Rejected_Turn error \<Rightarrow> Rejected_Turn error
      | Transitioned snapshot observation \<Rightarrow>
          (case (if ti_command transition = Complete then canComplete else None) of
             None \<Rightarrow> Transitioned snapshot observation
           | Some guard \<Rightarrow>
               (case guard current of
                  (True, _) \<Rightarrow> Transitioned snapshot observation
                | (False, effect) \<Rightarrow>
                    applyTurnTransition (transition\<lparr>ti_command := Fail, ti_effect := Some effect\<rparr>) current)))"

definition coord_observations :: "coordinator \<Rightarrow> string \<Rightarrow> turn_observation list" where
  "coord_observations c turnId = (case js_get (tc_history c) turnId of None \<Rightarrow> [] | Some obs \<Rightarrow> obs)"

definition coord_apply ::
  "completion_guard \<Rightarrow> turn_command_input \<Rightarrow> coordinator \<Rightarrow>
   coordinator \<times> (turn_snapshot \<times> turn_observation, coordinator_error) result" where
  "coord_apply canComplete input c =
     (case js_get (tc_snapshots c) (tci_turnId input) of
        None \<Rightarrow> (c, Err (Turn_Not_Found (tci_turnId input)))
      | Some current \<Rightarrow>
          (case guarded_transition canComplete (tci_input input) current of
             Rejected_Turn error \<Rightarrow> (c, Err (Turn_Error error))
           | Transitioned snapshot observation \<Rightarrow>
               (c\<lparr>tc_snapshots := js_set (tci_turnId input) snapshot (tc_snapshots c),
                  tc_history := js_set (tci_turnId input)
                     (coord_observations c (tci_turnId input) @ [observation]) (tc_history c),
                  tc_notified := tc_notified c @
                     (if \<not> turn_is_terminal current \<and> turn_is_terminal snapshot then [snapshot] else [])\<rparr>,
                Ok (snapshot, observation))))"

definition coord_get :: "coordinator \<Rightarrow> string \<Rightarrow> turn_snapshot option" where
  "coord_get c turnId = js_get (tc_snapshots c) turnId"

definition coord_turns :: "coordinator \<Rightarrow> turn_snapshot list" where
  "coord_turns c = js_values (tc_snapshots c)"

definition coord_terminals :: "coordinator \<Rightarrow> string \<Rightarrow> terminal_outcome list" where
  "coord_terminals c turnId =
     map (\<lambda>ob. the (to_outcome ob))
       (filter (\<lambda>ob. to_terminal ob \<and> to_outcome ob \<noteq> None) (coord_observations c turnId))"

section \<open>Reachable coordinators\<close>

inductive coord_step :: "completion_guard \<Rightarrow> coordinator \<Rightarrow> coordinator \<Rightarrow> bool" for canComplete where
  step_start: "coord_step canComplete c (fst (coord_start input c))"
| step_apply: "coord_step canComplete c (fst (coord_apply canComplete input c))"

abbreviation coord_reachable :: "completion_guard \<Rightarrow> coordinator \<Rightarrow> bool" where
  "coord_reachable canComplete \<equiv> reachable (\<lambda>c. c = createTurnCoordinator) (coord_step canComplete)"

section \<open>One transition\<close>

lemma fail_accepted:
  assumes "ti_command input = Fail"
  shows "\<exists>s' ob. applyTurnTransition input (Active_Turn f) = Transitioned s' ob"
  using assms by (simp add: turn_defs)

lemma complete_needs_active:
  assumes "applyTurnTransition input s = Transitioned s' ob" "ti_command input = Complete"
  shows "\<exists>f. s = Active_Turn f"
  using assms(1) by (cases rule: apply_cases) (use assms(2) in auto)

text \<open>Whatever the guard answers, the transition is one of the turn machine.\<close>

lemma guarded_is_a_transition:
  assumes "guarded_transition canComplete input s = Transitioned s' ob"
  shows "\<exists>input'. applyTurnTransition input' s = Transitioned s' ob"
  using assms
  by (auto simp: guarded_transition_def split: turn_transition_result.splits option.splits if_splits
        prod.splits bool.splits)

lemma transition_terminal:
  assumes "applyTurnTransition input s = Transitioned s' ob"
  shows "to_turnId ob = tf_turnId (fields_of s)" "tf_turnId (fields_of s') = tf_turnId (fields_of s)"
    "to_terminal ob \<longleftrightarrow> turn_is_terminal s'" "to_terminal ob \<longleftrightarrow> to_outcome ob \<noteq> None"
    "turn_is_terminal s \<and> turn_is_terminal s' \<longleftrightarrow> False"
    "\<And>f out. s' = Terminal_Turn f out \<Longrightarrow> to_outcome ob = Some out"
    "to_order ob = tf_observationOrder (fields_of s) + 1"
    "tf_observationOrder (fields_of s') = to_order ob"
  using assms by (cases rule: apply_cases; simp add: observe_def)+

section \<open>The invariant\<close>

fun outcome_of :: "turn_snapshot \<Rightarrow> terminal_outcome option" where
  "outcome_of (Terminal_Turn _ out) = Some out"
| "outcome_of (Active_Turn _) = None"

definition notified_of :: "string \<Rightarrow> turn_snapshot list \<Rightarrow> terminal_outcome list" where
  "notified_of turnId snapshots =
     List.map_filter outcome_of (filter (\<lambda>s. tf_turnId (fields_of s) = turnId) snapshots)"

definition coord_inv :: "coordinator \<Rightarrow> bool" where
  "coord_inv c \<longleftrightarrow>
     (\<forall>t. case js_get (tc_snapshots c) t of
            None \<Rightarrow> coord_observations c t = [] \<and> notified_of t (tc_notified c) = []
          | Some s \<Rightarrow> turn_run (coord_observations c t) s \<and> tf_turnId (fields_of s) = t \<and>
              notified_of t (tc_notified c) = coord_terminals c t)"

lemma coord_invI:
  assumes "\<And>t. js_get (tc_snapshots c) t = None \<Longrightarrow>
      coord_observations c t = [] \<and> notified_of t (tc_notified c) = []"
    and "\<And>t s. js_get (tc_snapshots c) t = Some s \<Longrightarrow>
      turn_run (coord_observations c t) s \<and> tf_turnId (fields_of s) = t \<and>
      notified_of t (tc_notified c) = coord_terminals c t"
  shows "coord_inv c"
  using assms by (auto simp: coord_inv_def split: option.split)

lemma coord_inv_start: "coord_inv createTurnCoordinator"
  by (simp add: coord_inv_def createTurnCoordinator_def coord_observations_def notified_of_def
        List.map_filter_def)

lemma coord_start_inv:
  assumes "coord_inv c"
  shows "coord_inv (fst (coord_start input c))"
proof (cases "js_has (tc_snapshots c) (sti_turnId input)")
  case True
  then show ?thesis using assms by (simp add: coord_start_def)
next
  case False
  let ?c = "fst (coord_start input c)"
  let ?s = "createTurnSnapshot (sti_turnId input) (sti_sessionId input)
                 (sti_workspaceId input) (sti_traceId input) (sti_configurationGeneration input)"
  have c: "tc_snapshots ?c = js_set (sti_turnId input) ?s (tc_snapshots c)"
    "tc_history ?c = js_set (sti_turnId input) [] (tc_history c)" "tc_notified ?c = tc_notified c"
    using False by (simp_all add: coord_start_def Let_def)
  have old: "\<And>t. case js_get (tc_snapshots c) t of
            None \<Rightarrow> coord_observations c t = [] \<and> notified_of t (tc_notified c) = []
          | Some s \<Rightarrow> turn_run (coord_observations c t) s \<and> tf_turnId (fields_of s) = t \<and>
              notified_of t (tc_notified c) = coord_terminals c t"
    using assms by (simp add: coord_inv_def)
  have new: "turn_run [] ?s" "tf_turnId (fields_of ?s) = sti_turnId input"
    by (rule turn_start) (simp add: createTurnSnapshot_def)
  show ?thesis
  proof (rule coord_invI)
    fix t assume "js_get (tc_snapshots ?c) t = None"
    then show "coord_observations ?c t = [] \<and> notified_of t (tc_notified ?c) = []"
      using old [of t] by (auto simp: c coord_observations_def split: if_splits)
  next
    fix t s assume "js_get (tc_snapshots ?c) t = Some s"
    then show "turn_run (coord_observations ?c t) s \<and> tf_turnId (fields_of s) = t \<and>
        notified_of t (tc_notified ?c) = coord_terminals ?c t"
      using old [of t] new False
      by (auto simp: c coord_observations_def coord_terminals_def split: if_splits)
  qed
qed

lemma notified_of_snoc:
  "notified_of t (ss @ [s]) =
     notified_of t ss @ (if tf_turnId (fields_of s) = t then (case outcome_of s of None \<Rightarrow> [] | Some x \<Rightarrow> [x]) else [])"
  by (simp add: notified_of_def List.map_filter_def split: option.split)

lemma coord_apply_cases:
  obtains (refused) e where "coord_apply g input c = (c, Err e)"
  | (applied) s s' ob input' where "js_get (tc_snapshots c) (tci_turnId input) = Some s"
      "guarded_transition g (tci_input input) s = Transitioned s' ob"
      "applyTurnTransition input' s = Transitioned s' ob"
      "coord_apply g input c =
         (c\<lparr>tc_snapshots := js_set (tci_turnId input) s' (tc_snapshots c),
            tc_history := js_set (tci_turnId input)
               (coord_observations c (tci_turnId input) @ [ob]) (tc_history c),
            tc_notified := tc_notified c @ (if \<not> turn_is_terminal s \<and> turn_is_terminal s' then [s'] else [])\<rparr>,
          Ok (s', ob))"
proof (cases "js_get (tc_snapshots c) (tci_turnId input)")
  case None
  then show ?thesis using refused by (simp add: coord_apply_def)
next
  case (Some s)
  show ?thesis
  proof (cases "guarded_transition g (tci_input input) s")
    case (Transitioned s' ob)
    with guarded_is_a_transition [OF this] Some show ?thesis
      using applied by (auto simp: coord_apply_def)
  next
    case (Rejected_Turn e)
    with Some show ?thesis using refused by (simp add: coord_apply_def)
  qed
qed

text \<open>Appending one observation to a turn and notifying of its settlement keeps the two in step.\<close>

lemma notify_in_step:
  assumes "applyTurnTransition input s = Transitioned s' ob" "tf_turnId (fields_of s) = t"
  shows "notified_of t' (ns @ (if \<not> turn_is_terminal s \<and> turn_is_terminal s' then [s'] else [])) =
    notified_of t' ns @
      (if t' = t then map (\<lambda>ob. the (to_outcome ob)) (filter (\<lambda>ob. to_terminal ob \<and> to_outcome ob \<noteq> None) [ob])
       else [])"
proof (cases s')
  case (Active_Turn f)
  then show ?thesis using transition_terminal(3) [OF assms(1)] by simp
next
  case (Terminal_Turn f out)
  then show ?thesis
    using transition_terminal [OF assms(1)] assms(2) by (auto simp: notified_of_snoc)
qed

lemma coord_apply_inv:
  assumes "coord_inv c"
  shows "coord_inv (fst (coord_apply g input c))"
proof (cases rule: coord_apply_cases [of g input c])
  case (refused e)
  then show ?thesis using assms by simp
next
  case (applied s s' ob input')
  let ?t = "tci_turnId input" and ?c = "fst (coord_apply g input c)"
  have old: "\<And>t. case js_get (tc_snapshots c) t of
            None \<Rightarrow> coord_observations c t = [] \<and> notified_of t (tc_notified c) = []
          | Some s \<Rightarrow> turn_run (coord_observations c t) s \<and> tf_turnId (fields_of s) = t \<and>
              notified_of t (tc_notified c) = coord_terminals c t"
    using assms by (simp add: coord_inv_def)
  have s: "turn_run (coord_observations c ?t) s" "tf_turnId (fields_of s) = ?t"
    "notified_of ?t (tc_notified c) = coord_terminals c ?t"
    using old [of ?t] applied(1) by simp_all
  have obs: "coord_observations ?c t = (if t = ?t then coord_observations c t @ [ob] else coord_observations c t)" for t
    by (simp add: applied(4) coord_observations_def)
  have snap: "js_get (tc_snapshots ?c) t = (if t = ?t then Some s' else js_get (tc_snapshots c) t)" for t
    by (simp add: applied(4))
  have told: "tc_notified ?c = tc_notified c @ (if \<not> turn_is_terminal s \<and> turn_is_terminal s' then [s'] else [])"
    by (simp add: applied(4))
  note notified = notify_in_step [OF applied(3) s(2), of _ "tc_notified c", folded told]
  show ?thesis
  proof (rule coord_invI)
    fix t assume "js_get (tc_snapshots ?c) t = None"
    then show "coord_observations ?c t = [] \<and> notified_of t (tc_notified ?c) = []"
      using old [of t] unfolding snap obs notified by (auto split: if_splits)
  next
    fix t u assume u: "js_get (tc_snapshots ?c) t = Some u"
    show "turn_run (coord_observations ?c t) u \<and> tf_turnId (fields_of u) = t \<and>
        notified_of t (tc_notified ?c) = coord_terminals ?c t"
    proof (cases "t = ?t")
      case True
      then have "u = s'" using u snap by simp
      with True show ?thesis
        using turn_next [OF s(1) applied(3)] transition_terminal(2) [OF applied(3)] s(2,3)
        unfolding coord_terminals_def obs notified by (simp add: coord_terminals_def)
    next
      case False
      then show ?thesis
        using old [of t] u unfolding coord_terminals_def obs notified snap by simp
    qed
  qed
qed

interpretation turns: safety_machine "\<lambda>c. c = createTurnCoordinator" "coord_step canComplete" coord_inv
proof unfold_locales
  fix c c' assume "coord_inv c" "coord_step canComplete c c'"
  from this(2,1) show "coord_inv c'"
    by cases (auto intro: coord_start_inv coord_apply_inv)
qed (simp add: coord_inv_start)

section \<open>Properties\<close>

text \<open>
  C27. The coordinator implements the turn machine: in every reachable coordinator, whatever
  completion guard is installed, the observations recorded for a turn are a run of the turn
  machine that ends in the snapshot the coordinator holds for it; the snapshot carries the
  identifier it is filed under; and \<open>onTerminal\<close> has been called for exactly the settlements that
  \<open>terminals\<close> reports, in order.
\<close>

theorem coordinator_refines_turn_machine:
  assumes "coord_reachable canComplete c" and "coord_get c turnId = Some snapshot"
  shows "turn_run (coord_observations c turnId) snapshot \<and> tf_turnId (fields_of snapshot) = turnId \<and>
    notified_of turnId (tc_notified c) = coord_terminals c turnId"
proof -
  have "coord_inv c" using turns.always [OF assms(1)] .
  then show ?thesis using assms(2) by (auto simp: coord_inv_def coord_get_def dest: spec [of _ turnId])
qed

definition coordinator_demo :: coordinator where
  "coordinator_demo = fst (coord_apply None
     \<lparr>tci_turnId = ''t'', tci_input = command_only Cancel None\<rparr>
     (fst (coord_start \<lparr>sti_turnId = ''t'', sti_sessionId = ''s'', sti_workspaceId = ''w'', sti_traceId = ''x'',
                        sti_configurationGeneration = 0\<rparr> createTurnCoordinator)))"

theorem coordinator_refines_turn_machine_witness:
  "\<exists>snapshot. coord_get coordinator_demo ''t'' = Some snapshot \<and>
     turn_run (coord_observations coordinator_demo ''t'') snapshot \<and>
     notified_of ''t'' (tc_notified coordinator_demo) = [Cancelled Eff_None]"
proof -
  have "coord_reachable None coordinator_demo"
    unfolding coordinator_demo_def
    by (rule reach_step [where step = "coord_step None"], rule reach_step [where step = "coord_step None"],
        rule reach_start, rule refl, rule step_start, rule step_apply)
  moreover obtain snapshot where get: "coord_get coordinator_demo ''t'' = Some snapshot"
    by (simp add: coordinator_demo_def coord_apply_def coord_start_def createTurnCoordinator_def
          guarded_transition_def command_only_def turn_defs coord_get_def)
  ultimately have "turn_run (coord_observations coordinator_demo ''t'') snapshot \<and>
      notified_of ''t'' (tc_notified coordinator_demo) = coord_terminals coordinator_demo ''t''"
    using coordinator_refines_turn_machine by blast
  moreover have "coord_terminals coordinator_demo ''t'' = [Cancelled Eff_None]"
    by code_simp
  ultimately show ?thesis using get by simp
qed

text \<open>
  The completion guard decides only about legal completions, and its veto is never lost: a
  completion the turn machine refuses is refused without asking the guard; a legal one the guard
  forbids settles the turn as failed with the guard's effect, and is announced as such; every
  other command is applied as it is.
\<close>

theorem completion_veto_settles_as_failed:
  assumes "js_get (tc_snapshots c) t = Some current"
    and "guard current = (False, effect)"
  shows "case applyTurnTransition input current of
      Rejected_Turn e \<Rightarrow> coord_apply (Some guard) \<lparr>tci_turnId = t, tci_input = input\<rparr> c = (c, Err (Turn_Error e))
    | Transitioned s ob \<Rightarrow>
        if ti_command input = Complete
        then \<exists>f' ob'. snd (coord_apply (Some guard) \<lparr>tci_turnId = t, tci_input = input\<rparr> c) =
                 Ok (Terminal_Turn f' (Failed effect), ob') \<and>
               last (tc_notified (fst (coord_apply (Some guard) \<lparr>tci_turnId = t, tci_input = input\<rparr> c))) =
                 Terminal_Turn f' (Failed effect) \<and>
               effect \<le> tf_recordedEffect f'
        else snd (coord_apply (Some guard) \<lparr>tci_turnId = t, tci_input = input\<rparr> c) = Ok (s, ob)"
proof (cases "applyTurnTransition input current")
  case (Rejected_Turn e)
  then show ?thesis using assms by (simp add: coord_apply_def guarded_transition_def)
next
  case (Transitioned s ob)
  show ?thesis
  proof (cases "ti_command input = Complete")
    case False
    then show ?thesis using assms Transitioned by (simp add: coord_apply_def guarded_transition_def)
  next
    case True
    then obtain f where "current = Active_Turn f"
      using complete_needs_active [OF Transitioned] by blast
    moreover have "effect \<le> mergeEffect (tf_recordedEffect f) effect" by simp
    ultimately show ?thesis
      using assms Transitioned True
      by (auto simp: coord_apply_def guarded_transition_def) (simp add: turn_defs effectOfOutcome_effectOf)
  qed
qed

definition evaluating_demo :: coordinator where
  "evaluating_demo = foldr (\<lambda>command c. fst (coord_apply None
       \<lparr>tci_turnId = ''t'', tci_input = command_only command None\<rparr> c)) (rev plain_history)
     (fst (coord_start \<lparr>sti_turnId = ''t'', sti_sessionId = ''s'', sti_workspaceId = ''w'', sti_traceId = ''x'',
                        sti_configurationGeneration = 0\<rparr> createTurnCoordinator))"

theorem completion_veto_settles_as_failed_witness:
  "\<exists>current f' ob'. js_get (tc_snapshots evaluating_demo) ''t'' = Some current \<and>
     (\<exists>s ob. applyTurnTransition (command_only Complete None) current = Transitioned s ob) \<and>
     snd (coord_apply (Some (\<lambda>_. (False, Eff_Partial)))
            \<lparr>tci_turnId = ''t'', tci_input = command_only Complete None\<rparr> evaluating_demo) =
       Ok (Terminal_Turn f' (Failed Eff_Partial), ob')"
proof -
  obtain f where get: "js_get (tc_snapshots evaluating_demo) ''t'' = Some (Active_Turn f)"
    and ph: "tf_phase f = Evaluating_Completion" "tf_recordedEffect f = Eff_None"
    by (simp add: evaluating_demo_def plain_history_def coord_apply_def coord_start_def
          createTurnCoordinator_def guarded_transition_def command_only_def turn_defs mergeEffect_def
          coord_observations_def)
  have legal: "\<exists>s ob. applyTurnTransition (command_only Complete None) (Active_Turn f) = Transitioned s ob"
    using ph by (simp add: turn_defs command_only_def)
  have "ti_command (command_only Complete None) = Complete" by (simp add: command_only_def)
  with completion_veto_settles_as_failed
    [OF get, where guard = "\<lambda>_. (False, Eff_Partial)" and effect = Eff_Partial and input = "command_only Complete None"]
    legal get
  show ?thesis by auto
qed

end
