(* ===== verification/Interruption.thy ===== *)
theory Interruption
  imports Foundation
begin

text \<open>
  The interruption ladder (\<^verbatim>\<open>src/application/runtime/interruption.ts\<close>): what each further interrupt
  makes the runtime do. A clock read is the argument \<open>at\<close>. Subscribing the policy to the host's
  signal port is not modelled.
\<close>

section \<open>Definitions\<close>

datatype shutdown_level = Graceful | Escalated | Forced

datatype interrupt_signal = Interrupt_Signal | Terminate_Signal | Hangup_Signal

record interruption =
  in_level :: shutdown_level
  in_count :: nat
  in_firstAt :: "instant option"
  in_lastAt :: "instant option"
  in_lastSignal :: "interrupt_signal option"

datatype interruption_decision = Request_Cancellation | Escalate | Force | Ignored

fun decision_level :: "interruption_decision \<Rightarrow> shutdown_level" where
  "decision_level Request_Cancellation = Graceful"
| "decision_level Escalate = Escalated"
| "decision_level Force = Forced"
| "decision_level Ignored = Forced"

definition createInterruptionPolicy :: interruption where
  "createInterruptionPolicy =
     \<lparr>in_level = Graceful, in_count = 0, in_firstAt = None, in_lastAt = None, in_lastSignal = None\<rparr>"

definition interrupt :: "interrupt_signal \<Rightarrow> instant \<Rightarrow> interruption \<Rightarrow> interruption \<times> interruption_decision" where
  "interrupt signal at p =
     (let p = p\<lparr>in_count := in_count p + 1,
                in_firstAt := (case in_firstAt p of None \<Rightarrow> Some at | Some t \<Rightarrow> Some t),
                in_lastAt := Some at, in_lastSignal := Some signal\<rparr>
      in if in_count p = 1 then (p\<lparr>in_level := Graceful\<rparr>, Request_Cancellation)
         else if in_count p = 2 then (p\<lparr>in_level := Escalated\<rparr>, Escalate)
         else if in_level p = Forced then (p, Ignored)
         else (p\<lparr>in_level := Forced\<rparr>, Force))"

fun interrupts :: "(interrupt_signal \<times> instant) list \<Rightarrow> interruption \<Rightarrow> interruption \<times> interruption_decision list" where
  "interrupts [] p = (p, [])"
| "interrupts ((signal, at) # rest) p =
     (let (p1, d) = interrupt signal at p; (p2, ds) = interrupts rest p1 in (p2, d # ds))"

definition ladder :: "nat \<Rightarrow> interruption_decision" where
  "ladder n = (if n = 0 then Request_Cancellation else if n = 1 then Escalate else if n = 2 then Force else Ignored)"

definition level_at :: "nat \<Rightarrow> shutdown_level" where
  "level_at n = (if n \<le> 1 then Graceful else if n = 2 then Escalated else Forced)"

section \<open>The ladder\<close>

lemma interrupt_ladder:
  assumes "in_level p = level_at (in_count p)"
  shows "snd (interrupt signal at p) = ladder (in_count p)"
    "in_level (fst (interrupt signal at p)) = level_at (in_count p + 1)"
    "in_count (fst (interrupt signal at p)) = in_count p + 1"
  using assms by (auto simp: interrupt_def Let_def ladder_def level_at_def)

lemma interrupts_ladder:
  assumes "in_level p = level_at (in_count p)"
  shows "case interrupts es p of (p', ds) \<Rightarrow>
     ds = map ladder [in_count p ..< in_count p + length es] \<and>
     in_count p' = in_count p + length es \<and> in_level p' = level_at (in_count p + length es)"
  using assms
proof (induction es arbitrary: p)
  case (Cons e es)
  obtain signal at where e: "e = (signal, at)" by fastforce
  obtain p1 d where one: "interrupt signal at p = (p1, d)" by fastforce
  have p1: "d = ladder (in_count p)" "in_level p1 = level_at (in_count p1)" "in_count p1 = in_count p + 1"
    using interrupt_ladder [OF Cons.prems, of signal at] one by simp_all
  show ?case
    using Cons.IH [OF p1(2)] p1
    by (simp add: e one upt_conv_Cons del: upt_Suc split: prod.splits)
qed simp

end
