(* ===== verification/Stream_Sequencer.thy ===== *)
theory Stream_Sequencer
  imports Foundation
begin

text \<open>
  Scoped sequence rules for event streams (\<^verbatim>\<open>src/domain/foundation/sequence.ts\<close>): the sequencer
  that decides whether an event may join its stream, and the replay report. An event is the
  record of the four fields the rules read.
\<close>

section \<open>Definitions\<close>

definition MAX_TRACKED_EVENTS_PER_STREAM :: nat where "MAX_TRACKED_EVENTS_PER_STREAM = 100000"

record runtime_event =
  ev_streamId :: string
  ev_sequence :: int
  ev_idempotencyKey :: string
  ev_eventId :: string

datatype sequence_error =
    Sequence_Out_Of_Order string int int
  | Sequence_Gap string int int
  | Idempotency_Conflict string string string string
  | Event_Id_Conflict string string
  | Ledger_Capacity_Exceeded string nat

datatype append_decision = Appended int | Duplicate int | Refused sequence_error

record tracked_event =
  te_eventId :: string
  te_sequence :: int

record stream_state =
  ss_lastSequence :: int
  ss_byIdempotencyKey :: "(string, tracked_event) js_map"
  ss_eventIds :: "(string, string) js_map"

type_synonym sequencer = "(string, stream_state) js_map"

definition createStreamSequencer :: sequencer where
  "createStreamSequencer = []"

definition rejectFirstSequence :: "runtime_event \<Rightarrow> append_decision" where
  "rejectFirstSequence event =
     Refused (if ev_sequence event < FIRST_SEQUENCE
              then Sequence_Out_Of_Order (ev_streamId event) FIRST_SEQUENCE (ev_sequence event)
              else Sequence_Gap (ev_streamId event) FIRST_SEQUENCE (ev_sequence event))"

definition tracked_of :: "runtime_event \<Rightarrow> tracked_event" where
  "tracked_of event = \<lparr>te_eventId = ev_eventId event, te_sequence = ev_sequence event\<rparr>"

text \<open>\<open>append\<close> on the state of the event's own stream: \<open>None\<close> when the stream keeps its state.\<close>

definition decide ::
  "runtime_event \<Rightarrow> stream_state option \<Rightarrow> stream_state option \<times> append_decision" where
  "decide event st =
     (case st of
        None \<Rightarrow>
          if ev_sequence event \<noteq> FIRST_SEQUENCE then (None, rejectFirstSequence event)
          else (Some \<lparr>ss_lastSequence = ev_sequence event,
                      ss_byIdempotencyKey = [(ev_idempotencyKey event, tracked_of event)],
                      ss_eventIds = [(ev_eventId event, ev_idempotencyKey event)]\<rparr>,
                Appended (ev_sequence event))
      | Some state \<Rightarrow>
          (case js_get (ss_byIdempotencyKey state) (ev_idempotencyKey event) of
             Some recorded \<Rightarrow>
               if te_eventId recorded \<noteq> ev_eventId event
               then (None, Refused (Idempotency_Conflict (ev_streamId event) (ev_idempotencyKey event)
                       (te_eventId recorded) (ev_eventId event)))
               else (None, Duplicate (te_sequence recorded))
           | None \<Rightarrow>
               if js_has (ss_eventIds state) (ev_eventId event)
               then (None, Refused (Event_Id_Conflict (ev_streamId event) (ev_eventId event)))
               else if length (ss_eventIds state) \<ge> MAX_TRACKED_EVENTS_PER_STREAM
               then (None, Refused (Ledger_Capacity_Exceeded (ev_streamId event) MAX_TRACKED_EVENTS_PER_STREAM))
               else let expected = nextSequence (ss_lastSequence state) in
                    if ev_sequence event < expected
                    then (None, Refused (Sequence_Out_Of_Order (ev_streamId event) expected (ev_sequence event)))
                    else if ev_sequence event > expected
                    then (None, Refused (Sequence_Gap (ev_streamId event) expected (ev_sequence event)))
                    else (Some \<lparr>ss_lastSequence = ev_sequence event,
                                ss_byIdempotencyKey = js_set (ev_idempotencyKey event) (tracked_of event)
                                                        (ss_byIdempotencyKey state),
                                ss_eventIds = js_set (ev_eventId event) (ev_idempotencyKey event)
                                                (ss_eventIds state)\<rparr>,
                          Appended (ev_sequence event))))"

definition append :: "sequencer \<Rightarrow> runtime_event \<Rightarrow> sequencer \<times> append_decision" where
  "append q event =
     (case decide event (js_get q (ev_streamId event)) of
        (None, decision) \<Rightarrow> (q, decision)
      | (Some state, decision) \<Rightarrow> (js_set (ev_streamId event) state q, decision))"

definition lastSequence :: "sequencer \<Rightarrow> string \<Rightarrow> int option" where
  "lastSequence q s = map_option ss_lastSequence (js_get q s)"

definition expectedSequence :: "sequencer \<Rightarrow> string \<Rightarrow> int" where
  "expectedSequence q s =
     (case js_get q s of None \<Rightarrow> FIRST_SEQUENCE | Some state \<Rightarrow> nextSequence (ss_lastSequence state))"

definition streams :: "sequencer \<Rightarrow> string list" where
  "streams q = js_keys q"

definition trackedEventCount :: "sequencer \<Rightarrow> string \<Rightarrow> nat" where
  "trackedEventCount q s = (case js_get q s of None \<Rightarrow> 0 | Some state \<Rightarrow> length (ss_eventIds state))"

record replay_report =
  rr_appended :: nat
  rr_duplicates :: nat
  rr_anomalies :: "(nat \<times> sequence_error) list"
  rr_streams :: "string list"

definition replay_one :: "nat \<times> runtime_event \<Rightarrow> sequencer \<times> replay_report \<Rightarrow> sequencer \<times> replay_report" where
  "replay_one = (\<lambda>(index, event) (q, report).
     case append q event of
       (q', Appended _) \<Rightarrow> (q', report\<lparr>rr_appended := rr_appended report + 1\<rparr>)
     | (q', Duplicate _) \<Rightarrow> (q', report\<lparr>rr_duplicates := rr_duplicates report + 1\<rparr>)
     | (q', Refused error) \<Rightarrow> (q', report\<lparr>rr_anomalies := rr_anomalies report @ [(index, error)]\<rparr>))"

definition inspectReplay :: "runtime_event list \<Rightarrow> replay_report" where
  "inspectReplay events =
     (case fold replay_one (enumerate 0 events)
             (createStreamSequencer,
              \<lparr>rr_appended = 0, rr_duplicates = 0, rr_anomalies = [], rr_streams = []\<rparr>) of
        (q, report) \<Rightarrow> report\<lparr>rr_streams := streams q\<rparr>)"

section \<open>Sequences of appends\<close>

fun append_all :: "sequencer \<Rightarrow> runtime_event list \<Rightarrow> sequencer \<times> append_decision list" where
  "append_all q [] = (q, [])"
| "append_all q (e # es) =
     (let (q1, d) = append q e; (q2, ds) = append_all q1 es in (q2, d # ds))"

definition run_events :: "runtime_event list \<Rightarrow> sequencer \<times> append_decision list" where
  "run_events = append_all createStreamSequencer"

definition is_appended :: "append_decision \<Rightarrow> bool" where
  "is_appended d \<longleftrightarrow> (\<exists>n. d = Appended n)"

text \<open>The events of one stream that were accepted, in order.\<close>

definition accepted :: "string \<Rightarrow> runtime_event list \<Rightarrow> append_decision list \<Rightarrow> runtime_event list" where
  "accepted s events decisions =
     map fst (filter (\<lambda>(e, d). ev_streamId e = s \<and> is_appended d) (zip events decisions))"

section \<open>One append\<close>

lemma decide_None_state: "fst (decide e st) = None \<longleftrightarrow> \<not> is_appended (snd (decide e st))"
  by (auto simp: decide_def is_appended_def rejectFirstSequence_def Let_def split: option.splits)

lemma append_get:
  "js_get (fst (append q e)) s =
     (if s = ev_streamId e
      then (case fst (decide e (js_get q s)) of None \<Rightarrow> js_get q s | Some st \<Rightarrow> Some st)
      else js_get q s)"
  by (auto simp: append_def split: prod.split option.split)

lemma append_decides: "snd (append q e) = snd (decide e (js_get q (ev_streamId e)))"
  by (auto simp: append_def split: prod.split option.split)

lemma append_unchanged: "\<not> is_appended (snd (append q e)) \<Longrightarrow> fst (append q e) = q"
  using decide_None_state [of e "js_get q (ev_streamId e)"]
  by (auto simp: append_decides append_def split: prod.splits option.splits)

text \<open>What a stream's state says about the events it accepted.\<close>

definition stream_ok :: "runtime_event list \<Rightarrow> stream_state option \<Rightarrow> bool" where
  "stream_ok es st \<longleftrightarrow>
     map ev_sequence es = [1 .. int (length es)] \<and>
     distinct (map ev_idempotencyKey es) \<and> distinct (map ev_eventId es) \<and>
     (case st of
        None \<Rightarrow> es = []
      | Some state \<Rightarrow>
          es \<noteq> [] \<and> length es \<le> MAX_TRACKED_EVENTS_PER_STREAM \<and>
          ss_lastSequence state = int (length es) \<and>
          ss_byIdempotencyKey state = map (\<lambda>e. (ev_idempotencyKey e, tracked_of e)) es \<and>
          ss_eventIds state = map (\<lambda>e. (ev_eventId e, ev_idempotencyKey e)) es)"

lemma map_of_map_None: "map_of (map (\<lambda>e. (f e, g e)) es) k = None \<longleftrightarrow> k \<notin> f ` set es"
  by (simp add: map_of_eq_None_iff image_image)

lemma decide_ok:
  assumes "stream_ok es st" "decide e st = (Some st', d)"
  shows "stream_ok (es @ [e]) (Some st')"
proof (cases st)
  case None
  with assms show ?thesis
    by (auto simp: stream_ok_def decide_def FIRST_SEQUENCE_def MAX_TRACKED_EVENTS_PER_STREAM_def split: if_splits)
next
  case (Some state)
  have ok: "map ev_sequence es = [1 .. int (length es)]" "es \<noteq> []"
    "ss_lastSequence state = int (length es)"
    "ss_byIdempotencyKey state = map (\<lambda>e. (ev_idempotencyKey e, tracked_of e)) es"
    "ss_eventIds state = map (\<lambda>e. (ev_eventId e, ev_idempotencyKey e)) es"
    "distinct (map ev_idempotencyKey es)" "distinct (map ev_eventId es)"
    using assms(1) Some by (auto simp: stream_ok_def)
  have key: "js_get (ss_byIdempotencyKey state) (ev_idempotencyKey e) = None"
    and eid: "js_get (ss_eventIds state) (ev_eventId e) = None"
    and len: "length es < MAX_TRACKED_EVENTS_PER_STREAM"
    and seq: "ev_sequence e = int (length es) + 1"
    and st': "st' = \<lparr>ss_lastSequence = ev_sequence e,
        ss_byIdempotencyKey = js_set (ev_idempotencyKey e) (tracked_of e) (ss_byIdempotencyKey state),
        ss_eventIds = js_set (ev_eventId e) (ev_idempotencyKey e) (ss_eventIds state)\<rparr>"
    using assms(2) Some ok(3,5)
    by (auto simp: decide_def Let_def nextSequence_def split: option.splits if_splits)
  have "[1 .. int (length es) + 1] = [1 .. int (length es)] @ [int (length es) + 1]"
    by (simp add: upto_rec2)
  with ok key eid len seq show ?thesis
    unfolding st' stream_ok_def
    by (simp add: js_set_fresh map_of_map_None add.commute)
qed

section \<open>Many appends\<close>

lemma decide_stream_ok:
  assumes "stream_ok es st"
  shows "stream_ok (if is_appended (snd (decide e st)) then es @ [e] else es)
           (case fst (decide e st) of None \<Rightarrow> st | Some st' \<Rightarrow> Some st')"
proof (cases "decide e st")
  case (Pair so d)
  show ?thesis
  proof (cases so)
    case None
    then show ?thesis
      using assms decide_None_state [of e st] Pair by simp
  next
    case (Some st')
    then show ?thesis
      using decide_ok [OF assms] decide_None_state [of e st] Pair by simp
  qed
qed

lemma accepted_Cons:
  "accepted s (e # es) (d # ds) =
     (if ev_streamId e = s \<and> is_appended d then [e] else []) @ accepted s es ds"
  by (simp add: accepted_def)

lemma append_all_ok:
  assumes "stream_ok done_before (js_get q s)"
  shows "case append_all q es of (q', ds) \<Rightarrow>
           length ds = length es \<and> stream_ok (done_before @ accepted s es ds) (js_get q' s)"
  using assms
proof (induction es arbitrary: q done_before)
  case Nil
  then show ?case by (simp add: accepted_def)
next
  case (Cons e es)
  obtain q1 d where one: "append q e = (q1, d)" by fastforce
  obtain q2 ds where rest: "append_all q1 es = (q2, ds)" by fastforce
  let ?now = "if ev_streamId e = s \<and> is_appended d then done_before @ [e] else done_before"
  have "stream_ok ?now (js_get q1 s)"
  proof (cases "s = ev_streamId e")
    case True
    then show ?thesis
      using decide_stream_ok [OF Cons.prems, of e] append_get [of q e s] append_decides [of q e] one
      by simp
  next
    case False
    then show ?thesis
      using Cons.prems append_get [of q e s] one by simp
  qed
  from Cons.IH [OF this] show ?case
    using one rest by (auto simp: accepted_Cons split: if_splits)
qed

lemma run_events_ok:
  "run_events es = (q, ds) \<Longrightarrow> length ds = length es \<and> stream_ok (accepted s es ds) (js_get q s)"
  using append_all_ok [of "[]" createStreamSequencer s es]
  by (simp add: run_events_def createStreamSequencer_def stream_ok_def)

lemma decide_keeps_key:
  assumes "js_get (ss_byIdempotencyKey state) k = Some r"
    and "decide e (Some state) = (Some state', d)"
  shows "js_get (ss_byIdempotencyKey state') k = Some r"
  using assms by (auto simp: decide_def Let_def split: option.splits if_splits)

definition knows :: "sequencer \<Rightarrow> runtime_event \<Rightarrow> bool" where
  "knows q e \<longleftrightarrow>
     (\<exists>state. js_get q (ev_streamId e) = Some state \<and>
              js_get (ss_byIdempotencyKey state) (ev_idempotencyKey e) = Some (tracked_of e))"

lemma knows_append:
  assumes "knows q e"
  shows "knows (fst (append q f)) e"
proof -
  obtain state where st: "js_get q (ev_streamId e) = Some state"
    and k: "js_get (ss_byIdempotencyKey state) (ev_idempotencyKey e) = Some (tracked_of e)"
    using assms by (auto simp: knows_def)
  show ?thesis
  proof (cases "ev_streamId e = ev_streamId f \<and> fst (decide f (Some state)) \<noteq> None")
    case True
    then obtain state' d where dec: "decide f (Some state) = (Some state', d)"
      by (cases "decide f (Some state)") auto
    then have "js_get (fst (append q f)) (ev_streamId e) = Some state'"
      using True st by (simp add: append_get)
    with decide_keeps_key [OF k dec] show ?thesis
      by (simp add: knows_def)
  next
    case False
    then show ?thesis
      using st k append_get [of q f "ev_streamId e"] by (auto simp: knows_def split: option.split)
  qed
qed

lemma knows_append_all: "knows q e \<Longrightarrow> knows (fst (append_all q fs)) e"
proof (induction fs arbitrary: q)
  case (Cons f fs)
  then show ?case
    using knows_append [of q e f] by (simp add: Let_def split_beta)
qed simp

lemma decide_records:
  assumes "decide e st = (Some state, d)"
  shows "js_get (ss_byIdempotencyKey state) (ev_idempotencyKey e) = Some (tracked_of e)"
  using assms by (auto simp: decide_def Let_def split: option.splits if_splits)

lemma appended_is_known:
  assumes "is_appended (snd (append q e))"
  shows "knows (fst (append q e)) e"
proof -
  have "fst (decide e (js_get q (ev_streamId e))) \<noteq> None"
    using assms decide_None_state [of e "js_get q (ev_streamId e)"] by (simp add: append_decides)
  then obtain state d where dec: "decide e (js_get q (ev_streamId e)) = (Some state, d)"
    by (cases "decide e (js_get q (ev_streamId e))") auto
  then have "js_get (fst (append q e)) (ev_streamId e) = Some state"
    by (simp add: append_get)
  with decide_records [OF dec] show ?thesis
    by (simp add: knows_def)
qed

lemma known_is_duplicate: "knows q e \<Longrightarrow> append q e = (q, Duplicate (ev_sequence e))"
  by (auto simp: knows_def append_def decide_def tracked_of_def)

lemma append_all_stream:
  assumes "js_get q s = js_get r s"
  shows "case append_all q es of (q', ds) \<Rightarrow>
         case append_all r (filter (\<lambda>e. ev_streamId e = s) es) of (r', ds') \<Rightarrow>
           js_get q' s = js_get r' s \<and>
           map snd (filter (\<lambda>(e, d). ev_streamId e = s) (zip es ds)) = ds'"
  using assms
proof (induction es arbitrary: q r)
  case (Cons e es)
  obtain q1 d where one: "append q e = (q1, d)" by fastforce
  obtain r1 d' where one': "append r e = (r1, d')" by fastforce
  show ?case
  proof (cases "ev_streamId e = s")
    case True
    have "js_get q1 s = js_get r1 s" "d = d'"
      using append_get [of q e s] append_get [of r e s] append_decides [of q e]
        append_decides [of r e] one one' Cons.prems True by (simp_all split: option.splits)
    with Cons.IH [of q1 r1] show ?thesis
      using True one one' by (simp split: prod.splits)
  next
    case False
    have "js_get q1 s = js_get r s"
      using append_get [of q e s] one Cons.prems False by simp
    with Cons.IH [of q1 r] show ?thesis
      using False one by (simp split: prod.splits)
  qed
qed simp

section \<open>Replay\<close>

fun refusal :: "append_decision \<Rightarrow> sequence_error option" where
  "refusal (Refused error) = Some error"
| "refusal _ = None"

definition is_duplicate :: "append_decision \<Rightarrow> bool" where
  "is_duplicate d \<longleftrightarrow> (\<exists>n. d = Duplicate n)"

definition anomalies_of :: "nat \<Rightarrow> append_decision list \<Rightarrow> (nat \<times> sequence_error) list" where
  "anomalies_of k ds =
     List.map_filter (\<lambda>(i, d). map_option (Pair i) (refusal d)) (enumerate k ds)"

lemma anomalies_of_Nil [simp]: "anomalies_of k [] = []"
  by (simp add: anomalies_of_def List.map_filter_def)

lemma anomalies_of_Cons [simp]:
  "anomalies_of k (d # ds) =
     (case refusal d of None \<Rightarrow> [] | Some error \<Rightarrow> [(k, error)]) @ anomalies_of (Suc k) ds"
  by (cases d) (simp_all add: anomalies_of_def List.map_filter_def)

lemma replay_one_apply:
  "replay_one (i, e) (q, report) =
     (case append q e of
        (q', Appended _) \<Rightarrow> (q', report\<lparr>rr_appended := rr_appended report + 1\<rparr>)
      | (q', Duplicate _) \<Rightarrow> (q', report\<lparr>rr_duplicates := rr_duplicates report + 1\<rparr>)
      | (q', Refused error) \<Rightarrow> (q', report\<lparr>rr_anomalies := rr_anomalies report @ [(i, error)]\<rparr>))"
  by (simp only: replay_one_def prod.case)

lemma replay_fold:
  "fold replay_one (enumerate k es) (q, report) =
     (case append_all q es of (q', ds) \<Rightarrow>
        (q', report\<lparr>rr_appended := rr_appended report + length (filter is_appended ds),
                    rr_duplicates := rr_duplicates report + length (filter is_duplicate ds),
                    rr_anomalies := rr_anomalies report @ anomalies_of k ds\<rparr>))"
proof (induction es arbitrary: k q report)
  case Nil
  show ?case by simp
next
  case (Cons e es)
  obtain q1 d where one: "append q e = (q1, d)" by fastforce
  obtain q2 ds where rest: "append_all q1 es = (q2, ds)" by fastforce
  show ?case
    by (cases d)
      (simp_all add: one rest replay_one_apply Cons.IH is_appended_def is_duplicate_def)
qed

lemma inspectReplay_eq:
  "inspectReplay es =
     (case run_events es of (q, ds) \<Rightarrow>
        \<lparr>rr_appended = length (filter is_appended ds), rr_duplicates = length (filter is_duplicate ds),
         rr_anomalies = anomalies_of 0 ds, rr_streams = streams q\<rparr>)"
  by (simp add: inspectReplay_def replay_fold run_events_def split: prod.split)

lemma decisions_partition:
  "length (filter is_appended ds) + length (filter is_duplicate ds) + length (anomalies_of k ds) = length ds"
proof (induction ds arbitrary: k)
  case Nil
  show ?case by simp
next
  case (Cons d ds)
  then show ?case
    using Cons.IH [of "Suc k"]
    by (cases d) (simp_all add: is_appended_def is_duplicate_def)
qed

lemma anomalies_of_iff:
  "(i, err) \<in> set (anomalies_of k ds) \<longleftrightarrow> k \<le> i \<and> i < k + length ds \<and> ds ! (i - k) = Refused err"
proof -
  have "(i, err) \<in> set (anomalies_of k ds) \<longleftrightarrow>
          (\<exists>d. (i, d) \<in> set (enumerate k ds) \<and> refusal d = Some err)"
    by (force simp: anomalies_of_def List.map_filter_def)
  also have "\<dots> \<longleftrightarrow> k \<le> i \<and> i < k + length ds \<and> ds ! (i - k) = Refused err"
    by (auto simp: in_set_enumerate_eq elim: refusal.elims)
  finally show ?thesis .
qed

lemma append_all_wf: "js_wf q \<Longrightarrow> js_wf (fst (append_all q es))"
proof (induction es arbitrary: q)
  case (Cons e es)
  have "js_wf (fst (append q e))"
    using Cons.prems by (auto simp: append_def distinct_update split: prod.split option.split)
  then show ?case
    using Cons.IH by (simp add: split_beta Let_def)
qed simp

lemma streams_accepted:
  assumes "run_events es = (q, ds)"
  shows "distinct (streams q)" "s \<in> set (streams q) \<longleftrightarrow> accepted s es ds \<noteq> []"
proof -
  show "distinct (streams q)"
    using append_all_wf [of createStreamSequencer es] assms
    by (simp add: run_events_def createStreamSequencer_def streams_def)
  have "stream_ok (accepted s es ds) (js_get q s)"
    using run_events_ok [OF assms] by blast
  then have "js_get q s \<noteq> None \<longleftrightarrow> accepted s es ds \<noteq> []"
    by (auto simp: stream_ok_def split: option.splits)
  then show "s \<in> set (streams q) \<longleftrightarrow> accepted s es ds \<noteq> []"
    using js_keys_dom [of q] by (auto simp: streams_def)
qed

section \<open>Properties\<close>

text \<open>
  C37. Whatever events are offered, in whatever order and interleaving of streams, the events a
  stream accepted carry exactly the sequences 1, 2, ..., n, with pairwise different idempotency
  keys and event identifiers; \<open>lastSequence\<close>, \<open>expectedSequence\<close> and \<open>trackedEventCount\<close> report
  that n, and n never passes the tracking window.
\<close>

theorem stream_sequences_are_contiguous:
  "case run_events events of (q, decisions) \<Rightarrow>
     (let es = accepted s events decisions; n = length es in
        map ev_sequence es = [1 .. int n] \<and>
        distinct (map ev_idempotencyKey es) \<and> distinct (map ev_eventId es) \<and>
        lastSequence q s = (if n = 0 then None else Some (int n)) \<and>
        expectedSequence q s = int n + 1 \<and>
        trackedEventCount q s = n \<and> n \<le> MAX_TRACKED_EVENTS_PER_STREAM)"
proof -
  obtain q ds where run: "run_events events = (q, ds)" by fastforce
  have "stream_ok (accepted s events ds) (js_get q s)"
    using run_events_ok [OF run] by blast
  then show ?thesis
    by (simp add: run stream_ok_def Let_def lastSequence_def expectedSequence_def trackedEventCount_def
          FIRST_SEQUENCE_def nextSequence_def split: option.splits)
qed

text \<open>
  An append repeated after a retry is a no-op: once an event was appended, offering it again
  after any further appends answers \<open>duplicate\<close> with the sequence it got and leaves the sequencer
  as it was.
\<close>

theorem append_is_idempotent:
  assumes "is_appended (snd (append q e))"
  shows "let later = fst (append_all (fst (append q e)) fs)
         in append later e = (later, Duplicate (ev_sequence e))"
  using known_is_duplicate knows_append_all [OF appended_is_known [OF assms]]
  by (simp add: Let_def)

definition sequencer_demo_event :: "string \<Rightarrow> int \<Rightarrow> runtime_event" where
  "sequencer_demo_event stream n =
     \<lparr>ev_streamId = stream, ev_sequence = n, ev_idempotencyKey = CHR ''k'' # replicate (nat n) CHR ''i'',
      ev_eventId = CHR ''e'' # replicate (nat n) CHR ''i''\<rparr>"

theorem append_is_idempotent_witness:
  "let first = sequencer_demo_event ''s'' 1;
       later = fst (append_all (fst (append createStreamSequencer first)) [sequencer_demo_event ''s'' 2])
   in append later first = (later, Duplicate 1) \<and> lastSequence later ''s'' = Some 2"
proof -
  have "is_appended (snd (append createStreamSequencer (sequencer_demo_event ''s'' 1)))"
    by (simp add: append_def decide_def createStreamSequencer_def sequencer_demo_event_def
          FIRST_SEQUENCE_def is_appended_def)
  note dup = append_is_idempotent [OF this, of "[sequencer_demo_event ''s'' 2]"]
  have last: "lastSequence (fst (append_all (fst (append createStreamSequencer (sequencer_demo_event ''s'' 1)))
                [sequencer_demo_event ''s'' 2])) ''s'' = Some 2"
    by (simp add: append_def decide_def createStreamSequencer_def sequencer_demo_event_def lastSequence_def
          FIRST_SEQUENCE_def nextSequence_def MAX_TRACKED_EVENTS_PER_STREAM_def numeral_2_eq_2)
  have "ev_sequence (sequencer_demo_event ''s'' 1) = 1"
    by (simp add: sequencer_demo_event_def)
  with dup last show ?thesis
    by (simp only: Let_def)
qed

text \<open>
  Interleaved streams never observe each other's numbering: the decisions the events of one
  stream get, and the state the stream ends in, are those of a sequencer that was offered only
  that stream's events.
\<close>

theorem streams_are_independent:
  "case run_events events of (q, decisions) \<Rightarrow>
   case run_events (filter (\<lambda>e. ev_streamId e = s) events) of (q', decisions') \<Rightarrow>
     map snd (filter (\<lambda>(e, d). ev_streamId e = s) (zip events decisions)) = decisions' \<and>
     lastSequence q s = lastSequence q' s \<and> expectedSequence q s = expectedSequence q' s \<and>
     trackedEventCount q s = trackedEventCount q' s"
  using append_all_stream [of createStreamSequencer s createStreamSequencer events]
  by (simp add: run_events_def lastSequence_def expectedSequence_def trackedEventCount_def
        split: prod.splits)

text \<open>
  The replay report accounts for every event exactly once: the counts of appended and
  duplicate events and the anomalies add up to the input, an anomaly with its index is listed
  exactly when that event was refused with that error, and the streams are, without repetition,
  those that accepted an event.
\<close>

theorem replay_report_is_exact:
  "case run_events events of (q, decisions) \<Rightarrow>
     (let report = inspectReplay events in
        rr_appended report = length (filter is_appended decisions) \<and>
        rr_appended report + rr_duplicates report + length (rr_anomalies report) = length events \<and>
        (\<forall>i err. (i, err) \<in> set (rr_anomalies report) \<longleftrightarrow> i < length events \<and> decisions ! i = Refused err) \<and>
        distinct (rr_streams report) \<and>
        set (rr_streams report) = {s. accepted s events decisions \<noteq> []})"
proof -
  obtain q ds where run: "run_events events = (q, ds)" by fastforce
  then have len: "length ds = length events" using run_events_ok by blast
  show ?thesis
    using run len decisions_partition [of ds 0] streams_accepted [OF run]
    by (simp add: inspectReplay_eq anomalies_of_iff Let_def set_eq_iff)
qed

end
