(* ===== verification/Mid_Turn_Input.thy ===== *)
theory Mid_Turn_Input
  imports Foundation Js_Text "HOL-Library.Multiset"
begin

text \<open>
  What a user message means while a turn is active (\<^verbatim>\<open>src/domain/sessions/mid-turn-input.ts\<close>):
  steer, follow-up or interrupt, and the operations on the queue of follow-ups. Request texts are
  sequences of UTF-16 code units, whose number is what the queue's ceiling counts.
\<close>

section \<open>Definitions\<close>

definition MAX_FOLLOW_UP_QUEUE_ENTRIES :: nat where "MAX_FOLLOW_UP_QUEUE_ENTRIES = 8"

definition MAX_FOLLOW_UP_QUEUE_TEXT_UNITS :: nat where "MAX_FOLLOW_UP_QUEUE_TEXT_UNITS = 64 * 1024"

datatype mid_turn_classification = Steer | Follow_Up | Interrupt

record request_snapshot =
  rq_text :: js_text
  rq_attachmentIds :: "string list"
  rq_mentionIds :: "string list"

record follow_up_entry =
  fe_followUpId :: string
  fe_sessionId :: string
  fe_request :: request_snapshot
  fe_order :: int

record follow_up_queue =
  fq_sessionId :: string
  fq_entries :: "follow_up_entry list"

record active_turn_target =
  at_turnId :: string
  at_attemptId :: "string option"

record mid_session =
  mv_sessionId :: string
  mv_active :: "active_turn_target option"
  mv_queue :: follow_up_queue

datatype mid_turn_event =
    Classified string mid_turn_classification "string option" "string option" "string option" nat
  | Steer_Attached string string "string option" request_snapshot
  | Follow_Up_Queued string string nat nat
  | Follow_Up_Promoted string string nat
  | Follow_Up_Dropped string string nat
  | Follow_Up_Started string string string nat
  | Interrupt_Requested string string nat

datatype queue_limit = Limit_Entries | Limit_Text

datatype classify_error =
    Idle string
  | Ambiguous_Intent string
  | Second_Turn_Refused string
  | Queue_Full string queue_limit
  | Follow_Up_Missing string
  | Empty_Request string

record classify_ok =
  co_classification :: mid_turn_classification
  co_session :: mid_session
  co_events :: "mid_turn_event list"
  co_followUpId :: "string option"
  co_steer :: "request_snapshot option"

definition emptyFollowUpQueue :: "string \<Rightarrow> follow_up_queue" where
  "emptyFollowUpQueue sessionId = \<lparr>fq_sessionId = sessionId, fq_entries = []\<rparr>"

definition followUpQueueTextUnits :: "follow_up_queue \<Rightarrow> nat" where
  "followUpQueueTextUnits queue =
     foldl (\<lambda>sum entry. sum + length (rq_text (fe_request entry))) 0 (fq_entries queue)"

fun describeMidTurnClassifyError :: "classify_error \<Rightarrow> string" where
  "describeMidTurnClassifyError (Idle reason) = reason"
| "describeMidTurnClassifyError (Ambiguous_Intent reason) = reason"
| "describeMidTurnClassifyError (Second_Turn_Refused reason) = reason"
| "describeMidTurnClassifyError (Queue_Full reason _) = reason"
| "describeMidTurnClassifyError (Follow_Up_Missing followUpId) =
     ''follow-up '' @ followUpId @ '' is not in the queue''"
| "describeMidTurnClassifyError (Empty_Request reason) = reason"

definition enqueueFollowUp ::
  "follow_up_queue \<Rightarrow> string \<Rightarrow> request_snapshot \<Rightarrow> (follow_up_queue, classify_error) result" where
  "enqueueFollowUp queue followUpId request =
     (if length (fq_entries queue) \<ge> MAX_FOLLOW_UP_QUEUE_ENTRIES
      then Err (Queue_Full ''follow-up queue already holds 8 entries'' Limit_Entries)
      else let nextText = followUpQueueTextUnits queue + length (rq_text request) in
           if nextText > MAX_FOLLOW_UP_QUEUE_TEXT_UNITS
           then Err (Queue_Full ''follow-up queue would exceed 65536 text units'' Limit_Text)
           else let order = (if length (fq_entries queue) = 0 then 1
                             else Max (set (map fe_order (fq_entries queue))) + 1);
                    entry = \<lparr>fe_followUpId = followUpId, fe_sessionId = fq_sessionId queue,
                             fe_request = request, fe_order = order\<rparr>
                in Ok \<lparr>fq_sessionId = fq_sessionId queue, fq_entries = fq_entries queue @ [entry]\<rparr>)"

definition is_empty_request :: "request_snapshot \<Rightarrow> bool" where
  "is_empty_request request \<longleftrightarrow>
     trim (rq_text request) = [] \<and> length (rq_attachmentIds request) = 0 \<and> length (rq_mentionIds request) = 0"

definition classifyMidTurnInput ::
  "mid_session \<Rightarrow> mid_turn_classification option \<Rightarrow> request_snapshot \<Rightarrow> string \<Rightarrow>
   (classify_ok, classify_error) result" where
  "classifyMidTurnInput session intent request followUpId =
     (case intent of
        None \<Rightarrow> Err (Ambiguous_Intent ''mid-turn submit needs an explicit steer, follow-up, or interrupt intent'')
      | Some Interrupt \<Rightarrow>
          (case mv_active session of
             None \<Rightarrow> Err (Idle ''no in-flight turn to interrupt'')
           | Some active \<Rightarrow>
               Ok \<lparr>co_classification = Interrupt, co_session = session,
                   co_events =
                     [Classified (mv_sessionId session) Interrupt (Some (at_turnId active)) (at_attemptId active) None
                        (length (fq_entries (mv_queue session))),
                      Interrupt_Requested (mv_sessionId session) (at_turnId active)
                        (length (fq_entries (mv_queue session)))],
                   co_followUpId = None, co_steer = None\<rparr>)
      | Some kind \<Rightarrow>
          if is_empty_request request
          then Err (Empty_Request ''steer and follow-up need text, an attachment, or a mention'')
          else case mv_active session of
             None \<Rightarrow> Err (Idle ''no in-flight turn; start a turn instead of classifying mid-turn input'')
           | Some active \<Rightarrow>
               if kind = Steer
               then Ok \<lparr>co_classification = Steer, co_session = session,
                        co_events =
                          [Classified (mv_sessionId session) Steer (Some (at_turnId active)) (at_attemptId active) None
                             (length (fq_entries (mv_queue session))),
                           Steer_Attached (mv_sessionId session) (at_turnId active) (at_attemptId active) request],
                        co_followUpId = None, co_steer = Some request\<rparr>
               else case enqueueFollowUp (mv_queue session) followUpId request of
                  Err error \<Rightarrow> Err error
                | Ok queue \<Rightarrow>
                    let nextSession = session\<lparr>mv_queue := queue\<rparr>
                    in Ok \<lparr>co_classification = Follow_Up, co_session = nextSession,
                           co_events =
                             [Classified (mv_sessionId session) Follow_Up (Some (at_turnId active))
                                (at_attemptId active) (Some followUpId) (length (fq_entries (mv_queue nextSession))),
                              Follow_Up_Queued (mv_sessionId session) followUpId
                                (length (fq_entries (mv_queue nextSession)))
                                (followUpQueueTextUnits (mv_queue nextSession))],
                           co_followUpId = Some followUpId, co_steer = None\<rparr>)"

definition refuseSecondInFlightTurn :: "mid_session \<Rightarrow> classify_error option" where
  "refuseSecondInFlightTurn session =
     (case mv_active session of
        None \<Rightarrow> None
      | Some _ \<Rightarrow> Some (Second_Turn_Refused
          ''a turn is already in flight on this session; queue a follow-up instead''))"

text \<open>\<open>findIndex\<close>: the first position whose entry has the identifier.\<close>

fun find_entry :: "string \<Rightarrow> follow_up_entry list \<Rightarrow> nat option" where
  "find_entry followUpId [] = None"
| "find_entry followUpId (entry # rest) =
     (if fe_followUpId entry = followUpId then Some 0 else map_option Suc (find_entry followUpId rest))"

text \<open>\<open>filter((_, i) => i !== index)\<close>.\<close>

definition without_index :: "nat \<Rightarrow> 'a list \<Rightarrow> 'a list" where
  "without_index index xs = map snd (filter (\<lambda>(i, _). i \<noteq> index) (enumerate 0 xs))"

definition promoteFollowUp ::
  "follow_up_queue \<Rightarrow> string \<Rightarrow> (follow_up_queue \<times> mid_turn_event, classify_error) result" where
  "promoteFollowUp queue followUpId =
     (case find_entry followUpId (fq_entries queue) of
        None \<Rightarrow> Err (Follow_Up_Missing followUpId)
      | Some index \<Rightarrow>
          if index = 0
          then Ok (queue, Follow_Up_Promoted (fq_sessionId queue) followUpId (length (fq_entries queue)))
          else let selected = fq_entries queue ! index;
                   rest = without_index index (fq_entries queue);
                   next = \<lparr>fq_sessionId = fq_sessionId queue, fq_entries = selected # rest\<rparr>
               in Ok (next, Follow_Up_Promoted (fq_sessionId queue) followUpId (length (fq_entries next))))"

definition dropFollowUp ::
  "follow_up_queue \<Rightarrow> string \<Rightarrow> (follow_up_queue \<times> mid_turn_event, classify_error) result" where
  "dropFollowUp queue followUpId =
     (let nextEntries = filter (\<lambda>entry. fe_followUpId entry \<noteq> followUpId) (fq_entries queue) in
      if length nextEntries = length (fq_entries queue) then Err (Follow_Up_Missing followUpId)
      else let next = \<lparr>fq_sessionId = fq_sessionId queue, fq_entries = nextEntries\<rparr>
           in Ok (next, Follow_Up_Dropped (fq_sessionId queue) followUpId (length (fq_entries next))))"

definition applyFollowUpAsSteer ::
  "mid_session \<Rightarrow> string \<Rightarrow> (mid_session \<times> request_snapshot \<times> mid_turn_event list, classify_error) result" where
  "applyFollowUpAsSteer session followUpId =
     (case mv_active session of
        None \<Rightarrow> Err (Idle ''apply-as-steer needs an in-flight turn'')
      | Some active \<Rightarrow>
          (case dropFollowUp (mv_queue session) followUpId of
             Err error \<Rightarrow> Err error
           | Ok (queue, event) \<Rightarrow>
               (case List.find (\<lambda>item. fe_followUpId item = followUpId) (fq_entries (mv_queue session)) of
                  None \<Rightarrow> Err (Follow_Up_Missing followUpId)
                | Some entry \<Rightarrow>
                    Ok (session\<lparr>mv_queue := queue\<rparr>, fe_request entry,
                        [event, Steer_Attached (mv_sessionId session) (at_turnId active) (at_attemptId active)
                                  (fe_request entry)]))))"

record head_started =
  hs_session :: mid_session
  hs_followUpId :: string
  hs_request :: request_snapshot
  hs_event :: mid_turn_event

definition takeHeadFollowUpForNextTurn ::
  "mid_session \<Rightarrow> string \<Rightarrow> (head_started option, classify_error) result" where
  "takeHeadFollowUpForNextTurn session nextTurnId =
     (case mv_active session of
        Some _ \<Rightarrow>
          Err (case refuseSecondInFlightTurn session of
                 Some error \<Rightarrow> error
               | None \<Rightarrow> Second_Turn_Refused
                   ''a turn is already in flight on this session; queue a follow-up instead'')
      | None \<Rightarrow>
          (case fq_entries (mv_queue session) of
             [] \<Rightarrow> Ok None
           | head # remaining \<Rightarrow>
               Ok (Some
                 \<lparr>hs_session =
                    \<lparr>mv_sessionId = mv_sessionId session,
                     mv_active = Some \<lparr>at_turnId = nextTurnId, at_attemptId = None\<rparr>,
                     mv_queue = \<lparr>fq_sessionId = mv_sessionId session, fq_entries = remaining\<rparr>\<rparr>,
                  hs_followUpId = fe_followUpId head, hs_request = fe_request head,
                  hs_event = Follow_Up_Started (mv_sessionId session) (fe_followUpId head) nextTurnId
                               (length remaining)\<rparr>)))"

section \<open>The queue\<close>

lemma text_units_sum:
  "followUpQueueTextUnits queue = (\<Sum>e\<leftarrow>fq_entries queue. length (rq_text (fe_request e)))"
proof -
  have "foldl (\<lambda>sum entry. sum + length (rq_text (fe_request entry))) n es =
      n + (\<Sum>e\<leftarrow>es. length (rq_text (fe_request e)))" for n and es :: "follow_up_entry list"
    by (induction es arbitrary: n) auto
  then show ?thesis by (simp add: followUpQueueTextUnits_def)
qed

text \<open>What a queue of a session satisfies at all times.\<close>

definition queue_ok :: "string \<Rightarrow> follow_up_queue \<Rightarrow> bool" where
  "queue_ok sessionId queue \<longleftrightarrow>
     fq_sessionId queue = sessionId \<and>
     length (fq_entries queue) \<le> MAX_FOLLOW_UP_QUEUE_ENTRIES \<and>
     followUpQueueTextUnits queue \<le> MAX_FOLLOW_UP_QUEUE_TEXT_UNITS \<and>
     (\<forall>e \<in> set (fq_entries queue). fe_sessionId e = sessionId \<and> 1 \<le> fe_order e) \<and>
     distinct (map fe_order (fq_entries queue))"

lemma empty_queue_ok: "queue_ok s (emptyFollowUpQueue s)"
  by (simp add: queue_ok_def emptyFollowUpQueue_def followUpQueueTextUnits_def)

lemma same_mset:
  assumes "mset xs = mset ys"
  shows "set xs = set ys" "length xs = length ys" "distinct (map g xs) = distinct (map g ys)"
    and "(\<Sum>x\<leftarrow>xs. f x) = (\<Sum>x\<leftarrow>ys. f x :: nat)"
proof -
  show "set xs = set ys" "length xs = length ys"
    using assms by (rule mset_eq_setD, rule mset_eq_length)
  have "mset (map h xs) = mset (map h ys)" for h :: "'a \<Rightarrow> 'd"
    using assms by simp
  from mset_eq_imp_distinct_iff [OF this] show "distinct (map g xs) = distinct (map g ys)" .
  have "mset (map f xs) = mset (map f ys)" using assms by simp
  then show "(\<Sum>x\<leftarrow>xs. f x) = (\<Sum>x\<leftarrow>ys. f x)" by (metis sum_mset_sum_list)
qed

lemma queue_ok_sub:
  assumes "queue_ok s queue" "mset es \<subseteq># mset (fq_entries queue)"
  shows "queue_ok s \<lparr>fq_sessionId = s, fq_entries = es\<rparr>"
proof -
  obtain m where "mset (fq_entries queue) = mset es + m"
    using assms(2) by (auto simp: mset_subset_eq_exists_conv)
  moreover obtain rest where "m = mset rest" using ex_mset by metis
  ultimately have "mset (fq_entries queue) = mset (es @ rest)" by simp
  note same = same_mset [OF this]
  show ?thesis
    using assms(1) same(4) [of "\<lambda>e. length (rq_text (fe_request e))"] same(1,2) same(3) [of fe_order]
    by (auto simp: queue_ok_def text_units_sum)
qed

lemma enqueue_fresh_order:
  assumes "e \<in> set es"
  shows "fe_order e < Max (set (map fe_order es)) + 1"
  using assms Max_ge [of "set (map fe_order es)" "fe_order e"] by simp

lemma enqueue_Ok:
  assumes "enqueueFollowUp queue i r = Ok queue'"
  obtains order where
    "queue' = \<lparr>fq_sessionId = fq_sessionId queue, fq_entries = fq_entries queue @
        [\<lparr>fe_followUpId = i, fe_sessionId = fq_sessionId queue, fe_request = r, fe_order = order\<rparr>]\<rparr>"
    "length (fq_entries queue) < MAX_FOLLOW_UP_QUEUE_ENTRIES"
    "followUpQueueTextUnits queue + length (rq_text r) \<le> MAX_FOLLOW_UP_QUEUE_TEXT_UNITS"
    "\<And>e. e \<in> set (fq_entries queue) \<Longrightarrow> fe_order e < order"
    "fq_entries queue = [] \<Longrightarrow> order = 1"
proof
  let ?order = "if length (fq_entries queue) = 0 then 1 else Max (set (map fe_order (fq_entries queue))) + 1"
  show "queue' = \<lparr>fq_sessionId = fq_sessionId queue, fq_entries = fq_entries queue @
        [\<lparr>fe_followUpId = i, fe_sessionId = fq_sessionId queue, fe_request = r, fe_order = ?order\<rparr>]\<rparr>"
    "length (fq_entries queue) < MAX_FOLLOW_UP_QUEUE_ENTRIES"
    "followUpQueueTextUnits queue + length (rq_text r) \<le> MAX_FOLLOW_UP_QUEUE_TEXT_UNITS"
    using assms by (auto simp only: enqueueFollowUp_def Let_def result.inject split: if_splits)
  fix e assume "e \<in> set (fq_entries queue)"
  then show "fe_order e < ?order"
    using enqueue_fresh_order [of e "fq_entries queue"] by auto
qed simp

lemma enqueue_queue_ok:
  assumes ok: "queue_ok s queue" and "enqueueFollowUp queue i r = Ok queue'"
  shows "queue_ok s queue'"
  using assms(2)
proof (rule enqueue_Ok)
  fix order
  assume q: "queue' = \<lparr>fq_sessionId = fq_sessionId queue, fq_entries = fq_entries queue @
        [\<lparr>fe_followUpId = i, fe_sessionId = fq_sessionId queue, fe_request = r, fe_order = order\<rparr>]\<rparr>"
    and room: "length (fq_entries queue) < MAX_FOLLOW_UP_QUEUE_ENTRIES"
      "followUpQueueTextUnits queue + length (rq_text r) \<le> MAX_FOLLOW_UP_QUEUE_TEXT_UNITS"
    and above: "\<And>e. e \<in> set (fq_entries queue) \<Longrightarrow> fe_order e < order"
    and first: "fq_entries queue = [] \<Longrightarrow> order = 1"
  have "1 \<le> order"
  proof (cases "fq_entries queue")
    case (Cons e es)
    then have "1 \<le> fe_order e" using ok by (simp add: queue_ok_def)
    with above [of e] Cons show ?thesis by simp
  qed (use first in simp)
  with ok room show ?thesis
    by (auto simp: q queue_ok_def text_units_sum dest: above)
qed

lemma find_entry_Some:
  "find_entry i es = Some n \<Longrightarrow>
     n < length es \<and> fe_followUpId (es ! n) = i \<and> (\<forall>m < n. fe_followUpId (es ! m) \<noteq> i)"
proof (induction es arbitrary: n)
  case (Cons e es)
  show ?case
  proof (cases n)
    case 0
    with Cons.prems show ?thesis by (auto split: if_splits)
  next
    case (Suc m)
    with Cons.prems Cons.IH [of m] show ?thesis
      by (auto simp: less_Suc_eq_0_disj split: if_splits)
  qed
qed simp

lemma find_entry_None: "find_entry i es = None \<longleftrightarrow> i \<notin> fe_followUpId ` set es"
  by (induction es) auto

lemma enumerate_others:
  "map snd (filter (\<lambda>(i, _). i \<noteq> n) (enumerate k xs)) =
     (if k \<le> n \<and> n < k + length xs then take (n - k) xs @ drop (Suc (n - k)) xs else xs)"
proof (induction xs arbitrary: k)
  case (Cons x xs)
  show ?case
  proof (cases "k = n")
    case True
    then show ?thesis using Cons.IH [of "Suc k"] by simp
  next
    case False
    then show ?thesis using Cons.IH [of "Suc k"] by (auto simp: Suc_diff_Suc [symmetric] not_le take_Cons' drop_Cons')
  qed
qed simp

lemma without_index_eq: "n < length xs \<Longrightarrow> without_index n xs = take n xs @ drop (Suc n) xs"
  using enumerate_others [of n 0 xs] by (simp add: without_index_def)

text \<open>Promotion moves the first entry of that name to the front and keeps the order of the rest.\<close>

lemma promote_cases:
  obtains (missing) "i \<notin> fe_followUpId ` set (fq_entries queue)"
      "promoteFollowUp queue i = Err (Follow_Up_Missing i)"
  | (promoted) before e after where "fq_entries queue = before @ e # after" "fe_followUpId e = i"
      "i \<notin> fe_followUpId ` set before"
      "promoteFollowUp queue i =
         Ok (\<lparr>fq_sessionId = fq_sessionId queue, fq_entries = e # before @ after\<rparr>,
             Follow_Up_Promoted (fq_sessionId queue) i (length (fq_entries queue)))"
proof (cases "find_entry i (fq_entries queue)")
  case None
  then have "promoteFollowUp queue i = Err (Follow_Up_Missing i)" by (simp add: promoteFollowUp_def)
  with None show ?thesis using missing find_entry_None by blast
next
  case (Some n)
  let ?es = "fq_entries queue"
  have n: "n < length ?es" "fe_followUpId (?es ! n) = i" "\<forall>m < n. fe_followUpId (?es ! m) \<noteq> i"
    using find_entry_Some [OF Some] by auto
  have split: "?es = take n ?es @ ?es ! n # drop (Suc n) ?es"
    using n(1) by (rule id_take_nth_drop)
  have "i \<notin> fe_followUpId ` set (take n ?es)"
    using n(3) by (fastforce simp: in_set_conv_nth)
  moreover have "promoteFollowUp queue i =
      Ok (\<lparr>fq_sessionId = fq_sessionId queue, fq_entries = ?es ! n # take n ?es @ drop (Suc n) ?es\<rparr>,
          Follow_Up_Promoted (fq_sessionId queue) i (length ?es))"
    using n(1) Some by (cases "n = 0")
      (auto simp: promoteFollowUp_def Let_def without_index_eq Cons_nth_drop_Suc)
  ultimately show ?thesis using promoted split n(2) by blast
qed

lemma promote_queue_ok:
  assumes "queue_ok s queue" "promoteFollowUp queue i = Ok (queue', ev)"
  shows "queue_ok s queue'"
proof (cases rule: promote_cases [of i queue])
  case (promoted before e after)
  then have "mset (e # before @ after) \<subseteq># mset (fq_entries queue)" by simp
  from queue_ok_sub [OF assms(1) this] assms promoted(4) show ?thesis
    by (auto simp: queue_ok_def)
qed (use assms(2) in simp)

lemma drop_Ok:
  assumes "dropFollowUp queue i = Ok (queue', ev)"
  shows "queue' = \<lparr>fq_sessionId = fq_sessionId queue,
      fq_entries = filter (\<lambda>e. fe_followUpId e \<noteq> i) (fq_entries queue)\<rparr>"
    "i \<in> fe_followUpId ` set (fq_entries queue)"
  using assms by (auto simp: dropFollowUp_def Let_def length_filter_less image_iff split: if_splits)
    (metis (mono_tags, lifting) filter_True)

lemma drop_Err:
  assumes "dropFollowUp queue i = Err e"
  shows "e = Follow_Up_Missing i" "i \<notin> fe_followUpId ` set (fq_entries queue)"
  using assms length_filter_less [of _ "fq_entries queue" "\<lambda>e. fe_followUpId e \<noteq> i"]
  by (auto simp: dropFollowUp_def Let_def split: if_splits)

lemma drop_queue_ok:
  assumes "queue_ok s queue" "dropFollowUp queue i = Ok (queue', ev)"
  shows "queue_ok s queue'"
  using queue_ok_sub [OF assms(1), of "filter (\<lambda>e. fe_followUpId e \<noteq> i) (fq_entries queue)"]
    drop_Ok [OF assms(2)] assms(1)
  by (auto simp: queue_ok_def)

end
