(* ===== verification/Mid_Turn_Service.thy ===== *)
theory Mid_Turn_Service
  imports Mid_Turn_Input Turn_Coordinator Interruption
begin

text \<open>
  The session-scoped mid-turn input service (\<^verbatim>\<open>src/application/runtime/mid-turn-input.ts\<close>) over the
  turn coordinator and the interruption policy it is created with. The state of the three is one
  record, since an interrupt changes all of them; other holders of the coordinator and of the
  policy use them between two calls. A caller that installs its own \<open>nextFollowUpId\<close> is a caller
  that passes the identifier. \<open>Inl\<close> is a thrown identity error.
\<close>

section \<open>Definitions\<close>

record mid_world =
  mw_session :: mid_session
  mw_recorded :: "mid_turn_event list"
  mw_followUpSeq :: nat
  mw_coordinator :: coordinator
  mw_interruption :: interruption

definition createMidTurnInputService :: "string \<Rightarrow> nat \<Rightarrow> coordinator \<Rightarrow> interruption \<Rightarrow> mid_world" where
  "createMidTurnInputService sessionId seq coordinator interruption =
     \<lparr>mw_session = \<lparr>mv_sessionId = sessionId, mv_active = None, mv_queue = emptyFollowUpQueue sessionId\<rparr>,
      mw_recorded = [], mw_followUpSeq = seq, mw_coordinator = coordinator, mw_interruption = interruption\<rparr>"

definition defaultFollowUpId :: "mid_world \<Rightarrow> mid_world \<times> (identity_error + string)" where
  "defaultFollowUpId w =
     (let w = w\<lparr>mw_followUpSeq := mw_followUpSeq w + 1\<rparr>
      in (w, identifier_from ''followUpId'' (''follow-up-'' @ decimal (mw_followUpSeq w))))"

definition record_events :: "mid_turn_event list \<Rightarrow> mid_world \<Rightarrow> mid_world" where
  "record_events events w = w\<lparr>mw_recorded := mw_recorded w @ events\<rparr>"

definition mid_setActiveAttempt :: "string option \<Rightarrow> mid_world \<Rightarrow> mid_world" where
  "mid_setActiveAttempt attemptId w =
     (case mv_active (mw_session w) of
        None \<Rightarrow> w
      | Some active \<Rightarrow>
          w\<lparr>mw_session := (mw_session w)\<lparr>mv_active := Some (active\<lparr>at_attemptId := attemptId\<rparr>)\<rparr>\<rparr>)"

definition mid_syncFromTurn :: "turn_snapshot option \<Rightarrow> mid_world \<Rightarrow> mid_world" where
  "mid_syncFromTurn snapshot w =
     (case snapshot of
        Some (Active_Turn f) \<Rightarrow>
          let attemptId = (case mv_active (mw_session w) of
                             None \<Rightarrow> None
                           | Some active \<Rightarrow> if at_turnId active = tf_turnId f then at_attemptId active else None)
          in w\<lparr>mw_session := (mw_session w)\<lparr>mv_active :=
                 Some \<lparr>at_turnId = tf_turnId f, at_attemptId = attemptId\<rparr>\<rparr>\<rparr>
      | _ \<Rightarrow> w\<lparr>mw_session := (mw_session w)\<lparr>mv_active := None\<rparr>\<rparr>)"

record mid_classified =
  mc_classification :: mid_turn_classification
  mc_events :: "mid_turn_event list"
  mc_interrupt :: "interruption_decision option"

text \<open>The interrupt: climb the ladder, cancel the turn if the coordinator has it active, and clear the
  session's active turn unless the coordinator still has it active.\<close>

definition cancel_turn :: "completion_guard \<Rightarrow> string \<Rightarrow> coordinator \<Rightarrow> coordinator" where
  "cancel_turn canComplete turn c =
     (case coord_get c turn of
        Some (Active_Turn f) \<Rightarrow>
          fst (coord_apply canComplete
                 \<lparr>tci_turnId = turn,
                  tci_input = \<lparr>ti_command = Cancel, ti_configurationGeneration = tf_configurationGeneration f,
                               ti_causationEventId = None, ti_effect = None, ti_recoveryGeneration = None\<rparr>\<rparr> c)
      | _ \<Rightarrow> c)"

definition interrupt_active :: "completion_guard \<Rightarrow> instant \<Rightarrow> mid_world \<Rightarrow> mid_world \<times> interruption_decision" where
  "interrupt_active canComplete now w =
     (let (policy, decision) = interrupt Interrupt_Signal now (mw_interruption w);
          w = w\<lparr>mw_interruption := policy\<rparr>
      in case mv_active (mw_session w) of
           None \<Rightarrow> (w, decision)
         | Some active \<Rightarrow>
             let turn = at_turnId active;
                 w = w\<lparr>mw_coordinator := cancel_turn canComplete turn (mw_coordinator w)\<rparr>
             in case coord_get (mw_coordinator w) turn of
                  Some (Active_Turn _) \<Rightarrow> (w, decision)
                | _ \<Rightarrow> (w\<lparr>mw_session := (mw_session w)\<lparr>mv_active := None\<rparr>\<rparr>, decision))"

definition classify_as ::
  "completion_guard \<Rightarrow> instant \<Rightarrow> mid_turn_classification option \<Rightarrow> request_snapshot \<Rightarrow> string \<Rightarrow> mid_world \<Rightarrow>
   mid_world \<times> (mid_classified, classify_error) result" where
  "classify_as canComplete now intent request followUpId w =
     (case classifyMidTurnInput (mw_session w) intent request followUpId of
        Err error \<Rightarrow> (w, Err error)
      | Ok classified \<Rightarrow>
          let w = record_events (co_events classified) (w\<lparr>mw_session := co_session classified\<rparr>)
          in if co_classification classified = Interrupt
             then let (w, decision) = interrupt_active canComplete now w
                  in (w, Ok \<lparr>mc_classification = Interrupt, mc_events = co_events classified,
                             mc_interrupt = Some decision\<rparr>)
             else (w, Ok \<lparr>mc_classification = co_classification classified, mc_events = co_events classified,
                          mc_interrupt = None\<rparr>))"

definition mid_classify ::
  "completion_guard \<Rightarrow> instant \<Rightarrow> mid_turn_classification option \<Rightarrow> request_snapshot \<Rightarrow> string option \<Rightarrow> mid_world \<Rightarrow>
   mid_world \<times> (identity_error + (mid_classified, classify_error) result)" where
  "mid_classify canComplete now intent request followUpId w =
     (case (case followUpId of Some i \<Rightarrow> (w, Inr i) | None \<Rightarrow> defaultFollowUpId w) of
        (w, Inl e) \<Rightarrow> (w, Inl e)
      | (w, Inr i) \<Rightarrow>
          (case classify_as canComplete now intent request i w of (w, r) \<Rightarrow> (w, Inr r)))"

definition mid_promote :: "string \<Rightarrow> mid_world \<Rightarrow> mid_world \<times> (mid_turn_event list, classify_error) result" where
  "mid_promote i w =
     (case promoteFollowUp (mv_queue (mw_session w)) i of
        Err error \<Rightarrow> (w, Err error)
      | Ok (queue, event) \<Rightarrow>
          (record_events [event] (w\<lparr>mw_session := (mw_session w)\<lparr>mv_queue := queue\<rparr>\<rparr>), Ok [event]))"

definition mid_drop :: "string \<Rightarrow> mid_world \<Rightarrow> mid_world \<times> (mid_turn_event list, classify_error) result" where
  "mid_drop i w =
     (case dropFollowUp (mv_queue (mw_session w)) i of
        Err error \<Rightarrow> (w, Err error)
      | Ok (queue, event) \<Rightarrow>
          (record_events [event] (w\<lparr>mw_session := (mw_session w)\<lparr>mv_queue := queue\<rparr>\<rparr>), Ok [event]))"

definition mid_applyAsSteer ::
  "string \<Rightarrow> mid_world \<Rightarrow> mid_world \<times> (request_snapshot \<times> mid_turn_event list, classify_error) result" where
  "mid_applyAsSteer i w =
     (case applyFollowUpAsSteer (mw_session w) i of
        Err error \<Rightarrow> (w, Err error)
      | Ok (session, steer, events) \<Rightarrow> (record_events events (w\<lparr>mw_session := session\<rparr>), Ok (steer, events)))"

definition mid_startHeadFollowUp ::
  "string \<Rightarrow> mid_world \<Rightarrow>
   mid_world \<times> ((string \<times> request_snapshot \<times> mid_turn_event list) option, classify_error) result" where
  "mid_startHeadFollowUp nextTurnId w =
     (case takeHeadFollowUpForNextTurn (mw_session w) nextTurnId of
        Err error \<Rightarrow> (w, Err error)
      | Ok None \<Rightarrow> (w, Ok None)
      | Ok (Some head) \<Rightarrow>
          (record_events [hs_event head] (w\<lparr>mw_session := hs_session head\<rparr>),
           Ok (Some (hs_followUpId head, hs_request head, [hs_event head]))))"

definition mid_assertCanStartTurn :: "mid_world \<Rightarrow> classify_error option" where
  "mid_assertCanStartTurn w = refuseSecondInFlightTurn (mw_session w)"

section \<open>Runs of the service\<close>

inductive mid_step :: "completion_guard \<Rightarrow> mid_world \<Rightarrow> mid_world \<Rightarrow> bool" for g where
  mid_classified: "mid_step g w (fst (mid_classify g now intent request i w))"
| mid_promoted: "mid_step g w (fst (mid_promote i w))"
| mid_dropped: "mid_step g w (fst (mid_drop i w))"
| mid_steered: "mid_step g w (fst (mid_applyAsSteer i w))"
| mid_started: "mid_step g w (fst (mid_startHeadFollowUp nextTurnId w))"
| mid_attempt: "mid_step g w (mid_setActiveAttempt attemptId w)"
| mid_synced: "mid_step g w (mid_syncFromTurn snapshot w)"
| mid_coordinator: "coord_step g (mw_coordinator w) c \<Longrightarrow> mid_step g w (w\<lparr>mw_coordinator := c\<rparr>)"
| mid_signal: "mid_step g w (w\<lparr>mw_interruption := fst (interrupt signal now (mw_interruption w))\<rparr>)"
| mid_other_session: "mid_step g w (w\<lparr>mw_followUpSeq := mw_followUpSeq w + 1\<rparr>)"

definition mid_start :: "string \<Rightarrow> mid_world \<Rightarrow> bool" where
  "mid_start sessionId w \<longleftrightarrow>
     (\<exists>seq. w = createMidTurnInputService sessionId seq createTurnCoordinator createInterruptionPolicy)"

section \<open>One call\<close>

lemma cancel_turn_spec:
  assumes "coord_get c turn = Some (Active_Turn f)"
  shows "\<exists>f'. coord_get (cancel_turn g turn c) turn = Some (Terminal_Turn f'
      (if tf_phase f = Executing_Capability then Uncertain else Cancelled (tf_recordedEffect f)))"
    "other \<noteq> turn \<Longrightarrow> coord_get (cancel_turn g turn c) other = coord_get c other"
  using assms
  by (auto simp: cancel_turn_def coord_get_def coord_apply_def guarded_transition_def turn_defs)

lemma cancel_turn_idle:
  "(\<forall>f. coord_get c turn \<noteq> Some (Active_Turn f)) \<Longrightarrow> cancel_turn g turn c = c"
  by (auto simp: cancel_turn_def split: option.split turn_snapshot.split)

lemma cancel_turn_not_active: "coord_get (cancel_turn g turn c) turn \<noteq> Some (Active_Turn f')"
proof (cases "\<exists>f. coord_get c turn = Some (Active_Turn f)")
  case True
  then obtain f where "coord_get c turn = Some (Active_Turn f)" ..
  from cancel_turn_spec(1) [OF this, of g] show ?thesis by auto
next
  case False
  then show ?thesis using cancel_turn_idle [of c turn g] by auto
qed

lemma interrupt_active_eq:
  assumes "mv_active (mw_session w) = Some active"
  shows "interrupt_active g now w =
    (w\<lparr>mw_interruption := fst (interrupt Interrupt_Signal now (mw_interruption w)),
       mw_coordinator := cancel_turn g (at_turnId active) (mw_coordinator w),
       mw_session := (mw_session w)\<lparr>mv_active := None\<rparr>\<rparr>,
     snd (interrupt Interrupt_Signal now (mw_interruption w)))"
  using assms cancel_turn_not_active [of g "at_turnId active" "mw_coordinator w"]
  by (auto simp: interrupt_active_def Let_def split: prod.split option.split turn_snapshot.split)

lemma classify_interrupt:
  assumes "mv_active (mw_session w) = Some active"
  shows "\<exists>events. classify_as g now (Some Interrupt) request i w =
    (w\<lparr>mw_recorded := mw_recorded w @ events,
       mw_interruption := fst (interrupt Interrupt_Signal now (mw_interruption w)),
       mw_coordinator := cancel_turn g (at_turnId active) (mw_coordinator w),
       mw_session := (mw_session w)\<lparr>mv_active := None\<rparr>\<rparr>,
     Ok \<lparr>mc_classification = Interrupt, mc_events = events,
         mc_interrupt = Some (snd (interrupt Interrupt_Signal now (mw_interruption w)))\<rparr>)"
  using assms
  by (simp add: classify_as_def classifyMidTurnInput_def record_events_def interrupt_active_eq Let_def)

lemma cancel_turn_step: "coord_inv c \<Longrightarrow> coord_inv (cancel_turn g turn c)"
  by (auto simp: cancel_turn_def intro: coord_apply_inv split: option.split turn_snapshot.split)

lemma default_id_legal:
  assumes "n < 10 ^ 118"
  shows "identifier_from ''followUpId'' (''follow-up-'' @ decimal n) = Inr (''follow-up-'' @ decimal n)"
proof -
  have "list_all legal_char (''follow-up-'' @ decimal n)"
    using decimal_digits [of _ n] by (fastforce simp: list_all_iff legal_char_def)
  moreover have "length (''follow-up-'' @ decimal n) \<le> MAX_IDENTIFIER_LENGTH"
    using decimal_length [OF assms] by (simp add: MAX_IDENTIFIER_LENGTH_def)
  ultimately show ?thesis
    by (simp add: identifier_from_def LEGAL_IDENTIFIER_def)
qed

text \<open>The service never throws while its counter prints within an identifier's length.\<close>

lemma mid_classify_named:
  assumes "followUpId = None \<Longrightarrow> mw_followUpSeq w + 1 < 10 ^ 118"
  obtains w' i where "w' = (if followUpId = None then w\<lparr>mw_followUpSeq := mw_followUpSeq w + 1\<rparr> else w)"
    "mid_classify g now intent request followUpId w =
       (fst (classify_as g now intent request i w'), Inr (snd (classify_as g now intent request i w')))"
    "i = (case followUpId of None \<Rightarrow> ''follow-up-'' @ decimal (mw_followUpSeq w + 1) | Some i \<Rightarrow> i)"
proof (cases followUpId)
  case None
  then show ?thesis
    using that default_id_legal [OF assms [OF None]]
    by (simp add: mid_classify_def defaultFollowUpId_def Let_def split: prod.split)
next
  case (Some i)
  then show ?thesis using that by (simp add: mid_classify_def split: prod.split)
qed

section \<open>The invariant\<close>

definition mid_inv :: "string \<Rightarrow> mid_world \<Rightarrow> bool" where
  "mid_inv sessionId w \<longleftrightarrow>
     mv_sessionId (mw_session w) = sessionId \<and> queue_ok sessionId (mv_queue (mw_session w)) \<and>
     coord_inv (mw_coordinator w)"

lemma mid_inv_frame [simp]:
  "mid_inv s (w\<lparr>mw_interruption := p\<rparr>) = mid_inv s w"
  "mid_inv s (w\<lparr>mw_followUpSeq := n\<rparr>) = mid_inv s w"
  "mid_inv s (record_events es w) = mid_inv s w"
  "mid_inv s (w\<lparr>mw_session := (mw_session w)\<lparr>mv_active := a\<rparr>\<rparr>) = mid_inv s w"
  by (simp_all add: mid_inv_def record_events_def)

lemma mid_inv_queue:
  "mid_inv s w \<Longrightarrow> queue_ok s q \<Longrightarrow> mid_inv s (w\<lparr>mw_session := (mw_session w)\<lparr>mv_queue := q\<rparr>\<rparr>)"
  by (simp add: mid_inv_def)

lemma classified_session:
  assumes "classifyMidTurnInput session intent request i = Ok r" "queue_ok s (mv_queue session)"
  shows "mv_sessionId (co_session r) = mv_sessionId session" "mv_active (co_session r) = mv_active session"
    "queue_ok s (mv_queue (co_session r))"
    "co_classification r \<noteq> Follow_Up \<Longrightarrow> co_session r = session"
    "intent = Some (co_classification r)" "mv_active session \<noteq> None"
  using assms enqueue_queue_ok [OF assms(2)]
  by (auto simp: classifyMidTurnInput_def Let_def split: option.splits mid_turn_classification.splits
        if_splits result.splits)

lemma interrupt_active_inv: "mid_inv s w \<Longrightarrow> mid_inv s (fst (interrupt_active g now w))"
proof (cases "mv_active (mw_session w)")
  case None
  assume "mid_inv s w"
  with None show ?thesis by (simp add: interrupt_active_def Let_def split: prod.split)
next
  case (Some active)
  assume "mid_inv s w"
  with Some show ?thesis
    by (simp add: interrupt_active_eq mid_inv_def cancel_turn_step)
qed

lemma classify_as_inv:
  assumes "mid_inv s w"
  shows "mid_inv s (fst (classify_as g now intent request i w))"
proof (cases "classifyMidTurnInput (mw_session w) intent request i")
  case (Ok r)
  have q: "queue_ok s (mv_queue (mw_session w))" using assms by (simp add: mid_inv_def)
  have "mid_inv s (record_events (co_events r) (w\<lparr>mw_session := co_session r\<rparr>))"
    using assms classified_session [OF Ok q] by (simp add: mid_inv_def record_events_def)
  from this interrupt_active_inv [OF this, of g now] show ?thesis
    by (auto simp: classify_as_def Ok Let_def split: prod.split)
qed (simp add: classify_as_def assms)

lemma steer_Ok:
  assumes "applyFollowUpAsSteer session i = Ok (session', steer, events)"
  obtains q ev where "dropFollowUp (mv_queue session) i = Ok (q, ev)" "session' = session\<lparr>mv_queue := q\<rparr>"
    "mv_active session \<noteq> None"
    "\<exists>e \<in> set (fq_entries (mv_queue session)). fe_followUpId e = i \<and> fe_request e = steer"
proof -
  obtain q ev e where "dropFollowUp (mv_queue session) i = Ok (q, ev)" "session' = session\<lparr>mv_queue := q\<rparr>"
    "mv_active session \<noteq> None" "steer = fe_request e"
    and e: "List.find (\<lambda>item. fe_followUpId item = i) (fq_entries (mv_queue session)) = Some e"
    using assms by (auto simp: applyFollowUpAsSteer_def split: option.splits result.splits)
  moreover from e have "e \<in> set (fq_entries (mv_queue session))" "fe_followUpId e = i"
    by (auto simp: find_Some_iff)
  ultimately show ?thesis using that by blast
qed

lemma head_Ok:
  assumes "takeHeadFollowUpForNextTurn session t = Ok (Some h)"
  obtains e es where "fq_entries (mv_queue session) = e # es" "mv_active session = None"
    "hs_session h = \<lparr>mv_sessionId = mv_sessionId session,
       mv_active = Some \<lparr>at_turnId = t, at_attemptId = None\<rparr>,
       mv_queue = \<lparr>fq_sessionId = mv_sessionId session, fq_entries = es\<rparr>\<rparr>"
    "hs_followUpId h = fe_followUpId e" "hs_request h = fe_request e"
  using assms that by (auto simp: takeHeadFollowUpForNextTurn_def split: option.splits list.splits)

lemma mid_step_inv:
  assumes "mid_step g w w'" "mid_inv s w"
  shows "mid_inv s w'"
  using assms(1)
proof cases
  case (mid_classified now intent request i)
  then show ?thesis
    using assms(2) classify_as_inv
    by (auto simp: mid_classify_def defaultFollowUpId_def Let_def split: prod.split sum.split option.split)
       (metis fst_conv mid_inv_frame(2))+
next
  case (mid_promoted i)
  then show ?thesis
    using assms(2) promote_queue_ok [of s "mv_queue (mw_session w)" i]
    by (auto simp: mid_promote_def mid_inv_queue mid_inv_def [of s w] split: result.split prod.split)
next
  case (mid_dropped i)
  then show ?thesis
    using assms(2) drop_queue_ok [of s "mv_queue (mw_session w)" i]
    by (auto simp: mid_drop_def mid_inv_queue mid_inv_def [of s w] split: result.split prod.split)
next
  case (mid_steered i)
  show ?thesis
  proof (cases "applyFollowUpAsSteer (mw_session w) i")
    case (Ok r)
    obtain session steer events where r: "r = (session, steer, events)" by (cases r)
    from Ok [unfolded r] obtain q ev where "dropFollowUp (mv_queue (mw_session w)) i = Ok (q, ev)"
      "session = (mw_session w)\<lparr>mv_queue := q\<rparr>" by (rule steer_Ok)
    with assms(2) drop_queue_ok [of s "mv_queue (mw_session w)" i q ev] show ?thesis
      by (simp add: mid_steered mid_applyAsSteer_def Ok r mid_inv_queue mid_inv_def [of s w])
  qed (simp add: mid_steered mid_applyAsSteer_def assms(2))
next
  case (mid_started t)
  show ?thesis
  proof (cases "\<exists>h. takeHeadFollowUpForNextTurn (mw_session w) t = Ok (Some h)")
    case True
    then obtain h where h: "takeHeadFollowUpForNextTurn (mw_session w) t = Ok (Some h)" ..
    then obtain e es where es: "fq_entries (mv_queue (mw_session w)) = e # es"
      "hs_session h = \<lparr>mv_sessionId = mv_sessionId (mw_session w),
       mv_active = Some \<lparr>at_turnId = t, at_attemptId = None\<rparr>,
       mv_queue = \<lparr>fq_sessionId = mv_sessionId (mw_session w), fq_entries = es\<rparr>\<rparr>"
      by (rule head_Ok)
    have "mset es \<subseteq># mset (fq_entries (mv_queue (mw_session w)))" by (simp add: es)
    with assms(2) queue_ok_sub [of s "mv_queue (mw_session w)" es] show ?thesis
      by (simp add: mid_started mid_startHeadFollowUp_def h es(2) mid_inv_def record_events_def)
  next
    case False
    then show ?thesis
      using assms(2) by (auto simp: mid_started mid_startHeadFollowUp_def split: result.split option.split)
  qed
next
  case (mid_attempt a)
  then show ?thesis using assms(2) by (auto simp: mid_setActiveAttempt_def split: option.split)
next
  case (mid_synced snapshot)
  then show ?thesis
    using assms(2) by (auto simp: mid_syncFromTurn_def Let_def split: option.split turn_snapshot.split)
next
  case (mid_coordinator c)
  then show ?thesis using assms(2) turns.inv_step by (auto simp: mid_inv_def)
qed (use assms(2) in simp_all)

interpretation mids: safety_machine "mid_start sessionId" "mid_step g" "mid_inv sessionId"
proof unfold_locales
  fix w assume "mid_start sessionId w"
  then show "mid_inv sessionId w"
    by (auto simp: mid_start_def createMidTurnInputService_def mid_inv_def empty_queue_ok coord_inv_start)
qed (rule mid_step_inv)

text \<open>Removing the one entry of a name.\<close>

lemma filter_unique:
  assumes "distinct (map k xs)" "x \<in> set xs"
  obtains before after where "xs = before @ x # after" "filter (\<lambda>y. k y \<noteq> k x) xs = before @ after"
proof -
  obtain before after where xs: "xs = before @ x # after" using assms(2) by (meson split_list)
  with assms(1) have "k x \<notin> k ` set before" "k x \<notin> k ` set after" by auto
  then have "filter (\<lambda>y. k y \<noteq> k x) before = before" "filter (\<lambda>y. k y \<noteq> k x) after = after"
    by (simp_all add: filter_id_conv) (metis imageI)+
  then have "filter (\<lambda>y. k y \<noteq> k x) xs = before @ after"
    by (simp add: xs)
  with xs show ?thesis by (rule that)
qed

abbreviation follow_ups :: "mid_world \<Rightarrow> follow_up_entry list" where
  "follow_ups w \<equiv> fq_entries (mv_queue (mw_session w))"

lemma promote_moves:
  assumes "mid_promote i w = (w', Ok evs)"
  shows "\<exists>before e after. follow_ups w = before @ e # after \<and> fe_followUpId e = i \<and>
    follow_ups w' = e # before @ after"
proof (cases rule: promote_cases [of i "mv_queue (mw_session w)"])
  case missing
  then show ?thesis using assms by (simp add: mid_promote_def)
next
  case (promoted before e after)
  then have "follow_ups w' = e # before @ after"
    using assms by (auto simp: mid_promote_def record_events_def)
  with promoted show ?thesis by blast
qed

lemma drop_removes:
  assumes "dropFollowUp queue i = Ok (queue', ev)" "distinct (map fe_followUpId (fq_entries queue))"
  shows "\<exists>before e after. fq_entries queue = before @ e # after \<and> fe_followUpId e = i \<and>
    fq_entries queue' = before @ after"
proof -
  obtain e where e: "e \<in> set (fq_entries queue)" "fe_followUpId e = i"
    using drop_Ok(2) [OF assms(1)] by auto
  obtain before after where "fq_entries queue = before @ e # after"
    "filter (\<lambda>y. fe_followUpId y \<noteq> fe_followUpId e) (fq_entries queue) = before @ after"
    using filter_unique [OF assms(2) e(1)] .
  with e(2) drop_Ok(1) [OF assms(1)] show ?thesis by auto
qed

lemma steer_removes:
  assumes "mid_applyAsSteer i w = (w', Ok (steer, evs))" "distinct (map fe_followUpId (follow_ups w))"
  shows "\<exists>before e after. follow_ups w = before @ e # after \<and> fe_followUpId e = i \<and>
    fe_request e = steer \<and> follow_ups w' = before @ after"
proof -
  obtain session where s: "applyFollowUpAsSteer (mw_session w) i = Ok (session, steer, evs)"
    and w': "follow_ups w' = fq_entries (mv_queue session)"
    using assms(1) by (auto simp: mid_applyAsSteer_def record_events_def split: result.splits prod.splits)
  from s show ?thesis
  proof (rule steer_Ok)
    fix q ev
    assume d: "dropFollowUp (mv_queue (mw_session w)) i = Ok (q, ev)"
      and session: "session = (mw_session w)\<lparr>mv_queue := q\<rparr>"
      and e: "\<exists>e \<in> set (follow_ups w). fe_followUpId e = i \<and> fe_request e = steer"
    obtain before e' after where *: "follow_ups w = before @ e' # after" "fe_followUpId e' = i"
      "fq_entries q = before @ after"
      using drop_removes [OF d assms(2)] by blast
    moreover from e obtain e'' where "e'' \<in> set (follow_ups w)" "fe_followUpId e'' = i" "fe_request e'' = steer"
      by blast
    moreover have "e'' = e'"
    proof (rule inj_onD [of fe_followUpId "set (follow_ups w)"])
      show "inj_on fe_followUpId (set (follow_ups w))" using assms(2) by (simp add: distinct_map)
    qed (use * \<open>e'' \<in> set (follow_ups w)\<close> \<open>fe_followUpId e'' = i\<close> in auto)
    ultimately show ?thesis using w' session by auto
  qed
qed

section \<open>Properties\<close>

text \<open>
  In every run of the service, with other parts of the program using the coordinator and the
  interruption policy in between, the follow-up queue holds at most eight entries and at most 65536
  code units of text, every entry belongs to the session, and the enqueue orders are positive and
  pairwise different.
\<close>

theorem follow_up_queue_is_bounded:
  assumes "reachable (mid_start sessionId) (mid_step canComplete) w"
  shows "mv_sessionId (mw_session w) = sessionId \<and> length (follow_ups w) \<le> 8 \<and>
    (\<Sum>e\<leftarrow>follow_ups w. length (rq_text (fe_request e))) \<le> 65536 \<and>
    (\<forall>e \<in> set (follow_ups w). fe_sessionId e = sessionId \<and> 1 \<le> fe_order e) \<and>
    distinct (map fe_order (follow_ups w))"
  using mids.always [OF assms]
  by (auto simp: mid_inv_def queue_ok_def text_units_sum MAX_FOLLOW_UP_QUEUE_ENTRIES_def
        MAX_FOLLOW_UP_QUEUE_TEXT_UNITS_def)

definition mid_demo_request :: "nat \<Rightarrow> request_snapshot" where
  "mid_demo_request n = \<lparr>rq_text = replicate n 97, rq_attachmentIds = [], rq_mentionIds = []\<rparr>"

definition mid_demo_start :: mid_world where
  "mid_demo_start = createMidTurnInputService ''s'' 0 createTurnCoordinator createInterruptionPolicy"

definition mid_demo_active :: mid_world where
  "mid_demo_active = mid_syncFromTurn (Some sample_turn)
     (mid_demo_start\<lparr>mw_coordinator := fst (coord_start \<lparr>sti_turnId = ''t'', sti_sessionId = ''s'',
        sti_workspaceId = ''w'', sti_traceId = ''x'', sti_configurationGeneration = 0\<rparr> createTurnCoordinator)\<rparr>)"

lemmas mid_demo_defs = mid_demo_start_def mid_syncFromTurn_def sample_turn_def turn_defs
  createMidTurnInputService_def coord_start_def createTurnCoordinator_def coord_get_def

definition mid_demo_queued :: "string option \<Rightarrow> nat \<Rightarrow> mid_world \<Rightarrow> mid_world" where
  "mid_demo_queued i n w = fst (mid_classify None 0 (Some Follow_Up) (mid_demo_request n) i w)"

lemma mid_demo_request_not_empty: "0 < n \<Longrightarrow> \<not> is_empty_request (mid_demo_request n)"
  by (cases n) (simp_all add: is_empty_request_def mid_demo_request_def trim_empty_iff is_js_space_def)

lemma mid_demo_follow_ups:
  assumes "mv_active (mw_session w) = Some a" "0 < n" "length (follow_ups w) \<le> 1"
    "followUpQueueTextUnits (mv_queue (mw_session w)) \<le> 10" "n \<le> 10" "mw_followUpSeq w < 8"
  shows "\<exists>order. follow_ups (mid_demo_queued i n w) = follow_ups w @
      [\<lparr>fe_followUpId = (case i of None \<Rightarrow> ''follow-up-'' @ decimal (mw_followUpSeq w + 1) | Some i \<Rightarrow> i),
        fe_sessionId = fq_sessionId (mv_queue (mw_session w)), fe_request = mid_demo_request n, fe_order = order\<rparr>] \<and>
      mv_active (mw_session (mid_demo_queued i n w)) = Some a \<and>
      mw_followUpSeq (mid_demo_queued i n w) \<le> mw_followUpSeq w + 1"
proof -
  have "mw_followUpSeq w + 1 < 10 ^ 118"
  proof -
    have "(10::nat) ^ 1 \<le> 10 ^ 118" by (rule power_increasing) simp_all
    with assms(6) show ?thesis by simp
  qed
  then obtain v j where v: "v = (if i = None then w\<lparr>mw_followUpSeq := mw_followUpSeq w + 1\<rparr> else w)"
    and cl: "mid_demo_queued i n w = fst (classify_as None 0 (Some Follow_Up) (mid_demo_request n) j v)"
    and j: "j = (case i of None \<Rightarrow> ''follow-up-'' @ decimal (mw_followUpSeq w + 1) | Some i \<Rightarrow> i)"
    unfolding mid_demo_queued_def using mid_classify_named [of i w None 0 "Some Follow_Up" "mid_demo_request n"] by (metis fst_conv)
  have "length (rq_text (mid_demo_request n)) \<le> 10" using assms(5) by (simp add: mid_demo_request_def)
  moreover have sv: "mw_session v = mw_session w" by (simp add: v)
  moreover obtain order where
    "order = (if length (follow_ups w) = 0 then 1 else Max (set (map fe_order (follow_ups w))) + 1)" by simp
  ultimately have enq: "enqueueFollowUp (mv_queue (mw_session v)) j (mid_demo_request n) =
      Ok \<lparr>fq_sessionId = fq_sessionId (mv_queue (mw_session w)), fq_entries = follow_ups w @
        [\<lparr>fe_followUpId = j, fe_sessionId = fq_sessionId (mv_queue (mw_session w)),
          fe_request = mid_demo_request n, fe_order = order\<rparr>]\<rparr>"
    using assms(3,4)
    by (simp add: enqueueFollowUp_def Let_def MAX_FOLLOW_UP_QUEUE_ENTRIES_def MAX_FOLLOW_UP_QUEUE_TEXT_UNITS_def)
  obtain r where "classifyMidTurnInput (mw_session v) (Some Follow_Up) (mid_demo_request n) j = Ok r"
    "co_classification r = Follow_Up"
    and r: "follow_ups (v\<lparr>mw_session := co_session r\<rparr>) = follow_ups w @
        [\<lparr>fe_followUpId = j, fe_sessionId = fq_sessionId (mv_queue (mw_session w)),
          fe_request = mid_demo_request n, fe_order = order\<rparr>]" "mv_active (co_session r) = Some a"
    using enq assms(1) mid_demo_request_not_empty [OF assms(2)]
    by (simp add: classifyMidTurnInput_def sv Let_def)
  then have "mid_demo_queued i n w = record_events (co_events r) (v\<lparr>mw_session := co_session r\<rparr>)"
    by (simp add: cl classify_as_def Let_def)
  with r j v show ?thesis by (auto simp: record_events_def)
qed

lemma mid_demo_active_facts:
  "mv_active (mw_session mid_demo_active) = Some \<lparr>at_turnId = ''t'', at_attemptId = None\<rparr>"
  "follow_ups mid_demo_active = []" "mw_followUpSeq mid_demo_active = 0"
  by (simp_all add: mid_demo_active_def mid_demo_defs emptyFollowUpQueue_def)

lemma decimal_one: "decimal (Suc 0) = ''1''"
  by code_simp

lemma mid_demo_one:
  assumes "0 < n" "n \<le> 10"
  shows "map fe_followUpId (follow_ups (mid_demo_queued i n mid_demo_active)) =
      [case i of None \<Rightarrow> ''follow-up-1'' | Some i \<Rightarrow> i]"
    "map fe_request (follow_ups (mid_demo_queued i n mid_demo_active)) = [mid_demo_request n]"
    "mv_active (mw_session (mid_demo_queued i n mid_demo_active)) = Some \<lparr>at_turnId = ''t'', at_attemptId = None\<rparr>"
    "mw_followUpSeq (mid_demo_queued i n mid_demo_active) \<le> 1"
  using mid_demo_follow_ups [OF mid_demo_active_facts(1) assms(1), of i] assms(2)
  by (auto simp: mid_demo_active_facts text_units_sum decimal_one split: option.split)

lemma mid_demo_two:
  fixes i j :: string
  assumes "0 < m" "m \<le> 10" "0 < n" "n \<le> 10"
  defines "w \<equiv> mid_demo_queued (Some j) n (mid_demo_queued (Some i) m mid_demo_active)"
  shows "map fe_followUpId (follow_ups w) = [i, j]"
    "map fe_request (follow_ups w) = [mid_demo_request m, mid_demo_request n]"
    "mv_active (mw_session w) = Some \<lparr>at_turnId = ''t'', at_attemptId = None\<rparr>"
proof -
  let ?u = "mid_demo_queued (Some i) m mid_demo_active"
  note one = mid_demo_one [OF assms(1,2), of "Some i"]
  have "length (map fe_followUpId (follow_ups ?u)) = 1" by (simp only: one) simp
  moreover have "(\<Sum>r\<leftarrow>map fe_request (follow_ups ?u). length (rq_text r)) \<le> 10"
    using assms(2) by (simp only: one) (simp add: mid_demo_request_def)
  ultimately show "map fe_followUpId (follow_ups w) = [i, j]"
    "map fe_request (follow_ups w) = [mid_demo_request m, mid_demo_request n]"
    "mv_active (mw_session w) = Some \<lparr>at_turnId = ''t'', at_attemptId = None\<rparr>"
    using mid_demo_follow_ups [OF one(3) assms(3), of "Some j"] assms(4) one
    by (auto simp: w_def text_units_sum comp_def)
qed

lemma mid_demo_active_reachable: "reachable (mid_start ''s'') (mid_step None) mid_demo_active"
proof -
  have "coord_step None (mw_coordinator mid_demo_start) (fst (coord_start \<lparr>sti_turnId = ''t'', sti_sessionId = ''s'',
        sti_workspaceId = ''w'', sti_traceId = ''x'', sti_configurationGeneration = 0\<rparr> createTurnCoordinator))"
    using coord_step.step_start [of None "mw_coordinator mid_demo_start"]
    by (simp add: mid_demo_start_def createMidTurnInputService_def)
  moreover have "reachable (mid_start ''s'') (mid_step None) mid_demo_start"
    by (rule reach_start) (auto simp: mid_start_def mid_demo_start_def)
  ultimately show ?thesis
    unfolding mid_demo_active_def by (blast intro: reach_step mid_step.intros)
qed

theorem follow_up_queue_is_bounded_witness:
  "let w = mid_demo_queued None 3 mid_demo_active in
     map fe_followUpId (follow_ups w) = [''follow-up-1''] \<and> length (follow_ups w) \<le> 8"
proof -
  have "reachable (mid_start ''s'') (mid_step None) (mid_demo_queued None 3 mid_demo_active)"
    unfolding mid_demo_queued_def by (rule reach_step [OF mid_demo_active_reachable mid_step.mid_classified])
  from follow_up_queue_is_bounded [OF this]
  have "length (follow_ups (mid_demo_queued None 3 mid_demo_active)) \<le> 8" by simp
  moreover have "map fe_followUpId (follow_ups (mid_demo_queued None 3 mid_demo_active)) = [''follow-up-1'']"
    using mid_demo_one(1) [of 3 None] by simp
  ultimately show ?thesis by (simp only: Let_def)
qed

text \<open>
  An interrupt classified on an active session always ends there: the session is idle
  afterwards and its queue is kept; if the coordinator had the turn active, it is now terminal, as
  uncertain when a capability was executing and as cancelled with the recorded effect otherwise; no
  other turn is touched; and the answer is the next rung of the interruption ladder.
\<close>

theorem interrupt_settles_the_active_turn:
  assumes "mv_active (mw_session w) = Some active"
    and "followUpId = None \<Longrightarrow> mw_followUpSeq w + 1 < 10 ^ 118"
  shows "case mid_classify canComplete now (Some Interrupt) request followUpId w of (w', reply) \<Rightarrow>
    (\<exists>c. reply = Inr (Ok c) \<and> mc_classification c = Interrupt \<and>
       mc_interrupt c = Some (snd (interrupt Interrupt_Signal now (mw_interruption w)))) \<and>
    mv_active (mw_session w') = None \<and> mv_queue (mw_session w') = mv_queue (mw_session w) \<and>
    (case coord_get (mw_coordinator w) (at_turnId active) of
       Some (Active_Turn f) \<Rightarrow>
         (\<exists>f'. coord_get (mw_coordinator w') (at_turnId active) = Some (Terminal_Turn f'
            (if tf_phase f = Executing_Capability then Uncertain else Cancelled (tf_recordedEffect f))))
     | other \<Rightarrow> mw_coordinator w' = mw_coordinator w) \<and>
    (\<forall>turn. turn \<noteq> at_turnId active \<longrightarrow> coord_get (mw_coordinator w') turn = coord_get (mw_coordinator w) turn)"
proof -
  obtain v i where v: "v = (if followUpId = None then w\<lparr>mw_followUpSeq := mw_followUpSeq w + 1\<rparr> else w)"
    and cl: "mid_classify canComplete now (Some Interrupt) request followUpId w =
       (fst (classify_as canComplete now (Some Interrupt) request i v),
        Inr (snd (classify_as canComplete now (Some Interrupt) request i v)))"
    using mid_classify_named [OF assms(2)] by metis
  let ?c = "cancel_turn canComplete (at_turnId active) (mw_coordinator w)"
  have same: "mw_session v = mw_session w"
    "mw_coordinator v = mw_coordinator w" "mw_interruption v = mw_interruption w"
    by (simp_all add: v)
  obtain w' c where now: "classify_as canComplete now (Some Interrupt) request i v = (w', Ok c)"
    and c: "mc_classification c = Interrupt"
      "mc_interrupt c = Some (snd (interrupt Interrupt_Signal now (mw_interruption w)))"
    and w': "mv_active (mw_session w') = None" "mv_queue (mw_session w') = mv_queue (mw_session w)"
      "mw_coordinator w' = ?c"
    using classify_interrupt [of v active canComplete now request i] assms(1) same by auto
  have turn: "case coord_get (mw_coordinator w) (at_turnId active) of
       Some (Active_Turn f) \<Rightarrow> (\<exists>f'. coord_get ?c (at_turnId active) = Some (Terminal_Turn f'
            (if tf_phase f = Executing_Capability then Uncertain else Cancelled (tf_recordedEffect f))))
     | other \<Rightarrow> ?c = mw_coordinator w"
  proof (cases "\<exists>f. coord_get (mw_coordinator w) (at_turnId active) = Some (Active_Turn f)")
    case True
    then obtain f where f: "coord_get (mw_coordinator w) (at_turnId active) = Some (Active_Turn f)" ..
    from cancel_turn_spec(1) [OF f] show ?thesis by (simp only: f option.case turn_snapshot.case)
  next
    case False
    then show ?thesis
      using cancel_turn_idle by (auto split: option.split turn_snapshot.split)
  qed
  have others: "\<forall>turn. turn \<noteq> at_turnId active \<longrightarrow> coord_get ?c turn = coord_get (mw_coordinator w) turn"
    using cancel_turn_spec(2) [of "mw_coordinator w" "at_turnId active"]
      cancel_turn_idle [of "mw_coordinator w" "at_turnId active"] by metis
  show ?thesis
    unfolding cl now fst_conv snd_conv prod.case
    using turn [folded w'(3)] others [folded w'(3)] w'(1,2) c by blast
qed

theorem interrupt_settles_the_active_turn_witness:
  "\<exists>f'. coord_get (mw_coordinator (fst (mid_classify None 5 (Some Interrupt) (mid_demo_request 0) None mid_demo_active)))
     ''t'' = Some (Terminal_Turn f' (Cancelled Eff_None))"
proof -
  have "mv_active (mw_session mid_demo_active) = Some \<lparr>at_turnId = ''t'', at_attemptId = None\<rparr>"
    "mw_followUpSeq mid_demo_active + 1 < 10 ^ 118"
    "\<exists>f. coord_get (mw_coordinator mid_demo_active) ''t'' = Some (Active_Turn f) \<and> tf_phase f = Created \<and>
       tf_recordedEffect f = Eff_None"
    by (simp_all add: mid_demo_active_def mid_demo_defs)
  then show ?thesis
    using interrupt_settles_the_active_turn [where w = mid_demo_active and canComplete = None and followUpId = None
        and now = 5 and request = "mid_demo_request 0"]
    by (auto split: prod.splits)
qed

text \<open>
  With pairwise different identifiers the operations on the queue lose and invent nothing:
  promoting moves the named entry to the front and keeps the order of the others; steering removes
  exactly the named entry and hands over its request; starting takes the head, only when no turn is
  in flight, and makes the new turn the active one; a refused operation changes nothing.
\<close>

theorem queue_operations_lose_nothing:
  assumes "distinct (map fe_followUpId (follow_ups w))"
  shows "(case mid_promote i w of
      (w', Ok _) \<Rightarrow> (\<exists>before e after. follow_ups w = before @ e # after \<and> fe_followUpId e = i \<and>
          follow_ups w' = e # before @ after)
    | (w', Err _) \<Rightarrow> w' = w) \<and>
    (case mid_applyAsSteer i w of
      (w', Ok (steer, _)) \<Rightarrow> (\<exists>before e after. follow_ups w = before @ e # after \<and> fe_followUpId e = i \<and>
          fe_request e = steer \<and> follow_ups w' = before @ after)
    | (w', Err _) \<Rightarrow> w' = w) \<and>
    (case mid_startHeadFollowUp t w of
      (w', Ok (Some (j, request, _))) \<Rightarrow>
        mid_assertCanStartTurn w = None \<and> mid_assertCanStartTurn w' \<noteq> None \<and>
        (\<exists>e. follow_ups w = e # follow_ups w' \<and> fe_followUpId e = j \<and> fe_request e = request)
    | (w', Ok None) \<Rightarrow> w' = w \<and> follow_ups w = []
    | (w', Err _) \<Rightarrow> w' = w \<and> mid_assertCanStartTurn w \<noteq> None)"
proof (intro conjI)
  show "case mid_promote i w of
      (w', Ok _) \<Rightarrow> (\<exists>before e after. follow_ups w = before @ e # after \<and> fe_followUpId e = i \<and>
          follow_ups w' = e # before @ after)
    | (w', Err _) \<Rightarrow> w' = w"
    using promote_moves [of i w] by (auto simp: mid_promote_def split: prod.split result.splits)
  show "case mid_applyAsSteer i w of
      (w', Ok (steer, _)) \<Rightarrow> (\<exists>before e after. follow_ups w = before @ e # after \<and> fe_followUpId e = i \<and>
          fe_request e = steer \<and> follow_ups w' = before @ after)
    | (w', Err _) \<Rightarrow> w' = w"
    using steer_removes [OF _ assms] by (auto simp: mid_applyAsSteer_def split: prod.split result.splits)
  show "case mid_startHeadFollowUp t w of
      (w', Ok (Some (j, request, _))) \<Rightarrow>
        mid_assertCanStartTurn w = None \<and> mid_assertCanStartTurn w' \<noteq> None \<and>
        (\<exists>e. follow_ups w = e # follow_ups w' \<and> fe_followUpId e = j \<and> fe_request e = request)
    | (w', Ok None) \<Rightarrow> w' = w \<and> follow_ups w = []
    | (w', Err _) \<Rightarrow> w' = w \<and> mid_assertCanStartTurn w \<noteq> None"
    by (auto simp: mid_startHeadFollowUp_def takeHeadFollowUpForNextTurn_def mid_assertCanStartTurn_def
          refuseSecondInFlightTurn_def record_events_def split: option.split list.split)
qed

theorem queue_operations_lose_nothing_witness:
  "let w = mid_demo_queued (Some ''y'') 2 (mid_demo_queued (Some ''x'') 1 mid_demo_active) in
     distinct (map fe_followUpId (follow_ups w)) \<and>
     (case mid_promote ''y'' w of
        (w', Ok _) \<Rightarrow> (\<exists>before e after. follow_ups w = before @ e # after \<and> fe_followUpId e = ''y'' \<and>
            follow_ups w' = e # before @ after)
      | (w', Err _) \<Rightarrow> w' = w)"
proof -
  have d: "distinct (map fe_followUpId (follow_ups
      (mid_demo_queued (Some ''y'') 2 (mid_demo_queued (Some ''x'') 1 mid_demo_active))))"
    by (simp add: mid_demo_two)
  from d queue_operations_lose_nothing [OF d, where i = "''y''", THEN conjunct1] show ?thesis
    unfolding Let_def by (rule conjI)
qed

text \<open>
  The queue does not refuse a second entry under an identifier it already holds, and steering
  by that identifier then drops both entries and hands over only the first request: the second one
  is lost.
\<close>

theorem duplicate_identifier_loses_a_request:
  "let w = mid_demo_queued (Some ''x'') 2 (mid_demo_queued (Some ''x'') 1 mid_demo_active) in
     map fe_request (follow_ups w) = [mid_demo_request 1, mid_demo_request 2] \<and>
     (\<exists>w' events. mid_applyAsSteer ''x'' w = (w', Ok (mid_demo_request 1, events)) \<and> follow_ups w' = [])"
proof -
  let ?w = "mid_demo_queued (Some ''x'') 2 (mid_demo_queued (Some ''x'') 1 mid_demo_active)"
  note two = mid_demo_two [of 1 2 "''x''" "''x''"]
  obtain e f where es: "follow_ups ?w = [e, f]" "fe_followUpId e = ''x''" "fe_followUpId f = ''x''"
    "fe_request e = mid_demo_request 1"
    using two by (auto simp: map_eq_Cons_conv)
  then show ?thesis
    using two by (simp add: Let_def mid_applyAsSteer_def applyFollowUpAsSteer_def dropFollowUp_def record_events_def)
qed

end
