(* ===== verification/Dependency_Graph.thy ===== *)
theory Dependency_Graph
  imports Prelude
begin

text \<open>
  Dependency graphs (\<^verbatim>\<open>src/domain/orchestration/dependency-graph.ts\<close>): the iterative search for a
  cycle, with its explicit stack of frames, and the join of prerequisite observations. The stack
  is a list with the top frame first; the iterator of a frame is the list of children it has not
  yielded. A search need not end on an infinite graph, so the loop returns an option: not
  returning is \<open>None\<close>.
\<close>

section \<open>Definitions\<close>

datatype mark = Visiting | Finished

type_synonym 'a marks = "('a, mark) js_map"
type_synonym 'a frames = "('a \<times> 'a list) list"

text \<open>\<open>findIndex\<close> and \<open>slice\<close> on the frames, bottom first.\<close>

fun find_index :: "('a \<Rightarrow> bool) \<Rightarrow> 'a list \<Rightarrow> int" where
  "find_index P [] = -1"
| "find_index P (x # xs) = (if P x then 0 else let i = find_index P xs in if i < 0 then -1 else i + 1)"

definition cycle_of :: "'a \<Rightarrow> 'a frames \<Rightarrow> 'a list" where
  "cycle_of next frames =
     (let entries = rev frames; start = find_index (\<lambda>entry. fst entry = next) entries
      in map fst (drop (nat (max 0 start)) entries))"

partial_function (option) dfs_loop ::
  "('a \<Rightarrow> 'a list) \<Rightarrow> 'a marks \<Rightarrow> 'a frames \<Rightarrow> ('a marks \<times> 'a list option) option" where
  [code]: "dfs_loop dependencies state frames =
     (case frames of
        [] \<Rightarrow> Some (state, None)
      | (i, children) # rest \<Rightarrow>
          (case children of
             [] \<Rightarrow> dfs_loop dependencies (js_set i Finished state) rest
           | next # more \<Rightarrow>
               if js_get state next = Some Finished then dfs_loop dependencies state ((i, more) # rest)
               else if js_get state next = Some Visiting
               then Some (state, Some (cycle_of next ((i, more) # rest)))
               else dfs_loop dependencies (js_set next Visiting state)
                      ((next, dependencies next) # (i, more) # rest)))"

fun find_from :: "('a \<Rightarrow> 'a list) \<Rightarrow> 'a marks \<Rightarrow> 'a list \<Rightarrow> 'a list option option" where
  "find_from dependencies state [] = Some None"
| "find_from dependencies state (root # roots) =
     (if js_has state root then find_from dependencies state roots
      else case dfs_loop dependencies (js_set root Visiting state) [(root, dependencies root)] of
             None \<Rightarrow> None
           | Some (state', Some cycle) \<Rightarrow> Some (Some cycle)
           | Some (state', None) \<Rightarrow> find_from dependencies state' roots)"

definition findDependencyCycle :: "'a list \<Rightarrow> ('a \<Rightarrow> 'a list) \<Rightarrow> 'a list option option" where
  "findDependencyCycle roots dependencies = find_from dependencies [] roots"

datatype join_policy = Join_All | Join_Any

fun join_loop :: "join_policy \<Rightarrow> nat \<Rightarrow> bool list \<Rightarrow> bool" where
  "join_loop join count [] \<longleftrightarrow> count = 0 \<or> join = Join_All"
| "join_loop join count (satisfied # observations) \<longleftrightarrow>
     (let count = count + 1 in
      if join = Join_All \<and> \<not> satisfied then False
      else if join = Join_Any \<and> satisfied then True
      else join_loop join count observations)"

definition dependencyJoinSatisfied :: "join_policy \<Rightarrow> bool list \<Rightarrow> bool" where
  "dependencyJoinSatisfied join observations = join_loop join 0 observations"

section \<open>What the search is about\<close>

definition edges :: "('a \<Rightarrow> 'a list) \<Rightarrow> ('a \<times> 'a) set" where
  "edges dependencies = {(a, b). b \<in> set (dependencies a)}"

definition is_cycle :: "('a \<Rightarrow> 'a list) \<Rightarrow> 'a list \<Rightarrow> bool" where
  "is_cycle dependencies c \<longleftrightarrow>
     c \<noteq> [] \<and> distinct c \<and> successively (\<lambda>a b. b \<in> set (dependencies a)) (c @ [hd c])"

section \<open>The loop invariant\<close>

abbreviation finished :: "'a marks \<Rightarrow> 'a set" where
  "finished state \<equiv> {x. js_get state x = Some Finished}"

text \<open>
  A frame's yielded children are finished or are the frame above it; \<open>over\<close> is the identifier of
  that frame.
\<close>

fun stack_ok :: "('a \<Rightarrow> 'a list) \<Rightarrow> 'a set \<Rightarrow> 'a set \<Rightarrow> 'a frames \<Rightarrow> bool" where
  "stack_ok deps fd over [] \<longleftrightarrow> True"
| "stack_ok deps fd over ((i, children) # rest) \<longleftrightarrow>
     set children \<subseteq> set (deps i) \<and> set (deps i) \<subseteq> set children \<union> fd \<union> over \<and>
     stack_ok deps fd {i} rest"

definition search_inv :: "('a \<Rightarrow> 'a list) \<Rightarrow> 'a set \<Rightarrow> 'a marks \<Rightarrow> 'a frames \<Rightarrow> bool" where
  "search_inv deps R state frames \<longleftrightarrow>
     distinct (map fst frames) \<and>
     {x. js_get state x = Some Visiting} = fst ` set frames \<and>
     {x. js_get state x \<noteq> None} \<subseteq> R \<and>
     successively (\<lambda>a b. a \<in> set (deps b)) (map fst frames) \<and>
     stack_ok deps (finished state) {} frames \<and>
     (\<forall>x \<in> finished state. set (deps x) \<subseteq> finished state \<and> (x, x) \<notin> (edges deps)\<^sup>+)"

lemma stack_ok_mono:
  "stack_ok deps fd over fs \<Longrightarrow> fd \<union> over \<subseteq> fd' \<Longrightarrow> stack_ok deps fd' {} fs"
proof -
  have "stack_ok deps fd over fs \<Longrightarrow> fd \<subseteq> fd' \<Longrightarrow> over \<subseteq> fd' \<union> over' \<Longrightarrow> stack_ok deps fd' over' fs"
    for over over'
    by (induction deps fd over fs arbitrary: over' rule: stack_ok.induct) (simp, auto)
  then show "stack_ok deps fd over fs \<Longrightarrow> fd \<union> over \<subseteq> fd' \<Longrightarrow> stack_ok deps fd' {} fs"
    by simp
qed

lemma trancl_closed:
  assumes "(x, y) \<in> (edges deps)\<^sup>+" "x \<in> F" "\<forall>z \<in> F. set (deps z) \<subseteq> F"
  shows "y \<in> F"
  using assms by (induction rule: trancl_induct) (auto simp: edges_def)

text \<open>Finishing a node whose children are all finished closes no cycle.\<close>

lemma finish_acyclic:
  assumes "\<forall>x \<in> F. set (deps x) \<subseteq> F \<and> (x, x) \<notin> (edges deps)\<^sup>+" "set (deps i) \<subseteq> F" "i \<notin> F"
  shows "\<forall>x \<in> insert i F. set (deps x) \<subseteq> insert i F \<and> (x, x) \<notin> (edges deps)\<^sup>+"
proof -
  have "(i, i) \<notin> (edges deps)\<^sup>+"
  proof
    assume "(i, i) \<in> (edges deps)\<^sup>+"
    then obtain y where y: "(i, y) \<in> edges deps" "y = i \<or> (y, i) \<in> (edges deps)\<^sup>+"
      by (meson converse_tranclE)
    then have "y \<in> F" using assms(2) by (auto simp: edges_def)
    with y(2) trancl_closed [of y i deps F] assms(1,3) show False by auto
  qed
  with assms show ?thesis by auto
qed

lemma inv_finish:
  assumes "search_inv deps R state ((i, []) # rest)"
  shows "search_inv deps R (js_set i Finished state) rest"
proof -
  have vis: "{x. js_get state x = Some Visiting} = insert i (fst ` set rest)" and new: "i \<notin> fst ` set rest"
    using assms by (auto simp: search_inv_def)
  then have i: "js_get state i = Some Visiting" by blast
  have fin: "finished (js_set i Finished state) = insert i (finished state)" by auto
  have "\<forall>x \<in> insert i (finished state). set (deps x) \<subseteq> insert i (finished state) \<and> (x, x) \<notin> (edges deps)\<^sup>+"
    using assms i by (intro finish_acyclic) (auto simp: search_inv_def)
  moreover have "stack_ok deps (insert i (finished state)) {} rest"
    using assms stack_ok_mono [of deps "finished state" "{i}" rest "insert i (finished state)"]
    by (auto simp: search_inv_def)
  moreover have "{x. js_get (js_set i Finished state) x = Some Visiting} = fst ` set rest"
    using vis new by auto
  moreover have "{x. js_get (js_set i Finished state) x \<noteq> None} \<subseteq> R"
    using assms i by (auto simp: search_inv_def split: if_splits)
  moreover have "distinct (map fst rest)" "successively (\<lambda>a b. a \<in> set (deps b)) (map fst rest)"
    using assms by (auto simp: search_inv_def successively_Cons)
  ultimately show ?thesis unfolding search_inv_def fin by blast
qed

lemma inv_skip:
  assumes "search_inv deps R state ((i, next # more) # rest)" "js_get state next = Some Finished"
  shows "search_inv deps R state ((i, more) # rest)"
  using assms by (auto simp: search_inv_def successively_Cons)

lemma inv_enter:
  assumes "search_inv deps R state ((i, next # more) # rest)" "js_get state next = None"
    "\<forall>x \<in> R. set (deps x) \<subseteq> R"
  shows "search_inv deps R (js_set next Visiting state) ((next, deps next) # (i, more) # rest)"
proof -
  have fin: "finished (js_set next Visiting state) = finished state" using assms(2) by auto
  have i: "i \<in> R" "next \<in> set (deps i)"
    using assms(1) by (auto simp: search_inv_def)
  have "{x. js_get state x = Some Visiting} = fst ` set ((i, more) # rest)"
    using assms(1) by (simp add: search_inv_def)
  moreover have "next \<notin> {x. js_get state x = Some Visiting}" using assms(2) by simp
  ultimately have "next \<notin> fst ` set ((i, more) # rest)" by simp
  moreover have "{x. js_get (js_set next Visiting state) x = Some Visiting} =
      insert next {x. js_get state x = Some Visiting}" by auto
  moreover have "{x. js_get (js_set next Visiting state) x \<noteq> None} \<subseteq> R"
    using assms(1,3) i by (auto simp: search_inv_def split: if_splits)
  ultimately show ?thesis
    using assms(1) i unfolding search_inv_def fin by (auto simp: successively_Cons)
qed

section \<open>The cycle that is reported\<close>

lemma find_index_split:
  assumes "xs = before @ x # after" "P x" "\<forall>y \<in> set before. \<not> P y"
  shows "find_index P xs = int (length before)"
  using assms by (induction before arbitrary: xs) (auto simp: Let_def)

lemma cycle_of_is_cycle:
  assumes "search_inv deps R state ((i, next # more) # rest)" "js_get state next = Some Visiting"
  shows "is_cycle deps (cycle_of next ((i, more) # rest))"
    "set (cycle_of next ((i, more) # rest)) \<subseteq> fst ` set ((i, more) # rest)"
proof -
  let ?frames = "(i, more) # rest" and ?P = "\<lambda>a b. b \<in> set (deps a)"
  have "next \<in> fst ` set ?frames"
    using assms by (auto simp: search_inv_def)
  then obtain entry where "entry \<in> set (rev ?frames)" "fst entry = next" by (metis imageE set_rev)
  then obtain before after where split: "rev ?frames = before @ entry # after"
    by (meson split_list)
  have "distinct (map fst ?frames)" using assms(1) by (simp add: search_inv_def)
  then have dist: "distinct (map fst (rev ?frames))"
    by (simp only: rev_map [symmetric] distinct_rev)
  have "\<forall>y \<in> set before. fst y \<noteq> next"
  proof
    fix y assume "y \<in> set before"
    then have "fst y \<in> fst ` set before" by (rule imageI)
    moreover have "fst entry \<notin> fst ` set before" using dist unfolding split by simp
    ultimately show "fst y \<noteq> next" using \<open>fst entry = next\<close> by metis
  qed
  then have c: "cycle_of next ?frames = next # map fst after"
    using find_index_split [OF split, of "\<lambda>e. fst e = next"] \<open>fst entry = next\<close>
    by (simp add: cycle_of_def split [simplified])
  have "successively ?P (map fst (rev ?frames))"
    using assms(1) by (simp add: search_inv_def rev_map [symmetric] successively_rev del: rev.simps)
  then have "successively ?P (map fst before @ (next # map fst after))"
    by (simp add: split \<open>fst entry = next\<close> del: rev.simps)
  then have path: "successively ?P (next # map fst after)"
    by (simp add: successively_append_iff)
  have "last (map fst (rev ?frames)) = i" by simp
  then have "last (next # map fst after) = i"
    unfolding split by (simp add: \<open>fst entry = next\<close> last_map split: if_splits)
  moreover have "next \<in> set (deps i)" using assms(1) by (simp add: search_inv_def)
  ultimately have "successively ?P ((next # map fst after) @ [next])"
    using path by (subst successively_append_iff) simp
  moreover have "distinct (next # map fst after)"
    using dist \<open>fst entry = next\<close> unfolding split by auto
  ultimately show "is_cycle deps (cycle_of next ?frames)"
    unfolding c is_cycle_def by simp
  have "set (map fst (rev ?frames)) = fst ` set ?frames" by simp
  then show "set (cycle_of next ?frames) \<subseteq> fst ` set ?frames"
    unfolding c split using \<open>fst entry = next\<close> by auto
qed

section \<open>The search ends\<close>

definition search_size :: "'a set \<Rightarrow> 'a marks \<Rightarrow> 'a frames \<Rightarrow> nat \<times> nat" where
  "search_size R state frames =
     (card (R - {x. js_get state x \<noteq> None}), length frames + (\<Sum>f\<leftarrow>frames. length (snd f)))"

abbreviation search_order :: "(('a set \<times> 'a marks \<times> 'a frames) \<times> ('a set \<times> 'a marks \<times> 'a frames)) set" where
  "search_order \<equiv> inv_image (less_than <*lex*> less_than) (\<lambda>(R, state, frames). search_size R state frames)"

lemma wf_search_order: "wf search_order"
  by (intro wf_inv_image wf_lex_prod wf_less_than)

lemma marked_same: "js_get state i \<noteq> None \<Longrightarrow>
   {x. js_get (js_set i m state) x \<noteq> None} = {x. js_get state x \<noteq> None}"
  by auto

lemma size_enter:
  assumes "finite R" "next \<in> R" "js_get state next = None"
  shows "((R, js_set next Visiting state, fs), (R, state, fs')) \<in> search_order"
proof -
  have "R - {x. js_get (js_set next Visiting state) x \<noteq> None} = R - {x. js_get state x \<noteq> None} - {next}"
    by auto
  moreover have "next \<in> R - {x. js_get state x \<noteq> None}" using assms by simp
  ultimately have "card (R - {x. js_get (js_set next Visiting state) x \<noteq> None}) < card (R - {x. js_get state x \<noteq> None})"
    using assms(1) card_Diff1_less [of "R - {x. js_get state x \<noteq> None}" "next"] by simp
  then show ?thesis by (simp add: search_size_def)
qed

lemma dfs_loop_eqs:
  "dfs_loop deps state [] = Some (state, None)"
  "dfs_loop deps state ((i, []) # rest) = dfs_loop deps (js_set i Finished state) rest"
  "dfs_loop deps state ((i, next # more) # rest) =
     (if js_get state next = Some Finished then dfs_loop deps state ((i, more) # rest)
      else if js_get state next = Some Visiting then Some (state, Some (cycle_of next ((i, more) # rest)))
      else dfs_loop deps (js_set next Visiting state) ((next, deps next) # (i, more) # rest))"
  by (subst dfs_loop.simps, simp)+

text \<open>What a call of the loop owes: it returns, and its result is right.\<close>

definition search_owes :: "('a \<Rightarrow> 'a list) \<Rightarrow> 'a set \<Rightarrow> 'a set \<Rightarrow> ('a marks \<times> 'a list option) option \<Rightarrow> bool" where
  "search_owes deps R visited r \<longleftrightarrow>
     (case r of
        None \<Rightarrow> False
      | Some (state', None) \<Rightarrow> search_inv deps R state' [] \<and> visited \<subseteq> finished state'
      | Some (state', Some c) \<Rightarrow> is_cycle deps c \<and> set c \<subseteq> R)"

lemma search_owes_mono: "search_owes deps R V r \<Longrightarrow> V' \<subseteq> V \<Longrightarrow> search_owes deps R V' r"
  by (auto simp: search_owes_def split: option.splits)

lemma dfs_loop_correct:
  assumes "finite R" "\<forall>x \<in> R. set (deps x) \<subseteq> R" "search_inv deps R state frames"
  shows "search_owes deps R (finished state \<union> fst ` set frames) (dfs_loop deps state frames)"
  using assms(3)
proof (induction "(R, state, frames)" arbitrary: state frames rule: wf_induct_rule [OF wf_search_order])
  case 1
  note IH = 1(1) and inv = 1(2)
  show ?case
  proof (cases frames)
    case Nil
    then show ?thesis using inv by (simp add: dfs_loop_eqs search_owes_def)
  next
    case (Cons frame rest)
    obtain i children where frame: "frame = (i, children)" by fastforce
    have i: "js_get state i = Some Visiting" "i \<in> R"
      using inv by (auto simp: search_inv_def Cons frame)
    show ?thesis
    proof (cases children)
      case Nil
      have "((R, js_set i Finished state, rest), (R, state, frames)) \<in> search_order"
        using i marked_same [of state i Finished] by (simp add: Cons frame Nil search_size_def)
      from IH [OF this inv_finish [OF inv [unfolded Cons frame Nil]]] show ?thesis
        unfolding Cons frame Nil dfs_loop_eqs by (rule search_owes_mono) auto
    next
      case (Cons child more)
      note frames = \<open>frames = frame # rest\<close> [unfolded frame Cons]
      have inv: "search_inv deps R state ((i, child # more) # rest)" using inv frames by simp
      consider (finished) "js_get state child = Some Finished" | (visiting) "js_get state child = Some Visiting"
        | (new) "js_get state child = None" by (metis mark.exhaust not_None_eq)
      then show ?thesis
      proof cases
        case finished
        have "((R, state, (i, more) # rest), (R, state, frames)) \<in> search_order"
          by (simp add: frames search_size_def)
        from IH [OF this inv_skip [OF inv finished]] show ?thesis
          by (simp add: frames finished dfs_loop_eqs)
      next
        case visiting
        have "fst ` set ((i, more) # rest) \<subseteq> R" using inv by (auto simp: search_inv_def)
        with cycle_of_is_cycle [OF inv visiting] show ?thesis
          by (simp add: frames visiting dfs_loop_eqs search_owes_def) blast
      next
        case new
        have "child \<in> R" using inv assms(2) i by (auto simp: search_inv_def)
        from IH [OF size_enter [OF assms(1) this new] inv_enter [OF inv new assms(2)]] show ?thesis
          unfolding frames dfs_loop_eqs new by (simp, elim search_owes_mono) (use new in auto)
      qed
    qed
  qed
qed

lemma inv_root:
  assumes "search_inv deps R state []" "js_get state root = None" "root \<in> R"
  shows "search_inv deps R (js_set root Visiting state) [(root, deps root)]"
proof -
  have "finished (js_set root Visiting state) = finished state" using assms(2) by auto
  with assms show ?thesis unfolding search_inv_def by auto
qed

definition find_owes :: "('a \<Rightarrow> 'a list) \<Rightarrow> 'a set \<Rightarrow> 'a set \<Rightarrow> 'a list option option \<Rightarrow> bool" where
  "find_owes deps R V r \<longleftrightarrow>
     (case r of
        None \<Rightarrow> False
      | Some None \<Rightarrow> (\<exists>F. V \<subseteq> F \<and> (\<forall>x \<in> F. set (deps x) \<subseteq> F \<and> (x, x) \<notin> (edges deps)\<^sup>+))
      | Some (Some c) \<Rightarrow> is_cycle deps c \<and> set c \<subseteq> R)"

lemma find_owes_mono:
  assumes "find_owes deps R V r" "V' \<subseteq> V"
  shows "find_owes deps R V' r"
proof (cases "r = Some None")
  case True
  with assms(1) obtain F where "V \<subseteq> F" "\<forall>x \<in> F. set (deps x) \<subseteq> F \<and> (x, x) \<notin> (edges deps)\<^sup>+"
    by (auto simp: find_owes_def)
  with True assms(2) show ?thesis by (auto simp: find_owes_def intro!: exI [of _ F])
next
  case False
  with assms(1) show ?thesis by (simp add: find_owes_def split: option.splits)
qed

lemma find_from_correct:
  assumes "finite R" "\<forall>x \<in> R. set (deps x) \<subseteq> R" "search_inv deps R state []" "set roots \<subseteq> R"
  shows "find_owes deps R (finished state \<union> set roots) (find_from deps state roots)"
  using assms(3,4)
proof (induction roots arbitrary: state)
  case Nil
  then show ?case by (auto simp: find_owes_def search_inv_def intro!: exI [of _ "finished state"])
next
  case (Cons root roots)
  show ?case
  proof (cases "js_get state root")
    case (Some m)
    have "m \<noteq> Visiting" using Some Cons.prems(1) by (auto simp: search_inv_def)
    then have "root \<in> finished state" using Some by (cases m) auto
    then have "finished state \<union> set (root # roots) \<subseteq> finished state \<union> set roots" by auto
    moreover have "find_owes deps R (finished state \<union> set roots) (find_from deps state (root # roots))"
      using Cons.IH [OF Cons.prems(1)] Cons.prems(2) Some by simp
    ultimately show ?thesis using find_owes_mono by blast
  next
    case None
    have "root \<in> R" using Cons.prems by simp
    from dfs_loop_correct [OF assms(1,2) inv_root [OF Cons.prems(1) None this]]
    obtain state' result where loop: "dfs_loop deps (js_set root Visiting state) [(root, deps root)] = Some (state', result)"
      and owes: "search_owes deps R (finished (js_set root Visiting state) \<union> {root}) (Some (state', result))"
      by (cases "dfs_loop deps (js_set root Visiting state) [(root, deps root)]") (auto simp: search_owes_def)
    show ?thesis
    proof (cases result)
      case None
      with owes have inv: "search_inv deps R state' []"
        and sub: "finished (js_set root Visiting state) \<union> {root} \<subseteq> finished state'"
        by (simp_all add: search_owes_def)
      have "finished state \<subseteq> finished (js_set root Visiting state)"
        using \<open>js_get state root = None\<close> by auto
      with sub have "finished state \<union> set (root # roots) \<subseteq> finished state' \<union> set roots" by auto
      moreover have "find_owes deps R (finished state' \<union> set roots) (find_from deps state (root # roots))"
        using Cons.IH [OF inv] Cons.prems(2) loop None \<open>js_get state root = None\<close> by simp
      ultimately show ?thesis using find_owes_mono by blast
    next
      case (Some c)
      with owes loop \<open>js_get state root = None\<close> show ?thesis by (simp add: search_owes_def find_owes_def)
    qed
  qed
qed

lemma is_cycle_trancl:
  assumes "is_cycle deps c" "x \<in> set c"
  shows "(x, x) \<in> (edges deps)\<^sup>+"
proof -
  have walk: "successively (\<lambda>a b. b \<in> set (deps a)) xs \<Longrightarrow> xs \<noteq> [] \<Longrightarrow> (hd xs, last xs) \<in> (edges deps)\<^sup>*" for xs
    by (induction xs rule: induct_list012) (auto simp: edges_def intro: converse_rtrancl_into_rtrancl)
  obtain before after where c: "c = before @ x # after" using assms(2) by (meson split_list)
  have succ: "successively (\<lambda>a b. b \<in> set (deps a)) ((before @ [x]) @ (after @ [hd c]))"
    using assms(1) by (simp add: is_cycle_def c)
  have "successively (\<lambda>a b. b \<in> set (deps a)) (before @ [x])" "successively (\<lambda>a b. b \<in> set (deps a)) (after @ [hd c])"
    "hd (after @ [hd c]) \<in> set (deps x)"
    using succ unfolding successively_append_iff by simp_all
  then have "(hd (before @ [x]), x) \<in> (edges deps)\<^sup>*" "(hd (after @ [hd c]), hd c) \<in> (edges deps)\<^sup>*"
    "(x, hd (after @ [hd c])) \<in> edges deps"
    using walk [of "before @ [x]"] walk [of "after @ [hd c]"] by (auto simp: edges_def)
  moreover have "hd (before @ [x]) = hd c" by (cases before) (simp_all add: c)
  ultimately show ?thesis by (metis rtrancl_into_trancl2 rtrancl_trans)
qed

section \<open>Properties\<close>

text \<open>
  On a graph with finitely many nodes reachable from the roots the search returns. It answers
  \<open>null\<close> exactly when no node reachable from a root depends on itself through any chain of
  dependencies, and otherwise a list of different reachable nodes in which every node depends on
  the next one and the last on the first.
\<close>

theorem cycle_search_is_exact:
  assumes "finite ((edges dependencies)\<^sup>* `` set roots)"
  shows "\<exists>result. findDependencyCycle roots dependencies = Some result \<and>
    (result = None \<longleftrightarrow> (\<forall>x \<in> (edges dependencies)\<^sup>* `` set roots. (x, x) \<notin> (edges dependencies)\<^sup>+)) \<and>
    (\<forall>c. result = Some c \<longrightarrow>
       is_cycle dependencies c \<and> set c \<subseteq> (edges dependencies)\<^sup>* `` set roots)"
proof -
  let ?R = "(edges dependencies)\<^sup>* `` set roots"
  have closed: "\<forall>x \<in> ?R. set (dependencies x) \<subseteq> ?R"
    by (auto simp: edges_def intro: rtrancl_into_rtrancl)
  have inv: "search_inv dependencies ?R [] []" "set roots \<subseteq> ?R"
    by (auto simp: search_inv_def)
  note search = find_from_correct [OF assms closed inv, folded findDependencyCycle_def]
  then obtain result where r: "findDependencyCycle roots dependencies = Some result"
    by (cases "findDependencyCycle roots dependencies") (auto simp: find_owes_def)
  show ?thesis
  proof (cases result)
    case (Some c)
    with search r have c: "is_cycle dependencies c" "set c \<subseteq> ?R"
      by (auto simp: find_owes_def)
    from c(1) have "hd c \<in> set c" by (simp add: is_cycle_def)
    then have "hd c \<in> ?R" "(hd c, hd c) \<in> (edges dependencies)\<^sup>+"
      using c(2) is_cycle_trancl [OF c(1)] by (blast, blast)
    then have "\<not> (\<forall>x \<in> ?R. (x, x) \<notin> (edges dependencies)\<^sup>+)" by blast
    with r Some c show ?thesis by simp
  next
    case None
    with search r obtain F where F: "set roots \<subseteq> F"
      "\<forall>x \<in> F. set (dependencies x) \<subseteq> F \<and> (x, x) \<notin> (edges dependencies)\<^sup>+"
      by (auto simp: find_owes_def)
    have "?R \<subseteq> F"
    proof
      fix y assume "y \<in> ?R"
      then obtain x where "x \<in> F" "(x, y) \<in> (edges dependencies)\<^sup>*" using F(1) by blast
      then show "y \<in> F" using F(2) trancl_closed [of x y dependencies F] by (auto simp: rtrancl_eq_or_trancl)
    qed
    then have "\<forall>x \<in> ?R. (x, x) \<notin> (edges dependencies)\<^sup>+" using F(2) by blast
    with r None show ?thesis by simp
  qed
qed

definition demo_dependencies :: "nat \<Rightarrow> nat list" where
  "demo_dependencies n = (if n = 0 then [1, 2] else if n = 1 then [3] else if n = 2 then [3] else if n = 3 then [1] else [])"

theorem cycle_search_is_exact_witness:
  "findDependencyCycle [0] demo_dependencies = Some (Some [1, 3]) \<and> is_cycle demo_dependencies [1, 3]"
proof -
  have "(edges demo_dependencies)\<^sup>* `` set [0] \<subseteq> {0, 1, 2, 3}"
  proof
    fix y assume "y \<in> (edges demo_dependencies)\<^sup>* `` set [0]"
    then have "(0, y) \<in> (edges demo_dependencies)\<^sup>*" by simp
    then show "y \<in> {0, 1, 2, 3}"
      by (induction rule: rtrancl_induct) (auto simp: edges_def demo_dependencies_def split: if_splits)
  qed
  then have "finite ((edges demo_dependencies)\<^sup>* `` set [0])" by (rule finite_subset) simp
  from cycle_search_is_exact [OF this] have "\<forall>c. findDependencyCycle [0] demo_dependencies = Some (Some c) \<longrightarrow>
      is_cycle demo_dependencies c" by auto
  moreover have "findDependencyCycle [0] demo_dependencies = Some (Some [1, 3])"
    by (simp add: findDependencyCycle_def dfs_loop_eqs demo_dependencies_def cycle_of_def)
  ultimately show ?thesis by simp
qed

text \<open>Joining observations: all of them, or at least one; with none, satisfied either way.\<close>

theorem join_satisfied_iff:
  "dependencyJoinSatisfied join observations \<longleftrightarrow>
     (case join of
        Join_All \<Rightarrow> (\<forall>s \<in> set observations. s)
      | Join_Any \<Rightarrow> observations = [] \<or> (\<exists>s \<in> set observations. s))"
proof -
  have "join_loop Join_All n os \<longleftrightarrow> (\<forall>s \<in> set os. s)" for n os
    by (induction os arbitrary: n) auto
  moreover have "join_loop Join_Any n os \<longleftrightarrow> n = 0 \<and> os = [] \<or> (\<exists>s \<in> set os. s)" for n os
    by (induction os arbitrary: n) auto
  ultimately show ?thesis by (cases join) (auto simp: dependencyJoinSatisfied_def)
qed

end
