(* ===== verification/Scheduler.thy ===== *)
theory Scheduler
  imports Work_Units Budget_Ledger Scope_Tree Dependency_Graph
begin

text \<open>
  The scheduling engine (\<^verbatim>\<open>src/application/orchestration/scheduler.ts\<close> over
  \<^verbatim>\<open>src/domain/orchestration/scheduling.ts\<close>) with the budget ledger it reserves in and the scope tree
  it reports effects to. Entries are shared objects: the scheduler record holds them by their arrival
  number, which is unique, and a generation is the list of its arrivals.

  The asynchronous code is cut where it awaits. \<open>run_segment\<close> is what a generation does between two
  awaits: iterations of the loop until it parks or ends. \<open>finish\<close> is the settlement of a running unit;
  which of the raced promises won is an argument. The clock reads of one segment are one instant
  \<open>now\<close>; the answers of the callers' \<open>admit\<close> callbacks and the random reservation identifiers are
  arguments, indexed by the iteration and the entry. Diagnostics are not modelled: they only observe.
  The resource receipts are opaque.
\<close>

section \<open>Results and limits\<close>

datatype queue_dimension = Dim_Items | Dim_Bytes

datatype scheduling_error =
    Resource_Admission string string
  | Queue_Limit string queue_dimension
  | Unknown_Dependency string string
  | Dependency_Cycle "string list"
  | Dependency_Failed string string terminal_outcome
  | Duplicate_Unit string
  | Lock_Acquisition_Timeout string conflict_key deadline
  | Concurrency_Limit string int
  | Unit_Budget_Exhausted string budget_dimension int

datatype recovery_option =
    Retry_Later | Raise_Limit | Reduce_Scope | Await_Competing_Work | Declare_Conflict_Keys
  | Resubmit_Without_Failed_Dependency

datatype 'v scheduling_result =
    Completed_Unit string 'v
  | Refused_Unit string scheduling_error terminal_outcome "recovery_option list"
  | Settled_Unit string terminal_outcome "'v option"

record scheduler_limits =
  sl_maxConcurrent :: int
  sl_maxConcurrentPerKey :: int
  sl_lockAcquisitionTimeoutMs :: int
  sl_starvationThreshold :: int
  sl_maxQueued :: "int option"
  sl_maxQueuedBytes :: "int option"
  sl_reservedInteractive :: "int option"

definition DEFAULT_SCHEDULER_LIMITS :: scheduler_limits where
  "DEFAULT_SCHEDULER_LIMITS =
     \<lparr>sl_maxConcurrent = 8, sl_maxConcurrentPerKey = 1, sl_lockAcquisitionTimeoutMs = 30000,
      sl_starvationThreshold = 8, sl_maxQueued = None, sl_maxQueuedBytes = None,
      sl_reservedInteractive = None\<rparr>"

definition NO_EFFECT :: terminal_outcome where "NO_EFFECT = Cancelled Eff_None"

definition refusedOutcome :: terminal_outcome where "refusedOutcome = Failed Eff_None"

fun recoveryFor :: "scheduling_error \<Rightarrow> recovery_option list" where
  "recoveryFor (Resource_Admission _ _) = [Raise_Limit, Reduce_Scope, Retry_Later]"
| "recoveryFor (Queue_Limit _ _) = [Raise_Limit, Reduce_Scope, Retry_Later]"
| "recoveryFor (Unit_Budget_Exhausted _ _ _) = [Raise_Limit, Reduce_Scope, Retry_Later]"
| "recoveryFor (Lock_Acquisition_Timeout _ _ _) = [Await_Competing_Work, Retry_Later]"
| "recoveryFor (Concurrency_Limit _ _) = [Retry_Later, Raise_Limit]"
| "recoveryFor (Dependency_Failed _ _ _) = [Resubmit_Without_Failed_Dependency, Retry_Later]"
| "recoveryFor (Dependency_Cycle _) = [Reduce_Scope]"
| "recoveryFor (Unknown_Dependency _ _) = [Reduce_Scope]"
| "recoveryFor (Duplicate_Unit _) = [Reduce_Scope]"

section \<open>The cycle check\<close>

text \<open>
  \<open>visit\<close> recurses through the dependencies; the fuel is the recursion depth, of which one more than
  the number of units is enough. The stack has the newest unit last, as in the code.
\<close>

type_synonym visit_state = "string marks \<times> string list"

definition index_of :: "string \<Rightarrow> string list \<Rightarrow> int" where
  "index_of i stack = find_index (\<lambda>j. j = i) stack"

fun visit :: "nat \<Rightarrow> (string, string list) js_map \<Rightarrow> string \<Rightarrow> visit_state \<Rightarrow> (visit_state + string list) option"
and visit_all :: "nat \<Rightarrow> (string, string list) js_map \<Rightarrow> string list \<Rightarrow> visit_state \<Rightarrow> (visit_state + string list) option"
where
  "visit 0 byId i s = None"
| "visit (Suc fuel) byId i s =
     (case s of (state, stack) \<Rightarrow>
        (case js_get state i of
           Some Finished \<Rightarrow> Some (Inl s)
         | Some Visiting \<Rightarrow>
             let start = index_of i stack in Some (Inr (drop (nat (if start \<ge> 0 then start else 0)) stack))
         | None \<Rightarrow>
             (case visit_all fuel byId (case js_get byId i of None \<Rightarrow> [] | Some dependencies \<Rightarrow> dependencies)
                     (js_set i Visiting state, stack @ [i]) of
                None \<Rightarrow> None
              | Some (Inr cycle) \<Rightarrow> Some (Inr cycle)
              | Some (Inl (state', stack')) \<Rightarrow> Some (Inl (js_set i Finished state', butlast stack')))))"
| "visit_all fuel byId [] s = Some (Inl s)"
| "visit_all fuel byId (i # is) s =
     (if \<not> js_has byId i then visit_all fuel byId is s
      else case visit fuel byId i s of
             None \<Rightarrow> None
           | Some (Inr cycle) \<Rightarrow> Some (Inr cycle)
           | Some (Inl s') \<Rightarrow> visit_all fuel byId is s')"

text \<open>\<open>new Map(...)\<close> over a list of pairs: a later pair overwrites an earlier one in place.\<close>

definition js_map_of :: "('k \<times> 'v) list \<Rightarrow> ('k, 'v) js_map" where
  "js_map_of pairs = foldl (\<lambda>m (k, v). js_set k v m) [] pairs"

fun visit_roots :: "nat \<Rightarrow> (string, string list) js_map \<Rightarrow> string list \<Rightarrow> visit_state \<Rightarrow> string list option option" where
  "visit_roots fuel byId [] s = Some None"
| "visit_roots fuel byId (i # is) s =
     (case visit fuel byId i s of
        None \<Rightarrow> None
      | Some (Inr cycle) \<Rightarrow> Some (Some cycle)
      | Some (Inl s') \<Rightarrow> visit_roots fuel byId is s')"

definition findCycle :: "work_unit list \<Rightarrow> string list option option" where
  "findCycle units =
     (let byId = js_map_of (map (\<lambda>unit. (wu_id unit, wu_dependencies unit)) units)
      in visit_roots (Suc (Suc (length units))) byId (map wu_id units) ([], []))"

section \<open>State\<close>

datatype entry_state = Blocked | Ready | Running | Settled

record 'v entry =
  en_unit :: work_unit
  en_arrival :: nat
  en_queuedAt :: instant
  en_inputBytes :: js_number
  en_capacityBlocked :: bool
  en_keys :: "conflict_key list"
  en_state :: entry_state
  en_readySince :: "instant option"
  en_passedOver :: nat
  en_result :: "'v scheduling_result option"
  en_partial :: "'v option"
  en_reservation :: "reservation_id option"

record 'v scheduler =
  sd_limits :: scheduler_limits
  sd_budgetId :: "budget_id option"
  sd_ledger :: ledger
  sd_tree :: "scope_tree option"
  sd_held :: "(conflict_key, int) js_map"
  sd_running :: int
  sd_arrival :: nat
  sd_waiting :: "nat list"
  sd_completed :: nat
  sd_refused :: nat
  sd_settledNonCompleted :: nat
  sd_promotions :: nat
  sd_entries :: "(nat, 'v entry) js_map"
  sd_generations :: "(nat list \<times> bool) list"

definition createScheduler ::
  "scheduler_limits \<Rightarrow> budget_id option \<Rightarrow> ledger \<Rightarrow> scope_tree option \<Rightarrow> 'v scheduler" where
  "createScheduler limits budgetId ledger tree =
     \<lparr>sd_limits = limits, sd_budgetId = budgetId, sd_ledger = ledger, sd_tree = tree, sd_held = [],
      sd_running = 0, sd_arrival = 0, sd_waiting = [], sd_completed = 0, sd_refused = 0,
      sd_settledNonCompleted = 0, sd_promotions = 0, sd_entries = [], sd_generations = []\<rparr>"

definition held_of :: "(conflict_key, int) js_map \<Rightarrow> conflict_key \<Rightarrow> int" where
  "held_of held k = (case js_get held k of None \<Rightarrow> 0 | Some n \<Rightarrow> n)"

definition keysAvailable :: "'v scheduler \<Rightarrow> conflict_key list \<Rightarrow> bool" where
  "keysAvailable s keys \<longleftrightarrow>
     list_all (\<lambda>k. held_of (sd_held s) k < sl_maxConcurrentPerKey (sd_limits s)) keys"

definition acquire :: "conflict_key list \<Rightarrow> (conflict_key, int) js_map \<Rightarrow> (conflict_key, int) js_map" where
  "acquire keys held = foldl (\<lambda>held k. js_set k (held_of held k + 1) held) held keys"

definition release_keys :: "conflict_key list \<Rightarrow> (conflict_key, int) js_map \<Rightarrow> (conflict_key, int) js_map" where
  "release_keys keys held =
     foldl (\<lambda>held k. let count = held_of held k - 1
                      in if count \<le> 0 then js_delete k held else js_set k count held) held keys"

definition on_entry :: "nat \<Rightarrow> ('v entry \<Rightarrow> 'v entry) \<Rightarrow> 'v scheduler \<Rightarrow> 'v scheduler" where
  "on_entry a f s = s\<lparr>sd_entries := js_modify f a (sd_entries s)\<rparr>"

abbreviation entry_at :: "'v scheduler \<Rightarrow> nat \<Rightarrow> 'v entry option" where
  "entry_at s a \<equiv> js_get (sd_entries s) a"

definition state_at :: "'v scheduler \<Rightarrow> nat \<Rightarrow> entry_state option" where
  "state_at s a = map_option en_state (entry_at s a)"

definition refuse_entry :: "nat \<Rightarrow> (work_unit \<Rightarrow> scheduling_error) \<Rightarrow> 'v scheduler \<Rightarrow> 'v scheduler" where
  "refuse_entry a error s =
     (on_entry a (\<lambda>e. e\<lparr>en_state := Settled,
         en_result := Some (Refused_Unit (wu_id (en_unit e)) (error (en_unit e)) refusedOutcome
                              (recoveryFor (error (en_unit e))))\<rparr>) s)
     \<lparr>sd_refused := sd_refused s + 1\<rparr>"

definition settle_entry :: "nat \<Rightarrow> terminal_outcome \<Rightarrow> 'v scheduler \<Rightarrow> 'v scheduler" where
  "settle_entry a outcome s =
     (on_entry a (\<lambda>e. e\<lparr>en_state := Settled,
         en_result := Some (Settled_Unit (wu_id (en_unit e)) outcome (en_partial e))\<rparr>) s)
     \<lparr>sd_settledNonCompleted := sd_settledNonCompleted s + 1\<rparr>"

text \<open>The \<open>Set\<close> of waiting entries, in insertion order.\<close>

definition unwait :: "nat \<Rightarrow> 'v scheduler \<Rightarrow> 'v scheduler" where
  "unwait a s = s\<lparr>sd_waiting := filter (\<lambda>b. b \<noteq> a) (sd_waiting s)\<rparr>"

definition wait_for :: "nat \<Rightarrow> 'v scheduler \<Rightarrow> 'v scheduler" where
  "wait_for a s = (if a \<in> set (sd_waiting s) then s else s\<lparr>sd_waiting := sd_waiting s @ [a]\<rparr>)"

section \<open>Admission\<close>

datatype admission = Adm_Ready | Adm_Wait | Adm_Refused string

definition unit_amounts :: "work_unit \<Rightarrow> budget_amounts" where
  "unit_amounts unit = (\<lambda>d. case d of
       Operations \<Rightarrow> Num (JInt 1)
     | Bytes \<Rightarrow> Num (JInt (wu_expectedOutputBytes unit))
     | _ \<Rightarrow> Undefined)"

fun reserve_refusal :: "int \<Rightarrow> budget_error \<Rightarrow> work_unit \<Rightarrow> scheduling_error" where
  "reserve_refusal limit (Budget_Exhausted _ d _ remaining) unit = Unit_Budget_Exhausted (wu_id unit) d remaining"
| "reserve_refusal limit (Accounting_Overflow _ d remaining) unit = Unit_Budget_Exhausted (wu_id unit) d remaining"
| "reserve_refusal limit _ unit = Concurrency_Limit (wu_id unit) limit"

definition pass_over :: "'v scheduler \<Rightarrow> 'v scheduler" where
  "pass_over s = s\<lparr>sd_entries := js_modify_all (\<lambda>e. e\<lparr>en_passedOver := en_passedOver e + 1\<rparr>) (sd_waiting s)
                                   (sd_entries s)\<rparr>"

text \<open>The unit takes its keys and runs; every unit still waiting has been passed over once more.\<close>

definition launch :: "nat \<Rightarrow> 'v entry \<Rightarrow> reservation_id option \<Rightarrow> 'v scheduler \<Rightarrow> 'v scheduler" where
  "launch a e reservation s =
     pass_over (unwait a
       (on_entry a (\<lambda>e. e\<lparr>en_state := Running, en_reservation := reservation\<rparr>)
          (s\<lparr>sd_held := acquire (en_keys e) (sd_held s), sd_running := sd_running s + 1\<rparr>)))"

definition start_entry :: "admission option \<Rightarrow> reservation_id \<Rightarrow> nat \<Rightarrow> 'v scheduler \<Rightarrow> 'v scheduler" where
  "start_entry admission reservationId a s =
     (case entry_at s a of
        None \<Rightarrow> s
      | Some e \<Rightarrow>
          (case admission of
             Some Adm_Wait \<Rightarrow>
               if \<not> en_capacityBlocked e then on_entry a (\<lambda>e. e\<lparr>en_capacityBlocked := True\<rparr>) s else s
           | Some (Adm_Refused receipt) \<Rightarrow> refuse_entry a (\<lambda>unit. Resource_Admission (wu_id unit) receipt) s
           | _ \<Rightarrow>
               (case sd_budgetId s of
                  None \<Rightarrow> launch a e (en_reservation e) s
                | Some budgetId \<Rightarrow>
                    (case reserve (sd_ledger s) budgetId reservationId (unit_amounts (en_unit e)) of
                       (ledger, Err error) \<Rightarrow>
                         refuse_entry a (reserve_refusal (sl_maxConcurrent (sd_limits s)) error)
                           (s\<lparr>sd_ledger := ledger\<rparr>)
                     | (ledger, Ok _) \<Rightarrow> launch a e (Some reservationId) (s\<lparr>sd_ledger := ledger\<rparr>)))))"

definition effectiveRank :: "'v scheduler \<Rightarrow> 'v entry \<Rightarrow> int" where
  "effectiveRank s e =
     max 0 (int (priorityRank (wu_priority (en_unit e)))
            - int (en_passedOver e) div max 1 (sl_starvationThreshold (sd_limits s)))"

definition reserved_slots :: "scheduler_limits \<Rightarrow> int" where
  "reserved_slots limits =
     min (case sl_reservedInteractive limits of None \<Rightarrow> 0 | Some n \<Rightarrow> n) (max 0 (sl_maxConcurrent limits - 1))"

definition outranks :: "'v scheduler \<Rightarrow> 'v entry \<Rightarrow> 'v entry \<Rightarrow> bool" where
  "outranks s other e \<longleftrightarrow>
     effectiveRank s other < effectiveRank s e \<or>
     effectiveRank s other = effectiveRank s e \<and> en_arrival other < en_arrival e"

definition could_start :: "'v scheduler \<Rightarrow> 'v entry \<Rightarrow> bool" where
  "could_start s other \<longleftrightarrow>
     en_state other = Ready \<and> \<not> en_capacityBlocked other \<and> keysAvailable s (en_keys other)"

definition higherWaiting :: "'v scheduler \<Rightarrow> nat \<Rightarrow> 'v entry \<Rightarrow> bool" where
  "higherWaiting s a e \<longleftrightarrow>
     list_ex (\<lambda>b. b \<noteq> a \<and>
        (case entry_at s b of None \<Rightarrow> False | Some other \<Rightarrow> could_start s other \<and> outranks s other e))
       (sd_waiting s)"

definition admissible :: "'v scheduler \<Rightarrow> nat \<Rightarrow> 'v entry \<Rightarrow> bool" where
  "admissible s a e \<longleftrightarrow>
     \<not> (sd_running s \<ge> sl_maxConcurrent (sd_limits s)
           - (if effectiveRank s e = 0 then 0 else reserved_slots (sd_limits s)) \<or>
        \<not> keysAvailable s (en_keys e) \<or> higherWaiting s a e)"

text \<open>One iteration of the admission loop; the second component collects the skipped entries.\<close>

definition admit_one ::
  "(nat \<Rightarrow> admission option) \<Rightarrow> (nat \<Rightarrow> reservation_id) \<Rightarrow> 'v scheduler \<times> nat list \<Rightarrow> nat \<Rightarrow> 'v scheduler \<times> nat list"
where
  "admit_one admit rid = (\<lambda>(s, skipped) a.
     case entry_at s a of
       None \<Rightarrow> (s, skipped)
     | Some e \<Rightarrow>
         if \<not> admissible s a e then (s, skipped @ [a])
         else let s = (if effectiveRank s e < int (priorityRank (wu_priority (en_unit e)))
                       then s\<lparr>sd_promotions := sd_promotions s + 1\<rparr> else s);
                  s = start_entry (admit a) (rid a) a s
              in (s, if state_at s a = Some Ready then skipped @ [a] else skipped))"

section \<open>Iterations of a generation\<close>

definition in_states :: "'v scheduler \<Rightarrow> entry_state list \<Rightarrow> nat \<Rightarrow> bool" where
  "in_states s states a \<longleftrightarrow> (case state_at s a of None \<Rightarrow> False | Some st \<Rightarrow> st \<in> set states)"

definition expire_one_entry :: "instant \<Rightarrow> 'v scheduler \<Rightarrow> nat \<Rightarrow> 'v scheduler" where
  "expire_one_entry now s a =
     (case entry_at s a of
        None \<Rightarrow> s
      | Some e \<Rightarrow>
          if (en_state e = Ready \<or> en_state e = Blocked) \<and>
             (case wu_deadline (en_unit e) of None \<Rightarrow> False | Some d \<Rightarrow> now \<ge> expiresAt d)
          then unwait a (settle_entry a (Timed_Out Eff_None) s)
          else s)"

text \<open>\<open>byId\<close> of a generation; the identifiers of a generation that runs are pairwise different.\<close>

definition by_id :: "'v scheduler \<Rightarrow> nat list \<Rightarrow> string \<Rightarrow> 'v entry option" where
  "by_id s gen i =
     (case List.find (\<lambda>a. map_option (\<lambda>e. wu_id (en_unit e)) (entry_at s a) = Some i) gen of
        None \<Rightarrow> None
      | Some a \<Rightarrow> entry_at s a)"

definition dependenciesSettled :: "'v scheduler \<Rightarrow> nat list \<Rightarrow> 'v entry \<Rightarrow> bool" where
  "dependenciesSettled s gen e \<longleftrightarrow>
     list_all (\<lambda>i. map_option en_state (by_id s gen i) = Some Settled) (wu_dependencies (en_unit e))"

fun result_completed :: "'v scheduling_result option \<Rightarrow> bool" where
  "result_completed (Some (Completed_Unit _ _)) \<longleftrightarrow> True"
| "result_completed _ \<longleftrightarrow> False"

fun first_failed :: "'v scheduler \<Rightarrow> nat list \<Rightarrow> string list \<Rightarrow> 'v entry option" where
  "first_failed s gen [] = None"
| "first_failed s gen (i # is) =
     (case by_id s gen i of
        None \<Rightarrow> None
      | Some e \<Rightarrow> if result_completed (en_result e) then first_failed s gen is else Some e)"

definition failedDependencyOf :: "'v scheduler \<Rightarrow> nat list \<Rightarrow> 'v entry \<Rightarrow> 'v entry option" where
  "failedDependencyOf s gen e = first_failed s gen (wu_dependencies (en_unit e))"

fun failed_outcome :: "'v scheduling_result option \<Rightarrow> terminal_outcome" where
  "failed_outcome (Some (Refused_Unit _ _ outcome _)) = outcome"
| "failed_outcome (Some (Settled_Unit _ outcome _)) = outcome"
| "failed_outcome _ = Failed Eff_None"

definition promote_one :: "instant \<Rightarrow> nat list \<Rightarrow> 'v scheduler \<Rightarrow> nat \<Rightarrow> 'v scheduler" where
  "promote_one now gen s a =
     (case entry_at s a of
        None \<Rightarrow> s
      | Some e \<Rightarrow>
          if en_state e \<noteq> Blocked \<or> \<not> dependenciesSettled s gen e then s
          else case failedDependencyOf s gen e of
                 Some failed \<Rightarrow>
                   refuse_entry a (\<lambda>unit. Dependency_Failed (wu_id unit) (wu_id (en_unit failed))
                                     (failed_outcome (en_result failed))) s
               | None \<Rightarrow> on_entry a (\<lambda>e. e\<lparr>en_state := Ready, en_readySince := Some now\<rparr>) s)"

text \<open>Ready entries by effective rank, ties by arrival: arrivals are listed in ascending order.\<close>

definition rank_at :: "'v scheduler \<Rightarrow> nat \<Rightarrow> int" where
  "rank_at s a = (case entry_at s a of None \<Rightarrow> 0 | Some e \<Rightarrow> effectiveRank s e)"

definition ordered_ready :: "'v scheduler \<Rightarrow> nat list \<Rightarrow> nat list" where
  "ordered_ready s gen = sort_key (rank_at s) (sort (filter (\<lambda>a. state_at s a = Some Ready) gen))"

definition sync_one :: "'v scheduler \<Rightarrow> nat \<Rightarrow> 'v scheduler" where
  "sync_one s a = (if in_states s [Ready, Blocked] a then wait_for a s else unwait a s)"

definition lock_expiry :: "'v scheduler \<Rightarrow> 'v entry \<Rightarrow> instant" where
  "lock_expiry s e =
     (let queued = en_queuedAt e + sl_lockAcquisitionTimeoutMs (sd_limits s)
      in case wu_deadline (en_unit e) of None \<Rightarrow> queued | Some d \<Rightarrow> min queued (expiresAt d))"

definition lock_deadlines :: "'v scheduler \<Rightarrow> nat list \<Rightarrow> (nat \<times> instant) list" where
  "lock_deadlines s skipped =
     List.map_filter (\<lambda>a. case entry_at s a of
         None \<Rightarrow> None
       | Some e \<Rightarrow> if en_state e = Ready \<and> en_readySince e \<noteq> None then Some (a, lock_expiry s e) else None) skipped"

definition lock_refusal :: "'v scheduler \<Rightarrow> instant \<Rightarrow> conflict_key list \<Rightarrow> work_unit \<Rightarrow> scheduling_error" where
  "lock_refusal s expiry keys unit =
     (case (case List.find (\<lambda>k. held_of (sd_held s) k > 0) keys of
              Some k \<Rightarrow> Some k
            | None \<Rightarrow> (case keys of [] \<Rightarrow> None | k # _ \<Rightarrow> Some k)) of
        Some contended \<Rightarrow> Lock_Acquisition_Timeout (wu_id unit) contended (deadlineAt expiry)
      | None \<Rightarrow> Concurrency_Limit (wu_id unit) (sl_maxConcurrent (sd_limits s)))"

definition lock_timeout_one :: "instant \<Rightarrow> 'v scheduler \<times> bool \<Rightarrow> nat \<times> instant \<Rightarrow> 'v scheduler \<times> bool" where
  "lock_timeout_one now = (\<lambda>(s, any) (a, expiry).
     if now \<ge> expiry
     then (case entry_at s a of
             None \<Rightarrow> (s, any)
           | Some e \<Rightarrow> (refuse_entry a (lock_refusal s expiry (en_keys e)) s, True))
     else (s, any))"

datatype iteration = Again | Parked "instant option" | Ended

definition all_settled :: "'v scheduler \<Rightarrow> nat list \<Rightarrow> bool" where
  "all_settled s gen \<longleftrightarrow> list_all (\<lambda>a. in_states s [Settled] a) gen"

definition abort_one :: "'v scheduler \<Rightarrow> nat \<Rightarrow> 'v scheduler" where
  "abort_one s a = (if in_states s [Blocked, Ready] a then settle_entry a NO_EFFECT s else s)"

text \<open>
  One turn of the \<open>while\<close> loop, up to its next await or \<open>continue\<close>. Under an abort the generation
  waits for its running units only.
\<close>

definition iterate ::
  "instant \<Rightarrow> (nat \<Rightarrow> admission option) \<Rightarrow> (nat \<Rightarrow> reservation_id) \<Rightarrow> nat list \<Rightarrow> bool \<Rightarrow> 'v scheduler \<Rightarrow>
   'v scheduler \<times> iteration" where
  "iterate now admit rid gen aborted s =
     (if all_settled s gen then (s, Ended)
      else if aborted
      then let s = foldl abort_one s gen
           in (s, if list_ex (in_states s [Running]) gen then Parked None else Ended)
      else let s = foldl (expire_one_entry now) s gen;
               s = foldl (promote_one now gen) s gen;
               (s, skipped) = foldl (admit_one admit rid) (s, []) (ordered_ready s gen);
               s = foldl sync_one s gen;
               deadlines = lock_deadlines s skipped;
               (s, timedOutAny) = foldl (lock_timeout_one now) (s, False) deadlines
           in if timedOutAny then (s, Again)
              else if all_settled s gen then (s, Ended)
              else (s, Parked (case map snd deadlines of [] \<Rightarrow> None | t # ts \<Rightarrow> Some (foldl min t ts))))"

text \<open>What the generation does when it is over.\<close>

definition conclude :: "nat list \<Rightarrow> 'v scheduler \<Rightarrow> 'v scheduler" where
  "conclude gen s = foldl (\<lambda>s a. unwait a s) s gen"

definition results_of :: "nat list \<Rightarrow> 'v scheduler \<Rightarrow> 'v scheduling_result list" where
  "results_of gen s =
     List.map_filter (\<lambda>a. map_option (\<lambda>e. case en_result e of
         Some r \<Rightarrow> r | None \<Rightarrow> Settled_Unit (wu_id (en_unit e)) NO_EFFECT (en_partial e)) (entry_at s a)) gen"

fun run_segment ::
  "nat \<Rightarrow> instant \<Rightarrow> (nat \<Rightarrow> nat \<Rightarrow> admission option) \<Rightarrow> (nat \<Rightarrow> nat \<Rightarrow> reservation_id) \<Rightarrow> nat list \<Rightarrow> bool \<Rightarrow>
   'v scheduler \<Rightarrow> ('v scheduler \<times> iteration) option" where
  "run_segment 0 now admit rid gen aborted s = None"
| "run_segment (Suc fuel) now admit rid gen aborted s =
     (case iterate now (admit fuel) (rid fuel) gen aborted s of
        (s', Again) \<Rightarrow> run_segment fuel now admit rid gen aborted s'
      | (s', Ended) \<Rightarrow> Some (conclude gen s', Ended)
      | (s', Parked t) \<Rightarrow> Some (s', Parked t))"

section \<open>Submitting a generation\<close>

record scheduled_work =
  sw_unit :: work_unit
  sw_inputBytes :: "js_number option"

definition new_entry :: "instant \<Rightarrow> nat \<Rightarrow> scheduled_work \<Rightarrow> 'v entry" where
  "new_entry now a w =
     \<lparr>en_unit = sw_unit w, en_arrival = a, en_queuedAt = now,
      en_inputBytes = (case sw_inputBytes w of None \<Rightarrow> JInt 0 | Some n \<Rightarrow> n), en_capacityBlocked = False,
      en_keys = effectiveConflictKeys (sw_unit w), en_state = Blocked, en_readySince = None, en_passedOver = 0,
      en_result = None, en_partial = None, en_reservation = None\<rparr>"

fun int_of :: "js_number \<Rightarrow> int" where
  "int_of (JInt n) = n"
| "int_of JNonInt = 0"

fun first_duplicate :: "string list \<Rightarrow> string list \<Rightarrow> string option" where
  "first_duplicate seen [] = None"
| "first_duplicate seen (i # is) = (if i \<in> set seen then Some i else first_duplicate (i # seen) is)"

fun first_unknown :: "string list \<Rightarrow> work_unit list \<Rightarrow> scheduling_error option" where
  "first_unknown known [] = None"
| "first_unknown known (u # us) =
     (case List.find (\<lambda>d. d \<notin> set known) (wu_dependencies u) of
        Some d \<Rightarrow> Some (Unknown_Dependency (wu_id u) d)
      | None \<Rightarrow> first_unknown known us)"

text \<open>The validation of the whole graph: the error every unit of the generation is refused with.\<close>

definition graph_error :: "work_unit list \<Rightarrow> scheduling_error option option" where
  "graph_error units =
     (case first_duplicate [] (map wu_id units) of
        Some i \<Rightarrow> Some (Some (Duplicate_Unit i))
      | None \<Rightarrow>
          (case first_unknown (map wu_id units) units of
             Some e \<Rightarrow> Some (Some e)
           | None \<Rightarrow>
               (case findCycle units of
                  None \<Rightarrow> None
                | Some None \<Rightarrow> Some None
                | Some (Some cycle) \<Rightarrow> Some (Some (Dependency_Cycle cycle)))))"

definition refuse_all :: "work_unit list \<Rightarrow> (work_unit \<Rightarrow> scheduling_error) \<Rightarrow> 'v scheduling_result list" where
  "refuse_all units error =
     map (\<lambda>u. Refused_Unit (wu_id u) (error u) refusedOutcome (recoveryFor (error u))) units"

definition queued_bytes :: "'v scheduler \<Rightarrow> int" where
  "queued_bytes s =
     (\<Sum>a\<leftarrow>sd_waiting s. case entry_at s a of None \<Rightarrow> 0 | Some e \<Rightarrow> int_of (en_inputBytes e))"

definition byte_refusal :: "'v scheduler \<Rightarrow> js_number list \<Rightarrow> bool" where
  "byte_refusal s sizes \<longleftrightarrow>
     list_ex (\<lambda>n. \<not> isSafeInteger n \<or> int_of n < 0) sizes \<or>
     (\<Sum>n\<leftarrow>sizes. int_of n) >
       (case sl_maxQueuedBytes (sd_limits s) of None \<Rightarrow> MAX_SAFE_INTEGER | Some n \<Rightarrow> n) - queued_bytes s"

definition item_refusal :: "'v scheduler \<Rightarrow> nat \<Rightarrow> bool" where
  "item_refusal s n \<longleftrightarrow>
     int (length (sd_waiting s) + n) >
       (case sl_maxQueued (sd_limits s) of None \<Rightarrow> MAX_SAFE_INTEGER | Some m \<Rightarrow> m)"

text \<open>
  The synchronous opening of \<open>runGeneration\<close>: \<open>Inl\<close> the results of a generation refused as a whole,
  \<open>Inr\<close> the arrivals of one that was queued.
\<close>

definition open_generation ::
  "instant \<Rightarrow> scheduled_work list \<Rightarrow> 'v scheduler \<Rightarrow>
   ('v scheduler \<times> ('v scheduling_result list + nat list)) option" where
  "open_generation now work s =
     (let units = map sw_unit work;
          first = sd_arrival s;
          s = s\<lparr>sd_arrival := first + length work\<rparr>;
          entries = map (\<lambda>(a, w). (a, new_entry now a w)) (enumerate first work);
          sizes = map (\<lambda>(a, e). en_inputBytes e) entries
      in case graph_error units of
           None \<Rightarrow> None
         | Some (Some error) \<Rightarrow>
             Some (s\<lparr>sd_refused := sd_refused s + length work\<rparr>, Inl (refuse_all units (\<lambda>_. error)))
         | Some None \<Rightarrow>
             if item_refusal s (length work) \<or> byte_refusal s sizes
             then Some (s\<lparr>sd_refused := sd_refused s + length work\<rparr>,
                        Inl (refuse_all units (\<lambda>u. Queue_Limit (wu_id u)
                               (if byte_refusal s sizes then Dim_Bytes else Dim_Items))))
             else let gen = map fst entries
                  in Some (s\<lparr>sd_entries := sd_entries s @ entries, sd_waiting := sd_waiting s @ gen,
                             sd_generations := sd_generations s @ [(gen, False)]\<rparr>, Inr gen))"

section \<open>Settling a running unit\<close>

datatype 'v raced = Raced_Value 'v | Raced_Error | Raced_Expired | Raced_Aborted

definition stoppedEffect :: "work_unit \<Rightarrow> effect_certainty" where
  "stoppedEffect unit = (if wu_effect unit = Observation then Eff_None else Eff_Uncertain)"

fun raced_outcome :: "work_unit \<Rightarrow> 'v raced \<Rightarrow> terminal_outcome" where
  "raced_outcome unit (Raced_Value _) = Completed"
| "raced_outcome unit Raced_Error = Failed (stoppedEffect unit)"
| "raced_outcome unit Raced_Expired = Timed_Out (stoppedEffect unit)"
| "raced_outcome unit Raced_Aborted = Cancelled (stoppedEffect unit)"

definition recordOnScope :: "instant \<Rightarrow> work_unit \<Rightarrow> terminal_outcome \<Rightarrow> scope_tree option \<Rightarrow> scope_tree option" where
  "recordOnScope now unit outcome tree =
     (case (tree, wu_scopeId unit) of
        (Some t, Some i) \<Rightarrow>
          (case recordEffect t now i (effectOf outcome) of
             (t', Ok _) \<Rightarrow> Some t'
           | (t', Err _) \<Rightarrow> Some (fst (recordLateEffect t' now i (effectOf outcome))))
      | _ \<Rightarrow> tree)"

definition settle_budget :: "budget_id option \<Rightarrow> 'v entry \<Rightarrow> 'v raced \<Rightarrow> ledger \<Rightarrow> ledger" where
  "settle_budget budgetId e raced ledger =
     (case (budgetId, en_reservation e) of
        (Some _, Some r) \<Rightarrow>
          (case raced of
             Raced_Value _ \<Rightarrow> fst (consume ledger r (unit_amounts (en_unit e)))
           | _ \<Rightarrow> fst (release ledger r))
      | _ \<Rightarrow> ledger)"

definition finish :: "instant \<Rightarrow> 'v raced \<Rightarrow> nat \<Rightarrow> 'v scheduler \<Rightarrow> 'v scheduler" where
  "finish now raced a s =
     (case entry_at s a of
        None \<Rightarrow> s
      | Some e \<Rightarrow>
          let outcome = raced_outcome (en_unit e) raced;
              s = s\<lparr>sd_held := release_keys (en_keys e) (sd_held s), sd_running := sd_running s - 1,
                    sd_ledger := settle_budget (sd_budgetId s) e raced (sd_ledger s),
                    sd_tree := recordOnScope now (en_unit e) outcome (sd_tree s)\<rparr>
          in case raced of
               Raced_Value v \<Rightarrow>
                 (on_entry a (\<lambda>e. e\<lparr>en_state := Settled,
                     en_result := Some (Completed_Unit (wu_id (en_unit e)) v)\<rparr>) s)
                 \<lparr>sd_completed := sd_completed s + 1\<rparr>
             | _ \<Rightarrow> settle_entry a outcome s)"

definition report_partial :: "'v \<Rightarrow> nat \<Rightarrow> 'v scheduler \<Rightarrow> 'v scheduler" where
  "report_partial v a s = on_entry a (\<lambda>e. e\<lparr>en_partial := Some v\<rparr>) s"

record scheduler_report =
  rp_running :: int
  rp_queued :: nat
  rp_queuedByPriority :: "priority_class \<Rightarrow> nat"
  rp_heldKeys :: "conflict_key list"
  rp_completed :: nat
  rp_refused :: nat
  rp_settledNonCompleted :: nat
  rp_promotions :: nat

definition report_scheduler :: "'v scheduler \<Rightarrow> scheduler_report" where
  "report_scheduler s =
     \<lparr>rp_running = sd_running s, rp_queued = length (sd_waiting s),
      rp_queuedByPriority = (\<lambda>p. length (filter (\<lambda>a. case entry_at s a of
          None \<Rightarrow> False | Some e \<Rightarrow> wu_priority (en_unit e) = p) (sd_waiting s))),
      rp_heldKeys = js_keys (sd_held s), rp_completed = sd_completed s, rp_refused = sd_refused s,
      rp_settledNonCompleted = sd_settledNonCompleted s, rp_promotions = sd_promotions s\<rparr>"

section \<open>Runs\<close>

text \<open>
  Between two awaits of one generation anything may happen to the others: a generation is submitted,
  another one runs a segment, a running unit settles or reports, a caller aborts, capacity changes,
  and other holders use the ledger and the tree.
\<close>

inductive sched_step :: "'v scheduler \<Rightarrow> 'v scheduler \<Rightarrow> bool" where
  sch_open: "open_generation now work s = Some (s', r) \<Longrightarrow> sched_step s s'"
| sch_iterate: "(gen, aborted) \<in> set (sd_generations s) \<Longrightarrow>
    sched_step s (fst (iterate now admit rid gen aborted s))"
| sch_conclude: "(gen, aborted) \<in> set (sd_generations s) \<Longrightarrow> all_settled s gen \<Longrightarrow> sched_step s (conclude gen s)"
| sch_finish: "state_at s a = Some Running \<Longrightarrow> sched_step s (finish now raced a s)"
| sch_partial: "state_at s a = Some Running \<Longrightarrow> sched_step s (report_partial v a s)"
| sch_abort: "sched_step s (s\<lparr>sd_generations := map (\<lambda>(g, ab). (g, ab \<or> g = gen)) (sd_generations s)\<rparr>)"
| sch_capacity: "sched_step s (s\<lparr>sd_entries := js_modify_all (\<lambda>e. e\<lparr>en_capacityBlocked := False\<rparr>) (remdups gen)
                                                  (sd_entries s)\<rparr>)"
| sch_ledger: "ledger_step (sd_ledger s) l \<Longrightarrow> sched_step s (s\<lparr>sd_ledger := l\<rparr>)"
| sch_tree: "sd_tree s = Some t \<Longrightarrow> scope_step t t' \<Longrightarrow> sched_step s (s\<lparr>sd_tree := Some t'\<rparr>)"

end
