(* ===== verification/Scheduler_Cycle.thy ===== *)
theory Scheduler_Cycle
  imports Scheduler
begin

text \<open>
  The scheduler's own cycle check is a recursive depth-first search over the units of a generation. It
  is exact, and the fuel of the model, which stands for the depth of the recursion, never runs out.
\<close>

section \<open>The graph\<close>

text \<open>Dependencies on units outside the generation are skipped.\<close>

definition known_dependencies :: "(string, string list) js_map \<Rightarrow> string \<Rightarrow> string list" where
  "known_dependencies byId i = filter (js_has byId) (case js_get byId i of None \<Rightarrow> [] | Some ds \<Rightarrow> ds)"

definition unit_graph :: "work_unit list \<Rightarrow> string \<Rightarrow> string list" where
  "unit_graph units = known_dependencies (js_map_of (map (\<lambda>unit. (wu_id unit, wu_dependencies unit)) units))"

lemma js_map_of_dom: "js_has (js_map_of ps) k \<longleftrightarrow> k \<in> fst ` set ps"
proof -
  have "js_has (foldl (\<lambda>m (k, v). js_set k v m) m ps) k \<longleftrightarrow> k \<in> fst ` set ps \<or> js_has m k" for m
    by (induction ps arbitrary: m) (auto split: if_splits)
  from this [of "[]"] show ?thesis by (simp add: js_map_of_def)
qed

section \<open>The invariant of the search\<close>

definition visit_inv :: "(string, string list) js_map \<Rightarrow> visit_state \<Rightarrow> bool" where
  "visit_inv byId = (\<lambda>(state, stack).
     distinct stack \<and> {x. js_get state x = Some Visiting} = set stack \<and> set stack \<subseteq> {x. js_has byId x} \<and>
     successively (\<lambda>a b. b \<in> set (known_dependencies byId a)) stack \<and>
     (\<forall>x \<in> finished state. set (known_dependencies byId x) \<subseteq> finished state \<and>
        (x, x) \<notin> (edges (known_dependencies byId))\<^sup>+))"

text \<open>A visit returns, and either it found a cycle or it leaves the stack as it was with the unit finished.\<close>

definition visit_owes :: "(string, string list) js_map \<Rightarrow> visit_state \<Rightarrow> string set \<Rightarrow> (visit_state + string list) option \<Rightarrow> bool" where
  "visit_owes byId s V r \<longleftrightarrow>
     (case r of
        None \<Rightarrow> False
      | Some (Inr c) \<Rightarrow> is_cycle (known_dependencies byId) c \<and> set c \<subseteq> {x. js_has byId x}
      | Some (Inl s') \<Rightarrow> visit_inv byId s' \<and> snd s' = snd s \<and> finished (fst s) \<union> V \<subseteq> finished (fst s'))"

abbreviation enough :: "(string, string list) js_map \<Rightarrow> nat \<Rightarrow> visit_state \<Rightarrow> bool" where
  "enough byId fuel s \<equiv> card {x. js_has byId x} < fuel + length (snd s)"

abbreviation follows :: "(string, string list) js_map \<Rightarrow> visit_state \<Rightarrow> string set \<Rightarrow> bool" where
  "follows byId s V \<equiv> snd s = [] \<or> V \<subseteq> set (known_dependencies byId (last (snd s)))"

lemma known_finite: "finite {x. js_has byId x}"
proof -
  have "{x. js_has byId x} = dom (map_of byId)" by auto
  then show ?thesis by (simp add: finite_dom_map_of)
qed

lemma stack_length: "visit_inv byId s \<Longrightarrow> length (snd s) \<le> card {x. js_has byId x}"
proof -
  assume "visit_inv byId s"
  then have "distinct (snd s)" "set (snd s) \<subseteq> {x. js_has byId x}" by (auto simp: visit_inv_def)
  then show ?thesis by (metis card_mono distinct_card known_finite)
qed

lemma visit_closes:
  assumes inv: "visit_inv byId (state, stack)" and i: "js_get state i = Some Visiting"
    and last: "follows byId (state, stack) {i}"
  shows "is_cycle (known_dependencies byId) (drop (nat (index_of i stack)) stack)" "0 \<le> index_of i stack"
    "set (drop (nat (index_of i stack)) stack) \<subseteq> {x. js_has byId x}"
proof -
  let ?P = "\<lambda>a b. b \<in> set (known_dependencies byId a)"
  have "i \<in> set stack" using inv i by (auto simp: visit_inv_def)
  then obtain before after where stack: "stack = before @ i # after" by (meson split_list)
  have "distinct stack" "set stack \<subseteq> {x. js_has byId x}" and succ: "successively ?P stack"
    using inv by (auto simp: visit_inv_def)
  then have idx: "index_of i stack = int (length before)"
    unfolding index_of_def by (intro find_index_split [OF stack]) (auto simp: stack)
  then show "0 \<le> index_of i stack" by simp
  have c: "drop (nat (index_of i stack)) stack = i # after" unfolding idx by (simp add: stack)
  have "successively ?P (i # after)" using succ unfolding stack successively_append_iff by simp
  moreover have "i \<in> set (known_dependencies byId (last (i # after)))" using last by (auto simp: stack)
  ultimately have "successively ?P ((i # after) @ [i])" by (subst successively_append_iff) simp
  then show "is_cycle (known_dependencies byId) (drop (nat (index_of i stack)) stack)"
    unfolding c is_cycle_def using \<open>distinct stack\<close> by (simp add: stack)
  show "set (drop (nat (index_of i stack)) stack) \<subseteq> {x. js_has byId x}"
    using \<open>set stack \<subseteq> {x. js_has byId x}\<close> by (meson set_drop_subset subset_trans)
qed

lemma visit_enters:
  assumes "visit_inv byId (state, stack)" "js_get state i = None" "js_has byId i" "follows byId (state, stack) {i}"
  shows "visit_inv byId (js_set i Visiting state, stack @ [i])"
proof -
  have fin: "finished (js_set i Visiting state) = finished state" using assms(2) by auto
  have vis: "{x. js_get (js_set i Visiting state) x = Some Visiting} = insert i {x. js_get state x = Some Visiting}" by auto
  have "set stack = {x. js_get state x = Some Visiting}" using assms(1) by (simp add: visit_inv_def)
  then have "i \<notin> set stack" using assms(2) by simp
  then show ?thesis
    using assms unfolding visit_inv_def prod.case fin vis by (auto simp: successively_append_iff)
qed

lemma visit_leaves:
  assumes "visit_inv byId (state, stack @ [i])" "set (known_dependencies byId i) \<subseteq> finished state"
  shows "visit_inv byId (js_set i Finished state, stack)"
proof -
  have i: "js_get state i = Some Visiting" "i \<notin> set stack" using assms(1) by (auto simp: visit_inv_def)
  have fin: "finished (js_set i Finished state) = insert i (finished state)" by auto
  have "{x. js_get (js_set i Finished state) x = Some Visiting} = {x. js_get state x = Some Visiting} - {i}" by auto
  also have "\<dots> = set stack" using assms(1) i(2) by (auto simp: visit_inv_def)
  finally have vis: "{x. js_get (js_set i Finished state) x = Some Visiting} = set stack" .
  have "\<forall>x \<in> insert i (finished state). set (known_dependencies byId x) \<subseteq> insert i (finished state) \<and>
      (x, x) \<notin> (edges (known_dependencies byId))\<^sup>+"
    using assms i by (intro finish_acyclic) (auto simp: visit_inv_def)
  then show ?thesis
    using assms(1) unfolding visit_inv_def prod.case fin vis by (simp add: successively_append_iff)
qed

section \<open>The search is right\<close>

lemma visit_correct:
  "js_has byId i \<Longrightarrow> visit_inv byId s \<Longrightarrow> enough byId fuel s \<Longrightarrow> follows byId s {i} \<Longrightarrow>
     visit_owes byId s {i} (visit fuel byId i s)"
  "visit_inv byId s \<Longrightarrow> enough byId fuel s \<Longrightarrow> follows byId s (set (filter (js_has byId) is)) \<Longrightarrow>
     visit_owes byId s (set (filter (js_has byId) is)) (visit_all fuel byId is s)"
proof (induction fuel byId i s and fuel byId "is" s rule: visit_visit_all.induct)
  case (1 byId i s)
  then show ?case using stack_length [of byId s] by simp
next
  case (2 fuel byId i s)
  obtain state stack where s: "s = (state, stack)" by fastforce
  consider "js_get state i = Some Finished" | "js_get state i = Some Visiting" | "js_get state i = None"
    by (metis mark.exhaust not_None_eq)
  then show ?case
  proof cases
    case 1
    then show ?thesis using 2 by (simp add: s visit_owes_def)
  next
    case 2
    then show ?thesis
      using visit_closes [of byId state stack i] "2.prems" by (simp add: s visit_owes_def Let_def)
  next
    case 3
    let ?ds = "case js_get byId i of None \<Rightarrow> [] | Some ds \<Rightarrow> ds"
    let ?s = "(js_set i Visiting state, stack @ [i])"
    have inv: "visit_inv byId ?s" using visit_enters 3 "2.prems" by (simp add: s)
    have "visit_owes byId ?s (set (filter (js_has byId) ?ds)) (visit_all fuel byId ?ds ?s)"
      using "2.IH" [OF s [symmetric] 3 inv] "2.prems"(3) by (simp add: s known_dependencies_def)
    then have owes: "visit_owes byId ?s (set (known_dependencies byId i)) (visit_all fuel byId ?ds ?s)"
      by (simp add: known_dependencies_def)
    show ?thesis
    proof (cases "visit_all fuel byId ?ds ?s")
      case None
      with owes show ?thesis by (simp add: visit_owes_def)
    next
      case (Some r)
      show ?thesis
      proof (cases r)
        case (Inr c)
        with owes Some 3 show ?thesis by (simp add: visit_owes_def s)
      next
        case (Inl s')
        obtain state' stack' where s': "s' = (state', stack')" by fastforce
        have "finished (js_set i Visiting state) = finished state" using 3 by auto
        then have facts: "visit_inv byId (state', stack @ [i])" "stack' = stack @ [i]"
          "finished state \<subseteq> finished state'" "set (known_dependencies byId i) \<subseteq> finished state'"
          using owes Some Inl s' by (auto simp: visit_owes_def)
        have "visit_inv byId (js_set i Finished state', stack)" using visit_leaves facts(1,4) .
        moreover have "finished state \<union> {i} \<subseteq> finished (js_set i Finished state')" using facts(3) by auto
        moreover have "visit (Suc fuel) byId i s = Some (Inl (js_set i Finished state', stack))"
          by (simp add: s 3 Some Inl s' facts(2))
        ultimately show ?thesis by (simp add: visit_owes_def s)
      qed
    qed
  qed
next
  case (3 fuel byId s)
  then show ?case by (simp add: visit_owes_def)
next
  case (4 fuel byId i "is" s)
  show ?case
  proof (cases "js_has byId i")
    case False
    with 4 show ?thesis by simp
  next
    case True
    then have owes: "visit_owes byId s {i} (visit fuel byId i s)" using 4 by auto
    show ?thesis
    proof (cases "visit fuel byId i s")
      case None
      with owes show ?thesis by (simp add: visit_owes_def)
    next
      case (Some r)
      show ?thesis
      proof (cases r)
        case (Inr c)
        with owes Some True show ?thesis by (simp add: visit_owes_def)
      next
        case (Inl s')
        with owes Some have s': "visit_inv byId s'" "snd s' = snd s" "finished (fst s) \<union> {i} \<subseteq> finished (fst s')"
          by (simp_all add: visit_owes_def)
        have "visit_owes byId s' (set (filter (js_has byId) is)) (visit_all fuel byId is s')"
          using "4.IH"(3) [of r s'] True Some Inl s' "4.prems" by auto
        with s' Some Inl True show ?thesis
          by (auto simp: visit_owes_def split: option.splits sum.splits)
      qed
    qed
  qed
qed

lemma visit_roots_correct:
  assumes "visit_inv byId s" "snd s = []" "card {x. js_has byId x} < fuel" "\<And>i. i \<in> set is \<Longrightarrow> js_has byId i"
  shows "find_owes (known_dependencies byId) {x. js_has byId x} (finished (fst s) \<union> set is) (visit_roots fuel byId is s)"
  using assms
proof (induction "is" arbitrary: s)
  case Nil
  have "\<forall>x \<in> finished (fst s). set (known_dependencies byId x) \<subseteq> finished (fst s) \<and>
      (x, x) \<notin> (edges (known_dependencies byId))\<^sup>+"
    using Nil.prems(1) unfolding visit_inv_def case_prod_unfold by blast
  then have "\<exists>F. finished (fst s) \<subseteq> F \<and>
      (\<forall>x \<in> F. set (known_dependencies byId x) \<subseteq> F \<and> (x, x) \<notin> (edges (known_dependencies byId))\<^sup>+)" by blast
  then show ?case by (simp add: find_owes_def)
next
  case (Cons i "is")
  have owes: "visit_owes byId s {i} (visit fuel byId i s)"
    by (rule visit_correct(1)) (use Cons.prems in auto)
  show ?case
  proof (cases "visit fuel byId i s")
    case None
    with owes show ?thesis by (simp add: visit_owes_def)
  next
    case (Some r)
    show ?thesis
    proof (cases r)
      case (Inr c)
      with owes Some show ?thesis by (simp add: visit_owes_def find_owes_def)
    next
      case (Inl s')
      with owes Some have s': "visit_inv byId s'" "snd s' = snd s" "finished (fst s) \<union> {i} \<subseteq> finished (fst s')"
        by (simp_all add: visit_owes_def)
      have "find_owes (known_dependencies byId) {x. js_has byId x} (finished (fst s') \<union> set is) (visit_roots fuel byId is s')"
        using Cons.IH [of s'] s' Cons.prems by simp
      then have "find_owes (known_dependencies byId) {x. js_has byId x} (finished (fst s) \<union> set (i # is)) (visit_roots fuel byId is s')"
        by (rule find_owes_mono) (use s'(3) in auto)
      with Some Inl show ?thesis by simp
    qed
  qed
qed

section \<open>Property\<close>

text \<open>
  C22. The check of a generation's dependencies always answers, and exactly: it finds no cycle if and only if
  no unit depends on itself through any chain of dependencies inside the generation, and the cycle it reports
  is one: different units of the generation, each depending on the next and the last on the first.
\<close>

theorem unit_cycle_check_is_exact:
  "\<exists>result. findCycle units = Some result \<and>
    (result = None \<longleftrightarrow> (\<forall>u \<in> set units. (wu_id u, wu_id u) \<notin> (edges (unit_graph units))\<^sup>+)) \<and>
    (\<forall>c. result = Some c \<longrightarrow> is_cycle (unit_graph units) c \<and> set c \<subseteq> wu_id ` set units)"
proof -
  let ?byId = "js_map_of (map (\<lambda>unit. (wu_id unit, wu_dependencies unit)) units)"
  have dom: "{x. js_has ?byId x} = wu_id ` set units" by (simp only: js_map_of_dom) (auto simp: image_image)
  have known: "js_has ?byId i" if "i \<in> set (map wu_id units)" for i using that dom by auto
  have "card (wu_id ` set units) < Suc (Suc (length units))"
    using card_image_le [of "set units" wu_id] card_length [of units] by simp
  then have "find_owes (unit_graph units) (wu_id ` set units) (wu_id ` set units) (findCycle units)"
    using visit_roots_correct [of ?byId "([], [])" "Suc (Suc (length units))" "map wu_id units", OF _ _ _ known]
    unfolding dom findCycle_def Let_def unit_graph_def [symmetric]
    by (simp add: visit_inv_def)
  then obtain result where r: "findCycle units = Some result"
    and owes: "find_owes (unit_graph units) (wu_id ` set units) (wu_id ` set units) (Some result)"
    by (cases "findCycle units") (auto simp: find_owes_def)
  show ?thesis
  proof (cases result)
    case None
    with owes obtain F where "wu_id ` set units \<subseteq> F"
      "\<forall>x \<in> F. (x, x) \<notin> (edges (unit_graph units))\<^sup>+"
      by (auto simp: find_owes_def)
    with r None show ?thesis by auto
  next
    case (Some c)
    with owes have c: "is_cycle (unit_graph units) c" "set c \<subseteq> wu_id ` set units" by (simp_all add: find_owes_def)
    from c(1) have "hd c \<in> set c" by (simp add: is_cycle_def)
    with c obtain u where "u \<in> set units" "wu_id u = hd c" by auto
    moreover have "(hd c, hd c) \<in> (edges (unit_graph units))\<^sup>+" using is_cycle_trancl [OF c(1)] \<open>hd c \<in> set c\<close> by blast
    ultimately have "\<exists>u \<in> set units. (wu_id u, wu_id u) \<in> (edges (unit_graph units))\<^sup>+" by (metis)
    with r Some c show ?thesis by auto
  qed
qed

definition cyclic_unit :: "string \<Rightarrow> string list \<Rightarrow> work_unit" where
  "cyclic_unit i dependencies =
     \<lparr>wu_id = i, wu_effect = Observation, wu_priority = Interactive, wu_conflictKeys = [], wu_dependencies = dependencies,
      wu_deadline = None, wu_expectedOutputBytes = 0, wu_retry = NO_RETRY, wu_scopeId = None\<rparr>"

theorem unit_cycle_check_is_exact_witness:
  "is_cycle (unit_graph [cyclic_unit ''a'' [''b''], cyclic_unit ''b'' [''c''], cyclic_unit ''c'' [''b'']]) [''b'', ''c'']"
proof -
  have "findCycle [cyclic_unit ''a'' [''b''], cyclic_unit ''b'' [''c''], cyclic_unit ''c'' [''b'']] = Some (Some [''b'', ''c''])"
    by code_simp
  with unit_cycle_check_is_exact [of "[cyclic_unit ''a'' [''b''], cyclic_unit ''b'' [''c''], cyclic_unit ''c'' [''b'']]"]
  show ?thesis by auto
qed

end
