(* ===== verification/Scheduler_Spec.thy ===== *)
theory Scheduler_Spec
  imports Scheduler
begin

text \<open>
  What the scheduler promises, without its bookkeeping: an abstract machine whose state is the
  generations and, per arrival, the unit, its keys, where it stands and its result. Its guards are
  stated by counting: a unit may start when fewer units than allowed run, and for each of its keys
  fewer holders than allowed. The invariant of this machine is the contract; the next theory shows
  that the scheduler implements the machine.
\<close>

section \<open>The machine\<close>

record 'v core =
  cr_unit :: work_unit
  cr_keys :: "conflict_key list"
  cr_state :: entry_state
  cr_result :: "'v scheduling_result option"

type_synonym 'v spec = "nat list list \<times> (nat \<Rightarrow> 'v core option)"

definition running_set :: "(nat \<Rightarrow> 'v core option) \<Rightarrow> nat set" where
  "running_set M = {a. \<exists>c. M a = Some c \<and> cr_state c = Running}"

definition holders :: "(nat \<Rightarrow> 'v core option) \<Rightarrow> conflict_key \<Rightarrow> nat set" where
  "holders M k = {a. \<exists>c. M a = Some c \<and> cr_state c = Running \<and> k \<in> set (cr_keys c)}"

definition dep_done :: "(nat \<Rightarrow> 'v core option) \<Rightarrow> nat list \<Rightarrow> string \<Rightarrow> bool" where
  "dep_done M gen d \<longleftrightarrow>
     (\<exists>b \<in> set gen. \<exists>c. M b = Some c \<and> wu_id (cr_unit c) = d \<and> cr_state c = Settled \<and> result_completed (cr_result c))"

text \<open>A result of a unit that never ran names the unit and claims no effect.\<close>

fun unstarted_result :: "work_unit \<Rightarrow> 'v scheduling_result \<Rightarrow> bool" where
  "unstarted_result u (Completed_Unit _ _) \<longleftrightarrow> False"
| "unstarted_result u (Refused_Unit i _ outcome _) \<longleftrightarrow> i = wu_id u \<and> effectOf outcome = Eff_None"
| "unstarted_result u (Settled_Unit i outcome _) \<longleftrightarrow> i = wu_id u \<and> effectOf outcome = Eff_None"

text \<open>The result of a unit that ran: the value, or an outcome with the effect its class stands for.\<close>

fun ran_result :: "work_unit \<Rightarrow> 'v scheduling_result \<Rightarrow> bool" where
  "ran_result u (Completed_Unit i _) \<longleftrightarrow> i = wu_id u"
| "ran_result u (Refused_Unit _ _ _ _) \<longleftrightarrow> False"
| "ran_result u (Settled_Unit i outcome _) \<longleftrightarrow> i = wu_id u \<and> effectOf outcome = stoppedEffect u"

inductive spec_step :: "scheduler_limits \<Rightarrow> 'v spec \<Rightarrow> 'v spec \<Rightarrow> bool" for L where
  spec_open: "set gen \<inter> dom M = {} \<Longrightarrow> set gen \<inter> \<Union> (set ` set G) = {} \<Longrightarrow> dom N = set gen \<Longrightarrow>
    (\<And>a c. N a = Some c \<Longrightarrow> cr_state c = Blocked \<and> cr_result c = None) \<Longrightarrow>
    spec_step L (G, M) (G @ [gen], M ++ N)"
| spec_ready: "M a = Some c \<Longrightarrow> cr_state c = Blocked \<Longrightarrow> gen \<in> set G \<Longrightarrow> a \<in> set gen \<Longrightarrow>
    (\<And>d. d \<in> set (wu_dependencies (cr_unit c)) \<Longrightarrow> dep_done M gen d) \<Longrightarrow>
    spec_step L (G, M) (G, M(a \<mapsto> c\<lparr>cr_state := Ready\<rparr>))"
| spec_stop: "M a = Some c \<Longrightarrow> cr_state c \<in> {Blocked, Ready} \<Longrightarrow> unstarted_result (cr_unit c) r \<Longrightarrow>
    spec_step L (G, M) (G, M(a \<mapsto> c\<lparr>cr_state := Settled, cr_result := Some r\<rparr>))"
| spec_run: "M a = Some c \<Longrightarrow> cr_state c = Ready \<Longrightarrow>
    int (card (running_set M)) < sl_maxConcurrent L \<Longrightarrow>
    (\<And>k. k \<in> set (cr_keys c) \<Longrightarrow> int (card (holders M k)) < sl_maxConcurrentPerKey L) \<Longrightarrow>
    spec_step L (G, M) (G, M(a \<mapsto> c\<lparr>cr_state := Running\<rparr>))"
| spec_finish: "M a = Some c \<Longrightarrow> cr_state c = Running \<Longrightarrow> ran_result (cr_unit c) r \<Longrightarrow>
    spec_step L (G, M) (G, M(a \<mapsto> c\<lparr>cr_state := Settled, cr_result := Some r\<rparr>))"

inductive_cases spec_stepE: "spec_step L x y"

section \<open>Its invariant\<close>

definition started :: "'v core \<Rightarrow> bool" where
  "started c \<longleftrightarrow> cr_state c \<in> {Ready, Running} \<or> result_completed (cr_result c)"

definition spec_inv :: "scheduler_limits \<Rightarrow> 'v spec \<Rightarrow> bool" where
  "spec_inv L = (\<lambda>(G, M).
     finite (dom M) \<and>
     int (card (running_set M)) \<le> max 0 (sl_maxConcurrent L) \<and>
     (\<forall>k. int (card (holders M k)) \<le> max 0 (sl_maxConcurrentPerKey L)) \<and>
     (\<forall>a c. M a = Some c \<longrightarrow> (cr_state c = Settled \<longleftrightarrow> cr_result c \<noteq> None)) \<and>
     (\<forall>a c. M a = Some c \<longrightarrow> (\<exists>gen \<in> set G. a \<in> set gen)) \<and>
     (\<forall>g \<in> set G. \<forall>h \<in> set G. set g \<inter> set h \<noteq> {} \<longrightarrow> g = h) \<and>
     (\<forall>gen \<in> set G. \<forall>a \<in> set gen. \<forall>c. M a = Some c \<longrightarrow> started c \<longrightarrow>
        (\<forall>d \<in> set (wu_dependencies (cr_unit c)). dep_done M gen d)))"

lemma running_finite: "finite (dom M) \<Longrightarrow> finite (running_set M)"
  by (rule finite_subset [of _ "dom M"]) (auto simp: running_set_def)

lemma holders_running: "holders M k \<subseteq> running_set M"
  by (auto simp: holders_def running_set_def)

lemma running_upd:
  "running_set (M(a \<mapsto> c)) = (if cr_state c = Running then insert a (running_set M) else running_set M - {a})"
  by (auto simp: running_set_def split: if_splits)

lemma holders_upd:
  "holders (M(a \<mapsto> c)) k =
     (if cr_state c = Running \<and> k \<in> set (cr_keys c) then insert a (holders M k) else holders M k - {a})"
  by (auto simp: holders_def split: if_splits)

lemma idle_upd:
  assumes "M a = Some c" "cr_state c \<noteq> Running" "cr_state c' \<noteq> Running"
  shows "running_set (M(a \<mapsto> c')) = running_set M" "holders (M(a \<mapsto> c')) k = holders M k"
proof -
  have "a \<notin> running_set M" "a \<notin> holders M k" using assms by (auto simp: running_set_def holders_def)
  then show "running_set (M(a \<mapsto> c')) = running_set M" "holders (M(a \<mapsto> c')) k = holders M k"
    using assms(3) by (simp_all add: running_upd holders_upd)
qed

lemma dep_done_upd:
  assumes "dep_done M gen d" "M a = Some c" "cr_state c \<noteq> Settled"
  shows "dep_done (M(a \<mapsto> c')) gen d"
proof -
  obtain b cb where b: "b \<in> set gen" "M b = Some cb" "wu_id (cr_unit cb) = d" "cr_state cb = Settled"
    "result_completed (cr_result cb)"
    using assms(1) by (auto simp: dep_done_def)
  with assms(2,3) have "b \<noteq> a" by auto
  with b show ?thesis by (auto simp: dep_done_def intro!: bexI [of _ b])
qed

lemma started_new: "cr_state c = Blocked \<Longrightarrow> cr_result c = None \<Longrightarrow> \<not> started c"
  by (simp add: started_def)

lemma spec_invI:
  assumes "finite (dom M)" "int (card (running_set M)) \<le> max 0 (sl_maxConcurrent L)"
    "\<And>k. int (card (holders M k)) \<le> max 0 (sl_maxConcurrentPerKey L)"
    "\<And>a c. M a = Some c \<Longrightarrow> cr_state c = Settled \<longleftrightarrow> cr_result c \<noteq> None"
    "\<And>a c. M a = Some c \<Longrightarrow> \<exists>gen \<in> set G. a \<in> set gen"
    "\<And>g h. g \<in> set G \<Longrightarrow> h \<in> set G \<Longrightarrow> set g \<inter> set h \<noteq> {} \<longrightarrow> g = h"
    "\<And>gen a c d. gen \<in> set G \<Longrightarrow> a \<in> set gen \<Longrightarrow> M a = Some c \<Longrightarrow> started c \<Longrightarrow>
       d \<in> set (wu_dependencies (cr_unit c)) \<Longrightarrow> dep_done M gen d"
  shows "spec_inv L (G, M)"
  unfolding spec_inv_def prod.case
  by (intro conjI allI ballI impI; (rule assms(1,2,3,5) | rule assms(4) | rule assms(6) [THEN mp] | rule assms(7)); assumption?)

lemma spec_inv_result:
  "spec_inv L (G, M) \<Longrightarrow> M a = Some c \<Longrightarrow> cr_state c = Settled \<longleftrightarrow> cr_result c \<noteq> None"
  unfolding spec_inv_def by blast

text \<open>The parts of the invariant that only look at one entry at a time.\<close>

lemma spec_inv_upd:
  assumes inv: "spec_inv L (G, M)" and a: "M a = Some c" "cr_state c \<noteq> Settled"
    and c': "cr_unit c' = cr_unit c" "cr_state c' = Settled \<longleftrightarrow> cr_result c' \<noteq> None"
    and run: "int (card (running_set (M(a \<mapsto> c')))) \<le> max 0 (sl_maxConcurrent L)"
    and hold: "\<And>k. int (card (holders (M(a \<mapsto> c')) k)) \<le> max 0 (sl_maxConcurrentPerKey L)"
    and ready: "\<And>gen d. gen \<in> set G \<Longrightarrow> a \<in> set gen \<Longrightarrow> started c' \<Longrightarrow> \<not> started c \<Longrightarrow>
      d \<in> set (wu_dependencies (cr_unit c)) \<Longrightarrow> dep_done M gen d"
  shows "spec_inv L (G, M(a \<mapsto> c'))"
proof -
  have old: "dep_done M gen d" if "gen \<in> set G" "b \<in> set gen" "M b = Some cb" "started cb"
      "d \<in> set (wu_dependencies (cr_unit cb))" for gen b cb d
    using inv that unfolding spec_inv_def by blast
  have deps: "dep_done (M(a \<mapsto> c')) gen d" if "gen \<in> set G" "b \<in> set gen" "(M(a \<mapsto> c')) b = Some cb" "started cb"
      "d \<in> set (wu_dependencies (cr_unit cb))" for gen b cb d
  proof -
    have "dep_done M gen d"
    proof (cases "b = a")
      case True
      then have "cb = c'" using that by simp
      with True that old [of gen a c d] ready [of gen d] a c' show ?thesis by (cases "started c") auto
    next
      case False
      with that old [of gen b cb d] show ?thesis by simp
    qed
    then show ?thesis using a by (rule dep_done_upd)
  qed
  have fin: "finite (dom (M(a \<mapsto> c')))" using inv by (simp add: spec_inv_def)
  have res: "cr_state cb = Settled \<longleftrightarrow> cr_result cb \<noteq> None" if "(M(a \<mapsto> c')) b = Some cb" for b cb
    using that inv c' by (auto simp: spec_inv_def split: if_splits)
  have gen: "\<exists>gen \<in> set G. b \<in> set gen" if "(M(a \<mapsto> c')) b = Some cb" for b cb
    using that inv a by (auto simp: spec_inv_def split: if_splits)
  have dis: "set g \<inter> set h \<noteq> {} \<longrightarrow> g = h" if "g \<in> set G" "h \<in> set G" for g h
    using that inv by (simp add: spec_inv_def)
  show ?thesis
    by (rule spec_invI [OF fin run hold res gen dis deps])
qed

lemma spec_inv_step:
  assumes "spec_step L x y" "spec_inv L x"
  shows "spec_inv L y"
  using assms(1)
proof cases
  case (spec_open gen M G N)
  note inv = assms(2) [unfolded spec_open(1)]
  have get: "(M ++ N) b = (if b \<in> set gen then N b else M b)" for b
    using spec_open(5) by (auto simp: map_add_def split: option.splits)
  have out: "M b = None" if "b \<in> set gen" for b using that spec_open(3) by auto
  have same: "running_set (M ++ N) = running_set M" "holders (M ++ N) k = holders M k" for k
    unfolding running_set_def holders_def using spec_open(6) out by (auto simp: get split: if_splits)
  have cards: "int (card (running_set (M ++ N))) \<le> max 0 (sl_maxConcurrent L)"
    "int (card (holders (M ++ N) k)) \<le> max 0 (sl_maxConcurrentPerKey L)" for k
    unfolding same using inv by (simp_all add: spec_inv_def)
  have keep: "dep_done (M ++ N) g d" if "dep_done M g d" for g d
    using that out unfolding dep_done_def get by (metis option.distinct(1))
  have fin: "finite (dom (M ++ N))"
    using inv spec_open(5) by (simp add: spec_inv_def)
  have fresh: "\<not> started c" if "(M ++ N) b = Some c" "b \<in> set gen" for b c
    using that spec_open(6) by (simp add: get started_new)
  have "b \<notin> set gen" if "g \<in> set G" "b \<in> set g" for g b
    using that spec_open(4) by auto
  have dis: "set g \<inter> set h \<noteq> {} \<longrightarrow> g = h" if "g \<in> set (G @ [gen])" "h \<in> set (G @ [gen])" for g h
  proof -
    have "\<forall>g \<in> set G. \<forall>h \<in> set G. set g \<inter> set h \<noteq> {} \<longrightarrow> g = h" using inv by (simp add: spec_inv_def)
    moreover have "set g \<inter> set gen = {}" if "g \<in> set G" for g using that spec_open(4) by auto
    ultimately show ?thesis using that by auto
  qed
  have gens: "\<exists>g \<in> set (G @ [gen]). b \<in> set g" if "(M ++ N) b = Some c" for b c
    using that inv by (auto simp: spec_inv_def get split: if_splits)
  have res: "cr_state c = Settled \<longleftrightarrow> cr_result c \<noteq> None" if "(M ++ N) b = Some c" for b c
    using that inv spec_open(6) by (auto simp: spec_inv_def get split: if_splits)
  have deps: "dep_done (M ++ N) g d" if "g \<in> set (G @ [gen])" "b \<in> set g" "(M ++ N) b = Some c" "started c"
      "d \<in> set (wu_dependencies (cr_unit c))" for g b c d
  proof -
    have "b \<notin> set gen" using that(3,4) fresh [of b c] by auto
    then have "g \<in> set G" "M b = Some c" using that get by (auto split: if_splits)
    with inv that have "dep_done M g d" unfolding spec_inv_def by blast
    then show ?thesis by (rule keep)
  qed
  show ?thesis
    unfolding spec_open(2) by (rule spec_invI [OF fin cards res gens dis deps])
next
  case (spec_ready M a c gen G)
  note inv = assms(2) [unfolded spec_ready(1)]
  have one: "gen' = gen" if "gen' \<in> set G" "a \<in> set gen'" for gen'
    using inv that spec_ready(5,6) unfolding spec_inv_def by blast
  have res: "cr_result c = None" using spec_inv_result [OF inv spec_ready(3)] spec_ready(4) by simp
  have idle: "cr_state c \<noteq> Running" "cr_state (c\<lparr>cr_state := Ready\<rparr>) \<noteq> Running" using spec_ready(4) by simp_all
  have cards: "int (card (running_set M)) \<le> max 0 (sl_maxConcurrent L)"
    "int (card (holders M k)) \<le> max 0 (sl_maxConcurrentPerKey L)" for k
    using inv by (simp_all add: spec_inv_def)
  show ?thesis
    unfolding spec_ready(2)
  proof (rule spec_inv_upd [OF inv spec_ready(3)], goal_cases)
    case (6 gen' d)
    then show ?case using spec_ready(7) one [of gen'] by simp
  qed (use spec_ready(4) res cards idle_upd [of M a c "c\<lparr>cr_state := Ready\<rparr>", OF spec_ready(3) idle] in simp_all)
next
  case (spec_stop M a c r G)
  note inv = assms(2) [unfolded spec_stop(1)]
  let ?c = "c\<lparr>cr_state := Settled, cr_result := Some r\<rparr>"
  have "\<not> result_completed (Some r)" using spec_stop(5) by (cases r) auto
  then have "\<not> started ?c" by (simp add: started_def)
  have idle: "cr_state c \<noteq> Running" "cr_state ?c \<noteq> Running" using spec_stop(4) by auto
  have cards: "int (card (running_set M)) \<le> max 0 (sl_maxConcurrent L)"
    "int (card (holders M k)) \<le> max 0 (sl_maxConcurrentPerKey L)" for k
    using inv by (simp_all add: spec_inv_def)
  show ?thesis
    unfolding spec_stop(2)
    by (rule spec_inv_upd [OF inv spec_stop(3)])
      (use spec_stop(4) \<open>\<not> started ?c\<close> cards idle_upd [of M a c ?c, OF spec_stop(3) idle] in auto)
next
  case (spec_run M a c G)
  note inv = assms(2) [unfolded spec_run(1)]
  have fin: "finite (running_set M)" "finite (holders M k)" for k
    using inv running_finite [of M] finite_subset [OF holders_running, of M k]
    by (auto simp: spec_inv_def)
  have card: "card (insert a X) \<le> Suc (card X)" if "finite X" for X :: "nat set"
    using that by (simp add: card_insert_if)
  have res: "cr_result c = None" using spec_inv_result [OF inv spec_run(3)] spec_run(4) by simp
  have "a \<notin> holders M k" for k using spec_run(3,4) by (auto simp: holders_def)
  moreover have "int (card (holders M k)) \<le> max 0 (sl_maxConcurrentPerKey L)" for k
    using inv by (simp add: spec_inv_def)
  ultimately have hold: "int (card (holders (M(a \<mapsto> c\<lparr>cr_state := Running\<rparr>)) k)) \<le> max 0 (sl_maxConcurrentPerKey L)" for k
    using spec_run(6) [of k] card [OF fin(2) [of k]] by (cases "k \<in> set (cr_keys c)") (auto simp: holders_upd)
  have run: "int (card (running_set (M(a \<mapsto> c\<lparr>cr_state := Running\<rparr>)))) \<le> max 0 (sl_maxConcurrent L)"
    using spec_run(5) card [OF fin(1)] by (simp add: running_upd)
  show ?thesis
    unfolding spec_run(2)
    by (rule spec_inv_upd [OF inv spec_run(3) _ _ _ run hold])
      (use spec_run(4) res in \<open>auto simp: started_def\<close>)
next
  case (spec_finish M a c r G)
  note inv = assms(2) [unfolded spec_finish(1)]
  let ?c = "c\<lparr>cr_state := Settled, cr_result := Some r\<rparr>"
  have fin: "finite (running_set M)" "finite (holders M k)" for k
    using inv running_finite [of M] finite_subset [OF holders_running, of M k]
    by (auto simp: spec_inv_def)
  have less: "card (X - {a}) \<le> card X" if "finite X" for X :: "nat set"
    using that by (simp add: card_mono)
  have cards: "int (card (running_set M)) \<le> max 0 (sl_maxConcurrent L)"
    "int (card (holders M k)) \<le> max 0 (sl_maxConcurrentPerKey L)" for k
    using inv by (simp_all add: spec_inv_def)
  have run: "int (card (running_set (M(a \<mapsto> ?c)))) \<le> max 0 (sl_maxConcurrent L)"
    using cards(1) less [OF fin(1)] by (simp add: running_upd)
  have hold: "int (card (holders (M(a \<mapsto> ?c)) k)) \<le> max 0 (sl_maxConcurrentPerKey L)" for k
    using cards(2) [of k] less [OF fin(2) [of k]] by (simp add: holders_upd)
  show ?thesis
    unfolding spec_finish(2)
    by (rule spec_inv_upd [OF inv spec_finish(3) _ _ _ run hold])
      (use spec_finish(4) in \<open>auto simp: started_def\<close>)
qed

interpretation units: safety_machine "\<lambda>x. x = ([], Map.empty)" "spec_step L" "spec_inv L"
proof unfold_locales
  fix x :: "'a spec" assume "x = ([], Map.empty)"
  then show "spec_inv L x" by (simp add: spec_inv_def running_set_def holders_def)
qed (rule spec_inv_step)

text \<open>A settled unit keeps its result, and nothing else of a unit changes but where it stands.\<close>

lemma spec_step_final:
  assumes "spec_step L (G, M) (G', M')" "M a = Some c"
  shows "\<exists>c'. M' a = Some c' \<and> cr_unit c' = cr_unit c \<and> cr_keys c' = cr_keys c \<and>
    (cr_state c = Settled \<longrightarrow> c' = c)"
  using assms
proof cases
  case (spec_open gen N)
  then have "N a = None" using assms(2) by (metis disjoint_iff domI domIff)
  with spec_open assms(2) show ?thesis by (simp add: map_add_def)
qed (use assms(2) in auto)

lemma spec_steps_final:
  assumes "(spec_step L)\<^sup>*\<^sup>* x y" "snd x a = Some c"
  shows "\<exists>c'. snd y a = Some c' \<and> cr_unit c' = cr_unit c \<and> cr_keys c' = cr_keys c \<and>
    (cr_state c = Settled \<longrightarrow> c' = c)"
  using assms
proof (induction rule: rtranclp_induct)
  case (step y z)
  then obtain c' where c': "snd y a = Some c'" "cr_unit c' = cr_unit c" "cr_keys c' = cr_keys c"
    "cr_state c = Settled \<longrightarrow> c' = c" by auto
  obtain c'' where "snd z a = Some c''" "cr_unit c'' = cr_unit c'" "cr_keys c'' = cr_keys c'"
    "cr_state c' = Settled \<longrightarrow> c'' = c'"
    using spec_step_final [of L "fst y" "snd y" "fst z" "snd z" a c'] step.hyps c'(1) by auto
  with c' show ?case by auto
qed simp

end
