(* ===== verification/Scheduler_Refinement.thy ===== *)
theory Scheduler_Refinement
  imports Scheduler_Spec "HOL-Library.Sublist"
begin

text \<open>
  The scheduler implements the abstract machine: \<open>abs_of\<close> forgets the bookkeeping, \<open>glue\<close> says that
  the counters and the table of held keys are exact, and \<open>sim\<close> is the simulation. Every operation is
  shown to simulate once; loops over entries follow because \<open>sim\<close> composes.
\<close>

section \<open>Abstraction\<close>

definition core_of :: "'v entry \<Rightarrow> 'v core" where
  "core_of e = \<lparr>cr_unit = en_unit e, cr_keys = en_keys e, cr_state = en_state e, cr_result = en_result e\<rparr>"

lemma core_of_sel [simp]:
  "cr_unit (core_of e) = en_unit e" "cr_keys (core_of e) = en_keys e"
  "cr_state (core_of e) = en_state e" "cr_result (core_of e) = en_result e"
  by (simp_all add: core_of_def)

definition cores :: "'v scheduler \<Rightarrow> nat \<Rightarrow> 'v core option" where
  "cores s a = map_option core_of (entry_at s a)"

definition gens_of :: "'v scheduler \<Rightarrow> nat list list" where
  "gens_of s = map fst (sd_generations s)"

definition abs_of :: "'v scheduler \<Rightarrow> 'v spec" where
  "abs_of s = (gens_of s, cores s)"

definition key_count :: "(nat \<Rightarrow> 'v core option) \<Rightarrow> conflict_key \<Rightarrow> nat \<Rightarrow> int" where
  "key_count M k a = (case M a of None \<Rightarrow> 0 | Some c \<Rightarrow> int (count_list (cr_keys c) k))"

definition arrivals :: "'v scheduler \<Rightarrow> nat \<Rightarrow> nat option" where
  "arrivals s a = map_option en_arrival (entry_at s a)"

definition glue :: "'v scheduler \<Rightarrow> bool" where
  "glue s \<longleftrightarrow>
     js_wf (sd_entries s) \<and>
     (\<forall>a n. arrivals s a = Some n \<longrightarrow> n = a \<and> a < sd_arrival s) \<and>
     (\<forall>gen \<in> set (gens_of s). distinct gen \<and> (\<forall>a \<in> set gen. a < sd_arrival s)) \<and>
     sd_running s = int (card (running_set (cores s))) \<and>
     (\<forall>k. held_of (sd_held s) k = (\<Sum>a \<in> running_set (cores s). key_count (cores s) k a))"

definition sim :: "'v scheduler \<Rightarrow> 'v scheduler \<Rightarrow> bool" where
  "sim s s' \<longleftrightarrow>
     sd_limits s' = sd_limits s \<and> gens_of s' = gens_of s \<and> sd_arrival s' = sd_arrival s \<and>
     (glue s \<longrightarrow> glue s' \<and> (spec_step (sd_limits s))\<^sup>*\<^sup>* (abs_of s) (abs_of s'))"

lemma sim_refl [simp]: "sim s s"
  by (simp add: sim_def)

lemma sim_step:
  "sim s s' \<Longrightarrow> glue s \<Longrightarrow>
   glue s' \<and> sd_limits s' = sd_limits s \<and> (spec_step (sd_limits s))\<^sup>*\<^sup>* (abs_of s) (abs_of s')"
  by (simp add: sim_def)

lemma sim_trans: "sim s t \<Longrightarrow> sim t u \<Longrightarrow> sim s u"
  unfolding sim_def by (metis rtranclp_trans)

lemma sim_foldl: "(\<And>s x. x \<in> set xs \<Longrightarrow> gens_of s = G \<Longrightarrow> sim s (f s x)) \<Longrightarrow> gens_of s = G \<Longrightarrow> sim s (foldl f s xs)"
proof (induction xs arbitrary: s)
  case (Cons x xs)
  have "sim s (f s x)" using Cons.prems by simp
  moreover from this have "gens_of (f s x) = G" using Cons.prems(2) by (simp add: sim_def)
  then have "sim (f s x) (foldl f (f s x) xs)" using Cons.IH Cons.prems(1) by simp
  ultimately show ?case using sim_trans by fastforce
qed simp

section \<open>Frames\<close>

text \<open>What is kept by everything that does not start or finish a unit.\<close>

definition frame :: "'v scheduler \<Rightarrow> 'v scheduler \<Rightarrow> bool" where
  "frame s s' \<longleftrightarrow>
     sd_limits s' = sd_limits s \<and> gens_of s' = gens_of s \<and> sd_arrival s' = sd_arrival s \<and>
     sd_held s' = sd_held s \<and> sd_running s' = sd_running s \<and>
     js_keys (sd_entries s') = js_keys (sd_entries s) \<and> arrivals s' = arrivals s"

lemma frame_quiet:
  assumes "frame s s'" "cores s' = cores s"
  shows "sim s s'"
  using assms unfolding sim_def glue_def frame_def abs_of_def by simp

lemma cores_upd:
  assumes "sd_entries s' = js_modify f a (sd_entries s)" "entry_at s a = Some e"
  shows "cores s' = (cores s)(a \<mapsto> core_of (f e))"
  using assms by (auto simp: cores_def)

lemma frame_idle:
  assumes "frame s s'" "glue s" "cores s' = (cores s)(a \<mapsto> c')" "entry_at s a = Some e"
    "en_state e \<noteq> Running" "cr_state c' \<noteq> Running"
  shows "glue s'"
proof -
  have same: "running_set (cores s') = running_set (cores s)"
    using idle_upd(1) [of "cores s" a "core_of e" c'] assms by (simp add: cores_def)
  have "key_count (cores s') k b = key_count (cores s) k b" if "b \<in> running_set (cores s)" for k b
  proof -
    have "b \<noteq> a" using that assms(4,5) by (auto simp: running_set_def cores_def)
    then show ?thesis by (simp add: key_count_def assms(3))
  qed
  then have "(\<Sum>b \<in> running_set (cores s). key_count (cores s') k b) = (\<Sum>b \<in> running_set (cores s). key_count (cores s) k b)" for k
    by (intro sum.cong) auto
  with assms(1,2) same show ?thesis
    unfolding glue_def frame_def by simp
qed

lemma sim_idle:
  assumes frame: "frame s s'" and upd: "cores s' = (cores s)(a \<mapsto> c')" and e: "entry_at s a = Some e"
    and idle: "en_state e \<noteq> Running" "cr_state c' \<noteq> Running"
    and spec: "spec_step (sd_limits s) (gens_of s, cores s) (gens_of s, (cores s)(a \<mapsto> c'))"
  shows "sim s s'"
proof -
  have "abs_of s' = (gens_of s, (cores s)(a \<mapsto> c'))" "abs_of s = (gens_of s, cores s)"
    using frame upd by (simp_all add: abs_of_def frame_def)
  then have "(spec_step (sd_limits s))\<^sup>*\<^sup>* (abs_of s) (abs_of s')" using spec by auto
  then show ?thesis
    using frame_idle [OF frame _ upd e idle] frame by (auto simp: sim_def frame_def)
qed

lemma frame_on_entry:
  assumes "\<And>e. en_arrival (f e) = en_arrival e"
  shows "frame s (on_entry a f s)"
  using assms by (auto simp: frame_def on_entry_def gens_of_def arrivals_def option.map_comp comp_def)

lemma frame_trans: "frame s t \<Longrightarrow> frame t u \<Longrightarrow> frame s u"
  unfolding frame_def by simp

lemma frame_waiting:
  "frame s (unwait a s)" "frame s (wait_for a s)" "frame s (s\<lparr>sd_promotions := n\<rparr>)"
  "frame s (s\<lparr>sd_refused := n\<rparr>)" "frame s (s\<lparr>sd_settledNonCompleted := n\<rparr>)" "frame s (s\<lparr>sd_ledger := l\<rparr>)"
  "frame s (s\<lparr>sd_tree := t\<rparr>)" "frame s (s\<lparr>sd_completed := n\<rparr>)"
  by (auto simp: frame_def unwait_def wait_for_def gens_of_def arrivals_def)

lemma cores_waiting [simp]:
  "cores (unwait a s) = cores s" "cores (wait_for a s) = cores s" "cores (s\<lparr>sd_promotions := n\<rparr>) = cores s"
  "cores (s\<lparr>sd_refused := n\<rparr>) = cores s" "cores (s\<lparr>sd_settledNonCompleted := n\<rparr>) = cores s"
  "cores (s\<lparr>sd_ledger := l\<rparr>) = cores s" "cores (s\<lparr>sd_tree := t\<rparr>) = cores s" "cores (s\<lparr>sd_completed := n\<rparr>) = cores s"
  by (auto simp: cores_def unwait_def wait_for_def)

lemma sim_waiting [simp]:
  "sim s (unwait a s)" "sim s (wait_for a s)" "sim s (s\<lparr>sd_promotions := n\<rparr>)" "sim s (s\<lparr>sd_ledger := l\<rparr>)"
  "sim s (s\<lparr>sd_tree := t\<rparr>)"
  by (rule frame_quiet; simp add: frame_waiting)+

lemma sim_quiet_entry:
  assumes "\<And>e. core_of (f e) = core_of e" "\<And>e. en_arrival (f e) = en_arrival e"
  shows "sim s (on_entry a f s)"
proof (rule frame_quiet)
  show "frame s (on_entry a f s)" using assms(2) by (rule frame_on_entry)
  show "cores (on_entry a f s) = cores s"
    by (rule ext) (simp add: cores_def on_entry_def option.map_comp comp_def assms(1))
qed

section \<open>Operations\<close>

lemma in_statesE:
  assumes "in_states s states a"
  obtains e where "entry_at s a = Some e" "en_state e \<in> set states"
  using assms by (auto simp: in_states_def state_at_def split: option.splits)

lemma cores_entry: "entry_at s a = Some e \<Longrightarrow> cores s a = Some (core_of e)"
  by (simp add: cores_def)

lemma sim_stop:
  assumes e: "entry_at s a = Some e" "en_state e \<in> {Blocked, Ready}" and "frame s s'"
    and "cores s' = (cores s)(a \<mapsto> (core_of e)\<lparr>cr_state := Settled, cr_result := Some r\<rparr>)" "unstarted_result (en_unit e) r"
  shows "sim s s'"
proof (rule sim_idle [OF assms(3,4) e(1)])
  show "spec_step (sd_limits s) (gens_of s, cores s)
      (gens_of s, (cores s)(a \<mapsto> (core_of e)\<lparr>cr_state := Settled, cr_result := Some r\<rparr>))"
    by (rule spec_stop) (use e assms(5) in \<open>auto simp: cores_entry\<close>)
qed (use e(2) in auto)

lemma refuse_sim:
  assumes "in_states s [Blocked, Ready] a"
  shows "sim s (refuse_entry a error s)"
proof -
  obtain e where e: "entry_at s a = Some e" "en_state e \<in> {Blocked, Ready}"
    using assms by (auto elim: in_statesE)
  show ?thesis
  proof (rule sim_stop [OF e])
    show "frame s (refuse_entry a error s)"
      unfolding refuse_entry_def by (rule frame_trans [OF frame_on_entry frame_waiting(4)]) simp
    show "cores (refuse_entry a error s) = (cores s)(a \<mapsto> (core_of e)\<lparr>cr_state := Settled, cr_result :=
        Some (Refused_Unit (wu_id (en_unit e)) (error (en_unit e)) refusedOutcome (recoveryFor (error (en_unit e))))\<rparr>)"
      using e(1) by (auto simp: refuse_entry_def on_entry_def cores_def core_of_def)
  qed (simp add: refusedOutcome_def)
qed

lemma settle_sim:
  assumes "in_states s [Blocked, Ready] a" "effectOf outcome = Eff_None"
  shows "sim s (settle_entry a outcome s)"
proof -
  obtain e where e: "entry_at s a = Some e" "en_state e \<in> {Blocked, Ready}"
    using assms(1) by (auto elim: in_statesE)
  show ?thesis
  proof (rule sim_stop [OF e])
    show "frame s (settle_entry a outcome s)"
      unfolding settle_entry_def by (rule frame_trans [OF frame_on_entry frame_waiting(5)]) simp
    show "cores (settle_entry a outcome s) = (cores s)(a \<mapsto> (core_of e)\<lparr>cr_state := Settled, cr_result :=
        Some (Settled_Unit (wu_id (en_unit e)) outcome (en_partial e))\<rparr>)"
      using e(1) by (auto simp: settle_entry_def on_entry_def cores_def core_of_def)
  qed (simp add: assms(2))
qed

lemma abort_sim: "sim s (abort_one s a)"
  by (auto simp: abort_one_def NO_EFFECT_def intro: settle_sim)

lemma expire_sim: "sim s (expire_one_entry now s a)"
proof (cases "entry_at s a")
  case (Some e)
  show ?thesis
  proof (cases "(en_state e = Ready \<or> en_state e = Blocked) \<and>
      (case wu_deadline (en_unit e) of None \<Rightarrow> False | Some d \<Rightarrow> now \<ge> expiresAt d)")
    case True
    then have "in_states s [Blocked, Ready] a" using Some by (auto simp: in_states_def state_at_def)
    then have "sim s (settle_entry a (Timed_Out Eff_None) s)" by (rule settle_sim) simp
    with True Some show ?thesis
      unfolding expire_one_entry_def using sim_trans sim_waiting(1) by fastforce
  next
    case False
    then have "expire_one_entry now s a = s" unfolding expire_one_entry_def Some option.case by (rule if_not_P)
    then show ?thesis by simp
  qed
qed (simp add: expire_one_entry_def)

lemma by_id_in:
  assumes "by_id s gen i = Some e"
  shows "\<exists>b \<in> set gen. entry_at s b = Some e \<and> wu_id (en_unit e) = i"
  using assms by (auto simp: by_id_def find_Some_iff split: option.splits)

lemma first_failed_None:
  assumes "first_failed s gen is = None" "list_all (\<lambda>i. map_option en_state (by_id s gen i) = Some Settled) is" "i \<in> set is"
  shows "\<exists>e. by_id s gen i = Some e \<and> en_state e = Settled \<and> result_completed (en_result e)"
  using assms by (induction "is") (auto split: option.splits if_splits)

lemma promote_sim:
  assumes "gen \<in> set (gens_of s)" "a \<in> set gen"
  shows "sim s (promote_one now gen s a)"
proof (cases "entry_at s a")
  case (Some e)
  show ?thesis
  proof (cases "en_state e \<noteq> Blocked \<or> \<not> dependenciesSettled s gen e")
    case True
    then show ?thesis unfolding promote_one_def Some option.case by simp
  next
    case False
    then have blocked: "in_states s [Blocked, Ready] a" using Some by (simp add: in_states_def state_at_def)
    show ?thesis
    proof (cases "failedDependencyOf s gen e")
      case (Some failed)
      with False \<open>entry_at s a = Some e\<close> refuse_sim [OF blocked] show ?thesis by (simp add: promote_one_def)
    next
      case None
      let ?f = "\<lambda>e. e\<lparr>en_state := Ready, en_readySince := Some now\<rparr>"
      have "sim s (on_entry a ?f s)"
      proof (rule sim_idle [OF frame_on_entry _ Some])
        show "cores (on_entry a ?f s) = (cores s)(a \<mapsto> (core_of e)\<lparr>cr_state := Ready\<rparr>)"
          using Some by (auto simp: on_entry_def cores_def core_of_def)
        have "dep_done (cores s) gen d" if "d \<in> set (wu_dependencies (en_unit e))" for d
        proof -
          have "\<exists>x. by_id s gen d = Some x \<and> en_state x = Settled \<and> result_completed (en_result x)"
            by (rule first_failed_None [of s gen "wu_dependencies (en_unit e)" d])
              (use None False that in \<open>simp_all add: failedDependencyOf_def dependenciesSettled_def\<close>)
          then obtain x where "by_id s gen d = Some x" "en_state x = Settled" "result_completed (en_result x)"
            by blast
          with by_id_in [OF this(1)] show ?thesis by (auto simp: dep_done_def cores_def intro!: bexI)
        qed
        then show "spec_step (sd_limits s) (gens_of s, cores s) (gens_of s, (cores s)(a \<mapsto> (core_of e)\<lparr>cr_state := Ready\<rparr>))"
          by (intro spec_ready [of "cores s" a "core_of e" gen]) (use False Some assms in \<open>auto simp: cores_entry\<close>)
      qed (use False in auto)
      with False None \<open>entry_at s a = Some e\<close> show ?thesis by (simp add: promote_one_def)
    qed
  qed
qed (simp add: promote_one_def)

section \<open>Starting units\<close>

lemma js_get_modify_all_quiet:
  assumes "\<And>x. g (f x) = g x"
  shows "map_option g (js_get (js_modify_all f ks m) k) = map_option g (js_get m k)"
  by (induction ks arbitrary: m) (simp_all add: option.map_comp comp_def assms)

lemma sim_quiet_all:
  assumes "\<And>e. core_of (f e) = core_of e" "\<And>e. en_arrival (f e) = en_arrival e"
  shows "sim s (s\<lparr>sd_entries := js_modify_all f ks (sd_entries s)\<rparr>)"
proof (rule frame_quiet)
  show "frame s (s\<lparr>sd_entries := js_modify_all f ks (sd_entries s)\<rparr>)"
    using assms(2) by (auto simp: frame_def gens_of_def arrivals_def js_get_modify_all_quiet)
  show "cores (s\<lparr>sd_entries := js_modify_all f ks (sd_entries s)\<rparr>) = cores s"
    by (rule ext) (simp add: cores_def js_get_modify_all_quiet assms(1))
qed

lemma pass_over_sim: "sim s (pass_over s)"
  unfolding pass_over_def by (rule sim_quiet_all) (simp_all add: core_of_def)

lemma held_acquire: "held_of (acquire keys held) k = held_of held k + int (count_list keys k)"
  unfolding acquire_def by (induction keys arbitrary: held) (auto simp: held_of_def)

lemma held_release:
  assumes "\<And>k. int (count_list keys k) \<le> held_of held k"
  shows "held_of (release_keys keys held) k = held_of held k - int (count_list keys k)"
  using assms
proof (induction keys arbitrary: held)
  case (Cons x keys)
  let ?held = "let count = held_of held x - 1 in if count \<le> 0 then js_delete x held else js_set x count held"
  have "1 \<le> held_of held x" using Cons.prems [of x] by simp
  then have step: "held_of ?held j = held_of held j - (if j = x then 1 else 0)" for j
    by (auto simp: held_of_def Let_def)
  have "int (count_list keys j) \<le> held_of ?held j" for j
    using Cons.prems [of j] unfolding step by (auto split: if_splits)
  from Cons.IH [OF this] show ?case
    unfolding step by (simp add: release_keys_def)
qed (simp add: release_keys_def)

lemma cores_finite: "finite (running_set (cores s))"
proof (rule finite_subset)
  show "running_set (cores s) \<subseteq> set (js_keys (sd_entries s))"
    by (auto simp: running_set_def cores_def js_keys_iff simp del: set_map)
qed simp

lemma key_count_nonneg: "0 \<le> key_count M k a"
  by (simp add: key_count_def split: option.splits)

text \<open>A key is held at least once per running unit that has it.\<close>

lemma holders_le_held:
  assumes "glue s"
  shows "int (card (holders (cores s) k)) \<le> held_of (sd_held s) k"
proof -
  have "int (card (holders (cores s) k)) = (\<Sum>a \<in> holders (cores s) k. 1)" by simp
  also have "\<dots> \<le> (\<Sum>a \<in> holders (cores s) k. key_count (cores s) k a)"
  proof (rule sum_mono)
    fix a assume "a \<in> holders (cores s) k"
    then obtain c where c: "cores s a = Some c" "k \<in> set (cr_keys c)" by (auto simp: holders_def)
    then have "count_list (cr_keys c) k \<noteq> 0" by (simp add: count_list_0_iff)
    with c show "1 \<le> key_count (cores s) k a" by (simp add: key_count_def)
  qed
  also have "\<dots> \<le> (\<Sum>a \<in> running_set (cores s). key_count (cores s) k a)"
    by (rule sum_mono2) (auto simp: cores_finite holders_running key_count_nonneg)
  finally show ?thesis using assms by (simp add: glue_def)
qed

lemma count_le_held:
  assumes "glue s" "entry_at s a = Some e" "en_state e = Running"
  shows "int (count_list (en_keys e) k) \<le> held_of (sd_held s) k"
proof -
  have a: "a \<in> running_set (cores s)" using assms by (auto simp: running_set_def cores_def)
  have "key_count (cores s) k a \<le> (\<Sum>a \<in> running_set (cores s). key_count (cores s) k a)"
    by (rule member_le_sum [OF a]) (auto simp: cores_finite key_count_nonneg)
  then show ?thesis using assms by (simp add: glue_def key_count_def cores_def)
qed

text \<open>The two operations that change what runs.\<close>

lemma running_sum_insert:
  assumes "finite R" "a \<notin> R" "M a = Some c"
  shows "(\<Sum>b \<in> insert a R. key_count (M(a \<mapsto> c')) k b) =
    (\<Sum>b \<in> R. key_count M k b) + int (count_list (cr_keys c') k)"
proof -
  have "(\<Sum>b \<in> R. key_count (M(a \<mapsto> c')) k b) = (\<Sum>b \<in> R. key_count M k b)"
    by (rule sum.cong) (use assms(2) in \<open>auto simp: key_count_def\<close>)
  then show ?thesis using assms by (simp add: key_count_def)
qed

lemma running_sum_remove:
  assumes "finite R" "a \<in> R" "M a = Some c"
  shows "(\<Sum>b \<in> R - {a}. key_count (M(a \<mapsto> c')) k b) =
    (\<Sum>b \<in> R. key_count M k b) - int (count_list (cr_keys c) k)"
proof -
  have "(\<Sum>b \<in> R - {a}. key_count (M(a \<mapsto> c')) k b) = (\<Sum>b \<in> R - {a}. key_count M k b)"
    by (rule sum.cong) (auto simp: key_count_def)
  then show ?thesis using assms by (simp add: sum_diff1 key_count_def)
qed

text \<open>What the bookkeeping says is kept when nothing but one entry, the counter and the keys change.\<close>

lemma glueI:
  assumes "glue s" "gens_of s' = gens_of s" "sd_arrival s' = sd_arrival s"
    "js_keys (sd_entries s') = js_keys (sd_entries s)" "arrivals s' = arrivals s"
    "sd_running s' = int (card (running_set (cores s')))"
    "\<And>k. held_of (sd_held s') k = (\<Sum>a \<in> running_set (cores s'). key_count (cores s') k a)"
  shows "glue s'"
  using assms unfolding glue_def by simp

lemma run_sim:
  fixes s :: "'v scheduler" and r :: "reservation_id option"
  assumes e: "entry_at s a = Some e" "en_state e = Ready"
    and free: "sd_running s < sl_maxConcurrent (sd_limits s)" "keysAvailable s (en_keys e)"
  defines "s' \<equiv> on_entry a (\<lambda>e. e\<lparr>en_state := Running, en_reservation := r\<rparr>)
    (s\<lparr>sd_held := acquire (en_keys e) (sd_held s), sd_running := sd_running s + 1\<rparr>)"
  shows "sim s s'"
proof -
  let ?M = "cores s" and ?c = "(core_of e)\<lparr>cr_state := Running\<rparr>"
  have M: "?M a = Some (core_of e)" using e(1) by (rule cores_entry)
  have upd: "cores s' = ?M(a \<mapsto> ?c)"
    using e(1) by (auto simp: s'_def on_entry_def cores_def core_of_def)
  have out: "a \<notin> running_set ?M" using e M by (auto simp: running_set_def)
  have run: "running_set (cores s') = insert a (running_set ?M)" by (simp add: upd running_upd)
  have same: "sd_limits s' = sd_limits s" "gens_of s' = gens_of s" "sd_arrival s' = sd_arrival s"
    "js_keys (sd_entries s') = js_keys (sd_entries s)" "arrivals s' = arrivals s"
    by (auto simp: s'_def on_entry_def gens_of_def arrivals_def option.map_comp comp_def)
  have "glue s' \<and> (spec_step (sd_limits s))\<^sup>*\<^sup>* (abs_of s) (abs_of s')" if g: "glue s"
  proof
    have now: "sd_running s = int (card (running_set ?M))"
      "held_of (sd_held s) k = (\<Sum>b \<in> running_set ?M. key_count ?M k b)" for k
      using g by (simp_all add: glue_def)
    show "glue s'"
    proof (rule glueI [OF g same(2-5)])
      show "sd_running s' = int (card (running_set (cores s')))"
        unfolding run using now(1) out cores_finite [of s] by (simp add: s'_def on_entry_def)
      fix k
      have "held_of (sd_held s') k = held_of (sd_held s) k + int (count_list (en_keys e) k)"
        by (simp add: s'_def on_entry_def held_acquire)
      then show "held_of (sd_held s') k = (\<Sum>a \<in> running_set (cores s'). key_count (cores s') k a)"
        unfolding run unfolding upd using now(2) running_sum_insert [of "running_set ?M" a ?M "core_of e" ?c k, OF cores_finite out M] by simp
    qed
    have "int (card (holders ?M k)) < sl_maxConcurrentPerKey (sd_limits s)" if "k \<in> set (en_keys e)" for k
      using holders_le_held [OF g, of k] free(2) that by (auto simp: keysAvailable_def list_all_iff)
    then have "spec_step (sd_limits s) (gens_of s, ?M) (gens_of s, ?M(a \<mapsto> ?c))"
      by (intro spec_run [of ?M a "core_of e"]) (use M e free(1) now(1) in auto)
    then show "(spec_step (sd_limits s))\<^sup>*\<^sup>* (abs_of s) (abs_of s')"
      by (simp add: abs_of_def same upd r_into_rtranclp)
  qed
  then show ?thesis by (simp add: sim_def same)
qed

lemma launch_sim:
  assumes "entry_at s a = Some e" "en_state e = Ready"
    "sd_running s < sl_maxConcurrent (sd_limits s)" "keysAvailable s (en_keys e)"
  shows "sim s (launch a e r s)"
  unfolding launch_def by (rule sim_trans [OF sim_trans [OF run_sim [OF assms] sim_waiting(1)] pass_over_sim])

lemma start_sim:
  assumes "entry_at s a = Some e" "en_state e = Ready"
    "sd_running s < sl_maxConcurrent (sd_limits s)" "keysAvailable s (en_keys e)"
  shows "sim s (start_entry admission reservationId a s)"
proof -
  have ready: "in_states s [Blocked, Ready] a" using assms by (simp add: in_states_def state_at_def)
  have paid: "sim s (launch a e r (s\<lparr>sd_ledger := l\<rparr>))" for r l
    by (rule sim_trans [OF sim_waiting(4) launch_sim]) (use assms in \<open>simp_all add: keysAvailable_def\<close>)
  have unpaid: "sim s (refuse_entry a f (s\<lparr>sd_ledger := l\<rparr>))" for f l
    by (rule sim_trans [OF sim_waiting(4) refuse_sim]) (use ready in \<open>simp add: in_states_def state_at_def\<close>)
  show ?thesis
    unfolding start_entry_def using paid unpaid launch_sim [OF assms] refuse_sim [OF ready] assms(1)
    by (auto split: option.splits admission.splits prod.splits result.splits intro!: sim_quiet_entry simp: core_of_def)
qed

section \<open>Finishing units\<close>

lemma end_sim:
  fixes s s' :: "'v scheduler"
  assumes e: "entry_at s a = Some e" "en_state e = Running"
    and upd: "cores s' = (cores s)(a \<mapsto> (core_of e)\<lparr>cr_state := Settled, cr_result := Some r\<rparr>)"
    and same: "sd_limits s' = sd_limits s" "gens_of s' = gens_of s" "sd_arrival s' = sd_arrival s"
      "js_keys (sd_entries s') = js_keys (sd_entries s)" "arrivals s' = arrivals s"
    and books: "sd_running s' = sd_running s - 1" "sd_held s' = release_keys (en_keys e) (sd_held s)"
    and result: "ran_result (en_unit e) r"
  shows "sim s s'"
proof -
  let ?M = "cores s" and ?c = "(core_of e)\<lparr>cr_state := Settled, cr_result := Some r\<rparr>"
  have M: "?M a = Some (core_of e)" using e(1) by (rule cores_entry)
  have a: "a \<in> running_set ?M" using e M by (auto simp: running_set_def)
  have run: "running_set (cores s') = running_set ?M - {a}" by (simp add: upd running_upd)
  have "glue s' \<and> (spec_step (sd_limits s))\<^sup>*\<^sup>* (abs_of s) (abs_of s')" if g: "glue s"
  proof
    have now: "sd_running s = int (card (running_set ?M))"
      "held_of (sd_held s) k = (\<Sum>b \<in> running_set ?M. key_count ?M k b)" for k
      using g by (simp_all add: glue_def)
    show "glue s'"
    proof (rule glueI [OF g same(2-5)])
      have "0 < card (running_set ?M)" using a cores_finite [of s] card_gt_0_iff by blast
      then show "sd_running s' = int (card (running_set (cores s')))"
        unfolding run using now(1) a cores_finite [of s] by (simp add: books card_Diff_singleton)
      fix k
      show "held_of (sd_held s') k = (\<Sum>a \<in> running_set (cores s'). key_count (cores s') k a)"
        unfolding run unfolding upd books(2) held_release [OF count_le_held [OF g e]]
        using now(2) running_sum_remove [of "running_set ?M" a ?M "core_of e" ?c k, OF cores_finite a M] by simp
    qed
    have "spec_step (sd_limits s) (gens_of s, ?M) (gens_of s, ?M(a \<mapsto> ?c))"
      by (intro spec_finish [of ?M a "core_of e"]) (use M e result in auto)
    then show "(spec_step (sd_limits s))\<^sup>*\<^sup>* (abs_of s) (abs_of s')"
      by (simp add: abs_of_def same upd r_into_rtranclp)
  qed
  then show ?thesis by (simp add: sim_def same)
qed

lemma raced_effect: "effectOf (raced_outcome u raced) = stoppedEffect u \<or> raced_outcome u raced = Completed"
  by (cases raced) simp_all

lemma finish_sim:
  assumes "state_at s a = Some Running"
  shows "sim s (finish now raced a s)"
proof -
  obtain e where e: "entry_at s a = Some e" "en_state e = Running" using assms by (auto simp: state_at_def)
  let ?r = "case raced of Raced_Value v \<Rightarrow> Completed_Unit (wu_id (en_unit e)) v
    | _ \<Rightarrow> Settled_Unit (wu_id (en_unit e)) (raced_outcome (en_unit e) raced) (en_partial e)"
  have "ran_result (en_unit e) ?r" by (cases raced) simp_all
  moreover have "cores (finish now raced a s) = (cores s)(a \<mapsto> (core_of e)\<lparr>cr_state := Settled, cr_result := Some ?r\<rparr>)"
    using e(1) by (cases raced) (auto simp: finish_def on_entry_def settle_entry_def cores_def core_of_def Let_def)
  moreover have "gens_of (finish now raced a s) = gens_of s" "sd_limits (finish now raced a s) = sd_limits s"
    "sd_arrival (finish now raced a s) = sd_arrival s"
    "js_keys (sd_entries (finish now raced a s)) = js_keys (sd_entries s)"
    "sd_running (finish now raced a s) = sd_running s - 1"
    "sd_held (finish now raced a s) = release_keys (en_keys e) (sd_held s)"
    by (cases raced; simp add: finish_def on_entry_def settle_entry_def e(1) Let_def gens_of_def)+
  moreover have "arrivals (finish now raced a s) = arrivals s"
    by (rule ext, cases raced)
      (simp_all add: finish_def on_entry_def settle_entry_def e(1) Let_def arrivals_def)
  ultimately show ?thesis by (intro end_sim [OF e])
qed

section \<open>A turn of the loop\<close>

text \<open>Starting one unit leaves the others where they are.\<close>

lemma start_other:
  assumes "b \<noteq> a"
  shows "state_at (start_entry admission reservationId a s) b = state_at s b"
  using assms
  by (auto simp: start_entry_def launch_def pass_over_def unwait_def on_entry_def refuse_entry_def state_at_def
      js_get_modify_all_quiet split: option.splits admission.splits prod.splits result.splits)

lemma admit_other:
  assumes "b \<noteq> a"
  shows "state_at (fst (admit_one admit rid (s, skipped) a)) b = state_at s b"
  using start_other [OF assms] by (auto simp: admit_one_def Let_def state_at_def split: option.splits)

text \<open>
  A negative number of reserved slots would be added to the global limit, so the limits are taken
  as the product configures them.
\<close>

definition sane_limits :: "scheduler_limits \<Rightarrow> bool" where
  "sane_limits limits \<longleftrightarrow> (case sl_reservedInteractive limits of None \<Rightarrow> True | Some n \<Rightarrow> 0 \<le> n)"

lemma admissible_free:
  assumes "admissible s a e" "sane_limits (sd_limits s)"
  shows "sd_running s < sl_maxConcurrent (sd_limits s)" "keysAvailable s (en_keys e)"
  using assms by (auto simp: admissible_def reserved_slots_def sane_limits_def split: if_splits option.splits)

lemma admit_sim:
  assumes "state_at s a = Some Ready" "sane_limits (sd_limits s)"
  shows "sim s (fst (admit_one admit rid (s, skipped) a))"
proof -
  obtain e where e: "entry_at s a = Some e" "en_state e = Ready" using assms(1) by (auto simp: state_at_def)
  show ?thesis
  proof (cases "admissible s a e")
    case True
    note free = admissible_free [OF True assms(2)]
    have "sim s (start_entry adm r a (s\<lparr>sd_promotions := n\<rparr>))" for adm r n
      by (rule sim_trans [OF sim_waiting(3) start_sim]) (use e free in \<open>simp_all add: keysAvailable_def\<close>)
    with True e start_sim [OF e free] show ?thesis by (simp add: admit_one_def Let_def)
  qed (simp add: admit_one_def e)
qed

lemma admit_fold_sim:
  assumes "distinct as" "\<And>a. a \<in> set as \<Longrightarrow> state_at s a = Some Ready" "sane_limits (sd_limits s)"
  shows "sim s (fst (foldl (admit_one admit rid) (s, skipped) as))"
  using assms
proof (induction "as" arbitrary: s skipped)
  case (Cons a as)
  obtain s1 sk where one: "admit_one admit rid (s, skipped) a = (s1, sk)" by fastforce
  have sim: "sim s s1" using admit_sim [of s a admit rid skipped] Cons.prems(2,3) by (simp add: one)
  have "state_at s1 b = Some Ready" if "b \<in> set as" for b
    using admit_other [of b a admit rid s skipped] that Cons.prems(1,2) by (auto simp: one)
  then have "sim s1 (fst (foldl (admit_one admit rid) (s1, sk) as))"
    using Cons.IH [of s1 sk] Cons.prems(1,3) sim by (simp add: sim_def)
  with sim show ?case by (simp add: one sim_trans)
qed simp

text \<open>The skipped entries are some of those considered, each once.\<close>

lemma admit_skipped:
  "\<exists>ys. snd (foldl (admit_one admit rid) (s, skipped) as) = skipped @ ys \<and> subseq ys as"
proof (induction "as" arbitrary: s skipped)
  case (Cons a as)
  obtain s1 sk where one: "admit_one admit rid (s, skipped) a = (s1, sk)" by fastforce
  then have "sk = skipped \<or> sk = skipped @ [a]"
    by (auto simp: admit_one_def Let_def split: option.splits if_splits)
  with Cons.IH [of s1 sk] one show ?case by (auto intro: subseq_Cons2)
qed simp

lemma lock_deadlines_ready:
  assumes "(a, t) \<in> set (lock_deadlines s skipped)"
  shows "a \<in> set skipped \<and> state_at s a = Some Ready"
  using assms unfolding lock_deadlines_def
  by (auto simp: map_filter_def state_at_def split: option.splits if_splits)

lemma lock_deadlines_Cons:
  "lock_deadlines s (a # as) = lock_deadlines s [a] @ lock_deadlines s as"
  by (simp add: lock_deadlines_def map_filter_def)

lemma lock_deadlines_distinct: "distinct as \<Longrightarrow> distinct (map fst (lock_deadlines s as))"
proof (induction "as")
  case (Cons a as)
  have "a \<notin> fst ` set (lock_deadlines s as)" using Cons.prems lock_deadlines_ready by fastforce
  moreover have "fst ` set (lock_deadlines s [a]) \<subseteq> {a}" using lock_deadlines_ready by fastforce
  moreover have "length (lock_deadlines s [a]) \<le> 1"
    by (simp add: lock_deadlines_def map_filter_def)
  ultimately show ?case
    using Cons by (subst lock_deadlines_Cons) (cases "lock_deadlines s [a]"; auto)
qed (simp add: lock_deadlines_def map_filter_def)

lemma lock_fold_sim:
  assumes "distinct (map fst ds)" "\<And>a t. (a, t) \<in> set ds \<Longrightarrow> state_at s a = Some Ready"
  shows "sim s (fst (foldl (lock_timeout_one now) (s, any) ds))"
  using assms
proof (induction ds arbitrary: s any)
  case (Cons d ds)
  obtain a t where d: "d = (a, t)" by fastforce
  obtain s1 any1 where one: "lock_timeout_one now (s, any) d = (s1, any1)" by fastforce
  have ready: "in_states s [Blocked, Ready] a" using Cons.prems(2) [of a t] d by (simp add: in_states_def)
  have "s1 = s \<or> (\<exists>f. s1 = refuse_entry a f s)"
    using one d by (auto simp: lock_timeout_one_def split: if_splits option.splits)
  then have sim: "sim s s1" and other: "\<And>b. b \<noteq> a \<Longrightarrow> state_at s1 b = state_at s b"
    using refuse_sim [OF ready] by (auto simp: refuse_entry_def on_entry_def state_at_def)
  have "state_at s1 b = Some Ready" if "(b, u) \<in> set ds" for b u
    using other [of b] that Cons.prems d by force
  then have "sim s1 (fst (foldl (lock_timeout_one now) (s1, any1) ds))"
    using Cons.IH [of s1 any1] Cons.prems(1) by simp
  with sim show ?case by (simp add: one sim_trans)
qed simp

lemma sync_sim: "sim s (sync_one s a)"
  by (simp add: sync_one_def)

lemma ordered_ready_set:
  "set (ordered_ready s gen) = {a \<in> set gen. state_at s a = Some Ready}"
  "distinct gen \<Longrightarrow> distinct (ordered_ready s gen)"
  by (auto simp: ordered_ready_def)

text \<open>A turn that is not cut short: what leads up to the check of the lock deadlines, and the check.\<close>

lemma iterate_stages:
  assumes "gen \<in> set (gens_of s)" "distinct gen" "sane_limits (sd_limits s)"
  obtains s4 skipped s5 any where "sim s s4" "sim s4 s5" "set skipped \<subseteq> set gen"
    "foldl (lock_timeout_one now) (s4, False) (lock_deadlines s4 skipped) = (s5, any)"
    "iterate now admit rid gen aborted s =
       (if all_settled s gen then (s, Ended)
        else if aborted
        then (foldl abort_one s gen, if list_ex (in_states (foldl abort_one s gen) [Running]) gen then Parked None else Ended)
        else (s5, if any then Again else if all_settled s5 gen then Ended
                  else Parked (case map snd (lock_deadlines s4 skipped) of [] \<Rightarrow> None | t # ts \<Rightarrow> Some (foldl min t ts))))"
proof -
  define s1 where "s1 = foldl (expire_one_entry now) s gen"
  define s2 where "s2 = foldl (promote_one now gen) s1 gen"
  obtain s3 skipped where s3: "foldl (admit_one admit rid) (s2, []) (ordered_ready s2 gen) = (s3, skipped)" by fastforce
  define s4 where "s4 = foldl sync_one s3 gen"
  obtain s5 any where s5: "foldl (lock_timeout_one now) (s4, False) (lock_deadlines s4 skipped) = (s5, any)" by fastforce
  have 1: "sim s s1" unfolding s1_def by (rule sim_foldl) (simp_all add: expire_sim)
  then have gens: "gens_of s1 = gens_of s" by (simp add: sim_def)
  have 2: "sim s1 s2" unfolding s2_def by (rule sim_foldl [OF promote_sim]) (use assms(1) gens in auto)
  have "sim s2 s3"
    using admit_fold_sim [of "ordered_ready s2 gen" s2 admit rid "[]"] 1 2 assms(2,3)
    by (auto simp: s3 ordered_ready_set sim_def)
  moreover have "sim s3 s4" unfolding s4_def by (rule sim_foldl) (simp_all add: sync_sim)
  ultimately have 4: "sim s s4" using 1 2 by (blast intro: sim_trans)
  have sub: "subseq skipped (ordered_ready s2 gen)"
    using admit_skipped [of admit rid s2 "[]" "ordered_ready s2 gen"] s3 by simp
  then have "distinct skipped" using ordered_ready_set(2) [OF assms(2)] by (metis subseq_conv_nths distinct_nthsI)
  then have 5: "sim s4 s5"
    using lock_fold_sim [of "lock_deadlines s4 skipped" s4 now False] lock_deadlines_distinct lock_deadlines_ready
    by (force simp: s5)
  have "set skipped \<subseteq> set gen"
    using sub ordered_ready_set(1) [of s2 gen] by (metis (no_types, lifting) mem_Collect_eq set_nths_subset subseq_conv_nths subset_iff)
  then show thesis
  proof (rule that [OF 4 5 _ s5])
    show "iterate now admit rid gen aborted s =
       (if all_settled s gen then (s, Ended)
        else if aborted
        then (foldl abort_one s gen, if list_ex (in_states (foldl abort_one s gen) [Running]) gen then Parked None else Ended)
        else (s5, if any then Again else if all_settled s5 gen then Ended
                  else Parked (case map snd (lock_deadlines s4 skipped) of [] \<Rightarrow> None | t # ts \<Rightarrow> Some (foldl min t ts))))"
      unfolding iterate_def s1_def [symmetric] Let_def s2_def [symmetric] s3 prod.case s4_def [symmetric] s5
      by simp
  qed
qed

lemma abort_all_sim: "sim s (foldl abort_one s gen)"
  by (rule sim_foldl) (simp_all add: abort_sim)

lemma iterate_sim:
  assumes "gen \<in> set (gens_of s)" "distinct gen" "sane_limits (sd_limits s)"
  shows "sim s (fst (iterate now admit rid gen aborted s))"
  by (rule iterate_stages [OF assms, of now admit rid aborted]) (auto intro: sim_trans abort_all_sim)

lemma conclude_sim: "sim s (conclude gen s)"
  unfolding conclude_def by (rule sim_foldl) simp_all

section \<open>Opening a generation\<close>

lemma map_of_enumerated: "map_of (map (\<lambda>(a, w). (a, f a w)) (enumerate n ws)) a =
    (if n \<le> a \<and> a < n + length ws then Some (f a (ws ! (a - n))) else None)"
  by (induction ws arbitrary: n) (auto simp: nth_Cons' Suc_diff_le not_less_eq_eq le_Suc_eq)

lemma new_entry_sel [simp]:
  "en_arrival (new_entry now a w) = a" "en_state (new_entry now a w) = Blocked" "en_result (new_entry now a w) = None"
  by (simp_all add: new_entry_def)

definition queue_generation :: "instant \<Rightarrow> scheduled_work list \<Rightarrow> 'v scheduler \<Rightarrow> 'v scheduler" where
  "queue_generation now work s =
     (let entries = map (\<lambda>(a, w). (a, new_entry now a w)) (enumerate (sd_arrival s) work); gen = map fst entries
      in s\<lparr>sd_arrival := sd_arrival s + length work, sd_entries := sd_entries s @ entries,
           sd_waiting := sd_waiting s @ gen, sd_generations := sd_generations s @ [(gen, False)]\<rparr>)"

lemma open_generation_cases:
  assumes "open_generation now work s = Some (s', r)"
  shows "s' = queue_generation now work s \<or> s' = s\<lparr>sd_arrival := sd_arrival s + length work, sd_refused := sd_refused s + length work\<rparr>"
  using assms by (auto simp: open_generation_def queue_generation_def Let_def split: option.splits if_splits)

lemma entry_old: "glue s \<Longrightarrow> entry_at s a = Some e \<Longrightarrow> a < sd_arrival s"
  by (auto simp: glue_def arrivals_def)

lemma queued_gen: "map fst (map (\<lambda>(a, w). (a, new_entry now a w)) (enumerate n work)) = [n ..< n + length work]"
  by (simp add: comp_def case_prod_unfold enumerate_eq_zip)

lemma queue_generation_sel:
  "gens_of (queue_generation now work s) = gens_of s @ [[sd_arrival s ..< sd_arrival s + length work]]"
  "js_keys (sd_entries (queue_generation now work s)) = js_keys (sd_entries s) @ [sd_arrival s ..< sd_arrival s + length work]"
  "sd_arrival (queue_generation now work s) = sd_arrival s + length work"
  "sd_running (queue_generation now work s) = sd_running s" "sd_held (queue_generation now work s) = sd_held s"
  "sd_limits (queue_generation now work s) = sd_limits s"
  unfolding queue_generation_def Let_def gens_of_def
  by (simp_all add: queued_gen del: map_map)

lemma queue_generation_at:
  assumes "glue s"
  shows "entry_at (queue_generation now work s) a =
    (if a < sd_arrival s then entry_at s a
     else if a < sd_arrival s + length work then Some (new_entry now a (work ! (a - sd_arrival s))) else None)"
  using entry_old [OF assms, of a]
  by (cases "entry_at s a") (auto simp: queue_generation_def Let_def map_add_def map_of_enumerated)

lemma queue_generation_running:
  assumes "glue s"
  shows "running_set (cores (queue_generation now work s)) = running_set (cores s)"
    and "a \<in> running_set (cores s) \<Longrightarrow>
      key_count (cores (queue_generation now work s)) k a = key_count (cores s) k a"
  using entry_old [OF assms]
  by (force simp: running_set_def key_count_def cores_def queue_generation_at [OF assms] split: if_splits)+

lemma queue_generation_glue:
  assumes g: "glue s"
  shows "glue (queue_generation now work s)"
  unfolding glue_def
proof (intro conjI allI ballI)
  let ?s = "queue_generation now work s"
  have "\<forall>a \<in> set (js_keys (sd_entries s)). a < sd_arrival s"
    using entry_old [OF g] by (auto simp: js_keys_iff simp del: set_map)
  then show "js_wf (sd_entries ?s)" using g by (fastforce simp: glue_def queue_generation_sel)
  show "arrivals ?s a = Some n \<longrightarrow> n = a \<and> a < sd_arrival ?s" for a n
    using g unfolding arrivals_def queue_generation_at [OF g] queue_generation_sel
    by (auto simp: glue_def arrivals_def split: if_splits)
  show "distinct gen" "\<And>a. a \<in> set gen \<Longrightarrow> a < sd_arrival ?s" if "gen \<in> set (gens_of ?s)" for gen
    using g that by (fastforce simp: glue_def queue_generation_sel)+
  show "sd_running ?s = int (card (running_set (cores ?s)))"
    using g by (simp add: queue_generation_running [OF g] queue_generation_sel glue_def)
  show "held_of (sd_held ?s) k = (\<Sum>a \<in> running_set (cores ?s). key_count (cores ?s) k a)" for k
    using g by (simp add: queue_generation_running [OF g] queue_generation_sel glue_def)
qed

lemma queue_generation_spec:
  assumes g: "glue s"
  shows "spec_step (sd_limits s) (abs_of s) (abs_of (queue_generation now work s))"
proof -
  let ?s = "queue_generation now work s" and ?gen = "[sd_arrival s ..< sd_arrival s + length work]"
  define N where "N = (\<lambda>a. if a \<in> set ?gen then cores ?s a else None)"
  have "cores ?s a = (cores s ++ N) a" for a
    using entry_old [OF g, of a]
    by (cases "entry_at s a") (auto simp: N_def cores_def queue_generation_at [OF g] map_add_def)
  then have cores: "cores ?s = cores s ++ N" by blast
  have "spec_step (sd_limits s) (gens_of s, cores s) (gens_of s @ [?gen], cores s ++ N)"
  proof (rule spec_open)
    show "set ?gen \<inter> dom (cores s) = {}" using entry_old [OF g] by (fastforce simp: cores_def)
    show "set ?gen \<inter> \<Union> (set ` set (gens_of s)) = {}" using g by (fastforce simp: glue_def)
    show "dom N = set ?gen" by (auto simp: N_def cores_def queue_generation_at [OF g] split: if_splits)
    show "cr_state c = Blocked \<and> cr_result c = None" if "N a = Some c" for a c
      using that by (auto simp: N_def cores_def queue_generation_at [OF g] split: if_splits)
  qed
  then show ?thesis unfolding abs_of_def queue_generation_sel cores .
qed

section \<open>Every step of the scheduler\<close>

theorem sched_step_refines:
  assumes "sched_step s s'" "glue s" "sane_limits (sd_limits s)"
  shows "glue s' \<and> sd_limits s' = sd_limits s \<and> (spec_step (sd_limits s))\<^sup>*\<^sup>* (abs_of s) (abs_of s')"
  using assms(1)
proof cases
  case (sch_open now work r)
  let ?refused = "s\<lparr>sd_arrival := sd_arrival s + length work, sd_refused := sd_refused s + length work\<rparr>"
  have same: "gens_of ?refused = gens_of s" "cores ?refused = cores s" "arrivals ?refused = arrivals s"
    by (simp_all add: fun_eq_iff gens_of_def cores_def arrivals_def)
  then have "glue ?refused" using assms(2) unfolding glue_def by (simp add: same) (meson trans_less_add1)
  moreover have "abs_of ?refused = abs_of s" using same by (simp add: abs_of_def)
  ultimately show ?thesis
    using open_generation_cases [OF sch_open] queue_generation_glue [OF assms(2)] queue_generation_spec [OF assms(2)]
    by (auto simp: queue_generation_sel(6))
next
  case (sch_iterate gen aborted now admit rid)
  have gen: "gen \<in> set (gens_of s)" using sch_iterate(2) by (force simp: gens_of_def)
  then have "distinct gen" using assms(2) by (simp add: glue_def)
  from iterate_sim [OF gen this assms(3)] show ?thesis
    unfolding sch_iterate(1) using assms(2) by (rule sim_step)
next
  case (sch_abort gen)
  have "gens_of s' = gens_of s" by (simp add: sch_abort gens_of_def comp_def case_prod_unfold)
  moreover have "cores s' = cores s" "arrivals s' = arrivals s" "sd_entries s' = sd_entries s"
    by (simp_all add: sch_abort fun_eq_iff cores_def arrivals_def)
  ultimately have "sim s s'" by (intro frame_quiet) (simp_all add: frame_def sch_abort)
  then show ?thesis using assms(2) by (rule sim_step)
next
  case (sch_partial a v)
  have "sim s s'" unfolding sch_partial report_partial_def by (rule sim_quiet_entry) (simp_all add: core_of_def)
  then show ?thesis using assms(2) by (rule sim_step)
next
  case (sch_capacity gen)
  have "sim s s'" unfolding sch_capacity by (rule sim_quiet_all) (simp_all add: core_of_def)
  then show ?thesis using assms(2) by (rule sim_step)
qed (hypsubst, rule sim_step, ((rule finish_sim, assumption) | rule conclude_sim sim_waiting(4,5)), rule assms(2))+

end
