(* ===== verification/Scheduler_Promises.thy ===== *)
theory Scheduler_Promises
  imports Scheduler_Refinement
begin

text \<open>
  What the scheduler promises in every reachable state, read off the abstract machine through the
  simulation: its limits, the order of dependent units, the finality of results, and that a segment
  of a generation ends with one result per unit. The last section has two runs that show what the
  scheduler does not do.
\<close>

section \<open>Reachable states\<close>

definition sched_start :: "scheduler_limits \<Rightarrow> 'v scheduler \<Rightarrow> bool" where
  "sched_start L s \<longleftrightarrow> sane_limits L \<and> (\<exists>budgetId ledger tree. s = createScheduler L budgetId ledger tree)"

definition sched_inv :: "scheduler_limits \<Rightarrow> 'v scheduler \<Rightarrow> bool" where
  "sched_inv L s \<longleftrightarrow>
     glue s \<and> sane_limits L \<and> sd_limits s = L \<and> (spec_step L)\<^sup>*\<^sup>* ([], Map.empty) (abs_of s)"

interpretation scheds: safety_machine "sched_start L" sched_step "sched_inv L"
proof unfold_locales
  fix s :: "'a scheduler" assume "sched_start L s"
  then obtain budgetId ledger tree where L: "sane_limits L" "s = createScheduler L budgetId ledger tree"
    by (auto simp: sched_start_def)
  then have "abs_of s = ([], Map.empty)"
    by (simp add: abs_of_def gens_of_def cores_def createScheduler_def fun_eq_iff)
  with L show "sched_inv L s"
    by (simp add: sched_inv_def glue_def createScheduler_def gens_of_def arrivals_def abs_of_def running_set_def held_of_def)
next
  fix s s' :: "'a scheduler" assume "sched_inv L s" "sched_step s s'"
  with sched_step_refines [of s s'] show "sched_inv L s'"
    by (auto simp: sched_inv_def)
qed

text \<open>The parts of the abstract contract, as the client reads them.\<close>

definition present :: "'v spec \<Rightarrow> bool" where
  "present x \<longleftrightarrow> (\<forall>gen \<in> set (fst x). set gen \<subseteq> dom (snd x))"

definition own_results :: "'v spec \<Rightarrow> bool" where
  "own_results x \<longleftrightarrow> (\<forall>a c r. snd x a = Some c \<longrightarrow> cr_result c = Some r \<longrightarrow>
     ran_result (cr_unit c) r \<or> unstarted_result (cr_unit c) r)"

interpretation units_present: safety_machine "\<lambda>x. x = ([], Map.empty)" "spec_step L" present
proof unfold_locales
  show "present y" if "present x" "spec_step L x y" for x y :: "'a spec"
    using that(2,1) by cases (auto simp: present_def)
qed (simp add: present_def)

interpretation units_own: safety_machine "\<lambda>x. x = ([], Map.empty)" "spec_step L" own_results
proof unfold_locales
  show "own_results y" if "own_results x" "spec_step L x y" for x y :: "'a spec"
    using that(2,1) by cases (fastforce simp: own_results_def map_add_Some_iff split: if_splits)+
qed (simp add: own_results_def)

lemma sched_contract:
  assumes "sched_inv L s"
  shows "spec_inv L (abs_of s)" "present (abs_of s)" "own_results (abs_of s)"
proof -
  have run: "(spec_step L)\<^sup>*\<^sup>* ([], Map.empty) (abs_of s)" using assms by (simp add: sched_inv_def)
  show "spec_inv L (abs_of s)" by (rule units.always_later [OF run units.inv_start]) simp
  show "present (abs_of s)" by (rule units_present.always_later [OF run units_present.inv_start]) simp
  show "own_results (abs_of s)" by (rule units_own.always_later [OF run units_own.inv_start]) simp
qed

lemma state_running: "{a. state_at s a = Some Running} = running_set (cores s)"
  by (auto simp: state_at_def running_set_def cores_def)

lemma state_holders:
  "{a. \<exists>e. entry_at s a = Some e \<and> en_state e = Running \<and> k \<in> set (en_keys e)} = holders (cores s) k"
  by (auto simp: holders_def cores_def)

section \<open>Segments end\<close>

definition unsettled :: "'v scheduler \<Rightarrow> nat list \<Rightarrow> nat" where
  "unsettled s gen = length (filter (\<lambda>a. \<not> in_states s [Settled] a) gen)"

lemma settled_iff: "in_states s [Settled] a \<longleftrightarrow> (\<exists>c. cores s a = Some c \<and> cr_state c = Settled)"
  by (auto simp: in_states_def state_at_def cores_def split: option.splits)

lemma sim_settled:
  assumes "sim s s'" "glue s" "in_states s [Settled] a"
  shows "in_states s' [Settled] a"
proof -
  obtain c where c: "cores s a = Some c" "cr_state c = Settled" using assms(3) by (auto simp: settled_iff)
  have "(spec_step (sd_limits s))\<^sup>*\<^sup>* (abs_of s) (abs_of s')" using assms by (simp add: sim_def)
  from spec_steps_final [OF this, of a c] c show ?thesis by (auto simp: settled_iff abs_of_def)
qed

text \<open>A check of the lock deadlines that refuses anything settles an entry that was ready.\<close>

lemma lock_fold_settles:
  assumes "snd (foldl (lock_timeout_one now) (s, any) ds)" "\<not> any"
  shows "\<exists>d \<in> set ds. in_states (fst (foldl (lock_timeout_one now) (s, any) ds)) [Settled] (fst d)"
  using assms
proof (induction ds arbitrary: s any)
  case (Cons d ds)
  obtain a t s1 any1 where d: "d = (a, t)" and one: "lock_timeout_one now (s, any) d = (s1, any1)" by fastforce
  have keep: "in_states (fst (foldl (lock_timeout_one now) (s, any) ds)) [Settled] b"
    if "in_states s [Settled] b" for s :: "'a scheduler" and any b
    using that
  proof (induction ds arbitrary: s any)
    case (Cons d ds)
    obtain a t s1 any1 where "d = (a, t)" "lock_timeout_one now (s, any) d = (s1, any1)" by fastforce
    moreover from this have "in_states s1 [Settled] b"
      using Cons.prems by (auto simp: lock_timeout_one_def refuse_entry_def on_entry_def in_states_def state_at_def
          split: if_splits option.splits)
    ultimately show ?case using Cons.IH by simp
  qed simp
  show ?case
  proof (cases any1)
    case True
    then have "in_states s1 [Settled] a"
      using one d Cons.prems(2)
      by (auto simp: lock_timeout_one_def refuse_entry_def on_entry_def in_states_def state_at_def split: if_splits option.splits)
    then show ?thesis using keep [of s1 a any1] one d by simp
  next
    case False
    with Cons.IH [of s1 any1] Cons.prems(1) one show ?thesis by simp
  qed
qed simp

lemma filter_less: "(\<And>x. P x \<Longrightarrow> Q x) \<Longrightarrow> x \<in> set xs \<Longrightarrow> Q x \<Longrightarrow> \<not> P x \<Longrightarrow> length (filter P xs) < length (filter Q xs)"
proof (induction xs)
  case (Cons y xs)
  have "length (filter P xs) \<le> length (filter Q xs)"
    using Cons.prems(1) by (induction xs) auto
  with Cons show ?case by auto
qed simp

lemma iterate_again:
  assumes "gen \<in> set (gens_of s)" "distinct gen" "sane_limits (sd_limits s)" "glue s"
    "iterate now admit rid gen aborted s = (s', Again)"
  shows "unsettled s' gen < unsettled s gen"
proof (rule iterate_stages [OF assms(1-3), of now admit rid aborted])
  fix s4 skipped s5 any
  assume st: "sim s s4" "sim s4 s5" "set skipped \<subseteq> set gen"
    and locks: "foldl (lock_timeout_one now) (s4, False) (lock_deadlines s4 skipped) = (s5, any)"
    and it: "iterate now admit rid gen aborted s =
       (if all_settled s gen then (s, Ended)
        else if aborted
        then (foldl abort_one s gen, if list_ex (in_states (foldl abort_one s gen) [Running]) gen then Parked None else Ended)
        else (s5, if any then Again else if all_settled s5 gen then Ended
                  else Parked (case map snd (lock_deadlines s4 skipped) of [] \<Rightarrow> None | t # ts \<Rightarrow> Some (foldl min t ts))))"
  have "any" "s' = s5" using assms(5) unfolding it by (auto split: if_splits)
  then obtain a t where a: "(a, t) \<in> set (lock_deadlines s4 skipped)" "in_states s5 [Settled] a"
    using lock_fold_settles [of now s4 False "lock_deadlines s4 skipped"] locks by auto
  from lock_deadlines_ready [OF a(1)] have "a \<in> set gen" "\<not> in_states s4 [Settled] a"
    using st(3) by (auto simp: in_states_def)
  moreover have "\<not> in_states s [Settled] a" using sim_settled [OF st(1) assms(4)] calculation(2) by blast
  moreover have "in_states s5 [Settled] b" if "in_states s [Settled] b" for b
    using sim_settled [OF sim_trans [OF st(1,2)] assms(4) that] .
  ultimately show ?thesis
    unfolding unsettled_def \<open>s' = s5\<close> using a(2) by (intro filter_less [of _ _ a]) auto
qed

lemma abort_fold_state:
  "state_at (foldl abort_one s gen) b =
     (if b \<in> set gen \<and> in_states s [Blocked, Ready] b then Some Settled else state_at s b)"
proof (induction gen arbitrary: s)
  case (Cons a gen)
  have "state_at (abort_one s a) b = (if b = a \<and> in_states s [Blocked, Ready] b then Some Settled else state_at s b)"
    by (auto simp: abort_one_def settle_entry_def on_entry_def state_at_def in_states_def split: option.splits)
  then show ?case using Cons.IH [of "abort_one s a"] by (auto simp: in_states_def)
qed simp

lemma iterate_ended:
  assumes "gen \<in> set (gens_of s)" "distinct gen" "sane_limits (sd_limits s)" "set gen \<subseteq> dom (cores s)"
    "iterate now admit rid gen aborted s = (s', Ended)"
  shows "all_settled s' gen"
proof -
  have aborted: "all_settled (foldl abort_one s gen) gen"
    if "\<not> list_ex (in_states (foldl abort_one s gen) [Running]) gen"
  proof -
    have "in_states (foldl abort_one s gen) [Settled] a" if a: "a \<in> set gen" for a
    proof -
      have "a \<in> dom (cores s)" using a assms(4) by blast
      then obtain st where "state_at s a = Some st" by (auto simp: cores_def state_at_def)
      moreover have "\<not> in_states (foldl abort_one s gen) [Running] a"
        using a \<open>\<not> list_ex (in_states (foldl abort_one s gen) [Running]) gen\<close> by (auto simp: list_ex_iff)
      ultimately show ?thesis using a by (cases st) (auto simp: in_states_def abort_fold_state)
    qed
    then show ?thesis by (simp add: all_settled_def list_all_iff)
  qed
  show ?thesis
    by (rule iterate_stages [OF assms(1-3), of now admit rid aborted])
      (use assms(5) aborted in \<open>auto split: if_splits\<close>)
qed

text \<open>One more turn than there are unsettled units is enough.\<close>

lemma run_segment_ends:
  assumes "gen \<in> set (gens_of s)" "distinct gen" "sane_limits (sd_limits s)" "glue s" "set gen \<subseteq> dom (cores s)"
    "unsettled s gen < fuel"
  obtains s' r where "run_segment fuel now admit rid gen aborted s = Some (s', r)" "r \<noteq> Again" "sim s s'"
    "r = Ended \<Longrightarrow> all_settled s' gen"
  using assms
proof (induction fuel arbitrary: s thesis)
  case (Suc fuel)
  obtain s1 r1 where it: "iterate now (admit fuel) (rid fuel) gen aborted s = (s1, r1)" by fastforce
  have sim: "sim s s1" using iterate_sim [OF Suc.prems(2-4), of now "admit fuel" "rid fuel" aborted] it by simp
  show ?case
  proof (cases r1)
    case Again
    have "unsettled s1 gen < fuel"
      using iterate_again [OF Suc.prems(2-5) it [unfolded Again]] Suc.prems(7) by simp
    moreover have "set gen \<subseteq> dom (cores s1)"
    proof
      fix a assume "a \<in> set gen"
      then obtain c where "cores s a = Some c" using Suc.prems(6) by auto
      moreover have "(spec_step (sd_limits s))\<^sup>*\<^sup>* (abs_of s) (abs_of s1)" using sim Suc.prems(5) by (simp add: sim_def)
      ultimately show "a \<in> dom (cores s1)" using spec_steps_final [of "sd_limits s" "abs_of s" "abs_of s1" a c]
        by (auto simp: abs_of_def)
    qed
    ultimately obtain s' r where "run_segment fuel now admit rid gen aborted s1 = Some (s', r)" "r \<noteq> Again" "sim s1 s'"
      "r = Ended \<Longrightarrow> all_settled s' gen"
      using Suc.IH [of s1] sim Suc.prems(2-5) by (auto simp: sim_def)
    with it Again sim show ?thesis by (intro Suc.prems(1) [of s' r]) (auto intro: sim_trans)
  next
    case (Parked t)
    with it sim show ?thesis by (intro Suc.prems(1) [of s1 r1]) auto
  next
    case Ended
    have settled: "all_settled s1 gen" using iterate_ended [OF Suc.prems(2-4,6) it [unfolded Ended]] .
    have "sd_entries (conclude gen s1) = sd_entries s1"
      unfolding conclude_def by (induction gen arbitrary: s1) (simp_all add: unwait_def)
    then have "all_settled (conclude gen s1) gen"
      using settled by (simp add: all_settled_def in_states_def state_at_def)
    with it Ended sim show ?thesis
      by (intro Suc.prems(1) [of "conclude gen s1" Ended]) (auto intro: sim_trans [OF _ conclude_sim])
  qed
qed simp

fun result_unit :: "'v scheduling_result \<Rightarrow> string" where
  "result_unit (Completed_Unit i _) = i"
| "result_unit (Refused_Unit i _ _ _) = i"
| "result_unit (Settled_Unit i _ _) = i"

lemma own_result: "ran_result u r \<or> unstarted_result u r \<Longrightarrow> result_unit r = wu_id u"
  by (cases r) auto

lemma sched_inv_sim: "sched_inv L s \<Longrightarrow> sim s s' \<Longrightarrow> sched_inv L s'"
  by (auto simp: sched_inv_def sim_def)

lemma sched_inv_gen:
  assumes "sched_inv L s" "(gen, aborted) \<in> set (sd_generations s)"
  shows "gen \<in> set (gens_of s)" "distinct gen" "sane_limits (sd_limits s)" "glue s" "set gen \<subseteq> dom (cores s)"
proof -
  show gen: "gen \<in> set (gens_of s)" using assms(2) by (force simp: gens_of_def)
  show "distinct gen" "sane_limits (sd_limits s)" "glue s" using assms(1) gen by (auto simp: sched_inv_def glue_def)
  show "set gen \<subseteq> dom (cores s)" using sched_contract(2) [OF assms(1)] gen by (auto simp: present_def abs_of_def)
qed

lemma settled_results:
  assumes inv: "sched_inv L s'" and settled: "all_settled s' gen"
  shows "map (\<lambda>r. Some (result_unit r)) (results_of gen s') =
    map (\<lambda>a. map_option (\<lambda>e. wu_id (en_unit e)) (entry_at s' a)) gen"
proof -
  have one: "\<exists>e r. entry_at s' a = Some e \<and> en_result e = Some r \<and> result_unit r = wu_id (en_unit e)" if a: "a \<in> set gen" for a
  proof -
    obtain e where e: "entry_at s' a = Some e" "en_state e = Settled"
      using settled a by (auto simp: all_settled_def list_all_iff in_states_def state_at_def split: option.splits)
    then have c: "snd (abs_of s') a = Some (core_of e)" by (simp add: abs_of_def cores_entry)
    then obtain r where r: "en_result e = Some r"
      using spec_inv_result [of L "fst (abs_of s')" "snd (abs_of s')" a "core_of e"] sched_contract(1) [OF inv] e(2) by auto
    have "ran_result (en_unit e) r \<or> unstarted_result (en_unit e) r"
      using sched_contract(3) [OF inv] c r unfolding own_results_def by (metis core_of_sel(1,4))
    then have "result_unit r = wu_id (en_unit e)" by (rule own_result)
    with e(1) r show ?thesis by blast
  qed
  then show ?thesis
    unfolding results_of_def
  proof (induction gen)
    case (Cons a gen)
    from Cons.prems [of a] obtain e r where "entry_at s' a = Some e" "en_result e = Some r" "result_unit r = wu_id (en_unit e)"
      by auto
    moreover have "map (\<lambda>r. Some (result_unit r)) (List.map_filter (\<lambda>a. map_option (\<lambda>e. case en_result e of
         Some r \<Rightarrow> r | None \<Rightarrow> Settled_Unit (wu_id (en_unit e)) NO_EFFECT (en_partial e)) (entry_at s' a)) gen) =
      map (\<lambda>a. map_option (\<lambda>e. wu_id (en_unit e)) (entry_at s' a)) gen"
      using Cons by simp
    ultimately show ?case by (simp add: map_filter_def)
  qed (simp add: map_filter_def)
qed

lemma sim_unit:
  assumes "sim s s'" "glue s" "cores s a \<noteq> None"
  shows "map_option en_unit (entry_at s' a) = map_option en_unit (entry_at s a)"
proof -
  obtain c where c: "cores s a = Some c" using assms(3) by auto
  have "(spec_step (sd_limits s))\<^sup>*\<^sup>* (abs_of s) (abs_of s')" using assms by (simp add: sim_def)
  from spec_steps_final [OF this, of a c] c obtain c' where "cores s' a = Some c'" "cr_unit c' = cr_unit c"
    by (auto simp: abs_of_def)
  with c show ?thesis by (auto simp: cores_def)
qed

section \<open>A small run\<close>

text \<open>Two units, the second one after the first: admitted, finished, admitted.\<close>

definition demo_unit :: "string \<Rightarrow> effect_class \<Rightarrow> conflict_key list \<Rightarrow> string list \<Rightarrow> work_unit" where
  "demo_unit i effect keys dependencies =
     \<lparr>wu_id = i, wu_effect = effect, wu_priority = Active_Turn_Priority, wu_conflictKeys = keys, wu_dependencies = dependencies,
      wu_deadline = None, wu_expectedOutputBytes = 0, wu_retry = NO_RETRY, wu_scopeId = None\<rparr>"

definition demo_work :: "work_unit \<Rightarrow> scheduled_work" where
  "demo_work u = \<lparr>sw_unit = u, sw_inputBytes = None\<rparr>"

definition demo_pair :: "scheduled_work list" where
  "demo_pair = [demo_work (demo_unit ''edit'' Mutation [] []), demo_work (demo_unit ''test'' Mutation [] [''edit''])]"

definition demo_idle :: "int scheduler" where
  "demo_idle = createScheduler DEFAULT_SCHEDULER_LIMITS None createBudgetLedger None"

definition opened :: "instant \<Rightarrow> scheduled_work list \<Rightarrow> int scheduler \<Rightarrow> int scheduler" where
  "opened now work s = (case open_generation now work s of None \<Rightarrow> s | Some (s', _) \<Rightarrow> s')"

definition admitted :: "(nat \<Rightarrow> admission option) \<Rightarrow> nat list \<Rightarrow> int scheduler \<Rightarrow> int scheduler" where
  "admitted admit gen s = fst (iterate 0 admit (\<lambda>_. ''r'') gen False s)"

definition demo_open :: "int scheduler" where "demo_open = opened 0 demo_pair demo_idle"
definition demo_first :: "int scheduler" where "demo_first = admitted (\<lambda>_. None) [0, 1] demo_open"
definition demo_finished :: "int scheduler" where "demo_finished = finish 5 (Raced_Value 7) 0 demo_first"
definition demo_second :: "int scheduler" where "demo_second = admitted (\<lambda>_. None) [0, 1] demo_finished"

lemma demo_gens:
  "map_option snd (open_generation 0 demo_pair demo_idle) = Some (Inr [0, 1])"
  "sd_generations demo_open = [([0, 1], False)]" "sd_generations demo_finished = [([0, 1], False)]"
  by code_simp+

lemma demo_states:
  "map (state_at demo_open) [0, 1] = [Some Blocked, Some Blocked]"
  "map (state_at demo_first) [0, 1] = [Some Running, Some Blocked]"
  "map (state_at demo_finished) [0, 1] = [Some Settled, Some Blocked]"
  "map (state_at demo_second) [0, 1] = [Some Settled, Some Running]"
  by code_simp+

lemma sched_demo_reachable:
  "reachable (sched_start DEFAULT_SCHEDULER_LIMITS) sched_step demo_open"
  "reachable (sched_start DEFAULT_SCHEDULER_LIMITS) sched_step demo_first"
  "reachable (sched_start DEFAULT_SCHEDULER_LIMITS) sched_step demo_finished"
  "reachable (sched_start DEFAULT_SCHEDULER_LIMITS) sched_step demo_second"
proof -
  have "sched_start DEFAULT_SCHEDULER_LIMITS demo_idle"
    by (auto simp: sched_start_def demo_idle_def sane_limits_def DEFAULT_SCHEDULER_LIMITS_def)
  moreover obtain r where "open_generation 0 demo_pair demo_idle = Some (demo_open, r)"
    using demo_gens(1) by (auto simp: demo_open_def opened_def)
  ultimately show 1: "reachable (sched_start DEFAULT_SCHEDULER_LIMITS) sched_step demo_open"
    using reach_step [OF reach_start, of "sched_start DEFAULT_SCHEDULER_LIMITS" demo_idle sched_step] sch_open by blast
  have "sched_step demo_open demo_first"
    unfolding demo_first_def admitted_def by (rule sch_iterate) (simp add: demo_gens)
  with 1 show 2: "reachable (sched_start DEFAULT_SCHEDULER_LIMITS) sched_step demo_first" by (rule reach_step)
  have "sched_step demo_first demo_finished"
    unfolding demo_finished_def by (rule sch_finish) (use demo_states(2) in simp)
  with 2 show 3: "reachable (sched_start DEFAULT_SCHEDULER_LIMITS) sched_step demo_finished" by (rule reach_step)
  have "sched_step demo_finished demo_second"
    unfolding demo_second_def admitted_def by (rule sch_iterate) (simp add: demo_gens)
  with 3 show "reachable (sched_start DEFAULT_SCHEDULER_LIMITS) sched_step demo_second" by (rule reach_step)
qed

section \<open>Properties\<close>

text \<open>
  C18. The scheduler implements its abstract machine: every reachable scheduler stands for a state that the
  machine reaches, and every step of the scheduler (opening a generation, a whole turn of its loop with
  expiry, promotion, admission and lock timeouts, a settlement, an abort, a capacity change, other use of
  the ledger and the tree) is a sequence of the machine's steps.
\<close>

theorem scheduler_refines_its_machine:
  assumes "reachable (sched_start L) sched_step s" and "sched_step s s'"
  shows "(spec_step L)\<^sup>*\<^sup>* ([], Map.empty) (abs_of s) \<and> (spec_step L)\<^sup>*\<^sup>* (abs_of s) (abs_of s')"
  using scheds.always [OF assms(1)] sched_step_refines [OF assms(2)] by (simp add: sched_inv_def)

theorem scheduler_refines_its_machine_witness:
  "(spec_step DEFAULT_SCHEDULER_LIMITS)\<^sup>*\<^sup>* (abs_of demo_first) (abs_of demo_finished)"
proof -
  have "sched_step demo_first demo_finished"
    unfolding demo_finished_def by (rule sch_finish) (use demo_states(2) in simp)
  from scheduler_refines_its_machine [OF sched_demo_reachable(2) this] show ?thesis by simp
qed

text \<open>
  C19. The limits hold in every reachable state. The counter of running units is exact and never above the
  global limit; for every conflict key no more running units have the key than the limit per key allows,
  and the table of held keys counts exactly what the running units have taken.
\<close>

theorem scheduler_respects_limits:
  assumes "reachable (sched_start L) sched_step s"
  shows "sd_running s = int (card {a. state_at s a = Some Running}) \<and>
    sd_running s \<le> max 0 (sl_maxConcurrent L) \<and>
    int (card {a. \<exists>e. entry_at s a = Some e \<and> en_state e = Running \<and> k \<in> set (en_keys e)}) \<le> max 0 (sl_maxConcurrentPerKey L) \<and>
    held_of (sd_held s) k =
      (\<Sum>a \<in> {a. state_at s a = Some Running}. case entry_at s a of None \<Rightarrow> 0 | Some e \<Rightarrow> int (count_list (en_keys e) k))"
proof -
  have inv: "sched_inv L s" by (rule scheds.always [OF assms])
  have "spec_inv L (gens_of s, cores s)" using sched_contract(1) [OF inv] by (simp add: abs_of_def)
  moreover have "glue s" using inv by (simp add: sched_inv_def)
  moreover have "key_count (cores s) k a = (case entry_at s a of None \<Rightarrow> 0 | Some e \<Rightarrow> int (count_list (en_keys e) k))" for a
    by (simp add: key_count_def cores_def split: option.splits)
  ultimately show ?thesis
    unfolding state_running state_holders by (simp add: spec_inv_def glue_def)
qed

theorem scheduler_respects_limits_witness:
  "sd_running demo_second = int (card {a. state_at demo_second a = Some Running}) \<and> sd_running demo_second = 1"
proof -
  have "sd_running demo_second = 1" by code_simp
  with scheduler_respects_limits [OF sched_demo_reachable(4)] show ?thesis by simp
qed

text \<open>
  C20. A unit runs after what it depends on: in every reachable state, for a unit that is ready, running or
  completed, every dependency it names is a unit of its own generation that has completed.
\<close>

theorem units_run_after_their_dependencies:
  assumes "reachable (sched_start L) sched_step s" and "(gen, aborted) \<in> set (sd_generations s)" and "a \<in> set gen"
    and "entry_at s a = Some e" and "en_state e \<in> {Ready, Running} \<or> result_completed (en_result e)"
    and "d \<in> set (wu_dependencies (en_unit e))"
  shows "\<exists>b \<in> set gen. \<exists>f. entry_at s b = Some f \<and> wu_id (en_unit f) = d \<and> en_state f = Settled \<and>
    result_completed (en_result f)"
proof -
  have inv: "sched_inv L s" by (rule scheds.always [OF assms(1)])
  have "spec_inv L (gens_of s, cores s)" using sched_contract(1) [OF inv] by (simp add: abs_of_def)
  moreover have "started (core_of e)" using assms(5) by (auto simp: started_def)
  ultimately have "dep_done (cores s) gen d"
    using sched_inv_gen(1) [OF inv assms(2)] assms(3,6) cores_entry [OF assms(4)]
    unfolding spec_inv_def prod.case by (metis core_of_sel(1))
  then obtain b c where "b \<in> set gen" "cores s b = Some c" "wu_id (cr_unit c) = d" "cr_state c = Settled"
    "result_completed (cr_result c)"
    by (auto simp: dep_done_def)
  then show ?thesis by (intro bexI [of _ b]) (auto simp: cores_def)
qed

theorem units_run_after_their_dependencies_witness:
  "\<exists>b \<in> {0, 1}. \<exists>f. entry_at demo_second b = Some f \<and> wu_id (en_unit f) = ''edit'' \<and> result_completed (en_result f)"
proof -
  obtain e where e: "entry_at demo_second 1 = Some e" "en_state e = Running"
    using demo_states(4) by (auto simp: state_at_def)
  have "map_option (\<lambda>e. wu_dependencies (en_unit e)) (entry_at demo_second 1) = Some [''edit'']"
    "sd_generations demo_second = [([0, 1], False)]" by code_simp+
  with units_run_after_their_dependencies [OF sched_demo_reachable(4), of "[0, 1]" False 1 e "''edit''"] e show ?thesis by auto
qed

text \<open>
  A result is final: once a unit has settled, whatever happens to the scheduler its unit, its keys and its
  result stay what they are.
\<close>

theorem scheduling_result_is_final:
  assumes "reachable (sched_start L) sched_step s" and "sched_step\<^sup>*\<^sup>* s t"
    and "entry_at s a = Some e" and "en_state e = Settled"
  shows "\<exists>f. entry_at t a = Some f \<and> en_state f = Settled \<and> en_result f = en_result e \<and> en_unit f = en_unit e"
  using assms(2)
proof (induction rule: rtranclp_induct)
  case (step t u)
  have "sched_inv L t" using scheds.always_later [OF step.hyps(1)] scheds.always [OF assms(1)] by blast
  with step.hyps(2) have run: "(spec_step L)\<^sup>*\<^sup>* (abs_of t) (abs_of u)"
    using sched_step_refines [of t u] by (simp add: sched_inv_def)
  obtain f where f: "entry_at t a = Some f" "en_state f = Settled" "en_result f = en_result e" "en_unit f = en_unit e"
    using step.IH by blast
  then have "snd (abs_of t) a = Some (core_of f)" by (simp add: abs_of_def cores_entry)
  from spec_steps_final [OF run this] f obtain g where "entry_at u a = Some g" "core_of g = core_of f"
    by (auto simp: abs_of_def cores_def)
  with f show ?case by (metis core_of_sel)
qed (use assms(3,4) in simp)

theorem scheduling_result_is_final_witness:
  "\<exists>f. entry_at demo_second 0 = Some f \<and> en_result f = Some (Completed_Unit ''edit'' 7)"
proof -
  have step: "sched_step demo_finished demo_second"
    unfolding demo_second_def admitted_def by (rule sch_iterate) (simp add: demo_gens)
  have "map_option en_result (entry_at demo_finished 0) = Some (Some (Completed_Unit ''edit'' 7))" by code_simp
  then obtain e where e: "entry_at demo_finished 0 = Some e" "en_result e = Some (Completed_Unit ''edit'' 7)"
    by auto
  moreover have "en_state e = Settled" using demo_states(3) e(1) by (simp add: state_at_def)
  ultimately show ?thesis
    using scheduling_result_is_final [OF sched_demo_reachable(3) r_into_rtranclp [of sched_step, OF step], of 0 e] by auto
qed

text \<open>
  C21. A generation never spins and loses no unit: between two waits, one turn of the loop more than it has
  units is enough to end or to park; when it ends, it returns exactly one result per submitted unit, in the
  order of submission and under the unit's own identifier.
\<close>

theorem segment_returns_one_result_per_unit:
  assumes "reachable (sched_start L) sched_step s" and "(gen, aborted) \<in> set (sd_generations s)"
  shows "\<exists>s' r. run_segment (Suc (length gen)) now admit rid gen aborted s = Some (s', r) \<and> r \<noteq> Again \<and>
    (r = Ended \<longrightarrow> all_settled s' gen \<and>
       map (\<lambda>r. Some (result_unit r)) (results_of gen s') =
       map (\<lambda>a. map_option (\<lambda>e. wu_id (en_unit e)) (entry_at s a)) gen)"
proof -
  have inv: "sched_inv L s" by (rule scheds.always [OF assms(1)])
  note gen = sched_inv_gen [OF inv assms(2)]
  have "unsettled s gen < Suc (length gen)" by (simp add: unsettled_def le_imp_less_Suc)
  then obtain s' r where run: "run_segment (Suc (length gen)) now admit rid gen aborted s = Some (s', r)" "r \<noteq> Again"
    "sim s s'" "r = Ended \<Longrightarrow> all_settled s' gen"
    using run_segment_ends [OF gen, of "Suc (length gen)" now admit rid aborted] by blast
  have "map_option (\<lambda>e. wu_id (en_unit e)) (entry_at s' a) = map_option (\<lambda>e. wu_id (en_unit e)) (entry_at s a)"
    if "a \<in> set gen" for a
  proof -
    have "map_option en_unit (entry_at s' a) = map_option en_unit (entry_at s a)"
      using sim_unit [OF run(3) gen(4), of a] gen(5) that by blast
    then show ?thesis by (cases "entry_at s a"; cases "entry_at s' a") simp_all
  qed
  then have "map (\<lambda>a. map_option (\<lambda>e. wu_id (en_unit e)) (entry_at s' a)) gen =
      map (\<lambda>a. map_option (\<lambda>e. wu_id (en_unit e)) (entry_at s a)) gen" by simp
  with run settled_results [OF sched_inv_sim [OF inv run(3)], of gen] show ?thesis by auto
qed

theorem segment_returns_one_result_per_unit_witness:
  "\<exists>s' r. run_segment 3 0 (\<lambda>_ _. None) (\<lambda>_ _. ''r'') [0, 1] False demo_open = Some (s', r) \<and> r \<noteq> Again"
  using segment_returns_one_result_per_unit [OF sched_demo_reachable(1), of "[0, 1]" False 0 "\<lambda>_ _. None" "\<lambda>_ _. ''r''"]
  by (auto simp: demo_gens eval_nat_numeral)

section \<open>What the scheduler does not do, on sample runs\<close>

text \<open>
  A unit that is refused at the door strands what depends on it. The admission callback refuses the
  first unit; the second one waits for it. The generation then parks with no deadline to wake it, no unit
  running and the second unit still blocked, although its dependency has settled: the loop promotes only at
  the top of a turn, and a refusal wakes nobody.
\<close>

theorem refused_unit_strands_its_dependents:
  "case run_segment 3 0 (\<lambda>_ a. if a = 0 then Some (Adm_Refused ''receipt'') else None) (\<lambda>_ _. ''r'') [0, 1] False demo_open of
     None \<Rightarrow> False
   | Some (s, r) \<Rightarrow> r = Parked None \<and> sd_running s = 0 \<and> state_at s 0 = Some Settled \<and> state_at s 1 = Some Blocked"
  by code_simp

text \<open>
  A mutation without conflict keys and one with a key run at the same time: the effective key of the first is
  the global one, which the second does not ask for.
\<close>

theorem keyless_mutation_runs_beside_keyed_one:
  "map (state_at (admitted (\<lambda>_. None) [0, 1]
      (opened 0 [demo_work (demo_unit ''a'' Mutation [] []), demo_work (demo_unit ''b'' Mutation [ascii ''file:x''] [])] demo_idle)))
     [0, 1] = [Some Running, Some Running]"
  by code_simp

end
