(* ===== verification/Scheduler_Queue.thy ===== *)
theory Scheduler_Queue
  imports Scheduler_Promises
begin

text \<open>
  The queue of the scheduler: between two submissions the set of waiting units only shrinks, every unit
  that is blocked or ready is in it, and so the limits on queued units and queued bytes, which are
  checked only when a generation is submitted, hold at all times.
\<close>

section \<open>Operations never add to the queue\<close>

abbreviation idle_at :: "'v scheduler \<Rightarrow> nat \<Rightarrow> bool" where
  "idle_at s a \<equiv> in_states s [Blocked, Ready] a"

definition waiting_ok :: "'v scheduler \<Rightarrow> bool" where
  "waiting_ok s \<longleftrightarrow> distinct (sd_waiting s) \<and> (\<forall>a. idle_at s a \<longrightarrow> a \<in> set (sd_waiting s))"

definition sizes_of :: "'v scheduler \<Rightarrow> nat \<Rightarrow> js_number option" where
  "sizes_of s a = map_option en_inputBytes (entry_at s a)"

definition shrinks :: "'v scheduler \<Rightarrow> 'v scheduler \<Rightarrow> bool" where
  "shrinks s s' \<longleftrightarrow> sizes_of s' = sizes_of s \<and> sd_limits s' = sd_limits s \<and> sd_arrival s' = sd_arrival s \<and>
     (waiting_ok s \<longrightarrow> waiting_ok s' \<and> set (sd_waiting s') \<subseteq> set (sd_waiting s))"

lemma shrinks_refl [simp]: "shrinks s s"
  by (simp add: shrinks_def)

lemma shrinks_trans: "shrinks s t \<Longrightarrow> shrinks t u \<Longrightarrow> shrinks s u"
  by (auto simp: shrinks_def)

lemma shrinks_foldl: "(\<And>s x. shrinks s (f s x)) \<Longrightarrow> shrinks s (foldl f s xs)"
  by (induction xs arbitrary: s) (auto intro: shrinks_trans)

lemma idle_iff: "idle_at s a \<longleftrightarrow> state_at s a = Some Blocked \<or> state_at s a = Some Ready"
  by (auto simp: in_states_def split: option.splits)

text \<open>An operation that makes nothing idle and leaves the queue alone, or takes out what is not idle.\<close>

lemma shrinksI:
  assumes "sizes_of s' = sizes_of s" "\<And>b. idle_at s' b \<Longrightarrow> idle_at s b" "sd_waiting s' = sd_waiting s"
    "sd_limits s' = sd_limits s" "sd_arrival s' = sd_arrival s"
  shows "shrinks s s'"
  using assms by (simp add: shrinks_def waiting_ok_def)

lemma shrinks_unwait: "\<not> idle_at s a \<Longrightarrow> shrinks s (unwait a s)"
  by (auto simp: shrinks_def waiting_ok_def unwait_def sizes_of_def in_states_def state_at_def)

lemma sizes_on_entry: "(\<And>e. en_inputBytes (f e) = en_inputBytes e) \<Longrightarrow> sizes_of (on_entry a f s) = sizes_of s"
  by (auto simp: sizes_of_def on_entry_def option.map_comp comp_def)

lemma state_on_entry:
  "state_at (on_entry a f s) b = (if b = a then map_option (\<lambda>e. en_state (f e)) (entry_at s a) else state_at s b)"
  by (simp add: state_at_def on_entry_def option.map_comp comp_def)

lemma shrinks_on_entry:
  assumes "\<And>e. en_inputBytes (f e) = en_inputBytes e" "\<And>e. en_state (f e) \<in> {Blocked, Ready} \<Longrightarrow> en_state e \<in> {Blocked, Ready}"
  shows "shrinks s (on_entry a f s)"
proof (rule shrinksI)
  show "idle_at s b" if "idle_at (on_entry a f s) b" for b
    using that assms(2) unfolding idle_iff state_on_entry
    by (cases "entry_at s a"; cases "b = a") (auto simp: state_at_def)
qed (rule sizes_on_entry, rule assms(1), simp_all add: on_entry_def)

lemma shrinks_fields:
  "shrinks s (s\<lparr>sd_refused := n\<rparr>)" "shrinks s (s\<lparr>sd_settledNonCompleted := n\<rparr>)" "shrinks s (s\<lparr>sd_ledger := l\<rparr>)"
  "shrinks s (s\<lparr>sd_promotions := n\<rparr>)" "shrinks s (s\<lparr>sd_tree := t\<rparr>)" "shrinks s (s\<lparr>sd_completed := n\<rparr>)"
  "shrinks s (s\<lparr>sd_held := h, sd_running := r\<rparr>)"
  by (rule shrinksI; simp add: sizes_of_def in_states_def state_at_def fun_eq_iff)+

lemma shrinks_refuse: "shrinks s (refuse_entry a f s)"
  unfolding refuse_entry_def by (rule shrinks_trans [OF shrinks_on_entry shrinks_fields(1)]) simp_all

lemma shrinks_settle: "shrinks s (settle_entry a out s)"
  unfolding settle_entry_def by (rule shrinks_trans [OF shrinks_on_entry shrinks_fields(2)]) simp_all

lemma shrinks_all:
  assumes "\<And>e. en_inputBytes (f e) = en_inputBytes e" "\<And>e. en_state (f e) = en_state e"
  shows "shrinks s (s\<lparr>sd_entries := js_modify_all f ks (sd_entries s)\<rparr>)"
  by (rule shrinksI)
    (simp_all add: sizes_of_def in_states_def state_at_def js_get_modify_all_quiet assms fun_eq_iff)

lemma shrinks_launch: "shrinks s (launch a e r s)"
proof -
  let ?s = "on_entry a (\<lambda>e. e\<lparr>en_state := Running, en_reservation := r\<rparr>)
    (s\<lparr>sd_held := acquire (en_keys e) (sd_held s), sd_running := sd_running s + 1\<rparr>)"
  have "shrinks s ?s" by (rule shrinks_trans [OF shrinks_fields(7) shrinks_on_entry]) simp_all
  moreover have "\<not> idle_at ?s a" by (auto simp: idle_iff state_on_entry)
  then have "shrinks ?s (unwait a ?s)" by (rule shrinks_unwait)
  moreover have "shrinks t (pass_over t)" for t :: "'a scheduler" unfolding pass_over_def by (rule shrinks_all) simp_all
  ultimately show ?thesis unfolding launch_def by (blast intro: shrinks_trans)
qed

lemma shrinks_start: "shrinks s (start_entry admission reservationId a s)"
proof -
  have "shrinks s (launch a e r (s\<lparr>sd_ledger := l\<rparr>))" "shrinks s (refuse_entry a f (s\<lparr>sd_ledger := l\<rparr>))" for e r l f
    by (rule shrinks_trans [OF shrinks_fields(3)], rule shrinks_launch shrinks_refuse)+
  then show ?thesis
    unfolding start_entry_def
    by (auto split: option.splits admission.splits prod.splits result.splits
        intro!: shrinks_launch shrinks_refuse shrinks_on_entry)
qed

lemma shrinks_admit: "shrinks s (fst (admit_one admit rid (s, skipped) a))"
  using shrinks_start shrinks_trans [OF shrinks_fields(4) shrinks_start]
  by (auto simp: admit_one_def Let_def split: option.splits)

lemma shrinks_admit_fold: "shrinks s (fst (foldl (admit_one admit rid) (s, skipped) as))"
proof (induction "as" arbitrary: s skipped)
  case (Cons a as)
  obtain s1 sk where "admit_one admit rid (s, skipped) a = (s1, sk)" by fastforce
  with shrinks_admit [of s admit rid skipped a] Cons.IH [of s1 sk] show ?case by (auto intro: shrinks_trans)
qed simp

lemma shrinks_lock_fold: "shrinks s (fst (foldl (lock_timeout_one now) (s, any) ds))"
proof (induction ds arbitrary: s any)
  case (Cons d ds)
  obtain s1 any1 where one: "lock_timeout_one now (s, any) d = (s1, any1)" by fastforce
  then have "shrinks s s1"
    using shrinks_refuse by (cases d) (auto simp: lock_timeout_one_def split: if_splits option.splits)
  with one Cons.IH [of s1 any1] show ?case by (auto intro: shrinks_trans)
qed simp

lemma shrinks_expire: "shrinks s (expire_one_entry now s a)"
proof -
  have "\<not> idle_at (settle_entry a out s) a" for out
    by (auto simp: settle_entry_def idle_iff state_at_def on_entry_def)
  then have "shrinks s (unwait a (settle_entry a out s))" for out
    by (intro shrinks_trans [OF shrinks_settle shrinks_unwait])
  then show ?thesis by (auto simp: expire_one_entry_def split: option.splits)
qed

lemma shrinks_promote: "shrinks s (promote_one now gen s a)"
proof (cases "entry_at s a")
  case (Some e)
  have "shrinks s (on_entry a (\<lambda>e. e\<lparr>en_state := Ready, en_readySince := Some now\<rparr>) s)" if "en_state e = Blocked"
  proof (rule shrinksI)
    show "idle_at s b" if "idle_at (on_entry a (\<lambda>e. e\<lparr>en_state := Ready, en_readySince := Some now\<rparr>) s) b" for b
      using that Some \<open>en_state e = Blocked\<close> unfolding idle_iff state_on_entry
      by (cases "b = a") (auto simp: state_at_def)
  qed (rule sizes_on_entry, simp, simp_all add: on_entry_def)
  with Some show ?thesis by (auto simp: promote_one_def shrinks_refuse split: option.splits)
qed (simp add: promote_one_def)

lemma shrinks_abort: "shrinks s (abort_one s a)"
  by (simp add: abort_one_def shrinks_settle)

text \<open>Re-adding an entry that is blocked or ready finds it in the queue already.\<close>

lemma shrinks_sync: "shrinks s (sync_one s a)"
proof (cases "in_states s [Ready, Blocked] a")
  case True
  then have "idle_at s a" by (auto simp: in_states_def split: option.splits)
  then have "shrinks s (wait_for a s)"
    by (auto simp: shrinks_def waiting_ok_def wait_for_def sizes_of_def in_states_def state_at_def)
  with True show ?thesis by (simp add: sync_one_def)
next
  case False
  then have "\<not> idle_at s a" by (auto simp: in_states_def split: option.splits)
  with False show ?thesis by (simp add: sync_one_def shrinks_unwait)
qed

lemma shrinks_iterate: "shrinks s (fst (iterate now admit rid gen aborted s))"
proof -
  define s1 where "s1 = foldl (expire_one_entry now) s gen"
  define s2 where "s2 = foldl (promote_one now gen) s1 gen"
  obtain s3 skipped where s3: "foldl (admit_one admit rid) (s2, []) (ordered_ready s2 gen) = (s3, skipped)" by fastforce
  define s4 where "s4 = foldl sync_one s3 gen"
  obtain s5 any where s5: "foldl (lock_timeout_one now) (s4, False) (lock_deadlines s4 skipped) = (s5, any)" by fastforce
  have "shrinks s s1" "shrinks s1 s2" "shrinks s3 s4"
    unfolding s1_def s2_def s4_def by (rule shrinks_foldl, rule shrinks_expire shrinks_promote shrinks_sync)+
  moreover have "shrinks s2 s3" "shrinks s4 s5"
    using shrinks_admit_fold [of s2 admit rid "[]" "ordered_ready s2 gen"] shrinks_lock_fold [of s4 now False "lock_deadlines s4 skipped"]
    by (simp_all add: s3 s5)
  ultimately have "shrinks s s5" by (blast intro: shrinks_trans)
  moreover have "shrinks s (foldl abort_one s gen)" by (rule shrinks_foldl) (rule shrinks_abort)
  moreover have "fst (iterate now admit rid gen aborted s) \<in> {s, foldl abort_one s gen, s5}"
    unfolding iterate_def s1_def [symmetric] Let_def s2_def [symmetric] s3 prod.case s4_def [symmetric] s5
    by simp
  ultimately show ?thesis by auto
qed

lemma shrinks_conclude:
  assumes "all_settled s gen"
  shows "shrinks s (conclude gen s)"
  using assms unfolding conclude_def
proof (induction gen arbitrary: s)
  case (Cons a gen)
  have "\<not> idle_at s a" using Cons.prems by (auto simp: all_settled_def in_states_def split: option.splits)
  then have "shrinks s (unwait a s)" by (rule shrinks_unwait)
  moreover have "all_settled (unwait a s) gen"
    using Cons.prems by (simp add: all_settled_def in_states_def state_at_def unwait_def)
  ultimately show ?case using Cons.IH [of "unwait a s"] by (auto intro: shrinks_trans)
qed simp

lemma shrinks_finish: "shrinks s (finish now raced a s)"
proof (cases "entry_at s a")
  case (Some e)
  have fields: "shrinks s (s\<lparr>sd_held := h, sd_running := r, sd_ledger := l, sd_tree := t\<rparr>)" for h r l t
    by (rule shrinksI) (simp_all add: sizes_of_def in_states_def state_at_def fun_eq_iff)
  have completed: "shrinks x ((on_entry a (\<lambda>e. e\<lparr>en_state := Settled, en_result := Some (Completed_Unit (wu_id (en_unit e)) v)\<rparr>) x)
      \<lparr>sd_completed := n\<rparr>)" for x :: "'a scheduler" and v n
    by (rule shrinks_trans [OF shrinks_on_entry shrinks_fields(6)]) simp_all
  show ?thesis
    unfolding finish_def Some option.case Let_def
    by (cases raced; simp only: raced.case; rule shrinks_trans [OF fields]; rule completed shrinks_settle)
qed (simp add: finish_def)

section \<open>The invariant\<close>

definition item_limit :: "scheduler_limits \<Rightarrow> int" where
  "item_limit limits = (case sl_maxQueued limits of None \<Rightarrow> MAX_SAFE_INTEGER | Some n \<Rightarrow> n)"

definition byte_limit :: "scheduler_limits \<Rightarrow> int" where
  "byte_limit limits = (case sl_maxQueuedBytes limits of None \<Rightarrow> MAX_SAFE_INTEGER | Some n \<Rightarrow> n)"

definition waiting_inv :: "'v scheduler \<Rightarrow> bool" where
  "waiting_inv s \<longleftrightarrow>
     waiting_ok s \<and> (\<forall>a \<in> set (sd_waiting s). a < sd_arrival s) \<and> (\<forall>a n. sizes_of s a = Some n \<longrightarrow> 0 \<le> int_of n) \<and>
     int (length (sd_waiting s)) \<le> max 0 (item_limit (sd_limits s)) \<and>
     queued_bytes s \<le> max 0 (byte_limit (sd_limits s))"

lemma queued_bytes_set:
  assumes "distinct (sd_waiting s)"
  shows "queued_bytes s = (\<Sum>a \<in> set (sd_waiting s). case sizes_of s a of None \<Rightarrow> 0 | Some n \<Rightarrow> int_of n)"
proof -
  have "queued_bytes s = (\<Sum>a\<leftarrow>sd_waiting s. case sizes_of s a of None \<Rightarrow> 0 | Some n \<Rightarrow> int_of n)"
    unfolding queued_bytes_def sizes_of_def
    by (rule arg_cong [where f = sum_list], rule map_cong) (auto split: option.splits)
  then show ?thesis using assms by (simp add: sum_list_distinct_conv_sum_set)
qed

lemma shrinks_inv:
  assumes "shrinks s s'" "waiting_inv s"
  shows "waiting_inv s'"
proof -
  have ok: "waiting_ok s" "waiting_ok s'" and sub: "set (sd_waiting s') \<subseteq> set (sd_waiting s)"
    and same: "sizes_of s' = sizes_of s" "sd_limits s' = sd_limits s" "sd_arrival s' = sd_arrival s"
    using assms by (auto simp: shrinks_def waiting_inv_def)
  have "length (sd_waiting s') \<le> length (sd_waiting s)"
    using ok sub by (metis List.finite_set card_mono distinct_card waiting_ok_def)
  moreover have "queued_bytes s' \<le> queued_bytes s"
    using ok sub assms(2) unfolding waiting_ok_def
    by (simp add: queued_bytes_set same) (rule sum_mono2, auto simp: waiting_inv_def split: option.splits)
  ultimately show ?thesis using assms(2) ok(2) sub unfolding waiting_inv_def same by force
qed

section \<open>Submitting\<close>

definition work_size :: "scheduled_work \<Rightarrow> js_number" where
  "work_size w = (case sw_inputBytes w of None \<Rightarrow> JInt 0 | Some n \<Rightarrow> n)"

lemma new_entry_size [simp]: "en_inputBytes (new_entry now a w) = work_size w"
  by (simp add: new_entry_def work_size_def)

lemma entry_sizes:
  "map (\<lambda>(a, e). en_inputBytes e) (map (\<lambda>(a, w). (a, new_entry now a w)) (enumerate n work)) = map work_size work"
  by (rule nth_equalityI) (simp_all add: nth_enumerate_eq)

lemma open_accepts:
  assumes "open_generation now work s = Some (s', r)" "s' \<noteq> s\<lparr>sd_arrival := sd_arrival s + length work, sd_refused := sd_refused s + length work\<rparr>"
  shows "s' = queue_generation now work s" "\<not> item_refusal s (length work)" "\<not> byte_refusal s (map work_size work)"
proof -
  let ?s = "s\<lparr>sd_arrival := sd_arrival s + length work\<rparr>"
  have same: "item_refusal ?s = item_refusal s" "byte_refusal ?s = byte_refusal s"
    by (simp_all add: fun_eq_iff item_refusal_def byte_refusal_def queued_bytes_def)
  show "s' = queue_generation now work s" using open_generation_cases [OF assms(1)] assms(2) by blast
  show "\<not> item_refusal s (length work)" "\<not> byte_refusal s (map work_size work)"
    using assms unfolding open_generation_def Let_def entry_sizes same
    by (auto split: option.splits if_splits)
qed

lemma queue_generation_inv:
  assumes glue: "glue s" and inv: "waiting_inv s"
    and room: "\<not> item_refusal s (length work)" "\<not> byte_refusal s (map work_size work)"
  shows "waiting_inv (queue_generation now work s)"
proof -
  let ?s = "queue_generation now work s" and ?gen = "[sd_arrival s ..< sd_arrival s + length work]"
  have old: "\<forall>a \<in> set (sd_waiting s). a < sd_arrival s" using inv by (simp add: waiting_inv_def)
  have waiting: "sd_waiting ?s = sd_waiting s @ ?gen"
    by (simp add: queue_generation_def Let_def queued_gen del: map_map)
  have state: "state_at ?s a = (if a < sd_arrival s then state_at s a else if a \<in> set ?gen then Some Blocked else None)" for a
    using queue_generation_at [OF glue, of now work a] by (simp add: state_at_def)
  have size: "sizes_of ?s a = (if a < sd_arrival s then sizes_of s a
      else if a \<in> set ?gen then Some (work_size (work ! (a - sd_arrival s))) else None)" for a
    using queue_generation_at [OF glue, of now work a] by (simp add: sizes_of_def)
  have ok: "waiting_ok ?s"
    using inv old unfolding waiting_inv_def waiting_ok_def idle_iff state waiting by (fastforce split: if_splits)
  have valid: "0 \<le> int_of (work_size w)" if "w \<in> set work" for w
    using room(2) that by (force simp: byte_refusal_def list_ex_iff)
  then have sizes: "0 \<le> int_of n" if "sizes_of ?s a = Some n" for a n
    using that inv unfolding size waiting_inv_def by (auto split: if_splits)
  have "queued_bytes ?s = queued_bytes s + (\<Sum>w\<leftarrow>work. int_of (work_size w))"
  proof -
    have "map (\<lambda>a. case entry_at ?s a of None \<Rightarrow> 0 | Some e \<Rightarrow> int_of (en_inputBytes e)) (sd_waiting s) =
        map (\<lambda>a. case entry_at s a of None \<Rightarrow> 0 | Some e \<Rightarrow> int_of (en_inputBytes e)) (sd_waiting s)"
      using old by (simp add: queue_generation_at [OF glue])
    moreover have "map (\<lambda>a. case entry_at ?s a of None \<Rightarrow> 0 | Some e \<Rightarrow> int_of (en_inputBytes e)) ?gen =
        map (\<lambda>w. int_of (work_size w)) work"
      by (rule nth_equalityI) (simp_all add: queue_generation_at [OF glue])
    ultimately show ?thesis unfolding queued_bytes_def waiting by (simp only: map_append sum_list.append)
  qed
  then have "queued_bytes ?s \<le> max 0 (byte_limit (sd_limits s))"
    using room(2) by (auto simp: byte_refusal_def byte_limit_def comp_def)
  moreover have "int (length (sd_waiting ?s)) \<le> max 0 (item_limit (sd_limits s))"
    using room(1) by (auto simp: item_refusal_def item_limit_def waiting)
  ultimately show ?thesis
    using ok sizes old unfolding waiting_inv_def queue_generation_sel by (auto simp: waiting)
qed

lemma sched_step_queue:
  assumes "sched_step s s'" "glue s" "waiting_inv s"
  shows "waiting_inv s'"
  using assms(1)
proof cases
  case (sch_open now work r)
  let ?refused = "s\<lparr>sd_arrival := sd_arrival s + length work, sd_refused := sd_refused s + length work\<rparr>"
  have "queued_bytes ?refused = queued_bytes s" "sizes_of ?refused = sizes_of s" "idle_at ?refused = idle_at s"
    by (simp_all add: fun_eq_iff queued_bytes_def sizes_of_def in_states_def state_at_def)
  then have "waiting_inv ?refused" using assms(3) by (auto simp: waiting_inv_def waiting_ok_def)
  with open_accepts [OF sch_open] queue_generation_inv [OF assms(2,3)] show ?thesis by metis
next
  case (sch_abort gen)
  have "shrinks s s'" unfolding sch_abort by (rule shrinksI) (simp_all add: sizes_of_def in_states_def state_at_def fun_eq_iff)
  then show ?thesis using assms(3) by (rule shrinks_inv)
next
  case (sch_partial a v)
  have "shrinks s s'" unfolding sch_partial report_partial_def by (rule shrinks_on_entry) simp_all
  then show ?thesis using assms(3) by (rule shrinks_inv)
next
  case (sch_capacity gen)
  have "shrinks s s'" unfolding sch_capacity by (rule shrinks_all) simp_all
  then show ?thesis using assms(3) by (rule shrinks_inv)
qed (hypsubst, rule shrinks_inv, ((rule shrinks_conclude, assumption) | rule shrinks_iterate shrinks_finish shrinks_fields), rule assms(3))+

interpretation queues: safety_machine "sched_start L" sched_step "\<lambda>s. sched_inv L s \<and> waiting_inv s"
proof unfold_locales
  fix s :: "'a scheduler" assume start: "sched_start L s"
  then have "waiting_inv s"
    by (auto simp: sched_start_def createScheduler_def waiting_inv_def waiting_ok_def sizes_of_def in_states_def state_at_def queued_bytes_def)
  with scheds.inv_start [OF start] show "sched_inv L s \<and> waiting_inv s" by simp
next
  fix s s' :: "'a scheduler" assume "sched_inv L s \<and> waiting_inv s" "sched_step s s'"
  then show "sched_inv L s' \<and> waiting_inv s'"
    using scheds.inv_step [of L s s'] sched_step_queue [of s s'] by (simp add: sched_inv_def)
qed

section \<open>Property\<close>

text \<open>
  The queue is bounded at all times: no more units wait than the limit allows, counting each once, their
  input sizes together stay within the byte limit, and every unit that is blocked or ready is among them.
\<close>

theorem scheduler_queue_is_bounded:
  assumes "reachable (sched_start L) sched_step s"
  shows "rp_queued (report_scheduler s) = card (set (sd_waiting s)) \<and>
    int (rp_queued (report_scheduler s)) \<le> max 0 (case sl_maxQueued L of None \<Rightarrow> MAX_SAFE_INTEGER | Some n \<Rightarrow> n) \<and>
    queued_bytes s \<le> max 0 (case sl_maxQueuedBytes L of None \<Rightarrow> MAX_SAFE_INTEGER | Some n \<Rightarrow> n) \<and>
    {a. state_at s a = Some Blocked \<or> state_at s a = Some Ready} \<subseteq> set (sd_waiting s)"
proof -
  have inv: "sched_inv L s" "waiting_inv s" using queues.always [OF assms] by simp_all
  then have "sd_limits s = L" by (simp add: sched_inv_def)
  with inv(2) show ?thesis
    by (auto simp: waiting_inv_def waiting_ok_def report_scheduler_def item_limit_def byte_limit_def idle_iff distinct_card)
qed

theorem scheduler_queue_is_bounded_witness:
  "int (rp_queued (report_scheduler demo_open)) \<le> MAX_SAFE_INTEGER \<and> rp_queued (report_scheduler demo_open) = 2"
proof -
  have "sl_maxQueued DEFAULT_SCHEDULER_LIMITS = None" by (simp add: DEFAULT_SCHEDULER_LIMITS_def)
  moreover have "rp_queued (report_scheduler demo_open) = 2" by code_simp
  ultimately show ?thesis
    using scheduler_queue_is_bounded [OF sched_demo_reachable(1)] by (simp add: MAX_SAFE_INTEGER_def)
qed

end
