(* ===== verification/Scheduler_Scopes.thy ===== *)
theory Scheduler_Scopes
  imports Scheduler_Promises Scope_Promises
begin

text \<open>
  The scheduler and the scope tree together: what a unit did to the world reaches the tree when the
  unit settles, whether its scope still lives, has settled before, or has left only a tombstone.
\<close>

lemma applyEffect_reaches:
  assumes "sn_scopeId n = i" "js_get (st_nodes t) i = Some n"
  shows "\<exists>m. js_get (st_nodes (applyEffect n e now t)) i = Some m \<and> e \<le> sn_effect m"
proof (cases "worstEffect (sn_effect n) e = sn_effect n")
  case True
  then have "e \<le> sn_effect n" by (metis max.cobounded2 worst.join_max)
  with True assms show ?thesis by (simp add: applyEffect_def)
next
  case False
  then have "js_get (st_nodes (applyEffect n e now t)) i = Some (n\<lparr>sn_effect := worstEffect (sn_effect n) e\<rparr>)"
    using assms(1) by (simp add: applyEffect_def Let_def put_node_def)
  then show ?thesis by (simp add: worst.join_max)
qed

text \<open>What recording an effect on a scope did, for every standing the scope may have by then.\<close>

definition effect_reached :: "scope_tree \<Rightarrow> scope_tree \<Rightarrow> scope_id \<Rightarrow> effect_certainty \<Rightarrow> bool" where
  "effect_reached t t' i effect \<longleftrightarrow> (case js_get (st_nodes t) i of
       Some n \<Rightarrow>
         if is_terminal (sn_state n)
         then \<forall>k. (link False t)\<^sup>+\<^sup>+ k i \<longrightarrow> (\<exists>m. js_get (st_nodes t') k = Some m \<and> effect \<le> sn_settledDescendantEffect m)
         else \<exists>m. js_get (st_nodes t') i = Some m \<and> effect \<le> sn_effect m
     | None \<Rightarrow> (case js_get (st_tombstones t) i of
         Some ids \<Rightarrow> \<forall>k \<in> set ids. js_get (st_nodes t) k \<noteq> None \<longrightarrow>
           (\<exists>m. js_get (st_nodes t') k = Some m \<and> effect \<le> sn_settledDescendantEffect m)
       | None \<Rightarrow> t' = t))"

lemma fold_ids_reaches:
  assumes "k \<in> set ids" "js_get (st_nodes t) k \<noteq> None"
  shows "\<exists>m. js_get (st_nodes (fst (foldIntoAncestorIds ids e t))) k = Some m \<and> e \<le> sn_settledDescendantEffect m"
  using assms by (auto simp: fold_ids_get raise_node_def worst.join_max)

lemma recordOnScope_reaches:
  assumes links: "links_ok (st_nodes t)" and u: "wu_scopeId u = Some i"
  shows "\<exists>t'. recordOnScope now u outcome (Some t) = Some t' \<and> effect_reached t t' i (effectOf outcome)"
proof (cases "js_get (st_nodes t) i")
  case None
  have "recordOnScope now u outcome (Some t) = Some (fst (recordLateEffect t now i (effectOf outcome)))"
    using None u by (simp add: recordOnScope_def recordEffect_def requireNode_def)
  moreover have "effect_reached t (fst (recordLateEffect t now i (effectOf outcome))) i (effectOf outcome)"
    using None fold_ids_reaches
    by (auto simp: effect_reached_def recordLateEffect_def case_prod_unfold Let_def split: option.splits)
  ultimately show ?thesis by blast
next
  case (Some n)
  show ?thesis
  proof (cases "is_terminal (sn_state n)")
    case False
    have "sn_scopeId n = i" by (rule links_ok_id [OF links Some])
    from applyEffect_reaches [OF this Some, of "effectOf outcome" now] False Some u show ?thesis
      by (intro exI [of _ "applyEffect n (effectOf outcome) now t"])
        (simp add: recordOnScope_def recordEffect_def requireNode_def effect_reached_def)
  next
    case True
    let ?t = "fst (foldIntoAncestorIds (ancestorIdsOf t n) (effectOf outcome) t)"
    have anc: "set (ancestorIdsOf t n) = {a. (link False t)\<^sup>+\<^sup>+ a i}" by (rule ancestors_spec(1) [OF links Some])
    have "\<exists>m. js_get (st_nodes ?t) k = Some m \<and> effectOf outcome \<le> sn_settledDescendantEffect m"
      if k: "(link False t)\<^sup>+\<^sup>+ k i" for k
    proof (rule fold_ids_reaches)
      show "k \<in> set (ancestorIdsOf t n)" using k anc by blast
      show "js_get (st_nodes t) k \<noteq> None" using tranclpD [OF k] links by (auto simp: link_def elim: links_ok_parent)
    qed
    moreover have "recordOnScope now u outcome (Some t) = Some ?t"
      using True Some u by (simp add: recordOnScope_def recordEffect_def requireNode_def recordLateEffect_def
          foldIntoAncestors_def case_prod_unfold Let_def)
    ultimately show ?thesis using Some True by (auto simp: effect_reached_def)
  qed
qed

section \<open>Property\<close>

text \<open>
  C28. A unit that settles tells the scope tree what it did, as far as the tree still knows the unit's scope.
  If the scope is live, its recorded effect is at least the effect of the outcome; if the scope has settled
  and is retained, the effect reaches every ancestor; if it has been evicted and its tombstone is kept, the
  effect reaches every ancestor the tombstone names that is still there; if the tombstone has been trimmed
  too, the tree stays as it was and the effect is not attributed. A unit that is not an observation and did
  not complete counts as uncertain.
\<close>

theorem finished_unit_reports_its_effect:
  assumes "reachable tree_start scope_step t" and "sd_tree s = Some t" and "entry_at s a = Some e"
    and "wu_scopeId (en_unit e) = Some i"
  shows "\<exists>t' effect. sd_tree (finish now raced a s) = Some t' \<and> effect = effectOf (raced_outcome (en_unit e) raced) \<and>
    (wu_effect (en_unit e) \<noteq> Observation \<and> (\<forall>v. raced \<noteq> Raced_Value v) \<longrightarrow> effect = Eff_Uncertain) \<and>
    effect_reached t t' i effect"
proof -
  have "links_ok (st_nodes t)" using scopes.always [OF assms(1)] by (simp add: tree_inv_def core_inv_def)
  from recordOnScope_reaches [OF this assms(4), of now "raced_outcome (en_unit e) raced"]
  obtain t' where t': "recordOnScope now (en_unit e) (raced_outcome (en_unit e) raced) (Some t) = Some t'"
    "effect_reached t t' i (effectOf (raced_outcome (en_unit e) raced))" by blast
  have "sd_tree (finish now raced a s) = Some t'"
    using assms(2,3) t'(1) by (cases raced) (simp_all add: finish_def Let_def settle_entry_def on_entry_def)
  moreover have "effectOf (raced_outcome (en_unit e) raced) = Eff_Uncertain"
    if "wu_effect (en_unit e) \<noteq> Observation" "\<forall>v. raced \<noteq> Raced_Value v"
    using that by (cases raced) (simp_all add: stoppedEffect_def)
  ultimately show ?thesis using t'(2) by auto
qed

definition demo_scoped :: "scope_tree \<Rightarrow> int scheduler" where
  "demo_scoped t = on_entry 0 (\<lambda>e. e\<lparr>en_unit := (en_unit e)\<lparr>wu_scopeId := Some ''t''\<rparr>\<rparr>) (demo_first\<lparr>sd_tree := Some t\<rparr>)"

theorem finished_unit_reports_its_effect_witness:
  "\<exists>t' m. sd_tree (finish 9 Raced_Aborted 0 (demo_scoped demo_turn)) = Some t' \<and>
     js_get (st_nodes t') ''t'' = Some m \<and> Eff_Uncertain \<le> sn_effect m"
proof -
  let ?s = "demo_scoped demo_turn"
  obtain e0 where e0: "entry_at demo_first 0 = Some e0" using demo_states(2) by (auto simp: state_at_def)
  then have e: "entry_at ?s 0 = Some (e0\<lparr>en_unit := (en_unit e0)\<lparr>wu_scopeId := Some ''t''\<rparr>\<rparr>)"
    by (simp add: demo_scoped_def on_entry_def)
  have "map_option (\<lambda>e. wu_effect (en_unit e)) (entry_at demo_first 0) = Some Mutation" by code_simp
  then have u: "wu_effect (en_unit e0) = Mutation" using e0 by simp
  have "map_option sn_state (js_get (st_nodes demo_turn) ''t'') = Some Active" by code_simp
  then obtain n where n: "js_get (st_nodes demo_turn) ''t'' = Some n" "sn_state n = Active" by auto
  have "sd_tree ?s = Some demo_turn" by (simp add: demo_scoped_def on_entry_def)
  from finished_unit_reports_its_effect [OF tree_demo_reachable(3) this e, where now = 9 and raced = Raced_Aborted and i = "''t''"]
  show ?thesis using n u by (auto simp: effect_reached_def)
qed

end
