(* ===== verification/Js_Points.thy ===== *)
theory Js_Points
  imports Js_Text
begin

text \<open>
  The code points of a JavaScript string: a high surrogate followed by a low one is one point, every
  other unit is a point of its own. \<open>points\<close> keeps each as the list of its units.
\<close>

definition is_high :: "code_unit \<Rightarrow> bool" where "is_high u \<longleftrightarrow> 0xD800 \<le> u \<and> u \<le> 0xDBFF"
definition is_low :: "code_unit \<Rightarrow> bool" where "is_low u \<longleftrightarrow> 0xDC00 \<le> u \<and> u \<le> 0xDFFF"

fun points :: "js_text \<Rightarrow> js_text list" where
  "points [] = []"
| "points [u] = [[u]]"
| "points (u # v # s) = (if is_high u \<and> is_low v then [u, v] # points s else [u] # points (v # s))"

text \<open>\<open>Buffer.byteLength\<close>: the length of the string in UTF-8, a lone surrogate counted as U+FFFD.\<close>

fun point_bytes :: "js_text \<Rightarrow> nat" where
  "point_bytes [u] = (if u < 0x80 then 1 else if u < 0x800 then 2 else 3)"
| "point_bytes _ = 4"

definition byteLength :: "js_text \<Rightarrow> nat" where
  "byteLength s = sum_list (map point_bytes (points s))"

lemma points_units [simp]: "concat (points s) = s"
  by (induction s rule: points.induct) auto

lemma points_inj: "points s = points t \<longleftrightarrow> s = t"
  by (metis points_units)

lemma points_append_plain:
  assumes "\<not> is_high u" "\<not> is_low u"
  shows "points (s @ u # t) = points s @ [u] # points t"
  using assms
proof (induction s rule: points.induct)
  case (2 v)
  then show ?case by (cases t) auto
next
  case (3 v w s)
  then show ?case by auto
qed (cases t; auto)

text \<open>What the points of a string look like.\<close>

definition point_ok :: "js_text \<Rightarrow> bool" where
  "point_ok p \<longleftrightarrow> (\<exists>u. p = [u]) \<or> (\<exists>u v. p = [u, v] \<and> is_high u \<and> is_low v)"

lemma points_ok: "p \<in> set (points s) \<Longrightarrow> point_ok p"
  by (induction s rule: points.induct) (auto simp: point_ok_def split: if_splits)

end
