(* ===== verification/Edit_Scope.thy ===== *)
theory Edit_Scope
  imports Work_Units Js_Points "HOL-Library.List_Lexorder"
begin

text \<open>
  Child edit scopes (\<^verbatim>\<open>src/domain/orchestration/edit-scope.ts\<close>): which workspace paths a delegated
  child may write. A scope is a list of workspace-relative prefixes whose segments may use \<open>*\<close> and
  \<open>?\<close>; no scope means everything. Strings are UTF-16 code units. The regular expressions the code
  builds carry the \<open>u\<close> flag, so \<open>?\<close> stands for one code point: \<open>points\<close> cuts a string into code
  points, each the list of its one or two units.
\<close>

section \<open>Definitions\<close>

definition EDIT_SCOPE_PATTERNS :: nat where "EDIT_SCOPE_PATTERNS = 64"
definition EDIT_SCOPE_BYTES :: nat where "EDIT_SCOPE_BYTES = 1024"

type_synonym edit_scope = "js_text list option"

datatype edit_scope_refusal = Edit_Scope_Violation | Edit_Scope_Boundary | Edit_Scope_Unenforceable
datatype edit_scope_invalid = Edit_Scope_Invalid
datatype write_class = Writes_None | Writes_Paths | Writes_Sandbox | Writes_Unbounded

record write_targets =
  wt_paths :: "js_text list"
  wt_moves :: "(js_text \<times> js_text) list"

abbreviation star :: code_unit where "star \<equiv> 42"
abbreviation question :: code_unit where "question \<equiv> 63"

definition is_glob :: "js_text \<Rightarrow> bool" where
  "is_glob s \<longleftrightarrow> star \<in> set s \<or> question \<in> set s"

definition segments :: "js_text \<Rightarrow> js_text list" where
  "segments pattern = (if pattern = [] then [] else split_on slash pattern)"

text \<open>Whether the whole text matches the expression built from the glob.\<close>

fun glob_match :: "js_text list \<Rightarrow> js_text list \<Rightarrow> bool" where
  "glob_match [] text \<longleftrightarrow> text = []"
| "glob_match (p # ps) [] \<longleftrightarrow> p = [star] \<and> glob_match ps []"
| "glob_match (p # ps) (t # ts) \<longleftrightarrow>
     (if p = [star] then glob_match ps (t # ts) \<or> t \<noteq> [slash] \<and> glob_match (p # ps) ts
      else if p = [question] then t \<noteq> [slash] \<and> glob_match ps ts
      else t = p \<and> glob_match ps ts)"

definition segmentMatches :: "js_text \<Rightarrow> js_text \<Rightarrow> bool" where
  "segmentMatches glob text \<longleftrightarrow> glob_match (points glob) (points text)"

definition segmentsMayMeet :: "js_text \<Rightarrow> js_text \<Rightarrow> bool" where
  "segmentsMayMeet left right \<longleftrightarrow>
     (if is_glob left \<and> is_glob right then True
      else if is_glob left then segmentMatches left right
      else if is_glob right then segmentMatches right left
      else left = right)"

definition is_letter :: "code_unit \<Rightarrow> bool" where
  "is_letter u \<longleftrightarrow> 97 \<le> u \<and> u \<le> 122 \<or> 65 \<le> u \<and> u \<le> 90"

fun has_drive :: "js_text \<Rightarrow> bool" where
  "has_drive (u # v # _) \<longleftrightarrow> is_letter u \<and> v = colon"
| "has_drive _ \<longleftrightarrow> False"

fun starts_with :: "'a list \<Rightarrow> 'a list \<Rightarrow> bool" where
  "starts_with s [] \<longleftrightarrow> True"
| "starts_with [] (_ # _) \<longleftrightarrow> False"
| "starts_with (x # xs) (y # ys) \<longleftrightarrow> x = y \<and> starts_with xs ys"

definition is_control :: "code_unit \<Rightarrow> bool" where "is_control u \<longleftrightarrow> u \<le> 31"

definition bad_part :: "js_text \<Rightarrow> bool" where
  "bad_part part \<longleftrightarrow> part = [dot, dot] \<or> list_ex (\<lambda>u. u \<in> {91, 93, 123, 125, 33}) part"

fun collect_parts :: "js_text list \<Rightarrow> js_text list \<Rightarrow> js_text list option" where
  "collect_parts parts [] = Some parts"
| "collect_parts parts (part # rest) =
     (if part = [] \<or> part = [dot] then collect_parts parts rest
      else if bad_part part then None
      else collect_parts (parts @ [part]) rest)"

definition normalize_pattern :: "js_text \<Rightarrow> js_text option" where
  "normalize_pattern s =
     (if byteLength s > EDIT_SCOPE_BYTES \<or> list_ex (\<lambda>u. is_control u \<or> u = backslash) s \<or>
         starts_with s [slash] \<or> has_drive s
      then None
      else map_option (join_with slash) (collect_parts [] (split_on slash s)))"

fun normalize_all :: "js_text list \<Rightarrow> js_text list option" where
  "normalize_all [] = Some []"
| "normalize_all (s # raw) =
     (case normalize_pattern s of
        None \<Rightarrow> None
      | Some p \<Rightarrow> map_option (\<lambda>ps. p # ps) (normalize_all raw))"

definition normalizeEditScope :: "js_text list \<Rightarrow> (js_text list, edit_scope_invalid) result" where
  "normalizeEditScope raw =
     (if length raw = 0 \<or> length raw > EDIT_SCOPE_PATTERNS then Err Edit_Scope_Invalid
      else case normalize_all raw of
             None \<Rightarrow> Err Edit_Scope_Invalid
           | Some ps \<Rightarrow> Ok (sort (remdups ps)))"

fun relative_parts :: "js_text list \<Rightarrow> js_text list \<Rightarrow> js_text list option" where
  "relative_parts parts [] = Some parts"
| "relative_parts parts (part # rest) =
     (if part = [] \<or> part = [dot] then relative_parts parts rest
      else if part = [dot, dot]
      then (if length parts = 0 then None else relative_parts (butlast parts) rest)
      else relative_parts (parts @ [part]) rest)"

definition to_slashes :: "js_text \<Rightarrow> js_text" where
  "to_slashes s = map (\<lambda>u. if u = backslash then slash else u) s"

definition is_rooted :: "js_text \<Rightarrow> bool" where
  "is_rooted path \<longleftrightarrow> starts_with path [slash] \<or> has_drive path \<and> length path > 2 \<and> path ! 2 = slash"

definition root_base :: "js_text option \<Rightarrow> js_text" where
  "root_base root = (case root of None \<Rightarrow> [] | Some r \<Rightarrow> rev (dropWhile (\<lambda>u. u = slash) (rev (to_slashes r))))"

text \<open>What is left of a target below the root, or nothing when it is not below it.\<close>

definition below_root :: "js_text option \<Rightarrow> js_text \<Rightarrow> js_text option" where
  "below_root root path =
     (if \<not> is_rooted path then Some path
      else let base = root_base root in
           if base = [] then None
           else if path \<noteq> base \<and> \<not> starts_with path (base @ [slash]) then None
           else Some (drop (length base) path))"

definition workspaceRelative :: "js_text \<Rightarrow> js_text option \<Rightarrow> js_text option" where
  "workspaceRelative target root =
     (if length target = 0 \<or> list_ex is_control target then None
      else case below_root root (to_slashes target) of
             None \<Rightarrow> None
           | Some path \<Rightarrow> map_option (join_with slash) (relative_parts [] (split_on slash path)))"

definition covers :: "js_text \<Rightarrow> js_text \<Rightarrow> bool" where
  "covers part actual \<longleftrightarrow> (if is_glob part then segmentMatches part actual else part = actual)"

definition editScopeContains :: "edit_scope \<Rightarrow> js_text \<Rightarrow> bool" where
  "editScopeContains scope path =
     (case scope of
        None \<Rightarrow> True
      | Some patterns \<Rightarrow>
          list_ex (\<lambda>pattern.
             let prefix = segments pattern; target = segments path in
             length prefix \<le> length target \<and> list_all (\<lambda>(part, actual). covers part actual) (zip prefix target))
            patterns)"

definition narrower :: "js_text \<Rightarrow> js_text \<Rightarrow> bool" where
  "narrower part actual \<longleftrightarrow>
     (if \<not> is_glob part then part = actual
      else actual = part \<or> \<not> is_glob actual \<and> segmentMatches part actual)"

definition editScopeWithin :: "edit_scope \<Rightarrow> edit_scope \<Rightarrow> bool" where
  "editScopeWithin child parent =
     (case parent of
        None \<Rightarrow> True
      | Some outers \<Rightarrow>
          (case child of
             None \<Rightarrow> False
           | Some inners \<Rightarrow>
               list_all (\<lambda>pattern.
                  let inner = segments pattern in
                  list_ex (\<lambda>candidate.
                     let outer = segments candidate in
                     length outer \<le> length inner \<and>
                     list_all (\<lambda>(part, actual). narrower part actual) (zip outer inner)) outers) inners))"

definition editScopesOverlap :: "edit_scope \<Rightarrow> edit_scope \<Rightarrow> bool" where
  "editScopesOverlap left right =
     (case (left, right) of
        (Some ls, Some rs) \<Rightarrow>
          list_ex (\<lambda>a. list_ex (\<lambda>b.
             list_all (\<lambda>(x, y). segmentsMayMeet x y) (zip (segments a) (segments b))) rs) ls
      | _ \<Rightarrow> True)"

definition editScopeDirectories :: "edit_scope \<Rightarrow> js_text list option" where
  "editScopeDirectories scope =
     (case scope of
        None \<Rightarrow> None
      | Some patterns \<Rightarrow> if list_ex is_glob patterns then None else Some patterns)"

definition inside :: "js_text list \<Rightarrow> js_text option \<Rightarrow> js_text \<Rightarrow> bool" where
  "inside patterns root target =
     (case workspaceRelative target root of
        None \<Rightarrow> False
      | Some path \<Rightarrow> editScopeContains (Some patterns) path)"

fun check_moves ::
  "(js_text \<Rightarrow> bool) \<Rightarrow> edit_scope_refusal option \<Rightarrow> (js_text \<times> js_text) list \<Rightarrow>
   edit_scope_refusal + edit_scope_refusal option" where
  "check_moves ins refusal [] = Inr refusal"
| "check_moves ins refusal ((from, to) # moves) =
     (if ins from \<noteq> ins to then Inl Edit_Scope_Boundary
      else check_moves ins (if \<not> ins from then Some Edit_Scope_Violation else refusal) moves)"

definition checkEditScopeWrites ::
  "edit_scope \<Rightarrow> js_text option \<Rightarrow> write_class \<Rightarrow> write_targets option \<Rightarrow> bool \<Rightarrow> edit_scope_refusal option" where
  "checkEditScopeWrites scope root writes targets confined =
     (case scope of
        None \<Rightarrow> None
      | Some patterns \<Rightarrow>
          (case writes of
             Writes_None \<Rightarrow> None
           | Writes_Unbounded \<Rightarrow> Some Edit_Scope_Unenforceable
           | Writes_Sandbox \<Rightarrow>
               if confined \<and> editScopeDirectories scope \<noteq> None then None else Some Edit_Scope_Unenforceable
           | Writes_Paths \<Rightarrow>
               (case targets of
                  None \<Rightarrow> Some Edit_Scope_Unenforceable
                | Some t \<Rightarrow>
                    (case check_moves (inside patterns root) None (wt_moves t) of
                       Inl refusal \<Rightarrow> Some refusal
                     | Inr refusal \<Rightarrow>
                         if list_ex (\<lambda>path. \<not> inside patterns root path) (wt_paths t)
                         then Some Edit_Scope_Violation else refusal))))"

section \<open>Containment, narrowing and overlap\<close>

lemma zip_all:
  "list_all (\<lambda>(x, y). R x y) (zip xs ys) \<longleftrightarrow> (\<forall>i < min (length xs) (length ys). R (xs ! i) (ys ! i))"
  by (simp add: list_all_length)

lemma contains_iff:
  "editScopeContains (Some patterns) path \<longleftrightarrow>
     (\<exists>p \<in> set patterns. length (segments p) \<le> length (segments path) \<and>
        (\<forall>i < length (segments p). covers (segments p ! i) (segments path ! i)))"
  unfolding editScopeContains_def option.case Let_def zip_all by (auto simp: list_ex_iff min_def)

lemma within_iff:
  "editScopeWithin (Some inners) (Some outers) \<longleftrightarrow>
     (\<forall>q \<in> set inners. \<exists>p \<in> set outers. length (segments p) \<le> length (segments q) \<and>
        (\<forall>i < length (segments p). narrower (segments p ! i) (segments q ! i)))"
proof -
  have "editScopeWithin (Some inners) (Some outers) \<longleftrightarrow>
     (\<forall>q \<in> set inners. \<exists>p \<in> set outers. length (segments p) \<le> length (segments q) \<and>
        (\<forall>i < min (length (segments p)) (length (segments q)). narrower (segments p ! i) (segments q ! i)))"
    unfolding editScopeWithin_def option.case Let_def zip_all by (simp add: list_all_iff list_ex_iff)
  also have "\<dots> \<longleftrightarrow> (\<forall>q \<in> set inners. \<exists>p \<in> set outers. length (segments p) \<le> length (segments q) \<and>
        (\<forall>i < length (segments p). narrower (segments p ! i) (segments q ! i)))"
    by (simp add: min_def cong: conj_cong)
  finally show ?thesis .
qed

lemma narrower_covers: "narrower part actual \<Longrightarrow> covers actual x \<Longrightarrow> covers part x"
  by (auto simp: narrower_def covers_def split: if_splits)

lemma covers_meet: "covers a x \<Longrightarrow> covers b x \<Longrightarrow> segmentsMayMeet a b"
  by (auto simp: covers_def segmentsMayMeet_def split: if_splits)

lemma within_contains:
  assumes "editScopeWithin child parent" "editScopeContains child path"
  shows "editScopeContains parent path"
proof (cases parent)
  case None
  then show ?thesis by (simp add: editScopeContains_def)
next
  case (Some outers)
  with assms(1) obtain inners where child: "child = Some inners" by (auto simp: editScopeWithin_def split: option.splits)
  from assms(2) obtain q where q: "q \<in> set inners" "length (segments q) \<le> length (segments path)"
    "\<forall>i < length (segments q). covers (segments q ! i) (segments path ! i)"
    unfolding child contains_iff by blast
  from assms(1) q(1) obtain p where p: "p \<in> set outers" "length (segments p) \<le> length (segments q)"
    "\<forall>i < length (segments p). narrower (segments p ! i) (segments q ! i)"
    unfolding child Some within_iff by blast
  have "covers (segments p ! i) (segments path ! i)" if "i < length (segments p)" for i
    using narrower_covers p(2,3) q(3) that by (meson order_less_le_trans)
  with p(1,2) q(2) show ?thesis unfolding Some contains_iff by (meson order_trans)
qed

lemma within_refl: "editScopeWithin scope scope"
proof (cases scope)
  case (Some ps)
  have "narrower part part" for part by (simp add: narrower_def)
  then show ?thesis unfolding Some within_iff by blast
qed (simp add: editScopeWithin_def)

lemma common_path_overlaps:
  assumes "editScopeContains left path" "editScopeContains right path"
  shows "editScopesOverlap left right"
proof (cases "left = None \<or> right = None")
  case False
  then obtain ls rs where scopes: "left = Some ls" "right = Some rs" by auto
  from assms obtain a b where a: "a \<in> set ls" "length (segments a) \<le> length (segments path)"
      "\<forall>i < length (segments a). covers (segments a ! i) (segments path ! i)"
    and b: "b \<in> set rs" "length (segments b) \<le> length (segments path)"
      "\<forall>i < length (segments b). covers (segments b ! i) (segments path ! i)"
    unfolding scopes contains_iff by blast
  have "list_all (\<lambda>(x, y). segmentsMayMeet x y) (zip (segments a) (segments b))"
    unfolding zip_all using a(3) b(3) by (auto intro: covers_meet)
  with a(1) b(1) show ?thesis by (auto simp: editScopesOverlap_def scopes list_ex_iff)
qed (auto simp: editScopesOverlap_def split: option.splits)

section \<open>Targets\<close>


lemma segments_join: "proper ps \<Longrightarrow> segments (join_with slash ps) = ps"
proof -
  assume proper: "proper ps"
  show ?thesis
  proof (cases "ps = []")
    case False
    then have "split_on slash (join_with slash ps) = ps" using proper by (intro split_join) (auto simp: proper_def)
    moreover have "join_with slash ps \<noteq> []"
    proof
      assume "join_with slash ps = []"
      then have "join_with slash ps = join_with slash []" by simp
      from join_proper_inj [OF proper _ this] False show False by (simp add: proper_def)
    qed
    ultimately show ?thesis by (simp add: segments_def)
  qed (simp add: segments_def)
qed






lemma starts_with_iff: "starts_with s p \<longleftrightarrow> (\<exists>rest. s = p @ rest)"
  by (induction s p rule: starts_with.induct) auto

lemma check_moves_cases:
  "check_moves ins refusal moves =
     (if list_ex (\<lambda>m. ins (fst m) \<noteq> ins (snd m)) moves then Inl Edit_Scope_Boundary
      else Inr (if list_ex (\<lambda>m. \<not> ins (fst m)) moves then Some Edit_Scope_Violation else refusal))"
proof (induction moves arbitrary: refusal)
  case (Cons m moves)
  obtain a b where "m = (a, b)" by fastforce
  with Cons show ?case by (cases "ins a"; cases "ins b") simp_all
qed simp

text \<open>Everything a mutation names: the paths it writes and both ends of its moves.\<close>

definition all_targets :: "write_targets \<Rightarrow> js_text set" where
  "all_targets t = set (wt_paths t) \<union> fst ` set (wt_moves t) \<union> snd ` set (wt_moves t)"

lemma check_paths_iff:
  "checkEditScopeWrites (Some patterns) root Writes_Paths (Some t) confined = None \<longleftrightarrow>
     (\<forall>target \<in> all_targets t. inside patterns root target)"
proof -
  have "(\<forall>target \<in> all_targets t. inside patterns root target) \<longleftrightarrow>
      (\<forall>p \<in> set (wt_paths t). inside patterns root p) \<and>
      (\<forall>(a, b) \<in> set (wt_moves t). inside patterns root a \<and> inside patterns root b)"
    by (simp add: all_targets_def ball_Un case_prod_unfold) blast
  then show ?thesis
    unfolding checkEditScopeWrites_def option.case write_class.case check_moves_cases
    by (auto simp: list_ex_iff split: if_splits)
qed

lemma within_writes:
  assumes "editScopeWithin child parent"
    "checkEditScopeWrites child root Writes_Paths (Some t) confined = None"
  shows "checkEditScopeWrites parent root Writes_Paths (Some t) confined = None"
proof (cases parent)
  case (Some outers)
  with assms(1) obtain inners where child: "child = Some inners" by (auto simp: editScopeWithin_def split: option.splits)
  have "inside outers root target" if "inside inners root target" for target
    using that within_contains [OF assms(1)] unfolding child Some by (auto simp: inside_def split: option.splits)
  with assms(2) show ?thesis unfolding child Some check_paths_iff by blast
qed (simp add: checkEditScopeWrites_def)

section \<open>Normalization\<close>

lemma collect_parts_cases:
  "collect_parts parts rest = Some ps \<Longrightarrow>
     ps = parts @ filter (\<lambda>p. p \<noteq> [] \<and> p \<noteq> [dot]) rest \<and>
     (\<forall>p \<in> set rest. p \<noteq> [] \<and> p \<noteq> [dot] \<longrightarrow> \<not> bad_part p)"
proof (induction rest arbitrary: parts)
  case (Cons part rest)
  show ?case
  proof (cases "part = [] \<or> part = [dot]")
    case True
    then have "collect_parts parts rest = Some ps" using Cons.prems by simp
    from Cons.IH [OF this] True show ?thesis by auto
  next
    case False
    then have "\<not> bad_part part" "collect_parts (parts @ [part]) rest = Some ps"
      using Cons.prems by (simp_all split: if_splits)
    with Cons.IH [OF this(2)] False show ?thesis by auto
  qed
qed simp

text \<open>A separator never belongs to a surrogate pair, so byte lengths add up over segments.\<close>

lemma slash_plain: "\<not> is_high slash" "\<not> is_low slash"
  by (simp_all add: is_high_def is_low_def)

lemma byteLength_slash: "byteLength (s @ slash # t) = byteLength s + 1 + byteLength t"
  by (simp add: byteLength_def points_append_plain slash_plain)


lemma join_filter_bytes:
  "byteLength (join_with slash (filter keep ps)) \<le> byteLength (join_with slash ps)"
proof (induction ps)
  case (Cons p ps)
  have tail: "byteLength (join_with slash ps) \<le> byteLength (join_with slash (p # ps))"
    by (cases ps) (simp_all add: byteLength_slash, simp add: byteLength_def)
  show ?case
  proof (cases "keep p")
    case True
    then show ?thesis
    proof (cases "filter keep ps")
      case Nil
      with True show ?thesis by (cases ps) (simp_all add: byteLength_slash)
    next
      case (Cons q qs)
      then have "ps \<noteq> []" by auto
      with True Cons Cons.IH show ?thesis by (cases ps) (simp_all add: byteLength_slash)
    qed
  next
    case False
    with Cons.IH tail show ?thesis by simp
  qed
qed simp

text \<open>The units a joined list of segments has are those of the segments, and separators.\<close>

lemma join_units: "set (join_with sep ps) \<subseteq> insert sep (\<Union> (set ` set ps))"
  by (induction ps rule: join_with.induct) auto

lemma join_units_sup: "p \<in> set ps \<Longrightarrow> set p \<subseteq> set (join_with sep ps)"
  by (induction ps rule: join_with.induct) auto

lemma split_units: "p \<in> set (split_on sep xs) \<Longrightarrow> set p \<subseteq> set xs"
  using join_units_sup [of p "split_on sep xs" sep] by simp

text \<open>What a stored pattern looks like.\<close>

definition pattern_ok :: "js_text \<Rightarrow> bool" where
  "pattern_ok p \<longleftrightarrow>
     proper (segments p) \<and> byteLength p \<le> EDIT_SCOPE_BYTES \<and> \<not> starts_with p [slash] \<and>
     list_all (\<lambda>u. \<not> is_control u \<and> u \<noteq> backslash \<and> u \<notin> {91, 93, 123, 125, 33}) p"

lemma join_no_slash: "proper ps \<Longrightarrow> \<not> starts_with (join_with slash ps) [slash]"
proof (cases ps)
  case (Cons p qs)
  assume "proper ps"
  with Cons obtain u v where "p = u # v" "u \<noteq> slash" by (cases p) (auto simp: proper_def)
  with Cons show ?thesis by (cases qs) simp_all
qed simp

lemma normalize_pattern_ok:
  assumes "normalize_pattern s = Some p"
  shows "pattern_ok p \<and> segments p = filter (\<lambda>q. q \<noteq> [] \<and> q \<noteq> [dot]) (split_on slash s)"
proof -
  define kept where "kept = filter (\<lambda>p. p \<noteq> [] \<and> p \<noteq> [dot]) (split_on slash s)"
  from assms have guards: "byteLength s \<le> EDIT_SCOPE_BYTES" "\<forall>u \<in> set s. \<not> is_control u \<and> u \<noteq> backslash"
    by (auto simp: normalize_pattern_def list_ex_iff split: if_splits)
  from assms obtain ps where ps: "collect_parts [] (split_on slash s) = Some ps" "p = join_with slash ps"
    by (auto simp: normalize_pattern_def split: if_splits)
  from collect_parts_cases [OF ps(1)] have kept: "ps = kept"
    "\<forall>q \<in> set (split_on slash s). q \<noteq> [] \<and> q \<noteq> [dot] \<longrightarrow> \<not> bad_part q" by (simp_all add: kept_def)
  have "proper ps"
    unfolding kept(1) using kept(2) by (auto simp: proper_def kept_def bad_part_def dest: split_pieces_clean)
  moreover have "byteLength p \<le> EDIT_SCOPE_BYTES"
    using join_filter_bytes [of "\<lambda>p. p \<noteq> [] \<and> p \<noteq> [dot]" "split_on slash s"] guards(1)
    by (simp add: ps(2) kept(1) kept_def)
  moreover have "\<not> is_control u \<and> u \<noteq> backslash \<and> u \<notin> {91, 93, 123, 125, 33}" if u: "u \<in> set p" for u
  proof (cases "u = slash")
    case True
    then show ?thesis by (simp add: is_control_def)
  next
    case False
    with u join_units [of slash ps] obtain q where q: "q \<in> set ps" "u \<in> set q" unfolding ps(2) by auto
    then have "q \<in> set (split_on slash s)" "\<not> bad_part q" using kept(2) unfolding kept(1) by (auto simp: kept_def)
    moreover have "u \<in> set s" using split_units [of q slash s] q(2) calculation(1) by blast
    ultimately show ?thesis using q(2) guards(2) by (auto simp: bad_part_def list_ex_iff)
  qed
  ultimately show ?thesis
    by (simp add: pattern_ok_def ps(2) segments_join join_no_slash list_all_iff) (simp add: kept(1) kept_def)
qed

lemma normalize_all_ok:
  "normalize_all raw = Some ps \<Longrightarrow> length ps = length raw \<and> list_all pattern_ok ps \<and>
     map segments ps = map (\<lambda>s. filter (\<lambda>q. q \<noteq> [] \<and> q \<noteq> [dot]) (split_on slash s)) raw"
  by (induction raw arbitrary: ps) (auto split: option.splits dest: normalize_pattern_ok)

section \<open>What edit scopes promise\<close>

text \<open>
  C39. A normalized edit scope is well formed and says what was asked for: it has between one and 64
  patterns, sorted and without duplicates; the patterns are those given, with empty and \<open>.\<close> segments left
  out; each is at most 1024 bytes of UTF-8, starts with no separator, splits into proper names (none empty,
  \<open>.\<close> or \<open>..\<close>), and holds no control character, backslash, bracket, brace or exclamation mark. (A drive
  prefix may remain behind a leading \<open>./\<close>; see \<open>dotted_drive_is_accepted\<close>.)
\<close>

theorem normalized_scope_is_well_formed:
  assumes "normalizeEditScope raw = Ok ps"
  shows "ps \<noteq> [] \<and> length ps \<le> EDIT_SCOPE_PATTERNS \<and> sorted ps \<and> distinct ps \<and> list_all pattern_ok ps \<and>
    segments ` set ps = (\<lambda>s. filter (\<lambda>q. q \<noteq> [] \<and> q \<noteq> [dot]) (split_on slash s)) ` set raw"
proof -
  from assms obtain qs where qs: "normalize_all raw = Some qs" "ps = sort (remdups qs)"
    "raw \<noteq> []" "length raw \<le> EDIT_SCOPE_PATTERNS"
    by (auto simp: normalizeEditScope_def split: if_splits option.splits)
  from normalize_all_ok [OF qs(1)] have all: "length qs = length raw" "list_all pattern_ok qs"
    "map segments qs = map (\<lambda>s. filter (\<lambda>q. q \<noteq> [] \<and> q \<noteq> [dot]) (split_on slash s)) raw" by auto
  moreover have "length (remdups qs) \<le> length qs" by (rule length_remdups_leq)
  moreover have "sort (remdups qs) \<noteq> []"
    using calculation(1) qs(3) by (metis length_0_conv length_sort remdups_eq_nil_iff)
  moreover have "segments ` set ps = (\<lambda>s. filter (\<lambda>q. q \<noteq> [] \<and> q \<noteq> [dot]) (split_on slash s)) ` set raw"
    using arg_cong [OF all(3), of set] by (simp add: qs(2))
  ultimately show ?thesis using qs(2,4) by (simp add: list_all_iff)
qed

text \<open>
  Narrowing is sound: when a child scope lies within its parent's, every path the child scope
  contains is contained in the parent's, and every mutation the check of named paths lets the child
  make would also pass the parent's check.
\<close>

theorem narrowed_scope_permits_no_more:
  assumes "editScopeWithin child parent"
  shows "(editScopeContains child path \<longrightarrow> editScopeContains parent path) \<and>
    (checkEditScopeWrites child root Writes_Paths (Some t) confined = None \<longrightarrow>
     checkEditScopeWrites parent root Writes_Paths (Some t) confined = None)"
  using assms within_contains within_writes by blast


text \<open>
  The overlap test is conservative: two scopes it calls disjoint have no path in common, so two
  writers admitted side by side never touch the same path.
\<close>

theorem disjoint_scopes_share_no_path:
  assumes "\<not> editScopesOverlap left right"
  shows "\<not> (editScopeContains left path \<and> editScopeContains right path)"
  using assms common_path_overlaps by blast

text \<open>
  The absolute forms are refused on the text as given, not on the normalized pattern: the drive
  form \<open>C:/x\<close> is refused, but with a leading \<open>./\<close> it is accepted and normalizes to \<open>C:/x\<close> itself, which
  the same function refuses.
\<close>

theorem dotted_drive_is_accepted:
  "normalizeEditScope [[67, 58, 47, 120]] = Err Edit_Scope_Invalid \<and>
   normalizeEditScope [[46, 47, 67, 58, 47, 120]] = Ok [[67, 58, 47, 120]]"
  by (simp add: normalizeEditScope_def normalize_pattern_def EDIT_SCOPE_PATTERNS_def EDIT_SCOPE_BYTES_def
      byteLength_def is_high_def is_low_def is_control_def is_letter_def bad_part_def)

section \<open>Witnesses\<close>

text \<open>The scopes \<open>src/*\<close> and \<open>src/a\<close>, and a write to \<open>src/a/../a/b\<close>.\<close>

definition wide_scope :: edit_scope where "wide_scope = Some [[115, 114, 99, 47, 42]]"
definition small_scope :: edit_scope where "small_scope = Some [[115, 114, 99, 47, 97]]"
definition other_scope :: edit_scope where "other_scope = Some [[100, 111, 99]]"
definition inner_write :: write_targets where
  "inner_write = \<lparr>wt_paths = [[115, 114, 99, 47, 97, 47, 98]],
     wt_moves = [([115, 114, 99, 47, 97, 47, 46, 46, 47, 97, 47, 98], [115, 114, 99, 47, 97, 47, 99])]\<rparr>"

lemmas scope_evaluation = wide_scope_def small_scope_def other_scope_def inner_write_def
  editScopeWithin_def editScopeContains_def editScopesOverlap_def narrower_def covers_def is_glob_def
  segments_def segmentMatches_def segmentsMayMeet_def is_high_def is_low_def
  checkEditScopeWrites_def inside_def workspaceRelative_def below_root_def is_rooted_def to_slashes_def is_control_def
  is_letter_def

lemma small_writes: "checkEditScopeWrites small_scope None Writes_Paths (Some inner_write) True = None"
  by (simp add: scope_evaluation)

theorem narrowed_scope_permits_no_more_witness:
  "editScopeWithin small_scope wide_scope \<and>
   checkEditScopeWrites wide_scope None Writes_Paths (Some inner_write) True = None"
proof -
  have within: "editScopeWithin small_scope wide_scope" by (simp add: scope_evaluation)
  from narrowed_scope_permits_no_more [OF within] small_writes within show ?thesis by blast
qed


theorem disjoint_scopes_share_no_path_witness:
  "\<not> editScopesOverlap small_scope other_scope \<and>
   \<not> (editScopeContains small_scope [100, 111, 99] \<and> editScopeContains other_scope [100, 111, 99])"
proof -
  have apart: "\<not> editScopesOverlap small_scope other_scope" by (simp add: scope_evaluation)
  from disjoint_scopes_share_no_path [OF apart] apart show ?thesis by blast
qed

theorem normalized_scope_is_well_formed_witness:
  "normalizeEditScope [[97, 47, 46, 47, 98, 47]] = Ok [[97, 47, 98]] \<and> list_all pattern_ok [[97, 47, 98]] \<and>
   segments [97, 47, 98] = filter (\<lambda>q. q \<noteq> [] \<and> q \<noteq> [dot]) (split_on slash [97, 47, 46, 47, 98, 47])"
proof -
  have normal: "normalizeEditScope [[97, 47, 46, 47, 98, 47]] = Ok [[97, 47, 98]]"
    by (simp add: normalizeEditScope_def normalize_pattern_def EDIT_SCOPE_PATTERNS_def EDIT_SCOPE_BYTES_def
        byteLength_def is_high_def is_low_def is_control_def is_letter_def bad_part_def)
  from normalized_scope_is_well_formed [OF normal] normal show ?thesis by simp
qed

end
