(* ===== verification/Resource_Admission.thy ===== *)
theory Resource_Admission
  imports Js_Text
begin

text \<open>
  The contracts of process-local admission (\<^verbatim>\<open>src/domain/orchestration/resource-admission.ts\<close>): resource
  dimensions, the identity of a shared capacity scope, the identity of a reservation, debits, admission
  states and receipts. The zod schemas are the predicates \<open>scope_valid\<close>, \<open>identity_valid\<close> and
  \<open>amounts_valid\<close>; a schema's refusal of unknown keys and of values of another type is the type of the
  record. A string's length counts UTF-16 code units. Amounts and limits are integers: the code
  refuses every other number where it refuses integers that are not safe.
\<close>

datatype resource_dimension =
    Res_Operations | Res_Requests | Res_Attempts | Res_Retries | Res_Input_Tokens | Res_Output_Tokens | Res_Cost_Micros | Res_Cpu_Ms
  | Res_Memory_Bytes | Res_Network_Bytes | Res_Buffered_Bytes | Res_Buffered_Items | Res_Processes | Res_Descendants
  | Res_Artifact_Bytes | Res_Disk_Bytes | Res_Concurrency | Res_Wall_Time_Ms

definition RESOURCE_DIMENSIONS :: "resource_dimension list" where
  "RESOURCE_DIMENSIONS =
     [Res_Operations, Res_Requests, Res_Attempts, Res_Retries, Res_Input_Tokens, Res_Output_Tokens, Res_Cost_Micros, Res_Cpu_Ms,
      Res_Memory_Bytes, Res_Network_Bytes, Res_Buffered_Bytes, Res_Buffered_Items, Res_Processes, Res_Descendants,
      Res_Artifact_Bytes, Res_Disk_Bytes, Res_Concurrency, Res_Wall_Time_Ms]"

text \<open>A partial record from dimensions to amounts, in the order its keys were written.\<close>

type_synonym resource_amounts = "(resource_dimension, int) js_map"

definition amounts_valid :: "resource_amounts \<Rightarrow> bool" where
  "amounts_valid amounts \<longleftrightarrow> js_wf amounts \<and> list_all (\<lambda>v. 0 \<le> v \<and> is_safe_int v) (js_values amounts)"

datatype owner_kind = Owner_Process | Owner_Task | Owner_Platform | Owner_Provider | Owner_Tool | Owner_Package | Owner_Agent
datatype bucket_kind = Cumulative | Occupancy

record capacity_scope =
  sc_version :: int
  sc_ownerKind :: owner_kind
  sc_destination :: js_text
  sc_account :: "js_text option"
  sc_organization :: "js_text option"
  sc_project :: "js_text option"
  sc_workspace :: "js_text option"
  sc_region :: "js_text option"
  sc_serviceTier :: "js_text option"
  sc_family :: js_text
  sc_dimension :: resource_dimension
  sc_bucketKind :: bucket_kind

definition segment_valid :: "js_text \<Rightarrow> bool" where
  "segment_valid s \<longleftrightarrow> 1 \<le> length s \<and> length s \<le> 256"

definition scope_valid :: "capacity_scope \<Rightarrow> bool" where
  "scope_valid s \<longleftrightarrow>
     sc_version s = 1 \<and> segment_valid (sc_destination s) \<and> segment_valid (sc_family s) \<and>
     list_all (case_option True segment_valid)
       [sc_account s, sc_organization s, sc_project s, sc_workspace s, sc_region s, sc_serviceTier s]"

record reservation_identity =
  ri_version :: int
  ri_parentScope :: js_text
  ri_owner :: js_text
  ri_operation :: js_text
  ri_workspaceGeneration :: js_text
  ri_configurationGeneration :: js_text
  ri_attempt :: js_text
  ri_fence :: js_text
  ri_scopes :: "capacity_scope list"

definition identity_valid :: "reservation_identity \<Rightarrow> bool" where
  "identity_valid i \<longleftrightarrow>
     ri_version i = 1 \<and>
     list_all segment_valid
       [ri_parentScope i, ri_owner i, ri_operation i, ri_workspaceGeneration i, ri_configurationGeneration i,
        ri_attempt i, ri_fence i] \<and>
     1 \<le> length (ri_scopes i) \<and> length (ri_scopes i) \<le> 128 \<and> list_all scope_valid (ri_scopes i)"

record resource_debit =
  rd_scope :: capacity_scope
  rd_amount :: int
  rd_limit :: int

datatype admission_state =
    State_Admitted | State_Queued | State_Limit_Exceeded | State_Admission_Timeout | State_Cancelled | State_Stale_Generation
  | State_Authority_Denied | State_Quota_Unknown | State_Uncertain_After_Interruption | State_Shutdown

record receipt =
  rc_version :: int
  rc_state :: admission_state
  rc_reservation :: js_text
  rc_scope :: "js_text option"
  rc_dimension :: "resource_dimension option"
  rc_acquired :: bool
  rc_released :: bool
  rc_uncertain :: bool
  rc_queuePosition :: "int option"
  rc_deadline :: "int option"

text \<open>What a receipt must look like to be accepted from elsewhere.\<close>

definition receipt_valid :: "receipt \<Rightarrow> bool" where
  "receipt_valid r \<longleftrightarrow>
     rc_version r = 1 \<and> 1 \<le> length (rc_reservation r) \<and> length (rc_reservation r) \<le> 128 \<and>
     case_option True (\<lambda>s. length s \<le> 128) (rc_scope r) \<and>
     case_option True (\<lambda>q. 0 \<le> q \<and> is_safe_int q) (rc_queuePosition r) \<and>
     case_option True is_safe_int (rc_deadline r)"

end
