(* ===== verification/Child_Authority.thy ===== *)
theory Child_Authority
  imports Edit_Scope Resource_Admission
begin

text \<open>
  The authority of delegated children (\<^verbatim>\<open>src/domain/orchestration/child-admission.ts\<close>) and the guard
  every admitted child works behind (\<open>guardResources\<close> of
  \<^verbatim>\<open>src/application/orchestration/child-admission.ts\<close>): which targets it may reach, which paths it may
  write, and which directories its sandbox may write. Freezing an authority copies it.
\<close>

section \<open>Definitions\<close>

record provider_binding =
  pb_providerId :: js_text
  pb_providerProfileId :: js_text
  pb_providerDestinationId :: js_text
  pb_modelId :: js_text
  pb_reasoning :: js_text
  pb_reasoningControl :: "js_text option"

record child_authority =
  ca_version :: int
  ca_workspaceId :: js_text
  ca_configurationGeneration :: js_text
  ca_capabilityGeneration :: js_text
  ca_providers :: "provider_binding list"
  ca_capabilities :: "js_text list"
  ca_effects :: "effect_class list"
  ca_editScope :: edit_scope

datatype child_work_target =
    Session_History js_text js_text
  | Instruction_Source js_text js_text
  | Provider_Target js_text provider_binding
  | Tool_Target js_text js_text js_text

fun target_workspace :: "child_work_target \<Rightarrow> js_text" where
  "target_workspace (Session_History workspaceId _) = workspaceId"
| "target_workspace (Instruction_Source workspaceId _) = workspaceId"
| "target_workspace (Provider_Target workspaceId _) = workspaceId"
| "target_workspace (Tool_Target workspaceId _ _) = workspaceId"

definition sameChildProvider :: "provider_binding \<Rightarrow> provider_binding \<Rightarrow> bool" where
  "sameChildProvider left right \<longleftrightarrow>
     pb_providerId left = pb_providerId right \<and> pb_providerProfileId left = pb_providerProfileId right \<and>
     pb_providerDestinationId left = pb_providerDestinationId right \<and> pb_modelId left = pb_modelId right \<and>
     pb_reasoning left = pb_reasoning right \<and> pb_reasoningControl left = pb_reasoningControl right"

definition narrowChildAuthority :: "child_authority \<Rightarrow> child_authority \<Rightarrow> child_authority option" where
  "narrowChildAuthority parent requested =
     (if ca_workspaceId parent \<noteq> ca_workspaceId requested \<or>
         ca_configurationGeneration parent \<noteq> ca_configurationGeneration requested \<or>
         ca_capabilityGeneration parent \<noteq> ca_capabilityGeneration requested
      then None
      else
        let editScope = (case ca_editScope requested of None \<Rightarrow> ca_editScope parent | Some s \<Rightarrow> Some s) in
        if \<not> editScopeWithin editScope (ca_editScope parent) then None
        else Some (requested
          \<lparr>ca_providers := filter (\<lambda>v. list_ex (\<lambda>a. sameChildProvider v a) (ca_providers parent)) (ca_providers requested),
           ca_capabilities := filter (\<lambda>v. v \<in> set (ca_capabilities parent)) (ca_capabilities requested),
           ca_effects := filter (\<lambda>v. v \<in> set (ca_effects parent)) (ca_effects requested),
           ca_editScope := editScope\<rparr>))"

text \<open>The part of \<open>admit\<close> that decides a child's authority.\<close>

datatype authority_refusal = Stale_Parent | Route_Denied

definition admit_authority :: "child_authority \<Rightarrow> child_authority \<Rightarrow> (child_authority, authority_refusal) result" where
  "admit_authority parent requested =
     (case narrowChildAuthority parent requested of
        None \<Rightarrow> Err Stale_Parent
      | Some narrowed \<Rightarrow>
          if length (ca_providers narrowed) \<noteq> length (ca_providers requested) then Err Route_Denied
          else Ok narrowed)"

definition permitted :: "child_authority \<Rightarrow> child_work_target \<Rightarrow> effect_class \<Rightarrow> bool" where
  "permitted authority target effect =
     (case target of
        Session_History _ generation \<Rightarrow> effect = Observation \<and> generation = ca_configurationGeneration authority
      | Instruction_Source _ generation \<Rightarrow> effect = Observation \<and> generation = ca_configurationGeneration authority
      | Provider_Target _ binding \<Rightarrow> list_ex (\<lambda>b. sameChildProvider b binding) (ca_providers authority)
      | Tool_Target _ capabilityId generation \<Rightarrow>
          generation = ca_capabilityGeneration authority \<and> capabilityId \<in> set (ca_capabilities authority) \<and>
          effect \<in> set (ca_effects authority))"

text \<open>
  The guard's \<open>checkAuthority\<close>: nothing when permitted, else the receipt of the refusal. \<open>inner\<close> is the
  check of the resources it guards, \<open>refusal\<close> their receipts.
\<close>

definition allowed ::
  "(admission_state \<Rightarrow> receipt) \<Rightarrow> (child_work_target \<Rightarrow> effect_class \<Rightarrow> receipt option) \<Rightarrow> bool \<Rightarrow> child_authority \<Rightarrow>
   child_work_target option \<Rightarrow> effect_class \<Rightarrow> receipt option" where
  "allowed refusal inner aborted authority target effect =
     (if aborted then Some (refusal State_Stale_Generation)
      else case target of
             None \<Rightarrow> Some (refusal State_Authority_Denied)
           | Some t \<Rightarrow>
               if target_workspace t \<noteq> ca_workspaceId authority then Some (refusal State_Authority_Denied)
               else if permitted authority t effect then inner t effect
               else Some (refusal State_Authority_Denied))"

text \<open>\<open>checkWrites\<close> of the guard; resources without a scope have none and refuse nothing.\<close>

definition guard_writes ::
  "child_authority \<Rightarrow> js_text option \<Rightarrow> write_class \<Rightarrow> write_targets option \<Rightarrow> edit_scope_refusal option" where
  "guard_writes authority workspaceRoot kind targets =
     (case ca_editScope authority of
        None \<Rightarrow> None
      | Some scope \<Rightarrow> checkEditScopeWrites (Some scope) workspaceRoot kind targets True)"

definition strip_slashes :: "js_text \<Rightarrow> js_text" where
  "strip_slashes s = rev (dropWhile (\<lambda>u. u = slash) (rev s))"

definition writeRoots :: "child_authority \<Rightarrow> js_text option \<Rightarrow> js_text list option" where
  "writeRoots authority workspaceRoot =
     (case ca_editScope authority of
        None \<Rightarrow> None
      | Some scope \<Rightarrow>
          Some (case workspaceRoot of
                  None \<Rightarrow> []
                | Some root \<Rightarrow>
                    map (\<lambda>directory. if directory = [] then root else strip_slashes root @ slash # directory)
                      (case editScopeDirectories (Some scope) of None \<Rightarrow> [] | Some ds \<Rightarrow> ds)))"

section \<open>Delegation\<close>

text \<open>
  An authority handed down a chain of requests. The locale is what a chain relies on: one narrowing
  permits nothing its parent does not.
\<close>

locale delegation =
  fixes hand_down :: "'a \<Rightarrow> 'a \<Rightarrow> 'a option"
    and permits :: "'a \<Rightarrow> 'act \<Rightarrow> bool"
  assumes hand_down_permits: "hand_down parent request = Some child \<Longrightarrow> permits child act \<Longrightarrow> permits parent act"
begin

fun chain :: "'a \<Rightarrow> 'a list \<Rightarrow> 'a option" where
  "chain authority [] = Some authority"
| "chain authority (request # requests) =
     (case hand_down authority request of None \<Rightarrow> None | Some child \<Rightarrow> chain child requests)"

lemma chain_permits: "chain authority requests = Some child \<Longrightarrow> permits child act \<Longrightarrow> permits authority act"
  by (induction requests arbitrary: authority) (auto split: option.splits intro: hand_down_permits)

lemma chain_split:
  "chain authority (upper @ lower_part) = Some child \<Longrightarrow>
   \<exists>middle. chain authority upper = Some middle \<and> chain middle lower_part = Some child"
  by (induction upper arbitrary: authority) (auto split: option.splits)

lemma chain_within:
  assumes "chain authority (upper @ lower_part) = Some child"
  obtains middle where "chain authority upper = Some middle" "\<And>act. permits child act \<Longrightarrow> permits middle act"
  using chain_split [OF assms] chain_permits by blast

end

fun delegate :: "child_authority \<Rightarrow> child_authority list \<Rightarrow> child_authority option" where
  "delegate authority [] = Some authority"
| "delegate authority (request # requests) =
     (case admit_authority authority request of Err _ \<Rightarrow> None | Ok child \<Rightarrow> delegate child requests)"

section \<open>Narrowing\<close>

lemma sameChildProvider_eq: "sameChildProvider left right \<longleftrightarrow> left = right"
  by (auto simp: sameChildProvider_def intro: provider_binding.equality)

lemma narrow_cases:
  assumes "narrowChildAuthority parent requested = Some child"
  shows "ca_workspaceId requested = ca_workspaceId parent \<and>
    ca_configurationGeneration requested = ca_configurationGeneration parent \<and>
    ca_capabilityGeneration requested = ca_capabilityGeneration parent \<and>
    ca_workspaceId child = ca_workspaceId parent \<and>
    ca_configurationGeneration child = ca_configurationGeneration parent \<and>
    ca_capabilityGeneration child = ca_capabilityGeneration parent \<and>
    set (ca_providers child) = set (ca_providers requested) \<inter> set (ca_providers parent) \<and>
    set (ca_capabilities child) = set (ca_capabilities requested) \<inter> set (ca_capabilities parent) \<and>
    set (ca_effects child) = set (ca_effects requested) \<inter> set (ca_effects parent) \<and>
    ca_editScope child = (case ca_editScope requested of None \<Rightarrow> ca_editScope parent | Some s \<Rightarrow> Some s) \<and>
    editScopeWithin (ca_editScope child) (ca_editScope parent)"
  using assms by (auto simp: narrowChildAuthority_def Let_def sameChildProvider_eq list_ex_iff split: if_splits)

lemma permitted_sets:
  "permitted authority target effect \<longleftrightarrow>
     (case target of
        Session_History _ generation \<Rightarrow> effect = Observation \<and> generation = ca_configurationGeneration authority
      | Instruction_Source _ generation \<Rightarrow> effect = Observation \<and> generation = ca_configurationGeneration authority
      | Provider_Target _ binding \<Rightarrow> binding \<in> set (ca_providers authority)
      | Tool_Target _ capabilityId generation \<Rightarrow>
          generation = ca_capabilityGeneration authority \<and> capabilityId \<in> set (ca_capabilities authority) \<and>
          effect \<in> set (ca_effects authority))"
  by (auto simp: permitted_def sameChildProvider_eq list_ex_iff split: child_work_target.splits)

lemma admit_narrow: "admit_authority parent requested = Ok child \<Longrightarrow> narrowChildAuthority parent requested = Some child"
  by (auto simp: admit_authority_def split: option.splits if_splits)

text \<open>What a guard decides, as one predicate over everything a child may ask of it.\<close>

datatype child_act = Reach child_work_target effect_class | Alter write_targets | Enter js_text

fun permits_act :: "js_text option \<Rightarrow> child_authority \<Rightarrow> child_act \<Rightarrow> bool" where
  "permits_act root authority (Reach target effect) \<longleftrightarrow>
     target_workspace target = ca_workspaceId authority \<and> permitted authority target effect"
| "permits_act root authority (Alter targets) \<longleftrightarrow> guard_writes authority root Writes_Paths (Some targets) = None"
| "permits_act root authority (Enter path) \<longleftrightarrow> editScopeContains (ca_editScope authority) path"

definition hand_authority :: "child_authority \<Rightarrow> child_authority \<Rightarrow> child_authority option" where
  "hand_authority parent requested = (case admit_authority parent requested of Err _ \<Rightarrow> None | Ok child \<Rightarrow> Some child)"

lemma hand_permits:
  assumes "hand_authority parent requested = Some child" "permits_act root child act"
  shows "permits_act root parent act"
proof -
  have "narrowChildAuthority parent requested = Some child"
    using assms(1) by (auto simp: hand_authority_def split: result.splits intro: admit_narrow)
  note narrow = narrow_cases [OF this]
  show ?thesis
  proof (cases act)
    case (Reach target effect)
    with assms(2) narrow show ?thesis by (auto simp: permitted_sets split: child_work_target.splits)
  next
    case (Alter targets)
    have "editScopeWithin (ca_editScope child) (ca_editScope parent)" using narrow by blast
    from within_writes [OF this] assms(2) Alter show ?thesis
      by (cases "ca_editScope child"; cases "ca_editScope parent") (auto simp: guard_writes_def checkEditScopeWrites_def)
  next
    case (Enter path)
    have "editScopeWithin (ca_editScope child) (ca_editScope parent)" using narrow by blast
    from within_contains [OF this] assms(2) Enter show ?thesis by simp
  qed
qed

interpretation child_chain: delegation hand_authority "permits_act root" for root
  by unfold_locales (rule hand_permits)

lemma delegate_chain: "delegate authority requests = child_chain.chain authority requests"
  by (induction requests arbitrary: authority) (auto simp: hand_authority_def split: result.splits)

text \<open>A sandbox write root of a guarded child is the workspace root followed by a directory of its scope.\<close>

lemma write_root_directory:
  assumes "writeRoots authority (Some root) = Some roots" "r \<in> set roots"
  obtains directory scope where "ca_editScope authority = Some scope" "directory \<in> set scope" "\<not> is_glob directory"
    "r = (if directory = [] then root else strip_slashes root @ slash # directory)"
  using assms by (auto simp: writeRoots_def editScopeDirectories_def list_ex_iff split: option.splits if_splits)

lemma glob_segments: "\<not> is_glob p \<Longrightarrow> s \<in> set (segments p) \<Longrightarrow> \<not> is_glob s"
  using split_units [of s slash p] by (auto simp: segments_def is_glob_def split: if_splits)

lemma directory_contained:
  assumes "directory \<in> set scope" "\<not> is_glob directory"
  shows "editScopeContains (Some scope) directory"
  unfolding contains_iff
  using assms by (intro bexI [of _ directory]) (auto simp: covers_def dest: glob_segments [OF _ nth_mem])

section \<open>What delegation promises\<close>

text \<open>
  C7. Authority never grows along a chain of delegations. When a child is admitted under a chain of
  requests, every ancestor on the chain permits whatever the child's own guard permits: each target and
  effect, each mutation of named paths, each path of its edit scope, and the directory behind each
  sandbox write root. So a child's guard alone stands for the guards of all its ancestors.
\<close>

theorem authority_never_grows:
  assumes "delegate authority (upper @ lower_part) = Some child"
  shows "\<exists>ancestor. delegate authority upper = Some ancestor \<and>
    (\<forall>refusal target effect. allowed refusal (\<lambda>_ _. None) False child target effect = None \<longrightarrow>
       allowed refusal (\<lambda>_ _. None) False ancestor target effect = None) \<and>
    (\<forall>root targets. guard_writes child root Writes_Paths (Some targets) = None \<longrightarrow>
       guard_writes ancestor root Writes_Paths (Some targets) = None) \<and>
    (\<forall>path. editScopeContains (ca_editScope child) path \<longrightarrow> editScopeContains (ca_editScope ancestor) path) \<and>
    (\<forall>root roots r. writeRoots child (Some root) = Some roots \<and> r \<in> set roots \<longrightarrow>
       (\<exists>directory. editScopeContains (ca_editScope ancestor) directory \<and>
          r = (if directory = [] then root else strip_slashes root @ slash # directory)))"
proof -
  from assms have chain: "child_chain.chain authority (upper @ lower_part) = Some child" by (simp only: delegate_chain)
  obtain ancestor where up: "child_chain.chain authority upper = Some ancestor" "child_chain.chain ancestor lower_part = Some child"
    using child_chain.chain_split [OF chain] by blast
  have reach: "permits_act root ancestor act" if "permits_act root child act" for root act
    using child_chain.chain_permits [OF up(2) that] .
  have "allowed refusal (\<lambda>_ _. None) False ancestor target effect = None"
    if "allowed refusal (\<lambda>_ _. None) False child target effect = None" for refusal target effect
  proof -
    from that obtain t where t: "target = Some t" "permits_act None child (Reach t effect)"
      by (auto simp: allowed_def split: option.splits if_splits)
    from reach [OF t(2)] t(1) show ?thesis by (simp add: allowed_def)
  qed
  moreover have "guard_writes ancestor root Writes_Paths (Some targets) = None"
    if "guard_writes child root Writes_Paths (Some targets) = None" for root targets
    using reach [of root "Alter targets"] that by simp
  moreover have contained: "editScopeContains (ca_editScope ancestor) path"
    if "editScopeContains (ca_editScope child) path" for path
    using reach [of None "Enter path"] that by simp
  moreover have "\<exists>directory. editScopeContains (ca_editScope ancestor) directory \<and>
          r = (if directory = [] then root else strip_slashes root @ slash # directory)"
    if roots: "writeRoots child (Some root) = Some roots" "r \<in> set roots" for root roots r
  proof -
    from write_root_directory [OF roots] obtain directory scope where d: "ca_editScope child = Some scope"
      "directory \<in> set scope" "\<not> is_glob directory" "r = (if directory = [] then root else strip_slashes root @ slash # directory)"
      by blast
    from contained directory_contained [OF d(2,3)] d(1,4) show ?thesis by auto
  qed
  moreover have "delegate authority upper = Some ancestor" using up(1) by (simp only: delegate_chain)
  ultimately show ?thesis by blast
qed

text \<open>
  Narrowing intersects. When the parent's workspace and generations match, the narrowed authority
  permits a target and effect exactly when both the parent and the request permit it; a mismatch, or a
  request whose edit scope is not within the parent's, is refused.
\<close>

theorem narrowing_intersects:
  "case narrowChildAuthority parent requested of
     None \<Rightarrow> ca_workspaceId parent \<noteq> ca_workspaceId requested \<or>
       ca_configurationGeneration parent \<noteq> ca_configurationGeneration requested \<or>
       ca_capabilityGeneration parent \<noteq> ca_capabilityGeneration requested \<or>
       (ca_editScope requested \<noteq> None \<and> \<not> editScopeWithin (ca_editScope requested) (ca_editScope parent))
   | Some child \<Rightarrow> (permitted child target effect \<longleftrightarrow> permitted parent target effect \<and> permitted requested target effect) \<and>
       ca_editScope child = (if ca_editScope requested = None then ca_editScope parent else ca_editScope requested)"
proof (cases "narrowChildAuthority parent requested")
  case None
  then show ?thesis
    using within_refl [of "ca_editScope parent"]
    by (auto simp: narrowChildAuthority_def Let_def split: if_splits option.splits)
next
  case (Some child)
  note narrow = narrow_cases [OF Some]
  have "permitted child target effect \<longleftrightarrow> permitted parent target effect \<and> permitted requested target effect"
    using narrow by (auto simp: permitted_sets split: child_work_target.splits)
  with narrow Some show ?thesis by (auto split: option.splits)
qed

section \<open>Witnesses\<close>

definition root_authority :: child_authority where
  "root_authority = \<lparr>ca_version = 1, ca_workspaceId = [119], ca_configurationGeneration = [49], ca_capabilityGeneration = [49],
     ca_providers = [], ca_capabilities = [[101], [114]], ca_effects = [Observation, Mutation], ca_editScope = wide_scope\<rparr>"

definition child_request :: child_authority where
  "child_request = root_authority\<lparr>ca_capabilities := [[101]], ca_editScope := small_scope\<rparr>"

lemma demo_delegation: "delegate root_authority ([] @ [child_request]) = Some child_request"
proof -
  have "editScopeWithin small_scope wide_scope" by (simp add: scope_evaluation)
  moreover have "small_scope \<noteq> None" by (simp add: small_scope_def)
  ultimately show ?thesis
    by (auto simp: admit_authority_def narrowChildAuthority_def root_authority_def child_request_def split: option.splits)
qed

theorem authority_never_grows_witness:
  "delegate root_authority ([] @ [child_request]) = Some child_request \<and>
   guard_writes child_request None Writes_Paths (Some inner_write) = None \<and>
   guard_writes root_authority None Writes_Paths (Some inner_write) = None"
proof -
  have "guard_writes child_request None Writes_Paths (Some inner_write) = None"
    by (simp add: guard_writes_def child_request_def small_writes split: option.split)
  with authority_never_grows [OF demo_delegation] demo_delegation show ?thesis by auto
qed

theorem narrowing_intersects_witness:
  "narrowChildAuthority root_authority child_request = Some child_request \<and>
   (permitted child_request (Tool_Target [119] [101] [49]) Mutation \<longleftrightarrow>
      permitted root_authority (Tool_Target [119] [101] [49]) Mutation \<and>
      permitted child_request (Tool_Target [119] [101] [49]) Mutation)"
proof -
  have narrowed: "narrowChildAuthority root_authority child_request = Some child_request"
    using demo_delegation by (auto simp: split: result.splits intro: admit_narrow)
  from narrowing_intersects [of root_authority child_request "Tool_Target [119] [101] [49]" Mutation] narrowed
  show ?thesis by simp
qed

end
