(* ===== verification/Resource_Ledger.thy ===== *)
theory Resource_Ledger
  imports Resource_Admission "HOL-Library.List_Lexorder"
begin

text \<open>
  The capacity ledger (\<^verbatim>\<open>src/application/orchestration/resource-ledger.ts\<close>). The closure's variables are
  the fields of \<open>resource_ledger\<close>, its maps are association lists in insertion order. What the closure
  fixes once, or takes from the runtime, is the record \<open>ledger_env\<close>: the canonical text of a scope
  (\<open>key\<close>) and of a reservation (\<open>fingerprint\<close>), the salted digest and \<open>maxRecords\<close>. Listeners are
  numbered and \<open>rl_calls\<close> is the log of the calls \<open>notify\<close> makes.
\<close>

record ledger_env =
  le_key :: "capacity_scope \<Rightarrow> js_text"
  le_fingerprint :: "reservation_identity \<Rightarrow> resource_debit list \<Rightarrow> js_text"
  le_digest :: "js_text \<Rightarrow> js_text"
  le_maxRecords :: nat

record bucket =
  bk_parentScopes :: "js_text list option"
  bk_scope :: capacity_scope
  bk_used :: int
  bk_limit :: int
  bk_poisoned :: bool

record record_entry =
  re_fingerprint :: js_text
  re_identity :: reservation_identity
  re_debits :: "resource_debit list"
  re_receipt :: receipt
  re_settled :: bool
  re_charges :: "(js_text, int) js_map"

record resource_ledger =
  rl_buckets :: "(js_text, bucket) js_map"
  rl_aliases :: "(js_text, js_text) js_map"
  rl_records :: "(js_text, record_entry) js_map"
  rl_listeners :: "nat list"
  rl_calls :: "nat list"

definition createResourceLedger :: resource_ledger where
  "createResourceLedger = \<lparr>rl_buckets = [], rl_aliases = [], rl_records = [], rl_listeners = [], rl_calls = []\<rparr>"

datatype reservation_kind = Decided_Admitted | Decided_Replay | Decided_Queued | Decided_Refused
type_synonym reservation_decision = "reservation_kind \<times> receipt"

text \<open>
  The loop \<open>while (aliases.has(current))\<close>: it could only run forever on a cycle of aliases. One round
  for each alias is enough whenever it ends at all.
\<close>

fun follow_aliases :: "nat \<Rightarrow> (js_text, js_text) js_map \<Rightarrow> js_text \<Rightarrow> js_text" where
  "follow_aliases 0 aliases current = current"
| "follow_aliases (Suc n) aliases current =
     (case js_get aliases current of None \<Rightarrow> current | Some target \<Rightarrow> follow_aliases n aliases target)"

definition alias_root :: "(js_text, js_text) js_map \<Rightarrow> js_text \<Rightarrow> js_text" where
  "alias_root aliases scopeKey = follow_aliases (length aliases) aliases scopeKey"

definition scope_root :: "ledger_env \<Rightarrow> (js_text, js_text) js_map \<Rightarrow> capacity_scope \<Rightarrow> js_text" where
  "scope_root env aliases scope = alias_root aliases (le_key env scope)"

definition notify :: "resource_ledger \<Rightarrow> resource_ledger" where
  "notify l = l\<lparr>rl_calls := rl_calls l @ rl_listeners l\<rparr>"

definition subscribe :: "nat \<Rightarrow> resource_ledger \<Rightarrow> resource_ledger" where
  "subscribe listener l =
     l\<lparr>rl_listeners := if listener \<in> set (rl_listeners l) then rl_listeners l else rl_listeners l @ [listener]\<rparr>"

definition unsubscribe :: "nat \<Rightarrow> resource_ledger \<Rightarrow> resource_ledger" where
  "unsubscribe listener l = l\<lparr>rl_listeners := filter (\<lambda>x. x \<noteq> listener) (rl_listeners l)\<rparr>"

definition make_receipt ::
  "ledger_env \<Rightarrow> (js_text, js_text) js_map \<Rightarrow> js_text \<Rightarrow> admission_state \<Rightarrow> resource_debit option \<Rightarrow> receipt" where
  "make_receipt env aliases rid state debit =
     \<lparr>rc_version = 1, rc_state = state, rc_reservation = le_digest env rid,
      rc_scope = map_option (\<lambda>d. le_digest env (scope_root env aliases (rd_scope d))) debit,
      rc_dimension = map_option (\<lambda>d. sc_dimension (rd_scope d)) debit,
      rc_acquired = (state = State_Admitted), rc_released = False,
      rc_uncertain = (state = State_Uncertain_After_Interruption),
      rc_queuePosition = None, rc_deadline = None\<rparr>"

section \<open>Grouping debits\<close>

record debit_group =
  dg_amount :: int
  dg_limit :: int
  dg_debit :: resource_debit

definition merge_debit :: "debit_group option \<Rightarrow> resource_debit \<Rightarrow> debit_group" where
  "merge_debit previous debit =
     \<lparr>dg_amount = max (case previous of None \<Rightarrow> 0 | Some g \<Rightarrow> dg_amount g) (rd_amount debit),
      dg_limit = min (case previous of None \<Rightarrow> MAX_SAFE_INTEGER | Some g \<Rightarrow> dg_limit g) (rd_limit debit),
      dg_debit = debit\<rparr>"

definition group_debit ::
  "(capacity_scope \<Rightarrow> js_text) \<Rightarrow> resource_debit \<Rightarrow> (js_text, debit_group) js_map \<Rightarrow> (js_text, debit_group) js_map" where
  "group_debit root debit groups =
     (let rid = root (rd_scope debit) in js_set rid (merge_debit (js_get groups rid) debit) groups)"

definition grouped ::
  "(capacity_scope \<Rightarrow> js_text) \<Rightarrow> resource_debit list \<Rightarrow> (js_text, debit_group) js_map" where
  "grouped root debits = fold (group_debit root) debits []"

section \<open>Reserving\<close>

text \<open>\<open>bucket?.used ?? 0\<close> and its like.\<close>

definition used_of :: "bucket option \<Rightarrow> int" where
  "used_of bucket = (case bucket of None \<Rightarrow> 0 | Some b \<Rightarrow> bk_used b)"

definition limit_of :: "int \<Rightarrow> bucket option \<Rightarrow> int" where
  "limit_of fallback bucket = (case bucket of None \<Rightarrow> fallback | Some b \<Rightarrow> bk_limit b)"

definition poisoned_of :: "bucket option \<Rightarrow> bool" where
  "poisoned_of bucket = (case bucket of None \<Rightarrow> False | Some b \<Rightarrow> bk_poisoned b)"

definition debit_valid :: "resource_debit \<Rightarrow> bool" where
  "debit_valid d \<longleftrightarrow>
     scope_valid (rd_scope d) \<and> is_safe_int (rd_amount d) \<and> 0 \<le> rd_amount d \<and>
     is_safe_int (rd_limit d) \<and> 0 \<le> rd_limit d"

definition reservation_invalid :: "js_text \<Rightarrow> reservation_identity \<Rightarrow> resource_debit list \<Rightarrow> bool" where
  "reservation_invalid rid identity debits \<longleftrightarrow>
     \<not> identity_valid identity \<or> length debits = 0 \<or> length debits > 128 \<or>
     list_ex (\<lambda>d. \<not> debit_valid d) debits \<or> length rid = 0 \<or> length rid > 256"

text \<open>The debits name each scope once, and exactly the scopes of the identity.\<close>

definition scopes_differ :: "ledger_env \<Rightarrow> reservation_identity \<Rightarrow> resource_debit list \<Rightarrow> bool" where
  "scopes_differ env identity debits \<longleftrightarrow>
     (let scopes = map (\<lambda>d. le_key env (rd_scope d)) debits in
      length (remdups scopes) \<noteq> length scopes \<or>
      sort scopes \<noteq> sort (map (le_key env) (ri_scopes identity)))"

text \<open>
  The first loop over the groups narrows the limits of the buckets it meets and stops at the first
  group that has to be refused; otherwise it remembers the first group that has to wait.
\<close>

datatype fit = Fits | Must_Wait resource_debit | Must_Refuse resource_debit

fun check_groups ::
  "(js_text \<times> debit_group) list \<Rightarrow> fit \<Rightarrow> (js_text, bucket) js_map \<Rightarrow> fit \<times> (js_text, bucket) js_map" where
  "check_groups [] waiting buckets = (waiting, buckets)"
| "check_groups ((scopeKey, grp) # groups) waiting buckets =
     (let bucket = js_get buckets scopeKey;
          limit = min (limit_of (dg_limit grp) bucket) (dg_limit grp);
          buckets' = js_modify (bk_limit_update (\<lambda>_. limit)) scopeKey buckets;
          poisoned = poisoned_of bucket;
          used = used_of bucket in
      if poisoned \<or> dg_amount grp > limit - used
      then if \<not> poisoned \<and> dg_amount grp \<le> limit \<and> sc_bucketKind (rd_scope (dg_debit grp)) = Occupancy
           then check_groups groups (case waiting of Fits \<Rightarrow> Must_Wait (dg_debit grp) | _ \<Rightarrow> waiting) buckets'
           else (Must_Refuse (dg_debit grp), buckets')
      else check_groups groups waiting buckets')"

definition set_add :: "'a \<Rightarrow> 'a list \<Rightarrow> 'a list" where
  "set_add x xs = (if x \<in> set xs then xs else xs @ [x])"

definition parents_of :: "bucket option \<Rightarrow> js_text list" where
  "parents_of bucket =
     (case bucket of None \<Rightarrow> [] | Some b \<Rightarrow> (case bk_parentScopes b of None \<Rightarrow> [] | Some ps \<Rightarrow> ps))"

definition take_group ::
  "js_text \<Rightarrow> js_text \<times> debit_group \<Rightarrow> (js_text, bucket) js_map \<Rightarrow> (js_text, bucket) js_map" where
  "take_group parentScope entry buckets =
     (let scopeKey = fst entry; grp = snd entry; bucket = js_get buckets scopeKey;
          scope = rd_scope (dg_debit grp) in
      js_set scopeKey
        \<lparr>bk_parentScopes =
           if sc_ownerKind scope = Owner_Task \<or> sc_ownerKind scope = Owner_Agent
           then Some (set_add parentScope (parents_of bucket)) else None,
         bk_scope = scope,
         bk_used = used_of bucket + dg_amount grp,
         bk_limit = min (limit_of (dg_limit grp) bucket) (dg_limit grp),
         bk_poisoned = False\<rparr> buckets)"

definition new_record ::
  "ledger_env \<Rightarrow> reservation_identity \<Rightarrow> resource_debit list \<Rightarrow> receipt \<Rightarrow> (js_text, debit_group) js_map \<Rightarrow> record_entry" where
  "new_record env identity debits admitted groups =
     \<lparr>re_fingerprint = le_fingerprint env identity debits, re_identity = identity, re_debits = debits,
      re_receipt = admitted, re_settled = False,
      re_charges = map (\<lambda>entry. (fst entry, dg_amount (snd entry))) groups\<rparr>"

definition reserve_fresh ::
  "ledger_env \<Rightarrow> js_text \<Rightarrow> reservation_identity \<Rightarrow> resource_debit list \<Rightarrow> resource_ledger \<Rightarrow>
   reservation_decision \<times> resource_ledger" where
  "reserve_fresh env rid identity debits l =
     (let groups = grouped (scope_root env (rl_aliases l)) debits;
          checked = check_groups groups Fits (rl_buckets l);
          l' = l\<lparr>rl_buckets := snd checked\<rparr> in
      case fst checked of
        Must_Refuse debit \<Rightarrow>
          ((Decided_Refused, make_receipt env (rl_aliases l) rid State_Limit_Exceeded (Some debit)), l')
      | Must_Wait debit \<Rightarrow>
          ((Decided_Queued, make_receipt env (rl_aliases l) rid State_Queued (Some debit)), l')
      | Fits \<Rightarrow>
          let admitted = make_receipt env (rl_aliases l) rid State_Admitted None in
          ((Decided_Admitted, admitted),
           l'\<lparr>rl_buckets := fold (take_group (ri_parentScope identity)) groups (rl_buckets l'),
              rl_records := js_set rid (new_record env identity debits admitted groups) (rl_records l')\<rparr>))"

definition ledger_reserve ::
  "ledger_env \<Rightarrow> js_text \<Rightarrow> reservation_identity \<Rightarrow> resource_debit list \<Rightarrow> resource_ledger \<Rightarrow>
   reservation_decision \<times> resource_ledger" where
  "ledger_reserve env rid identity debits l =
     (let refuse = (\<lambda>state. ((Decided_Refused, make_receipt env (rl_aliases l) rid state None), l)) in
      if reservation_invalid rid identity debits then refuse State_Quota_Unknown
      else if scopes_differ env identity debits then refuse State_Stale_Generation
      else case js_get (rl_records l) rid of
             Some previous \<Rightarrow>
               if re_fingerprint previous = le_fingerprint env identity debits
               then ((Decided_Replay, re_receipt previous), l)
               else refuse State_Stale_Generation
           | None \<Rightarrow>
               if length (rl_records l) \<ge> le_maxRecords env \<or>
                  length (rl_buckets l) + length debits > le_maxRecords env * 16
               then refuse State_Limit_Exceeded
               else reserve_fresh env rid identity debits l)"

section \<open>Settling\<close>

definition actual_invalid :: "ledger_env \<Rightarrow> record_entry \<Rightarrow> resource_debit list \<Rightarrow> bool" where
  "actual_invalid env rcd actual \<longleftrightarrow>
     length actual \<noteq> length (re_debits rcd) \<or>
     length (remdups (map (\<lambda>d. le_key env (rd_scope d)) actual)) \<noteq> length (re_debits rcd) \<or>
     list_ex (\<lambda>d. \<not> is_safe_int (rd_amount d) \<or> rd_amount d < 0 \<or>
        \<not> list_ex (\<lambda>reserved. le_key env (rd_scope reserved) = le_key env (rd_scope d)) (re_debits rcd)) actual"

text \<open>\<open>new Map\<close> over the actual debits: a later entry replaces an earlier one with the same key.\<close>

definition actual_amounts :: "ledger_env \<Rightarrow> resource_debit list option \<Rightarrow> (js_text, int) js_map" where
  "actual_amounts env actual =
     fold (\<lambda>d m. js_set (le_key env (rd_scope d)) (rd_amount d) m) (case actual of None \<Rightarrow> [] | Some ds \<Rightarrow> ds) []"

definition settled_debit ::
  "ledger_env \<Rightarrow> (js_text, int) js_map \<Rightarrow> bool \<Rightarrow> resource_debit \<Rightarrow> resource_debit" where
  "settled_debit env actualByKey terminated debit =
     debit\<lparr>rd_amount :=
        if sc_bucketKind (rd_scope debit) = Occupancy
        then if terminated then 0 else rd_amount debit
        else case js_get actualByKey (le_key env (rd_scope debit)) of None \<Rightarrow> rd_amount debit | Some a \<Rightarrow> a\<rparr>"

definition add_charge ::
  "(js_text, js_text) js_map \<Rightarrow> js_text \<times> int \<Rightarrow> (js_text, int) js_map \<Rightarrow> (js_text, int) js_map" where
  "add_charge aliases charge m =
     (let canonical = alias_root aliases (fst charge) in
      js_set canonical ((case js_get m canonical of None \<Rightarrow> 0 | Some v \<Rightarrow> v) + snd charge) m)"

definition charge_roots :: "(js_text, js_text) js_map \<Rightarrow> (js_text, int) js_map \<Rightarrow> (js_text, int) js_map" where
  "charge_roots aliases charges = fold (add_charge aliases) charges []"

definition exceeds ::
  "(capacity_scope \<Rightarrow> js_text) \<Rightarrow> resource_debit list \<Rightarrow> resource_debit list \<Rightarrow> js_text \<Rightarrow> bool" where
  "exceeds root debits settledDebits scopeKey \<longleftrightarrow>
     list_ex (\<lambda>(debit, reserved). root (rd_scope debit) = scopeKey \<and> rd_amount debit > rd_amount reserved)
       (zip settledDebits debits)"

datatype 'a thrown = Returns 'a | Throws

text \<open>
  The loop over the charged buckets: what was reserved on a bucket is replaced by what was used. A
  bucket that is missing raises the code's own error.
\<close>

definition next_used :: "(js_text, debit_group) js_map \<Rightarrow> js_text \<Rightarrow> int \<Rightarrow> bucket \<Rightarrow> int" where
  "next_used groups scopeKey reserved bucket =
     bk_used bucket - reserved + (case js_get groups scopeKey of None \<Rightarrow> reserved | Some g \<Rightarrow> dg_amount g)"

definition settle_bucket ::
  "(js_text \<Rightarrow> bool) \<Rightarrow> (js_text, debit_group) js_map \<Rightarrow> js_text \<Rightarrow> int \<Rightarrow> bucket \<Rightarrow> bucket" where
  "settle_bucket exceeded groups scopeKey reserved bucket =
     (let n = next_used groups scopeKey reserved bucket in
      bucket\<lparr>bk_poisoned := bk_poisoned bucket \<or> exceeded scopeKey \<or> \<not> is_safe_int n,
             bk_used := if is_safe_int n then n else bk_used bucket\<rparr>)"

fun settle_charges ::
  "(js_text \<Rightarrow> bool) \<Rightarrow> (js_text, debit_group) js_map \<Rightarrow> (js_text \<times> int) list \<Rightarrow> bool \<Rightarrow>
   (js_text, bucket) js_map \<Rightarrow> (bool \<times> (js_text, bucket) js_map) thrown" where
  "settle_charges exceeded groups [] overrun buckets = Returns (overrun, buckets)"
| "settle_charges exceeded groups ((scopeKey, reserved) # charged) overrun buckets =
     (case js_get buckets scopeKey of
        None \<Rightarrow> Throws
      | Some bucket \<Rightarrow>
          settle_charges exceeded groups charged
            (overrun \<or> exceeded scopeKey \<or> \<not> is_safe_int (next_used groups scopeKey reserved bucket))
            (js_set scopeKey (settle_bucket exceeded groups scopeKey reserved bucket) buckets))"

definition settled_record ::
  "record_entry \<Rightarrow> (js_text, debit_group) js_map \<Rightarrow> bool \<Rightarrow> bool \<Rightarrow> record_entry" where
  "settled_record rcd settledGroups overrun terminated =
     rcd\<lparr>re_charges := map (\<lambda>entry. (fst entry, dg_amount (snd entry))) settledGroups,
         re_settled := terminated,
         re_receipt := (re_receipt rcd)
           \<lparr>rc_state := if overrun then State_Limit_Exceeded else if terminated then State_Admitted
                       else State_Uncertain_After_Interruption,
            rc_released := terminated, rc_uncertain := \<not> terminated\<rparr>\<rparr>"

definition ledger_settle ::
  "ledger_env \<Rightarrow> js_text \<Rightarrow> resource_debit list option \<Rightarrow> bool \<Rightarrow> resource_ledger \<Rightarrow>
   (receipt option \<times> resource_ledger) thrown" where
  "ledger_settle env rid actual terminated l =
     (case js_get (rl_records l) rid of
        None \<Rightarrow> Returns (None, l)
      | Some rcd \<Rightarrow>
          if re_settled rcd then Returns (Some (re_receipt rcd), l)
          else if case_option False (actual_invalid env rcd) actual then Returns (None, l)
          else
            let root = scope_root env (rl_aliases l);
                settledDebits = map (settled_debit env (actual_amounts env actual) terminated) (re_debits rcd);
                settledGroups = grouped root settledDebits in
            case settle_charges (exceeds root (re_debits rcd) settledDebits) settledGroups
                   (charge_roots (rl_aliases l) (re_charges rcd)) False (rl_buckets l) of
              Throws \<Rightarrow> Throws
            | Returns (overrun, buckets) \<Rightarrow>
                let rcd' = settled_record rcd settledGroups overrun terminated in
                Returns (Some (re_receipt rcd'),
                  notify (l\<lparr>rl_buckets := buckets, rl_records := js_set rid rcd' (rl_records l)\<rparr>)))"

section \<open>Aliases, limits and closing\<close>

definition joinAliases ::
  "ledger_env \<Rightarrow> capacity_scope \<Rightarrow> capacity_scope \<Rightarrow> resource_ledger \<Rightarrow> bool \<times> resource_ledger" where
  "joinAliases env left right l =
     (if \<not> scope_valid left \<or> \<not> scope_valid right \<or> sc_dimension left \<noteq> sc_dimension right \<or>
         sc_bucketKind left \<noteq> sc_bucketKind right
      then (False, l)
      else
        let a = scope_root env (rl_aliases l) left; b = scope_root env (rl_aliases l) right in
        if a = b then (True, l)
        else if length (rl_aliases l) \<ge> le_maxRecords env then (False, l)
        else
          let first = js_get (rl_buckets l) a; second = js_get (rl_buckets l) b;
              used = used_of first + used_of second in
          if \<not> is_safe_int used then (False, l)
          else (True, notify (l\<lparr>rl_aliases := js_set b a (rl_aliases l),
                 rl_buckets := js_delete b (js_set a
                   \<lparr>bk_parentScopes = Some (fold set_add (parents_of second) (parents_of first)),
                    bk_scope = left, bk_used = used,
                    bk_limit = min (limit_of MAX_SAFE_INTEGER first) (limit_of MAX_SAFE_INTEGER second),
                    bk_poisoned = poisoned_of first \<or> poisoned_of second\<rparr> (rl_buckets l))\<rparr>)))"

definition ledger_remaining :: "ledger_env \<Rightarrow> capacity_scope \<Rightarrow> int \<Rightarrow> resource_ledger \<Rightarrow> int" where
  "ledger_remaining env scope limit l =
     (let bucket = js_get (rl_buckets l) (scope_root env (rl_aliases l) scope) in
      if poisoned_of bucket then 0 else max 0 (min limit (limit_of limit bucket) - used_of bucket))"

definition ledger_narrow ::
  "ledger_env \<Rightarrow> capacity_scope \<Rightarrow> int \<Rightarrow> js_text \<Rightarrow> resource_ledger \<Rightarrow> resource_ledger thrown" where
  "ledger_narrow env scope limit parentScope l =
     (if \<not> scope_valid scope \<or> \<not> is_safe_int limit \<or> limit < 0 then Throws
      else
        let scopeKey = scope_root env (rl_aliases l) scope; bucket = js_get (rl_buckets l) scopeKey in
        Returns (notify (l\<lparr>rl_buckets := js_set scopeKey
          \<lparr>bk_parentScopes = Some (set_add parentScope (parents_of bucket)),
           bk_scope = scope, bk_used = used_of bucket, bk_limit = min (limit_of limit bucket) limit,
           bk_poisoned = poisoned_of bucket\<rparr> (rl_buckets l)\<rparr>)))"

definition conflict_prefix :: js_text where "conflict_prefix = ascii ''conflict:''"

definition closable :: "js_text list \<Rightarrow> js_text \<Rightarrow> bucket \<Rightarrow> bool" where
  "closable referenced scopeKey bucket \<longleftrightarrow>
     scopeKey \<notin> set referenced \<and>
     ((sc_ownerKind (bk_scope bucket) = Owner_Task \<or>
       sc_ownerKind (bk_scope bucket) = Owner_Agent \<and> sc_family (bk_scope bucket) = ascii ''child'') \<and>
      bk_parentScopes bucket = Some [] \<or>
      bk_used bucket = 0 \<and> take (length conflict_prefix) (sc_family (bk_scope bucket)) = conflict_prefix)"

definition closeTask :: "ledger_env \<Rightarrow> js_text \<Rightarrow> resource_ledger \<Rightarrow> resource_ledger" where
  "closeTask env parentScope l =
     (let records = filter (\<lambda>r. \<not> (ri_parentScope (re_identity (snd r)) = parentScope \<and> re_settled (snd r))) (rl_records l);
          referenced = concat (map (\<lambda>r. map (\<lambda>d. scope_root env (rl_aliases l) (rd_scope d)) (re_debits (snd r))) records);
          left = map (\<lambda>b. (fst b, (snd b)\<lparr>bk_parentScopes :=
                       map_option (filter (\<lambda>p. p \<noteq> parentScope)) (bk_parentScopes (snd b))\<rparr>)) (rl_buckets l) in
      l\<lparr>rl_records := records, rl_buckets := filter (\<lambda>b. \<not> closable referenced (fst b) (snd b)) left\<rparr>)"

record ledger_report =
  lr_reservations :: nat
  lr_buckets :: nat
  lr_uncertain :: nat

definition resource_report :: "resource_ledger \<Rightarrow> ledger_report" where
  "resource_report l =
     \<lparr>lr_reservations = length (rl_records l), lr_buckets = length (rl_buckets l),
      lr_uncertain = length (filter (\<lambda>r. rc_uncertain (re_receipt (snd r))) (rl_records l))\<rparr>"

end
