(* ===== verification/Resource_Accounting.thy ===== *)
theory Resource_Accounting
  imports Resource_Ledger
begin

text \<open>
  What the capacity ledger promises: aliases always resolve, a reservation is admitted whole or not at
  all and never past a limit, joining two names creates no capacity, and the capacity of every
  outstanding reservation is accounted in a bucket that exists.
\<close>

section \<open>Aliases\<close>

text \<open>An alias is recorded from one root to another, so each entry points to a name no earlier entry renames.\<close>

definition points_forward :: "(js_text, js_text) js_map \<Rightarrow> bool" where
  "points_forward al \<longleftrightarrow> js_wf al \<and> (\<forall>i < length al. \<forall>j \<le> i. snd (al ! i) \<noteq> fst (al ! j))"

lemma follow_unaliased: "js_get al k = None \<Longrightarrow> follow_aliases n al k = k"
  by (cases n) auto

lemma follow_ends:
  assumes "points_forward al"
  shows "i < length al \<Longrightarrow> length al - i \<le> n \<Longrightarrow> js_get al (follow_aliases n al (fst (al ! i))) = None"
proof (induction n arbitrary: i)
  case (Suc n)
  let ?t = "snd (al ! i)"
  have get: "js_get al (fst (al ! i)) = Some ?t"
    using assms Suc.prems(1) by (intro js_set_in_get) (simp_all add: points_forward_def)
  show ?case
  proof (cases "js_get al ?t")
    case None
    with get show ?thesis by (simp add: follow_unaliased)
  next
    case (Some u)
    then obtain j where j: "j < length al" "al ! j = (?t, u)" by (metis in_set_conv_nth js_get_in_set)
    have "i < j"
    proof (rule ccontr)
      assume "\<not> i < j"
      then have "?t \<noteq> fst (al ! j)" using assms Suc.prems(1) by (auto simp: points_forward_def)
      with j(2) show False by simp
    qed
    then have "length al - j \<le> n" using Suc.prems by linarith
    from Suc.IH [OF j(1) this] get j(2) show ?thesis by simp
  qed
qed simp

lemma root_unaliased: "points_forward al \<Longrightarrow> js_get al (alias_root al k) = None"
proof (cases "js_get al k")
  case (Some t)
  assume fwd: "points_forward al"
  from Some obtain i where "i < length al" "al ! i = (k, t)" by (metis in_set_conv_nth js_get_in_set)
  with follow_ends [OF fwd, of i "length al"] show ?thesis by (simp add: alias_root_def)
qed (simp add: alias_root_def follow_unaliased)

lemma root_fixed: "js_get al k = None \<Longrightarrow> alias_root al k = k"
  by (simp add: alias_root_def follow_unaliased)

lemma root_root [simp]: "points_forward al \<Longrightarrow> alias_root al (alias_root al k) = alias_root al k"
  by (rule root_fixed) (rule root_unaliased)

lemma follow_extend:
  assumes "js_get al a = None" "a \<noteq> b" "js_get al b = None"
  shows "js_get al (follow_aliases n al k) = None \<Longrightarrow>
    follow_aliases (Suc n) (al @ [(b, a)]) k =
      (if follow_aliases n al k = b then a else follow_aliases n al k)"
proof (induction n arbitrary: k)
  case 0
  then show ?case by (simp add: map_add_def)
next
  case (Suc n)
  have unaliased: "js_get (al @ [(b, a)]) a = None" using assms by (simp add: map_add_def)
  show ?case
  proof (cases "js_get al k")
    case None
    then have "js_get (al @ [(b, a)]) k = (if k = b then Some a else None)" by (simp add: map_add_def)
    with None follow_unaliased [OF unaliased, of "Suc n"] show ?thesis
      by (simp only: follow_aliases.simps(2) [of "Suc n"] follow_unaliased [OF None])
         (simp split: if_splits)
  next
    case (Some t)
    then have "js_get (al @ [(b, a)]) k = Some t" using assms by (auto simp: map_add_def)
    with Some Suc show ?thesis by simp
  qed
qed

lemma root_join:
  assumes "points_forward al" "js_get al a = None" "js_get al b = None" "a \<noteq> b"
  shows "alias_root (js_set b a al) k = (if alias_root al k = b then a else alias_root al k)"
  using follow_extend [OF assms(2,4,3), of "length al" k] root_unaliased [OF assms(1), of k]
  unfolding js_set_fresh [OF assms(3)] alias_root_def by simp

lemma forward_join:
  assumes "points_forward al" "js_get al a = None" "js_get al b = None" "a \<noteq> b"
  shows "points_forward (js_set b a al)"
proof -
  have fresh: "fst (al ! j) \<noteq> a" if "j < length al" for j
  proof
    assume "fst (al ! j) = a"
    then have "a \<in> set (js_keys al)" using that by (metis nth_map nth_mem length_map)
    with assms(2) show False unfolding js_keys_iff by simp
  qed
  have "snd ((al @ [(b, a)]) ! i) \<noteq> fst ((al @ [(b, a)]) ! j)" if "i < Suc (length al)" "j \<le> i" for i j
  proof (cases "i < length al")
    case True
    with that assms(1) show ?thesis by (auto simp: points_forward_def nth_append)
  next
    case False
    with that fresh assms(4) show ?thesis by (cases "j < length al") (auto simp: nth_append)
  qed
  moreover have "js_wf (js_set b a al)" using assms(1) by (simp add: points_forward_def)
  ultimately show ?thesis unfolding points_forward_def js_set_fresh [OF assms(3)] by simp
qed

section \<open>Grouping\<close>

lemma get_grouped:
  "js_get (fold (group_debit root) ds m) k =
     fold (\<lambda>d g. Some (merge_debit g d)) (filter (\<lambda>d. root (rd_scope d) = k) ds) (js_get m k)"
  by (induction ds arbitrary: m) (simp_all add: group_debit_def Let_def)

lemma wf_grouped [simp]: "js_wf (grouped root ds)"
proof -
  have "js_wf m \<Longrightarrow> js_wf (fold (group_debit root) ds m)" for m
    by (induction ds arbitrary: m) (simp_all add: group_debit_def Let_def)
  then show ?thesis by (simp add: grouped_def)
qed

lemma merged_group:
  "\<exists>g. fold (\<lambda>d g. Some (merge_debit g d)) ds (Some g0) = Some g \<and>
     dg_amount g = fold (\<lambda>d. max (rd_amount d)) ds (dg_amount g0) \<and>
     dg_limit g = fold (\<lambda>d. min (rd_limit d)) ds (dg_limit g0)"
proof (induction ds arbitrary: g0)
  case (Cons d ds)
  from Cons.IH [of "merge_debit (Some g0) d"] show ?case
    by (simp add: merge_debit_def max.commute min.commute)
qed simp

text \<open>The largest amount among some debits: what they are charged when they name one bucket.\<close>

definition peak :: "resource_debit list \<Rightarrow> int" where
  "peak ds = fold (\<lambda>d. max (rd_amount d)) ds 0"

lemma fold_max:
  fixes f :: "'a \<Rightarrow> int"
  shows "a \<le> fold (\<lambda>d. max (f d)) ds a \<and> (\<forall>d \<in> set ds. f d \<le> fold (\<lambda>d. max (f d)) ds a) \<and>
    (fold (\<lambda>d. max (f d)) ds a = a \<or> (\<exists>d \<in> set ds. fold (\<lambda>d. max (f d)) ds a = f d))"
proof (induction ds arbitrary: a)
  case (Cons d ds)
  from Cons.IH [of "max (f d) a"] show ?case by (auto simp: max_def split: if_splits)
qed simp

lemma fold_min:
  fixes f :: "'a \<Rightarrow> int"
  shows "fold (\<lambda>d. min (f d)) ds a \<le> a \<and> (\<forall>d \<in> set ds. fold (\<lambda>d. min (f d)) ds a \<le> f d)"
proof (induction ds arbitrary: a)
  case (Cons d ds)
  from Cons.IH [of "min (f d) a"] show ?case by auto
qed simp

lemma peak_nonneg: "0 \<le> peak ds"
  using fold_max [of 0 rd_amount ds] by (simp add: peak_def)

lemma peak_ge: "d \<in> set ds \<Longrightarrow> rd_amount d \<le> peak ds"
  using fold_max [of 0 rd_amount ds] by (simp add: peak_def)

lemma peak_zero: "\<forall>d \<in> set ds. rd_amount d \<le> 0 \<Longrightarrow> peak ds = 0"
  using fold_max [of 0 rd_amount ds] unfolding peak_def by force

lemma grouped_None: "js_get (grouped root ds) k = None \<longleftrightarrow> k \<notin> (\<lambda>d. root (rd_scope d)) ` set ds"
proof -
  have some: "fold (\<lambda>d g. Some (merge_debit g d)) ds (Some g) \<noteq> None" for ds g
    by (induction ds arbitrary: g) simp_all
  show ?thesis
  proof (cases "filter (\<lambda>d. root (rd_scope d) = k) ds")
    case Nil
    then show ?thesis by (auto simp: grouped_def get_grouped filter_empty_conv)
  next
    case (Cons d rest)
    then have "d \<in> set ds" "root (rd_scope d) = k"
      using filter_set [of "\<lambda>d. root (rd_scope d) = k" ds] by auto
    with Cons show ?thesis by (auto simp: grouped_def get_grouped some)
  qed
qed

lemma grouped_Some:
  assumes "js_get (grouped root ds) k = Some g" "\<forall>d \<in> set ds. rd_limit d \<le> MAX_SAFE_INTEGER"
  shows "dg_amount g = peak (filter (\<lambda>d. root (rd_scope d) = k) ds)"
    and "d \<in> set ds \<Longrightarrow> root (rd_scope d) = k \<Longrightarrow> dg_limit g \<le> rd_limit d"
proof -
  let ?F = "filter (\<lambda>d. root (rd_scope d) = k) ds"
  have get: "fold (\<lambda>d g. Some (merge_debit g d)) ?F None = Some g"
    using assms(1) by (simp add: grouped_def get_grouped)
  then obtain d0 rest where F: "?F = d0 # rest" by (cases ?F) auto
  from merged_group [of rest "merge_debit None d0"] get
  have g: "dg_amount g = fold (\<lambda>d. max (rd_amount d)) rest (max (rd_amount d0) 0)"
    "dg_limit g = fold (\<lambda>d. min (rd_limit d)) rest (min (rd_limit d0) MAX_SAFE_INTEGER)"
    by (auto simp: F merge_debit_def max.commute min.commute)
  show "dg_amount g = peak ?F" by (simp add: F g(1) peak_def)
  have "dg_limit g = fold (\<lambda>d. min (rd_limit d)) ?F MAX_SAFE_INTEGER" by (simp add: F g(2))
  with fold_min [of rd_limit ?F MAX_SAFE_INTEGER]
  show "d \<in> set ds \<Longrightarrow> root (rd_scope d) = k \<Longrightarrow> dg_limit g \<le> rd_limit d" by simp
qed

section \<open>Checking and taking groups\<close>

text \<open>Two states of the buckets that differ in limits only, the later ones no larger.\<close>

definition narrowed :: "bucket \<Rightarrow> bucket \<Rightarrow> bool" where
  "narrowed b b' \<longleftrightarrow> bk_parentScopes b' = bk_parentScopes b \<and> bk_scope b' = bk_scope b \<and> bk_used b' = bk_used b \<and>
     bk_poisoned b' = bk_poisoned b \<and> bk_limit b' \<le> bk_limit b"

definition only_limits :: "(js_text, bucket) js_map \<Rightarrow> (js_text, bucket) js_map \<Rightarrow> bool" where
  "only_limits bs bs' \<longleftrightarrow> js_keys bs' = js_keys bs \<and> (\<forall>k. rel_option narrowed (js_get bs k) (js_get bs' k))"

lemma only_limits_refl: "only_limits bs bs"
  by (simp add: only_limits_def narrowed_def option.rel_refl)

lemma only_limits_trans: "only_limits bs bs' \<Longrightarrow> only_limits bs' bs'' \<Longrightarrow> only_limits bs bs''"
proof -
  assume left: "only_limits bs bs'" and right: "only_limits bs' bs''"
  have "rel_option narrowed (js_get bs k) (js_get bs'' k)" for k
  proof -
    from left right have "rel_option narrowed (js_get bs k) (js_get bs' k)" "rel_option narrowed (js_get bs' k) (js_get bs'' k)"
      by (simp_all add: only_limits_def)
    then show ?thesis
      by (cases "js_get bs k"; cases "js_get bs' k"; cases "js_get bs'' k") (auto simp: narrowed_def)
  qed
  with left right show ?thesis by (simp add: only_limits_def)
qed

lemma only_limits_facts:
  assumes "only_limits bs bs'"
  shows "used_of (js_get bs' k) = used_of (js_get bs k)" "poisoned_of (js_get bs' k) = poisoned_of (js_get bs k)"
    "js_get bs' k = None \<longleftrightarrow> js_get bs k = None" "js_wf bs' = js_wf bs" "length bs' = length bs"
    "limit_of m (js_get bs' k) \<le> limit_of m (js_get bs k)"
proof -
  have keys: "js_keys bs' = js_keys bs" and "rel_option narrowed (js_get bs k) (js_get bs' k)"
    using assms by (simp_all add: only_limits_def)
  from this(2) show "used_of (js_get bs' k) = used_of (js_get bs k)" "poisoned_of (js_get bs' k) = poisoned_of (js_get bs k)"
    "js_get bs' k = None \<longleftrightarrow> js_get bs k = None" "limit_of m (js_get bs' k) \<le> limit_of m (js_get bs k)"
    by (cases "js_get bs k"; cases "js_get bs' k"; auto simp: used_of_def poisoned_of_def limit_of_def narrowed_def)+
  show "js_wf bs' = js_wf bs" by (simp only: keys)
  show "length bs' = length bs" using keys by (metis length_map)
qed

lemma only_limits_modify:
  "limit \<le> limit_of limit (js_get bs k) \<Longrightarrow> only_limits bs (js_modify (bk_limit_update (\<lambda>_. limit)) k bs)"
  by (auto simp: only_limits_def narrowed_def limit_of_def option.rel_refl split: option.splits)

text \<open>
  One round of the loop: the bucket takes the narrower limit; then the group fits, has to wait for
  occupancy to be released, or is refused.
\<close>

definition narrow_bucket :: "js_text \<Rightarrow> debit_group \<Rightarrow> (js_text, bucket) js_map \<Rightarrow> (js_text, bucket) js_map" where
  "narrow_bucket k grp bs =
     js_modify (bk_limit_update (\<lambda>_. min (limit_of (dg_limit grp) (js_get bs k)) (dg_limit grp))) k bs"

definition room_for :: "(js_text, bucket) js_map \<Rightarrow> js_text \<Rightarrow> debit_group \<Rightarrow> bool" where
  "room_for bs k grp \<longleftrightarrow> \<not> poisoned_of (js_get bs k) \<and>
     used_of (js_get bs k) + dg_amount grp \<le> min (limit_of (dg_limit grp) (js_get bs k)) (dg_limit grp)"

definition may_wait :: "(js_text, bucket) js_map \<Rightarrow> js_text \<Rightarrow> debit_group \<Rightarrow> bool" where
  "may_wait bs k grp \<longleftrightarrow> \<not> poisoned_of (js_get bs k) \<and>
     dg_amount grp \<le> min (limit_of (dg_limit grp) (js_get bs k)) (dg_limit grp) \<and>
     sc_bucketKind (rd_scope (dg_debit grp)) = Occupancy"

lemma if_not: "(if \<not> P then x else y) = (if P then y else x)"
  by simp

lemma check_groups_round:
  "check_groups ((k, grp) # groups) w bs =
     (if room_for bs k grp then check_groups groups w (narrow_bucket k grp bs)
      else if may_wait bs k grp
      then check_groups groups (case w of Fits \<Rightarrow> Must_Wait (dg_debit grp) | _ \<Rightarrow> w) (narrow_bucket k grp bs)
      else (Must_Refuse (dg_debit grp), narrow_bucket k grp bs))"
proof -
  have full: "(poisoned_of (js_get bs k) \<or>
      dg_amount grp > min (limit_of (dg_limit grp) (js_get bs k)) (dg_limit grp) - used_of (js_get bs k)) =
      (\<not> room_for bs k grp)"
    by (auto simp: room_for_def)
  show ?thesis
    unfolding check_groups.simps Let_def full narrow_bucket_def may_wait_def by (rule if_not)
qed

declare check_groups.simps(2) [simp del]
declare check_groups_round [simp]

lemma narrow_bucket_limits: "only_limits bs (narrow_bucket k grp bs)"
  unfolding narrow_bucket_def by (rule only_limits_modify) (cases "js_get bs k"; simp add: limit_of_def)

lemma check_groups_limits: "only_limits bs (snd (check_groups groups w bs))"
proof (induction groups arbitrary: w bs)
  case (Cons e groups)
  obtain k grp where e: "e = (k, grp)" by fastforce
  from Cons.IH narrow_bucket_limits [of bs k grp] show ?case
    unfolding e check_groups_round by (auto intro: only_limits_trans)
qed (simp add: only_limits_refl)

text \<open>When every group fits, each bucket is healthy and has room, and takes the narrower limit.\<close>

lemma check_groups_fits:
  "fst (check_groups groups w bs) = Fits \<Longrightarrow> distinct (map fst groups) \<Longrightarrow>
     w = Fits \<and> (\<forall>(k, grp) \<in> set groups. room_for bs k grp)"
proof (induction groups arbitrary: w bs)
  case (Cons e groups)
  obtain k grp where e: "e = (k, grp)" by fastforce
  let ?bs' = "narrow_bucket k grp bs"
  have room: "room_for bs k grp"
  proof (rule ccontr)
    assume "\<not> room_for bs k grp"
    with Cons.prems(1) have "fst (check_groups groups (case w of Fits \<Rightarrow> Must_Wait (dg_debit grp) | _ \<Rightarrow> w) ?bs') = Fits"
      by (simp add: e split: if_splits)
    from Cons.IH [OF this] Cons.prems(2) show False by (cases w) simp_all
  qed
  with Cons.prems have "fst (check_groups groups w ?bs') = Fits" by (simp add: e)
  from Cons.IH [OF this] Cons.prems(2) have rest: "w = Fits" "\<forall>(k', grp') \<in> set groups. room_for ?bs' k' grp'"
    by simp_all
  have "room_for bs k' grp'" if "(k', grp') \<in> set groups" for k' grp'
  proof -
    have "k' \<noteq> k" using that Cons.prems(2) by (force simp: e)
    then have "js_get ?bs' k' = js_get bs k'" by (simp add: narrow_bucket_def)
    moreover have "room_for ?bs' k' grp'" using rest(2) that by blast
    ultimately show ?thesis by (simp add: room_for_def)
  qed
  with rest(1) room show ?case by (auto simp: e)
qed simp

lemma check_groups_get:
  "fst (check_groups groups w bs) = Fits \<Longrightarrow> distinct (map fst groups) \<Longrightarrow>
   js_get (snd (check_groups groups w bs)) k =
     (case js_get groups k of None \<Rightarrow> js_get bs k | Some grp \<Rightarrow> js_get (narrow_bucket k grp bs) k)"
proof (induction groups arbitrary: w bs)
  case (Cons e groups)
  obtain k0 grp where e: "e = (k0, grp)" by fastforce
  have room: "room_for bs k0 grp" using check_groups_fits [OF Cons.prems] by (simp add: e)
  with Cons.prems(1) have fits: "fst (check_groups groups w (narrow_bucket k0 grp bs)) = Fits" by (simp add: e)
  have new: "js_get groups k0 = None" using Cons.prems(2) by (simp add: e map_of_eq_None_iff)
  from Cons.IH [OF fits] Cons.prems(2) room new show ?case
    by (auto simp: e narrow_bucket_def split: option.splits)
qed simp

lemma check_groups_room:
  assumes "fst (check_groups groups w bs) = Fits" "distinct (map fst groups)"
  shows "\<forall>(k, grp) \<in> set groups. room_for (snd (check_groups groups w bs)) k grp"
proof (intro ballI, clarify)
  fix k grp assume mem: "(k, grp) \<in> set groups"
  with assms(2) have "js_get groups k = Some grp" by (simp add: js_set_in_get)
  with check_groups_get [OF assms, of k] have "js_get (snd (check_groups groups w bs)) k = js_get (narrow_bucket k grp bs) k"
    by simp
  moreover have "room_for bs k grp" using check_groups_fits [OF assms] mem by blast
  ultimately show "room_for (snd (check_groups groups w bs)) k grp"
    by (cases "js_get bs k") (simp_all add: room_for_def narrow_bucket_def used_of_def poisoned_of_def limit_of_def)
qed

lemma get_take_groups:
  "distinct (map fst groups) \<Longrightarrow>
   js_get (fold (take_group p) groups bs) k =
     (case js_get groups k of None \<Rightarrow> js_get bs k | Some grp \<Rightarrow> js_get (take_group p (k, grp) bs) k)"
proof (induction groups arbitrary: bs)
  case (Cons g groups)
  obtain k0 g0 where g: "g = (k0, g0)" by fastforce
  with Cons.prems have new: "js_get groups k0 = None" by (simp add: map_of_eq_None_iff)
  show ?case
    using Cons new by (auto simp: g take_group_def Let_def split: option.splits)
qed simp

lemma wf_take_groups: "js_wf bs \<Longrightarrow> js_wf (fold (take_group p) groups bs)"
  by (induction groups arbitrary: bs) (simp_all add: take_group_def Let_def)

section \<open>Charges\<close>

text \<open>What a list of charges puts on the bucket of a root, and what all records put on it.\<close>

definition charge_at :: "(js_text, js_text) js_map \<Rightarrow> (js_text, int) js_map \<Rightarrow> js_text \<Rightarrow> int" where
  "charge_at al charges k = sum_list (map (\<lambda>c. if alias_root al (fst c) = k then snd c else 0) charges)"

definition outstanding :: "resource_ledger \<Rightarrow> js_text \<Rightarrow> int" where
  "outstanding l k = sum_list (map (\<lambda>r. charge_at (rl_aliases l) (re_charges (snd r)) k) (rl_records l))"

lemma get_add_charges:
  "js_get (fold (add_charge al) cs m) k =
     (if k \<in> (\<lambda>c. alias_root al (fst c)) ` set cs
      then Some ((case js_get m k of None \<Rightarrow> 0 | Some v \<Rightarrow> v) + charge_at al cs k) else js_get m k)"
proof (induction cs arbitrary: m)
  case (Cons c cs)
  have none: "charge_at al cs k = 0" if "k \<notin> (\<lambda>c. alias_root al (fst c)) ` set cs"
    unfolding charge_at_def using that by (intro sum_list_map_zero) auto
  have first: "charge_at al (c # cs) k = (if alias_root al (fst c) = k then snd c else 0) + charge_at al cs k"
    by (simp add: charge_at_def)
  have get: "js_get (add_charge al c m) k =
      (if alias_root al (fst c) = k then Some ((case js_get m k of None \<Rightarrow> 0 | Some v \<Rightarrow> v) + snd c) else js_get m k)"
    by (auto simp: add_charge_def Let_def)
  have mem: "k \<in> (\<lambda>c. alias_root al (fst c)) ` set (c # cs) \<longleftrightarrow>
      alias_root al (fst c) = k \<or> k \<in> (\<lambda>c. alias_root al (fst c)) ` set cs" by auto
  show ?case
    unfolding fold.simps(2) comp_apply Cons.IH get mem first using none by simp
qed simp

lemma get_charge_roots:
  "js_get (charge_roots al cs) k =
     (if k \<in> (\<lambda>c. alias_root al (fst c)) ` set cs then Some (charge_at al cs k) else None)"
  unfolding charge_roots_def by (simp add: get_add_charges)

lemma wf_charge_roots: "js_wf (charge_roots al cs)"
proof -
  have "js_wf m \<Longrightarrow> js_wf (fold (add_charge al) cs m)" for m
    by (induction cs arbitrary: m) (simp_all add: add_charge_def Let_def)
  then show ?thesis by (simp add: charge_roots_def)
qed

text \<open>The charges of a grouping: each group's amount on its own root.\<close>

lemma charge_at_groups:
  assumes "js_wf groups" "\<forall>k \<in> set (js_keys groups). alias_root al k = k"
  shows "charge_at al (map (\<lambda>e. (fst e, dg_amount (snd e))) groups) k =
    (case js_get groups k of None \<Rightarrow> 0 | Some g \<Rightarrow> dg_amount g)"
  using assms
proof (induction groups)
  case (Cons e groups)
  obtain k0 g0 where e: "e = (k0, g0)" by fastforce
  from Cons.prems(1) have new: "js_get groups k0 = None" by (simp add: e map_of_eq_None_iff)
  have first: "charge_at al ((k0, a) # cs) k = (if alias_root al k0 = k then a else 0) + charge_at al cs k" for a cs
    by (simp add: charge_at_def)
  from Cons.IH Cons.prems new show ?case by (simp add: e first)
qed (simp add: charge_at_def)

lemma settle_charges_returns:
  assumes "distinct (map fst charged)" "\<forall>k \<in> set (js_keys charged). js_get bs k \<noteq> None"
  shows "\<exists>ov bs'. settle_charges exceeded groups charged overrun bs = Returns (ov, bs') \<and>
    (\<forall>k. js_get bs' k = (case js_get charged k of None \<Rightarrow> js_get bs k
       | Some reserved \<Rightarrow> map_option (settle_bucket exceeded groups k reserved) (js_get bs k))) \<and>
    (js_wf bs \<longrightarrow> js_wf bs')"
  using assms
proof (induction charged arbitrary: overrun bs)
  case (Cons e charged)
  obtain k0 r0 where e: "e = (k0, r0)" by fastforce
  from Cons.prems have new: "js_get charged k0 = None" by (simp add: e map_of_eq_None_iff)
  from Cons.prems obtain b where b: "js_get bs k0 = Some b" by (auto simp: e)
  let ?bs = "js_set k0 (settle_bucket exceeded groups k0 r0 b) bs"
  have "distinct (map fst charged)" "\<forall>k \<in> set (js_keys charged). js_get ?bs k \<noteq> None"
    using Cons.prems by (auto simp: e)
  from Cons.IH [OF this, of "overrun \<or> exceeded k0 \<or> \<not> is_safe_int (next_used groups k0 r0 b)"]
  obtain ov bs' where ih: "settle_charges exceeded groups ((k0, r0) # charged) overrun bs = Returns (ov, bs')"
    "\<forall>k. js_get bs' k = (case js_get charged k of None \<Rightarrow> js_get ?bs k
       | Some reserved \<Rightarrow> map_option (settle_bucket exceeded groups k reserved) (js_get ?bs k))"
    "js_wf ?bs \<longrightarrow> js_wf bs'"
    by (auto simp: b)
  have "js_get bs' k = (case js_get (e # charged) k of None \<Rightarrow> js_get bs k
       | Some reserved \<Rightarrow> map_option (settle_bucket exceeded groups k reserved) (js_get bs k))" for k
    using ih(2) new b by (cases "k = k0") (auto simp: e split: option.splits)
  with ih(1,3) show ?case by (auto simp: e)
qed simp

section \<open>The invariant\<close>

definition debits_ok :: "resource_debit list \<Rightarrow> bool" where
  "debits_ok ds \<longleftrightarrow> (\<forall>d \<in> set ds. 0 \<le> rd_amount d \<and> rd_limit d \<le> MAX_SAFE_INTEGER)"

abbreviation debit_roots :: "ledger_env \<Rightarrow> (js_text, js_text) js_map \<Rightarrow> resource_debit list \<Rightarrow> js_text set" where
  "debit_roots env al ds \<equiv> (\<lambda>d. scope_root env al (rd_scope d)) ` set ds"

definition record_ok ::
  "ledger_env \<Rightarrow> (js_text, js_text) js_map \<Rightarrow> (js_text, bucket) js_map \<Rightarrow> record_entry \<Rightarrow> bool" where
  "record_ok env al bs r \<longleftrightarrow> debits_ok (re_debits r) \<and>
     (\<forall>c \<in> set (re_charges r). 0 \<le> snd c) \<and>
     (\<lambda>c. alias_root al (fst c)) ` set (re_charges r) = debit_roots env al (re_debits r) \<and>
     (\<forall>k \<in> debit_roots env al (re_debits r). js_get bs k \<noteq> None)"

definition resources_ok :: "ledger_env \<Rightarrow> resource_ledger \<Rightarrow> bool" where
  "resources_ok env l \<longleftrightarrow> points_forward (rl_aliases l) \<and> js_wf (rl_buckets l) \<and> js_wf (rl_records l) \<and>
     (\<forall>k. js_get (rl_buckets l) k \<noteq> None \<longrightarrow> js_get (rl_aliases l) k = None) \<and>
     (\<forall>rid r. js_get (rl_records l) rid = Some r \<longrightarrow> record_ok env (rl_aliases l) (rl_buckets l) r) \<and>
     (\<forall>k. \<not> poisoned_of (js_get (rl_buckets l) k) \<longrightarrow> outstanding l k \<le> used_of (js_get (rl_buckets l) k))"

lemma resources_start: "resources_ok env createResourceLedger"
  by (simp add: resources_ok_def createResourceLedger_def points_forward_def outstanding_def used_of_def)

lemma charge_at_nonneg: "\<forall>c \<in> set cs. 0 \<le> snd c \<Longrightarrow> 0 \<le> charge_at al cs k"
  unfolding charge_at_def by (intro sum_list_map_nonneg) simp

lemma charge_at_absent: "k \<notin> (\<lambda>c. alias_root al (fst c)) ` set cs \<Longrightarrow> charge_at al cs k = 0"
  unfolding charge_at_def by (intro sum_list_map_zero) auto

lemma resources_record:
  assumes "resources_ok env l" "r \<in> set (rl_records l)"
  shows "record_ok env (rl_aliases l) (rl_buckets l) (snd r)"
proof -
  have "js_get (rl_records l) (fst r) = Some (snd r)"
    using assms by (intro js_set_in_get) (simp_all add: resources_ok_def)
  with assms(1) show ?thesis unfolding resources_ok_def by blast
qed

lemma outstanding_nonneg:
  assumes "resources_ok env l"
  shows "0 \<le> outstanding l k"
  unfolding outstanding_def using resources_record [OF assms]
  by (intro sum_list_map_nonneg charge_at_nonneg) (simp add: record_ok_def)

lemma no_bucket_nothing_outstanding:
  assumes "resources_ok env l" "js_get (rl_buckets l) k = None"
  shows "outstanding l k = 0"
  unfolding outstanding_def
proof (intro sum_list_map_zero charge_at_absent)
  fix r assume "r \<in> set (rl_records l)"
  with assms(1) have "record_ok env (rl_aliases l) (rl_buckets l) (snd r)" by (rule resources_record)
  with assms(2) show "k \<notin> (\<lambda>c. alias_root (rl_aliases l) (fst c)) ` set (re_charges (snd r))"
    by (auto simp: record_ok_def)
qed

text \<open>The charges a grouping of a record's debits leaves on the record.\<close>

lemma grouped_charges:
  fixes env :: ledger_env
  assumes "points_forward al" "debits_ok ds"
  defines "groups \<equiv> grouped (scope_root env al) ds"
  shows "charge_at al (map (\<lambda>e. (fst e, dg_amount (snd e))) groups) k =
      (case js_get groups k of None \<Rightarrow> 0 | Some g \<Rightarrow> dg_amount g)"
    and "(\<lambda>c. alias_root al (fst c)) ` set (map (\<lambda>e. (fst e, dg_amount (snd e))) groups) = debit_roots env al ds"
    and "\<forall>c \<in> set (map (\<lambda>e. (fst e, dg_amount (snd e))) groups). 0 \<le> snd c"
proof -
  have keys: "set (js_keys groups) = debit_roots env al ds"
    unfolding js_keys_dom by (auto simp: groups_def grouped_None)
  have fixed: "\<forall>k \<in> set (js_keys groups). alias_root al k = k"
    unfolding keys using assms(1) by (auto simp: scope_root_def)
  then show "charge_at al (map (\<lambda>e. (fst e, dg_amount (snd e))) groups) k =
      (case js_get groups k of None \<Rightarrow> 0 | Some g \<Rightarrow> dg_amount g)"
    by (intro charge_at_groups) (simp_all add: groups_def)
  have "(\<lambda>c. alias_root al (fst c)) ` set (map (\<lambda>e. (fst e, dg_amount (snd e))) groups) = alias_root al ` set (js_keys groups)"
    by force
  also have "\<dots> = set (js_keys groups)" using fixed by force
  finally show "(\<lambda>c. alias_root al (fst c)) ` set (map (\<lambda>e. (fst e, dg_amount (snd e))) groups) = debit_roots env al ds"
    using keys by simp
  show "\<forall>c \<in> set (map (\<lambda>e. (fst e, dg_amount (snd e))) groups). 0 \<le> snd c"
  proof
    fix c assume "c \<in> set (map (\<lambda>e. (fst e, dg_amount (snd e))) groups)"
    then obtain k g where g: "(k, g) \<in> set groups" "c = (k, dg_amount g)" by auto
    then have "js_get groups k = Some g" by (simp add: groups_def js_set_in_get)
    from grouped_Some(1) [OF this [unfolded groups_def]] assms(2) peak_nonneg show "0 \<le> snd c"
      by (simp add: g(2) debits_ok_def)
  qed
qed

lemma record_ok_more:
  "record_ok env al bs r \<Longrightarrow> (\<And>k. js_get bs k \<noteq> None \<Longrightarrow> js_get bs' k \<noteq> None) \<Longrightarrow> record_ok env al bs' r"
  by (simp add: record_ok_def)

lemma outstanding_buckets [simp]: "outstanding (l\<lparr>rl_buckets := bs\<rparr>) k = outstanding l k"
  by (simp add: outstanding_def)

lemma outstanding_notify [simp]: "outstanding (notify l) k = outstanding l k"
  by (simp add: outstanding_def notify_def)

lemma ok_notify [simp]: "resources_ok env (notify l) = resources_ok env l"
  by (simp add: resources_ok_def notify_def outstanding_def)

lemma ok_only_limits:
  assumes "resources_ok env l" "only_limits (rl_buckets l) bs"
  shows "resources_ok env (l\<lparr>rl_buckets := bs\<rparr>)"
proof -
  note same = only_limits_facts [OF assms(2)]
  have "record_ok env (rl_aliases l) bs r" if "js_get (rl_records l) rid = Some r" for rid r
    by (rule record_ok_more [of env _ "rl_buckets l"]) (use assms(1) that same(3) in \<open>auto simp: resources_ok_def\<close>)
  with assms(1) same show ?thesis by (simp add: resources_ok_def)
qed

text \<open>Adding or replacing a record moves what is outstanding by the difference of its charges.\<close>

lemma outstanding_new_record:
  "js_get (rl_records l) rid = None \<Longrightarrow>
   outstanding (l\<lparr>rl_buckets := bs, rl_records := js_set rid r (rl_records l)\<rparr>) k =
     outstanding l k + charge_at (rl_aliases l) (re_charges r) k"
  by (simp add: outstanding_def sum_list_js_set_fresh)

lemma outstanding_other_record:
  "js_wf (rl_records l) \<Longrightarrow> js_get (rl_records l) rid = Some r \<Longrightarrow>
   outstanding (l\<lparr>rl_buckets := bs, rl_records := js_set rid r' (rl_records l)\<rparr>) k =
     outstanding l k - charge_at (rl_aliases l) (re_charges r) k + charge_at (rl_aliases l) (re_charges r') k"
  by (simp add: outstanding_def sum_list_js_set)

text \<open>An admitted reservation takes the amount of each group from the bucket of its root.\<close>

lemma taken_bucket:
  fixes env :: ledger_env and ds :: "resource_debit list"
  assumes "js_get (grouped root ds) k = Some g"
  shows "used_of (js_get (fold (take_group p) (grouped root ds) bs) k) = used_of (js_get bs k) + dg_amount g"
    and "limit_of m (js_get (fold (take_group p) (grouped root ds) bs) k) =
      min (limit_of (dg_limit g) (js_get bs k)) (dg_limit g)"
    and "\<not> poisoned_of (js_get (fold (take_group p) (grouped root ds) bs) k)"
  by (simp_all add: get_take_groups assms take_group_def Let_def used_of_def limit_of_def poisoned_of_def)

lemma untaken_bucket:
  "js_get (grouped root ds) k = None \<Longrightarrow> js_get (fold (take_group p) (grouped root ds) bs) k = js_get bs k"
  by (simp add: get_take_groups)

lemma ok_admitted:
  fixes env :: ledger_env
  assumes "resources_ok env l" "js_get (rl_records l) rid = None" "debits_ok ds"
  defines "groups \<equiv> grouped (scope_root env (rl_aliases l)) ds"
  assumes healthy: "\<forall>(k, g) \<in> set groups. \<not> poisoned_of (js_get (rl_buckets l) k)"
  shows "resources_ok env (l\<lparr>rl_buckets := fold (take_group p) groups (rl_buckets l),
     rl_records := js_set rid (new_record env identity ds adm groups) (rl_records l)\<rparr>)"
    (is "resources_ok env ?l")
proof -
  let ?al = "rl_aliases l" and ?bs = "fold (take_group p) groups (rl_buckets l)"
  let ?r = "new_record env identity ds adm groups"
  have fwd: "points_forward ?al" using assms(1) by (simp add: resources_ok_def)
  note charges = grouped_charges [OF fwd assms(3), of env, folded groups_def]
  have charge: "charge_at ?al (re_charges ?r) k = (case js_get groups k of None \<Rightarrow> 0 | Some g \<Rightarrow> dg_amount g)" for k
    using charges(1) by (simp add: new_record_def)
  have got: "js_get ?bs k \<noteq> None \<longleftrightarrow> js_get (rl_buckets l) k \<noteq> None \<or> js_get groups k \<noteq> None" for k
    by (auto simp: get_take_groups groups_def take_group_def Let_def split: option.splits)
  have roots: "js_get groups k \<noteq> None \<longleftrightarrow> k \<in> debit_roots env ?al ds" for k
    by (auto simp: groups_def grouped_None)
  have own: "record_ok env ?al ?bs ?r"
    unfolding record_ok_def using assms(3) charges(2,3) got roots by (simp add: new_record_def)
  have others: "record_ok env ?al ?bs r" if "js_get (rl_records l) rid' = Some r" for rid' r
  proof (rule record_ok_more)
    show "record_ok env ?al (rl_buckets l) r" using assms(1) that by (auto simp: resources_ok_def)
  qed (use got in blast)
  have covered: "outstanding ?l k \<le> used_of (js_get ?bs k)" if "\<not> poisoned_of (js_get ?bs k)" for k
  proof (cases "js_get groups k")
    case None
    then have same: "js_get ?bs k = js_get (rl_buckets l) k" unfolding groups_def by (rule untaken_bucket)
    with that assms(1) None show ?thesis
      by (simp add: outstanding_new_record [OF assms(2)] charge resources_ok_def)
  next
    case (Some g)
    then have "\<not> poisoned_of (js_get (rl_buckets l) k)" using healthy js_get_in_set by fastforce
    then have "outstanding l k \<le> used_of (js_get (rl_buckets l) k)" using assms(1) by (simp add: resources_ok_def)
    with Some taken_bucket(1) [OF Some [unfolded groups_def], of p "rl_buckets l", folded groups_def] show ?thesis
      by (simp add: outstanding_new_record [OF assms(2)] charge)
  qed
  have aliases: "js_get ?al k = None" if "js_get ?bs k \<noteq> None" for k
  proof (cases "js_get groups k")
    case None
    with that got assms(1) show ?thesis by (simp add: resources_ok_def)
  next
    case (Some g)
    with roots [of k] fwd show ?thesis by (auto simp: scope_root_def root_unaliased)
  qed
  from assms(1) own others covered aliases show ?thesis
    unfolding resources_ok_def by (simp add: wf_take_groups del: not_None_eq)
qed

lemma reserve_fresh_cases:
  fixes env :: ledger_env
  assumes "reserve_fresh env rid identity ds l = ((kind, rc), l')"
  defines "groups \<equiv> grouped (scope_root env (rl_aliases l)) ds"
  obtains (kept) bs where "kind \<noteq> Decided_Admitted" "only_limits (rl_buckets l) bs" "l' = l\<lparr>rl_buckets := bs\<rparr>"
  | (admitted) bs where "kind = Decided_Admitted" "only_limits (rl_buckets l) bs"
      "\<forall>(k, g) \<in> set groups. room_for bs k g"
      "l' = l\<lparr>rl_buckets := fold (take_group (ri_parentScope identity)) groups bs,
         rl_records := js_set rid (new_record env identity ds rc groups) (rl_records l)\<rparr>"
proof -
  define checked where "checked = check_groups groups Fits (rl_buckets l)"
  have limits: "only_limits (rl_buckets l) (snd checked)" unfolding checked_def by (rule check_groups_limits)
  note eq = assms(1) [unfolded reserve_fresh_def Let_def, folded groups_def, folded checked_def]
  show thesis
  proof (cases "fst checked")
    case Fits
    with check_groups_room [of groups Fits "rl_buckets l"] have "\<forall>(k, g) \<in> set groups. room_for (snd checked) k g"
      by (simp add: checked_def groups_def)
    with Fits eq limits show thesis by (intro admitted) auto
  next
    case (Must_Wait d)
    with eq limits show thesis by (intro kept) auto
  next
    case (Must_Refuse d)
    with eq limits show thesis by (intro kept) auto
  qed
qed

lemma valid_debits: "\<not> reservation_invalid rid identity ds \<Longrightarrow> debits_ok ds"
  by (auto simp: reservation_invalid_def debits_ok_def debit_valid_def list_ex_iff is_safe_int_def)

text \<open>Every answer of \<open>reserve\<close>: the ledger is as it was, only its limits narrowed, or it admitted.\<close>

lemma reserve_cases:
  fixes env :: ledger_env
  assumes "ledger_reserve env rid identity ds l = ((kind, rc), l')"
  defines "groups \<equiv> grouped (scope_root env (rl_aliases l)) ds"
  obtains (kept) bs where "kind \<noteq> Decided_Admitted" "only_limits (rl_buckets l) bs" "l' = l\<lparr>rl_buckets := bs\<rparr>"
  | (admitted) bs where "kind = Decided_Admitted" "only_limits (rl_buckets l) bs" "js_get (rl_records l) rid = None"
      "debits_ok ds" "\<forall>(k, g) \<in> set groups. room_for bs k g"
      "l' = l\<lparr>rl_buckets := fold (take_group (ri_parentScope identity)) groups bs,
         rl_records := js_set rid (new_record env identity ds rc groups) (rl_records l)\<rparr>"
proof (cases "reserve_fresh env rid identity ds l = ((kind, rc), l') \<and> js_get (rl_records l) rid = None \<and>
    \<not> reservation_invalid rid identity ds")
  case True
  then have fresh: "reserve_fresh env rid identity ds l = ((kind, rc), l')" and new: "js_get (rl_records l) rid = None"
    and ok: "debits_ok ds" using valid_debits by blast+
  from fresh show thesis
  proof (cases rule: reserve_fresh_cases)
    case (kept bs)
    then show thesis by (rule that(1))
  next
    case (admitted bs)
    then show thesis using that(2) [of bs] new ok by (simp add: groups_def)
  qed
next
  case False
  with assms(1) have "kind \<noteq> Decided_Admitted \<and> l' = l"
    by (auto simp: ledger_reserve_def Let_def split: if_splits option.splits)
  then show thesis by (intro that(1) [of "rl_buckets l"]) (simp_all add: only_limits_refl)
qed

text \<open>What an admission leaves in the bucket of each debit.\<close>

lemma admitted_debit:
  assumes "ledger_reserve env rid identity ds l = ((kind, rc), l')" "kind = Decided_Admitted" "d \<in> set ds"
  shows "\<exists>b. js_get (rl_buckets l') (scope_root env (rl_aliases l) (rd_scope d)) = Some b \<and> \<not> bk_poisoned b \<and>
    bk_used b = used_of (js_get (rl_buckets l) (scope_root env (rl_aliases l) (rd_scope d))) +
      peak (filter (\<lambda>e. scope_root env (rl_aliases l) (rd_scope e) = scope_root env (rl_aliases l) (rd_scope d)) ds) \<and>
    bk_used b \<le> bk_limit b \<and> bk_limit b \<le> rd_limit d"
  using assms(1)
proof (cases rule: reserve_cases)
  case (kept bs)
  with assms(2) show ?thesis by simp
next
  case (admitted bs)
  let ?root = "scope_root env (rl_aliases l)"
  let ?groups = "grouped ?root ds" and ?k = "?root (rd_scope d)"
  have "js_get ?groups ?k \<noteq> None" unfolding grouped_None using assms(3) by blast
  then obtain g where g: "js_get ?groups ?k = Some g" by blast
  have limits: "\<forall>d \<in> set ds. rd_limit d \<le> MAX_SAFE_INTEGER" using admitted(4) by (simp add: debits_ok_def)
  note grp = grouped_Some [OF g limits]
  have room: "room_for bs ?k g" using admitted(5) js_get_in_set [OF g] by blast
  let ?new = "js_get (fold (take_group (ri_parentScope identity)) ?groups bs) ?k"
  note taken = taken_bucket [OF g, where p = "ri_parentScope identity" and bs = bs]
  have "?new \<noteq> None" using g by (simp add: get_take_groups take_group_def Let_def)
  then obtain b where b: "?new = Some b" by blast
  have "bk_used b = used_of (js_get bs ?k) + dg_amount g" "\<not> bk_poisoned b"
    "bk_limit b = min (limit_of (dg_limit g) (js_get bs ?k)) (dg_limit g)"
    using taken b by (simp_all add: used_of_def limit_of_def poisoned_of_def)
  moreover have "js_get (rl_buckets l') ?k = Some b" using admitted(6) b by simp
  ultimately show ?thesis
    using room grp(1) grp(2) [OF assms(3) refl] only_limits_facts(1) [OF admitted(2)] by (auto simp: room_for_def)
qed

lemma ok_reserve:
  assumes "resources_ok env l" "ledger_reserve env rid identity ds l = ((kind, rc), l')"
  shows "resources_ok env l'"
  using assms(2)
proof (cases rule: reserve_cases)
  case (kept bs)
  with assms(1) show ?thesis by (simp add: ok_only_limits)
next
  case (admitted bs)
  let ?m = "l\<lparr>rl_buckets := bs\<rparr>"
  have "resources_ok env ?m" using assms(1) admitted(2) by (rule ok_only_limits)
  moreover have "\<forall>(k, g) \<in> set (grouped (scope_root env (rl_aliases l)) ds). \<not> poisoned_of (js_get bs k)"
    using admitted(5) by (auto simp: room_for_def)
  ultimately show ?thesis
    using ok_admitted [of env ?m rid ds] admitted(3,4,6) by simp
qed

lemma actual_amounts_from:
  "js_get (actual_amounts env actual) k = Some a \<Longrightarrow> \<exists>ds d. actual = Some ds \<and> d \<in> set ds \<and> rd_amount d = a"
proof -
  have "js_get (fold (\<lambda>d m. js_set (le_key env (rd_scope d)) (rd_amount d) m) ds m) k = Some a \<Longrightarrow>
      js_get m k = Some a \<or> (\<exists>d \<in> set ds. rd_amount d = a)" for ds m
  proof (induction ds arbitrary: m)
    case (Cons d ds)
    from Cons.IH [of "js_set (le_key env (rd_scope d)) (rd_amount d) m"] Cons.prems show ?case
      by (auto split: if_splits)
  qed simp
  from this [of "case actual of None \<Rightarrow> [] | Some ds \<Rightarrow> ds" "[]"]
  show "js_get (actual_amounts env actual) k = Some a \<Longrightarrow> ?thesis"
    unfolding actual_amounts_def by (cases actual) auto
qed

abbreviation settled_debits :: "ledger_env \<Rightarrow> resource_debit list option \<Rightarrow> bool \<Rightarrow> record_entry \<Rightarrow> resource_debit list" where
  "settled_debits env actual terminated r \<equiv> map (settled_debit env (actual_amounts env actual) terminated) (re_debits r)"

lemma settled_debits_ok:
  assumes "debits_ok (re_debits r)" "\<not> case_option False (actual_invalid env r) actual"
  shows "debits_ok (settled_debits env actual terminated r)"
    and "debit_roots env al (settled_debits env actual terminated r) = debit_roots env al (re_debits r)"
proof -
  have "0 \<le> a" if "js_get (actual_amounts env actual) k = Some a" for k a
    using actual_amounts_from [OF that] assms(2) by (auto simp: actual_invalid_def list_ex_iff not_less)
  with assms(1) show "debits_ok (settled_debits env actual terminated r)"
    by (auto simp: debits_ok_def settled_debit_def split: option.splits)
  show "debit_roots env al (settled_debits env actual terminated r) = debit_roots env al (re_debits r)"
    by (simp add: settled_debit_def image_image)
qed

text \<open>
  A valid settlement of an open record always goes through: each bucket it was charged on exists, and
  loses the old charge and takes the new one.
\<close>

lemma settle_open:
  fixes env :: ledger_env and actual :: "resource_debit list option" and terminated :: bool
  assumes "resources_ok env l" "js_get (rl_records l) rid = Some r" "\<not> re_settled r"
    "\<not> case_option False (actual_invalid env r) actual"
  defines "groups \<equiv> grouped (scope_root env (rl_aliases l)) (settled_debits env actual terminated r)"
  defines "exceeded \<equiv> exceeds (scope_root env (rl_aliases l)) (re_debits r) (settled_debits env actual terminated r)"
  obtains ov bs where "ledger_settle env rid actual terminated l =
      Returns (Some (re_receipt (settled_record r groups ov terminated)),
        notify (l\<lparr>rl_buckets := bs, rl_records := js_set rid (settled_record r groups ov terminated) (rl_records l)\<rparr>))"
    "\<And>k. js_get bs k = (if k \<in> debit_roots env (rl_aliases l) (re_debits r)
       then map_option (settle_bucket exceeded groups k (charge_at (rl_aliases l) (re_charges r) k)) (js_get (rl_buckets l) k)
       else js_get (rl_buckets l) k)"
    "js_wf bs"
proof -
  let ?al = "rl_aliases l"
  have rok: "record_ok env ?al (rl_buckets l) r" using assms(1,2) unfolding resources_ok_def by blast
  have roots: "(\<lambda>c. alias_root ?al (fst c)) ` set (re_charges r) = debit_roots env ?al (re_debits r)"
    using rok by (simp add: record_ok_def)
  have get: "js_get (charge_roots ?al (re_charges r)) k =
      (if k \<in> debit_roots env ?al (re_debits r) then Some (charge_at ?al (re_charges r) k) else None)" for k
    by (simp only: get_charge_roots roots)
  have "\<forall>k \<in> set (js_keys (charge_roots ?al (re_charges r))). js_get (rl_buckets l) k \<noteq> None"
  proof
    fix k assume "k \<in> set (js_keys (charge_roots ?al (re_charges r)))"
    then have "k \<in> debit_roots env ?al (re_debits r)" unfolding js_keys_iff get by (simp split: if_splits)
    with rok show "js_get (rl_buckets l) k \<noteq> None" unfolding record_ok_def by blast
  qed
  from settle_charges_returns [OF wf_charge_roots this, of exceeded groups False]
  obtain ov bs where bs: "settle_charges exceeded groups (charge_roots ?al (re_charges r)) False (rl_buckets l) = Returns (ov, bs)"
    "\<forall>k. js_get bs k = (case js_get (charge_roots ?al (re_charges r)) k of None \<Rightarrow> js_get (rl_buckets l) k
       | Some reserved \<Rightarrow> map_option (settle_bucket exceeded groups k reserved) (js_get (rl_buckets l) k))"
    "js_wf (rl_buckets l) \<longrightarrow> js_wf bs" by blast
  show thesis
  proof (rule that)
    show "ledger_settle env rid actual terminated l =
      Returns (Some (re_receipt (settled_record r groups ov terminated)),
        notify (l\<lparr>rl_buckets := bs, rl_records := js_set rid (settled_record r groups ov terminated) (rl_records l)\<rparr>))"
      using assms(2,3,4) bs(1) by (simp add: ledger_settle_def Let_def exceeded_def groups_def)
    show "js_get bs k = (if k \<in> debit_roots env ?al (re_debits r)
       then map_option (settle_bucket exceeded groups k (charge_at ?al (re_charges r) k)) (js_get (rl_buckets l) k)
       else js_get (rl_buckets l) k)" for k
      using bs(2) unfolding get by (simp split: if_splits)
    show "js_wf bs" using bs(3) assms(1) by (simp add: resources_ok_def)
  qed
qed

lemma settled_charge:
  assumes "points_forward al" "debits_ok (settled_debits env actual terminated r)"
  shows "charge_at al (re_charges (settled_record r (grouped (scope_root env al) (settled_debits env actual terminated r)) ov t)) k =
    (case js_get (grouped (scope_root env al) (settled_debits env actual terminated r)) k of None \<Rightarrow> 0 | Some g \<Rightarrow> dg_amount g)"
  using grouped_charges(1) [OF assms, of env] by (simp add: settled_record_def)

lemma ok_settle:
  assumes "resources_ok env l" "ledger_settle env rid actual terminated l = Returns (rc, l')"
  shows "resources_ok env l'"
proof (cases "\<exists>r. js_get (rl_records l) rid = Some r \<and> \<not> re_settled r \<and> \<not> case_option False (actual_invalid env r) actual")
  case False
  with assms(2) have "l' = l" by (auto simp: ledger_settle_def Let_def split: option.splits if_splits)
  with assms(1) show ?thesis by simp
next
  case True
  then obtain r where r: "js_get (rl_records l) rid = Some r" "\<not> re_settled r" "\<not> case_option False (actual_invalid env r) actual"
    by blast
  let ?al = "rl_aliases l" and ?ds = "settled_debits env actual terminated r"
  let ?groups = "grouped (scope_root env ?al) ?ds"
  let ?exceeded = "exceeds (scope_root env ?al) (re_debits r) ?ds"
  from settle_open [OF assms(1) r, of terminated] obtain ov bs where
    settled: "ledger_settle env rid actual terminated l =
      Returns (Some (re_receipt (settled_record r ?groups ov terminated)),
        notify (l\<lparr>rl_buckets := bs, rl_records := js_set rid (settled_record r ?groups ov terminated) (rl_records l)\<rparr>))"
    and bs: "\<And>k. js_get bs k = (if k \<in> debit_roots env ?al (re_debits r)
       then map_option (settle_bucket ?exceeded ?groups k (charge_at ?al (re_charges r) k)) (js_get (rl_buckets l) k)
       else js_get (rl_buckets l) k)" and wf: "js_wf bs" by blast
  let ?r = "settled_record r ?groups ov terminated"
  let ?l = "l\<lparr>rl_buckets := bs, rl_records := js_set rid ?r (rl_records l)\<rparr>"
  have l': "l' = notify ?l" using assms(2) settled by simp
  have rok: "record_ok env ?al (rl_buckets l) r" using assms(1) r(1) unfolding resources_ok_def by blast
  have fwd: "points_forward ?al" and wfr: "js_wf (rl_records l)" using assms(1) by (simp_all add: resources_ok_def)
  have dok: "debits_ok ?ds" and roots: "debit_roots env ?al ?ds = debit_roots env ?al (re_debits r)"
    using settled_debits_ok [OF _ r(3)] rok by (simp_all add: record_ok_def)
  have same: "js_get bs k = None \<longleftrightarrow> js_get (rl_buckets l) k = None" for k by (simp add: bs)
  have own: "record_ok env ?al bs ?r"
    unfolding record_ok_def using grouped_charges(2,3) [OF fwd dok, of env] roots rok same
    by (simp add: settled_record_def record_ok_def del: not_None_eq)
  have others: "record_ok env ?al bs r'" if "js_get (rl_records l) rid' = Some r'" for rid' r'
  proof (rule record_ok_more)
    show "record_ok env ?al (rl_buckets l) r'" using assms(1) that unfolding resources_ok_def by blast
  qed (simp add: same del: not_None_eq)
  have covered: "outstanding ?l k \<le> used_of (js_get bs k)" if healthy: "\<not> poisoned_of (js_get bs k)" for k
  proof -
    note charge = settled_charge [OF fwd dok, of ov terminated k]
    note total = outstanding_other_record [OF wfr r(1), where bs = bs and r' = ?r and k = k]
    show ?thesis
    proof (cases "k \<in> debit_roots env ?al (re_debits r)")
      case False
      then have "js_get bs k = js_get (rl_buckets l) k" by (simp add: bs)
      moreover have "charge_at ?al (re_charges r) k = 0"
        using rok False by (intro charge_at_absent) (simp add: record_ok_def)
      moreover have "js_get ?groups k = None" using False roots by (simp only: grouped_None) simp
      ultimately show ?thesis using healthy assms(1) charge total by (simp add: resources_ok_def)
    next
      case True
      then obtain b where b: "js_get (rl_buckets l) k = Some b" using rok by (auto simp: record_ok_def)
      obtain g where g: "js_get ?groups k = Some g" using True roots grouped_None by (metis option.exhaust)
      from True b have sb: "js_get bs k = Some (settle_bucket ?exceeded ?groups k (charge_at ?al (re_charges r) k) b)" by (simp add: bs)
      with healthy have "\<not> bk_poisoned b" "bk_used (the (js_get bs k)) = bk_used b - charge_at ?al (re_charges r) k + dg_amount g"
        by (simp_all add: settle_bucket_def Let_def next_used_def g poisoned_of_def split: if_splits)
      moreover have "outstanding l k \<le> bk_used b"
        using assms(1) b calculation(1) by (auto simp: resources_ok_def poisoned_of_def used_of_def dest: spec [of _ k])
      ultimately show ?thesis using charge total g sb by (simp add: used_of_def)
    qed
  qed
  have "resources_ok env ?l"
    using assms(1) own others covered wf same unfolding resources_ok_def
    by (simp del: not_None_eq)
  then show ?thesis by (simp add: l')
qed

text \<open>Joining moves what the second root carries to the first.\<close>

lemma charge_at_join:
  assumes "points_forward al" "js_get al a = None" "js_get al b = None" "a \<noteq> b"
  shows "charge_at (js_set b a al) cs k =
    (if k = a then charge_at al cs a + charge_at al cs b else if k = b then 0 else charge_at al cs k)"
  using assms(4) by (induction cs) (auto simp: charge_at_def root_join [OF assms])

lemma outstanding_join:
  assumes "points_forward (rl_aliases l)" "js_get (rl_aliases l) a = None" "js_get (rl_aliases l) b = None" "a \<noteq> b"
  shows "outstanding (l\<lparr>rl_aliases := js_set b a (rl_aliases l)\<rparr>) k =
    (if k = a then outstanding l a + outstanding l b else if k = b then 0 else outstanding l k)"
  unfolding outstanding_def
  by (simp add: charge_at_join [OF assms] sum_list_addf)

definition joined_bucket :: "capacity_scope \<Rightarrow> bucket option \<Rightarrow> bucket option \<Rightarrow> bucket" where
  "joined_bucket left first second =
     \<lparr>bk_parentScopes = Some (fold set_add (parents_of second) (parents_of first)), bk_scope = left,
      bk_used = used_of first + used_of second,
      bk_limit = min (limit_of MAX_SAFE_INTEGER first) (limit_of MAX_SAFE_INTEGER second),
      bk_poisoned = poisoned_of first \<or> poisoned_of second\<rparr>"

lemma join_cases:
  assumes "joinAliases env left right l = (res, l')"
  obtains (same) "l' = l"
  | (joined) a b where "res" "a = scope_root env (rl_aliases l) left" "b = scope_root env (rl_aliases l) right" "a \<noteq> b"
      "l' = notify (l\<lparr>rl_aliases := js_set b a (rl_aliases l),
         rl_buckets := js_delete b (js_set a (joined_bucket left (js_get (rl_buckets l) a) (js_get (rl_buckets l) b)) (rl_buckets l))\<rparr>)"
proof (cases "l' = l")
  case False
  with assms show thesis
    unfolding joinAliases_def Let_def joined_bucket_def [symmetric]
    by (intro joined [OF _ refl refl]) (simp_all split: if_splits)
qed (rule same)

lemma joined_get:
  "a \<noteq> b \<Longrightarrow> js_get (js_delete b (js_set a v bs)) k = (if k = b then None else if k = a then Some v else js_get bs k)"
  by simp

lemma ok_join:
  assumes "resources_ok env l" "joinAliases env left right l = (res, l')"
  shows "resources_ok env l'"
  using assms(2)
proof (cases rule: join_cases)
  case same
  with assms(1) show ?thesis by simp
next
  case (joined a b)
  let ?al = "rl_aliases l" and ?bs = "rl_buckets l"
  let ?bs' = "js_delete b (js_set a (joined_bucket left (js_get ?bs a) (js_get ?bs b)) ?bs)"
  let ?l = "l\<lparr>rl_aliases := js_set b a ?al, rl_buckets := ?bs'\<rparr>"
  have fwd: "points_forward ?al" using assms(1) by (simp add: resources_ok_def)
  have free: "js_get ?al a = None" "js_get ?al b = None"
    using fwd joined(2,3) by (simp_all add: scope_root_def root_unaliased)
  note join = fwd free joined(4)
  have root: "scope_root env (js_set b a ?al) s = (if scope_root env ?al s = b then a else scope_root env ?al s)" for s
    unfolding scope_root_def by (rule root_join [OF join])
  have "record_ok env (js_set b a ?al) ?bs' r" if "js_get (rl_records l) rid = Some r" for rid r
  proof -
    have rok: "record_ok env ?al ?bs r" using assms(1) that unfolding resources_ok_def by blast
    let ?f = "\<lambda>k. if k = b then a else k"
    have "(\<lambda>c. alias_root (js_set b a ?al) (fst c)) ` set (re_charges r) = ?f ` (\<lambda>c. alias_root ?al (fst c)) ` set (re_charges r)"
      unfolding image_image root_join [OF join] by (rule refl)
    also have "\<dots> = ?f ` debit_roots env ?al (re_debits r)" using rok by (simp add: record_ok_def)
    also have "\<dots> = debit_roots env (js_set b a ?al) (re_debits r)" unfolding image_image root by (rule refl)
    finally have roots: "(\<lambda>c. alias_root (js_set b a ?al) (fst c)) ` set (re_charges r) = debit_roots env (js_set b a ?al) (re_debits r)" .
    have "js_get ?bs' k \<noteq> None" if "k \<in> debit_roots env (js_set b a ?al) (re_debits r)" for k
    proof -
      from that obtain d where d: "d \<in> set (re_debits r)" "k = ?f (scope_root env ?al (rd_scope d))" by (auto simp: root)
      with rok have "js_get ?bs (scope_root env ?al (rd_scope d)) \<noteq> None" by (auto simp: record_ok_def)
      with d(2) joined(4) show ?thesis by (auto simp: joined_get)
    qed
    with roots rok show ?thesis by (simp add: record_ok_def)
  qed
  moreover have "outstanding ?l k \<le> used_of (js_get ?bs' k)" if healthy: "\<not> poisoned_of (js_get ?bs' k)" for k
  proof -
    have cover: "outstanding l k' \<le> used_of (js_get ?bs k')" if "\<not> poisoned_of (js_get ?bs k')" for k'
      using assms(1) that by (simp add: resources_ok_def)
    show ?thesis
      using healthy joined(4) cover [of k] cover [of a] cover [of b]
      by (auto simp: outstanding_join [OF join] joined_get used_of_def poisoned_of_def joined_bucket_def)
  qed
  moreover have "js_get (js_set b a ?al) k = None" if "js_get ?bs' k \<noteq> None" for k
    using that joined(4) free assms(1) by (auto simp: joined_get resources_ok_def split: if_splits)
  ultimately have "resources_ok env ?l"
    using assms(1) forward_join [OF join] unfolding resources_ok_def by (simp del: not_None_eq js_get_set js_get_delete)
  then show ?thesis by (simp add: joined(5))
qed

lemma ok_narrow:
  assumes "resources_ok env l" "ledger_narrow env scope limit parent l = Returns l'"
  shows "resources_ok env l'"
proof -
  let ?al = "rl_aliases l"
  define k0 where "k0 = scope_root env ?al scope"
  have free: "js_get ?al k0 = None"
    using assms(1) by (simp add: k0_def scope_root_def root_unaliased resources_ok_def)
  from assms(2) obtain v where v: "l' = notify (l\<lparr>rl_buckets := js_set k0 v (rl_buckets l)\<rparr>)"
    "bk_used v = used_of (js_get (rl_buckets l) k0)" "bk_poisoned v = poisoned_of (js_get (rl_buckets l) k0)"
    by (auto simp: ledger_narrow_def Let_def k0_def split: if_splits)
  have "record_ok env ?al (js_set k0 v (rl_buckets l)) r" if "js_get (rl_records l) rid = Some r" for rid r
  proof (rule record_ok_more)
    show "record_ok env ?al (rl_buckets l) r" using assms(1) that unfolding resources_ok_def by blast
  qed simp
  moreover have "outstanding l k \<le> used_of (js_get (js_set k0 v (rl_buckets l)) k)"
    if "\<not> poisoned_of (js_get (js_set k0 v (rl_buckets l)) k)" for k
    using that assms(1) v(2,3) by (cases "k = k0") (simp_all add: resources_ok_def used_of_def poisoned_of_def)
  ultimately have "resources_ok env (l\<lparr>rl_buckets := js_set k0 v (rl_buckets l)\<rparr>)"
    using assms(1) free unfolding resources_ok_def by (auto simp del: not_None_eq)
  then show ?thesis by (simp add: v(1))
qed

lemma filter_get:
  "js_wf m \<Longrightarrow> js_get (filter (\<lambda>e. P (fst e) (snd e)) m) k =
     (case js_get m k of None \<Rightarrow> None | Some v \<Rightarrow> if P k v then Some v else None)"
  by (induction m) (auto simp: map_of_eq_None_iff split: option.splits)

lemma map_get: "js_get (map (\<lambda>e. (fst e, f (snd e))) m) k = map_option f (js_get m k)"
  by (induction m) auto

lemma filter_wf: "js_wf m \<Longrightarrow> js_wf (filter P m)"
  by (simp add: distinct_map_filter)

lemma sum_list_filter_le:
  fixes f :: "'a \<Rightarrow> int"
  shows "(\<And>x. x \<in> set xs \<Longrightarrow> 0 \<le> f x) \<Longrightarrow> sum_list (map f (filter P xs)) \<le> sum_list (map f xs)"
  by (induction xs) (simp_all add: add_increasing)

text \<open>Closing a task keeps every bucket that a record left behind still refers to.\<close>

lemma ok_closeTask:
  assumes "resources_ok env l"
  shows "resources_ok env (closeTask env parent l)"
proof -
  let ?al = "rl_aliases l"
  define keep where "keep = (\<lambda>r :: record_entry. \<not> (ri_parentScope (re_identity r) = parent \<and> re_settled r))"
  define records where "records = filter (\<lambda>r. keep (snd r)) (rl_records l)"
  define referenced where
    "referenced = concat (map (\<lambda>r. map (\<lambda>d. scope_root env ?al (rd_scope d)) (re_debits (snd r))) records)"
  define strip where "strip = (\<lambda>b :: bucket. b\<lparr>bk_parentScopes := map_option (filter (\<lambda>p. p \<noteq> parent)) (bk_parentScopes b)\<rparr>)"
  define bs where "bs = filter (\<lambda>b. \<not> closable referenced (fst b) (snd b)) (map (\<lambda>e. (fst e, strip (snd e))) (rl_buckets l))"
  have closed: "closeTask env parent l = l\<lparr>rl_records := records, rl_buckets := bs\<rparr>"
    by (simp add: closeTask_def Let_def records_def keep_def referenced_def bs_def strip_def)
  have wfm: "js_wf (map (\<lambda>e. (fst e, strip (snd e))) (rl_buckets l))"
    using assms by (simp add: resources_ok_def comp_def)
  have get: "js_get bs k = (case js_get (rl_buckets l) k of None \<Rightarrow> None
      | Some b \<Rightarrow> if closable referenced k (strip b) then None else Some (strip b))" for k
    unfolding bs_def filter_get [OF wfm, of "\<lambda>k b. \<not> closable referenced k b"] map_get
    by (cases "js_get (rl_buckets l) k") simp_all
  have wfr: "js_wf (rl_records l)" using assms by (simp add: resources_ok_def)
  have rget: "js_get records rid = (case js_get (rl_records l) rid of None \<Rightarrow> None | Some r \<Rightarrow> if keep r then Some r else None)" for rid
    unfolding records_def using filter_get [OF wfr, of "\<lambda>_ r. keep r"] by simp
  have rok: "record_ok env ?al bs r" if rec: "js_get records rid = Some r" for rid r
  proof -
    have "(rid, r) \<in> set records" using rec by (rule js_get_in_set)
    then have referenced: "debit_roots env ?al (re_debits r) \<subseteq> set referenced" by (auto simp: referenced_def)
    have "js_get (rl_records l) rid = Some r" using rec unfolding rget by (auto split: option.splits if_splits)
    then have old: "record_ok env ?al (rl_buckets l) r" using assms unfolding resources_ok_def by blast
    have "js_get bs k \<noteq> None" if "k \<in> debit_roots env ?al (re_debits r)" for k
    proof -
      have "\<not> closable referenced k b" for b using that referenced by (auto simp: closable_def)
      moreover have "js_get (rl_buckets l) k \<noteq> None" using old that unfolding record_ok_def by blast
      ultimately show ?thesis by (auto simp: get)
    qed
    with old show ?thesis by (simp add: record_ok_def)
  qed
  let ?l = "l\<lparr>rl_records := records, rl_buckets := bs\<rparr>"
  have less: "outstanding ?l k \<le> outstanding l k" for k
    unfolding outstanding_def records_def
    using resources_record [OF assms] by (simp add: record_ok_def charge_at_nonneg sum_list_filter_le)
  have zero: "outstanding ?l k = 0" if "js_get bs k = None" for k
    unfolding outstanding_def
  proof (intro sum_list_map_zero charge_at_absent)
    fix r assume "r \<in> set (rl_records ?l)"
    then have "js_get records (fst r) = Some (snd r)"
      using filter_wf [OF wfr] by (intro js_set_in_get) (simp_all add: records_def)
    then have "record_ok env ?al bs (snd r)" by (rule rok)
    with that show "k \<notin> (\<lambda>c. alias_root (rl_aliases ?l) (fst c)) ` set (re_charges (snd r))"
      by (auto simp: record_ok_def)
  qed
  have "outstanding ?l k \<le> used_of (js_get bs k)" if healthy: "\<not> poisoned_of (js_get bs k)" for k
  proof (cases "js_get bs k")
    case None
    with zero show ?thesis by (simp add: used_of_def)
  next
    case (Some b')
    then obtain b where b: "js_get (rl_buckets l) k = Some b" "b' = strip b" by (auto simp: get split: option.splits if_splits)
    with healthy Some have "\<not> poisoned_of (js_get (rl_buckets l) k)" by (simp add: poisoned_of_def strip_def)
    then have "outstanding l k \<le> used_of (js_get (rl_buckets l) k)" using assms by (simp add: resources_ok_def)
    with less [of k] b Some show ?thesis by (simp add: used_of_def strip_def)
  qed
  moreover have "js_get ?al k = None" if "js_get bs k \<noteq> None" for k
    using that assms unfolding resources_ok_def get by (auto split: option.splits)
  moreover have "js_wf bs" "js_wf records"
    unfolding bs_def records_def by (rule filter_wf [OF wfm], rule filter_wf [OF wfr])
  ultimately show ?thesis
    using assms rok unfolding resources_ok_def closed by (simp del: not_None_eq)
qed

section \<open>Reachable ledgers\<close>

inductive resource_step :: "ledger_env \<Rightarrow> resource_ledger \<Rightarrow> resource_ledger \<Rightarrow> bool" for env where
  step_reserve: "ledger_reserve env rid identity ds l = (d, l') \<Longrightarrow> resource_step env l l'"
| step_settle: "ledger_settle env rid actual terminated l = Returns (rc, l') \<Longrightarrow> resource_step env l l'"
| step_join: "joinAliases env left right l = (res, l') \<Longrightarrow> resource_step env l l'"
| step_narrow: "ledger_narrow env scope limit parent l = Returns l' \<Longrightarrow> resource_step env l l'"
| step_close: "resource_step env l (closeTask env parent l)"
| step_subscribe: "resource_step env l (subscribe n l)"
| step_unsubscribe: "resource_step env l (unsubscribe n l)"

abbreviation resource_reachable :: "ledger_env \<Rightarrow> resource_ledger \<Rightarrow> bool" where
  "resource_reachable env \<equiv> reachable (\<lambda>l. l = createResourceLedger) (resource_step env)"

lemma ok_step:
  assumes "resources_ok env l" "resource_step env l l'"
  shows "resources_ok env l'"
  using assms(2)
proof cases
  case (step_reserve rid identity ds d)
  with assms(1) show ?thesis by (cases d) (auto intro: ok_reserve)
next
  case (step_subscribe n)
  with assms(1) show ?thesis unfolding resources_ok_def subscribe_def outstanding_def by simp
next
  case (step_unsubscribe n)
  with assms(1) show ?thesis unfolding resources_ok_def unsubscribe_def outstanding_def by simp
qed (use assms(1) in \<open>auto intro: ok_settle ok_join ok_narrow ok_closeTask\<close>)

interpretation resource_machine: safety_machine "\<lambda>l. l = createResourceLedger" "resource_step env" "resources_ok env" for env
  by unfold_locales (auto simp: resources_start intro: ok_step)

end
