(* ===== verification/Resource_Promises.thy ===== *)
theory Resource_Promises
  imports Resource_Accounting
begin

text \<open>The properties of the capacity ledger, with a small ledger on which each applies.\<close>

section \<open>A small ledger\<close>

text \<open>A task's concurrency, named twice; a reservation of two slots out of three.\<close>

definition demo_env :: ledger_env where
  "demo_env = \<lparr>le_key = sc_destination, le_fingerprint = (\<lambda>_ _. []), le_digest = (\<lambda>s. s), le_maxRecords = 4\<rparr>"

definition demo_scope :: "code_unit \<Rightarrow> capacity_scope" where
  "demo_scope u = \<lparr>sc_version = 1, sc_ownerKind = Owner_Task, sc_destination = [u], sc_account = None,
     sc_organization = None, sc_project = None, sc_workspace = None, sc_region = None, sc_serviceTier = None,
     sc_family = [102], sc_dimension = Res_Concurrency, sc_bucketKind = Occupancy\<rparr>"

definition demo_debits :: "resource_debit list" where
  "demo_debits = [\<lparr>rd_scope = demo_scope 65, rd_amount = 2, rd_limit = 3\<rparr>]"

definition demo_identity :: reservation_identity where
  "demo_identity = \<lparr>ri_version = 1, ri_parentScope = [116], ri_owner = [116], ri_operation = [111],
     ri_workspaceGeneration = [103], ri_configurationGeneration = [103], ri_attempt = [49], ri_fence = [116],
     ri_scopes = [demo_scope 65]\<rparr>"

definition demo_held :: resource_ledger where
  "demo_held = snd (ledger_reserve demo_env [114] demo_identity demo_debits createResourceLedger)"

lemmas ledger_evaluation = demo_env_def demo_scope_def demo_debits_def demo_identity_def demo_held_def
  ledger_reserve_def reservation_invalid_def identity_valid_def segment_valid_def scope_valid_def debit_valid_def
  is_safe_int_def MAX_SAFE_INTEGER_def scopes_differ_def createResourceLedger_def reserve_fresh_def grouped_def
  group_debit_def merge_debit_def scope_root_def alias_root_def limit_of_def used_of_def poisoned_of_def
  room_for_def narrow_bucket_def js_modify_def take_group_def set_add_def parents_of_def new_record_def make_receipt_def
  Let_def

lemma demo_admits: "fst (fst (ledger_reserve demo_env [114] demo_identity demo_debits createResourceLedger)) = Decided_Admitted"
  by (simp add: ledger_evaluation)

lemma held_reachable: "resource_reachable demo_env demo_held"
proof -
  have start: "resource_reachable demo_env createResourceLedger" by (rule reach_start) (rule refl)
  show ?thesis
    unfolding demo_held_def by (rule reach_step [OF start]) (metis step_reserve prod.collapse)
qed

lemma demo_bucket: "js_get (rl_buckets demo_held) [65] =
    Some \<lparr>bk_parentScopes = Some [[116]], bk_scope = demo_scope 65, bk_used = 2, bk_limit = 3, bk_poisoned = False\<rparr>"
  by (simp add: ledger_evaluation)

lemma demo_record: "\<exists>r. js_get (rl_records demo_held) [114] = Some r \<and> \<not> re_settled r \<and> re_debits r = demo_debits"
  by (simp add: ledger_evaluation)

section \<open>Covered reservations\<close>

text \<open>
  C8. Every reservation the ledger keeps is accounted for. In every reachable ledger each scope a
  record debits has a bucket under its root, and a healthy bucket's use is at least the sum of what all
  kept reservations charge on it, whatever names have been joined and tasks closed since.
\<close>

theorem reservations_are_covered:
  assumes "resource_reachable env l"
  shows "(js_get (rl_records l) rid = Some r \<and> d \<in> set (re_debits r) \<longrightarrow>
      js_get (rl_buckets l) (scope_root env (rl_aliases l) (rd_scope d)) \<noteq> None) \<and>
    (js_get (rl_buckets l) k = Some b \<and> \<not> bk_poisoned b \<longrightarrow> 0 \<le> outstanding l k \<and> outstanding l k \<le> bk_used b)"
proof -
  have ok: "resources_ok env l" using assms by (rule resource_machine.always)
  have "js_get (rl_buckets l) (scope_root env (rl_aliases l) (rd_scope d)) \<noteq> None"
    if "js_get (rl_records l) rid = Some r" "d \<in> set (re_debits r)"
  proof -
    have "record_ok env (rl_aliases l) (rl_buckets l) r" using ok that(1) unfolding resources_ok_def by blast
    with that(2) show ?thesis unfolding record_ok_def by blast
  qed
  moreover have "outstanding l k \<le> bk_used b" if "js_get (rl_buckets l) k = Some b" "\<not> bk_poisoned b"
  proof -
    have "\<not> poisoned_of (js_get (rl_buckets l) k)" using that by (simp add: poisoned_of_def)
    then have "outstanding l k \<le> used_of (js_get (rl_buckets l) k)" using ok by (simp add: resources_ok_def)
    with that show ?thesis by (simp add: used_of_def)
  qed
  ultimately show ?thesis using outstanding_nonneg [OF ok] by blast
qed

theorem reservations_are_covered_witness:
  "resource_reachable demo_env demo_held \<and> outstanding demo_held [65] \<le> 2"
  using reservations_are_covered [OF held_reachable, where k = "[65]"] held_reachable demo_bucket by fastforce

text \<open>
  C9. A reservation is admitted whole or not at all. When it is admitted, each debited scope's bucket
  is healthy, its use has grown by the largest amount the reservation debits under that root, and the
  new use is within the bucket's limit, which is within the debit's own limit. Otherwise no record, no
  alias and no use has changed, and limits have at most been narrowed.
\<close>

theorem admission_is_all_or_nothing:
  assumes "ledger_reserve env rid identity ds l = ((kind, rc), l')"
  shows "if kind = Decided_Admitted
    then \<forall>d. d \<in> set ds \<longrightarrow> (let k = scope_root env (rl_aliases l) (rd_scope d) in
      \<exists>b. js_get (rl_buckets l') k = Some b \<and> \<not> bk_poisoned b \<and>
        bk_used b = used_of (js_get (rl_buckets l) k) + peak (filter (\<lambda>e. scope_root env (rl_aliases l) (rd_scope e) = k) ds) \<and>
        bk_used b \<le> bk_limit b \<and> bk_limit b \<le> rd_limit d)
    else rl_records l' = rl_records l \<and> rl_aliases l' = rl_aliases l \<and> only_limits (rl_buckets l) (rl_buckets l')"
  using assms
proof (cases rule: reserve_cases)
  case (kept bs)
  then show ?thesis by simp
next
  case (admitted bs)
  with admitted_debit [OF assms] show ?thesis by (simp add: Let_def)
qed

theorem admission_is_all_or_nothing_witness:
  "\<exists>b. js_get (rl_buckets demo_held) [65] = Some b \<and> bk_used b \<le> bk_limit b \<and> bk_limit b \<le> 3"
proof -
  have call: "ledger_reserve demo_env [114] demo_identity demo_debits createResourceLedger =
      ((Decided_Admitted, snd (fst (ledger_reserve demo_env [114] demo_identity demo_debits createResourceLedger))), demo_held)"
    using demo_admits by (simp add: demo_held_def prod_eq_iff)
  have debit: "\<lparr>rd_scope = demo_scope 65, rd_amount = 2, rd_limit = 3\<rparr> \<in> set demo_debits" by (simp add: demo_debits_def)
  have root: "scope_root demo_env (rl_aliases createResourceLedger) (demo_scope 65) = [65]" by (simp add: ledger_evaluation)
  from admission_is_all_or_nothing [OF call] debit root show ?thesis unfolding Let_def by fastforce
qed

section \<open>Names\<close>

lemma follow_steps:
  "\<exists>n \<le> m. follow_aliases m al k = ((\<lambda>k. case js_get al k of None \<Rightarrow> k | Some t \<Rightarrow> t) ^^ n) k"
proof (induction m arbitrary: k)
  case (Suc m)
  show ?case
  proof (cases "js_get al k")
    case None
    then show ?thesis by (intro exI [of _ 0]) simp
  next
    case (Some t)
    from Suc.IH [of t] obtain n where "n \<le> m" "follow_aliases m al t = ((\<lambda>k. case js_get al k of None \<Rightarrow> k | Some t \<Rightarrow> t) ^^ n) t"
      by blast
    with Some show ?thesis by (intro exI [of _ "Suc n"]) (simp add: funpow_Suc_right del: funpow.simps(2))
  qed
qed simp

text \<open>
  The search for a root ends. In every reachable ledger following aliases from any name reaches a
  name without an alias after at most as many steps as there are aliases: joining never closes a cycle.
\<close>

theorem alias_search_ends:
  assumes "resource_reachable env l"
  shows "js_get (rl_aliases l) (alias_root (rl_aliases l) k) = None \<and>
    (\<exists>n \<le> length (rl_aliases l).
       alias_root (rl_aliases l) k = ((\<lambda>k. case js_get (rl_aliases l) k of None \<Rightarrow> k | Some t \<Rightarrow> t) ^^ n) k)"
proof -
  have "resources_ok env l" using assms by (rule resource_machine.always)
  then have "js_get (rl_aliases l) (alias_root (rl_aliases l) k) = None"
    by (intro root_unaliased) (simp add: resources_ok_def)
  moreover have "\<exists>n \<le> length (rl_aliases l).
       alias_root (rl_aliases l) k = ((\<lambda>k. case js_get (rl_aliases l) k of None \<Rightarrow> k | Some t \<Rightarrow> t) ^^ n) k"
    unfolding alias_root_def by (rule follow_steps)
  ultimately show ?thesis by blast
qed

definition demo_joined :: resource_ledger where
  "demo_joined = snd (joinAliases demo_env (demo_scope 66) (demo_scope 65) demo_held)"

lemma demo_joined_reachable: "resource_reachable demo_env demo_joined"
  unfolding demo_joined_def by (rule reach_step [OF held_reachable]) (metis step_join prod.collapse)

lemma demo_joined_root: "alias_root (rl_aliases demo_joined) [65] = [66]"
  by (simp add: demo_joined_def joinAliases_def notify_def ledger_evaluation)

theorem alias_search_ends_witness:
  "resource_reachable demo_env demo_joined \<and> js_get (rl_aliases demo_joined) [66] = None"
  using alias_search_ends [OF demo_joined_reachable, of "[65]"] demo_joined_reachable demo_joined_root by simp

definition left_in :: "int \<Rightarrow> bucket option \<Rightarrow> int" where
  "left_in limit bucket =
     (if poisoned_of bucket then 0 else max 0 (min limit (limit_of limit bucket) - used_of bucket))"

lemma remaining_left: "ledger_remaining env scope limit l = left_in limit (js_get (rl_buckets l) (scope_root env (rl_aliases l) scope))"
  by (simp add: ledger_remaining_def left_in_def Let_def)

lemma joined_left:
  assumes "\<not> poisoned_of x \<Longrightarrow> 0 \<le> used_of x" "\<not> poisoned_of y \<Longrightarrow> 0 \<le> used_of y"
  shows "left_in limit (Some (joined_bucket s x y)) \<le> left_in limit x" "left_in limit (Some (joined_bucket s x y)) \<le> left_in limit y"
  using assms unfolding left_in_def joined_bucket_def poisoned_of_def used_of_def limit_of_def
  by (cases x; cases y; auto)+

text \<open>
  C12. Learning that two names mean the same capacity never creates capacity: after \<open>joinAliases\<close> the
  remaining capacity of every scope, for every requested limit, is at most what it was.
\<close>

theorem joining_creates_no_capacity:
  assumes "resource_reachable env l" "joinAliases env left right l = (res, l')"
  shows "ledger_remaining env scope limit l' \<le> ledger_remaining env scope limit l"
  using assms(2)
proof (cases rule: join_cases)
  case (joined a b)
  have ok: "resources_ok env l" using assms(1) by (rule resource_machine.always)
  let ?al = "rl_aliases l" and ?bs = "rl_buckets l"
  have fwd: "points_forward ?al" using ok by (simp add: resources_ok_def)
  have free: "js_get ?al a = None" "js_get ?al b = None"
    using fwd joined(2,3) by (simp_all add: scope_root_def root_unaliased)
  have used: "0 \<le> used_of (js_get ?bs k)" if "\<not> poisoned_of (js_get ?bs k)" for k
    using ok that outstanding_nonneg [OF ok, of k] by (auto simp: resources_ok_def intro: order_trans)
  define k where "k = scope_root env ?al scope"
  have root: "scope_root env (rl_aliases l') scope = (if k = b then a else k)"
    using joined(5) root_join [OF fwd free joined(4)] by (simp add: k_def scope_root_def notify_def)
  have get: "js_get (rl_buckets l') a = Some (joined_bucket left (js_get ?bs a) (js_get ?bs b))"
    "k' \<noteq> a \<Longrightarrow> k' \<noteq> b \<Longrightarrow> js_get (rl_buckets l') k' = js_get ?bs k'" for k'
    using joined(4,5) by (simp_all add: notify_def joined_get)
  show ?thesis
  proof (cases "k = a \<or> k = b")
    case False
    then show ?thesis by (simp add: remaining_left root get(2) k_def [symmetric])
  next
    case True
    then have "scope_root env (rl_aliases l') scope = a" using root by auto
    with get(1) joined_left [OF used [of a] used [of b]] True show ?thesis
      by (auto simp: remaining_left k_def [symmetric])
  qed
qed simp

theorem joining_creates_no_capacity_witness:
  "ledger_remaining demo_env (demo_scope 66) 5 demo_joined \<le> ledger_remaining demo_env (demo_scope 66) 5 demo_held \<and>
   ledger_remaining demo_env (demo_scope 66) 5 demo_held = 5 \<and> ledger_remaining demo_env (demo_scope 66) 5 demo_joined = 1"
proof -
  have call: "joinAliases demo_env (demo_scope 66) (demo_scope 65) demo_held =
      (fst (joinAliases demo_env (demo_scope 66) (demo_scope 65) demo_held), demo_joined)"
    by (simp add: demo_joined_def)
  from joining_creates_no_capacity [OF held_reachable call] show ?thesis
    by (simp add: ledger_remaining_def demo_joined_def joinAliases_def notify_def ledger_evaluation)
qed

section \<open>Settling\<close>

text \<open>
  C30. Settling never fails. In every reachable ledger \<open>settle\<close> returns: the error for a charged bucket
  that is missing is not raised. A record that is settled, or unknown, is left alone.
\<close>

theorem settling_never_throws:
  assumes "resource_reachable env l"
  shows "\<exists>rc l'. ledger_settle env rid actual terminated l = Returns (rc, l') \<and>
    (case js_get (rl_records l) rid of None \<Rightarrow> rc = None \<and> l' = l
     | Some r \<Rightarrow> re_settled r \<longrightarrow> rc = Some (re_receipt r) \<and> l' = l)"
proof -
  have ok: "resources_ok env l" using assms by (rule resource_machine.always)
  show ?thesis
  proof (cases "\<exists>r. js_get (rl_records l) rid = Some r \<and> \<not> re_settled r \<and> \<not> case_option False (actual_invalid env r) actual")
    case True
    then obtain r where r: "js_get (rl_records l) rid = Some r" "\<not> re_settled r" "\<not> case_option False (actual_invalid env r) actual"
      by blast
    from settle_open [OF ok r, of terminated] obtain rc l' where "ledger_settle env rid actual terminated l = Returns (rc, l')"
      by blast
    with r(1,2) show ?thesis by auto
  next
    case False
    then show ?thesis by (auto simp: ledger_settle_def split: option.splits)
  qed
qed

lemma demo_settles: "\<exists>rc l'. ledger_settle demo_env [114] None True demo_held = Returns (rc, l')"
  by (simp add: ledger_settle_def settle_bucket_def next_used_def charge_roots_def add_charge_def settled_debit_def ledger_evaluation)

theorem settling_never_throws_witness:
  "\<exists>rc l'. ledger_settle demo_env [114] None True demo_held = Returns (rc, l')"
  using settling_never_throws [OF held_reachable, of "[114]" None True] by blast

text \<open>
  C29. Settlement replaces what was reserved by what was used, bucket by bucket. For an open record and
  valid actual amounts, the bucket of each root the record debits loses the record's charge and takes
  the largest settled amount under that root, unless the result is not a safe integer, when the use stays
  and the bucket is poisoned; a bucket is also poisoned when some settled amount exceeds what was
  reserved. Other buckets stay as they are, and a terminated settlement is final.
\<close>

theorem settlement_replaces_reservation:
  assumes "resource_reachable env l" "js_get (rl_records l) rid = Some r" "\<not> re_settled r"
    "\<not> case_option False (actual_invalid env r) actual"
    "ledger_settle env rid actual terminated l = Returns (rc, l')" "js_get (rl_buckets l) k = Some b"
  shows "let root = scope_root env (rl_aliases l);
      new_debits = map (settled_debit env (actual_amounts env actual) terminated) (re_debits r);
      n = bk_used b - charge_at (rl_aliases l) (re_charges r) k + peak (filter (\<lambda>d. root (rd_scope d) = k) new_debits) in
    (if k \<in> debit_roots env (rl_aliases l) (re_debits r)
     then js_get (rl_buckets l') k = Some (b\<lparr>bk_poisoned := bk_poisoned b \<or> exceeds root (re_debits r) new_debits k \<or> \<not> is_safe_int n,
        bk_used := if is_safe_int n then n else bk_used b\<rparr>)
     else js_get (rl_buckets l') k = Some b) \<and>
    (\<exists>r'. js_get (rl_records l') rid = Some r' \<and> re_settled r' = terminated)"
proof -
  have ok: "resources_ok env l" using assms(1) by (rule resource_machine.always)
  let ?root = "scope_root env (rl_aliases l)" and ?ds = "settled_debits env actual terminated r"
  have rok: "record_ok env (rl_aliases l) (rl_buckets l) r" using ok assms(2) unfolding resources_ok_def by blast
  have dok: "debits_ok ?ds" and roots: "debit_roots env (rl_aliases l) ?ds = debit_roots env (rl_aliases l) (re_debits r)"
    using settled_debits_ok [OF _ assms(4)] rok by (simp_all add: record_ok_def)
  from settle_open [OF ok assms(2,3,4), of terminated] obtain ov bs where
    settled: "ledger_settle env rid actual terminated l = Returns (Some (re_receipt (settled_record r (grouped ?root ?ds) ov terminated)),
      notify (l\<lparr>rl_buckets := bs, rl_records := js_set rid (settled_record r (grouped ?root ?ds) ov terminated) (rl_records l)\<rparr>))"
    and bs: "\<And>k. js_get bs k = (if k \<in> debit_roots env (rl_aliases l) (re_debits r)
       then map_option (settle_bucket (exceeds ?root (re_debits r) ?ds) (grouped ?root ?ds) k (charge_at (rl_aliases l) (re_charges r) k))
         (js_get (rl_buckets l) k)
       else js_get (rl_buckets l) k)" by blast
  have l': "l' = notify (l\<lparr>rl_buckets := bs, rl_records := js_set rid (settled_record r (grouped ?root ?ds) ov terminated) (rl_records l)\<rparr>)"
    using assms(5) settled by simp
  have amount: "\<exists>g. js_get (grouped ?root ?ds) k = Some g \<and> dg_amount g = peak (filter (\<lambda>d. ?root (rd_scope d) = k) ?ds)"
    if "k \<in> debit_roots env (rl_aliases l) (re_debits r)"
  proof -
    have "js_get (grouped ?root ?ds) k \<noteq> None" unfolding grouped_None roots using that by blast
    then obtain g where g: "js_get (grouped ?root ?ds) k = Some g" by blast
    have "\<forall>d \<in> set ?ds. rd_limit d \<le> MAX_SAFE_INTEGER" using dok unfolding debits_ok_def by blast
    from grouped_Some(1) [OF g this] g show ?thesis by blast
  qed
  have kept: "\<exists>r'. js_get (rl_records l') rid = Some r' \<and> re_settled r' = terminated"
    by (simp add: l' notify_def settled_record_def)
  have get: "js_get (rl_buckets l') k = js_get bs k" by (simp add: l' notify_def)
  show ?thesis
  proof (cases "k \<in> debit_roots env (rl_aliases l) (re_debits r)")
    case True
    then obtain g where g: "js_get (grouped ?root ?ds) k = Some g" "dg_amount g = peak (filter (\<lambda>d. ?root (rd_scope d) = k) ?ds)"
      using amount by blast
    have "js_get bs k = Some (settle_bucket (exceeds ?root (re_debits r) ?ds) (grouped ?root ?ds) k
        (charge_at (rl_aliases l) (re_charges r) k) b)"
      unfolding bs [of k] assms(6) if_P [OF True] by simp
    note new = this [unfolded settle_bucket_def Let_def next_used_def g(1) option.case g(2)]
    show ?thesis unfolding Let_def if_P [OF True] get using new kept by blast
  next
    case False
    have "js_get bs k = Some b" unfolding bs [of k] if_not_P [OF False] by (rule assms(6))
    with kept show ?thesis unfolding Let_def if_not_P [OF False] get by blast
  qed
qed

theorem settlement_replaces_reservation_witness:
  "\<exists>rc l' b. ledger_settle demo_env [114] None True demo_held = Returns (rc, l') \<and>
     js_get (rl_buckets l') [65] = Some b \<and> bk_used b = 0 \<and> \<not> bk_poisoned b"
proof -
  from demo_record obtain r where r: "js_get (rl_records demo_held) [114] = Some r" "\<not> re_settled r" "re_debits r = demo_debits"
    by blast
  obtain rc l' where settled: "ledger_settle demo_env [114] None True demo_held = Returns (rc, l')"
    using demo_settles by blast
  have charge: "charge_at (rl_aliases demo_held) (re_charges r) [65] = 2" using r(1)
    by (auto simp: charge_at_def ledger_evaluation)
  have root: "scope_root demo_env (rl_aliases demo_held) (demo_scope 65) = [65]" by (simp add: ledger_evaluation)
  have kind: "sc_bucketKind (demo_scope 65) = Occupancy" by (simp add: demo_scope_def)
  have "\<not> case_option False (actual_invalid demo_env r) None" by simp
  from settlement_replaces_reservation [OF held_reachable r(1,2) this settled demo_bucket] settled show ?thesis
    by (simp add: Let_def r(3) demo_debits_def root charge peak_def settled_debit_def exceeds_def kind is_safe_int_def
        MAX_SAFE_INTEGER_def)
qed

end
