(* ===== verification/Resource_Lifetime.thy ===== *)
theory Resource_Lifetime
  imports Prelude
begin

text \<open>
  Lifetimes (\<^verbatim>\<open>src/application/orchestration/resource-lifetime.ts\<close>): work that already runs may outlive
  the caller's release, but nothing new starts. The release function a hold returns remembers whether it
  ran; \<open>lt_holds\<close> keeps one such flag per hold. Listeners are numbered, \<open>lt_called\<close> logs their calls and
  \<open>lt_disposals\<close> counts the calls of \<open>dispose\<close>. A listener may call back into the lifetime while \<open>close\<close>
  runs, so \<open>close\<close> is two steps, before and after its listeners; what listeners raise is rethrown after
  the second step and changes nothing here.
\<close>

section \<open>Definitions\<close>

record lifetime =
  lt_accepting :: bool
  lt_holders :: int
  lt_disposed :: bool
  lt_closing :: "nat list"
  lt_holds :: "(nat, bool) js_map"
  lt_closes :: nat
  lt_called :: "nat list"
  lt_disposals :: nat

definition createResourceLifetime :: lifetime where
  "createResourceLifetime =
     \<lparr>lt_accepting = True, lt_holders = 0, lt_disposed = False, lt_closing = [], lt_holds = [], lt_closes = 0,
      lt_called = [], lt_disposals = 0\<rparr>"

definition lifetime_settle :: "lifetime \<Rightarrow> lifetime" where
  "lifetime_settle t =
     (if lt_accepting t \<or> lt_holders t \<noteq> 0 \<or> lt_disposed t then t
      else t\<lparr>lt_disposed := True, lt_disposals := Suc (lt_disposals t)\<rparr>)"

definition lifetime_hold :: "lifetime \<Rightarrow> nat \<times> lifetime" where
  "lifetime_hold t =
     (length (lt_holds t),
      t\<lparr>lt_holders := lt_holders t + 1, lt_holds := js_set (length (lt_holds t)) False (lt_holds t)\<rparr>)"

definition lifetime_release :: "nat \<Rightarrow> lifetime \<Rightarrow> lifetime" where
  "lifetime_release h t =
     (case js_get (lt_holds t) h of
        None \<Rightarrow> t
      | Some released \<Rightarrow>
          if released then t
          else lifetime_settle (t\<lparr>lt_holds := js_set h True (lt_holds t), lt_holders := lt_holders t - 1\<rparr>))"

definition lifetime_retained :: "lifetime \<Rightarrow> bool" where
  "lifetime_retained t \<longleftrightarrow> lt_holders t > 0"

datatype listening = Called_At_Once | Refused_Listener | Listening

definition lifetime_onClose :: "nat \<Rightarrow> lifetime \<Rightarrow> listening \<times> lifetime" where
  "lifetime_onClose listener t =
     (if \<not> lt_accepting t then (Called_At_Once, t\<lparr>lt_called := lt_called t @ [listener]\<rparr>)
      else if length (lt_closing t) \<ge> 64 then (Refused_Listener, t)
      else (Listening, t\<lparr>lt_closing := if listener \<in> set (lt_closing t) then lt_closing t else lt_closing t @ [listener]\<rparr>))"

definition lifetime_unlisten :: "nat \<Rightarrow> lifetime \<Rightarrow> lifetime" where
  "lifetime_unlisten listener t = t\<lparr>lt_closing := filter (\<lambda>l. l \<noteq> listener) (lt_closing t)\<rparr>"

definition lifetime_retain :: "lifetime \<Rightarrow> nat option \<times> lifetime" where
  "lifetime_retain t =
     (if \<not> lt_accepting t \<or> lt_holders t \<ge> 64 then (None, t)
      else let (h, t') = lifetime_hold t in (Some h, t'))"

definition lifetime_retainExisting :: "lifetime \<Rightarrow> nat option \<times> lifetime" where
  "lifetime_retainExisting t =
     (if lt_disposed t \<or> lt_holders t \<ge> 64 \<or> \<not> lt_accepting t \<and> lt_holders t = 0 then (None, t)
      else let (h, t') = lifetime_hold t in (Some h, t'))"

definition lifetime_close_begin :: "lifetime \<Rightarrow> lifetime" where
  "lifetime_close_begin t =
     (if \<not> lt_accepting t then t
      else t\<lparr>lt_accepting := False, lt_closes := Suc (lt_closes t), lt_called := lt_called t @ lt_closing t\<rparr>)"

definition lifetime_close_end :: "lifetime \<Rightarrow> lifetime" where
  "lifetime_close_end t =
     (if lt_closes t = 0 then t
      else lifetime_settle (t\<lparr>lt_closing := [], lt_closes := lt_closes t - 1\<rparr>))"

definition lifetime_close :: "lifetime \<Rightarrow> lifetime" where
  "lifetime_close t = (if \<not> lt_accepting t then t else lifetime_close_end (lifetime_close_begin t))"

inductive lifetime_step :: "lifetime \<Rightarrow> lifetime \<Rightarrow> bool" where
  life_release: "lifetime_step t (lifetime_release h t)"
| life_onClose: "lifetime_step t (snd (lifetime_onClose n t))"
| life_unlisten: "lifetime_step t (lifetime_unlisten n t)"
| life_retain: "lifetime_step t (snd (lifetime_retain t))"
| life_retainExisting: "lifetime_step t (snd (lifetime_retainExisting t))"
| life_close_begin: "lifetime_step t (lifetime_close_begin t)"
| life_close_end: "lifetime_step t (lifetime_close_end t)"

abbreviation lifetime_reachable :: "lifetime \<Rightarrow> bool" where
  "lifetime_reachable \<equiv> reachable (\<lambda>t. t = createResourceLifetime) lifetime_step"

section \<open>The invariant\<close>

definition open_holds :: "lifetime \<Rightarrow> int" where
  "open_holds t = sum_list (map (\<lambda>h. if snd h then 0 else 1) (lt_holds t))"

definition numbered :: "(nat, bool) js_map \<Rightarrow> bool" where
  "numbered holds \<longleftrightarrow> js_keys holds = [0..<length holds]"

definition phase_ok :: "bool \<Rightarrow> int \<Rightarrow> bool \<Rightarrow> nat \<Rightarrow> nat \<Rightarrow> bool" where
  "phase_ok accepting holders disposed closes disposals \<longleftrightarrow>
     disposals = (if disposed then 1 else 0) \<and>
     (disposed \<longrightarrow> \<not> accepting \<and> holders = 0) \<and>
     (accepting \<longrightarrow> closes = 0) \<and>
     (\<not> accepting \<and> holders = 0 \<and> closes = 0 \<longrightarrow> disposed)"

definition lifetime_ok :: "lifetime \<Rightarrow> bool" where
  "lifetime_ok t \<longleftrightarrow> numbered (lt_holds t) \<and> lt_holders t = open_holds t \<and>
     lt_holders t \<le> 64 \<and> length (lt_closing t) \<le> 64 \<and>
     phase_ok (lt_accepting t) (open_holds t) (lt_disposed t) (lt_closes t) (lt_disposals t)"

lemma open_holds_same [simp]:
  "open_holds (t\<lparr>lt_accepting := a\<rparr>) = open_holds t" "open_holds (t\<lparr>lt_holders := n\<rparr>) = open_holds t"
  "open_holds (t\<lparr>lt_disposed := a\<rparr>) = open_holds t" "open_holds (t\<lparr>lt_closing := ls\<rparr>) = open_holds t"
  "open_holds (t\<lparr>lt_closes := m\<rparr>) = open_holds t" "open_holds (t\<lparr>lt_called := ls\<rparr>) = open_holds t"
  "open_holds (t\<lparr>lt_disposals := m\<rparr>) = open_holds t"
  by (simp_all add: open_holds_def)

lemma open_holds_nonneg: "0 \<le> open_holds t"
  unfolding open_holds_def by (intro sum_list_map_nonneg) auto

lemma numbered_facts:
  assumes "numbered holds"
  shows "js_wf holds" "js_get holds (length holds) = None"
proof -
  have keys: "js_keys holds = [0..<length holds]" using assms by (simp add: numbered_def)
  show "js_wf holds" unfolding keys by simp
  show "js_get holds (length holds) = None"
    unfolding map_of_eq_None_iff set_map [symmetric] keys by simp
qed

lemma numbered_set:
  assumes "numbered holds" "h \<le> length holds"
  shows "numbered (js_set h v holds)"
proof -
  have keys: "js_keys holds = [0..<length holds]" using assms by (simp add: numbered_def)
  have put: "js_keys (js_set h v holds) = (if h \<in> set (js_keys holds) then js_keys holds else js_keys holds @ [h])"
    by (rule jsm.keys_put)
  have "length (js_set h v holds) = length (js_keys (js_set h v holds))" by simp
  also have "\<dots> = (if h < length holds then length holds else Suc (length holds))" unfolding put keys by simp
  finally show ?thesis
    using assms(2) unfolding numbered_def put keys by auto
qed

lemma phase_open: "phase_ok True holders disposed closes disposals \<longleftrightarrow> \<not> disposed \<and> disposals = 0 \<and> closes = 0"
  by (auto simp: phase_ok_def)

lemma phase_held: "phase_ok a h d c n \<Longrightarrow> h \<noteq> 0 \<Longrightarrow> \<not> d"
  unfolding phase_ok_def by blast

lemma phase_kept:
  "phase_ok a h0 d c0 n \<Longrightarrow> a \<or> h \<noteq> 0 \<or> d \<Longrightarrow> d \<longrightarrow> h = 0 \<Longrightarrow> a \<longrightarrow> c = 0 \<Longrightarrow> phase_ok a h d c n"
  unfolding phase_ok_def by blast

lemma settle_ok:
  assumes "numbered (lt_holds t)" "lt_holders t = open_holds t" "lt_holders t \<le> 64"
    "length (lt_closing t) \<le> 64" "phase_ok (lt_accepting t) holders (lt_disposed t) closes (lt_disposals t)"
    "lt_disposed t \<longrightarrow> lt_holders t = 0" "lt_accepting t \<longrightarrow> lt_closes t = 0"
  shows "lifetime_ok (lifetime_settle t)"
proof (cases "lt_accepting t \<or> lt_holders t \<noteq> 0 \<or> lt_disposed t")
  case True
  then have "phase_ok (lt_accepting t) (open_holds t) (lt_disposed t) (lt_closes t) (lt_disposals t)"
    using phase_kept [OF assms(5)] assms(2,6,7) by (simp del: not_None_eq)
  with True assms(1-4) show ?thesis by (simp add: lifetime_settle_def lifetime_ok_def)
next
  case False
  then have "phase_ok False 0 True (lt_closes t) (Suc (lt_disposals t))"
    using assms(5) by (simp add: phase_ok_def)
  with False assms(1-4) show ?thesis by (simp add: lifetime_settle_def lifetime_ok_def)
qed

lemma hold_ok:
  assumes "lifetime_ok t" "lt_holders t < 64" "\<not> lt_disposed t"
  shows "lifetime_ok (snd (lifetime_hold t))"
proof -
  have num: "numbered (lt_holds t)" using assms(1) by (simp add: lifetime_ok_def)
  have "open_holds (snd (lifetime_hold t)) = open_holds t + 1"
    by (simp add: open_holds_def lifetime_hold_def sum_list_js_set_fresh numbered_facts(2) [OF num])
  moreover have "0 \<le> open_holds t" by (rule open_holds_nonneg)
  moreover have "phase_ok (lt_accepting t) (open_holds t + 1) (lt_disposed t) (lt_closes t) (lt_disposals t)"
    using assms calculation(2) unfolding lifetime_ok_def phase_ok_def by auto
  ultimately show ?thesis
    using assms numbered_set [OF num, of "length (lt_holds t)" False]
    by (simp add: lifetime_ok_def lifetime_hold_def)
qed

lemma release_ok:
  assumes "lifetime_ok t"
  shows "lifetime_ok (lifetime_release h t)"
proof (cases "js_get (lt_holds t) h = Some False")
  case True
  have num: "numbered (lt_holds t)" using assms by (simp add: lifetime_ok_def)
  let ?t = "t\<lparr>lt_holds := js_set h True (lt_holds t), lt_holders := lt_holders t - 1\<rparr>"
  have fewer: "open_holds ?t = open_holds t - 1"
    unfolding open_holds_def
    using sum_list_js_set [OF numbered_facts(1) [OF num] True, of "\<lambda>h. if snd h then 0 else 1" True] by simp
  have "h \<in> set (js_keys (lt_holds t))" unfolding js_keys_iff using True by simp
  then have "h \<in> set [0..<length (lt_holds t)]" using num unfolding numbered_def by metis
  then have "h \<le> length (lt_holds t)" by simp
  then have num': "numbered (lt_holds ?t)" using numbered_set [OF num] by simp
  have "0 \<le> open_holds ?t" by (rule open_holds_nonneg)
  then have "lt_holders t \<noteq> 0" using assms fewer by (simp add: lifetime_ok_def)
  then have undisposed: "\<not> lt_disposed t" using assms phase_held unfolding lifetime_ok_def by metis
  have "lt_accepting t \<longrightarrow> lt_closes t = 0" using assms unfolding lifetime_ok_def phase_ok_def by blast
  then have "lifetime_ok (lifetime_settle ?t)"
    using assms num' fewer undisposed
    by (intro settle_ok [of ?t "open_holds t" "lt_closes t"]) (simp_all add: lifetime_ok_def)
  with True show ?thesis by (simp add: lifetime_release_def)
next
  case False
  then have "lifetime_release h t = t" by (auto simp: lifetime_release_def split: option.splits)
  with assms show ?thesis by simp
qed

lemma lifetime_step_ok:
  assumes "lifetime_ok t" "lifetime_step t t'"
  shows "lifetime_ok t'"
  using assms(2)
proof cases
  case (life_release h)
  with assms(1) show ?thesis by (simp add: release_ok)
next
  case (life_onClose n)
  have kept: "lifetime_ok (t\<lparr>lt_called := c\<rparr>)" "length ls \<le> 64 \<Longrightarrow> lifetime_ok (t\<lparr>lt_closing := ls\<rparr>)" for c ls
    using assms(1) unfolding lifetime_ok_def by simp_all
  have "length (lt_closing t) \<le> 64" using assms(1) by (simp add: lifetime_ok_def)
  with kept assms(1) life_onClose show ?thesis by (simp add: lifetime_onClose_def)
next
  case (life_unlisten n)
  with assms(1) length_filter_le [of "\<lambda>l. l \<noteq> n" "lt_closing t"] show ?thesis
    by (simp add: lifetime_unlisten_def lifetime_ok_def le_trans [OF length_filter_le])
next
  case life_retain
  show ?thesis
  proof (cases "\<not> lt_accepting t \<or> lt_holders t \<ge> 64")
    case False
    then have "\<not> lt_disposed t" using assms(1) unfolding lifetime_ok_def phase_ok_def by blast
    with False life_retain hold_ok [OF assms(1)] show ?thesis by (simp add: lifetime_retain_def case_prod_unfold Let_def)
  qed (use assms(1) life_retain in \<open>simp add: lifetime_retain_def\<close>)
next
  case life_retainExisting
  with assms(1) hold_ok [OF assms(1)] show ?thesis
    by (simp add: lifetime_retainExisting_def case_prod_unfold Let_def)
next
  case life_close_begin
  have "phase_ok False (open_holds t) (lt_disposed t) (Suc (lt_closes t)) (lt_disposals t)" if "lt_accepting t"
    using assms(1) that unfolding lifetime_ok_def by (simp add: phase_open) (simp add: phase_ok_def)
  with assms(1) life_close_begin show ?thesis
    by (cases "lt_accepting t") (simp_all add: lifetime_close_begin_def lifetime_ok_def)
next
  case life_close_end
  have "lt_disposed t \<longrightarrow> open_holds t = 0" "lt_accepting t \<longrightarrow> lt_closes t - 1 = 0"
    using assms(1) unfolding lifetime_ok_def phase_ok_def by (blast, metis diff_0_eq_0)
  then have "lifetime_ok (lifetime_settle (t\<lparr>lt_closing := [], lt_closes := lt_closes t - 1\<rparr>))"
    using assms(1) by (intro settle_ok [of _ "open_holds t" "lt_closes t"])
      (simp_all add: lifetime_ok_def)
  with assms(1) life_close_end show ?thesis by (simp add: lifetime_close_end_def)
qed

interpretation lifetime_machine: safety_machine "\<lambda>t. t = createResourceLifetime" lifetime_step lifetime_ok
proof unfold_locales
  show "lifetime_ok t" if "t = createResourceLifetime" for t
    using that by (simp add: createResourceLifetime_def lifetime_ok_def open_holds_def numbered_def phase_ok_def)
qed (rule lifetime_step_ok)

section \<open>What lifetimes promise\<close>

text \<open>
  A lifetime is disposed exactly once, and exactly when it has been closed and the last hold is
  released. In every reachable lifetime the holders are the holds not yet released, at most 64;
  \<open>dispose\<close> has run at most once; and unless \<open>close\<close> is still calling its listeners, it has run if and only
  if nothing is accepted and nothing is held.
\<close>

theorem disposed_once_after_last_hold:
  assumes "lifetime_reachable t"
  shows "lt_holders t = open_holds t \<and> 0 \<le> lt_holders t \<and> lt_holders t \<le> 64 \<and>
    lt_disposals t = (if lt_disposed t then 1 else 0) \<and>
    (lt_closes t = 0 \<longrightarrow> (lt_disposed t \<longleftrightarrow> \<not> lt_accepting t \<and> lt_holders t = 0))"
proof -
  have "lifetime_ok t" using assms by (rule lifetime_machine.always)
  then show ?thesis using open_holds_nonneg [of t] unfolding lifetime_ok_def phase_ok_def by metis
qed

definition demo_life :: lifetime where
  "demo_life = lifetime_release 0 (lifetime_close_end (lifetime_close_begin (snd (lifetime_retain createResourceLifetime))))"

theorem disposed_once_after_last_hold_witness:
  "lifetime_reachable demo_life \<and> lt_disposals demo_life = 1 \<and> lt_holders demo_life = 0"
proof -
  have start: "lifetime_reachable createResourceLifetime" by (rule reach_start) (rule refl)
  note held = reach_step [OF start life_retain]
  note closed = reach_step [OF reach_step [OF held life_close_begin] life_close_end]
  have reach: "lifetime_reachable demo_life"
    unfolding demo_life_def by (rule reach_step [OF closed life_release])
  have "lt_closes demo_life = 0 \<and> \<not> lt_accepting demo_life \<and> lt_holders demo_life = 0"
    by (simp add: demo_life_def lifetime_release_def lifetime_close_end_def lifetime_close_begin_def lifetime_retain_def
        lifetime_hold_def lifetime_settle_def createResourceLifetime_def)
  with disposed_once_after_last_hold [OF reach] reach show ?thesis by simp
qed

end
