(* ===== verification/Task_Resources.thy ===== *)
theory Task_Resources
  imports Resource_Promises Resource_Lifetime Work_Units Scope_Tree
begin

text \<open>
  The resources of one product task and of the children it is subdivided into
  (\<open>openTask\<close> and \<open>childTask\<close> of \<^verbatim>\<open>src/application/orchestration/product-resources.ts\<close>): limits, what
  remains, tightening, subdivision, the debits an operation makes on every ancestor and the admission
  that reserves them all at once. The closures of a task and its children are the records \<open>root_task\<close> and
  \<open>child_task\<close>; a child keeps the identity of its parent, and \<open>lineage\<close> is the chain its closures hold.
  Digests and \<open>maxConcurrent\<close> are fields of \<open>task_env\<close>, the time and fresh identities are arguments.
\<close>

section \<open>State\<close>

record task_env =
  te_ledger :: ledger_env
  te_sha :: "js_text \<Rightarrow> js_text"
  te_hash :: "js_text list \<Rightarrow> js_text"
  te_maxConcurrent :: int

record root_task =
  rt_id :: js_text
  rt_generation :: js_text
  rt_closed :: bool
  rt_overrun :: bool
  rt_unknown :: "resource_dimension list"
  rt_limits :: resource_amounts
  rt_startedAt :: int
  rt_expiresAt :: int
  rt_subdivisions :: nat
  rt_childIds :: "js_text list"
  rt_childWork :: "js_text list"
  rt_life :: lifetime

record child_task =
  ct_id :: js_text
  ct_parent :: "js_text option"
  ct_limits :: resource_amounts
  ct_closed :: bool
  ct_children :: nat
  ct_depth :: nat
  ct_started :: int
  ct_expiresAt :: int
  ct_life :: lifetime

record task_tree =
  tt_root :: root_task
  tt_children :: "(js_text, child_task) js_map"
  tt_shutdown :: bool
  tt_ledger :: resource_ledger

definition bucketKind :: "resource_dimension \<Rightarrow> bucket_kind" where
  "bucketKind dimension =
     (if dimension \<in> {Res_Memory_Bytes, Res_Buffered_Bytes, Res_Buffered_Items, Res_Processes, Res_Descendants, Res_Concurrency}
      then Occupancy else Cumulative)"

definition capacityScope ::
  "owner_kind \<Rightarrow> js_text \<Rightarrow> js_text \<Rightarrow> resource_dimension \<Rightarrow> bucket_kind \<Rightarrow> js_text option \<Rightarrow> capacity_scope" where
  "capacityScope ownerKind destination family dimension kind workspace =
     \<lparr>sc_version = 1, sc_ownerKind = ownerKind, sc_destination = destination, sc_account = None, sc_organization = None,
      sc_project = None, sc_workspace = workspace, sc_region = None, sc_serviceTier = None, sc_family = family,
      sc_dimension = dimension, sc_bucketKind = kind\<rparr>"

definition taskScope :: "root_task \<Rightarrow> resource_dimension \<Rightarrow> capacity_scope" where
  "taskScope r dimension = capacityScope Owner_Task (rt_id r) (ascii ''whole-task'') dimension (bucketKind dimension) None"

definition childScope :: "child_task \<Rightarrow> resource_dimension \<Rightarrow> capacity_scope" where
  "childScope c dimension = capacityScope Owner_Agent (ct_id c) (ascii ''child'') dimension (bucketKind dimension) None"

definition amount_or :: "int \<Rightarrow> resource_amounts \<Rightarrow> resource_dimension \<Rightarrow> int" where
  "amount_or fallback amounts dimension = (case js_get amounts dimension of None \<Rightarrow> fallback | Some v \<Rightarrow> v)"

text \<open>The limits of a new task: what was asked for, never above the defaults.\<close>

definition task_limits :: "resource_amounts \<Rightarrow> resource_amounts" where
  "task_limits requested =
     js_set Res_Wall_Time_Ms (min 1800000 (amount_or 1800000 requested Res_Wall_Time_Ms))
       (js_set Res_Requests (min 64 (amount_or 64 requested Res_Requests))
         (js_set Res_Operations (min 512 (amount_or 512 requested Res_Operations)) requested))"

definition openTask :: "js_text \<Rightarrow> js_text \<Rightarrow> int \<Rightarrow> bool \<Rightarrow> resource_amounts \<Rightarrow> root_task thrown" where
  "openTask fresh generation now denied requested =
     (if \<not> amounts_valid requested then Throws
      else
        let limits = task_limits requested in
        Returns \<lparr>rt_id = fresh, rt_generation = generation, rt_closed = denied, rt_overrun = False, rt_unknown = [],
          rt_limits = limits, rt_startedAt = now, rt_expiresAt = now + amount_or 1800000 limits Res_Wall_Time_Ms,
          rt_subdivisions = 0, rt_childIds = [], rt_childWork = [], rt_life = createResourceLifetime\<rparr>)"

section \<open>Ancestors\<close>

text \<open>
  A child, its parent, and so on up to the child of the task itself. The depth of a child bounds the
  walk, and \<open>MAX_SCOPE_DEPTH\<close> bounds the depth.
\<close>

fun walk :: "nat \<Rightarrow> (js_text, child_task) js_map \<Rightarrow> js_text \<Rightarrow> child_task list" where
  "walk 0 children cid = []"
| "walk (Suc n) children cid =
     (case js_get children cid of
        None \<Rightarrow> []
      | Some c \<Rightarrow> c # (case ct_parent c of None \<Rightarrow> [] | Some p \<Rightarrow> walk n children p))"

definition lineage :: "task_tree \<Rightarrow> js_text \<Rightarrow> child_task list" where
  "lineage t cid = walk MAX_SCOPE_DEPTH (tt_children t) cid"

text \<open>\<open>canContinue\<close>: the task still accepts work, or this child or one of its ancestors is retained.\<close>

fun can_continue :: "root_task \<Rightarrow> child_task list \<Rightarrow> bool" where
  "can_continue r [] \<longleftrightarrow> lt_accepting (rt_life r)"
| "can_continue r (c # cs) \<longleftrightarrow> can_continue r cs \<or> lifetime_retained (ct_life c)"

definition root_remaining :: "task_env \<Rightarrow> int \<Rightarrow> task_tree \<Rightarrow> resource_dimension \<Rightarrow> int" where
  "root_remaining env now t dimension =
     (let r = tt_root t in
      if rt_closed r \<or> rt_overrun r \<or> tt_shutdown t then 0
      else if dimension = Res_Wall_Time_Ms then max 0 (rt_startedAt r + amount_or 0 (rt_limits r) Res_Wall_Time_Ms - now)
      else ledger_remaining (te_ledger env) (taskScope r dimension) (amount_or MAX_SAFE_INTEGER (rt_limits r) dimension) (tt_ledger t))"

fun lineage_remaining :: "task_env \<Rightarrow> int \<Rightarrow> task_tree \<Rightarrow> resource_dimension \<Rightarrow> child_task list \<Rightarrow> int" where
  "lineage_remaining env now t dimension [] = root_remaining env now t dimension"
| "lineage_remaining env now t dimension (c # cs) =
     (if ct_closed c then 0
      else min (lineage_remaining env now t dimension cs)
        (if dimension = Res_Wall_Time_Ms
         then max 0 (ct_started c + amount_or MAX_SAFE_INTEGER (ct_limits c) Res_Wall_Time_Ms - now)
         else ledger_remaining (te_ledger env) (childScope c dimension) (amount_or MAX_SAFE_INTEGER (ct_limits c) dimension) (tt_ledger t)))"

section \<open>Tightening\<close>

primrec narrow_all ::
  "ledger_env \<Rightarrow> (resource_dimension \<Rightarrow> capacity_scope) \<Rightarrow> js_text \<Rightarrow> (resource_dimension \<times> int) list \<Rightarrow> resource_ledger \<Rightarrow>
   resource_ledger thrown" where
  "narrow_all env scope parent [] l = Returns l"
| "narrow_all env scope parent (e # es) l =
     (case ledger_narrow env (scope (fst e)) (snd e) parent l of
        Throws \<Rightarrow> Throws
      | Returns l' \<Rightarrow> narrow_all env scope parent es l')"

definition tighter_limit :: "resource_dimension \<times> int \<Rightarrow> resource_amounts \<Rightarrow> resource_amounts" where
  "tighter_limit e limits = js_set (fst e) (min (amount_or MAX_SAFE_INTEGER limits (fst e)) (snd e)) limits"

text \<open>The task narrows its limits one by one; a child merges all of them first.\<close>

definition root_tighten :: "task_env \<Rightarrow> resource_amounts \<Rightarrow> task_tree \<Rightarrow> (bool \<times> task_tree) thrown" where
  "root_tighten env narrower t =
     (let r = tt_root t in
      if rt_closed r \<or> \<not> amounts_valid narrower then Returns (False, t)
      else
        let limits = fold tighter_limit narrower (rt_limits r) in
        case narrow_all (te_ledger env) (taskScope r) (rt_id r)
               (map (\<lambda>e. (fst e, amount_or MAX_SAFE_INTEGER limits (fst e))) narrower) (tt_ledger t) of
          Throws \<Rightarrow> Throws
        | Returns l \<Rightarrow> Returns (True, t\<lparr>tt_root := r\<lparr>rt_limits := limits\<rparr>, tt_ledger := l\<rparr>))"

definition merge_limits :: "resource_amounts \<Rightarrow> resource_amounts \<Rightarrow> resource_amounts" where
  "merge_limits limits narrower =
     map (\<lambda>e. (fst e, min (snd e) (amount_or MAX_SAFE_INTEGER limits (fst e))))
       (fold (\<lambda>e m. js_set (fst e) (snd e) m) narrower limits)"

definition child_tighten :: "task_env \<Rightarrow> js_text \<Rightarrow> resource_amounts \<Rightarrow> task_tree \<Rightarrow> (bool \<times> task_tree) thrown" where
  "child_tighten env cid narrower t =
     (case js_get (tt_children t) cid of
        None \<Rightarrow> Returns (False, t)
      | Some c \<Rightarrow>
          if ct_closed c \<or> \<not> amounts_valid narrower then Returns (False, t)
          else
            let limits = merge_limits (ct_limits c) narrower in
            case narrow_all (te_ledger env) (childScope c) (rt_id (tt_root t)) limits (tt_ledger t) of
              Throws \<Rightarrow> Throws
            | Returns l \<Rightarrow>
                Returns (True, t\<lparr>tt_children := js_set cid (c\<lparr>ct_limits := limits\<rparr>) (tt_children t), tt_ledger := l\<rparr>))"

section \<open>Subdivision\<close>

datatype child_identity = Available | Duplicate_Child | No_Progress

definition childIdentity :: "root_task \<Rightarrow> js_text \<Rightarrow> js_text \<Rightarrow> child_identity" where
  "childIdentity r cid digest =
     (if cid \<in> set (rt_childIds r) then Duplicate_Child
      else if digest \<in> set (rt_childWork r) then No_Progress else Available)"

definition claimChild :: "bool \<Rightarrow> (js_text \<times> js_text) option \<Rightarrow> bool \<Rightarrow> root_task \<Rightarrow> root_task option" where
  "claimChild shutdown identity retained r =
     (if rt_closed r \<or> \<not> lt_accepting (rt_life r) \<and> \<not> retained \<or> shutdown \<or> rt_subdivisions r \<ge> 64 then None
      else case identity of
             None \<Rightarrow> Some (r\<lparr>rt_subdivisions := Suc (rt_subdivisions r)\<rparr>)
           | Some (cid, digest) \<Rightarrow>
               if childIdentity r cid digest \<noteq> Available then None
               else Some (r\<lparr>rt_subdivisions := Suc (rt_subdivisions r), rt_childIds := rt_childIds r @ [cid],
                            rt_childWork := rt_childWork r @ [digest]\<rparr>))"

definition new_child :: "js_text \<Rightarrow> js_text option \<Rightarrow> nat \<Rightarrow> int \<Rightarrow> int \<Rightarrow> resource_amounts \<Rightarrow> child_task" where
  "new_child fresh parent depth expires now limits =
     \<lparr>ct_id = fresh, ct_parent = parent, ct_limits = limits, ct_closed = False, ct_children = 0, ct_depth = depth,
      ct_started = now, ct_expiresAt = min expires (now + amount_or MAX_SAFE_INTEGER limits Res_Wall_Time_Ms),
      ct_life = createResourceLifetime\<rparr>"

definition root_subdivide ::
  "js_text \<Rightarrow> int \<Rightarrow> resource_amounts \<Rightarrow> (js_text \<times> js_text) option \<Rightarrow> task_tree \<Rightarrow> js_text option \<times> task_tree" where
  "root_subdivide fresh now narrower identity t =
     (let r = tt_root t in
      if \<not> lt_accepting (rt_life r) \<or> \<not> amounts_valid narrower then (None, t)
      else case claimChild (tt_shutdown t) identity False r of
             None \<Rightarrow> (None, t)
           | Some r' \<Rightarrow>
               (Some fresh, t\<lparr>tt_root := r',
                  tt_children := js_set fresh (new_child fresh None 1 (rt_expiresAt r) now narrower) (tt_children t)\<rparr>))"

definition child_subdivide ::
  "js_text \<Rightarrow> int \<Rightarrow> js_text \<Rightarrow> resource_amounts \<Rightarrow> (js_text \<times> js_text) option \<Rightarrow> task_tree \<Rightarrow> js_text option \<times> task_tree" where
  "child_subdivide fresh now cid narrower identity t =
     (case js_get (tt_children t) cid of
        None \<Rightarrow> (None, t)
      | Some c \<Rightarrow>
          let continue = can_continue (tt_root t) (lineage t cid) in
          if ct_closed c \<or> \<not> lt_accepting (ct_life c) \<or> \<not> continue \<or> ct_depth c \<ge> MAX_SCOPE_DEPTH \<or> ct_children c \<ge> 64 \<or>
             \<not> amounts_valid narrower
          then (None, t)
          else case claimChild (tt_shutdown t) identity continue (tt_root t) of
                 None \<Rightarrow> (None, t)
               | Some r' \<Rightarrow>
                   (Some fresh, t\<lparr>tt_root := r',
                      tt_children := js_set fresh (new_child fresh (Some cid) (Suc (ct_depth c)) (ct_expiresAt c) now narrower)
                        (js_set cid (c\<lparr>ct_children := Suc (ct_children c)\<rparr>) (tt_children t))\<rparr>))"

text \<open>The disposal of a lifetime closes its owner, and for the task also its records in the ledger.\<close>

definition root_life :: "task_env \<Rightarrow> lifetime \<Rightarrow> task_tree \<Rightarrow> task_tree" where
  "root_life env life t =
     (let r = tt_root t in
      if lt_disposed life \<and> \<not> lt_disposed (rt_life r)
      then t\<lparr>tt_root := r\<lparr>rt_life := life, rt_closed := True\<rparr>, tt_ledger := closeTask (te_ledger env) (rt_id r) (tt_ledger t)\<rparr>
      else t\<lparr>tt_root := r\<lparr>rt_life := life\<rparr>\<rparr>)"

definition child_life :: "js_text \<Rightarrow> lifetime \<Rightarrow> task_tree \<Rightarrow> task_tree" where
  "child_life cid life t =
     t\<lparr>tt_children := js_modify (\<lambda>c. c\<lparr>ct_life := life, ct_closed := ct_closed c \<or> lt_disposed life\<rparr>) cid (tt_children t)\<rparr>"

section \<open>Debits and admission\<close>

record resource_work =
  wk_operation :: js_text
  wk_attempt :: js_text
  wk_generation :: js_text
  wk_unit :: work_unit
  wk_amounts :: resource_amounts
  wk_scopes :: "resource_debit list"

definition work_amounts :: "resource_amounts \<Rightarrow> resource_amounts" where
  "work_amounts amounts =
     js_set Res_Concurrency (max 1 (amount_or 1 amounts Res_Concurrency)) (js_set Res_Operations 1 amounts)"

definition child_runnable :: "js_text \<Rightarrow> resource_debit" where
  "child_runnable rootId =
     \<lparr>rd_scope = capacityScope Owner_Task rootId (ascii ''child-runnable'') Res_Concurrency Occupancy None, rd_amount = 1, rd_limit = 4\<rparr>"

text \<open>A child adds its own debits to those the operation already carries.\<close>

definition child_debits :: "js_text \<Rightarrow> resource_amounts \<Rightarrow> child_task \<Rightarrow> resource_debit list \<Rightarrow> resource_debit list" where
  "child_debits rootId amounts c scopes =
     scopes @
     (if list_ex (\<lambda>d. sc_family (rd_scope d) = ascii ''child-runnable'' \<and> sc_destination (rd_scope d) = rootId) scopes
      then [] else [child_runnable rootId]) @
     map (\<lambda>e. \<lparr>rd_scope = childScope c (fst e), rd_amount = 0, rd_limit = amount_or 0 (ct_limits c) (fst e)\<rparr>)
       (filter (\<lambda>e. \<not> js_has amounts (fst e)) (ct_limits c)) @
     map (\<lambda>e. \<lparr>rd_scope = childScope c (fst e), rd_amount = snd e, rd_limit = amount_or MAX_SAFE_INTEGER (ct_limits c) (fst e)\<rparr>)
       amounts"

fun lineage_debits :: "js_text \<Rightarrow> resource_amounts \<Rightarrow> child_task list \<Rightarrow> resource_debit list \<Rightarrow> resource_debit list" where
  "lineage_debits rootId amounts [] scopes = scopes"
| "lineage_debits rootId amounts (c # cs) scopes = lineage_debits rootId amounts cs (child_debits rootId amounts c scopes)"

definition task_debits :: "task_env \<Rightarrow> root_task \<Rightarrow> resource_amounts \<Rightarrow> work_unit \<Rightarrow> resource_debit list \<Rightarrow> resource_debit list" where
  "task_debits env r amounts unit scopes =
     map (\<lambda>key. \<lparr>rd_scope = capacityScope Owner_Process (ascii ''falryn'') (ascii ''conflict:'' @ te_sha env key) Res_Concurrency Occupancy None,
                 rd_amount = 1, rd_limit = 1\<rparr>) (effectiveConflictKeys unit) @
     [\<lparr>rd_scope = capacityScope Owner_Process (ascii ''falryn'') (ascii ''product'') Res_Concurrency Occupancy None,
       rd_amount = 1, rd_limit = te_maxConcurrent env\<rparr>] @
     map (\<lambda>e. \<lparr>rd_scope = taskScope r (fst e), rd_amount = snd e, rd_limit = amount_or MAX_SAFE_INTEGER (rt_limits r) (fst e)\<rparr>)
       amounts @
     scopes"

text \<open>Just before reserving, every debit owned by the task takes the task's current limit.\<close>

definition current_debit :: "root_task \<Rightarrow> resource_debit \<Rightarrow> resource_debit" where
  "current_debit r d =
     (if sc_ownerKind (rd_scope d) = Owner_Task
      then d\<lparr>rd_limit := min (rd_limit d) (amount_or MAX_SAFE_INTEGER (rt_limits r) (sc_dimension (rd_scope d)))\<rparr>
      else d)"

definition operation_of :: "task_env \<Rightarrow> child_task list \<Rightarrow> js_text \<Rightarrow> js_text" where
  "operation_of env cs operation = foldl (\<lambda>o' c. te_hash env [ct_id c, o']) operation cs"

definition work_debits :: "task_env \<Rightarrow> task_tree \<Rightarrow> child_task list \<Rightarrow> resource_work \<Rightarrow> resource_debit list" where
  "work_debits env t cs w =
     (let amounts = work_amounts (wk_amounts w) in
      task_debits env (tt_root t) amounts (wk_unit w) (lineage_debits (rt_id (tt_root t)) amounts cs (wk_scopes w)))"

definition work_identity :: "root_task \<Rightarrow> js_text \<Rightarrow> js_text \<Rightarrow> resource_debit list \<Rightarrow> reservation_identity" where
  "work_identity r operation attempt debits =
     \<lparr>ri_version = 1, ri_parentScope = rt_id r, ri_owner = rt_id r, ri_operation = operation,
      ri_workspaceGeneration = rt_generation r, ri_configurationGeneration = rt_generation r, ri_attempt = attempt,
      ri_fence = rt_id r, ri_scopes = map rd_scope debits\<rparr>"

text \<open>
  \<open>checkAdmission\<close> of the segments: the task's own child first, the child that runs the operation last.
  Each level keeps whether the segment it was handed was retained when the operation was submitted.
\<close>

fun lineage_check ::
  "task_env \<Rightarrow> int \<Rightarrow> task_tree \<Rightarrow> (child_task \<times> bool) list \<Rightarrow> (admission_state \<times> resource_dimension option) option" where
  "lineage_check env now t [] = None"
| "lineage_check env now t ((c, retained) # cs) =
     (case lineage_check env now t cs of
        Some refusal \<Rightarrow> Some refusal
      | None \<Rightarrow>
          if \<not> lt_accepting (ct_life c) \<and> \<not> retained \<or> \<not> can_continue (tt_root t) (c # map fst cs)
          then Some (State_Stale_Generation, None)
          else if lineage_remaining env now t Res_Wall_Time_Ms (c # map fst cs) = 0
          then Some (State_Admission_Timeout, Some Res_Wall_Time_Ms)
          else if list_ex (\<lambda>d. js_has (ct_limits c) d) (rt_unknown (tt_root t)) then Some (State_Quota_Unknown, None)
          else None)"

definition stoppedReceipt :: "root_task \<Rightarrow> admission_state \<Rightarrow> resource_dimension option \<Rightarrow> receipt" where
  "stoppedReceipt r state dimension =
     \<lparr>rc_version = 1, rc_state = state, rc_reservation = rt_id r, rc_scope = None, rc_dimension = dimension,
      rc_acquired = False, rc_released = False, rc_uncertain = False, rc_queuePosition = None,
      rc_deadline = Some (rt_expiresAt r)\<rparr>"

datatype work_admission = Work_Ready receipt | Work_Waits receipt | Work_Refused receipt

definition admit_work ::
  "task_env \<Rightarrow> int \<Rightarrow> int \<Rightarrow> int \<Rightarrow> receipt option \<Rightarrow> (child_task \<times> bool) list \<Rightarrow> resource_work \<Rightarrow> resource_debit list \<Rightarrow>
   task_tree \<Rightarrow> work_admission \<times> task_tree" where
  "admit_work env now deadline queued inner chain w debits t =
     (let r = tt_root t; cs = map fst chain; operation = operation_of env cs (wk_operation w) in
      case lineage_check env now t chain of
        Some refusal \<Rightarrow> (Work_Refused (stoppedReceipt r (fst refusal) (snd refusal)), t)
      | None \<Rightarrow>
          (case inner of
             Some refusal \<Rightarrow> (Work_Refused refusal, t)
           | None \<Rightarrow>
               if rt_closed r \<or> wk_generation w \<noteq> rt_generation r
               then (Work_Refused (stoppedReceipt r State_Stale_Generation None), t)
               else if root_remaining env now t Res_Wall_Time_Ms = 0
               then (Work_Refused (stoppedReceipt r State_Admission_Timeout None), t)
               else
                 let ((kind, rc), l) = ledger_reserve (te_ledger env) (te_hash env [rt_id r, wk_attempt w, operation])
                       (work_identity r operation (wk_attempt w) debits) (map (current_debit r) debits) (tt_ledger t);
                     rc' = rc\<lparr>rc_deadline := Some deadline, rc_queuePosition := if kind = Decided_Queued then Some queued else None\<rparr>;
                     t' = t\<lparr>tt_ledger := l\<rparr> in
                 (case kind of
                    Decided_Queued \<Rightarrow> (Work_Waits rc', t')
                  | Decided_Admitted \<Rightarrow> (Work_Ready rc', t')
                  | _ \<Rightarrow> (Work_Refused rc', t'))))"

end
