(* ===== verification/Task_Promises.thy ===== *)
theory Task_Promises
  imports Task_Resources
begin

text \<open>
  What task resources promise: admitted work is charged to, and fits, every ancestor; tightening grants
  nothing; the tree of children is bounded.
\<close>

section \<open>Debits on every ancestor\<close>

lemma child_debits_keep: "set scopes \<subseteq> set (child_debits rootId amounts c scopes)"
  by (auto simp: child_debits_def)

lemma lineage_debits_keep: "set scopes \<subseteq> set (lineage_debits rootId amounts cs scopes)"
proof (induction cs arbitrary: scopes)
  case (Cons c cs)
  from Cons.IH [of "child_debits rootId amounts c scopes"] child_debits_keep [of scopes rootId amounts c] show ?case by auto
qed simp

lemma lineage_debits_child:
  "c \<in> set cs \<Longrightarrow> (dim, a) \<in> set amounts \<Longrightarrow>
   \<lparr>rd_scope = childScope c dim, rd_amount = a, rd_limit = amount_or MAX_SAFE_INTEGER (ct_limits c) dim\<rparr>
     \<in> set (lineage_debits rootId amounts cs scopes)"
proof (induction cs arbitrary: scopes)
  case (Cons e cs)
  show ?case
  proof (cases "c = e")
    case True
    have "\<lparr>rd_scope = childScope c dim, rd_amount = a, rd_limit = amount_or MAX_SAFE_INTEGER (ct_limits c) dim\<rparr>
        \<in> set (child_debits rootId amounts e scopes)"
      using Cons.prems(2) True by (force simp: child_debits_def)
    then show ?thesis using lineage_debits_keep [of "child_debits rootId amounts e scopes" rootId amounts cs] by auto
  next
    case False
    with Cons show ?thesis by simp
  qed
qed simp

lemma work_debits_task:
  "(dim, a) \<in> set (work_amounts (wk_amounts w)) \<Longrightarrow>
   \<lparr>rd_scope = taskScope (tt_root t) dim, rd_amount = a, rd_limit = amount_or MAX_SAFE_INTEGER (rt_limits (tt_root t)) dim\<rparr>
     \<in> set (work_debits env t cs w)"
  by (force simp: work_debits_def task_debits_def Let_def)

lemma work_debits_child:
  "c \<in> set cs \<Longrightarrow> (dim, a) \<in> set (work_amounts (wk_amounts w)) \<Longrightarrow>
   \<lparr>rd_scope = childScope c dim, rd_amount = a, rd_limit = amount_or MAX_SAFE_INTEGER (ct_limits c) dim\<rparr>
     \<in> set (work_debits env t cs w)"
  using lineage_debits_child [of c cs dim a "work_amounts (wk_amounts w)"]
  by (auto simp: work_debits_def task_debits_def Let_def)

lemma current_debit_facts [simp]:
  "rd_scope (current_debit r d) = rd_scope d" "rd_amount (current_debit r d) = rd_amount d"
  "rd_limit (current_debit r d) \<le> rd_limit d"
  by (auto simp: current_debit_def)

lemma scope_owners [simp]:
  "sc_ownerKind (childScope c dim) = Owner_Agent" "sc_ownerKind (taskScope r dim) = Owner_Task"
  "sc_dimension (taskScope r dim) = dim" "sc_dimension (childScope c dim) = dim"
  by (simp_all add: childScope_def taskScope_def capacityScope_def)

lemma admit_work_ready:
  assumes "admit_work env now deadline queued inner chain w debits t = (Work_Ready rc, t')"
  obtains rid identity kind rc0 where
    "ledger_reserve (te_ledger env) rid identity (map (current_debit (tt_root t)) debits) (tt_ledger t) = ((kind, rc0), tt_ledger t')"
    "kind = Decided_Admitted" "rt_id (tt_root t') = rt_id (tt_root t)"
  using assms unfolding admit_work_def Let_def case_prod_unfold
  by (force split: option.splits if_splits reservation_kind.splits simp: prod_eq_iff)

text \<open>One debit of admitted work: its bucket is healthy, took at least the amount, and is within its limits.\<close>

definition charged_within ::
  "ledger_env \<Rightarrow> resource_ledger \<Rightarrow> resource_ledger \<Rightarrow> capacity_scope \<Rightarrow> int \<Rightarrow> int \<Rightarrow> bool" where
  "charged_within env l l' scope amount limit \<longleftrightarrow>
     (\<exists>b. js_get (rl_buckets l') (scope_root env (rl_aliases l) scope) = Some b \<and> \<not> bk_poisoned b \<and>
        used_of (js_get (rl_buckets l) (scope_root env (rl_aliases l) scope)) + amount \<le> bk_used b \<and>
        bk_used b \<le> bk_limit b \<and> bk_limit b \<le> limit)"

lemma admitted_charge:
  assumes "ledger_reserve env rid identity (map (current_debit r) debits) l = ((kind, rc), l')" "kind = Decided_Admitted"
    "d \<in> set debits"
  shows "charged_within env l l' (rd_scope d) (rd_amount d) (rd_limit (current_debit r d))"
proof -
  have mem: "current_debit r d \<in> set (map (current_debit r) debits)" using assms(3) by simp
  let ?k = "scope_root env (rl_aliases l) (rd_scope d)"
  let ?at = "filter (\<lambda>e. scope_root env (rl_aliases l) (rd_scope e) = ?k) (map (current_debit r) debits)"
  have "current_debit r d \<in> set ?at" using mem by simp
  from peak_ge [OF this] have "rd_amount d \<le> peak ?at" by simp
  with admitted_debit [OF assms(1,2) mem] show ?thesis unfolding charged_within_def by fastforce
qed

section \<open>Remaining capacity under tightening\<close>

lemma remaining_mono: "limit' \<le> limit \<Longrightarrow> ledger_remaining env scope limit' l \<le> ledger_remaining env scope limit l"
  by (cases "js_get (rl_buckets l) (scope_root env (rl_aliases l) scope)")
     (auto simp: ledger_remaining_def Let_def poisoned_of_def limit_of_def used_of_def)

lemma remaining_narrow:
  assumes "ledger_narrow env s m parent l = Returns l'"
  shows "ledger_remaining env scope limit l' \<le> ledger_remaining env scope limit l"
proof -
  let ?k = "scope_root env (rl_aliases l) s"
  from assms obtain v where v: "rl_buckets l' = js_set ?k v (rl_buckets l)" "rl_aliases l' = rl_aliases l"
    "bk_used v = used_of (js_get (rl_buckets l) ?k)" "bk_poisoned v = poisoned_of (js_get (rl_buckets l) ?k)"
    "bk_limit v = min (limit_of m (js_get (rl_buckets l) ?k)) m"
    by (auto simp: ledger_narrow_def notify_def Let_def split: if_splits)
  then show ?thesis
    by (cases "scope_root env (rl_aliases l) scope = ?k"; cases "js_get (rl_buckets l) ?k")
       (auto simp: ledger_remaining_def Let_def poisoned_of_def limit_of_def used_of_def)
qed

lemma remaining_narrow_all:
  "narrow_all env scopes parent es l = Returns l' \<Longrightarrow>
   ledger_remaining env scope limit l' \<le> ledger_remaining env scope limit l"
proof (induction es arbitrary: l)
  case (Cons e es)
  from Cons.prems obtain m where m: "ledger_narrow env (scopes (fst e)) (snd e) parent l = Returns m"
    "narrow_all env scopes parent es m = Returns l'" by (auto split: thrown.splits)
  from Cons.IH [OF m(2)] remaining_narrow [OF m(1), of scope limit] show ?case by linarith
qed simp

lemma tighter_limits:
  "amount_or MAX_SAFE_INTEGER (fold tighter_limit es limits) dim \<le> amount_or MAX_SAFE_INTEGER limits dim"
proof (induction es arbitrary: limits)
  case (Cons e es)
  have "amount_or MAX_SAFE_INTEGER (tighter_limit e limits) dim \<le> amount_or MAX_SAFE_INTEGER limits dim"
    by (simp add: tighter_limit_def amount_or_def)
  with Cons.IH [of "tighter_limit e limits"] show ?case by simp
qed simp

lemma tighter_keeps: "js_has limits dim \<Longrightarrow> js_has (fold tighter_limit es limits) dim"
  by (induction es arbitrary: limits) (auto simp: tighter_limit_def)

lemma keyed_map_get: "js_get (map (\<lambda>e. (fst e, f (fst e) (snd e))) m) k = map_option (f k) (js_get m k)"
  by (induction m) auto

lemma merged_limits: "amount_or MAX_SAFE_INTEGER (merge_limits limits narrower) dim \<le> amount_or MAX_SAFE_INTEGER limits dim"
proof -
  let ?all = "fold (\<lambda>e m. js_set (fst e) (snd e) m) narrower limits"
  have keeps: "js_has m dim \<Longrightarrow> js_has (fold (\<lambda>e m. js_set (fst e) (snd e) m) es m) dim" for es and m :: resource_amounts
    by (induction es arbitrary: m) auto
  have get: "js_get (merge_limits limits narrower) dim = map_option (\<lambda>v. min v (amount_or MAX_SAFE_INTEGER limits dim)) (js_get ?all dim)"
    unfolding merge_limits_def
    by (rule keyed_map_get [where f = "\<lambda>d v. min v (amount_or MAX_SAFE_INTEGER limits d)"])
  show ?thesis
    using keeps [of limits narrower] unfolding amount_or_def get by (cases "js_get ?all dim"; cases "js_get limits dim") auto
qed

section \<open>The tree\<close>

inductive task_step :: "task_env \<Rightarrow> task_tree \<Rightarrow> task_tree \<Rightarrow> bool" for env where
  ts_root_subdivide: "js_get (tt_children t) fresh = None \<Longrightarrow> task_step env t (snd (root_subdivide fresh now narrower identity t))"
| ts_child_subdivide: "js_get (tt_children t) fresh = None \<Longrightarrow> task_step env t (snd (child_subdivide fresh now cid narrower identity t))"
| ts_root_tighten: "root_tighten env narrower t = Returns (res, t') \<Longrightarrow> task_step env t t'"
| ts_child_tighten: "child_tighten env cid narrower t = Returns (res, t') \<Longrightarrow> task_step env t t'"
| ts_root_life: "lifetime_step (rt_life (tt_root t)) life \<Longrightarrow> task_step env t (root_life env life t)"
| ts_child_life: "js_get (tt_children t) cid = Some c \<Longrightarrow> lifetime_step (ct_life c) life \<Longrightarrow> task_step env t (child_life cid life t)"
| ts_admit: "admit_work env now deadline queued inner chain w debits t = (answer, t') \<Longrightarrow> task_step env t t'"
| ts_shutdown: "task_step env t (t\<lparr>tt_shutdown := True\<rparr>)"

definition task_start :: "task_tree \<Rightarrow> bool" where
  "task_start t \<longleftrightarrow> (\<exists>fresh generation now denied requested.
     openTask fresh generation now denied requested = Returns (tt_root t)) \<and> tt_children t = []"

abbreviation task_reachable :: "task_env \<Rightarrow> task_tree \<Rightarrow> bool" where
  "task_reachable env \<equiv> reachable task_start (task_step env)"

definition child_ok :: "root_task \<Rightarrow> (js_text, child_task) js_map \<Rightarrow> js_text \<Rightarrow> child_task \<Rightarrow> bool" where
  "child_ok r children cid c \<longleftrightarrow> ct_id c = cid \<and> ct_depth c \<le> MAX_SCOPE_DEPTH \<and>
     (case ct_parent c of
        None \<Rightarrow> ct_depth c = 1 \<and> ct_expiresAt c \<le> rt_expiresAt r
      | Some p \<Rightarrow> (\<exists>pc. js_get children p = Some pc \<and> ct_depth c = Suc (ct_depth pc) \<and> ct_expiresAt c \<le> ct_expiresAt pc))"

definition tree_ok :: "task_tree \<Rightarrow> bool" where
  "tree_ok t \<longleftrightarrow> js_wf (tt_children t) \<and> length (tt_children t) = rt_subdivisions (tt_root t) \<and>
     rt_subdivisions (tt_root t) \<le> 64 \<and> distinct (rt_childIds (tt_root t)) \<and> distinct (rt_childWork (tt_root t)) \<and>
     js_has (rt_limits (tt_root t)) Res_Wall_Time_Ms \<and>
     (\<forall>cid c. js_get (tt_children t) cid = Some c \<longrightarrow> child_ok (tt_root t) (tt_children t) cid c)"

text \<open>Children change without moving in the tree: what is fixed at birth stays.\<close>

definition same_place :: "child_task \<Rightarrow> child_task \<Rightarrow> bool" where
  "same_place c c' \<longleftrightarrow> ct_id c' = ct_id c \<and> ct_parent c' = ct_parent c \<and> ct_depth c' = ct_depth c \<and> ct_expiresAt c' = ct_expiresAt c"

lemma child_ok_same:
  assumes "child_ok r children cid c" "same_place c c'" "rt_expiresAt r' = rt_expiresAt r"
    "\<And>p pc. js_get children p = Some pc \<Longrightarrow> \<exists>pc'. js_get children' p = Some pc' \<and> same_place pc pc'"
  shows "child_ok r' children' cid c'"
proof (cases "ct_parent c")
  case None
  with assms show ?thesis by (simp add: child_ok_def same_place_def)
next
  case (Some p)
  with assms(1) obtain pc where pc: "js_get children p = Some pc" "ct_depth c = Suc (ct_depth pc)" "ct_expiresAt c \<le> ct_expiresAt pc"
    by (auto simp: child_ok_def)
  from assms(4) [OF pc(1)] obtain pc' where "js_get children' p = Some pc'" "same_place pc pc'" by blast
  with Some pc assms(1,2) show ?thesis by (simp add: child_ok_def same_place_def)
qed

lemma children_modify:
  assumes "js_get children cid = Some c" "same_place c c'" "js_get children p = Some pc"
  shows "\<exists>pc'. js_get (js_set cid c' children) p = Some pc' \<and> same_place pc pc'"
  using assms by (auto simp: same_place_def)

lemma tree_ok_modify:
  assumes "tree_ok t" "js_get (tt_children t) cid = Some c" "same_place c c'"
  shows "tree_ok (t\<lparr>tt_children := js_set cid c' (tt_children t)\<rparr>)"
proof -
  have "child_ok (tt_root t) (js_set cid c' (tt_children t)) k d'" if got: "js_get (js_set cid c' (tt_children t)) k = Some d'" for k d'
  proof -
    obtain d where d: "js_get (tt_children t) k = Some d" "same_place d d'"
      using got assms(2,3) by (cases "k = cid") (auto simp: same_place_def)
    then have "child_ok (tt_root t) (tt_children t) k d" using assms(1) unfolding tree_ok_def by blast
    then show ?thesis using d(2) by (rule child_ok_same) (use children_modify [OF assms(2,3)] in auto)
  qed
  moreover have "length (js_set cid c' (tt_children t)) = length (tt_children t)"
    using assms(2) by (metis jsm.keys_put js_keys_iff length_map option.distinct(1))
  ultimately show ?thesis using assms(1) unfolding tree_ok_def by simp
qed

lemma tree_ok_root:
  assumes "tree_ok t" "rt_subdivisions r' = rt_subdivisions (tt_root t)" "rt_childIds r' = rt_childIds (tt_root t)"
    "rt_childWork r' = rt_childWork (tt_root t)" "js_has (rt_limits r') Res_Wall_Time_Ms" "rt_expiresAt r' = rt_expiresAt (tt_root t)"
  shows "tree_ok (t\<lparr>tt_root := r', tt_ledger := l\<rparr>)"
proof -
  have "child_ok r' (tt_children t) k d" if "js_get (tt_children t) k = Some d" for k d
  proof -
    have "child_ok (tt_root t) (tt_children t) k d" using assms(1) that unfolding tree_ok_def by blast
    then show ?thesis by (rule child_ok_same) (simp_all add: same_place_def assms(6))
  qed
  with assms show ?thesis unfolding tree_ok_def by simp
qed

lemma tree_ok_outer [simp]: "tree_ok (t\<lparr>tt_ledger := l\<rparr>) = tree_ok t" "tree_ok (t\<lparr>tt_shutdown := b\<rparr>) = tree_ok t"
  unfolding tree_ok_def by simp_all

lemma claim_cases:
  assumes "claimChild shutdown identity retained r = Some r'"
  shows "rt_subdivisions r < 64 \<and> rt_subdivisions r' = Suc (rt_subdivisions r) \<and> rt_expiresAt r' = rt_expiresAt r \<and>
    rt_limits r' = rt_limits r \<and> rt_id r' = rt_id r \<and>
    (distinct (rt_childIds r) \<longrightarrow> distinct (rt_childIds r')) \<and> (distinct (rt_childWork r) \<longrightarrow> distinct (rt_childWork r'))"
  using assms by (auto simp: claimChild_def childIdentity_def split: if_splits option.splits)

text \<open>A new child under a claim.\<close>

lemma tree_ok_new_child:
  assumes "tree_ok t" "claimChild shutdown identity retained (tt_root t) = Some r'" "js_get (tt_children t) fresh = None"
    "child_ok (tt_root t) (tt_children t) fresh c"
  shows "tree_ok (t\<lparr>tt_root := r', tt_children := js_set fresh c (tt_children t)\<rparr>)"
proof -
  note claim = claim_cases [OF assms(2)]
  have kept: "\<exists>pc'. js_get (js_set fresh c (tt_children t)) p = Some pc' \<and> same_place pc pc'"
    if "js_get (tt_children t) p = Some pc" for p pc
    using that assms(3) by (auto simp: same_place_def)
  have move: "child_ok r' (js_set fresh c (tt_children t)) k d" if "child_ok (tt_root t) (tt_children t) k d" for k d
    using that by (rule child_ok_same) (use claim kept in \<open>auto simp: same_place_def\<close>)
  have "child_ok r' (js_set fresh c (tt_children t)) k d" if got: "js_get (js_set fresh c (tt_children t)) k = Some d" for k d
  proof (cases "k = fresh")
    case True
    with got have "d = c" by simp
    with True move [OF assms(4)] show ?thesis by simp
  next
    case False
    with got have "js_get (tt_children t) k = Some d" by simp
    then have "child_ok (tt_root t) (tt_children t) k d" using assms(1) unfolding tree_ok_def by blast
    then show ?thesis by (rule move)
  qed
  moreover have "length (js_set fresh c (tt_children t)) = Suc (length (tt_children t))" by (simp add: js_set_fresh assms(3))
  ultimately show ?thesis using assms(1) claim unfolding tree_ok_def by simp
qed

lemma tree_ok_root_subdivide:
  assumes "tree_ok t" "js_get (tt_children t) fresh = None"
  shows "tree_ok (snd (root_subdivide fresh now narrower identity t))"
proof (cases "claimChild (tt_shutdown t) identity False (tt_root t)")
  case (Some r')
  have "child_ok (tt_root t) (tt_children t) fresh (new_child fresh None 1 (rt_expiresAt (tt_root t)) now narrower)"
    by (simp add: child_ok_def new_child_def MAX_SCOPE_DEPTH_def)
  from tree_ok_new_child [OF assms(1) Some assms(2) this] assms(1) Some show ?thesis by (simp add: root_subdivide_def Let_def)
qed (use assms(1) in \<open>simp add: root_subdivide_def Let_def\<close>)

lemma tree_ok_child_subdivide:
  assumes "tree_ok t" "js_get (tt_children t) fresh = None"
  shows "tree_ok (snd (child_subdivide fresh now cid narrower identity t))"
proof (cases "\<exists>c r'. js_get (tt_children t) cid = Some c \<and> ct_depth c < MAX_SCOPE_DEPTH \<and>
    claimChild (tt_shutdown t) identity (can_continue (tt_root t) (lineage t cid)) (tt_root t) = Some r' \<and>
    snd (child_subdivide fresh now cid narrower identity t) = t\<lparr>tt_root := r',
      tt_children := js_set fresh (new_child fresh (Some cid) (Suc (ct_depth c)) (ct_expiresAt c) now narrower)
        (js_set cid (c\<lparr>ct_children := Suc (ct_children c)\<rparr>) (tt_children t))\<rparr>")
  case True
  then obtain c r' where c: "js_get (tt_children t) cid = Some c" "ct_depth c < MAX_SCOPE_DEPTH"
    and claim: "claimChild (tt_shutdown t) identity (can_continue (tt_root t) (lineage t cid)) (tt_root t) = Some r'"
    and eq: "snd (child_subdivide fresh now cid narrower identity t) = t\<lparr>tt_root := r',
      tt_children := js_set fresh (new_child fresh (Some cid) (Suc (ct_depth c)) (ct_expiresAt c) now narrower)
        (js_set cid (c\<lparr>ct_children := Suc (ct_children c)\<rparr>) (tt_children t))\<rparr>" by blast
  let ?c = "c\<lparr>ct_children := Suc (ct_children c)\<rparr>"
  let ?t = "t\<lparr>tt_children := js_set cid ?c (tt_children t)\<rparr>"
  have ok: "tree_ok ?t" using assms(1) c(1) by (rule tree_ok_modify) (simp add: same_place_def)
  have fresh: "js_get (tt_children ?t) fresh = None" using assms(2) c(1) by auto
  have "child_ok (tt_root ?t) (tt_children ?t) fresh (new_child fresh (Some cid) (Suc (ct_depth c)) (ct_expiresAt c) now narrower)"
    using c(2) by (simp add: child_ok_def new_child_def)
  from tree_ok_new_child [OF ok _ fresh this] claim show ?thesis unfolding eq by simp
next
  case False
  then have "snd (child_subdivide fresh now cid narrower identity t) = t"
    unfolding child_subdivide_def Let_def by (auto split: option.splits if_splits)
  with assms(1) show ?thesis by simp
qed

lemma root_tighten_cases:
  assumes "root_tighten env narrower t = Returns (res, t')"
  obtains (kept) "t' = t"
  | (narrowed) es l where "narrow_all (te_ledger env) (taskScope (tt_root t)) (rt_id (tt_root t)) es (tt_ledger t) = Returns l"
      "t' = t\<lparr>tt_root := (tt_root t)\<lparr>rt_limits := fold tighter_limit narrower (rt_limits (tt_root t))\<rparr>, tt_ledger := l\<rparr>"
  using assms unfolding root_tighten_def Let_def by (fastforce split: if_splits thrown.splits)

lemma child_tighten_cases:
  assumes "child_tighten env cid narrower t = Returns (res, t')"
  obtains (kept) "t' = t"
  | (narrowed) c es l where "js_get (tt_children t) cid = Some c"
      "narrow_all (te_ledger env) (childScope c) (rt_id (tt_root t)) es (tt_ledger t) = Returns l"
      "t' = t\<lparr>tt_children := js_set cid (c\<lparr>ct_limits := merge_limits (ct_limits c) narrower\<rparr>) (tt_children t), tt_ledger := l\<rparr>"
  using assms unfolding child_tighten_def Let_def by (fastforce split: if_splits option.splits thrown.splits)

lemma tree_ok_step:
  assumes "tree_ok t" "task_step env t t'"
  shows "tree_ok t'"
  using assms(2)
proof cases
  case (ts_root_tighten narrower res)
  have wall: "js_has (fold tighter_limit narrower (rt_limits (tt_root t))) Res_Wall_Time_Ms"
    using assms(1) by (intro tighter_keeps) (simp add: tree_ok_def)
  from ts_root_tighten show ?thesis
  proof (cases rule: root_tighten_cases)
    case (narrowed es l)
    show ?thesis unfolding narrowed(2) using assms(1) wall by (intro tree_ok_root) simp_all
  qed (simp add: assms(1))
next
  case (ts_child_tighten cid narrower res)
  then show ?thesis
  proof (cases rule: child_tighten_cases)
    case (narrowed c es l)
    show ?thesis unfolding narrowed(3) using tree_ok_modify [OF assms(1) narrowed(1)] by (simp add: same_place_def)
  qed (simp add: assms(1))
next
  case (ts_root_life life)
  have "tree_ok (t\<lparr>tt_root := (tt_root t)\<lparr>rt_life := life, rt_closed := b\<rparr>, tt_ledger := l\<rparr>)" for b l
    using assms(1) by (intro tree_ok_root) (simp_all add: tree_ok_def)
  moreover have "tree_ok (t\<lparr>tt_root := (tt_root t)\<lparr>rt_life := life\<rparr>, tt_ledger := tt_ledger t\<rparr>)"
    using assms(1) by (intro tree_ok_root) (simp_all add: tree_ok_def)
  ultimately show ?thesis unfolding ts_root_life(1) root_life_def Let_def by simp
next
  case (ts_child_life cid c life)
  then show ?thesis
    using tree_ok_modify [OF assms(1), of cid c "c\<lparr>ct_life := life, ct_closed := ct_closed c \<or> lt_disposed life\<rparr>"]
    by (simp add: child_life_def js_modify_def same_place_def)
next
  case (ts_admit now deadline queued inner chain w debits answer)
  then have "\<exists>l. t' = t\<lparr>tt_ledger := l\<rparr>"
    unfolding admit_work_def Let_def case_prod_unfold
    by (auto split: option.splits if_splits reservation_kind.splits intro: exI [of _ "tt_ledger t"])
  with assms(1) show ?thesis by auto
qed (use assms(1) in \<open>auto intro: tree_ok_root_subdivide tree_ok_child_subdivide\<close>)

lemma openTask_fields:
  "openTask fresh generation now denied requested = Returns r \<Longrightarrow>
   rt_subdivisions r = 0 \<and> rt_childIds r = [] \<and> rt_childWork r = [] \<and> rt_limits r = task_limits requested"
  by (auto simp: openTask_def Let_def split: if_splits)

lemma tree_ok_start:
  assumes "task_start t"
  shows "tree_ok t"
proof -
  from assms obtain fresh generation now denied requested where
    "openTask fresh generation now denied requested = Returns (tt_root t)" "tt_children t = []"
    by (auto simp: task_start_def)
  with openTask_fields [OF this(1)] show ?thesis by (simp add: tree_ok_def task_limits_def)
qed

interpretation task_machine: safety_machine task_start "task_step env" tree_ok for env
  by unfold_locales (auto intro: tree_ok_start tree_ok_step)

lemma walk_length:
  assumes "tree_ok t"
  shows "js_get (tt_children t) cid = Some c \<Longrightarrow> ct_depth c \<le> n \<Longrightarrow>
    length (walk n (tt_children t) cid) = ct_depth c \<and> (\<exists>top cs. walk n (tt_children t) cid = cs @ [top] \<and> ct_parent top = None) \<and>
    (\<forall>a \<in> set (walk n (tt_children t) cid). ct_expiresAt c \<le> ct_expiresAt a \<and> ct_expiresAt a \<le> rt_expiresAt (tt_root t))"
proof (induction n arbitrary: cid c)
  case 0
  from assms 0(1) have "child_ok (tt_root t) (tt_children t) cid c" unfolding tree_ok_def by blast
  with 0(2) show ?case by (auto simp: child_ok_def split: option.splits)
next
  case (Suc n)
  from assms Suc.prems(1) have ok: "child_ok (tt_root t) (tt_children t) cid c" unfolding tree_ok_def by blast
  show ?case
  proof (cases "ct_parent c")
    case None
    with Suc.prems ok show ?thesis by (simp add: child_ok_def)
  next
    case (Some p)
    with ok obtain pc where pc: "js_get (tt_children t) p = Some pc" "ct_depth c = Suc (ct_depth pc)" "ct_expiresAt c \<le> ct_expiresAt pc"
      by (auto simp: child_ok_def)
    have walk: "walk (Suc n) (tt_children t) cid = c # walk n (tt_children t) p" using Suc.prems(1) Some by simp
    have "ct_depth pc \<le> n" using Suc.prems(2) pc(2) by simp
    note ih = Suc.IH [OF pc(1) this]
    then obtain top cs where top: "walk n (tt_children t) p = cs @ [top]" "ct_parent top = None" by blast
    then have "ct_expiresAt c \<le> rt_expiresAt (tt_root t)" using ih pc(3) by fastforce
    moreover have "c # walk n (tt_children t) p = (c # cs) @ [top]" using top by simp
    ultimately show ?thesis unfolding walk using ih pc(2,3) top(2) by fastforce
  qed
qed

section \<open>What task resources promise\<close>

text \<open>
  C32. The tree of a task is bounded. In every reachable tree there are at most 64 children over all
  levels, their declared identities and work digests are pairwise different, and each child's lineage is
  complete: it has as many members as the child's depth, at most 16, ends at a child of the task itself,
  and no member expires before a descendant or after the task.
\<close>

theorem task_tree_is_bounded:
  assumes "task_reachable env t"
  shows "length (tt_children t) \<le> 64 \<and> distinct (rt_childIds (tt_root t)) \<and> distinct (rt_childWork (tt_root t)) \<and>
    (js_get (tt_children t) cid = Some c \<longrightarrow>
       length (lineage t cid) = ct_depth c \<and> ct_depth c \<le> MAX_SCOPE_DEPTH \<and>
       (\<exists>top cs. lineage t cid = cs @ [top] \<and> ct_parent top = None) \<and>
       (\<forall>a \<in> set (lineage t cid). ct_expiresAt c \<le> ct_expiresAt a \<and> ct_expiresAt a \<le> rt_expiresAt (tt_root t)))"
proof -
  have ok: "tree_ok t" using assms by (rule task_machine.always)
  have "ct_depth c \<le> MAX_SCOPE_DEPTH" if "js_get (tt_children t) cid = Some c"
  proof -
    have "child_ok (tt_root t) (tt_children t) cid c" using ok that unfolding tree_ok_def by blast
    then show ?thesis by (simp add: child_ok_def)
  qed
  with walk_length [OF ok, of cid c MAX_SCOPE_DEPTH] ok show ?thesis
    unfolding lineage_def tree_ok_def by metis
qed

text \<open>
  C6. Admitted work fits every ancestor. When an operation submitted by a child is admitted, the
  capacity of each dimension it names has been taken, in the one reservation, from the task and from
  every child on the lineage: each of their buckets is healthy, grew by at least the amount, and is
  within the limit that ancestor has, for the task its limit at the moment of admission.
\<close>

theorem admitted_work_fits_every_ancestor:
  assumes "admit_work env now deadline queued inner chain w (work_debits env t0 cs w) t = (Work_Ready rc, t')"
    "rt_id (tt_root t0) = rt_id (tt_root t)" "(dim, a) \<in> set (work_amounts (wk_amounts w))"
  shows "charged_within (te_ledger env) (tt_ledger t) (tt_ledger t') (taskScope (tt_root t) dim) a
      (min (amount_or MAX_SAFE_INTEGER (rt_limits (tt_root t0)) dim) (amount_or MAX_SAFE_INTEGER (rt_limits (tt_root t)) dim)) \<and>
    (\<forall>c. c \<in> set cs \<longrightarrow> charged_within (te_ledger env) (tt_ledger t) (tt_ledger t') (childScope c dim) a
      (amount_or MAX_SAFE_INTEGER (ct_limits c) dim))"
proof -
  obtain rid identity kind rc0 where
    reserve: "ledger_reserve (te_ledger env) rid identity (map (current_debit (tt_root t)) (work_debits env t0 cs w)) (tt_ledger t) =
      ((kind, rc0), tt_ledger t')" and admitted: "kind = Decided_Admitted"
    by (rule admit_work_ready [OF assms(1)])
  note charge = admitted_charge [OF reserve admitted]
  have scope: "taskScope (tt_root t0) dim = taskScope (tt_root t) dim" by (simp add: taskScope_def assms(2))
  have "charged_within (te_ledger env) (tt_ledger t) (tt_ledger t') (childScope c dim) a (amount_or MAX_SAFE_INTEGER (ct_limits c) dim)"
    if "c \<in> set cs" for c
    using charge [OF work_debits_child [OF that assms(3)]] by (simp add: current_debit_def)
  moreover from charge [OF work_debits_task [OF assms(3)]] scope
  have "charged_within (te_ledger env) (tt_ledger t) (tt_ledger t') (taskScope (tt_root t) dim) a
      (min (amount_or MAX_SAFE_INTEGER (rt_limits (tt_root t0)) dim) (amount_or MAX_SAFE_INTEGER (rt_limits (tt_root t)) dim))"
    by (simp add: current_debit_def)
  ultimately show ?thesis by blast
qed

text \<open>The number of debits grows by at least the number of metered dimensions at every level.\<close>

lemma lineage_debits_length:
  "length scopes + length cs * length amounts \<le> length (lineage_debits rootId amounts cs scopes)"
proof (induction cs arbitrary: scopes)
  case (Cons c cs)
  have "length scopes + length amounts \<le> length (child_debits rootId amounts c scopes)" by (simp add: child_debits_def)
  with Cons.IH [of "child_debits rootId amounts c scopes"] show ?case by simp
qed simp

lemma work_debits_length: "Suc (length cs) * length (work_amounts (wk_amounts w)) < length (work_debits env t cs w)"
  using lineage_debits_length [of "wk_scopes w" cs "work_amounts (wk_amounts w)" "rt_id (tt_root t)"]
  by (simp add: work_debits_def task_debits_def Let_def)

text \<open>
  Deep work is refused whatever capacity remains. A reservation may hold at most 128 debits, and
  every level of the lineage adds a debit for each dimension the operation meters; so once levels times
  dimensions reach 128 the operation is refused and nothing is reserved, although subdivision allows 16
  levels and there are 18 dimensions. If no ancestor refuses first, the receipt says \<open>quota-unknown\<close>.
\<close>

theorem deep_work_is_refused:
  assumes "128 \<le> Suc (length cs) * length (work_amounts (wk_amounts w))"
  shows "\<exists>rc. admit_work env now deadline queued None chain w (work_debits env t0 cs w) t = (Work_Refused rc, t) \<and>
    (lineage_check env now t chain = None \<and> \<not> rt_closed (tt_root t) \<and> wk_generation w = rt_generation (tt_root t) \<and>
       root_remaining env now t Res_Wall_Time_Ms \<noteq> 0 \<longrightarrow> rc_state rc = State_Quota_Unknown)"
proof -
  have long: "128 < length (map (current_debit (tt_root t)) (work_debits env t0 cs w))"
    using work_debits_length [of cs w env t0] assms by simp
  have refused: "ledger_reserve (te_ledger env) rid identity (map (current_debit (tt_root t)) (work_debits env t0 cs w)) (tt_ledger t) =
      ((Decided_Refused, make_receipt (te_ledger env) (rl_aliases (tt_ledger t)) rid State_Quota_Unknown None), tt_ledger t)" for rid identity
    using long by (simp add: ledger_reserve_def reservation_invalid_def Let_def)
  show ?thesis
    unfolding admit_work_def Let_def refused by (auto simp: make_receipt_def split: option.splits)
qed

definition tightened :: "child_task \<Rightarrow> child_task \<Rightarrow> bool" where
  "tightened c c' \<longleftrightarrow> ct_id c' = ct_id c \<and> ct_closed c' = ct_closed c \<and> ct_started c' = ct_started c \<and>
     (\<forall>dim. amount_or MAX_SAFE_INTEGER (ct_limits c') dim \<le> amount_or MAX_SAFE_INTEGER (ct_limits c) dim)"

lemma walk_tightened:
  assumes "js_get children cid = Some c" "ct_parent c' = ct_parent c" "tightened c c'"
  shows "list_all2 tightened (walk n children k) (walk n (js_set cid c' children) k)"
proof (induction n arbitrary: k)
  case (Suc n)
  have refl: "tightened d d" for d by (simp add: tightened_def)
  show ?case
  proof (cases "js_get children k")
    case (Some d)
    have "\<exists>d'. js_get (js_set cid c' children) k = Some d' \<and> ct_parent d' = ct_parent d \<and> tightened d d'"
      using Some assms refl by (cases "k = cid") auto
    with Some Suc show ?thesis by (auto split: option.split)
  qed (use assms in \<open>auto split: option.split\<close>)
qed simp

lemma lineage_remaining_le:
  assumes "list_all2 tightened cs cs'" "root_remaining env now t' dim \<le> root_remaining env now t dim"
    "\<And>scope limit. ledger_remaining (te_ledger env) scope limit (tt_ledger t') \<le> ledger_remaining (te_ledger env) scope limit (tt_ledger t)"
  shows "lineage_remaining env now t' dim cs' \<le> lineage_remaining env now t dim cs"
  using assms(1)
proof (induction rule: list_all2_induct)
  case Nil
  with assms(2) show ?case by simp
next
  case (Cons c cs c' cs')
  have "ledger_remaining (te_ledger env) (childScope c' dim) (amount_or MAX_SAFE_INTEGER (ct_limits c') dim) (tt_ledger t') \<le>
      ledger_remaining (te_ledger env) (childScope c dim) (amount_or MAX_SAFE_INTEGER (ct_limits c) dim) (tt_ledger t)"
  proof -
    have "childScope c' dim = childScope c dim" using Cons(1) by (simp add: childScope_def tightened_def)
    moreover have "amount_or MAX_SAFE_INTEGER (ct_limits c') dim \<le> amount_or MAX_SAFE_INTEGER (ct_limits c) dim"
      using Cons(1) by (simp add: tightened_def)
    ultimately show ?thesis using remaining_mono assms(3) order_trans by metis
  qed
  moreover have "amount_or MAX_SAFE_INTEGER (ct_limits c') Res_Wall_Time_Ms \<le> amount_or MAX_SAFE_INTEGER (ct_limits c) Res_Wall_Time_Ms"
    "ct_closed c' = ct_closed c" "ct_started c' = ct_started c"
    using Cons(1) by (simp_all add: tightened_def)
  ultimately show ?case using Cons.IH by (auto simp: min_le_iff_disj)
qed

lemma root_remaining_ledger:
  assumes "\<And>scope limit. ledger_remaining (te_ledger env) scope limit l \<le> ledger_remaining (te_ledger env) scope limit (tt_ledger t)"
  shows "root_remaining env now (t\<lparr>tt_children := cs, tt_ledger := l\<rparr>) dim \<le> root_remaining env now t dim"
  using assms by (simp add: root_remaining_def Let_def)

lemma root_remaining_limits:
  assumes "\<And>scope limit. ledger_remaining (te_ledger env) scope limit l \<le> ledger_remaining (te_ledger env) scope limit (tt_ledger t)"
    "js_has (rt_limits (tt_root t)) Res_Wall_Time_Ms"
  shows "root_remaining env now (t\<lparr>tt_root := (tt_root t)\<lparr>rt_limits := fold tighter_limit es (rt_limits (tt_root t))\<rparr>, tt_ledger := l\<rparr>) dim
    \<le> root_remaining env now t dim"
proof -
  let ?r = "tt_root t" and ?limits = "fold tighter_limit es (rt_limits (tt_root t))"
  have limits: "amount_or MAX_SAFE_INTEGER ?limits dim \<le> amount_or MAX_SAFE_INTEGER (rt_limits ?r) dim" for dim by (rule tighter_limits)
  have scope: "taskScope (?r\<lparr>rt_limits := ?limits\<rparr>) dim = taskScope ?r dim" by (simp add: taskScope_def)
  have wall: "amount_or 0 ?limits Res_Wall_Time_Ms \<le> amount_or 0 (rt_limits ?r) Res_Wall_Time_Ms"
    using limits [of Res_Wall_Time_Ms] assms(2) tighter_keeps [OF assms(2), of es] by (auto simp: amount_or_def)
  have "ledger_remaining (te_ledger env) (taskScope ?r dim) (amount_or MAX_SAFE_INTEGER ?limits dim) l \<le>
      ledger_remaining (te_ledger env) (taskScope ?r dim) (amount_or MAX_SAFE_INTEGER (rt_limits ?r) dim) (tt_ledger t)"
    using remaining_mono [OF limits [of dim]] assms(1) order_trans by metis
  with wall scope show ?thesis by (auto simp: root_remaining_def Let_def)
qed

text \<open>
  Tightening grants nothing. After \<open>tighten\<close> on the task or on any child, what remains of any
  dimension, for the task and for every child, is at most what remained before.
\<close>

theorem tightening_grants_nothing:
  assumes "task_reachable env t"
    "root_tighten env narrower t = Returns (res, t') \<or> child_tighten env cid narrower t = Returns (res, t')"
  shows "root_remaining env now t' dim \<le> root_remaining env now t dim \<and>
    lineage_remaining env now t' dim (lineage t' k) \<le> lineage_remaining env now t dim (lineage t k)"
proof -
  have ok: "tree_ok t" using assms(1) by (rule task_machine.always)
  then have wall: "js_has (rt_limits (tt_root t)) Res_Wall_Time_Ms" unfolding tree_ok_def by blast
  have same: "list_all2 tightened cs cs" for cs by (simp add: list.rel_refl tightened_def)
  from assms(2) show ?thesis
  proof
    assume "root_tighten env narrower t = Returns (res, t')"
    then show ?thesis
    proof (cases rule: root_tighten_cases)
      case (narrowed es l)
      have fewer: "ledger_remaining (te_ledger env) scope limit (tt_ledger t') \<le> ledger_remaining (te_ledger env) scope limit (tt_ledger t)"
        for scope limit using remaining_narrow_all [OF narrowed(1)] by (simp add: narrowed(2))
      have root_less: "root_remaining env now t' dim \<le> root_remaining env now t dim"
        unfolding narrowed(2) using fewer wall by (intro root_remaining_limits) (simp_all add: narrowed(2))
      have "lineage t' k = lineage t k" by (simp add: lineage_def narrowed(2))
      with lineage_remaining_le [OF same root_less fewer] root_less show ?thesis by simp
    qed simp
  next
    assume "child_tighten env cid narrower t = Returns (res, t')"
    then show ?thesis
    proof (cases rule: child_tighten_cases)
      case (narrowed c es l)
      have fewer: "ledger_remaining (te_ledger env) scope limit (tt_ledger t') \<le> ledger_remaining (te_ledger env) scope limit (tt_ledger t)"
        for scope limit using remaining_narrow_all [OF narrowed(2)] by (simp add: narrowed(3))
      have root_less: "root_remaining env now t' dim \<le> root_remaining env now t dim"
        unfolding narrowed(3) using fewer by (intro root_remaining_ledger) (simp add: narrowed(3))
      have "list_all2 tightened (lineage t k) (lineage t' k)"
        unfolding lineage_def narrowed(3) using walk_tightened [OF narrowed(1)] merged_limits by (simp add: tightened_def)
      from lineage_remaining_le [OF this root_less fewer] root_less show ?thesis by simp
    qed simp
  qed
qed

section \<open>Witnesses\<close>

text \<open>A task with one child, and an observation the child submits.\<close>

fun trial_dim :: "resource_dimension \<Rightarrow> code_unit" where
  "trial_dim Res_Operations = 1"
| "trial_dim Res_Concurrency = 2"
| "trial_dim _ = 3"

definition trial_task_env :: task_env where
  "trial_task_env = \<lparr>te_ledger = \<lparr>le_key = (\<lambda>s. trial_dim (sc_dimension s) # hd (sc_destination s) # sc_family s),
       le_fingerprint = (\<lambda>_ _. []), le_digest = (\<lambda>s. s), le_maxRecords = 4\<rparr>,
     te_sha = (\<lambda>s. s), te_hash = (\<lambda>_. [104]), te_maxConcurrent = 8\<rparr>"

definition trial_root :: root_task where
  "trial_root = \<lparr>rt_id = [114], rt_generation = [103], rt_closed = False, rt_overrun = False, rt_unknown = [],
     rt_limits = task_limits [], rt_startedAt = 0, rt_expiresAt = 1800000, rt_subdivisions = 0, rt_childIds = [],
     rt_childWork = [], rt_life = createResourceLifetime\<rparr>"

definition trial_tree0 :: task_tree where
  "trial_tree0 = \<lparr>tt_root = trial_root, tt_children = [], tt_shutdown = False, tt_ledger = createResourceLedger\<rparr>"

definition trial_child :: child_task where
  "trial_child = new_child [99] None 1 1800000 0 []"

definition trial_tree1 :: task_tree where
  "trial_tree1 = trial_tree0\<lparr>tt_root := trial_root\<lparr>rt_subdivisions := 1\<rparr>, tt_children := [([99], trial_child)]\<rparr>"

definition trial_work :: resource_work where
  "trial_work = \<lparr>wk_operation = [111], wk_attempt = [97], wk_generation = [103],
     wk_unit = \<lparr>wu_id = [], wu_effect = Observation, wu_priority = Interactive, wu_conflictKeys = [], wu_dependencies = [],
       wu_deadline = None, wu_expectedOutputBytes = 0, wu_retry = NO_RETRY, wu_scopeId = None\<rparr>,
     wk_amounts = [], wk_scopes = []\<rparr>"

lemmas trial_defs = trial_task_env_def trial_root_def trial_tree0_def trial_child_def trial_tree1_def trial_work_def new_child_def

lemma trial_start: "task_start trial_tree0"
  unfolding task_start_def
  by (intro conjI exI [of _ "[114]"] exI [of _ "[103]"] exI [of _ 0] exI [of _ False] exI [of _ "[]"])
     (simp_all add: trial_tree0_def trial_root_def openTask_def amounts_valid_def task_limits_def amount_or_def Let_def)

lemma trial_subdivide: "root_subdivide [99] 0 [] None trial_tree0 = (Some [99], trial_tree1)"
  by (simp add: root_subdivide_def claimChild_def amounts_valid_def createResourceLifetime_def trial_defs Let_def)

lemma trial_reachable: "task_reachable env trial_tree1"
proof -
  have start: "task_reachable env trial_tree0" by (rule reach_start) (rule trial_start)
  have "js_get (tt_children trial_tree0) [99] = None" by (simp add: trial_defs)
  from reach_step [OF start ts_root_subdivide [OF this, where now = 0 and narrower = "[]" and identity = None]]
  show ?thesis by (simp add: trial_subdivide)
qed

lemma trial_lineage: "lineage trial_tree1 [99] = [trial_child]"
  by (simp add: lineage_def MAX_SCOPE_DEPTH_def trial_defs numeral_eq_Suc)

theorem task_tree_is_bounded_witness:
  "task_reachable trial_task_env trial_tree1 \<and> length (lineage trial_tree1 [99]) = 1 \<and> ct_depth trial_child = 1"
  using task_tree_is_bounded [OF trial_reachable, where cid = "[99]" and c = trial_child] trial_reachable
  by (simp add: trial_lineage) (simp add: trial_defs)

text \<open>The keys of the debits decide whether the scopes of a work's identity differ from them.\<close>

lemma work_scopes_differ:
  "scopes_differ env (work_identity r operation attempt ds) (map (current_debit r) ds) \<longleftrightarrow>
     \<not> distinct (map (\<lambda>d. le_key env (rd_scope d)) ds)"
  by (simp add: scopes_differ_def work_identity_def Let_def comp_def)

definition trial_debits :: "resource_debit list" where
  "trial_debits = work_debits trial_task_env trial_tree1 [trial_child] trial_work"

lemmas work_evaluation = work_debits_def task_debits_def child_debits_def work_amounts_def amount_or_def
  effectiveConflictKeys_def child_runnable_def taskScope_def childScope_def capacityScope_def bucketKind_def
  task_limits_def

lemma trial_debits_eq: "map (current_debit (tt_root trial_tree1)) trial_debits =
   [\<lparr>rd_scope = capacityScope Owner_Process (ascii ''falryn'') (ascii ''product'') Res_Concurrency Occupancy None, rd_amount = 1, rd_limit = 8\<rparr>,
    \<lparr>rd_scope = taskScope trial_root Res_Operations, rd_amount = 1, rd_limit = 512\<rparr>,
    \<lparr>rd_scope = taskScope trial_root Res_Concurrency, rd_amount = 1, rd_limit = MAX_SAFE_INTEGER\<rparr>,
    child_runnable [114],
    \<lparr>rd_scope = childScope trial_child Res_Operations, rd_amount = 1, rd_limit = MAX_SAFE_INTEGER\<rparr>,
    \<lparr>rd_scope = childScope trial_child Res_Concurrency, rd_amount = 1, rd_limit = MAX_SAFE_INTEGER\<rparr>]"
  by (simp add: trial_debits_def trial_defs work_evaluation current_debit_def Let_def MAX_SAFE_INTEGER_def)

abbreviation trial_answer :: "work_admission \<times> task_tree" where
  "trial_answer \<equiv> admit_work trial_task_env 5 100 0 None [(trial_child, False)] trial_work trial_debits trial_tree1"

lemma trial_checks:
  "lineage_check trial_task_env 5 trial_tree1 [(trial_child, False)] = None"
  "root_remaining trial_task_env 5 trial_tree1 Res_Wall_Time_Ms \<noteq> 0"
  by (simp_all add: root_remaining_def trial_defs task_limits_def amount_or_def createResourceLifetime_def MAX_SAFE_INTEGER_def Let_def)

lemma trial_scopes: "map rd_scope trial_debits =
   [capacityScope Owner_Process (ascii ''falryn'') (ascii ''product'') Res_Concurrency Occupancy None,
    taskScope trial_root Res_Operations, taskScope trial_root Res_Concurrency, rd_scope (child_runnable [114]),
    childScope trial_child Res_Operations, childScope trial_child Res_Concurrency]"
proof -
  have "map rd_scope trial_debits = map rd_scope (map (current_debit (tt_root trial_tree1)) trial_debits)" by (simp add: comp_def)
  then show ?thesis by (simp only: trial_debits_eq) simp
qed

lemma trial_valid:
  "\<not> reservation_invalid [104] (work_identity (tt_root trial_tree1) [104] [97] trial_debits)
     (map (current_debit (tt_root trial_tree1)) trial_debits)"
  unfolding reservation_invalid_def identity_valid_def work_identity_def reservation_identity.simps trial_scopes trial_debits_eq
  by (simp add: segment_valid_def scope_valid_def debit_valid_def capacityScope_def taskScope_def childScope_def child_runnable_def
      ascii_def is_safe_int_def MAX_SAFE_INTEGER_def trial_defs)

lemma trial_distinct: "distinct (map (\<lambda>d. le_key (te_ledger trial_task_env) (rd_scope d)) trial_debits)"
proof -
  have "map (\<lambda>d. le_key (te_ledger trial_task_env) (rd_scope d)) trial_debits =
      map (le_key (te_ledger trial_task_env)) (map rd_scope trial_debits)" by (simp add: comp_def)
  then show ?thesis
    by (simp only: trial_scopes)
       (simp add: trial_task_env_def capacityScope_def taskScope_def childScope_def child_runnable_def ascii_def
         trial_root_def trial_child_def new_child_def)
qed

lemma trial_admits:
  "fst (fst (ledger_reserve (te_ledger trial_task_env) [104] (work_identity (tt_root trial_tree1) [104] [97] trial_debits)
     (map (current_debit (tt_root trial_tree1)) trial_debits) createResourceLedger)) = Decided_Admitted"
proof -
  let ?groups = "grouped (scope_root (te_ledger trial_task_env) []) (map (current_debit (tt_root trial_tree1)) trial_debits)"
  have "fst (check_groups ?groups Fits []) = Fits"
    unfolding trial_debits_eq
    by (simp add: grouped_def group_debit_def merge_debit_def scope_root_def alias_root_def trial_task_env_def capacityScope_def
        taskScope_def childScope_def child_runnable_def ascii_def trial_root_def trial_child_def new_child_def
        room_for_def narrow_bucket_def js_modify_def limit_of_def used_of_def poisoned_of_def MAX_SAFE_INTEGER_def Let_def)
  then have fits: "fst (check_groups (grouped (scope_root (te_ledger trial_task_env) (rl_aliases createResourceLedger))
      (map (current_debit (tt_root trial_tree1)) trial_debits)) Fits (rl_buckets createResourceLedger)) = Fits"
    by (simp add: createResourceLedger_def)
  have size: "length (rl_records createResourceLedger) < le_maxRecords (te_ledger trial_task_env)"
    "length (rl_buckets createResourceLedger) + length (map (current_debit (tt_root trial_tree1)) trial_debits) \<le> le_maxRecords (te_ledger trial_task_env) * 16"
    "js_get (rl_records createResourceLedger) [104] = None"
    unfolding trial_debits_eq by (simp_all add: createResourceLedger_def trial_task_env_def)
  show ?thesis
    using trial_valid trial_distinct size fits
    by (simp add: ledger_reserve_def work_scopes_differ reserve_fresh_def Let_def)
qed

lemma trial_ready: "\<exists>rc t'. trial_answer = (Work_Ready rc, t')"
proof -
  let ?reserve = "ledger_reserve (te_ledger trial_task_env) [104] (work_identity (tt_root trial_tree1) [104] [97] trial_debits)
     (map (current_debit (tt_root trial_tree1)) trial_debits) createResourceLedger"
  obtain kind rc l where reserve: "?reserve = ((kind, rc), l)" by (metis prod.exhaust)
  with trial_admits have kind: "kind = Decided_Admitted" by simp
  have hash: "te_hash trial_task_env xs = [104]" for xs by (simp add: trial_task_env_def)
  have fields: "wk_attempt trial_work = [97]" "\<not> rt_closed (tt_root trial_tree1)" "tt_ledger trial_tree1 = createResourceLedger"
    "wk_generation trial_work = rt_generation (tt_root trial_tree1)"
    by (simp_all add: trial_defs)
  have operation: "operation_of trial_task_env (map fst [(trial_child, False)]) x = [104]" for x
    by (simp add: operation_of_def hash)
  show ?thesis
    unfolding admit_work_def Let_def trial_checks(1) operation hash fields option.case
    using trial_checks(2) fields by (simp add: reserve kind)
qed

theorem admitted_work_fits_every_ancestor_witness:
  "\<exists>rc t'. trial_answer = (Work_Ready rc, t') \<and>
     charged_within (te_ledger trial_task_env) (tt_ledger trial_tree1) (tt_ledger t') (childScope trial_child Res_Operations) 1 MAX_SAFE_INTEGER"
proof -
  from trial_ready obtain rc t' where ready: "trial_answer = (Work_Ready rc, t')" by blast
  have amount: "(Res_Operations, 1) \<in> set (work_amounts (wk_amounts trial_work))" by (simp add: work_amounts_def trial_work_def amount_or_def)
  from admitted_work_fits_every_ancestor [OF ready [unfolded trial_debits_def] refl amount] ready show ?thesis
    by (auto simp: amount_or_def trial_child_def new_child_def)
qed

theorem tightening_grants_nothing_witness:
  "\<exists>res t'. child_tighten trial_task_env [99] [] trial_tree1 = Returns (res, t') \<and>
     lineage_remaining trial_task_env 5 t' Res_Operations (lineage t' [99]) \<le>
     lineage_remaining trial_task_env 5 trial_tree1 Res_Operations (lineage trial_tree1 [99])"
proof -
  have "\<exists>res t'. child_tighten trial_task_env [99] [] trial_tree1 = Returns (res, t')"
    by (auto simp: child_tighten_def trial_defs merge_limits_def amounts_valid_def Let_def)
  then obtain res t' where tighten: "child_tighten trial_task_env [99] [] trial_tree1 = Returns (res, t')" by blast
  from tightening_grants_nothing [OF trial_reachable disjI2, OF tighten] tighten show ?thesis by blast
qed

text \<open>Sixteen levels of a child, and an operation that meters eight dimensions.\<close>

definition deep_work :: resource_work where
  "deep_work = trial_work\<lparr>wk_amounts := [(Res_Requests, 1), (Res_Input_Tokens, 1), (Res_Output_Tokens, 1), (Res_Cost_Micros, 1),
     (Res_Network_Bytes, 1), (Res_Memory_Bytes, 1)]\<rparr>"

theorem deep_work_is_refused_witness:
  "128 \<le> Suc (length (replicate 16 trial_child)) * length (work_amounts (wk_amounts deep_work)) \<and>
   (\<exists>rc. admit_work trial_task_env 5 100 0 None [(trial_child, False)] deep_work
      (work_debits trial_task_env trial_tree1 (replicate 16 trial_child) deep_work) trial_tree1 = (Work_Refused rc, trial_tree1))"
proof -
  have deep: "128 \<le> Suc (length (replicate 16 trial_child)) * length (work_amounts (wk_amounts deep_work))"
    by (simp add: deep_work_def work_amounts_def)
  from deep_work_is_refused [OF deep] deep show ?thesis by blast
qed

end
