(* ===== verification/Canonical_Value.thy ===== *)
theory Canonical_Value
  imports Js_Points Resource_Ledger "HOL-Library.Multiset"
begin

text \<open>
  The canonical text of a value (\<open>canonicalResourceValue\<close> of
  \<^verbatim>\<open>src/domain/orchestration/resource-admission.ts\<close>), which keys the buckets of the capacity ledger. A value
  is a \<open>json\<close> tree, whose objects list their fields in the order they were written. The fields are sorted
  with \<open>localeCompare\<close>, whose order depends on the runtime's locale data: it is the argument \<open>collate\<close>,
  true when the first name does not come after the second. Numbers are integers.
\<close>

section \<open>Definitions\<close>

datatype json =
    J_Undefined | J_Null | J_Bool bool | J_Int int | J_Text js_text
  | J_Array "json list"
  | J_Object "(js_text \<times> json) list"

text \<open>\<open>JSON.stringify\<close> on a string: short escapes, \<open>\u\<close> for other controls and for lone surrogates.\<close>

definition hex_digit :: "code_unit \<Rightarrow> code_unit" where
  "hex_digit d = (if d < 10 then 48 + d else 87 + d)"

definition hex_escape :: "code_unit \<Rightarrow> js_text" where
  "hex_escape u = [92, 117, hex_digit (drop_bit 12 u), hex_digit (take_bit 4 (drop_bit 8 u)),
     hex_digit (take_bit 4 (drop_bit 4 u)), hex_digit (take_bit 4 u)]"

fun escape_point :: "js_text \<Rightarrow> js_text" where
  "escape_point [u] =
     (if u = 8 then [92, 98] else if u = 9 then [92, 116] else if u = 10 then [92, 110]
      else if u = 12 then [92, 102] else if u = 13 then [92, 114] else if u = 34 then [92, 34]
      else if u = 92 then [92, 92]
      else if u < 32 \<or> is_high u \<or> is_low u then hex_escape u else [u])"
| "escape_point p = p"

definition quote_text :: "js_text \<Rightarrow> js_text" where
  "quote_text s = 34 # concat (map escape_point (points s)) @ [34]"

definition int_text :: "int \<Rightarrow> js_text" where
  "int_text n = (if n < 0 then 45 # ascii (decimal (nat (- n))) else ascii (decimal (nat n)))"

text \<open>A stable sort by name: an element moves before the first one it need not follow.\<close>

fun insert_field :: "(js_text \<Rightarrow> js_text \<Rightarrow> bool) \<Rightarrow> js_text \<times> 'a \<Rightarrow> (js_text \<times> 'a) list \<Rightarrow> (js_text \<times> 'a) list" where
  "insert_field collate x [] = [x]"
| "insert_field collate x (y # ys) =
     (if collate (fst x) (fst y) then x # y # ys else y # insert_field collate x ys)"

definition sort_fields :: "(js_text \<Rightarrow> js_text \<Rightarrow> bool) \<Rightarrow> (js_text \<times> 'a) list \<Rightarrow> (js_text \<times> 'a) list" where
  "sort_fields collate fs = foldr (insert_field collate) fs []"

fun canonicalResourceValue :: "(js_text \<Rightarrow> js_text \<Rightarrow> bool) \<Rightarrow> json \<Rightarrow> js_text"
  and canonical_elements :: "(js_text \<Rightarrow> js_text \<Rightarrow> bool) \<Rightarrow> json list \<Rightarrow> js_text list"
  and canonical_fields :: "(js_text \<Rightarrow> js_text \<Rightarrow> bool) \<Rightarrow> (js_text \<times> json) list \<Rightarrow> (js_text \<times> js_text) list" where
  "canonicalResourceValue collate J_Undefined = []"
| "canonicalResourceValue collate J_Null = ascii ''null''"
| "canonicalResourceValue collate (J_Bool b) = (if b then ascii ''true'' else ascii ''false'')"
| "canonicalResourceValue collate (J_Int n) = int_text n"
| "canonicalResourceValue collate (J_Text s) = quote_text s"
| "canonicalResourceValue collate (J_Array vs) = 91 # join_with 44 (canonical_elements collate vs) @ [93]"
| "canonicalResourceValue collate (J_Object fs) =
     123 # join_with 44 (map (\<lambda>f. quote_text (fst f) @ 58 # snd f) (sort_fields collate (canonical_fields collate fs))) @ [125]"
| "canonical_elements collate [] = []"
| "canonical_elements collate (v # vs) = canonicalResourceValue collate v # canonical_elements collate vs"
| "canonical_fields collate [] = []"
| "canonical_fields collate ((k, v) # fs) =
     (if v = J_Undefined then canonical_fields collate fs
      else (k, canonicalResourceValue collate v) # canonical_fields collate fs)"

text \<open>A capacity scope as a value, its optional names undefined when absent.\<close>

definition optional_text :: "js_text option \<Rightarrow> json" where
  "optional_text s = (case s of None \<Rightarrow> J_Undefined | Some t \<Rightarrow> J_Text t)"

fun owner_name :: "owner_kind \<Rightarrow> js_text" where
  "owner_name Owner_Process = ascii ''process''"
| "owner_name Owner_Task = ascii ''task''"
| "owner_name Owner_Platform = ascii ''platform''"
| "owner_name Owner_Provider = ascii ''provider''"
| "owner_name Owner_Tool = ascii ''tool''"
| "owner_name Owner_Package = ascii ''package''"
| "owner_name Owner_Agent = ascii ''agent''"

fun kind_name :: "bucket_kind \<Rightarrow> js_text" where
  "kind_name Cumulative = ascii ''cumulative''"
| "kind_name Occupancy = ascii ''occupancy''"

fun dimension_name :: "resource_dimension \<Rightarrow> js_text" where
  "dimension_name Res_Operations = ascii ''operations''"
| "dimension_name Res_Requests = ascii ''requests''"
| "dimension_name Res_Attempts = ascii ''attempts''"
| "dimension_name Res_Retries = ascii ''retries''"
| "dimension_name Res_Input_Tokens = ascii ''inputTokens''"
| "dimension_name Res_Output_Tokens = ascii ''outputTokens''"
| "dimension_name Res_Cost_Micros = ascii ''costMicros''"
| "dimension_name Res_Cpu_Ms = ascii ''cpuMs''"
| "dimension_name Res_Memory_Bytes = ascii ''memoryBytes''"
| "dimension_name Res_Network_Bytes = ascii ''networkBytes''"
| "dimension_name Res_Buffered_Bytes = ascii ''bufferedBytes''"
| "dimension_name Res_Buffered_Items = ascii ''bufferedItems''"
| "dimension_name Res_Processes = ascii ''processes''"
| "dimension_name Res_Descendants = ascii ''descendants''"
| "dimension_name Res_Artifact_Bytes = ascii ''artifactBytes''"
| "dimension_name Res_Disk_Bytes = ascii ''diskBytes''"
| "dimension_name Res_Concurrency = ascii ''concurrency''"
| "dimension_name Res_Wall_Time_Ms = ascii ''wallTimeMs''"

definition scope_value :: "capacity_scope \<Rightarrow> json" where
  "scope_value s = J_Object
     [(ascii ''version'', J_Int (sc_version s)), (ascii ''ownerKind'', J_Text (owner_name (sc_ownerKind s))),
      (ascii ''destination'', J_Text (sc_destination s)), (ascii ''account'', optional_text (sc_account s)),
      (ascii ''organization'', optional_text (sc_organization s)), (ascii ''project'', optional_text (sc_project s)),
      (ascii ''workspace'', optional_text (sc_workspace s)), (ascii ''region'', optional_text (sc_region s)),
      (ascii ''serviceTier'', optional_text (sc_serviceTier s)), (ascii ''family'', J_Text (sc_family s)),
      (ascii ''dimension'', J_Text (dimension_name (sc_dimension s))), (ascii ''bucketKind'', J_Text (kind_name (sc_bucketKind s)))]"

text \<open>The key of the product's ledger.\<close>

definition scope_key :: "(js_text \<Rightarrow> js_text \<Rightarrow> bool) \<Rightarrow> capacity_scope \<Rightarrow> js_text" where
  "scope_key collate s = canonicalResourceValue collate (scope_value s)"

text \<open>The fingerprint of a reservation: its identity and debits, each list sorted by the keys of the scopes.\<close>

definition debit_value :: "resource_debit \<Rightarrow> json" where
  "debit_value d = J_Object [(ascii ''scope'', scope_value (rd_scope d)), (ascii ''amount'', J_Int (rd_amount d)),
     (ascii ''limit'', J_Int (rd_limit d))]"

definition by_scope_key :: "(js_text \<Rightarrow> js_text \<Rightarrow> bool) \<Rightarrow> ('a \<Rightarrow> capacity_scope) \<Rightarrow> 'a list \<Rightarrow> 'a list" where
  "by_scope_key collate scope xs = map snd (sort_fields collate (map (\<lambda>x. (scope_key collate (scope x), x)) xs))"

definition identity_value :: "(js_text \<Rightarrow> js_text \<Rightarrow> bool) \<Rightarrow> reservation_identity \<Rightarrow> json" where
  "identity_value collate i = J_Object
     [(ascii ''version'', J_Int (ri_version i)), (ascii ''parentScope'', J_Text (ri_parentScope i)),
      (ascii ''owner'', J_Text (ri_owner i)), (ascii ''operation'', J_Text (ri_operation i)),
      (ascii ''workspaceGeneration'', J_Text (ri_workspaceGeneration i)),
      (ascii ''configurationGeneration'', J_Text (ri_configurationGeneration i)), (ascii ''attempt'', J_Text (ri_attempt i)),
      (ascii ''fence'', J_Text (ri_fence i)),
      (ascii ''scopes'', J_Array (map scope_value (by_scope_key collate (\<lambda>s. s) (ri_scopes i))))]"

definition reservation_fingerprint ::
  "(js_text \<Rightarrow> js_text \<Rightarrow> bool) \<Rightarrow> reservation_identity \<Rightarrow> resource_debit list \<Rightarrow> js_text" where
  "reservation_fingerprint collate identity debits = canonicalResourceValue collate (J_Object
     [(ascii ''identity'', identity_value collate identity),
      (ascii ''debits'', J_Array (map debit_value (by_scope_key collate rd_scope debits)))])"

text \<open>The ledger as the product creates it.\<close>

definition product_ledger_env :: "(js_text \<Rightarrow> js_text \<Rightarrow> bool) \<Rightarrow> (js_text \<Rightarrow> js_text) \<Rightarrow> ledger_env" where
  "product_ledger_env collate digest =
     \<lparr>le_key = scope_key collate, le_fingerprint = reservation_fingerprint collate, le_digest = digest, le_maxRecords = 8192\<rparr>"

section \<open>Quoted strings\<close>

definition hex_value :: "code_unit \<Rightarrow> code_unit" where
  "hex_value c = (if c < 58 then c - 48 else c - 87)"

lemma hex_value_digit: "unat d < 16 \<Longrightarrow> hex_value (hex_digit d) = d"
proof -
  assume small: "unat d < 16"
  have "unat (48 + d) = 48 + unat d" "unat (87 + d) = 87 + unat d"
    using small by (simp_all add: unat_word_ariths)
  then show ?thesis
    using small by (auto simp: hex_value_def hex_digit_def word_less_nat_alt)
qed

lemma nibbles_small:
  fixes u :: code_unit
  shows "unat (drop_bit 12 u) < 16" "unat (take_bit 4 v :: code_unit) < 16"
proof -
  have "unat u < 2 ^ 16" using unsigned_less [of u] by simp
  then show "unat (drop_bit 12 u) < 16" unfolding unat_drop_bit_eq by (simp add: drop_bit_eq_div)
  show "unat (take_bit 4 v :: code_unit) < 16" unfolding unsigned_take_bit_eq by (simp add: take_bit_eq_mod)
qed

lemma hex_escape_inj: "hex_escape u = hex_escape v \<longleftrightarrow> u = v"
proof
  assume eq: "hex_escape u = hex_escape v"
  have digit: "d = e" if "hex_digit d = hex_digit e" "unat d < 16" "unat e < 16" for d e
    using that hex_value_digit by metis
  from eq have nibbles: "drop_bit 12 u = drop_bit 12 v" "take_bit 4 (drop_bit 8 u) = take_bit 4 (drop_bit 8 v)"
    "take_bit 4 (drop_bit 4 u) = take_bit 4 (drop_bit 4 v)" "take_bit 4 u = take_bit 4 v"
    unfolding hex_escape_def list.inject by (blast intro: digit nibbles_small)+
  have glue: "x = y" if "drop_bit 4 x = drop_bit 4 y" "take_bit 4 x = take_bit 4 y" for x y :: code_unit
    using that bits_ident by metis
  have steps: "drop_bit 4 (drop_bit 4 x) = drop_bit 8 x" "drop_bit 4 (drop_bit 8 x) = drop_bit 12 x" for x :: code_unit
    unfolding drop_bit_drop_bit by simp_all
  have eight: "drop_bit 8 u = drop_bit 8 v" by (rule glue) (unfold steps, rule nibbles(1), rule nibbles(2))
  have four: "drop_bit 4 u = drop_bit 4 v" by (rule glue) (unfold steps, rule eight, rule nibbles(3))
  show "u = v" by (rule glue) (rule four, rule nibbles(4))
qed simp

lemma hex_escape_shape: "hex_escape u @ r = hex_escape v @ s \<longleftrightarrow> u = v \<and> r = s"
proof -
  have "length (hex_escape u) = length (hex_escape v)" by (simp add: hex_escape_def)
  then show ?thesis using hex_escape_inj by simp
qed

lemma hex_escape_head: "\<exists>rest. hex_escape u = 92 # 117 # rest"
  by (simp add: hex_escape_def)

text \<open>The shapes of an escaped point: two units, six units, or the point itself.\<close>

definition short_escapes :: "(code_unit \<times> code_unit) list" where
  "short_escapes = [(8, 98), (9, 116), (10, 110), (12, 102), (13, 114), (34, 34), (92, 92)]"

lemma escape_cases:
  assumes "point_ok p"
  obtains (short) u c where "p = [u]" "(u, c) \<in> set short_escapes" "escape_point p = [92, c]"
  | (hex) u where "p = [u]" "escape_point p = hex_escape u"
  | (raw) u where "p = [u]" "u \<noteq> 34" "u \<noteq> 92" "\<not> is_high u" "escape_point p = [u]"
  | (pair) u v where "p = [u, v]" "is_high u" "escape_point p = [u, v]"
proof -
  from assms consider (one) u where "p = [u]" | (two) u v where "p = [u, v]" "is_high u" by (auto simp: point_ok_def)
  then show thesis
  proof cases
    case one
    show thesis
    proof (cases "\<exists>c. (u, c) \<in> set short_escapes")
      case True
      then obtain c where c: "(u, c) \<in> set short_escapes" by blast
      then have "escape_point [u] = [92, c]" by (auto simp: short_escapes_def)
      with one c show thesis by (intro short) auto
    next
      case False
      then have "u \<notin> {8, 9, 10, 12, 13, 34, 92}" by (auto simp: short_escapes_def)
      then show thesis using hex raw one by (cases "u < 32 \<or> is_high u \<or> is_low u") auto
    qed
  next
    case two
    then show thesis by (intro pair) auto
  qed
qed

lemma short_escapes_facts:
  "(u, c) \<in> set short_escapes \<Longrightarrow> c \<noteq> 117"
  "(u, c) \<in> set short_escapes \<Longrightarrow> (v, c) \<in> set short_escapes \<Longrightarrow> u = v"
  by (auto simp: short_escapes_def)

lemma high_surrogate: "is_high u \<Longrightarrow> u \<noteq> 34 \<and> u \<noteq> 92"
  by (auto simp: is_high_def)

lemma escape_prefix:
  assumes "point_ok p" "point_ok q" "escape_point p @ r = escape_point q @ s"
  shows "p = q \<and> r = s"
  using assms(1)
proof (cases rule: escape_cases)
  case (short u c)
  note p = this
  from assms(2) show ?thesis
  proof (cases rule: escape_cases)
    case (short v d)
    with p assms(3) short_escapes_facts(2) show ?thesis by auto
  next
    case (hex v)
    with p assms(3) hex_escape_head [of v] short_escapes_facts(1) show ?thesis by auto
  next
    case (raw v)
    with p assms(3) show ?thesis by auto
  next
    case (pair v w)
    with p assms(3) high_surrogate show ?thesis by auto
  qed
next
  case (hex u)
  note p = this
  from assms(2) show ?thesis
  proof (cases rule: escape_cases)
    case (short v d)
    with p assms(3) hex_escape_head [of u] short_escapes_facts(1) show ?thesis by auto
  next
    case (hex v)
    with p assms(3) hex_escape_shape show ?thesis by auto
  next
    case (raw v)
    with p assms(3) hex_escape_head [of u] show ?thesis by auto
  next
    case (pair v w)
    with p assms(3) hex_escape_head [of u] high_surrogate show ?thesis by auto
  qed
next
  case (raw u)
  note p = this
  from assms(2) show ?thesis
  proof (cases rule: escape_cases)
    case (hex v)
    with p assms(3) hex_escape_head [of v] show ?thesis by auto
  qed (use p assms(3) in auto)
next
  case (pair u w)
  note p = this
  from assms(2) show ?thesis
  proof (cases rule: escape_cases)
    case (hex v)
    with p assms(3) hex_escape_head [of v] high_surrogate show ?thesis by auto
  qed (use p assms(3) high_surrogate in auto)
qed

lemma escape_head: "point_ok p \<Longrightarrow> \<exists>u rest. escape_point p = u # rest \<and> u \<noteq> 34"
  by (cases rule: escape_cases) (auto simp: hex_escape_def high_surrogate)

lemma escapes_prefix:
  "\<forall>p \<in> set ps. point_ok p \<Longrightarrow> \<forall>q \<in> set qs. point_ok q \<Longrightarrow>
   concat (map escape_point ps) @ 34 # r = concat (map escape_point qs) @ 34 # s \<Longrightarrow> ps = qs \<and> r = s"
proof (induction ps arbitrary: qs)
  case Nil
  then show ?case using escape_head by (cases qs) fastforce+
next
  case (Cons p ps)
  show ?case
  proof (cases qs)
    case Nil
    with Cons.prems escape_head [of p] show ?thesis by auto
  next
    case (Cons q qs')
    with Cons.prems have "escape_point p @ (concat (map escape_point ps) @ 34 # r) = escape_point q @ (concat (map escape_point qs') @ 34 # s)"
      by simp
    from escape_prefix [OF _ _ this] Cons.prems Cons Cons.IH [of qs'] show ?thesis by auto
  qed
qed

lemma quote_prefix: "quote_text a @ r = quote_text b @ s \<longleftrightarrow> a = b \<and> r = s"
proof
  assume "quote_text a @ r = quote_text b @ s"
  then have "concat (map escape_point (points a)) @ 34 # r = concat (map escape_point (points b)) @ 34 # s"
    by (simp add: quote_text_def)
  from escapes_prefix [OF _ _ this] show "a = b \<and> r = s" by (auto simp: points_ok points_inj)
qed simp

section \<open>Numbers\<close>

lemma ascii_inj: "ascii s = ascii t \<longleftrightarrow> s = t"
proof -
  have "inj (\<lambda>c :: char. word_of_nat (of_char c) :: code_unit)"
  proof (rule injI)
    fix c d :: char
    assume "word_of_nat (of_char c) = (word_of_nat (of_char d) :: code_unit)"
    then have "unat (word_of_nat (of_char c) :: code_unit) = unat (word_of_nat (of_char d) :: code_unit)" by simp
    moreover have "unat (word_of_nat (of_char c) :: code_unit) = of_char c" for c :: char
      using order_less_trans [OF nat_of_char_less_256 [of c], of 65536] by (simp add: unat_of_nat)
    ultimately show "c = d" by simp
  qed
  then show ?thesis unfolding ascii_def by (metis inj_map_eq_map)
qed

definition digit_unit :: "code_unit \<Rightarrow> bool" where
  "digit_unit u \<longleftrightarrow> 48 \<le> u \<and> u \<le> 57"

lemma decimal_units: "u \<in> set (ascii (decimal n)) \<Longrightarrow> digit_unit u"
proof -
  assume "u \<in> set (ascii (decimal n))"
  then obtain c where c: "c \<in> set (decimal n)" "u = word_of_nat (of_char c)" by (auto simp: ascii_def)
  from decimal_digits [OF c(1)] have "48 \<le> (of_char c :: nat)" "(of_char c :: nat) \<le> 57" by auto
  then show ?thesis unfolding c(2) digit_unit_def by (simp add: word_le_nat_alt unat_of_nat)
qed

lemma decimal_units_nonempty: "ascii (decimal n) \<noteq> []"
  using decimal_nonempty [of n] by (simp add: ascii_def)

text \<open>What may follow a value: nothing, a comma, a closing bracket or a closing brace.\<close>

definition closes :: "js_text \<Rightarrow> bool" where
  "closes r \<longleftrightarrow> (case r of [] \<Rightarrow> True | u # _ \<Rightarrow> u \<in> {44, 93, 125})"

lemma closes_takeWhile:
  assumes "\<forall>u \<in> set ds. digit_unit u" "closes r"
  shows "takeWhile digit_unit (ds @ r) = ds"
  using assms by (cases r) (auto simp: closes_def digit_unit_def takeWhile_append takeWhile_eq_all_conv)

lemma digits_prefix:
  assumes "ascii (decimal m) @ r = ascii (decimal n) @ s" "closes r" "closes s"
  shows "m = n \<and> r = s"
proof -
  have "ascii (decimal m) = ascii (decimal n)"
    using assms closes_takeWhile [of "ascii (decimal m)" r] closes_takeWhile [of "ascii (decimal n)" s] decimal_units by metis
  with assms(1) show ?thesis by (auto simp: ascii_inj decimal_inj)
qed

lemma decimal_hd: "\<exists>u rest. ascii (decimal n) = u # rest \<and> digit_unit u"
  using decimal_units_nonempty [of n] decimal_units [of "hd (ascii (decimal n))" n] by (cases "ascii (decimal n)") auto

lemma int_prefix:
  assumes "int_text m @ r = int_text n @ s" "closes r" "closes s"
  shows "m = n \<and> r = s"
proof (cases "m < 0"; cases "n < 0")
  assume "m < 0" "n < 0"
  with assms digits_prefix [of "nat (- m)" r "nat (- n)" s] show ?thesis by (auto simp: int_text_def)
next
  assume "\<not> m < 0" "\<not> n < 0"
  with assms digits_prefix [of "nat m" r "nat n" s] show ?thesis by (auto simp: int_text_def)
next
  assume "m < 0" "\<not> n < 0"
  with assms(1) decimal_hd [of "nat n"] show ?thesis by (auto simp: int_text_def digit_unit_def)
next
  assume "\<not> m < 0" "n < 0"
  with assms(1) decimal_hd [of "nat m"] show ?thesis by (auto simp: int_text_def digit_unit_def)
qed

section \<open>The normal form\<close>

text \<open>
  \<open>norm_value\<close> drops undefined fields and sorts the others; \<open>render\<close> prints a value as it stands. The
  canonical text is the print of the normal form.
\<close>

fun norm_value :: "(js_text \<Rightarrow> js_text \<Rightarrow> bool) \<Rightarrow> json \<Rightarrow> json"
  and norm_elements :: "(js_text \<Rightarrow> js_text \<Rightarrow> bool) \<Rightarrow> json list \<Rightarrow> json list"
  and norm_fields :: "(js_text \<Rightarrow> js_text \<Rightarrow> bool) \<Rightarrow> (js_text \<times> json) list \<Rightarrow> (js_text \<times> json) list" where
  "norm_value collate (J_Array vs) = J_Array (norm_elements collate vs)"
| "norm_value collate (J_Object fs) = J_Object (sort_fields collate (norm_fields collate fs))"
| "norm_value collate J_Undefined = J_Undefined"
| "norm_value collate J_Null = J_Null"
| "norm_value collate (J_Bool b) = J_Bool b"
| "norm_value collate (J_Int n) = J_Int n"
| "norm_value collate (J_Text s) = J_Text s"
| "norm_elements collate [] = []"
| "norm_elements collate (v # vs) = norm_value collate v # norm_elements collate vs"
| "norm_fields collate [] = []"
| "norm_fields collate ((k, v) # fs) =
     (if v = J_Undefined then norm_fields collate fs else (k, norm_value collate v) # norm_fields collate fs)"

fun render :: "json \<Rightarrow> js_text" and render_elements :: "json list \<Rightarrow> js_text list"
  and render_fields :: "(js_text \<times> json) list \<Rightarrow> js_text list" where
  "render J_Undefined = []"
| "render J_Null = ascii ''null''"
| "render (J_Bool b) = (if b then ascii ''true'' else ascii ''false'')"
| "render (J_Int n) = int_text n"
| "render (J_Text s) = quote_text s"
| "render (J_Array vs) = 91 # join_with 44 (render_elements vs) @ [93]"
| "render (J_Object fs) = 123 # join_with 44 (render_fields fs) @ [125]"
| "render_elements [] = []"
| "render_elements (v # vs) = render v # render_elements vs"
| "render_fields [] = []"
| "render_fields ((k, v) # fs) = (quote_text k @ 58 # render v) # render_fields fs"

lemma insert_field_map:
  "insert_field collate (fst x, f (snd x)) (map (\<lambda>y. (fst y, f (snd y))) ys) = map (\<lambda>y. (fst y, f (snd y))) (insert_field collate x ys)"
  by (induction ys) auto

lemma sort_fields_map: "sort_fields collate (map (\<lambda>y. (fst y, f (snd y))) ys) = map (\<lambda>y. (fst y, f (snd y))) (sort_fields collate ys)"
  unfolding sort_fields_def by (induction ys) (auto simp: insert_field_map)

lemma render_fields_map: "render_fields fs = map (\<lambda>f. quote_text (fst f) @ 58 # render (snd f)) fs"
  by (induction fs) auto

lemma canonical_render:
  "canonicalResourceValue collate v = render (norm_value collate v)"
  "canonical_elements collate vs = render_elements (norm_elements collate vs)"
  "canonical_fields collate fs = map (\<lambda>f. (fst f, render (snd f))) (norm_fields collate fs)"
proof (induction collate v and collate vs and collate fs rule: canonicalResourceValue_canonical_elements_canonical_fields.induct)
  case (7 collate fs)
  then show ?case by (simp add: sort_fields_map render_fields_map comp_def)
qed auto

lemma insert_field_mset: "mset (insert_field collate x ys) = add_mset x (mset ys)"
  by (induction ys) auto

lemma sort_fields_mset: "mset (sort_fields collate xs) = mset xs"
  unfolding sort_fields_def by (induction xs) (auto simp: insert_field_mset)

lemma sort_fields_set [simp]: "set (sort_fields collate xs) = set xs"
  by (metis set_mset_mset sort_fields_mset)

text \<open>Values without undefined parts, which are what normal forms of sensible values are.\<close>

fun plain :: "json \<Rightarrow> bool" and plain_elements :: "json list \<Rightarrow> bool" and plain_fields :: "(js_text \<times> json) list \<Rightarrow> bool" where
  "plain J_Undefined \<longleftrightarrow> False"
| "plain J_Null \<longleftrightarrow> True"
| "plain (J_Bool b) \<longleftrightarrow> True"
| "plain (J_Int n) \<longleftrightarrow> True"
| "plain (J_Text s) \<longleftrightarrow> True"
| "plain (J_Array vs) \<longleftrightarrow> plain_elements vs"
| "plain (J_Object fs) \<longleftrightarrow> plain_fields fs"
| "plain_elements [] \<longleftrightarrow> True"
| "plain_elements (v # vs) \<longleftrightarrow> plain v \<and> plain_elements vs"
| "plain_fields [] \<longleftrightarrow> True"
| "plain_fields ((k, v) # fs) \<longleftrightarrow> plain v \<and> plain_fields fs"

text \<open>The first unit of a print tells what kind of value it is.\<close>

definition head_kind :: "code_unit \<Rightarrow> nat" where
  "head_kind u =
     (if u = 110 then 1 else if u = 116 \<or> u = 102 then 2 else if u = 45 \<or> digit_unit u then 3
      else if u = 34 then 4 else if u = 91 then 5 else if u = 123 then 6 else 0)"

fun value_kind :: "json \<Rightarrow> nat" where
  "value_kind J_Undefined = 0"
| "value_kind J_Null = 1"
| "value_kind (J_Bool b) = 2"
| "value_kind (J_Int n) = 3"
| "value_kind (J_Text s) = 4"
| "value_kind (J_Array vs) = 5"
| "value_kind (J_Object fs) = 6"

lemma render_head: "plain v \<Longrightarrow> \<exists>u rest. render v = u # rest \<and> head_kind u = value_kind v"
proof (cases v)
  case (J_Int n)
  have "\<exists>u rest. int_text n = u # rest \<and> (u = 45 \<or> digit_unit u)"
    using decimal_hd [of "nat n"] by (auto simp: int_text_def)
  then obtain u rest where u: "int_text n = u # rest" "u = 45 \<or> digit_unit u" by blast
  then have "u \<noteq> 110 \<and> u \<noteq> 116 \<and> u \<noteq> 102" by (auto simp: digit_unit_def)
  with u have "head_kind u = 3" by (simp add: head_kind_def)
  with u(1) J_Int show ?thesis by simp
qed (auto simp: head_kind_def digit_unit_def ascii_def quote_text_def)

lemma same_kind:
  assumes "plain v" "plain w" "render v @ r = render w @ s"
  shows "value_kind v = value_kind w"
  using render_head [OF assms(1)] render_head [OF assms(2)] assms(3) by auto

lemma closes_kind: "closes (u # r) \<Longrightarrow> head_kind u = 0"
  by (auto simp: closes_def head_kind_def digit_unit_def)

lemma plain_kind: "plain v \<Longrightarrow> value_kind v \<noteq> 0"
  by (cases v) auto

lemma not_closes: "plain v \<Longrightarrow> \<not> closes (render v @ r)"
  using render_head [of v] closes_kind plain_kind by fastforce

text \<open>A list of prints joined by commas, with its closing unit.\<close>

lemma join_cons: "join_with 44 (x # xs) @ c # r = x @ (if xs = [] then c # r else 44 # join_with 44 xs @ c # r)"
  by (cases xs) auto

lemma closes_more: "c \<in> {93, 125} \<Longrightarrow> closes (if b then c # r else 44 # t)"
  by (auto simp: closes_def)

lemma render_prefix:
  "plain v \<Longrightarrow> plain w \<Longrightarrow> closes r \<Longrightarrow> closes s \<Longrightarrow> render v @ r = render w @ s \<Longrightarrow> v = w \<and> r = s"
  "plain_elements vs \<Longrightarrow> plain_elements ws \<Longrightarrow>
   join_with 44 (render_elements vs) @ 93 # r = join_with 44 (render_elements ws) @ 93 # s \<Longrightarrow> vs = ws \<and> r = s"
  "plain_fields fs \<Longrightarrow> plain_fields gs \<Longrightarrow>
   join_with 44 (render_fields fs) @ 125 # r = join_with 44 (render_fields gs) @ 125 # s \<Longrightarrow> fs = gs \<and> r = s"
proof (induction v and vs and fs arbitrary: w r s and ws r s and gs r s rule: render_render_elements_render_fields.induct)
  case 1
  then show ?case by simp
next
  case 2
  from same_kind [OF 2(1,2,5)] have "w = J_Null" by (cases w) simp_all
  with 2(5) show ?case by simp
next
  case (3 b)
  from same_kind [OF 3(1,2,5)] obtain c where "w = J_Bool c" by (cases w) simp_all
  with 3(5) show ?case by (cases b; cases c) (simp_all add: ascii_def)
next
  case (4 n)
  from same_kind [OF 4(1,2,5)] obtain m where "w = J_Int m" by (cases w) simp_all
  with 4(5) int_prefix [OF _ 4(3,4)] show ?case by simp
next
  case (5 t)
  from same_kind [OF 5(1,2,5)] obtain u where "w = J_Text u" by (cases w) simp_all
  with 5(5) show ?case by (simp add: quote_prefix)
next
  case (6 vs)
  from same_kind [OF 6(2,3,6)] obtain ws where "w = J_Array ws" by (cases w) simp_all
  with 6(1) [of ws r s] 6(2,3,6) show ?case by simp
next
  case (7 fs)
  from same_kind [OF 7(2,3,6)] obtain gs where "w = J_Object gs" by (cases w) simp_all
  with 7(1) [of gs r s] 7(2,3,6) show ?case by simp
next
  case 8
  then show ?case
  proof (cases ws)
    case (Cons w ws')
    with 8 have "93 # r = render w @ (if render_elements ws' = [] then 93 # s else 44 # join_with 44 (render_elements ws') @ 93 # s)"
      by (simp add: join_cons)
    moreover have "closes (93 # r)" by (simp add: closes_def)
    ultimately show ?thesis using not_closes [of w] Cons 8(2) by auto
  qed simp
next
  case (9 v vs)
  have start: "join_with 44 (render_elements (v # vs)) @ 93 # r =
      render v @ (if render_elements vs = [] then 93 # r else 44 # join_with 44 (render_elements vs) @ 93 # r)"
    by (simp add: join_cons)
  show ?case
  proof (cases ws)
    case Nil
    with 9(5) start have "93 # s = render v @ (if render_elements vs = [] then 93 # r else 44 # join_with 44 (render_elements vs) @ 93 # r)"
      by simp
    moreover have "closes (93 # s)" by (simp add: closes_def)
    ultimately show ?thesis using not_closes [of v] 9(3) by auto
  next
    case (Cons w ws')
    let ?t = "\<lambda>vs r. if render_elements vs = [] then 93 # r else 44 # join_with 44 (render_elements vs) @ 93 # r"
    have "render v @ ?t vs r = render w @ ?t ws' s" using 9(5) start Cons by (simp add: join_cons)
    from 9(1) [OF _ _ closes_more closes_more this] 9(3,4) Cons have first: "v = w" "?t vs r = ?t ws' s" by auto
    have empty: "render_elements xs = [] \<longleftrightarrow> xs = []" for xs by (cases xs) auto
    have "vs = ws' \<and> r = s"
    proof (cases "vs = []"; cases "ws' = []")
      assume "vs \<noteq> []" "ws' \<noteq> []"
      with first(2) have "join_with 44 (render_elements vs) @ 93 # r = join_with 44 (render_elements ws') @ 93 # s" by (simp add: empty)
      from 9(2) [OF _ _ this] 9(3,4) Cons show ?thesis by auto
    qed (use first(2) in \<open>auto simp: empty\<close>)
    with first(1) Cons show ?thesis by simp
  qed
next
  case 10
  then show ?case
  proof (cases gs)
    case (Cons g gs')
    with 10 show ?thesis by (cases g) (auto simp: join_cons quote_text_def)
  qed simp
next
  case (11 k v fs)
  let ?t = "\<lambda>fs r. if render_fields fs = [] then 125 # r else 44 # join_with 44 (render_fields fs) @ 125 # r"
  have start: "join_with 44 (render_fields ((k, v) # fs)) @ 125 # r = quote_text k @ 58 # render v @ ?t fs r" for k v fs r
    by (simp add: join_cons)
  show ?case
  proof (cases gs)
    case Nil
    with 11(5) start show ?thesis by (auto simp: quote_text_def)
  next
    case (Cons g gs')
    obtain k' w where g: "g = (k', w)" by fastforce
    have "quote_text k @ 58 # render v @ ?t fs r = quote_text k' @ 58 # render w @ ?t gs' s"
      using 11(5) start Cons g by metis
    then have key: "k = k'" and rest: "render v @ ?t fs r = render w @ ?t gs' s" by (auto simp: quote_prefix)
    from 11(1) [OF _ _ closes_more closes_more rest] 11(3,4) Cons g have first: "v = w" "?t fs r = ?t gs' s" by auto
    have empty: "render_fields xs = [] \<longleftrightarrow> xs = []" for xs by (cases xs) auto
    have "fs = gs' \<and> r = s"
    proof (cases "fs = []"; cases "gs' = []")
      assume "fs \<noteq> []" "gs' \<noteq> []"
      with first(2) have "join_with 44 (render_fields fs) @ 125 # r = join_with 44 (render_fields gs') @ 125 # s" by (simp add: empty)
      from 11(2) [OF _ _ this] 11(3,4) Cons g show ?thesis by auto
    qed (use first(2) in \<open>auto simp: empty\<close>)
    with first(1) key Cons g show ?thesis by simp
  qed
qed

section \<open>What the canonical text identifies\<close>

text \<open>Values whose arrays hold no undefined element; fields may be undefined.\<close>

fun sensible :: "json \<Rightarrow> bool" and sensible_elements :: "json list \<Rightarrow> bool" and sensible_fields :: "(js_text \<times> json) list \<Rightarrow> bool" where
  "sensible J_Undefined \<longleftrightarrow> False"
| "sensible J_Null \<longleftrightarrow> True"
| "sensible (J_Bool b) \<longleftrightarrow> True"
| "sensible (J_Int n) \<longleftrightarrow> True"
| "sensible (J_Text s) \<longleftrightarrow> True"
| "sensible (J_Array vs) \<longleftrightarrow> sensible_elements vs"
| "sensible (J_Object fs) \<longleftrightarrow> sensible_fields fs"
| "sensible_elements [] \<longleftrightarrow> True"
| "sensible_elements (v # vs) \<longleftrightarrow> sensible v \<and> sensible_elements vs"
| "sensible_fields [] \<longleftrightarrow> True"
| "sensible_fields ((k, v) # fs) \<longleftrightarrow> (v = J_Undefined \<or> sensible v) \<and> sensible_fields fs"

lemma plain_fields_all: "plain_fields fs \<longleftrightarrow> (\<forall>f \<in> set fs. plain (snd f))"
  by (induction fs) auto

lemma sensible_plain:
  "sensible v \<Longrightarrow> plain (norm_value collate v)"
  "sensible_elements vs \<Longrightarrow> plain_elements (norm_elements collate vs)"
  "sensible_fields fs \<Longrightarrow> plain_fields (norm_fields collate fs)"
  by (induction v and vs and fs rule: sensible_sensible_elements_sensible_fields.induct) (auto simp: plain_fields_all)

lemma canonical_iff:
  assumes "sensible v" "sensible w"
  shows "canonicalResourceValue collate v = canonicalResourceValue collate w \<longleftrightarrow> norm_value collate v = norm_value collate w"
proof
  assume "canonicalResourceValue collate v = canonicalResourceValue collate w"
  then have "render (norm_value collate v) @ [] = render (norm_value collate w) @ []" by (simp add: canonical_render)
  from render_prefix(1) [OF sensible_plain(1) [OF assms(1)] sensible_plain(1) [OF assms(2)] _ _ this]
  show "norm_value collate v = norm_value collate w" by (simp add: closes_def)
qed (simp add: canonical_render)

text \<open>What an object with distinct names holds can be read off its normal form.\<close>

lemma norm_fields_get:
  "distinct (map fst fs) \<Longrightarrow>
   map_of (norm_fields collate fs) k =
     (case map_of fs k of None \<Rightarrow> None | Some v \<Rightarrow> if v = J_Undefined then None else Some (norm_value collate v))"
proof (induction fs)
  case (Cons f fs)
  obtain k0 v where f: "f = (k0, v)" by fastforce
  with Cons.prems have "map_of fs k0 = None" by (simp add: map_of_eq_None_iff)
  with Cons f show ?case by auto
qed simp

lemma norm_fields_name: "(k, w) \<in> set (norm_fields collate fs) \<Longrightarrow> k \<in> fst ` set fs"
proof (induction fs)
  case (Cons f fs)
  then show ?case by (cases f) (auto split: if_splits)
qed simp

lemma norm_fields_keys: "distinct (map fst fs) \<Longrightarrow> distinct (map fst (norm_fields collate fs))"
proof (induction fs)
  case (Cons f fs)
  then show ?case by (cases f) (auto dest: norm_fields_name)
qed simp

lemma sorted_get:
  assumes "distinct (map fst fs)"
  shows "map_of (sort_fields collate fs) = map_of fs"
proof (rule map_of_eqI)
  show "set (map fst (sort_fields collate fs)) = set (map fst fs)" by simp
  have "mset (map fst (sort_fields collate fs)) = mset (map fst fs)" by (simp add: sort_fields_mset)
  then have "distinct (map fst (sort_fields collate fs))" using assms mset_eq_imp_distinct_iff by blast
  then show "\<forall>k \<in> set (map fst (sort_fields collate fs)). map_of (sort_fields collate fs) k = map_of fs k"
    using assms by (metis sort_fields_set map_of_inject_set)
qed

lemma objects_get:
  assumes "distinct (map fst fs)" "distinct (map fst gs)" "norm_value collate (J_Object fs) = norm_value collate (J_Object gs)"
  shows "map_of (norm_fields collate fs) k = map_of (norm_fields collate gs) k"
  using assms sorted_get [OF norm_fields_keys, of fs] sorted_get [OF norm_fields_keys, of gs] by (metis json.inject(5) norm_value.simps(2))

definition scope_fields :: "capacity_scope \<Rightarrow> (js_text \<times> json) list" where
  "scope_fields s = (case scope_value s of J_Object fs \<Rightarrow> fs | _ \<Rightarrow> [])"

lemma scope_value_fields: "scope_value s = J_Object (scope_fields s)"
  by (simp add: scope_value_def scope_fields_def)

lemma scope_fields_names: "distinct (map fst (scope_fields s))"
  by (simp add: scope_fields_def scope_value_def ascii_inj)

lemma optional_text_sensible: "optional_text x = J_Undefined \<or> sensible (optional_text x)"
  by (cases x) (simp_all add: optional_text_def)

lemma scope_sensible: "sensible (scope_value s)"
  using optional_text_sensible by (simp add: scope_value_def)

lemma owner_name_inj: "owner_name a = owner_name b \<longleftrightarrow> a = b"
  by (cases a; cases b) (simp_all add: ascii_inj)

lemma kind_name_inj: "kind_name a = kind_name b \<longleftrightarrow> a = b"
  by (cases a; cases b) (simp_all add: ascii_inj)

lemma dimension_name_inj: "dimension_name a = dimension_name b \<longleftrightarrow> a = b"
proof -
  have "map_of (map (\<lambda>d. (dimension_name d, d)) RESOURCE_DIMENSIONS) (dimension_name d) = Some d" for d
    by (cases d) (simp_all add: RESOURCE_DIMENSIONS_def ascii_inj)
  then show ?thesis by (metis option.inject)
qed

text \<open>
  C34. The key of a scope identifies it. Whatever order the runtime's locale gives to names, two capacity
  scopes have the same canonical text exactly when they are equal in every component, so two different
  scopes never share a bucket of the ledger unless they are joined.
\<close>

theorem scope_key_identifies_scope: "scope_key collate s = scope_key collate t \<longleftrightarrow> s = t"
proof
  assume "scope_key collate s = scope_key collate t"
  then have "norm_value collate (scope_value s) = norm_value collate (scope_value t)"
    unfolding scope_key_def canonical_iff [OF scope_sensible scope_sensible] .
  then have norm: "norm_value collate (J_Object (scope_fields s)) = norm_value collate (J_Object (scope_fields t))"
    by (simp only: scope_value_fields)
  have field: "map_of (norm_fields collate (scope_fields s)) k = map_of (norm_fields collate (scope_fields t)) k" for k
    using scope_fields_names scope_fields_names norm by (rule objects_get)
  have get: "map_of (norm_fields collate (scope_fields x)) k = (case map_of (scope_fields x) k of None \<Rightarrow> None
      | Some v \<Rightarrow> if v = J_Undefined then None else Some (norm_value collate v))" for x k
    using scope_fields_names by (rule norm_fields_get)
  have optional: "x = y" if "(if optional_text x = J_Undefined then None else Some (norm_value collate (optional_text x))) =
      (if optional_text y = J_Undefined then None else Some (norm_value collate (optional_text y)))" for x y
    using that by (cases x; cases y) (simp_all add: optional_text_def)
  note at = field [unfolded get, unfolded scope_fields_def scope_value_def json.case]
  have "sc_version s = sc_version t" using at [of "ascii ''version''"] by (simp add: ascii_inj)
  moreover have "sc_ownerKind s = sc_ownerKind t" using at [of "ascii ''ownerKind''"] by (simp add: ascii_inj owner_name_inj)
  moreover have "sc_destination s = sc_destination t" using at [of "ascii ''destination''"] by (simp add: ascii_inj)
  moreover have "sc_account s = sc_account t" by (rule optional) (use at [of "ascii ''account''"] in \<open>simp add: ascii_inj\<close>)
  moreover have "sc_organization s = sc_organization t" by (rule optional) (use at [of "ascii ''organization''"] in \<open>simp add: ascii_inj\<close>)
  moreover have "sc_project s = sc_project t" by (rule optional) (use at [of "ascii ''project''"] in \<open>simp add: ascii_inj\<close>)
  moreover have "sc_workspace s = sc_workspace t" by (rule optional) (use at [of "ascii ''workspace''"] in \<open>simp add: ascii_inj\<close>)
  moreover have "sc_region s = sc_region t" by (rule optional) (use at [of "ascii ''region''"] in \<open>simp add: ascii_inj\<close>)
  moreover have "sc_serviceTier s = sc_serviceTier t" by (rule optional) (use at [of "ascii ''serviceTier''"] in \<open>simp add: ascii_inj\<close>)
  moreover have "sc_family s = sc_family t" using at [of "ascii ''family''"] by (simp add: ascii_inj)
  moreover have "sc_dimension s = sc_dimension t" using at [of "ascii ''dimension''"] by (simp add: ascii_inj dimension_name_inj)
  moreover have "sc_bucketKind s = sc_bucketKind t" using at [of "ascii ''bucketKind''"] by (simp add: ascii_inj kind_name_inj)
  ultimately show "s = t" by (intro capacity_scope.equality) simp_all
qed simp

section \<open>The order of the fields\<close>

text \<open>What the code relies on in \<open>localeCompare\<close>: on the names of an object it is a total order.\<close>

definition orders_names :: "(js_text \<Rightarrow> js_text \<Rightarrow> bool) \<Rightarrow> js_text set \<Rightarrow> bool" where
  "orders_names collate names \<longleftrightarrow>
     (\<forall>a \<in> names. \<forall>b \<in> names. collate a b \<or> collate b a) \<and>
     (\<forall>a \<in> names. \<forall>b \<in> names. collate a b \<longrightarrow> collate b a \<longrightarrow> a = b) \<and>
     (\<forall>a \<in> names. \<forall>b \<in> names. \<forall>c \<in> names. collate a b \<longrightarrow> collate b c \<longrightarrow> collate a c)"

lemma orders_namesD:
  assumes "orders_names collate names" "a \<in> names" "b \<in> names"
  shows "collate a b \<or> collate b a" "collate a b \<Longrightarrow> collate b a \<Longrightarrow> a = b"
    "c \<in> names \<Longrightarrow> collate a b \<Longrightarrow> collate b c \<Longrightarrow> collate a c"
  using assms unfolding orders_names_def by blast+

lemma orders_names_mono: "orders_names collate names \<Longrightarrow> names' \<subseteq> names \<Longrightarrow> orders_names collate names'"
  unfolding orders_names_def by (meson subsetD)

lemma insert_field_set: "set (insert_field collate x ys) = insert x (set ys)"
  by (metis insert_field_mset set_mset_add_mset_insert set_mset_mset)

lemma insert_field_sorted:
  assumes "orders_names collate (insert (fst x) (fst ` set ys))" "sorted_wrt (\<lambda>x y. collate (fst x) (fst y)) ys"
  shows "sorted_wrt (\<lambda>x y. collate (fst x) (fst y)) (insert_field collate x ys)"
  using assms
proof (induction ys)
  case (Cons y ys)
  show ?case
  proof (cases "collate (fst x) (fst y)")
    case True
    have "collate (fst x) (fst z)" if "z \<in> set ys" for z
      using orders_namesD(3) [OF Cons.prems(1), of "fst x" "fst y" "fst z"] True Cons.prems(2) that by simp
    then show ?thesis using True Cons.prems(2) by simp
  next
    case False
    have "orders_names collate (insert (fst x) (fst ` set ys))" by (rule orders_names_mono [OF Cons.prems(1)]) auto
    then have "sorted_wrt (\<lambda>x y. collate (fst x) (fst y)) (insert_field collate x ys)" using Cons by simp
    moreover have "collate (fst y) (fst x)" using orders_namesD(1) [OF Cons.prems(1), of "fst x" "fst y"] False by simp
    ultimately show ?thesis using False Cons.prems(2) by (auto simp: insert_field_set)
  qed
qed simp

lemma sort_fields_sorted:
  "orders_names collate (fst ` set fs) \<Longrightarrow> sorted_wrt (\<lambda>x y. collate (fst x) (fst y)) (sort_fields collate fs)"
proof (induction fs)
  case (Cons f fs)
  have "orders_names collate (fst ` set fs)" by (rule orders_names_mono [OF Cons.prems]) auto
  then have "sorted_wrt (\<lambda>x y. collate (fst x) (fst y)) (insert_field collate f (sort_fields collate fs))"
    using insert_field_sorted [of collate f "sort_fields collate fs"] Cons by simp
  then show ?case by (simp add: sort_fields_def)
qed (simp add: sort_fields_def)

lemma sorted_fields_unique:
  assumes "sorted_wrt (\<lambda>x y. collate (fst x) (fst y)) xs" "sorted_wrt (\<lambda>x y. collate (fst x) (fst y)) ys"
    and "mset xs = mset ys" "distinct (map fst xs)" "orders_names collate (fst ` set xs)"
  shows "xs = ys"
  using assms
proof (induction xs arbitrary: ys)
  case (Cons x xs)
  then obtain y zs where ys: "ys = y # zs" by (cases ys) auto
  have set_eq: "insert x (set xs) = insert y (set zs)" using Cons.prems(3) ys by (metis list.set(2) mset_eq_setD)
  have "x = y"
  proof (rule ccontr)
    assume ne: "x \<noteq> y"
    then have "y \<in> set xs" "x \<in> set zs" using set_eq by auto
    then have "collate (fst x) (fst y)" "collate (fst y) (fst x)" using Cons.prems(1,2) ys by auto
    then have "fst x = fst y" using orders_namesD(2) [OF Cons.prems(5), of "fst x" "fst y"] \<open>y \<in> set xs\<close> by simp
    then show False using Cons.prems(4) \<open>y \<in> set xs\<close> by (auto simp: rev_image_eqI)
  qed
  moreover have "xs = zs"
  proof (rule Cons.IH)
    show "orders_names collate (fst ` set xs)" by (rule orders_names_mono [OF Cons.prems(5)]) auto
  qed (use Cons.prems ys calculation in simp_all)
  ultimately show ?case using ys by simp
qed simp

lemma canonical_fields_map:
  "canonical_fields collate fs = map (\<lambda>(k, v). (k, canonicalResourceValue collate v)) (filter (\<lambda>(k, v). v \<noteq> J_Undefined) fs)"
  by (induction fs) auto

text \<open>
  C35. The canonical text does not depend on the order in which an object lists its fields: two objects with
  the same fields, each name once, get the same text, wherever the runtime's \<open>localeCompare\<close> orders their
  names totally.
\<close>

theorem field_order_does_not_matter:
  assumes "mset fs = mset gs" "distinct (map fst fs)" "orders_names collate (fst ` set fs)"
  shows "canonicalResourceValue collate (J_Object fs) = canonicalResourceValue collate (J_Object gs)"
proof -
  let ?c = "canonical_fields collate"
  have same: "mset (?c fs) = mset (?c gs)"
    unfolding canonical_fields_map mset_map mset_filter assms(1) ..
  have sub: "fst ` set (?c fs) \<subseteq> fst ` set fs" by (auto simp: canonical_fields_map) force
  have "distinct (map fst (?c fs))"
    unfolding canonical_fields_map using assms(2) by (simp add: comp_def case_prod_unfold distinct_map_filter)
  moreover have "mset (map fst (sort_fields collate (?c fs))) = mset (map fst (?c fs))" by (simp add: sort_fields_mset)
  ultimately have dist: "distinct (map fst (sort_fields collate (?c fs)))" using mset_eq_imp_distinct_iff by blast
  have ord: "orders_names collate (fst ` set (?c fs))" using assms(3) sub by (rule orders_names_mono)
  have sets: "set (?c gs) = set (?c fs)" using same by (metis set_mset_mset)
  have "sort_fields collate (?c fs) = sort_fields collate (?c gs)"
    by (rule sorted_fields_unique [OF sort_fields_sorted sort_fields_sorted])
      (use ord sets dist same in \<open>simp_all add: sort_fields_mset\<close>)
  then show ?thesis by simp
qed

theorem field_order_does_not_matter_witness:
  "canonicalResourceValue (\<lambda>a b. length a \<le> length b) (J_Object [([98, 98], J_Int 2), ([97], J_Int 1)]) =
   canonicalResourceValue (\<lambda>a b. length a \<le> length b) (J_Object [([97], J_Int 1), ([98, 98], J_Int 2)])"
proof (rule field_order_does_not_matter)
  have names: "fst ` set [([98, 98] :: js_text, J_Int 2), ([97], J_Int 1)] = {[98, 98], [97]}" by simp
  show "orders_names (\<lambda>a b. length a \<le> length b) (fst ` set [([98, 98], J_Int 2), ([97], J_Int 1)])"
    unfolding names orders_names_def by simp
qed simp_all

end
