(* ===== verification/Work_Store.thy ===== *)
theory Work_Store
  imports Js_Points Canonical_Value "HOL-Library.List_Lexorder"
begin

text \<open>
  Work records and the transaction they are read and written in
  (\<^verbatim>\<open>src/domain/orchestration/work-queue.ts\<close>, the tables of
  \<^verbatim>\<open>src/data/orchestration/work-queue-store.ts\<close>, the budget of
  \<^verbatim>\<open>src/application/orchestration/work-queues.ts\<close>).

  A transaction works on the tables of one queue. Its code may throw a refusal at any point, which rolls
  everything back, so a piece of it is a function from the state to either a refusal or a value and
  the next state. Loops that end because the budget runs out carry fuel; running out of fuel is a stop
  of its own (\<open>Out_Of_Fuel\<close>), and \<open>Work_Guarantees\<close> shows that it never happens.
\<close>

section \<open>Records\<close>

type_synonym work_id = js_text

datatype disposition =
    W_Pending | W_Ready | W_Active | W_Waiting | W_Blocked | W_Completion_Claimed | W_Completed
  | W_Cancelled | W_Archived

record work_holder =
  wh_taskId :: js_text
  wh_generation :: js_text
  wh_actor :: js_text

record work_claim =
  wc_generation :: int
  wc_holder :: work_holder
  wc_releasePending :: bool

record work_evidence =
  we_handle :: js_text
  we_generation :: js_text
  we_source :: js_text

datatype execution_state = X_Active | X_Uncertain | X_Settled | X_Fenced

record work_execution =
  wx_id :: js_text
  wx_generation :: js_text
  wx_state :: execution_state

text \<open>A finite number in metadata is the text \<open>JSON.stringify\<close> gives for it.\<close>

datatype meta_value = Meta_Text js_text | Meta_Number js_text | Meta_Bool bool

record work_fields =
  wf_subject :: js_text
  wf_description :: js_text
  wf_objective :: js_text
  wf_activeForm :: "js_text option"
  wf_agentType :: "js_text option"
  wf_metadata :: "(js_text, meta_value) js_map"
  wf_criteria :: "js_text list"

record work_acceptance =
  ac_actor :: js_text
  ac_authority :: js_text
  ac_reason :: js_text
  ac_criteriaRevision :: int

record work_item = work_fields +
  wi_version :: int
  wi_id :: work_id
  wi_queueId :: js_text
  wi_revision :: int
  wi_criteriaRevision :: int
  wi_disposition :: disposition
  wi_previousDisposition :: "disposition option"
  wi_reason :: "js_text option"
  wi_blockers :: "js_text list"
  wi_unresolvedDependencies :: bool
  wi_claimGeneration :: int
  wi_claim :: "work_claim option"
  wi_execution :: "work_execution option"
  wi_evidence :: "work_evidence list"
  wi_acceptance :: "work_acceptance option"
  wi_deleted :: bool
  wi_createdAt :: int
  wi_updatedAt :: int

record work_group =
  wg_version :: int
  wg_id :: work_id
  wg_queueId :: js_text
  wg_revision :: int
  wg_subject :: js_text
  wg_source :: js_text
  wg_sourceGeneration :: js_text
  wg_actor :: js_text
  wg_deleted :: bool
  wg_createdAt :: int
  wg_updatedAt :: int

record work_placement =
  pl_parent :: "work_id option"
  pl_order :: js_text

datatype work_scope_kind = Scope_Memory | Scope_Session | Scope_Session_Global | Scope_Project | Scope_Shared

record work_scope =
  wsc_kind :: work_scope_kind
  wsc_generation :: js_text
  wsc_configurationGeneration :: int
  wsc_workspaceId :: js_text
  wsc_sessionId :: "js_text option"
  wsc_owner :: js_text
  wsc_members :: "js_text list"
  wsc_locator :: js_text

record work_queue =
  wq_version :: int
  wq_id :: js_text
  wq_revision :: int
  wq_scope :: work_scope
  wq_objective :: js_text
  wq_createdAt :: int
  wq_updatedAt :: int

section \<open>Limits and schemas\<close>

definition batch_limit :: nat where "batch_limit = 100"
definition page_limit :: nat where "page_limit = 100"
definition inline_bytes :: nat where "inline_bytes = 16384"
definition record_bytes :: nat where "record_bytes = 32768"
definition depth_limit :: nat where "depth_limit = 32"

definition reference_first :: "code_unit \<Rightarrow> bool" where
  "reference_first u \<longleftrightarrow> 97 \<le> u \<and> u \<le> 122 \<or> 65 \<le> u \<and> u \<le> 90 \<or> 48 \<le> u \<and> u \<le> 57"

definition reference_unit :: "code_unit \<Rightarrow> bool" where
  "reference_unit u \<longleftrightarrow> reference_first u \<or> u \<in> set (ascii ''._:@/-'')"

definition reference_valid :: "js_text \<Rightarrow> bool" where
  "reference_valid s \<longleftrightarrow> 1 \<le> length s \<and> length s \<le> 128 \<and>
     (case s of [] \<Rightarrow> False | u # us \<Rightarrow> reference_first u \<and> list_all reference_unit us)"

definition revision_valid :: "int \<Rightarrow> bool" where
  "revision_valid n \<longleftrightarrow> 0 \<le> n \<and> n \<le> MAX_SAFE_INTEGER - 1"

definition text_valid :: "nat \<Rightarrow> js_text \<Rightarrow> bool" where
  "text_valid least s \<longleftrightarrow> least \<le> length s \<and> length s \<le> inline_bytes"

definition holder_valid :: "work_holder \<Rightarrow> bool" where
  "holder_valid h \<longleftrightarrow> reference_valid (wh_taskId h) \<and> reference_valid (wh_generation h) \<and> reference_valid (wh_actor h)"

definition claim_valid :: "work_claim \<Rightarrow> bool" where
  "claim_valid c \<longleftrightarrow> revision_valid (wc_generation c) \<and> holder_valid (wc_holder c)"

definition evidence_valid :: "work_evidence \<Rightarrow> bool" where
  "evidence_valid e \<longleftrightarrow>
     reference_valid (we_handle e) \<and> reference_valid (we_generation e) \<and> reference_valid (we_source e)"

definition execution_valid :: "work_execution \<Rightarrow> bool" where
  "execution_valid x \<longleftrightarrow> reference_valid (wx_id x) \<and> reference_valid (wx_generation x)"

fun meta_valid :: "meta_value \<Rightarrow> bool" where
  "meta_valid (Meta_Text t) = text_valid 0 t"
| "meta_valid _ = True"

definition metadata_valid :: "(js_text, meta_value) js_map \<Rightarrow> bool" where
  "metadata_valid m \<longleftrightarrow> list_all (\<lambda>(k, v). reference_valid k \<and> meta_valid v) m \<and> length m \<le> 100"

definition fields_valid :: "'a work_fields_scheme \<Rightarrow> bool" where
  "fields_valid f \<longleftrightarrow>
     text_valid 1 (wf_subject f) \<and> text_valid 0 (wf_description f) \<and> text_valid 1 (wf_objective f) \<and>
     pred_option (text_valid 0) (wf_activeForm f) \<and> pred_option reference_valid (wf_agentType f) \<and>
     metadata_valid (wf_metadata f) \<and>
     list_all (text_valid 1) (wf_criteria f) \<and> 1 \<le> length (wf_criteria f) \<and> length (wf_criteria f) \<le> 100"

definition acceptance_valid :: "work_acceptance \<Rightarrow> bool" where
  "acceptance_valid a \<longleftrightarrow> reference_valid (ac_actor a) \<and> reference_valid (ac_authority a) \<and>
     text_valid 0 (ac_reason a) \<and> revision_valid (ac_criteriaRevision a)"

definition item_valid :: "work_item \<Rightarrow> bool" where
  "item_valid i \<longleftrightarrow>
     fields_valid i \<and> wi_version i = 1 \<and> reference_valid (wi_id i) \<and> reference_valid (wi_queueId i) \<and>
     revision_valid (wi_revision i) \<and> revision_valid (wi_criteriaRevision i) \<and>
     pred_option (text_valid 0) (wi_reason i) \<and>
     list_all (text_valid 1) (wi_blockers i) \<and> length (wi_blockers i) \<le> 100 \<and>
     revision_valid (wi_claimGeneration i) \<and> pred_option claim_valid (wi_claim i) \<and>
     pred_option execution_valid (wi_execution i) \<and>
     list_all evidence_valid (wi_evidence i) \<and> length (wi_evidence i) \<le> 100 \<and>
     pred_option acceptance_valid (wi_acceptance i) \<and>
     revision_valid (wi_createdAt i) \<and> revision_valid (wi_updatedAt i)"

definition group_valid :: "work_group \<Rightarrow> bool" where
  "group_valid g \<longleftrightarrow>
     wg_version g = 1 \<and> reference_valid (wg_id g) \<and> reference_valid (wg_queueId g) \<and> revision_valid (wg_revision g) \<and>
     text_valid 1 (wg_subject g) \<and> reference_valid (wg_source g) \<and> reference_valid (wg_sourceGeneration g) \<and>
     reference_valid (wg_actor g) \<and> revision_valid (wg_createdAt g) \<and> revision_valid (wg_updatedAt g)"

definition work_scope_valid :: "work_scope \<Rightarrow> bool" where
  "work_scope_valid c \<longleftrightarrow>
     reference_valid (wsc_generation c) \<and> revision_valid (wsc_configurationGeneration c) \<and> reference_valid (wsc_workspaceId c) \<and>
     pred_option reference_valid (wsc_sessionId c) \<and> reference_valid (wsc_owner c) \<and>
     list_all reference_valid (wsc_members c) \<and> length (wsc_members c) \<le> 100 \<and> reference_valid (wsc_locator c)"

definition queue_valid :: "work_queue \<Rightarrow> bool" where
  "queue_valid q \<longleftrightarrow>
     wq_version q = 1 \<and> reference_valid (wq_id q) \<and> revision_valid (wq_revision q) \<and> work_scope_valid (wq_scope q) \<and>
     text_valid 1 (wq_objective q) \<and> revision_valid (wq_createdAt q) \<and> revision_valid (wq_updatedAt q)"

section \<open>The size of a record\<close>

text \<open>\<open>JSON.stringify\<close> on the arrays and objects of a record.\<close>

definition array_text :: "js_text list \<Rightarrow> js_text" where
  "array_text vs = 91 # join_with 44 vs @ [93]"

definition object_text :: "(js_text \<times> js_text) list \<Rightarrow> js_text" where
  "object_text fs = 123 # join_with 44 (map (\<lambda>(k, v). quote_text k @ 58 # v) fs) @ [125]"

definition nullable_text :: "('a \<Rightarrow> js_text) \<Rightarrow> 'a option \<Rightarrow> js_text" where
  "nullable_text f x = (case x of None \<Rightarrow> ascii ''null'' | Some v \<Rightarrow> f v)"

definition bool_text :: "bool \<Rightarrow> js_text" where
  "bool_text b = (if b then ascii ''true'' else ascii ''false'')"

fun meta_text :: "meta_value \<Rightarrow> js_text" where
  "meta_text (Meta_Text t) = quote_text t"
| "meta_text (Meta_Number t) = t"
| "meta_text (Meta_Bool b) = bool_text b"

definition metadata_text :: "(js_text, meta_value) js_map \<Rightarrow> js_text" where
  "metadata_text m = object_text (map (\<lambda>(k, v). (k, meta_text v)) m)"

fun disposition_name :: "disposition \<Rightarrow> js_text" where
  "disposition_name W_Pending = ascii ''pending''"
| "disposition_name W_Ready = ascii ''ready''"
| "disposition_name W_Active = ascii ''active''"
| "disposition_name W_Waiting = ascii ''waiting''"
| "disposition_name W_Blocked = ascii ''blocked''"
| "disposition_name W_Completion_Claimed = ascii ''completion-claimed''"
| "disposition_name W_Completed = ascii ''completed''"
| "disposition_name W_Cancelled = ascii ''cancelled''"
| "disposition_name W_Archived = ascii ''archived''"

fun execution_name :: "execution_state \<Rightarrow> js_text" where
  "execution_name X_Active = ascii ''active''"
| "execution_name X_Uncertain = ascii ''uncertain''"
| "execution_name X_Settled = ascii ''settled''"
| "execution_name X_Fenced = ascii ''fenced''"

definition holder_text :: "work_holder \<Rightarrow> js_text" where
  "holder_text h = object_text [(ascii ''taskId'', quote_text (wh_taskId h)),
     (ascii ''generation'', quote_text (wh_generation h)), (ascii ''actor'', quote_text (wh_actor h))]"

definition claim_text :: "work_claim \<Rightarrow> js_text" where
  "claim_text c = object_text [(ascii ''generation'', int_text (wc_generation c)),
     (ascii ''holder'', holder_text (wc_holder c)), (ascii ''releasePending'', bool_text (wc_releasePending c))]"

definition evidence_text :: "work_evidence \<Rightarrow> js_text" where
  "evidence_text e = object_text [(ascii ''handle'', quote_text (we_handle e)),
     (ascii ''generation'', quote_text (we_generation e)), (ascii ''source'', quote_text (we_source e))]"

definition execution_text :: "work_execution \<Rightarrow> js_text" where
  "execution_text x = object_text [(ascii ''id'', quote_text (wx_id x)),
     (ascii ''generation'', quote_text (wx_generation x)), (ascii ''state'', quote_text (execution_name (wx_state x)))]"

definition acceptance_text :: "work_acceptance \<Rightarrow> js_text" where
  "acceptance_text a = object_text [(ascii ''actor'', quote_text (ac_actor a)),
     (ascii ''authority'', quote_text (ac_authority a)), (ascii ''reason'', quote_text (ac_reason a)),
     (ascii ''criteriaRevision'', int_text (ac_criteriaRevision a))]"

definition item_text :: "work_item \<Rightarrow> js_text" where
  "item_text i = object_text
     [(ascii ''subject'', quote_text (wf_subject i)), (ascii ''description'', quote_text (wf_description i)),
      (ascii ''objective'', quote_text (wf_objective i)), (ascii ''activeForm'', nullable_text quote_text (wf_activeForm i)),
      (ascii ''agentType'', nullable_text quote_text (wf_agentType i)), (ascii ''metadata'', metadata_text (wf_metadata i)),
      (ascii ''criteria'', array_text (map quote_text (wf_criteria i))), (ascii ''version'', int_text (wi_version i)),
      (ascii ''id'', quote_text (wi_id i)), (ascii ''queueId'', quote_text (wi_queueId i)),
      (ascii ''revision'', int_text (wi_revision i)), (ascii ''criteriaRevision'', int_text (wi_criteriaRevision i)),
      (ascii ''disposition'', quote_text (disposition_name (wi_disposition i))),
      (ascii ''previousDisposition'', nullable_text (\<lambda>d. quote_text (disposition_name d)) (wi_previousDisposition i)),
      (ascii ''reason'', nullable_text quote_text (wi_reason i)),
      (ascii ''blockers'', array_text (map quote_text (wi_blockers i))),
      (ascii ''unresolvedDependencies'', bool_text (wi_unresolvedDependencies i)),
      (ascii ''claimGeneration'', int_text (wi_claimGeneration i)), (ascii ''claim'', nullable_text claim_text (wi_claim i)),
      (ascii ''execution'', nullable_text execution_text (wi_execution i)),
      (ascii ''evidence'', array_text (map evidence_text (wi_evidence i))),
      (ascii ''acceptance'', nullable_text acceptance_text (wi_acceptance i)), (ascii ''deleted'', bool_text (wi_deleted i)),
      (ascii ''createdAt'', int_text (wi_createdAt i)), (ascii ''updatedAt'', int_text (wi_updatedAt i))]"

definition inline_text :: "work_item \<Rightarrow> js_text" where
  "inline_text i = array_text
     [quote_text (wf_subject i), quote_text (wf_description i), quote_text (wf_objective i),
      nullable_text quote_text (wf_activeForm i), array_text (map quote_text (wf_criteria i)),
      array_text (map quote_text (wi_blockers i)), nullable_text quote_text (wi_reason i), metadata_text (wf_metadata i)]"

definition group_text :: "work_group \<Rightarrow> js_text" where
  "group_text g = object_text
     [(ascii ''version'', int_text (wg_version g)), (ascii ''kind'', quote_text (ascii ''group'')),
      (ascii ''id'', quote_text (wg_id g)), (ascii ''queueId'', quote_text (wg_queueId g)),
      (ascii ''revision'', int_text (wg_revision g)), (ascii ''subject'', quote_text (wg_subject g)),
      (ascii ''source'', quote_text (wg_source g)), (ascii ''sourceGeneration'', quote_text (wg_sourceGeneration g)),
      (ascii ''actor'', quote_text (wg_actor g)), (ascii ''deleted'', bool_text (wg_deleted g)),
      (ascii ''createdAt'', int_text (wg_createdAt g)), (ascii ''updatedAt'', int_text (wg_updatedAt g))]"

lemma pred_option_code [code]: "pred_option P None \<longleftrightarrow> True" "pred_option P (Some x) \<longleftrightarrow> P x"
  by simp_all

section \<open>Refusals\<close>

datatype refusal_code =
    Malformed | Unsupported | Unavailable | Denied | Cancelled_Operation | Conflicting_Revision
  | Conflicting_Identity | Invalid_Dependency | Invalid_Hierarchy | Blocked_Transition | Stale_Evidence
  | Stale_Page | Resource_Exhausted | Corrupt | Recovery_Required

datatype refusal_dimension =
  Request_Bytes | Response_Bytes | Inline_Bytes | Validation_Budget | Storage_Space | Admission_Capacity

record work_error =
  er_code :: refusal_code
  er_currentRevision :: "int option"
  er_dimension :: "refusal_dimension option"
  er_incomplete :: bool

definition work_refusal :: "refusal_code \<Rightarrow> work_error" where
  "work_refusal code = \<lparr>er_code = code, er_currentRevision = None, er_dimension = None, er_incomplete = False\<rparr>"

definition exhausted :: "refusal_dimension \<Rightarrow> bool \<Rightarrow> work_error" where
  "exhausted dim incomplete = \<lparr>er_code = Resource_Exhausted, er_currentRevision = None, er_dimension = Some dim,
     er_incomplete = incomplete\<rparr>"

datatype work_stop = Refused work_error | Out_Of_Fuel

section \<open>Tables, transactions and their state\<close>

record work_tables =
  wt_items :: "(work_id, work_item) js_map"
  wt_groups :: "(work_id, work_group) js_map"
  wt_edges :: "(work_id \<times> work_id) list"
  wt_placements :: "(work_id, work_placement) js_map"

text \<open>What \<open>perform\<close> keeps while it applies a batch: the budget and the records it has changed.\<close>

record work_state =
  ws_tables :: work_tables
  ws_checks :: nat
  ws_steps :: nat
  ws_changed :: "work_id list"
  ws_before :: "(work_id, work_item option) js_map"
  ws_groups :: "work_id list"
  ws_affected :: "work_id list"
  ws_placed :: bool

text \<open>
  The host's authority for one request (\<open>WorkQueueAuthority\<close>). The answer to \<open>authorize\<close> may change
  between two calls, so it also depends on the number of checks so far.
\<close>

datatype work_verdict = Verdict_Accept | Verdict_Refuse

datatype work_access = Read_Access | Create_Access | Mutate_Access

record work_authority =
  wa_actor :: js_text
  wa_sessionId :: js_text
  wa_workspaceId :: js_text
  wa_persistentSession :: bool
  wa_authorize :: "nat \<Rightarrow> work_queue \<Rightarrow> work_access \<Rightarrow> bool"
  wa_registeredAgent :: "js_text \<Rightarrow> bool"
  wa_sourceAvailable :: "js_text \<Rightarrow> js_text \<Rightarrow> bool"
  wa_admitHolder :: "work_holder \<Rightarrow> bool"
  wa_observeExecution :: "work_item \<Rightarrow> work_execution option"
  wa_validateCompletion :: "work_queue \<Rightarrow> work_item \<Rightarrow> js_text \<Rightarrow> work_verdict \<Rightarrow> js_text \<Rightarrow> bool"

text \<open>
  The environment of one request. \<open>en_aborted n\<close> and \<open>en_expired n\<close> are what the signal and the clock say
  at the \<open>n\<close>-th check; \<open>en_stepLimit\<close> is the smaller of the fixed and the configured number of steps.
\<close>

record work_env =
  en_authority :: work_authority
  en_aborted :: "nat \<Rightarrow> bool"
  en_expired :: "nat \<Rightarrow> bool"
  en_stepLimit :: nat
  en_at :: int

type_synonym 'a work = "work_state \<Rightarrow> work_stop + 'a \<times> work_state"

definition give :: "'a \<Rightarrow> 'a work" where
  "give x s = Inr (x, s)"

definition stop :: "work_stop \<Rightarrow> 'a work" where
  "stop e s = Inl e"

abbreviation refuseWork :: "refusal_code \<Rightarrow> 'a work" where
  "refuseWork code \<equiv> stop (Refused (work_refusal code))"

definition andThen :: "'a work \<Rightarrow> ('a \<Rightarrow> 'b work) \<Rightarrow> 'b work" where
  "andThen m f s = (case m s of Inl e \<Rightarrow> Inl e | Inr (x, s') \<Rightarrow> f x s')"

definition require :: "bool \<Rightarrow> work_stop \<Rightarrow> unit work" where
  "require ok e = (if ok then give () else stop e)"

definition reading :: "(work_tables \<Rightarrow> 'a) \<Rightarrow> 'a work" where
  "reading f s = Inr (f (ws_tables s), s)"

definition writing :: "(work_tables \<Rightarrow> work_tables) \<Rightarrow> unit work" where
  "writing f s = Inr ((), s\<lparr>ws_tables := f (ws_tables s)\<rparr>)"

definition noting :: "(work_state \<Rightarrow> work_state) \<Rightarrow> unit work" where
  "noting f s = Inr ((), f s)"

section \<open>The budget\<close>

definition check :: "work_env \<Rightarrow> unit work" where
  "check env s =
     (if en_aborted env (ws_checks s) then Inl (Refused (work_refusal Cancelled_Operation))
      else if en_expired env (ws_checks s) then Inl (Refused (exhausted Validation_Budget True))
      else Inr ((), s\<lparr>ws_checks := ws_checks s + 1\<rparr>))"

definition step :: "work_env \<Rightarrow> unit work" where
  "step env = andThen (check env) (\<lambda>_ s.
     if ws_steps s + 1 > en_stepLimit env then Inl (Refused (exhausted Validation_Budget True))
     else Inr ((), s\<lparr>ws_steps := ws_steps s + 1\<rparr>))"

section \<open>The tables\<close>

definition item_row :: "work_tables \<Rightarrow> work_id \<Rightarrow> work_item option" where
  "item_row t i = js_get (wt_items t) i"

definition group_row :: "work_tables \<Rightarrow> work_id \<Rightarrow> work_group option" where
  "group_row t i = js_get (wt_groups t) i"

definition putItem :: "work_item \<Rightarrow> work_tables \<Rightarrow> work_tables" where
  "putItem i t = t\<lparr>wt_items := js_set (wi_id i) i (wt_items t)\<rparr>"

definition putGroup :: "work_group \<Rightarrow> work_tables \<Rightarrow> work_tables" where
  "putGroup g t = t\<lparr>wt_groups := js_set (wg_id g) g (wt_groups t)\<rparr>"

definition setPlacement :: "work_id \<Rightarrow> work_placement \<Rightarrow> work_tables \<Rightarrow> work_tables" where
  "setPlacement node p t = t\<lparr>wt_placements := js_set node p (wt_placements t)\<rparr>"

datatype edge_direction = Dependencies | Dependents

definition edge_targets :: "work_tables \<Rightarrow> work_id \<Rightarrow> edge_direction \<Rightarrow> work_id list" where
  "edge_targets t i dir = (case dir of
       Dependencies \<Rightarrow> map snd (filter (\<lambda>e. fst e = i) (wt_edges t))
     | Dependents \<Rightarrow> map fst (filter (\<lambda>e. snd e = i) (wt_edges t)))"

text \<open>A page: the targets after a cursor, in order, at most a hundred.\<close>

definition edge_page :: "work_tables \<Rightarrow> work_id \<Rightarrow> edge_direction \<Rightarrow> js_text \<Rightarrow> work_id list" where
  "edge_page t i dir after = take page_limit (sort (filter (\<lambda>x. after < x) (edge_targets t i dir)))"

definition setEdge :: "work_id \<times> work_id \<Rightarrow> bool \<Rightarrow> work_tables \<Rightarrow> work_tables" where
  "setEdge e present t = t\<lparr>wt_edges :=
     (if present then if e \<in> set (wt_edges t) then wt_edges t else wt_edges t @ [e]
      else filter (\<lambda>e'. e' \<noteq> e) (wt_edges t))\<rparr>"

end
