(* ===== verification/Work_Items.thy ===== *)
theory Work_Items
  imports Work_Store Dependency_Graph
begin

text \<open>
  The mutations of work items (\<^verbatim>\<open>src/domain/orchestration/work-queue-mutations.ts\<close>) with the requests
  that carry them (\<^verbatim>\<open>work-queue-requests.ts\<close>) and the \<open>save\<close> of \<open>perform\<close>
  (\<^verbatim>\<open>src/application/orchestration/work-queues.ts\<close>). Generators over stored edges are cursors: \<open>next_edge\<close>
  is one call of the iterator's \<open>next\<close>, with the budget steps it takes.
\<close>

section \<open>Requests\<close>

text \<open>An absent field of an update keeps its value; \<open>null\<close> clears the nullable ones.\<close>

record update_fields =
  uf_subject :: "js_text option"
  uf_description :: "js_text option"
  uf_objective :: "js_text option"
  uf_activeForm :: "js_text option option"
  uf_agentType :: "js_text option option"
  uf_metadata :: "(js_text, meta_value option) js_map option"
  uf_criteria :: "js_text list option"

datatype work_mutation =
    Op_Add work_id work_fields
  | Op_Update work_id update_fields
  | Op_Link work_id work_id
  | Op_Unlink work_id work_id
  | Op_Blockers work_id "js_text list"
  | Op_Disposition work_id disposition js_text
  | Op_Claim work_id work_holder
  | Op_Release work_id
  | Op_Reconcile work_id
  | Op_Cancel work_id
  | Op_Archive work_id
  | Op_Delete work_id
  | Op_Submit work_id int int "work_evidence list"
  | Op_Validate work_id int int int "work_evidence list" js_text work_verdict js_text

definition update_valid :: "update_fields \<Rightarrow> bool" where
  "update_valid u \<longleftrightarrow>
     pred_option (text_valid 1) (uf_subject u) \<and> pred_option (text_valid 0) (uf_description u) \<and>
     pred_option (text_valid 1) (uf_objective u) \<and> pred_option (pred_option (text_valid 0)) (uf_activeForm u) \<and>
     pred_option (pred_option reference_valid) (uf_agentType u) \<and>
     pred_option (list_all (\<lambda>(k, v). reference_valid k \<and> pred_option meta_valid v)) (uf_metadata u) \<and>
     pred_option (\<lambda>c. list_all (text_valid 1) c \<and> 1 \<le> length c \<and> length c \<le> 100) (uf_criteria u)"

definition evidence_list_valid :: "work_evidence list \<Rightarrow> bool" where
  "evidence_list_valid es \<longleftrightarrow> list_all evidence_valid es \<and> 1 \<le> length es \<and> length es \<le> 100"

definition reason_valid :: "js_text \<Rightarrow> bool" where
  "reason_valid r \<longleftrightarrow> 1 \<le> length r \<and> length r \<le> 512"

fun mutation_valid :: "work_mutation \<Rightarrow> bool" where
  "mutation_valid (Op_Add i f) \<longleftrightarrow> reference_valid i \<and> fields_valid f"
| "mutation_valid (Op_Update i u) \<longleftrightarrow> reference_valid i \<and> update_valid u"
| "mutation_valid (Op_Link i d) \<longleftrightarrow> reference_valid i \<and> reference_valid d"
| "mutation_valid (Op_Unlink i d) \<longleftrightarrow> reference_valid i \<and> reference_valid d"
| "mutation_valid (Op_Blockers i bs) \<longleftrightarrow> reference_valid i \<and> list_all (text_valid 1) bs \<and> length bs \<le> 100"
| "mutation_valid (Op_Disposition i d r) \<longleftrightarrow>
     reference_valid i \<and> d \<in> set [W_Pending, W_Ready, W_Active, W_Waiting, W_Blocked] \<and> reason_valid r"
| "mutation_valid (Op_Claim i h) \<longleftrightarrow> reference_valid i \<and> holder_valid h"
| "mutation_valid (Op_Release i) \<longleftrightarrow> reference_valid i"
| "mutation_valid (Op_Reconcile i) \<longleftrightarrow> reference_valid i"
| "mutation_valid (Op_Cancel i) \<longleftrightarrow> reference_valid i"
| "mutation_valid (Op_Archive i) \<longleftrightarrow> reference_valid i"
| "mutation_valid (Op_Delete i) \<longleftrightarrow> reference_valid i"
| "mutation_valid (Op_Submit i g c es) \<longleftrightarrow>
     reference_valid i \<and> revision_valid g \<and> revision_valid c \<and> evidence_list_valid es"
| "mutation_valid (Op_Validate i r g c es a v reason) \<longleftrightarrow>
     reference_valid i \<and> revision_valid r \<and> revision_valid g \<and> revision_valid c \<and> evidence_list_valid es \<and>
     reference_valid a \<and> reason_valid reason"

fun mutation_item :: "work_mutation \<Rightarrow> work_id" where
  "mutation_item (Op_Add i _) = i"
| "mutation_item (Op_Update i _) = i"
| "mutation_item (Op_Link i _) = i"
| "mutation_item (Op_Unlink i _) = i"
| "mutation_item (Op_Blockers i _) = i"
| "mutation_item (Op_Disposition i _ _) = i"
| "mutation_item (Op_Claim i _) = i"
| "mutation_item (Op_Release i) = i"
| "mutation_item (Op_Reconcile i) = i"
| "mutation_item (Op_Cancel i) = i"
| "mutation_item (Op_Archive i) = i"
| "mutation_item (Op_Delete i) = i"
| "mutation_item (Op_Submit i _ _ _) = i"
| "mutation_item (Op_Validate i _ _ _ _ _ _ _) = i"

section \<open>Walking the edges\<close>

text \<open>The iterator of \<open>workEdges\<close>: what is left of the page, the last edge yielded, whether a page may follow.\<close>

record edge_cursor =
  ec_left :: "work_id list"
  ec_after :: js_text
  ec_more :: bool

definition start_cursor :: edge_cursor where
  "start_cursor = \<lparr>ec_left = [], ec_after = [], ec_more = True\<rparr>"

definition yield_edge :: "work_env \<Rightarrow> work_id \<Rightarrow> work_id list \<Rightarrow> bool \<Rightarrow> (work_id option \<times> edge_cursor) work" where
  "yield_edge env x rest again =
     andThen (step env) (\<lambda>_. give (Some x, \<lparr>ec_left = rest, ec_after = x, ec_more = again\<rparr>))"

definition next_edge :: "work_env \<Rightarrow> work_id \<Rightarrow> edge_direction \<Rightarrow> edge_cursor \<Rightarrow> (work_id option \<times> edge_cursor) work" where
  "next_edge env i dir c =
     (case ec_left c of
        x # rest \<Rightarrow> yield_edge env x rest (ec_more c)
      | [] \<Rightarrow>
          if \<not> ec_more c then give (None, c)
          else andThen (step env) (\<lambda>_.
               andThen (reading (\<lambda>t. edge_page t i dir (ec_after c))) (\<lambda>page.
               case page of
                 [] \<Rightarrow> give (None, c\<lparr>ec_more := False\<rparr>)
               | x # rest \<Rightarrow> yield_edge env x rest (page_limit \<le> length page))))"

text \<open>
  A \<open>for\<close> loop over the iterator: the body gets the value carried along and says whether to go on. The
  iterator takes a step for each edge, so the step limit bounds the rounds.
\<close>

fun edge_loop :: "work_env \<Rightarrow> work_id \<Rightarrow> edge_direction \<Rightarrow> (work_id \<Rightarrow> 'a \<Rightarrow> ('a \<times> bool) work) \<Rightarrow>
    nat \<Rightarrow> edge_cursor \<Rightarrow> 'a \<Rightarrow> 'a work" where
  "edge_loop env i dir body 0 c acc = stop Out_Of_Fuel"
| "edge_loop env i dir body (Suc fuel) c acc =
     andThen (next_edge env i dir c) (\<lambda>(found, c').
       case found of
         None \<Rightarrow> give acc
       | Some x \<Rightarrow> andThen (body x acc) (\<lambda>(acc', go).
           if go then edge_loop env i dir body fuel c' acc' else give acc'))"

definition each_edge :: "work_env \<Rightarrow> work_id \<Rightarrow> edge_direction \<Rightarrow> (work_id \<Rightarrow> 'a \<Rightarrow> ('a \<times> bool) work) \<Rightarrow> 'a \<Rightarrow> 'a work" where
  "each_edge env i dir body acc = edge_loop env i dir body (en_stepLimit env + 2) start_cursor acc"

definition eachWorkEdge :: "work_env \<Rightarrow> work_id \<Rightarrow> edge_direction \<Rightarrow> (work_id \<Rightarrow> unit work) \<Rightarrow> unit work" where
  "eachWorkEdge env i dir visit = each_edge env i dir (\<lambda>x _. andThen (visit x) (\<lambda>_. give ((), True))) ()"

section \<open>Conditions\<close>

definition completedWork :: "work_item \<Rightarrow> bool" where
  "completedWork i \<longleftrightarrow> \<not> wi_deleted i \<and>
     (wi_disposition i = W_Completed \<or>
      wi_disposition i = W_Archived \<and> wi_previousDisposition i = Some W_Completed) \<and>
     wi_acceptance i \<noteq> None"

definition live :: "work_item option \<Rightarrow> work_item work" where
  "live found = (case found of None \<Rightarrow> refuseWork Invalid_Dependency
     | Some i \<Rightarrow> if wi_deleted i then refuseWork Invalid_Dependency else give i)"

definition live_item :: "work_id \<Rightarrow> work_item work" where
  "live_item i = andThen (reading (\<lambda>t. item_row t i)) live"

definition requireReady :: "work_env \<Rightarrow> work_item \<Rightarrow> unit work" where
  "requireReady env item =
     (if wi_blockers item \<noteq> [] \<or> wi_unresolvedDependencies item then refuseWork Blocked_Transition
      else andThen (each_edge env (wi_id item) Dependencies
             (\<lambda>x _. andThen (live_item x) (\<lambda>d. give (completedWork d, completedWork d))) True)
           (\<lambda>satisfied. require satisfied (Refused (work_refusal Blocked_Transition))))"

definition stopped_execution :: "work_execution \<Rightarrow> bool" where
  "stopped_execution x \<longleftrightarrow> wx_state x = X_Settled \<or> wx_state x = X_Fenced"

definition observed_stop :: "work_execution option \<Rightarrow> bool" where
  "observed_stop observation = (case observation of None \<Rightarrow> False | Some x \<Rightarrow> stopped_execution x)"

definition idle :: "work_item \<Rightarrow> bool" where
  "idle item \<longleftrightarrow> wi_claim item = None \<and> pred_option stopped_execution (wi_execution item)"

definition requireIdle :: "work_item \<Rightarrow> unit work" where
  "requireIdle item = require (idle item) (Refused (work_refusal Blocked_Transition))"

definition unchangeable :: "work_item \<Rightarrow> bool" where
  "unchangeable item \<longleftrightarrow>
     wi_deleted item \<or> wi_disposition item \<in> set [W_Completed, W_Cancelled, W_Archived]"

definition mutable :: "work_item \<Rightarrow> unit work" where
  "mutable item = require (\<not> unchangeable item) (Refused (work_refusal Blocked_Transition))"

definition validateWorkItem :: "work_item \<Rightarrow> unit work" where
  "validateWorkItem item =
     andThen (require (item_valid item) (Refused (work_refusal Malformed))) (\<lambda>_.
       require (byteLength (inline_text item) \<le> inline_bytes \<and> byteLength (item_text item) \<le> record_bytes)
         (Refused (exhausted Inline_Bytes False)))"

section \<open>Saving an item\<close>

definition note_changed :: "work_id \<Rightarrow> work_state \<Rightarrow> work_state" where
  "note_changed i s = s
     \<lparr>ws_before := (if js_has (ws_before s) i then ws_before s else js_set i (item_row (ws_tables s) i) (ws_before s)),
      ws_changed := (if i \<in> set (ws_changed s) then ws_changed s else ws_changed s @ [i])\<rparr>"

definition within_batch :: "(work_state \<Rightarrow> work_id list) \<Rightarrow> unit work" where
  "within_batch ids s = (if length (ids s) > batch_limit then Inl (Refused (exhausted Validation_Budget True)) else Inr ((), s))"

definition save :: "work_env \<Rightarrow> work_item \<Rightarrow> unit work" where
  "save env item =
     andThen (check env) (\<lambda>_.
     andThen (validateWorkItem item) (\<lambda>_.
     andThen (noting (note_changed (wi_id item))) (\<lambda>_.
     andThen (within_batch ws_changed) (\<lambda>_.
     writing (putItem item)))))"

definition finish_item :: "work_env \<Rightarrow> work_queue \<Rightarrow> work_item \<Rightarrow> unit work" where
  "finish_item env queue item = save env (item\<lparr>wi_revision := wq_revision queue + 1, wi_updatedAt := en_at env\<rparr>)"

section \<open>Looking for a cycle before linking\<close>

text \<open>The iterator of \<open>dependencies\<close>: the edge to be added first, where the search is at the item itself.\<close>

type_synonym link_cursor = "work_id option \<times> edge_cursor"
type_synonym link_frames = "(work_id \<times> link_cursor) list"

definition enter_link :: "work_id \<Rightarrow> work_id \<Rightarrow> work_id \<Rightarrow> work_id \<times> link_cursor" where
  "enter_link item dependency i = (i, (if i = item then Some dependency else None), start_cursor)"

definition next_link :: "work_env \<Rightarrow> work_id \<Rightarrow> link_cursor \<Rightarrow> (work_id option \<times> link_cursor) work" where
  "next_link env i c =
     (case fst c of
        Some d \<Rightarrow> give (Some d, (None, snd c))
      | None \<Rightarrow> andThen (next_edge env i Dependencies (snd c)) (\<lambda>(found, c'). give (found, (None, c'))))"

fun link_loop :: "work_env \<Rightarrow> work_id \<Rightarrow> work_id \<Rightarrow> nat \<Rightarrow> work_id marks \<Rightarrow> link_frames \<Rightarrow> work_id list option work" where
  "link_loop env item dependency 0 state frames = stop Out_Of_Fuel"
| "link_loop env item dependency (Suc fuel) state frames =
     (case frames of
        [] \<Rightarrow> give None
      | (i, c) # rest \<Rightarrow>
          andThen (next_link env i c) (\<lambda>(found, c').
            case found of
              None \<Rightarrow> link_loop env item dependency fuel (js_set i Finished state) rest
            | Some next \<Rightarrow>
                if js_get state next = Some Finished
                then link_loop env item dependency fuel state ((i, c') # rest)
                else if js_get state next = Some Visiting
                then give (Some (cycle_of next (map (\<lambda>f. (fst f, [])) ((i, c') # rest))))
                else link_loop env item dependency fuel (js_set next Visiting state)
                       (enter_link item dependency next # (i, c') # rest)))"

definition link_cycle :: "work_env \<Rightarrow> work_id \<Rightarrow> work_id \<Rightarrow> work_id list option work" where
  "link_cycle env item dependency =
     link_loop env item dependency (2 * en_stepLimit env + 6) (js_set item Visiting []) [enter_link item dependency item]"

section \<open>The mutations\<close>

definition new_item :: "work_queue \<Rightarrow> int \<Rightarrow> work_id \<Rightarrow> work_fields \<Rightarrow> work_item" where
  "new_item queue now i f =
     \<lparr>wf_subject = wf_subject f, wf_description = wf_description f, wf_objective = wf_objective f,
      wf_activeForm = wf_activeForm f, wf_agentType = wf_agentType f, wf_metadata = wf_metadata f,
      wf_criteria = wf_criteria f, wi_version = 1, wi_id = i, wi_queueId = wq_id queue,
      wi_revision = wq_revision queue + 1, wi_criteriaRevision = 1, wi_disposition = W_Pending,
      wi_previousDisposition = None, wi_reason = None, wi_blockers = [], wi_unresolvedDependencies = False,
      wi_claimGeneration = 0, wi_claim = None, wi_execution = None, wi_evidence = [], wi_acceptance = None,
      wi_deleted = False, wi_createdAt = now, wi_updatedAt = now\<rparr>"

definition add_item :: "work_env \<Rightarrow> work_queue \<Rightarrow> work_item option \<Rightarrow> work_id \<Rightarrow> work_fields \<Rightarrow> unit work" where
  "add_item env queue found i f =
     andThen (reading (\<lambda>t. group_row t i)) (\<lambda>grp.
     if found \<noteq> None \<or> grp \<noteq> None then refuseWork Conflicting_Identity
     else if \<not> pred_option (wa_registeredAgent (en_authority env)) (wf_agentType f) then refuseWork Unsupported
     else save env (new_item queue (en_at env) i f))"

definition merge_metadata :: "(js_text, meta_value option) js_map \<Rightarrow> (js_text, meta_value) js_map \<Rightarrow> (js_text, meta_value) js_map" where
  "merge_metadata changes m =
     fold (\<lambda>(k, v) m. case v of None \<Rightarrow> js_delete k m | Some x \<Rightarrow> js_set k x m) changes m"

definition changes_meaning :: "update_fields \<Rightarrow> bool" where
  "changes_meaning u \<longleftrightarrow> uf_criteria u \<noteq> None \<or> uf_objective u \<noteq> None \<or> uf_description u \<noteq> None \<or>
     uf_subject u \<noteq> None \<or> uf_agentType u \<noteq> None"

definition or_else :: "'a option \<Rightarrow> 'a \<Rightarrow> 'a" where
  "or_else x d = (case x of None \<Rightarrow> d | Some v \<Rightarrow> v)"

definition updated_item :: "update_fields \<Rightarrow> work_item \<Rightarrow> work_item" where
  "updated_item u item =
     (let item = item
        \<lparr>wf_subject := or_else (uf_subject u) (wf_subject item),
         wf_description := or_else (uf_description u) (wf_description item),
         wf_objective := or_else (uf_objective u) (wf_objective item),
         wf_activeForm := or_else (uf_activeForm u) (wf_activeForm item),
         wf_agentType := or_else (uf_agentType u) (wf_agentType item),
         wf_criteria := or_else (uf_criteria u) (wf_criteria item),
         wf_metadata := merge_metadata (or_else (uf_metadata u) []) (wf_metadata item)\<rparr>
      in if changes_meaning u then item
           \<lparr>wi_criteriaRevision := wi_criteriaRevision item + 1,
            wi_unresolvedDependencies := (if uf_criteria u = None then wi_unresolvedDependencies item else False),
            wi_evidence := [], wi_acceptance := None, wi_disposition := W_Pending\<rparr>
         else item)"

definition update_item :: "work_env \<Rightarrow> work_queue \<Rightarrow> work_item \<Rightarrow> update_fields \<Rightarrow> unit work" where
  "update_item env queue item u =
     andThen (mutable item) (\<lambda>_.
     if \<not> pred_option (pred_option (wa_registeredAgent (en_authority env))) (uf_agentType u) then refuseWork Unsupported
     else andThen (if changes_meaning u then requireIdle item else give ()) (\<lambda>_.
     finish_item env queue (updated_item u item)))"

definition set_link :: "work_env \<Rightarrow> work_queue \<Rightarrow> work_item \<Rightarrow> work_id \<Rightarrow> bool \<Rightarrow> unit work" where
  "set_link env queue item dep linking =
     andThen (mutable item) (\<lambda>_.
     andThen (requireIdle item) (\<lambda>_.
     andThen (live_item dep) (\<lambda>dependency.
     if dep = wi_id item then refuseWork Invalid_Dependency
     else
       andThen (if linking then give True
                else each_edge env (wi_id item) Dependencies (\<lambda>x ex. give (ex \<or> x = wi_id dependency, True)) False) (\<lambda>ex.
       if \<not> ex then refuseWork Invalid_Dependency
       else
         andThen (if linking then link_cycle env (wi_id item) (wi_id dependency) else give None) (\<lambda>cycle.
         if cycle \<noteq> None then refuseWork Invalid_Dependency
         else
           andThen (writing (setEdge (wi_id item, wi_id dependency) linking)) (\<lambda>_.
           finish_item env queue (item\<lparr>wi_disposition := W_Pending, wi_evidence := [], wi_acceptance := None,
             wi_unresolvedDependencies :=
               (wi_unresolvedDependencies item \<or> \<not> linking \<and> \<not> completedWork dependency)\<rparr>)))))))"

definition held_disposition :: "work_item \<Rightarrow> disposition option" where
  "held_disposition item = Some (if wi_disposition item = W_Ready then W_Ready else W_Pending)"

definition set_blockers :: "work_env \<Rightarrow> work_queue \<Rightarrow> work_item \<Rightarrow> js_text list \<Rightarrow> unit work" where
  "set_blockers env queue item bs =
     andThen (mutable item) (\<lambda>_.
     andThen (requireIdle item) (\<lambda>_.
     finish_item env queue (item\<lparr>wi_blockers := bs, wi_disposition := (if bs \<noteq> [] then W_Blocked else W_Pending),
       wi_previousDisposition := (if bs \<noteq> [] then held_disposition item else None), wi_evidence := [],
       wi_reason := (case bs of [] \<Rightarrow> None | b # _ \<Rightarrow> Some b)\<rparr>)))"

definition set_disposition :: "work_env \<Rightarrow> work_queue \<Rightarrow> work_item \<Rightarrow> disposition \<Rightarrow> js_text \<Rightarrow> unit work" where
  "set_disposition env queue item val reason =
     andThen (mutable item) (\<lambda>_.
     andThen (if val \<in> set [W_Ready, W_Active] then requireReady env item else give ()) (\<lambda>_.
     if val = W_Active \<and> (case wi_claim item of None \<Rightarrow> True
          | Some c \<Rightarrow> wc_releasePending c \<or> \<not> wa_admitHolder (en_authority env) (wc_holder c))
     then refuseWork Denied
     else andThen (if val \<noteq> W_Active then requireIdle item else give ()) (\<lambda>_.
     finish_item env queue (item\<lparr>wi_disposition := val, wi_reason := Some reason,
       wi_previousDisposition := (if val \<in> set [W_Waiting, W_Blocked] then held_disposition item else None)\<rparr>))))"

definition claim_item :: "work_env \<Rightarrow> work_queue \<Rightarrow> work_item \<Rightarrow> work_holder \<Rightarrow> unit work" where
  "claim_item env queue item holder =
     andThen (mutable item) (\<lambda>_.
     andThen (requireIdle item) (\<lambda>_.
     andThen (requireReady env item) (\<lambda>_.
     if \<not> wa_admitHolder (en_authority env) holder then refuseWork Denied
     else finish_item env queue (item\<lparr>wi_disposition := W_Active, wi_claimGeneration := wi_claimGeneration item + 1,
       wi_claim := Some \<lparr>wc_generation = wi_claimGeneration item + 1, wc_holder = holder, wc_releasePending = False\<rparr>,
       wi_execution := None, wi_evidence := [], wi_acceptance := None\<rparr>))))"

definition other_execution :: "work_execution option \<Rightarrow> work_execution option \<Rightarrow> bool" where
  "other_execution observation known = (case (observation, known) of
     (Some o1, Some k) \<Rightarrow> wx_id o1 \<noteq> wx_id k \<or> wx_generation o1 \<noteq> wx_generation k | _ \<Rightarrow> False)"

definition release_item :: "work_env \<Rightarrow> work_queue \<Rightarrow> work_item \<Rightarrow> bool \<Rightarrow> unit work" where
  "release_item env queue item releasing =
     (case wi_claim item of
        None \<Rightarrow> refuseWork Blocked_Transition
      | Some claim \<Rightarrow>
          let observation = wa_observeExecution (en_authority env) item;
              stopped = observed_stop observation
          in if other_execution observation (wi_execution item) then refuseWork Stale_Evidence
             else if releasing \<and> wh_actor (wc_holder claim) \<noteq> wa_actor (en_authority env) then refuseWork Denied
             else finish_item env queue (item
               \<lparr>wi_execution := (if observation = None then wi_execution item else observation),
                wi_claim := (if stopped then None else Some (claim\<lparr>wc_releasePending := True\<rparr>)),
                wi_disposition := (if wi_disposition item = W_Cancelled then W_Cancelled
                                   else if stopped then W_Pending else W_Waiting),
                wi_reason := Some (if stopped then ascii ''execution-settled''
                                   else ascii ''execution-reconciliation-required'')\<rparr>))"

definition submit_item :: "work_env \<Rightarrow> work_queue \<Rightarrow> work_item \<Rightarrow> int \<Rightarrow> int \<Rightarrow> work_evidence list \<Rightarrow> unit work" where
  "submit_item env queue item claimGeneration criteriaRevision ev =
     andThen (mutable item) (\<lambda>_.
     andThen (requireReady env item) (\<lambda>_.
     if claimGeneration \<noteq> wi_claimGeneration item \<or> criteriaRevision \<noteq> wi_criteriaRevision item \<or>
        (case wi_claim item of None \<Rightarrow> False
         | Some c \<Rightarrow> wh_actor (wc_holder c) \<noteq> wa_actor (en_authority env) \<or> wc_releasePending c)
     then refuseWork Stale_Evidence
     else finish_item env queue (item\<lparr>wi_disposition := W_Completion_Claimed, wi_evidence := ev\<rparr>)))"

definition validate_item :: "work_env \<Rightarrow> work_queue \<Rightarrow> work_item \<Rightarrow> int \<Rightarrow> int \<Rightarrow> int \<Rightarrow> work_evidence list \<Rightarrow>
    js_text \<Rightarrow> work_verdict \<Rightarrow> js_text \<Rightarrow> unit work" where
  "validate_item env queue item itemRevision claimGeneration criteriaRevision ev auth verdict reason =
     andThen (requireReady env item) (\<lambda>_.
     if wi_disposition item \<noteq> W_Completion_Claimed \<or> itemRevision \<noteq> wi_revision item \<or>
        claimGeneration \<noteq> wi_claimGeneration item \<or> criteriaRevision \<noteq> wi_criteriaRevision item \<or>
        ev \<noteq> wi_evidence item
     then refuseWork Stale_Evidence
     else if \<not> wa_validateCompletion (en_authority env) queue item auth verdict reason then refuseWork Denied
     else if verdict = Verdict_Refuse then finish_item env queue (item\<lparr>wi_reason := Some reason\<rparr>)
     else
       let observation = (if wi_claim item = None then wi_execution item else wa_observeExecution (en_authority env) item)
       in if wi_claim item \<noteq> None \<and> \<not> observed_stop observation
          then refuseWork Blocked_Transition
          else if other_execution observation (wi_execution item) then refuseWork Stale_Evidence
          else finish_item env queue (item
            \<lparr>wi_disposition := W_Completed, wi_claim := None, wi_execution := observation,
             wi_acceptance := Some \<lparr>ac_actor = wa_actor (en_authority env), ac_authority = auth, ac_reason = reason,
               ac_criteriaRevision = wi_criteriaRevision item\<rparr>\<rparr>))"

definition cancel_item :: "work_env \<Rightarrow> work_queue \<Rightarrow> work_item \<Rightarrow> unit work" where
  "cancel_item env queue item =
     andThen (mutable item) (\<lambda>_.
     finish_item env queue (item\<lparr>wi_disposition := W_Cancelled, wi_reason := Some (ascii ''record-cancelled'')\<rparr>))"

definition archive_item :: "work_env \<Rightarrow> work_queue \<Rightarrow> work_item \<Rightarrow> unit work" where
  "archive_item env queue item =
     andThen (requireIdle item) (\<lambda>_.
     if wi_disposition item \<notin> set [W_Completed, W_Cancelled] then refuseWork Blocked_Transition
     else finish_item env queue (item\<lparr>wi_disposition := W_Archived, wi_previousDisposition := Some (wi_disposition item)\<rparr>))"

definition orphan :: "work_env \<Rightarrow> work_queue \<Rightarrow> work_id \<Rightarrow> work_id \<Rightarrow> unit work" where
  "orphan env queue item i =
     andThen (live_item i) (\<lambda>dependent.
     andThen (requireIdle dependent) (\<lambda>_.
     if completedWork dependent then refuseWork Blocked_Transition
     else
       andThen (writing (setEdge (i, item) False)) (\<lambda>_.
       save env (dependent\<lparr>wi_unresolvedDependencies := True, wi_disposition := W_Blocked,
         wi_reason := Some (ascii ''dependency-deleted''), wi_revision := wq_revision queue + 1, wi_updatedAt := en_at env\<rparr>))))"

definition delete_item :: "work_env \<Rightarrow> work_queue \<Rightarrow> work_item \<Rightarrow> unit work" where
  "delete_item env queue item =
     andThen (requireIdle item) (\<lambda>_.
     andThen (eachWorkEdge env (wi_id item) Dependents (orphan env queue (wi_id item))) (\<lambda>_.
     andThen (eachWorkEdge env (wi_id item) Dependencies (\<lambda>i. writing (setEdge (wi_id item, i) False))) (\<lambda>_.
     finish_item env queue (item\<lparr>wi_deleted := True\<rparr>))))"

fun change_item :: "work_env \<Rightarrow> work_queue \<Rightarrow> work_item \<Rightarrow> work_mutation \<Rightarrow> unit work" where
  "change_item env queue item (Op_Add _ _) = refuseWork Conflicting_Identity"
| "change_item env queue item (Op_Update _ u) = update_item env queue item u"
| "change_item env queue item (Op_Link _ d) = set_link env queue item d True"
| "change_item env queue item (Op_Unlink _ d) = set_link env queue item d False"
| "change_item env queue item (Op_Blockers _ bs) = set_blockers env queue item bs"
| "change_item env queue item (Op_Disposition _ d r) = set_disposition env queue item d r"
| "change_item env queue item (Op_Claim _ h) = claim_item env queue item h"
| "change_item env queue item (Op_Release _) = release_item env queue item True"
| "change_item env queue item (Op_Reconcile _) = release_item env queue item False"
| "change_item env queue item (Op_Cancel _) = cancel_item env queue item"
| "change_item env queue item (Op_Archive _) = archive_item env queue item"
| "change_item env queue item (Op_Delete _) = delete_item env queue item"
| "change_item env queue item (Op_Submit _ g c es) = submit_item env queue item g c es"
| "change_item env queue item (Op_Validate _ r g c es a v reason) = validate_item env queue item r g c es a v reason"

definition applyWorkMutation :: "work_env \<Rightarrow> work_queue \<Rightarrow> work_mutation \<Rightarrow> unit work" where
  "applyWorkMutation env queue op =
     andThen (step env) (\<lambda>_.
     andThen (reading (\<lambda>t. item_row t (mutation_item op))) (\<lambda>found.
     case op of
       Op_Add i f \<Rightarrow> add_item env queue found i f
     | _ \<Rightarrow>
         andThen (reading (\<lambda>t. group_row t (mutation_item op))) (\<lambda>grp.
         if found = None \<and> grp \<noteq> None then refuseWork Invalid_Hierarchy
         else andThen (live found) (\<lambda>item. change_item env queue item op))))"

end
