(* ===== verification/Work_Order.thy ===== *)
theory Work_Order
  imports Js_Text "HOL-Library.List_Lexorder"
begin

text \<open>
  The opaque keys that order siblings (\<open>orderKeyBetween\<close> and \<open>spreadOrderKeys\<close> of
  \<^verbatim>\<open>src/domain/orchestration/work-hierarchy.ts\<close>). Strings compare by code units, first difference first.
  The loop of \<open>orderKeyBetween\<close> reads both keys one position at a time, so the recursion drops a unit from
  each; past the end of a key the bounds below and above the alphabet stand in.
\<close>

section \<open>Definitions\<close>

definition KEY_MIN :: int where "KEY_MIN = 33"
definition KEY_MAX :: int where "KEY_MAX = 126"
definition KEY_BELOW :: int where "KEY_BELOW = KEY_MIN - 1"
definition KEY_ABOVE :: int where "KEY_ABOVE = KEY_MAX + 1"

definition key_char :: "int \<Rightarrow> code_unit" where "key_char n = word_of_int n"

definition unit_at :: "js_text \<Rightarrow> int \<Rightarrow> int" where
  "unit_at s past = (case s of [] \<Rightarrow> past | u # _ \<Rightarrow> uint u)"

text \<open>\<open>upper\<close> is \<open>null\<close> once the lower key alone decides.\<close>

function between :: "js_text \<Rightarrow> js_text option \<Rightarrow> js_text" where
  "between low upper =
     (let a = unit_at low KEY_BELOW; b = unit_at (case upper of None \<Rightarrow> [] | Some h \<Rightarrow> h) KEY_ABOVE in
      if a = b then key_char a # between (tl low) (map_option tl upper)
      else if b - a > 1 then
        (let middle = (a + b) div 2
         in if middle = KEY_MIN then [key_char KEY_MIN, key_char ((KEY_MIN + KEY_MAX) div 2)] else [key_char middle])
      else if a = KEY_BELOW then key_char b # between (tl low) (map_option tl upper)
      else key_char a # between (tl low) None)"
  by auto
termination
  by (relation "measure (\<lambda>(low, upper). length low + (case upper of None \<Rightarrow> 0 | Some h \<Rightarrow> length h))")
    (auto simp: unit_at_def KEY_BELOW_def KEY_ABOVE_def KEY_MIN_def KEY_MAX_def split: option.splits list.splits)

declare between.simps [simp del]

text \<open>\<open>None\<close>: the code throws because the bounds are not in order.\<close>

definition orderKeyBetween :: "js_text option \<Rightarrow> js_text option \<Rightarrow> js_text option" where
  "orderKeyBetween low high =
     (case (low, high) of
        (Some l, Some h) \<Rightarrow> if l \<ge> h then None else Some (between l (Some h))
      | _ \<Rightarrow> Some (between (case low of None \<Rightarrow> [] | Some l \<Rightarrow> l) high))"

definition key_base :: nat where "key_base = nat (KEY_MAX - KEY_MIN + 1)"

function key_width :: "nat \<Rightarrow> nat \<Rightarrow> nat" where
  "key_width count width = (if key_base ^ width \<le> (count + 1) * 2 then key_width count (width + 1) else width)"
  by auto
termination
proof (relation "measure (\<lambda>(count, width). (count + 1) * 2 - width)")
  fix count width assume "key_base ^ width \<le> (count + 1) * 2"
  moreover have "width < key_base ^ width" by (rule less_exp [THEN less_le_trans]) (simp add: key_base_def KEY_MIN_def KEY_MAX_def power_mono)
  ultimately show "((count, width + 1), count, width) \<in> measure (\<lambda>(count, width). (count + 1) * 2 - width)" by simp
qed simp

declare key_width.simps [simp del]

fun key_digits :: "nat \<Rightarrow> nat \<Rightarrow> js_text" where
  "key_digits 0 v = []"
| "key_digits (Suc w) v = key_digits w (v div key_base) @ [key_char (int (v mod key_base) + KEY_MIN)]"

definition pad_key :: "js_text \<Rightarrow> js_text" where
  "pad_key key = (if key \<noteq> [] \<and> last key = key_char KEY_MIN then key @ [key_char ((KEY_MIN + KEY_MAX) div 2)] else key)"

definition spread_key :: "nat \<Rightarrow> nat \<Rightarrow> js_text" where
  "spread_key count index =
     (let width = key_width count 1; span = key_base ^ width
      in pad_key (key_digits width ((index + 1) * span div (count + 1))))"

definition spreadOrderKeys :: "nat \<Rightarrow> js_text list" where
  "spreadOrderKeys count = map (spread_key count) [0..<count]"

section \<open>Keys between keys\<close>

lemmas key_bounds = KEY_BELOW_def KEY_ABOVE_def KEY_MIN_def KEY_MAX_def

definition key_units :: "js_text \<Rightarrow> bool" where
  "key_units k \<longleftrightarrow> (\<forall>u \<in> set k. KEY_MIN \<le> uint u \<and> uint u \<le> KEY_MAX)"

text \<open>A key is not empty, uses the alphabet, and does not end in its lowest character.\<close>

definition order_key :: "js_text \<Rightarrow> bool" where
  "order_key k \<longleftrightarrow> k \<noteq> [] \<and> key_units k \<and> last k \<noteq> key_char KEY_MIN"

lemma uint_key_char: "0 \<le> n \<Longrightarrow> n < 65536 \<Longrightarrow> uint (key_char n) = n"
  by (simp add: key_char_def uint_word_of_int)

lemma key_char_uint: "key_char (uint u) = u"
  by (simp add: key_char_def)

lemma key_char_less: "0 \<le> n \<Longrightarrow> n < 65536 \<Longrightarrow> u < key_char n \<longleftrightarrow> uint u < n"
  by (simp add: word_less_def uint_key_char)

lemma less_key_char: "0 \<le> n \<Longrightarrow> n < 65536 \<Longrightarrow> key_char n < u \<longleftrightarrow> n < uint u"
  by (simp add: word_less_def uint_key_char)

lemma key_char_eq: "0 \<le> m \<Longrightarrow> m < 65536 \<Longrightarrow> 0 \<le> n \<Longrightarrow> n < 65536 \<Longrightarrow> key_char m = key_char n \<longleftrightarrow> m = n"
  by (metis uint_key_char)

lemma order_key_Cons:
  "order_key (u # k) \<longleftrightarrow> KEY_MIN \<le> uint u \<and> uint u \<le> KEY_MAX \<and> (if k = [] then u \<noteq> key_char KEY_MIN else order_key k)"
  by (auto simp: order_key_def key_units_def)

lemma order_key_push: "order_key k \<Longrightarrow> 33 \<le> uint u \<Longrightarrow> uint u \<le> 126 \<Longrightarrow> order_key (u # k)"
  by (auto simp: order_key_def key_units_def key_bounds)

lemma key_units_tl: "key_units (u # k) \<Longrightarrow> key_units k"
  by (simp add: key_units_def)

lemma order_key_middle:
  assumes "KEY_MIN \<le> m" "m \<le> KEY_MAX"
  shows "order_key (if m = KEY_MIN then [key_char KEY_MIN, key_char ((KEY_MIN + KEY_MAX) div 2)] else [key_char m])"
  using assms by (auto simp: order_key_def key_units_def key_bounds uint_key_char key_char_eq)

lemma between_open:
  assumes "key_units low"
  shows "low < between low None \<and> order_key (between low None)"
  using assms
proof (induction low)
  case Nil
  have "between [] None = [key_char 79]" by (simp add: between.simps [of "[]"] unit_at_def key_bounds)
  then show ?case by (simp add: order_key_def key_units_def key_bounds uint_key_char key_char_eq)
next
  case (Cons u low)
  have u: "33 \<le> uint u" "uint u \<le> 126" using Cons.prems by (auto simp: key_units_def key_bounds)
  have IH: "low < between low None" "order_key (between low None)" using Cons by (auto simp: key_units_def)
  show ?case
  proof (cases "uint u = 126")
    case True
    then have "between (u # low) None = u # between low None"
      using key_char_uint [of u] by (subst between.simps) (simp add: unit_at_def key_bounds)
    then show ?thesis using IH order_key_push [OF IH(2) u] by simp
  next
    case False
    define m where "m = (uint u + 127) div 2"
    have m: "uint u < m" "m \<le> 126" using u False by (auto simp: m_def)
    then have "between (u # low) None = [key_char m]"
      using u by (subst between.simps) (simp add: unit_at_def key_bounds m_def [symmetric])
    then show ?thesis using m u order_key_middle [of m] by (simp add: key_bounds key_char_less)
  qed
qed

lemma between_closed:
  assumes "key_units low" "order_key high" "low < high"
  shows "low < between low (Some high) \<and> between low (Some high) < high \<and> order_key (between low (Some high))"
  using assms
proof (induction high arbitrary: low)
  case Nil
  then show ?case by simp
next
  case (Cons y ys)
  have y: "33 \<le> uint y" "uint y \<le> 126" using Cons.prems(2) by (auto simp: order_key_Cons key_bounds)
  show ?case
  proof (cases low)
    case Nil
    show ?thesis
    proof (cases "uint y = 33")
      case True
      then have "y = key_char KEY_MIN" using key_char_uint [of y] by (simp add: key_bounds)
      then have more: "order_key ys" "[] < ys" using Cons.prems(2) by (auto simp: order_key_Cons split: if_splits) (cases ys; simp)
      have "between [] (Some (y # ys)) = y # between [] (Some ys)"
        using True key_char_uint [of y] by (subst between.simps) (simp add: unit_at_def key_bounds)
      moreover have "between [] (Some ys) < ys" "order_key (between [] (Some ys))"
        using Cons.IH [of "[]"] more by (simp_all add: key_units_def)
      ultimately show ?thesis using order_key_push [OF _ y] Nil by simp
    next
      case False
      define m where "m = (32 + uint y) div 2"
      have m: "33 \<le> m" "m < uint y" "m \<le> 126" using y False by (auto simp: m_def)
      have "between [] (Some (y # ys)) = (if m = KEY_MIN then [key_char KEY_MIN, key_char ((KEY_MIN + KEY_MAX) div 2)] else [key_char m])"
        using y False by (subst between.simps) (simp add: unit_at_def key_bounds m_def [symmetric])
      then show ?thesis using m y Nil order_key_middle [of m] by (auto simp: key_bounds less_key_char)
    qed
  next
    case (Cons x xs)
    have x: "33 \<le> uint x" "uint x \<le> 126" using Cons.prems(1) Cons by (auto simp: key_units_def key_bounds)
    consider "x = y" "xs < ys" | "x < y" using Cons.prems(3) Cons by auto
    then show ?thesis
    proof cases
      case 1
      have "between (x # xs) (Some (y # ys)) = y # between xs (Some ys)"
        using 1 key_char_uint [of y] by (subst between.simps) (simp add: unit_at_def)
      moreover have "order_key ys" using 1(2) Cons.prems(2) by (cases ys) (auto simp: order_key_Cons)
      then have "xs < between xs (Some ys)" "between xs (Some ys) < ys" "order_key (between xs (Some ys))"
        using Cons.IH [of xs] 1(2) key_units_tl [of x xs] Cons.prems(1) Cons by simp_all
      ultimately show ?thesis using order_key_push [OF _ y] 1 Cons by simp
    next
      case 2
      then have xy: "uint x < uint y" by (simp add: word_less_def)
      show ?thesis
      proof (cases "uint y - uint x > 1")
        case True
        define m where "m = (uint x + uint y) div 2"
        have m: "uint x < m" "m < uint y" using True by (auto simp: m_def)
        have "between (x # xs) (Some (y # ys)) = [key_char m]"
          using True m x by (subst between.simps) (simp add: unit_at_def key_bounds m_def [symmetric])
        then show ?thesis using m x y Cons order_key_middle [of m] by (simp add: key_bounds less_key_char key_char_less)
      next
        case False
        have "between (x # xs) (Some (y # ys)) = x # between xs None"
          using False xy x key_char_uint [of x] by (subst between.simps) (simp add: unit_at_def key_bounds)
        moreover have "xs < between xs None" "order_key (between xs None)"
          using between_open [OF key_units_tl [of x xs]] Cons.prems(1) Cons by simp_all
        ultimately show ?thesis using order_key_push [OF _ x] 2 Cons by simp
      qed
    qed
  qed
qed

section \<open>Evenly spaced keys\<close>

lemma key_base_94: "key_base = 94"
  by (simp add: key_base_def key_bounds)

lemma key_digits_length [simp]: "length (key_digits w v) = w"
  by (induction w arbitrary: v) simp_all

lemma digit_unit_range: "33 \<le> uint (key_char (int (v mod key_base) + KEY_MIN)) \<and> uint (key_char (int (v mod key_base) + KEY_MIN)) \<le> 126"
proof -
  have "v mod key_base < 94" by (simp add: key_base_94)
  then show ?thesis by (subst (1 2) uint_key_char) (auto simp: key_bounds)
qed

lemma key_digits_units: "key_units (key_digits w v)"
  by (induction w arbitrary: v) (use digit_unit_range in \<open>auto simp: key_units_def key_bounds\<close>)

lemma less_append_same_length:
  fixes xs ys :: "'a :: linorder list"
  shows "length xs = length ys \<Longrightarrow> xs < ys \<Longrightarrow> xs @ us < ys @ vs"
  by (induction xs ys rule: list_induct2) auto

lemma less_append_equal: "(xs :: 'a :: linorder list) @ us < xs @ vs \<longleftrightarrow> us < vs"
  by (induction xs) auto

lemma key_digits_mono: "v < v' \<Longrightarrow> v' < key_base ^ w \<Longrightarrow> key_digits w v < key_digits w v'"
proof (induction w arbitrary: v v')
  case (Suc w)
  let ?d = "\<lambda>v. key_char (int (v mod key_base) + KEY_MIN)"
  show ?case
  proof (cases "v div key_base = v' div key_base")
    case True
    then have "v mod key_base < v' mod key_base"
      using Suc.prems(1) by (metis add_less_cancel_left div_mult_mod_eq)
    moreover have "v' mod key_base < 94" by (simp add: key_base_94)
    ultimately have "?d v < ?d v'" by (subst key_char_less, simp_all add: key_bounds uint_key_char)
    then show ?thesis using True by (simp add: less_append_equal)
  next
    case False
    then have "v div key_base < v' div key_base" using Suc.prems(1) by (meson div_le_mono le_neq_implies_less less_imp_le)
    moreover have "v' div key_base < key_base ^ w"
      using Suc.prems(2) by (simp add: less_mult_imp_div_less mult.commute)
    ultimately show ?thesis using Suc.IH by (simp add: less_append_same_length)
  qed
qed simp

lemma key_width_least: "(count + 1) * 2 < key_base ^ key_width count w" "w \<le> key_width count w"
proof (induction count w rule: key_width.induct)
  case (1 count w)
  { case 1 then show ?case using "1.IH"(1) by (subst key_width.simps) (simp add: not_le) }
  { case 2 then show ?case using "1.IH"(2) by (subst key_width.simps) (auto dest: Suc_leD) }
qed

lemma spread_values:
  fixes i j count span :: nat
  assumes "i < j" "j < count" "(count + 1) * 2 < span"
  shows "(i + 1) * span div (count + 1) < (j + 1) * span div (count + 1)" "(j + 1) * span div (count + 1) < span"
proof -
  have "(i + 1) * span + (count + 1) \<le> (i + 2) * span" using assms(3) by (simp add: algebra_simps)
  also have "\<dots> \<le> (j + 1) * span" using assms(1) by (intro mult_right_mono) simp_all
  finally have "((i + 1) * span + (count + 1)) div (count + 1) \<le> (j + 1) * span div (count + 1)" by (rule div_le_mono)
  moreover have "((i + 1) * span + (count + 1)) div (count + 1) = (i + 1) * span div (count + 1) + 1"
    by (subst div_add_self2) simp_all
  ultimately show "(i + 1) * span div (count + 1) < (j + 1) * span div (count + 1)" by simp
  have "(j + 1) * span < span * (count + 1)" using assms(2,3) by simp
  then show "(j + 1) * span div (count + 1) < span" by (rule less_mult_imp_div_less)
qed

lemma pad_key_order:
  assumes "key \<noteq> []" "key_units key"
  shows "order_key (pad_key key)"
  using assms by (auto simp: pad_key_def order_key_def key_units_def key_bounds uint_key_char key_char_eq)

lemma pad_key_shape: "\<exists>us. pad_key key = key @ us \<and> length us \<le> 1"
  by (simp add: pad_key_def)

lemma spread_key_order: "order_key (spread_key count i)"
proof -
  have "key_digits (key_width count 1) v \<noteq> []" for v
    using key_width_least(2) [of 1 count] key_digits_length [of "key_width count 1" v] by (metis list.size(3) not_one_le_zero)
  then show ?thesis using pad_key_order key_digits_units by (simp add: spread_key_def Let_def)
qed

lemma spread_key_less:
  assumes "i < j" "j < count"
  shows "spread_key count i < spread_key count j"
proof -
  let ?w = "key_width count 1"
  let ?v = "\<lambda>i. (i + 1) * key_base ^ ?w div (count + 1)"
  have "key_digits ?w (?v i) < key_digits ?w (?v j)"
    using spread_values [OF assms key_width_least(1)] by (intro key_digits_mono)
  then have "key_digits ?w (?v i) @ us < key_digits ?w (?v j) @ vs" for us vs by (intro less_append_same_length) simp_all
  then show ?thesis
    using pad_key_shape [of "key_digits ?w (?v i)"] pad_key_shape [of "key_digits ?w (?v j)"]
    by (auto simp: spread_key_def Let_def)
qed

section \<open>Properties\<close>

text \<open>
  C38. There is always a key between two siblings. For keys of the alphabet that do not end in its lowest
  character, in order where both are given, \<open>orderKeyBetween\<close> returns such a key, after the lower bound
  and before the upper one.
\<close>

theorem key_fits_between_siblings:
  assumes "pred_option order_key low" "pred_option order_key high"
    and "\<And>l h. low = Some l \<Longrightarrow> high = Some h \<Longrightarrow> l < h"
  shows "\<exists>k. orderKeyBetween low high = Some k \<and> order_key k \<and>
    (\<forall>l. low = Some l \<longrightarrow> l < k) \<and> (\<forall>h. high = Some h \<longrightarrow> k < h)"
proof -
  define l where "l = (case low of None \<Rightarrow> [] | Some l \<Rightarrow> l)"
  have l: "key_units l" using assms(1) by (auto simp: l_def order_key_def key_units_def split: option.splits)
  have eq: "orderKeyBetween low high = Some (between l high)"
    using assms(3) by (cases low; cases high) (simp_all add: orderKeyBetween_def l_def not_le)
  show ?thesis
  proof (cases high)
    case None
    then show ?thesis using between_open [OF l] eq by (auto simp: l_def)
  next
    case (Some h)
    moreover have "l < h" using assms(2,3) Some by (cases low; cases h) (auto simp: l_def order_key_def)
    ultimately show ?thesis using between_closed [OF l] assms(2) eq by (auto simp: l_def)
  qed
qed

theorem key_fits_between_siblings_witness:
  "order_key (ascii ''a'') \<and> order_key (ascii ''a!b'') \<and>
   (\<exists>k. orderKeyBetween (Some (ascii ''a'')) (Some (ascii ''a!b'')) = Some k \<and> order_key k \<and> ascii ''a'' < k \<and> k < ascii ''a!b'')"
proof -
  have keys: "order_key (ascii ''a'')" "order_key (ascii ''a!b'')" "ascii ''a'' < ascii ''a!b''"
    by (simp_all add: ascii_def order_key_def key_units_def key_bounds key_char_def)
  then show ?thesis using key_fits_between_siblings [of "Some (ascii ''a'')" "Some (ascii ''a!b'')"] by auto
qed

text \<open>
  Respacing gives every sibling a fresh key in order: as many keys as siblings, each well formed, each
  smaller than the next.
\<close>

theorem spread_keys_keep_the_order:
  "length (spreadOrderKeys count) = count \<and> sorted_wrt (<) (spreadOrderKeys count) \<and>
   list_all order_key (spreadOrderKeys count)"
proof -
  have "sorted_wrt (<) (spreadOrderKeys count)"
    by (simp add: sorted_wrt_iff_nth_less spreadOrderKeys_def spread_key_less)
  then show ?thesis using spread_key_order by (simp add: spreadOrderKeys_def list_all_iff)
qed

end
