(* ===== verification/Work_Hierarchy.thy ===== *)
theory Work_Hierarchy
  imports Work_Items Work_Order "HOL-Library.Product_Lexorder"
begin

text \<open>
  The hierarchy over work items (\<^verbatim>\<open>src/domain/orchestration/work-hierarchy.ts\<close>, with the query of
  \<open>children\<close> in \<^verbatim>\<open>src/data/orchestration/work-queue-store.ts\<close> and the effects of \<open>perform\<close> in
  \<^verbatim>\<open>src/application/orchestration/work-queues.ts\<close>): groups, placements, moves and
  removals. A child is the pair of its order key and its identifier, which is how siblings compare.
\<close>

section \<open>Requests\<close>

datatype work_position = At_End | Before work_id | After work_id

datatype hierarchy_mutation =
    Op_Group work_id js_text "work_id option" work_position
  | Op_Place work_id "work_id option" work_position
  | Op_Rename work_id js_text
  | Op_Remove_Group work_id
  | Op_Remove_Subtree work_id "work_id list"

fun position_valid :: "work_position \<Rightarrow> bool" where
  "position_valid At_End = True"
| "position_valid (Before i) = reference_valid i"
| "position_valid (After i) = reference_valid i"

fun hierarchy_valid :: "hierarchy_mutation \<Rightarrow> bool" where
  "hierarchy_valid (Op_Group g subject parent position) \<longleftrightarrow>
     reference_valid g \<and> text_valid 1 subject \<and> pred_option reference_valid parent \<and> position_valid position"
| "hierarchy_valid (Op_Place n parent position) \<longleftrightarrow>
     reference_valid n \<and> pred_option reference_valid parent \<and> position_valid position"
| "hierarchy_valid (Op_Rename g subject) \<longleftrightarrow> reference_valid g \<and> text_valid 1 subject"
| "hierarchy_valid (Op_Remove_Group g) \<longleftrightarrow> reference_valid g"
| "hierarchy_valid (Op_Remove_Subtree g reviewed) \<longleftrightarrow>
     reference_valid g \<and> list_all reference_valid reviewed \<and> 1 \<le> length reviewed \<and> length reviewed \<le> batch_limit"

section \<open>Nodes and placements\<close>

datatype work_node = Task_Node work_item | Group_Node work_group

definition workNode :: "work_tables \<Rightarrow> work_id \<Rightarrow> work_node option" where
  "workNode t i = (case item_row t i of
       Some it \<Rightarrow> Some (Task_Node it)
     | None \<Rightarrow> map_option Group_Node (group_row t i))"

fun deleted_node :: "work_node \<Rightarrow> bool" where
  "deleted_node (Task_Node it) = wi_deleted it"
| "deleted_node (Group_Node g) = wg_deleted g"

fun is_group_node :: "work_node \<Rightarrow> bool" where
  "is_group_node (Task_Node it) = False"
| "is_group_node (Group_Node g) = True"

definition placement_row :: "work_tables \<Rightarrow> work_id \<Rightarrow> work_placement option" where
  "placement_row t i = js_get (wt_placements t) i"

text \<open>Only tasks may be implicit roots; a group always records where it was created.\<close>

definition placementOf :: "work_id \<Rightarrow> work_placement work" where
  "placementOf i =
     andThen (reading (\<lambda>t. placement_row t i)) (\<lambda>recorded. case recorded of
       Some p \<Rightarrow> give p
     | None \<Rightarrow> andThen (reading (\<lambda>t. group_row t i)) (\<lambda>grp.
         if grp \<noteq> None then refuseWork Corrupt else give \<lparr>pl_parent = None, pl_order = i\<rparr>))"

section \<open>Siblings\<close>

type_synonym work_child = "js_text \<times> work_id"

definition child_rows :: "work_tables \<Rightarrow> work_id option \<Rightarrow> work_child list" where
  "child_rows t parent =
     map (\<lambda>(i, p). (pl_order p, i)) (filter (\<lambda>(i, p). pl_parent p = parent) (wt_placements t)) @
     (if parent = None
      then map (\<lambda>i. (i, i)) (filter (\<lambda>i. placement_row t i = None) (js_keys (wt_items t)))
      else [])"

definition children_forward :: "work_tables \<Rightarrow> work_id option \<Rightarrow> work_child option \<Rightarrow> nat \<Rightarrow> work_child list" where
  "children_forward t parent after limit = take (min limit page_limit)
     (filter (\<lambda>c. case after of None \<Rightarrow> True | Some a \<Rightarrow> a < c) (sort (child_rows t parent)))"

definition children_backward :: "work_tables \<Rightarrow> work_id option \<Rightarrow> work_child option \<Rightarrow> nat \<Rightarrow> work_child list" where
  "children_backward t parent after limit = take (min limit page_limit)
     (filter (\<lambda>c. case after of None \<Rightarrow> True | Some a \<Rightarrow> c < a) (rev (sort (child_rows t parent))))"

text \<open>The iterators of \<open>childrenOf\<close> and \<open>liveChildren\<close>.\<close>

record child_cursor =
  cc_left :: "work_child list"
  cc_after :: "work_child option"
  cc_more :: bool

definition child_start :: "work_child option \<Rightarrow> child_cursor" where
  "child_start after = \<lparr>cc_left = [], cc_after = after, cc_more = True\<rparr>"

definition yield_child :: "work_env \<Rightarrow> work_child \<Rightarrow> work_child list \<Rightarrow> bool \<Rightarrow> (work_child option \<times> child_cursor) work" where
  "yield_child env x rest again =
     andThen (step env) (\<lambda>_. give (Some x, \<lparr>cc_left = rest, cc_after = Some x, cc_more = again\<rparr>))"

definition next_child :: "work_env \<Rightarrow> work_id option \<Rightarrow> child_cursor \<Rightarrow> (work_child option \<times> child_cursor) work" where
  "next_child env parent c =
     (case cc_left c of
        x # rest \<Rightarrow> yield_child env x rest (cc_more c)
      | [] \<Rightarrow>
          if \<not> cc_more c then give (None, c)
          else andThen (step env) (\<lambda>_.
               andThen (reading (\<lambda>t. children_forward t parent (cc_after c) page_limit)) (\<lambda>page.
               case page of
                 [] \<Rightarrow> give (None, c\<lparr>cc_more := False\<rparr>)
               | x # rest \<Rightarrow> yield_child env x rest (page_limit \<le> length page))))"

fun child_loop :: "work_env \<Rightarrow> work_id option \<Rightarrow> (work_child \<Rightarrow> 'a \<Rightarrow> ('a \<times> bool) work) \<Rightarrow>
    nat \<Rightarrow> child_cursor \<Rightarrow> 'a \<Rightarrow> 'a work" where
  "child_loop env parent body 0 c acc = stop Out_Of_Fuel"
| "child_loop env parent body (Suc fuel) c acc =
     andThen (next_child env parent c) (\<lambda>(found, c').
       case found of
         None \<Rightarrow> give acc
       | Some x \<Rightarrow> andThen (body x acc) (\<lambda>(acc', go).
           if go then child_loop env parent body fuel c' acc' else give acc'))"

definition childrenOf :: "work_env \<Rightarrow> work_id option \<Rightarrow> work_child option \<Rightarrow>
    (work_child \<Rightarrow> 'a \<Rightarrow> ('a \<times> bool) work) \<Rightarrow> 'a \<Rightarrow> 'a work" where
  "childrenOf env parent after body acc = child_loop env parent body (en_stepLimit env + 2) (child_start after) acc"

text \<open>A child whose record is missing is corruption; a tombstone is skipped.\<close>

definition liveChildren :: "work_env \<Rightarrow> work_id option \<Rightarrow> work_child option \<Rightarrow>
    (work_child \<Rightarrow> work_node \<Rightarrow> 'a \<Rightarrow> ('a \<times> bool) work) \<Rightarrow> 'a \<Rightarrow> 'a work" where
  "liveChildren env parent after body acc =
     childrenOf env parent after (\<lambda>child acc.
       andThen (reading (\<lambda>t. workNode t (snd child))) (\<lambda>node. case node of
         None \<Rightarrow> refuseWork Corrupt
       | Some n \<Rightarrow> if deleted_node n then give (acc, True) else body child n acc)) acc"

section \<open>Ancestors and heights\<close>

fun ancestor_loop :: "work_env \<Rightarrow> nat \<Rightarrow> work_id option \<Rightarrow> work_id list \<Rightarrow> work_id list work" where
  "ancestor_loop env fuel None chain = give chain"
| "ancestor_loop env 0 (Some parent) chain = stop Out_Of_Fuel"
| "ancestor_loop env (Suc fuel) (Some parent) chain =
     andThen (step env) (\<lambda>_.
     andThen (reading (\<lambda>t. group_row t parent)) (\<lambda>grp. case grp of
       None \<Rightarrow> refuseWork Recovery_Required
     | Some g \<Rightarrow>
         if wg_deleted g then refuseWork Recovery_Required
         else if parent \<in> set chain \<or> depth_limit \<le> length chain then refuseWork Corrupt
         else andThen (placementOf parent) (\<lambda>p. ancestor_loop env fuel (pl_parent p) (chain @ [parent]))))"

definition ancestorsOf :: "work_env \<Rightarrow> work_id \<Rightarrow> work_id list work" where
  "ancestorsOf env i = andThen (placementOf i) (\<lambda>p. ancestor_loop env (depth_limit + 1) (pl_parent p) [])"

fun height_loop :: "work_env \<Rightarrow> nat \<Rightarrow> work_id \<Rightarrow> nat work" where
  "height_loop env 0 g = stop Out_Of_Fuel"
| "height_loop env (Suc fuel) g =
     liveChildren env (Some g) None (\<lambda>child n h.
       if is_group_node n
       then andThen (height_loop env fuel (snd child)) (\<lambda>below. give (max h (1 + below), True))
       else give (h, True)) 1"

definition subtreeHeight :: "work_env \<Rightarrow> work_id \<Rightarrow> nat work" where
  "subtreeHeight env g = height_loop env (en_stepLimit env + 2) g"

definition liveGroup :: "work_id \<Rightarrow> work_group work" where
  "liveGroup i =
     andThen (reading (\<lambda>t. (group_row t i, item_row t i))) (\<lambda>(grp, it). case grp of
       Some g \<Rightarrow>
         if wg_deleted g then if it \<noteq> None then refuseWork Invalid_Hierarchy else refuseWork Unavailable
         else give g
     | None \<Rightarrow> if it \<noteq> None then refuseWork Invalid_Hierarchy else refuseWork Unavailable)"

section \<open>Placing a node\<close>

definition sibling_key :: "work_id option \<Rightarrow> work_id \<Rightarrow> work_id \<Rightarrow> work_child work" where
  "sibling_key parent node i =
     (if i = node then refuseWork Invalid_Hierarchy
      else andThen (reading (\<lambda>t. workNode t i)) (\<lambda>found.
        if (case found of None \<Rightarrow> True | Some n \<Rightarrow> deleted_node n) then refuseWork Unavailable
        else andThen (placementOf i) (\<lambda>p.
          if pl_parent p \<noteq> parent then refuseWork Invalid_Hierarchy else give (pl_order p, i))))"

text \<open>\<open>neighbour\<close>: the first of two adjacent siblings that is not the node itself, a step for each looked at.\<close>

fun neighbour_loop :: "work_env \<Rightarrow> work_id \<Rightarrow> work_child list \<Rightarrow> js_text option work" where
  "neighbour_loop env node [] = give None"
| "neighbour_loop env node (c # cs) =
     andThen (step env) (\<lambda>_. if snd c \<noteq> node then give (Some (fst c)) else neighbour_loop env node cs)"

datatype position_key = Respace | Key js_text

definition key_for :: "js_text option \<Rightarrow> js_text option \<Rightarrow> position_key" where
  "key_for low high = (case orderKeyBetween low high of
       None \<Rightarrow> Respace
     | Some key \<Rightarrow> if length key > 128 then Respace else Key key)"

definition positionKey :: "work_env \<Rightarrow> work_id option \<Rightarrow> work_id \<Rightarrow> work_position \<Rightarrow> position_key work" where
  "positionKey env parent node position =
     (case position of
        At_End \<Rightarrow>
          andThen (reading (\<lambda>t. children_backward t parent None 2)) (\<lambda>tail.
          andThen (step env) (\<lambda>_.
          give (key_for (map_option fst (find (\<lambda>c. snd c \<noteq> node) tail)) None)))
      | Before i \<Rightarrow>
          andThen (sibling_key parent node i) (\<lambda>sibling.
          andThen (reading (\<lambda>t. children_backward t parent (Some sibling) 2)) (\<lambda>near.
          andThen (neighbour_loop env node near) (\<lambda>low.
          give (key_for low (Some (fst sibling))))))
      | After i \<Rightarrow>
          andThen (sibling_key parent node i) (\<lambda>sibling.
          andThen (reading (\<lambda>t. children_forward t parent (Some sibling) 2)) (\<lambda>near.
          andThen (neighbour_loop env node near) (\<lambda>high.
          give (key_for (Some (fst sibling)) high)))))"

text \<open>The effects a hierarchy mutation has on the tables and on what \<open>perform\<close> keeps.\<close>

definition place :: "work_env \<Rightarrow> work_id \<Rightarrow> work_placement \<Rightarrow> unit work" where
  "place env node p =
     andThen (step env) (\<lambda>_.
     andThen (noting (\<lambda>s. s\<lparr>ws_placed := True\<rparr>)) (\<lambda>_.
     writing (setPlacement node p)))"

definition note_affected :: "work_id list \<Rightarrow> work_state \<Rightarrow> work_state" where
  "note_affected ids s = s\<lparr>ws_affected := fold (\<lambda>i known. if i \<in> set known then known else known @ [i]) ids (ws_affected s)\<rparr>"

definition affect :: "work_id list \<Rightarrow> unit work" where
  "affect ids = noting (note_affected ids)"

definition note_group :: "work_id \<Rightarrow> work_state \<Rightarrow> work_state" where
  "note_group i s = note_affected [i] (s\<lparr>ws_groups := (if i \<in> set (ws_groups s) then ws_groups s else ws_groups s @ [i])\<rparr>)"

definition saveGroup :: "work_env \<Rightarrow> work_group \<Rightarrow> unit work" where
  "saveGroup env g =
     andThen (check env) (\<lambda>_.
     andThen (require (byteLength (group_text g) \<le> record_bytes) (Refused (exhausted Inline_Bytes False))) (\<lambda>_.
     andThen (noting (note_group (wg_id g))) (\<lambda>_.
     andThen (within_batch ws_groups) (\<lambda>_.
     andThen (require (group_valid g) (Refused (work_refusal Malformed))) (\<lambda>_.
     writing (putGroup g))))))"

fun place_all :: "work_env \<Rightarrow> work_id option \<Rightarrow> (work_child \<times> js_text) list \<Rightarrow> unit work" where
  "place_all env parent [] = give ()"
| "place_all env parent ((child, key) # rest) =
     andThen (place env (snd child) \<lparr>pl_parent = parent, pl_order = key\<rparr>) (\<lambda>_. place_all env parent rest)"

definition respace :: "work_env \<Rightarrow> work_id option \<Rightarrow> unit work" where
  "respace env parent =
     andThen (childrenOf env parent None (\<lambda>child acc. give (acc @ [child], True)) []) (\<lambda>siblings.
     place_all env parent (zip siblings (spreadOrderKeys (length siblings))))"

definition placeNode :: "work_env \<Rightarrow> work_id \<Rightarrow> bool \<Rightarrow> work_id option \<Rightarrow> work_position \<Rightarrow> unit work" where
  "placeNode env node is_group parent position =
     andThen (case parent of
         None \<Rightarrow> give 1
       | Some p \<Rightarrow>
           if p = node then refuseWork Invalid_Hierarchy
           else andThen (liveGroup p) (\<lambda>_.
                andThen (ancestorsOf env p) (\<lambda>ancestors.
                if node \<in> set ancestors then refuseWork Invalid_Hierarchy else give (length ancestors + 2)))) (\<lambda>depth.
     andThen (if is_group then subtreeHeight env node else give 1) (\<lambda>height.
     if depth + height - 1 > depth_limit then refuseWork Invalid_Hierarchy
     else
       andThen (positionKey env parent node position) (\<lambda>key.
       andThen (case key of
           Key k \<Rightarrow> give k
         | Respace \<Rightarrow>
             andThen (respace env parent) (\<lambda>_.
             andThen (positionKey env parent node position) (\<lambda>again. case again of
               Key k \<Rightarrow> give k
             | Respace \<Rightarrow> stop (Refused (exhausted Storage_Space False))))) (\<lambda>k.
       place env node \<lparr>pl_parent = parent, pl_order = k\<rparr>))))"

section \<open>Removing a subtree\<close>

text \<open>Children before their group, up to a limit; the flag says whether the walk reached the end.\<close>

definition push_node :: "nat \<Rightarrow> work_id \<times> bool \<Rightarrow> (work_id \<times> bool) list \<Rightarrow> (work_id \<times> bool) list \<times> bool" where
  "push_node limit entry nodes = (if limit \<le> length nodes then (nodes, False) else (nodes @ [entry], True))"

fun removal_visit :: "work_env \<Rightarrow> nat \<Rightarrow> nat \<Rightarrow> work_id \<Rightarrow> (work_id \<times> bool) list \<Rightarrow> ((work_id \<times> bool) list \<times> bool) work" where
  "removal_visit env limit 0 i nodes = stop Out_Of_Fuel"
| "removal_visit env limit (Suc fuel) i nodes =
     andThen (liveChildren env (Some i) None (\<lambda>child n (nodes, _).
         if is_group_node n
         then andThen (removal_visit env limit fuel (snd child) nodes) (\<lambda>(nodes', ok). give ((nodes', ok), ok))
         else let (nodes', ok) = push_node limit (snd child, False) nodes in give ((nodes', ok), ok)) (nodes, True))
       (\<lambda>(nodes', ok). give (if ok then push_node limit (i, True) nodes' else (nodes', False)))"

definition removalOrder :: "work_env \<Rightarrow> work_id \<Rightarrow> nat \<Rightarrow> ((work_id \<times> bool) list \<times> bool) work" where
  "removalOrder env root limit = removal_visit env limit (en_stepLimit env + 2) root []"

definition deleteTask :: "work_env \<Rightarrow> work_queue \<Rightarrow> work_id \<Rightarrow> unit work" where
  "deleteTask env queue i = applyWorkMutation env queue (Op_Delete i)"

definition retired :: "work_env \<Rightarrow> work_queue \<Rightarrow> work_group \<Rightarrow> work_group" where
  "retired env queue g = g\<lparr>wg_deleted := True, wg_revision := wq_revision queue + 1, wg_updatedAt := en_at env\<rparr>"

fun remove_all :: "work_env \<Rightarrow> work_queue \<Rightarrow> (work_id \<times> bool) list \<Rightarrow> unit work" where
  "remove_all env queue [] = give ()"
| "remove_all env queue ((i, is_group) # rest) =
     andThen (if is_group then andThen (liveGroup i) (\<lambda>g. saveGroup env (retired env queue g)) else deleteTask env queue i)
       (\<lambda>_. remove_all env queue rest)"

section \<open>The mutations\<close>

definition new_group :: "work_env \<Rightarrow> work_queue \<Rightarrow> js_text \<Rightarrow> js_text \<Rightarrow> work_id \<Rightarrow> js_text \<Rightarrow> work_group" where
  "new_group env queue source sourceGeneration i subject =
     \<lparr>wg_version = 1, wg_id = i, wg_queueId = wq_id queue, wg_revision = wq_revision queue + 1, wg_subject = subject,
      wg_source = source, wg_sourceGeneration = sourceGeneration, wg_actor = wa_actor (en_authority env), wg_deleted = False,
      wg_createdAt = en_at env, wg_updatedAt = en_at env\<rparr>"

definition add_group :: "work_env \<Rightarrow> work_queue \<Rightarrow> js_text \<Rightarrow> js_text \<Rightarrow> work_id \<Rightarrow> js_text \<Rightarrow> work_id option \<Rightarrow> work_position \<Rightarrow> unit work" where
  "add_group env queue source sourceGeneration i subject parent position =
     andThen (reading (\<lambda>t. item_row t i \<noteq> None \<or> group_row t i \<noteq> None)) (\<lambda>known.
     if known then refuseWork Conflicting_Identity
     else if \<not> group_valid (new_group env queue source sourceGeneration i subject) then refuseWork Malformed
     else
       andThen (saveGroup env (new_group env queue source sourceGeneration i subject)) (\<lambda>_.
       andThen (placeNode env i True parent position) (\<lambda>_.
       case parent of
         None \<Rightarrow> give ()
       | Some p \<Rightarrow> andThen (ancestorsOf env p) (\<lambda>above. affect (p # above)))))"

definition move_node :: "work_env \<Rightarrow> work_id \<Rightarrow> work_id option \<Rightarrow> work_position \<Rightarrow> unit work" where
  "move_node env i parent position =
     andThen (reading (\<lambda>t. workNode t i)) (\<lambda>found. case found of
       None \<Rightarrow> refuseWork Unavailable
     | Some n \<Rightarrow>
         if deleted_node n then refuseWork Unavailable
         else
           andThen (ancestorsOf env i) (\<lambda>above.
           andThen (affect above) (\<lambda>_.
           andThen (placeNode env i (is_group_node n) parent position) (\<lambda>_.
           andThen (ancestorsOf env i) affect))))"

definition rename_group :: "work_env \<Rightarrow> work_queue \<Rightarrow> work_id \<Rightarrow> js_text \<Rightarrow> unit work" where
  "rename_group env queue i subject =
     andThen (liveGroup i) (\<lambda>g.
     saveGroup env (g\<lparr>wg_subject := subject, wg_revision := wq_revision queue + 1, wg_updatedAt := en_at env\<rparr>))"

definition remove_group :: "work_env \<Rightarrow> work_queue \<Rightarrow> work_id \<Rightarrow> unit work" where
  "remove_group env queue i =
     andThen (liveGroup i) (\<lambda>g.
     andThen (liveChildren env (Some i) None (\<lambda>child n acc. refuseWork Blocked_Transition) ()) (\<lambda>_.
     andThen (ancestorsOf env i) (\<lambda>above.
     andThen (affect above) (\<lambda>_.
     saveGroup env (retired env queue g)))))"

definition remove_subtree :: "work_env \<Rightarrow> work_queue \<Rightarrow> work_id \<Rightarrow> work_id list \<Rightarrow> unit work" where
  "remove_subtree env queue i reviewed =
     andThen (liveGroup i) (\<lambda>_.
     andThen (removalOrder env i batch_limit) (\<lambda>(nodes, complete).
     if \<not> complete then stop (Refused (exhausted Validation_Budget True))
     else if length (remdups reviewed) \<noteq> length nodes \<or> list_ex (\<lambda>entry. fst entry \<notin> set reviewed) nodes
     then refuseWork Stale_Evidence
     else
       andThen (ancestorsOf env i) (\<lambda>above.
       andThen (affect above) (\<lambda>_.
       remove_all env queue nodes))))"

fun change_hierarchy :: "work_env \<Rightarrow> work_queue \<Rightarrow> js_text \<Rightarrow> js_text \<Rightarrow> hierarchy_mutation \<Rightarrow> unit work" where
  "change_hierarchy env queue source sourceGeneration (Op_Group i subject parent position) =
     add_group env queue source sourceGeneration i subject parent position"
| "change_hierarchy env queue source sourceGeneration (Op_Place i parent position) = move_node env i parent position"
| "change_hierarchy env queue source sourceGeneration (Op_Rename i subject) = rename_group env queue i subject"
| "change_hierarchy env queue source sourceGeneration (Op_Remove_Group i) = remove_group env queue i"
| "change_hierarchy env queue source sourceGeneration (Op_Remove_Subtree i reviewed) = remove_subtree env queue i reviewed"

definition applyHierarchyMutation :: "work_env \<Rightarrow> work_queue \<Rightarrow> js_text \<Rightarrow> js_text \<Rightarrow> hierarchy_mutation \<Rightarrow> unit work" where
  "applyHierarchyMutation env queue source sourceGeneration op =
     andThen (step env) (\<lambda>_. change_hierarchy env queue source sourceGeneration op)"

end
