(* ===== verification/Work_Actions.thy ===== *)
theory Work_Actions
  imports Work_Hierarchy
begin

text \<open>
  The write path of the work queue actions (\<open>authorize\<close> and \<open>perform\<close> of
  \<^verbatim>\<open>src/application/orchestration/work-queues.ts\<close>, the receipts of
  \<^verbatim>\<open>src/domain/orchestration/work-queue.ts\<close>, \<open>queueAt\<close>, \<open>appendReceipt\<close> and \<open>transaction\<close> of
  \<^verbatim>\<open>src/data/orchestration/work-queue-store.ts\<close>): a request that creates a queue or applies a batch of
  mutations, replayed when its receipt is already there.

  The digest that names the intent of a request (SHA-256 of its canonical text) is the parameter \<open>digest\<close>.
  The other digests of a receipt guard rows against edits made outside a transaction and are left out.
\<close>

section \<open>Requests, receipts and the store\<close>

datatype queue_operation = On_Task work_mutation | On_Hierarchy hierarchy_mutation

datatype write_action =
    Create_Queue js_text work_scope
  | Mutate_Queue js_text int "queue_operation list"

record write_request =
  rq_version :: int
  rq_mutationId :: js_text
  rq_source :: js_text
  rq_sourceGeneration :: js_text
  rq_reason :: js_text
  rq_queueId :: js_text
  rq_action :: write_action

definition operation_valid :: "int \<Rightarrow> queue_operation \<Rightarrow> bool" where
  "operation_valid version op = (case op of
       On_Task m \<Rightarrow> mutation_valid m
     | On_Hierarchy h \<Rightarrow> version = 2 \<and> hierarchy_valid h)"

definition action_valid :: "int \<Rightarrow> write_action \<Rightarrow> bool" where
  "action_valid version act = (case act of
       Create_Queue objective scope \<Rightarrow> text_valid 1 objective \<and> work_scope_valid scope
     | Mutate_Queue generation revision ops \<Rightarrow> reference_valid generation \<and> revision_valid revision \<and>
         list_all (operation_valid version) ops \<and> 1 \<le> length ops \<and> length ops \<le> batch_limit)"

definition request_valid :: "write_request \<Rightarrow> bool" where
  "request_valid r \<longleftrightarrow>
     (rq_version r = 1 \<or> rq_version r = 2) \<and> reference_valid (rq_mutationId r) \<and> reference_valid (rq_source r) \<and>
     reference_valid (rq_sourceGeneration r) \<and> 1 \<le> length (rq_reason r) \<and> length (rq_reason r) \<le> 512 \<and>
     reference_valid (rq_queueId r) \<and> action_valid (rq_version r) (rq_action r)"

record work_receipt =
  rc_version :: int
  rc_queueId :: js_text
  rc_scopeGeneration :: js_text
  rc_mutationId :: js_text
  rc_intent :: js_text
  rc_previousRevision :: int
  rc_revision :: int
  rc_actor :: js_text
  rc_source :: js_text
  rc_sourceGeneration :: js_text
  rc_reason :: js_text
  rc_at :: int
  rc_items :: "work_id list"
  rc_groups :: "work_id list"
  rc_affected :: "work_id list"
  rc_complete :: bool

datatype fact_kind = Task_Created | Task_Accepted

record task_fact =
  tf_kind :: fact_kind
  tf_id :: work_id
  tf_queueId :: js_text
  tf_revision :: int
  tf_mutationId :: js_text
  tf_actor :: js_text
  tf_source :: js_text
  tf_sourceGeneration :: js_text

record write_response =
  wp_queue :: work_queue
  wp_receipt :: work_receipt
  wp_facts :: "task_fact list option"

record queue_entry =
  qe_queue :: work_queue
  qe_tables :: work_tables
  qe_receipts :: "work_receipt list"

record work_store =
  st_locator :: js_text
  st_durable :: bool
  st_queues :: "(js_text, queue_entry) js_map"
  st_bindings :: "(js_text \<times> js_text, js_text) js_map"

definition no_tables :: work_tables where
  "no_tables = \<lparr>wt_items = [], wt_groups = [], wt_edges = [], wt_placements = []\<rparr>"

definition begin_work :: "work_tables \<Rightarrow> work_state" where
  "begin_work t = \<lparr>ws_tables = t, ws_checks = 0, ws_steps = 0, ws_changed = [], ws_before = [], ws_groups = [],
     ws_affected = [], ws_placed = False\<rparr>"

definition receipt_of :: "work_receipt list \<Rightarrow> js_text \<Rightarrow> work_receipt option" where
  "receipt_of rs mutation = find (\<lambda>r. rc_mutationId r = mutation) rs"

definition queueAt :: "queue_entry \<Rightarrow> int \<Rightarrow> work_queue option work" where
  "queueAt e revision =
     (if revision < 1 \<or> revision > wq_revision (qe_queue e) then give None
      else case find (\<lambda>r. rc_revision r = revision) (qe_receipts e) of
        None \<Rightarrow> refuseWork Recovery_Required
      | Some r \<Rightarrow> give (Some ((qe_queue e)\<lparr>wq_revision := revision, wq_updatedAt := rc_at r\<rparr>)))"

section \<open>Authority\<close>

definition outside_scope :: "work_store \<Rightarrow> work_authority \<Rightarrow> work_scope \<Rightarrow> bool" where
  "outside_scope store auth scope \<longleftrightarrow>
     wsc_locator scope \<noteq> st_locator store \<or> wsc_workspaceId scope \<noteq> wa_workspaceId auth \<or>
     wsc_kind scope \<in> {Scope_Memory, Scope_Session, Scope_Session_Global} \<and> wsc_sessionId scope \<noteq> Some (wa_sessionId auth) \<or>
     wsc_kind scope = Scope_Shared \<and> wsc_owner scope \<noteq> wa_actor auth \<and> wa_actor auth \<notin> set (wsc_members scope)"

definition authorize :: "work_store \<Rightarrow> work_env \<Rightarrow> work_queue \<Rightarrow> work_access \<Rightarrow> unit work" where
  "authorize store env queue access s =
     (let scope = wq_scope queue; kind = wsc_kind scope; auth = en_authority env in
      if outside_scope store auth scope \<or> \<not> wa_authorize auth (ws_checks s) queue access then Inl (Refused (work_refusal Denied))
      else if (kind = Scope_Memory \<or>
               access = Create_Access \<and> \<not> wa_persistentSession auth \<and> kind \<in> {Scope_Session, Scope_Session_Global}) \<and> st_durable store
      then Inl (Refused (work_refusal Denied))
      else if (kind \<in> {Scope_Project, Scope_Shared} \<or>
               kind = Scope_Session_Global \<and> access = Create_Access \<and> wa_persistentSession auth) \<and> \<not> st_durable store
      then Inl (Refused (work_refusal Unavailable))
      else Inr ((), s))"

section \<open>Applying a batch\<close>

definition apply_operation :: "work_env \<Rightarrow> work_queue \<Rightarrow> write_request \<Rightarrow> queue_operation \<Rightarrow> unit work" where
  "apply_operation env queue request op = (case op of
       On_Hierarchy h \<Rightarrow> applyHierarchyMutation env queue (rq_source request) (rq_sourceGeneration request) h
     | On_Task m \<Rightarrow> applyWorkMutation env queue m)"

fun apply_operations :: "work_env \<Rightarrow> work_queue \<Rightarrow> write_request \<Rightarrow> queue_operation list \<Rightarrow> unit work" where
  "apply_operations env queue request [] = give ()"
| "apply_operations env queue request (op # ops) =
     andThen (apply_operation env queue request op) (\<lambda>_. apply_operations env queue request ops)"

text \<open>Every group above a changed task is affected too; the walk stops at a parent removed in this batch.\<close>

definition reading_state :: "(work_state \<Rightarrow> 'a) \<Rightarrow> 'a work" where
  "reading_state f s = Inr (f s, s)"

definition parent_row :: "work_tables \<Rightarrow> work_id \<Rightarrow> work_id option" where
  "parent_row t i = Option.bind (placement_row t i) pl_parent"

fun climb_loop :: "work_env \<Rightarrow> nat \<Rightarrow> work_id option \<Rightarrow> unit work" where
  "climb_loop env fuel None = give ()"
| "climb_loop env 0 (Some parent) = stop Out_Of_Fuel"
| "climb_loop env (Suc fuel) (Some parent) =
     andThen (reading_state (\<lambda>s. parent \<in> set (ws_affected s))) (\<lambda>known.
     if known then give ()
     else
       andThen (step env) (\<lambda>_.
       andThen (reading (\<lambda>t. group_row t parent)) (\<lambda>grp.
       if (case grp of None \<Rightarrow> True | Some g \<Rightarrow> wg_deleted g) then give ()
       else
         andThen (affect [parent]) (\<lambda>_.
         andThen (reading (\<lambda>t. parent_row t parent)) (climb_loop env fuel)))))"

fun climb_all :: "work_env \<Rightarrow> work_id list \<Rightarrow> unit work" where
  "climb_all env [] = give ()"
| "climb_all env (i # ids) =
     andThen (reading (\<lambda>t. parent_row t i)) (\<lambda>parent.
     andThen (climb_loop env (en_stepLimit env + 2) parent) (\<lambda>_. climb_all env ids))"

definition hierarchical :: "work_state \<Rightarrow> bool" where
  "hierarchical s \<longleftrightarrow> ws_placed s \<or> ws_groups s \<noteq> []"

definition mark_affected :: "work_env \<Rightarrow> unit work" where
  "mark_affected env =
     andThen (reading_state hierarchical) (\<lambda>deep.
     if deep then andThen (reading_state ws_changed) (climb_all env) else give ())"

section \<open>The receipt\<close>

definition new_receipt :: "work_env \<Rightarrow> write_request \<Rightarrow> work_queue \<Rightarrow> js_text \<Rightarrow> work_state \<Rightarrow> work_receipt" where
  "new_receipt env request queue intent s =
     (let known = filter (\<lambda>i. group_row (ws_tables s) i \<noteq> None) (ws_affected s); deep = hierarchical s in
      \<lparr>rc_version = (if deep then 2 else 1), rc_queueId = wq_id queue, rc_scopeGeneration = wsc_generation (wq_scope queue),
       rc_mutationId = rq_mutationId request, rc_intent = intent, rc_previousRevision = wq_revision queue,
       rc_revision = wq_revision queue + 1, rc_actor = wa_actor (en_authority env), rc_source = rq_source request,
       rc_sourceGeneration = rq_sourceGeneration request, rc_reason = rq_reason request, rc_at = en_at env,
       rc_items = ws_changed s, rc_groups = (if deep then ws_groups s else []),
       rc_affected = (if deep then take 64 known else []), rc_complete = (deep \<and> length known \<le> 64)\<rparr>)"

definition new_fact :: "work_receipt \<Rightarrow> fact_kind \<Rightarrow> work_id \<Rightarrow> task_fact" where
  "new_fact r kind i = \<lparr>tf_kind = kind, tf_id = i, tf_queueId = rc_queueId r, tf_revision = rc_revision r,
     tf_mutationId = rc_mutationId r, tf_actor = rc_actor r, tf_source = rc_source r, tf_sourceGeneration = rc_sourceGeneration r\<rparr>"

definition item_facts :: "work_state \<Rightarrow> work_receipt \<Rightarrow> work_id \<Rightarrow> task_fact list" where
  "item_facts s r i =
     (let prior = Option.bind (js_get (ws_before s) i) (\<lambda>b. b) in
      case item_row (ws_tables s) i of
        None \<Rightarrow> []
      | Some it \<Rightarrow>
          (if prior = None then [new_fact r Task_Created (wi_id it)] else []) @
          (if wi_disposition it = W_Completed \<and> map_option wi_disposition prior \<noteq> Some W_Completed
           then [new_fact r Task_Accepted (wi_id it)] else []))"

text \<open>What follows the operations: the last checks, the new revision and its receipt.\<close>

definition commit_queue :: "work_store \<Rightarrow> work_env \<Rightarrow> write_request \<Rightarrow> work_queue \<Rightarrow> js_text \<Rightarrow> write_response work" where
  "commit_queue store env request queue intent =
     andThen (check env) (\<lambda>_.
     andThen (mark_affected env) (\<lambda>_.
     andThen (authorize store env queue Mutate_Access) (\<lambda>_.
     let updated = queue\<lparr>wq_revision := wq_revision queue + 1, wq_updatedAt := en_at env\<rparr> in
     andThen (require (queue_valid updated) (Refused (work_refusal Malformed))) (\<lambda>_.
     andThen (reading_state (new_receipt env request queue intent)) (\<lambda>receipt.
     andThen (check env) (\<lambda>_.
     reading_state (\<lambda>s. \<lparr>wp_queue = updated, wp_receipt = receipt,
       wp_facts = Some (concat (map (item_facts s receipt) (ws_changed s)))\<rparr>)))))))"

section \<open>Requests\<close>

definition new_queue :: "work_env \<Rightarrow> write_request \<Rightarrow> js_text \<Rightarrow> work_scope \<Rightarrow> work_queue" where
  "new_queue env request objective scope =
     \<lparr>wq_version = 1, wq_id = rq_queueId request, wq_revision = 0, wq_scope = scope, wq_objective = objective,
      wq_createdAt = en_at env, wq_updatedAt = en_at env\<rparr>"

text \<open>The queue a request works on: the stored one, or the one it creates.\<close>

definition target_queue :: "work_store \<Rightarrow> work_env \<Rightarrow> write_request \<Rightarrow> work_queue work" where
  "target_queue store env request =
     (let stored = map_option qe_queue (js_get (st_queues store) (rq_queueId request)) in
      case rq_action request of
        Create_Queue objective scope \<Rightarrow>
          andThen (authorize store env (new_queue env request objective scope)
            (if stored = None then Create_Access else Mutate_Access)) (\<lambda>_.
          andThen (require (wsc_owner scope = wa_actor (en_authority env) \<and>
              byteLength (quote_text objective) \<le> inline_bytes) (Refused (work_refusal Denied))) (\<lambda>_.
          give (case stored of None \<Rightarrow> new_queue env request objective scope | Some queue \<Rightarrow> queue)))
      | Mutate_Queue _ _ _ \<Rightarrow> (case stored of None \<Rightarrow> refuseWork Unavailable | Some queue \<Rightarrow> give queue))"

definition stale_revision :: "int \<Rightarrow> work_error" where
  "stale_revision current = \<lparr>er_code = Conflicting_Revision, er_currentRevision = Some current, er_dimension = None,
     er_incomplete = False\<rparr>"

definition run_action :: "work_store \<Rightarrow> work_env \<Rightarrow> write_request \<Rightarrow> work_queue \<Rightarrow> js_text \<Rightarrow> write_response work" where
  "run_action store env request queue intent =
     (let env' = env\<lparr>en_at := max (en_at env) (wq_updatedAt queue)\<rparr> in
      case rq_action request of
        Create_Queue _ _ \<Rightarrow>
          andThen (require (wq_revision queue = 0) (Refused (work_refusal Conflicting_Identity))) (\<lambda>_.
          andThen (require (queue_valid queue) (Refused (work_refusal Malformed))) (\<lambda>_.
          commit_queue store env' request queue intent))
      | Mutate_Queue _ expected ops \<Rightarrow>
          andThen (require (expected = wq_revision queue) (Refused (stale_revision (wq_revision queue)))) (\<lambda>_.
          andThen (require (wq_revision queue < MAX_SAFE_INTEGER - 2) (Refused (exhausted Storage_Space False))) (\<lambda>_.
          andThen (apply_operations env' queue request ops) (\<lambda>_.
          commit_queue store env' request queue intent))))"

definition performing :: "(write_request \<Rightarrow> js_text \<Rightarrow> js_text) \<Rightarrow> work_store \<Rightarrow> work_env \<Rightarrow> write_request \<Rightarrow>
    (write_response \<times> bool) work" where
  "performing digest store env request =
     (let entry = js_get (st_queues store) (rq_queueId request);
          intent = digest request (wa_actor (en_authority env)) in
      andThen (check env) (\<lambda>_.
      andThen (target_queue store env request) (\<lambda>queue.
      andThen (authorize store env queue Mutate_Access) (\<lambda>_.
      andThen (require (case rq_action request of
          Create_Queue _ _ \<Rightarrow> True
        | Mutate_Queue generation _ _ \<Rightarrow> generation = wsc_generation (wq_scope queue)) (Refused (work_refusal Denied))) (\<lambda>_.
      andThen (require (wa_sourceAvailable (en_authority env) (rq_source request) (rq_sourceGeneration request))
        (Refused (work_refusal Stale_Evidence))) (\<lambda>_.
      case Option.bind entry (\<lambda>e. map_option (Pair e) (receipt_of (qe_receipts e) (rq_mutationId request))) of
        Some (e, prior) \<Rightarrow>
          andThen (require (rc_intent prior = intent) (Refused (work_refusal Conflicting_Identity))) (\<lambda>_.
          andThen (queueAt e (rc_revision prior)) (\<lambda>original. case original of
            None \<Rightarrow> refuseWork Recovery_Required
          | Some q \<Rightarrow> give (\<lparr>wp_queue = q, wp_receipt = prior, wp_facts = None\<rparr>, False)))
      | None \<Rightarrow> andThen (run_action store env request queue intent) (\<lambda>response. give (response, True))))))))"

definition bound :: "write_request \<Rightarrow> work_queue \<Rightarrow> (js_text \<times> js_text, js_text) js_map \<Rightarrow> (js_text \<times> js_text, js_text) js_map" where
  "bound request queue bindings = (case (rq_action request, wsc_sessionId (wq_scope queue)) of
       (Create_Queue _ _, Some session) \<Rightarrow>
         let key = (session, wsc_workspaceId (wq_scope queue)) in
         if js_get bindings key = None then js_set key (wq_id queue) bindings else bindings
     | _ \<Rightarrow> bindings)"

definition stored_tables :: "work_store \<Rightarrow> js_text \<Rightarrow> work_tables" where
  "stored_tables store i = (case js_get (st_queues store) i of None \<Rightarrow> no_tables | Some e \<Rightarrow> qe_tables e)"

definition stored_receipts :: "work_store \<Rightarrow> js_text \<Rightarrow> work_receipt list" where
  "stored_receipts store i = (case js_get (st_queues store) i of None \<Rightarrow> [] | Some e \<Rightarrow> qe_receipts e)"

text \<open>\<open>transaction\<close>: a refusal rolls everything back, so only what returns has changed the store.\<close>

definition perform :: "(write_request \<Rightarrow> js_text \<Rightarrow> js_text) \<Rightarrow> work_store \<Rightarrow> work_env \<Rightarrow> write_request \<Rightarrow>
    work_stop + write_response \<times> work_store" where
  "perform digest store env request =
     (let i = rq_queueId request in
      case performing digest store env request (begin_work (stored_tables store i)) of
        Inl e \<Rightarrow> Inl e
      | Inr ((response, written), s) \<Rightarrow>
          Inr (response,
            if written
            then store\<lparr>st_queues := js_set i \<lparr>qe_queue = wp_queue response, qe_tables = ws_tables s,
                     qe_receipts = stored_receipts store i @ [wp_receipt response]\<rparr> (st_queues store),
                   st_bindings := bound request (wp_queue response) (st_bindings store)\<rparr>
            else store))"

end
