(* ===== verification/Work_Invariants.thy ===== *)
theory Work_Invariants
  imports Work_Items
begin

text \<open>
  What holds of the tables of a work queue through every mutation: rules for running transactions,
  the iterator over edges as the list of edges still to come, the search before a link as the search
  of \<open>Dependency_Graph\<close>, and the invariant \<open>work_ok\<close> with its preservation by each mutation.
\<close>

named_theorems work_run \<open>what a piece of a transaction that returned did\<close>

section \<open>Running a transaction\<close>

lemma give_run [work_run]: "give x s = Inr (y, t) \<longleftrightarrow> y = x \<and> t = s"
  by (auto simp: give_def)

lemma stop_run [work_run]: "stop e s = Inr r \<longleftrightarrow> False"
  by (simp add: stop_def)

lemma andThen_run [work_run]: "andThen m f s = Inr r \<longleftrightarrow> (\<exists>x t. m s = Inr (x, t) \<and> f x t = Inr r)"
  by (auto simp: andThen_def split: sum.splits)

lemma require_run [work_run]: "require ok e s = Inr (u, t) \<longleftrightarrow> ok \<and> t = s"
  by (auto simp: require_def work_run)

lemma reading_run [work_run]: "reading f s = Inr (x, t) \<longleftrightarrow> x = f (ws_tables s) \<and> t = s"
  by (auto simp: reading_def)

lemma writing_run [work_run]: "writing f s = Inr (u, t) \<longleftrightarrow> t = s\<lparr>ws_tables := f (ws_tables s)\<rparr>"
  by (auto simp: writing_def)

lemma noting_run [work_run]: "noting f s = Inr (u, t) \<longleftrightarrow> t = f s"
  by (auto simp: noting_def)

definition quiet_work :: "'a work \<Rightarrow> bool" where
  "quiet_work m \<longleftrightarrow> (\<forall>s x t. m s = Inr (x, t) \<longrightarrow> ws_tables t = ws_tables s)"

lemma quiet_workD: "quiet_work m \<Longrightarrow> m s = Inr (x, t) \<Longrightarrow> ws_tables t = ws_tables s"
  by (auto simp: quiet_work_def)

lemma check_quiet: "check env s = Inr (u, t) \<Longrightarrow> ws_tables t = ws_tables s"
  by (auto simp: check_def split: if_splits)

lemma step_run:
  assumes "step env s = Inr (u, t)"
  shows "\<not> en_aborted env (ws_checks s) \<and> \<not> en_expired env (ws_checks s) \<and> ws_steps s + 1 \<le> en_stepLimit env \<and>
    t = s\<lparr>ws_checks := ws_checks s + 1, ws_steps := ws_steps s + 1\<rparr>"
proof -
  obtain v where v: "check env s = Inr ((), v)" and
    go: "(if ws_steps v + 1 > en_stepLimit env then Inl (Refused (exhausted Validation_Budget True))
      else Inr ((), v\<lparr>ws_steps := ws_steps v + 1\<rparr>)) = Inr (u, t)"
    using assms unfolding step_def andThen_run by auto
  have "v = s\<lparr>ws_checks := ws_checks s + 1\<rparr>" "\<not> en_aborted env (ws_checks s)" "\<not> en_expired env (ws_checks s)"
    using v by (simp_all add: check_def split: if_splits)
  then show ?thesis using go by (simp split: if_splits)
qed

lemma step_quiet: "step env s = Inr (u, t) \<Longrightarrow> ws_tables t = ws_tables s"
  using step_run by fastforce

lemma live_item_run [work_run]:
  "live_item i s = Inr (it, t) \<longleftrightarrow> item_row (ws_tables s) i = Some it \<and> \<not> wi_deleted it \<and> t = s"
  by (auto simp: live_item_def live_def work_run split: option.splits if_splits)

section \<open>The edges an iterator has still to yield\<close>

definition edges_after :: "work_tables \<Rightarrow> work_id \<Rightarrow> edge_direction \<Rightarrow> js_text \<Rightarrow> work_id list" where
  "edges_after t i dir after = sort (filter (\<lambda>x. after < x) (edge_targets t i dir))"

definition to_come :: "work_tables \<Rightarrow> work_id \<Rightarrow> edge_direction \<Rightarrow> edge_cursor \<Rightarrow> work_id list" where
  "to_come t i dir c = ec_left c @
     (if ec_more c then edges_after t i dir (last (ec_after c # ec_left c)) else [])"

lemma sorted_drop_filter:
  fixes xs :: "'a :: linorder list"
  assumes "sorted xs" "distinct xs" "0 < n" "n \<le> length xs"
  shows "filter (\<lambda>x. last (take n xs) < x) xs = drop n xs"
proof -
  have last: "last (take n xs) = xs ! (n - 1)" using assms(3,4) by (subst last_conv_nth) auto
  have "\<not> xs ! (n - 1) < x" if "x \<in> set (take n xs)" for x
  proof -
    obtain k where "k < length (take n xs)" "take n xs ! k = x" using \<open>x \<in> set (take n xs)\<close> unfolding in_set_conv_nth by blast
    then have "k < n" "x = xs ! k" by simp_all
    then show ?thesis using sorted_nth_mono [OF assms(1), of k "n - 1"] assms(3,4) by (auto simp: not_less)
  qed
  moreover have "xs ! (n - 1) < x" if "x \<in> set (drop n xs)" for x
  proof -
    obtain k where "k < length (drop n xs)" "drop n xs ! k = x" using \<open>x \<in> set (drop n xs)\<close> unfolding in_set_conv_nth by blast
    then have k: "k < length xs - n" "x = xs ! (n + k)" by simp_all
    have "xs ! (n - 1) \<le> x" using sorted_nth_mono [OF assms(1), of "n - 1" "n + k"] k by auto
    moreover have "xs ! (n - 1) \<noteq> x" using nth_eq_iff_index_eq [OF assms(2), of "n - 1" "n + k"] k assms(3,4) by auto
    ultimately show ?thesis by simp
  qed
  ultimately have "filter (\<lambda>x. xs ! (n - 1) < x) (take n xs @ drop n xs) = drop n xs"
    by (simp only: filter_append) (simp add: filter_empty_conv filter_id_conv)
  then show ?thesis using last by simp
qed

lemma distinct_targets: "distinct (wt_edges t) \<Longrightarrow> distinct (edge_targets t i dir)"
  by (cases dir) (auto simp: edge_targets_def distinct_map inj_on_def)

lemma edges_after_after:
  assumes "distinct (wt_edges t)" "page_limit \<le> length (edge_page t i dir after)"
  shows "edges_after t i dir after = edge_page t i dir after @ edges_after t i dir (last (edge_page t i dir after))"
proof -
  let ?all = "edges_after t i dir after"
  have page: "edge_page t i dir after = take page_limit ?all" by (simp add: edge_page_def edges_after_def)
  have fits: "page_limit \<le> length ?all" "0 < page_limit" using assms(2) by (auto simp: page page_limit_def)
  have "sorted ?all" "distinct ?all" using distinct_targets [OF assms(1)] by (simp_all add: edges_after_def)
  then have "drop page_limit ?all = filter (\<lambda>x. last (take page_limit ?all) < x) ?all"
    using fits sorted_drop_filter by metis
  moreover have "last (take page_limit ?all) \<in> set ?all"
    using fits in_set_takeD [of _ page_limit ?all] by (metis last_in_set length_greater_0_conv length_take min.absorb2)
  then have "after < last (take page_limit ?all)" by (auto simp: edges_after_def)
  then have "filter (\<lambda>x. last (take page_limit ?all) < x) ?all = edges_after t i dir (last (take page_limit ?all))"
    by (auto simp: edges_after_def filter_sort intro!: arg_cong [where f = sort] filter_cong)
  ultimately show ?thesis by (metis append_take_drop_id page)
qed

lemma edges_after_short:
  "length (edge_page t i dir after) < page_limit \<Longrightarrow> edges_after t i dir after = edge_page t i dir after"
  by (simp add: edge_page_def edges_after_def)

lemma yield_edge_run [work_run]:
  "yield_edge env x rest again s = Inr ((found, c), u) \<longleftrightarrow>
     step env s = Inr ((), u) \<and> found = Some x \<and> c = \<lparr>ec_left = rest, ec_after = x, ec_more = again\<rparr>"
  by (auto simp: yield_edge_def work_run)

lemma next_edge_spec:
  assumes "next_edge env i dir c s = Inr ((found, c'), u)" "distinct (wt_edges (ws_tables s))"
  shows "ws_tables u = ws_tables s \<and>
    to_come (ws_tables s) i dir c = (case found of None \<Rightarrow> [] | Some x \<Rightarrow> x # to_come (ws_tables s) i dir c')"
proof (cases "ec_left c")
  case (Cons x rest)
  then show ?thesis using assms(1) by (auto simp: next_edge_def work_run to_come_def dest: step_quiet)
next
  case Nil
  let ?t = "ws_tables s"
  let ?page = "edge_page ?t i dir (ec_after c)"
  show ?thesis
  proof (cases "ec_more c")
    case False
    then show ?thesis using assms(1) Nil by (auto simp: next_edge_def work_run to_come_def)
  next
    case True
    then have all: "to_come ?t i dir c = edges_after ?t i dir (ec_after c)" using Nil by (simp add: to_come_def)
    obtain v where v: "step env s = Inr ((), v)" "ws_tables v = ?t" and
      go: "(case ?page of [] \<Rightarrow> give (None, c\<lparr>ec_more := False\<rparr>)
             | x # rest \<Rightarrow> yield_edge env x rest (page_limit \<le> length ?page)) v = Inr ((found, c'), u)"
    proof -
      obtain v where v: "step env s = Inr ((), v)"
        "andThen (reading (\<lambda>t. edge_page t i dir (ec_after c))) (\<lambda>page. case page of
           [] \<Rightarrow> give (None, c\<lparr>ec_more := False\<rparr>) | x # rest \<Rightarrow> yield_edge env x rest (page_limit \<le> length page)) v = Inr ((found, c'), u)"
        using assms(1) Nil True by (auto simp: next_edge_def andThen_run [of "step env"])
      have "ws_tables v = ?t" using v(1) by (rule step_quiet)
      with v show thesis by (intro that [of v]) (simp_all add: andThen_run reading_run)
    qed
    show ?thesis
    proof (cases ?page)
      case Nil
      then show ?thesis using go v(2) all edges_after_short [of ?t i dir "ec_after c"] by (auto simp: work_run page_limit_def)
    next
      case (Cons x rest)
      with go have step: "step env v = Inr ((), u)" and f: "found = Some x"
        and c': "c' = \<lparr>ec_left = rest, ec_after = x, ec_more = page_limit \<le> length ?page\<rparr>" by (auto simp: work_run)
      have "edges_after ?t i dir (ec_after c) = x # to_come ?t i dir c'"
      proof (cases "page_limit \<le> length ?page")
        case True
        then show ?thesis using edges_after_after [OF assms(2) True] Cons by (simp add: to_come_def c')
      next
        case False
        then show ?thesis using edges_after_short [of ?t i dir "ec_after c"] Cons by (simp add: to_come_def c')
      qed
      then show ?thesis using all f step_quiet [OF step] v(2) by simp
    qed
  qed
qed

lemma to_come_start: "to_come t i dir start_cursor = edges_after t i dir []"
  by (simp add: to_come_def start_cursor_def)

lemma edge_targets_iff:
  "x \<in> set (edge_targets t i Dependencies) \<longleftrightarrow> (i, x) \<in> set (wt_edges t)"
  "x \<in> set (edge_targets t i Dependents) \<longleftrightarrow> (x, i) \<in> set (wt_edges t)"
  by (force simp: edge_targets_def)+

text \<open>A loop over edges keeps what its body keeps; when it was not left early, no edge was left to come.\<close>

lemma edge_loop_inv:
  assumes "edge_loop env i dir body fuel c acc s = Inr (acc', s')" "I acc c (ws_tables s)"
    and dist: "\<And>acc c t. I acc c t \<Longrightarrow> distinct (wt_edges t)"
    and body: "\<And>acc c x c' u acc' go v. I acc c (ws_tables u) \<Longrightarrow> to_come (ws_tables u) i dir c = x # to_come (ws_tables u) i dir c' \<Longrightarrow>
        body x acc u = Inr ((acc', go), v) \<Longrightarrow> if go then I acc' c' (ws_tables v) else Q acc' (ws_tables v)"
    and fin: "\<And>acc c t. I acc c t \<Longrightarrow> to_come t i dir c = [] \<Longrightarrow> Q acc t"
  shows "Q acc' (ws_tables s')"
  using assms(1,2)
proof (induction fuel arbitrary: c acc s)
  case 0
  then show ?case by (simp add: work_run)
next
  case (Suc fuel)
  then obtain found c' u where nxt: "next_edge env i dir c s = Inr ((found, c'), u)"
    and go: "(case found of None \<Rightarrow> give acc | Some x \<Rightarrow> andThen (body x acc) (\<lambda>(acc', go).
           if go then edge_loop env i dir body fuel c' acc' else give acc')) u = Inr (acc', s')"
    by (auto simp: work_run)
  note spec = next_edge_spec [OF nxt dist [OF Suc.prems(2)]]
  show ?case
  proof (cases found)
    case None
    then show ?thesis using go spec fin [OF Suc.prems(2)] by (auto simp: work_run)
  next
    case (Some x)
    with go obtain acc2 more v where b: "body x acc u = Inr ((acc2, more), v)"
      and rest: "(if more then edge_loop env i dir body fuel c' acc2 else give acc2) v = Inr (acc', s')"
      by (auto simp: work_run)
    have at: "I acc c (ws_tables u)" "to_come (ws_tables u) i dir c = x # to_come (ws_tables u) i dir c'"
      using spec Suc.prems(2) Some by auto
    show ?thesis using body [OF at b] rest Suc.IH [of c' acc2 v] by (cases more) (auto simp: work_run)
  qed
qed

section \<open>The search before a link\<close>

definition link_deps :: "work_tables \<Rightarrow> work_id \<Rightarrow> work_id \<Rightarrow> work_id \<Rightarrow> work_id list" where
  "link_deps t item dependency x = (if x = item then [dependency] else []) @ edges_after t x Dependencies []"

definition link_to_come :: "work_tables \<Rightarrow> work_id \<Rightarrow> link_cursor \<Rightarrow> work_id list" where
  "link_to_come t i c = (case fst c of None \<Rightarrow> [] | Some d \<Rightarrow> [d]) @ to_come t i Dependencies (snd c)"

lemma next_link_spec:
  assumes "next_link env i c s = Inr ((found, c'), u)" "distinct (wt_edges (ws_tables s))"
  shows "ws_tables u = ws_tables s \<and>
    link_to_come (ws_tables s) i c = (case found of None \<Rightarrow> [] | Some x \<Rightarrow> x # link_to_come (ws_tables s) i c')"
proof (cases "fst c")
  case (Some d)
  then show ?thesis using assms(1) by (auto simp: next_link_def work_run link_to_come_def)
next
  case None
  with assms(1) obtain c2 where "next_edge env i Dependencies (snd c) s = Inr ((found, c2), u)" "c' = (None, c2)"
    by (auto simp: next_link_def work_run)
  with next_edge_spec [OF this(1) assms(2)] None show ?thesis by (auto simp: link_to_come_def split: option.splits)
qed

lemma enter_link_frame:
  "enter_link item dependency i = (i, c) \<Longrightarrow> link_to_come t i c = link_deps t item dependency i"
  by (auto simp: enter_link_def link_to_come_def link_deps_def to_come_start)

definition plain_frames :: "work_tables \<Rightarrow> link_frames \<Rightarrow> work_id frames" where
  "plain_frames t frames = map (\<lambda>(i, c). (i, link_to_come t i c)) frames"

lemma plain_frames_Cons [simp]:
  "plain_frames t ((i, c) # frames) = (i, link_to_come t i c) # plain_frames t frames"
  by (simp add: plain_frames_def)

lemma plain_frames_enter [simp]:
  "plain_frames t (enter_link item dependency i # frames) = (i, link_deps t item dependency i) # plain_frames t frames"
  using enter_link_frame [of item dependency i] by (auto simp: plain_frames_def enter_link_def)

lemma link_loop_search:
  assumes "link_loop env item dependency fuel state frames s = Inr (None, u)" "distinct (wt_edges (ws_tables s))"
  shows "ws_tables u = ws_tables s \<and>
    (\<exists>state'. dfs_loop (link_deps (ws_tables s) item dependency) state (plain_frames (ws_tables s) frames) = Some (state', None))"
  using assms
proof (induction fuel arbitrary: state frames s)
  case 0
  then show ?case by (simp add: work_run)
next
  case (Suc fuel)
  let ?t = "ws_tables s"
  let ?deps = "link_deps ?t item dependency"
  show ?case
  proof (cases frames)
    case Nil
    then show ?thesis using Suc.prems by (auto simp: work_run plain_frames_def dfs_loop_eqs)
  next
    case (Cons frame rest)
    obtain i c where frame: "frame = (i, c)" by (cases frame)
    with Suc.prems(1) Cons obtain found c' v where nxt: "next_link env i c s = Inr ((found, c'), v)"
      and go: "(case found of
              None \<Rightarrow> link_loop env item dependency fuel (js_set i Finished state) rest
            | Some next \<Rightarrow>
                if js_get state next = Some Finished
                then link_loop env item dependency fuel state ((i, c') # rest)
                else if js_get state next = Some Visiting
                then give (Some (cycle_of next (map (\<lambda>f. (fst f, [])) ((i, c') # rest))))
                else link_loop env item dependency fuel (js_set next Visiting state)
                       (enter_link item dependency next # (i, c') # rest)) v = Inr (None, u)"
      by (auto simp: andThen_run)
    have v: "ws_tables v = ?t" and come: "link_to_come ?t i c = (case found of None \<Rightarrow> [] | Some x \<Rightarrow> x # link_to_come ?t i c')"
      using next_link_spec [OF nxt Suc.prems(2)] by simp_all
    have later: "ws_tables u = ?t \<and> (\<exists>state'. dfs_loop ?deps st (plain_frames ?t fs) = Some (state', None))"
      if "link_loop env item dependency fuel st fs v = Inr (None, u)" for st fs
      using Suc.IH [OF that] Suc.prems(2) v by simp
    show ?thesis
    proof (cases found)
      case None
      then show ?thesis using go later come frame Cons by (simp add: dfs_loop_eqs)
    next
      case (Some x)
      consider "js_get state x = Some Finished" | "js_get state x = Some Visiting"
        | "js_get state x \<noteq> Some Finished" "js_get state x \<noteq> Some Visiting" by blast
      then show ?thesis
      proof cases
        case 1
        then show ?thesis using go later [of state "(i, c') # rest"] come frame Cons Some by (simp add: dfs_loop_eqs)
      next
        case 2
        then show ?thesis using go Some by (simp add: give_run)
      next
        case 3
        then show ?thesis
          using go later [of "js_set x Visiting state" "enter_link item dependency x # (i, c') # rest"] come frame Cons Some
          by (simp add: dfs_loop_eqs)
      qed
    qed
  qed
qed

text \<open>A search that finds nothing leaves no cycle through the new edge.\<close>

lemma link_cycle_spec:
  assumes "link_cycle env item dependency s = Inr (None, u)" "distinct (wt_edges (ws_tables s))"
    and named: "\<forall>(a, b) \<in> set (wt_edges (ws_tables s)). b \<noteq> []"
    and acyc: "acyclic (set (wt_edges (ws_tables s)))"
  shows "ws_tables u = ws_tables s \<and> acyclic (insert (item, dependency) (set (wt_edges (ws_tables s))))"
proof -
  let ?t = "ws_tables s"
  let ?deps = "link_deps ?t item dependency"
  let ?E = "insert (item, dependency) (set (wt_edges ?t))"
  have edges: "edges ?deps = ?E"
  proof -
    have first: "[] < y" if "y \<noteq> []" for y :: js_text using that by (cases y) simp_all
    have "y \<in> set (edges_after ?t x Dependencies []) \<longleftrightarrow> (x, y) \<in> set (wt_edges ?t)" for x y
      using named first by (auto simp: edges_after_def edge_targets_iff)
    then show ?thesis by (auto simp: edges_def link_deps_def)
  qed
  note found = link_loop_search [OF assms(1) [unfolded link_cycle_def] assms(2)]
  then have search: "findDependencyCycle [item] ?deps = Some None"
    by (auto simp: findDependencyCycle_def plain_frames_def enter_link_def link_to_come_def link_deps_def to_come_start)
  have fin: "finite (?E\<^sup>* `` set [item])"
  proof (rule finite_subset)
    show "?E\<^sup>* `` set [item] \<subseteq> insert item (snd ` ?E)" 
    proof
      fix y assume "y \<in> ?E\<^sup>* `` set [item]"
      then have "(item, y) \<in> ?E\<^sup>*" by simp
      then show "y \<in> insert item (snd ` ?E)" by cases (auto simp: image_iff intro: rev_bexI)
    qed
  qed simp
  have "(item, item) \<notin> ?E\<^sup>+"
    using cycle_search_is_exact [of ?deps "[item]"] fin search by (auto simp: edges)
  moreover have "(item, item) \<in> ?E\<^sup>+" if "(dependency, item) \<in> (set (wt_edges ?t))\<^sup>*"
    using that rtrancl_mono [of "set (wt_edges ?t)" ?E] by (meson insertI1 rtrancl_into_trancl2 subset_insertI subsetD)
  ultimately show ?thesis using found acyc by (auto simp: acyclic_insert)
qed

section \<open>The invariant\<close>

definition accepted_state :: "work_item \<Rightarrow> bool" where
  "accepted_state it \<longleftrightarrow> wi_disposition it = W_Completed \<or>
     wi_disposition it = W_Archived \<and> wi_previousDisposition it = Some W_Completed"

text \<open>
  What one record says of itself: accepted work has evidence and an acceptance for its current criteria,
  a claim carries the current claim generation and is held only on work without impediments.
\<close>

definition item_ok :: "work_item \<Rightarrow> bool" where
  "item_ok it \<longleftrightarrow>
     (accepted_state it \<longrightarrow> wi_evidence it \<noteq> [] \<and>
        (\<exists>a. wi_acceptance it = Some a \<and> ac_criteriaRevision a = wi_criteriaRevision it)) \<and>
     (accepted_state it \<or> wi_disposition it = W_Archived \<longrightarrow> wi_claim it = None) \<and>
     (\<forall>c. wi_claim it = Some c \<longrightarrow>
        wc_generation c = wi_claimGeneration it \<and> wi_blockers it = [] \<and> \<not> wi_unresolvedDependencies it)"

definition accepted_in :: "work_tables \<Rightarrow> work_id \<Rightarrow> bool" where
  "accepted_in t i \<longleftrightarrow> (\<exists>it. item_row t i = Some it \<and> completedWork it)"

definition live_in :: "work_tables \<Rightarrow> work_id \<Rightarrow> bool" where
  "live_in t i \<longleftrightarrow> (\<exists>it. item_row t i = Some it \<and> \<not> wi_deleted it)"

text \<open>Work that relies on its dependencies being done: it is accepted, or someone holds it.\<close>

definition relies :: "work_item \<Rightarrow> bool" where
  "relies it \<longleftrightarrow> completedWork it \<or> wi_claim it \<noteq> None"

definition rows_ok :: "work_tables \<Rightarrow> bool" where
  "rows_ok t \<longleftrightarrow> (\<forall>i it. item_row t i = Some it \<longrightarrow> wi_id it = i \<and> i \<noteq> [] \<and> item_ok it)"

definition edges_ok :: "work_tables \<Rightarrow> bool" where
  "edges_ok t \<longleftrightarrow> distinct (wt_edges t) \<and> acyclic (set (wt_edges t)) \<and>
     (\<forall>a b. (a, b) \<in> set (wt_edges t) \<longrightarrow> live_in t a \<and> live_in t b)"

definition grounded :: "work_tables \<Rightarrow> bool" where
  "grounded t \<longleftrightarrow>
     (\<forall>a it b. item_row t a = Some it \<longrightarrow> relies it \<longrightarrow> (a, b) \<in> set (wt_edges t) \<longrightarrow> accepted_in t b)"

definition work_ok :: "work_tables \<Rightarrow> bool" where
  "work_ok t \<longleftrightarrow> rows_ok t \<and> edges_ok t \<and> grounded t"

lemma item_row_put [simp]: "item_row (putItem it t) i = (if i = wi_id it then Some it else item_row t i)"
  by (simp add: item_row_def putItem_def)

lemma edges_put [simp]: "wt_edges (putItem it t) = wt_edges t"
  by (simp add: putItem_def)

lemma item_row_setEdge [simp]: "item_row (setEdge e p t) i = item_row t i"
  by (simp add: item_row_def setEdge_def)

lemma edges_setEdge: "set (wt_edges (setEdge e p t)) = (if p then insert e (set (wt_edges t)) else set (wt_edges t) - {e})"
  by (auto simp: setEdge_def)

lemma distinct_setEdge: "distinct (wt_edges t) \<Longrightarrow> distinct (wt_edges (setEdge e p t))"
  by (simp add: setEdge_def)

lemma work_okD:
  assumes "work_ok t"
  shows "item_row t i = Some it \<Longrightarrow> wi_id it = i" "item_row t i = Some it \<Longrightarrow> i \<noteq> []"
    "item_row t i = Some it \<Longrightarrow> item_ok it" "distinct (wt_edges t)" "acyclic (set (wt_edges t))"
    "(a, b) \<in> set (wt_edges t) \<Longrightarrow> live_in t a" "(a, b) \<in> set (wt_edges t) \<Longrightarrow> live_in t b"
    "item_row t i = Some it \<Longrightarrow> relies it \<Longrightarrow> (i, b) \<in> set (wt_edges t) \<Longrightarrow> accepted_in t b"
  using assms unfolding work_ok_def rows_ok_def edges_ok_def grounded_def by blast+

lemma named_edges: "work_ok t \<Longrightarrow> \<forall>(a, b) \<in> set (wt_edges t). b \<noteq> []"
  using work_okD(2,7) by (fastforce simp: live_in_def)

text \<open>Writing one record keeps the invariant when the record is well formed and takes nothing from its neighbours.\<close>

lemma put_ok:
  assumes ok: "work_ok t" and row: "item_row t (wi_id it') = None \<or> item_row t (wi_id it') = Some it"
    and "wi_id it' \<noteq> []" "item_ok it'"
    and live: "wi_deleted it' \<Longrightarrow> \<forall>e \<in> set (wt_edges t). fst e \<noteq> wi_id it' \<and> snd e \<noteq> wi_id it'"
    and deps: "relies it' \<Longrightarrow> \<forall>b. (wi_id it', b) \<in> set (wt_edges t) \<longrightarrow> accepted_in t b"
    and kept: "item_row t (wi_id it') = Some it \<Longrightarrow> completedWork it \<Longrightarrow>
        completedWork it' \<or> (\<forall>e \<in> set (wt_edges t). snd e \<noteq> wi_id it')"
  shows "work_ok (putItem it' t)"
proof -
  let ?i = "wi_id it'"
  have accepted: "accepted_in (putItem it' t) b" if "accepted_in t b" "(a, b) \<in> set (wt_edges t)" for a b
    using that row kept by (fastforce simp: accepted_in_def)
  have fresh: "a \<noteq> ?i \<and> b \<noteq> ?i" if "item_row t ?i = None" "(a, b) \<in> set (wt_edges t)" for a b
    using that work_okD(6,7) [OF ok] by (fastforce simp: live_in_def)
  have "rows_ok (putItem it' t)" using ok assms(3,4) by (auto simp: work_ok_def rows_ok_def)
  moreover have "edges_ok (putItem it' t)"
    using ok live by (fastforce simp: work_ok_def edges_ok_def live_in_def)
  moreover have "grounded (putItem it' t)"
    unfolding grounded_def
  proof (intro allI impI)
    fix a x b assume a: "item_row (putItem it' t) a = Some x" "relies x" "(a, b) \<in> set (wt_edges (putItem it' t))"
    then have "accepted_in t b"
      using deps work_okD(8) [OF ok] by (cases "a = ?i") auto
    then show "accepted_in (putItem it' t) b" using accepted a(3) by auto
  qed
  ultimately show ?thesis by (simp add: work_ok_def)
qed

lemma drop_edge_ok: "work_ok t \<Longrightarrow> work_ok (setEdge e False t)"
proof -
  assume ok: "work_ok t"
  have sub: "set (wt_edges (setEdge e False t)) \<subseteq> set (wt_edges t)" by (auto simp: edges_setEdge)
  have "edges_ok (setEdge e False t)"
    unfolding edges_ok_def live_in_def
    using distinct_setEdge [OF work_okD(4) [OF ok]] acyclic_subset [OF work_okD(5) [OF ok] sub] work_okD(6,7) [OF ok] sub
    by (auto simp: live_in_def)
  then show ?thesis using ok sub unfolding work_ok_def rows_ok_def grounded_def accepted_in_def by fastforce
qed

section \<open>What conditions and writes do\<close>

lemma note_changed_tables [simp]: "ws_tables (note_changed i s) = ws_tables s"
  by (simp add: note_changed_def)

lemma within_batch_run [work_run]: "within_batch ids s = Inr (u, t) \<longleftrightarrow> length (ids s) \<le> batch_limit \<and> t = s"
  by (auto simp: within_batch_def)

lemma validate_run [work_run]:
  "validateWorkItem it s = Inr (u, t) \<longleftrightarrow> item_valid it \<and> t = s \<and>
     byteLength (inline_text it) \<le> inline_bytes \<and> byteLength (item_text it) \<le> record_bytes"
  by (auto simp: validateWorkItem_def work_run)

lemma save_run:
  assumes "save env it s = Inr (u, t)"
  shows "ws_tables t = putItem it (ws_tables s)" "item_valid it"
proof -
  obtain v where v: "check env s = Inr ((), v)" "item_valid it"
    "t = (note_changed (wi_id it) v)\<lparr>ws_tables := putItem it (ws_tables (note_changed (wi_id it) v))\<rparr>"
    using assms by (auto simp: save_def work_run)
  show "ws_tables t = putItem it (ws_tables s)" using v(3) check_quiet [OF v(1)] by simp
  show "item_valid it" by fact
qed

lemma finish_run:
  assumes "finish_item env queue it s = Inr (u, t)"
  shows "ws_tables t = putItem (it\<lparr>wi_revision := wq_revision queue + 1, wi_updatedAt := en_at env\<rparr>) (ws_tables s)"
  using save_run(1) [OF assms [unfolded finish_item_def]] .

lemma requireIdle_run [work_run]: "requireIdle it s = Inr (u, t) \<longleftrightarrow> idle it \<and> t = s"
  by (auto simp: requireIdle_def work_run)

lemma mutable_run [work_run]: "mutable it s = Inr (u, t) \<longleftrightarrow> \<not> unchangeable it \<and> t = s"
  by (auto simp: mutable_def work_run)

text \<open>Reading loops change nothing and see every edge.\<close>

lemma each_edge_reads:
  assumes "each_edge env i dir body acc s = Inr (acc', s')" "distinct (wt_edges (ws_tables s))"
    and body: "\<And>x acc u acc' go v. body x acc u = Inr ((acc', go), v) \<Longrightarrow> ws_tables u = ws_tables s \<Longrightarrow>
        ws_tables v = ws_tables u \<and> (J acc \<longrightarrow> (if go then J acc' \<and> P x else Q acc'))"
    and "J acc"
    and fin: "\<And>acc. J acc \<Longrightarrow> \<forall>x \<in> set (edges_after (ws_tables s) i dir []). P x \<Longrightarrow> Q acc"
  shows "ws_tables s' = ws_tables s \<and> Q acc'"
proof -
  let ?t = "ws_tables s"
  let ?I = "\<lambda>acc c t. t = ?t \<and> J acc \<and>
    (\<forall>x \<in> set (edges_after ?t i dir []). x \<in> set (to_come ?t i dir c) \<or> P x)"
  have "ws_tables s' = ?t \<and> Q acc'"
  proof (rule edge_loop_inv [OF assms(1) [unfolded each_edge_def], of ?I "\<lambda>acc t. t = ?t \<and> Q acc"])
    show "?I acc start_cursor ?t" using assms(4) by (simp add: to_come_start)
    show "distinct (wt_edges t)" if "?I acc c t" for acc c t using that assms(2) by simp
    show "if go then ?I acc' c' (ws_tables v) else ws_tables v = ?t \<and> Q acc'"
      if "?I acc c (ws_tables u)" "to_come (ws_tables u) i dir c = x # to_come (ws_tables u) i dir c'"
        "body x acc u = Inr ((acc', go), v)" for acc c x c' u acc' go v
      using body [OF that(3)] that(1,2) by auto
    show "t = ?t \<and> Q acc" if "?I acc c t" "to_come t i dir c = []" for acc c t
      using that fin [of acc] by auto
  qed
  then show ?thesis .
qed

lemma edges_after_all:
  assumes "work_ok t"
  shows "x \<in> set (edges_after t i Dependencies []) \<longleftrightarrow> (i, x) \<in> set (wt_edges t)"
    "x \<in> set (edges_after t i Dependents []) \<longleftrightarrow> (x, i) \<in> set (wt_edges t)"
proof -
  have first: "[] < y" if "y \<noteq> []" for y :: js_text using that by (cases y) simp_all
  have "[] < a \<and> [] < b" if "(a, b) \<in> set (wt_edges t)" for a b
    using work_okD(6,7) [OF assms that] work_okD(2) [OF assms] first by (metis live_in_def)
  then show "x \<in> set (edges_after t i Dependencies []) \<longleftrightarrow> (i, x) \<in> set (wt_edges t)"
    "x \<in> set (edges_after t i Dependents []) \<longleftrightarrow> (x, i) \<in> set (wt_edges t)"
    by (auto simp: edges_after_def edge_targets_iff)
qed

lemma requireReady_run:
  assumes "requireReady env it s = Inr (u, t)" "work_ok (ws_tables s)"
  shows "ws_tables t = ws_tables s \<and> wi_blockers it = [] \<and> \<not> wi_unresolvedDependencies it \<and>
    (\<forall>b. (wi_id it, b) \<in> set (wt_edges (ws_tables s)) \<longrightarrow> accepted_in (ws_tables s) b)"
proof -
  let ?body = "\<lambda>x _. andThen (live_item x) (\<lambda>d. give (completedWork d, completedWork d))"
  let ?E = "set (edges_after (ws_tables s) (wi_id it) Dependencies [])"
  have free: "wi_blockers it = []" "\<not> wi_unresolvedDependencies it"
    using assms(1) by (auto simp: requireReady_def work_run split: if_splits)
  with assms(1) have loop: "each_edge env (wi_id it) Dependencies ?body True s = Inr (True, t)"
    by (auto simp: requireReady_def work_run)
  have "ws_tables t = ws_tables s \<and> (True \<longrightarrow> (\<forall>b \<in> ?E. accepted_in (ws_tables s) b))"
  proof (rule each_edge_reads [OF loop work_okD(4) [OF assms(2)], of "\<lambda>acc. acc" "accepted_in (ws_tables s)"
        "\<lambda>acc. acc \<longrightarrow> (\<forall>b \<in> ?E. accepted_in (ws_tables s) b)"])
    show "ws_tables v = ws_tables w \<and> (acc \<longrightarrow> (if go then acc' \<and> accepted_in (ws_tables s) x
        else acc' \<longrightarrow> (\<forall>b \<in> ?E. accepted_in (ws_tables s) b)))"
      if "?body x acc w = Inr ((acc', go), v)" "ws_tables w = ws_tables s" for x acc w acc' go v
      using that by (auto simp: work_run accepted_in_def)
  qed simp_all
  then show ?thesis using free edges_after_all [OF assms(2)] by blast
qed

section \<open>How records move forward\<close>

text \<open>
  Claim generations and criteria revisions never go back, a claim generation stands for one holder, work
  that was accepted stays accepted with the same evidence for as long as its record is kept, and a deleted
  record stays deleted.
\<close>

definition item_advances :: "work_item \<Rightarrow> work_item \<Rightarrow> bool" where
  "item_advances it it' \<longleftrightarrow>
     wi_claimGeneration it \<le> wi_claimGeneration it' \<and> wi_criteriaRevision it \<le> wi_criteriaRevision it' \<and>
     (\<forall>c'. wi_claim it' = Some c' \<longrightarrow> wi_claimGeneration it' = wi_claimGeneration it \<longrightarrow>
        (\<exists>c. wi_claim it = Some c \<and> wc_holder c = wc_holder c')) \<and>
     (completedWork it \<longrightarrow> \<not> wi_deleted it' \<longrightarrow> completedWork it' \<and> wi_evidence it' = wi_evidence it \<and>
        wi_acceptance it' = wi_acceptance it) \<and>
     (wi_deleted it \<longrightarrow> wi_deleted it')"

definition advances :: "work_tables \<Rightarrow> work_tables \<Rightarrow> bool" where
  "advances t t' \<longleftrightarrow> (\<forall>i it. item_row t i = Some it \<longrightarrow> (\<exists>it'. item_row t' i = Some it' \<and> item_advances it it'))"

lemma item_advances_refl: "item_advances it it"
  by (simp add: item_advances_def)

lemma item_advances_trans:
  assumes ab: "item_advances a b" and bc: "item_advances b c"
  shows "item_advances a c"
proof -
  have gen: "wi_claimGeneration a \<le> wi_claimGeneration b" "wi_claimGeneration b \<le> wi_claimGeneration c"
    and rev: "wi_criteriaRevision a \<le> wi_criteriaRevision b" "wi_criteriaRevision b \<le> wi_criteriaRevision c"
    and del: "wi_deleted a \<Longrightarrow> wi_deleted b" "wi_deleted b \<Longrightarrow> wi_deleted c"
    using ab bc by (simp_all add: item_advances_def)
  have "\<exists>k. wi_claim a = Some k \<and> wc_holder k = wc_holder k'" if k': "wi_claim c = Some k'" "wi_claimGeneration c = wi_claimGeneration a" for k'
  proof -
    have same: "wi_claimGeneration c = wi_claimGeneration b" "wi_claimGeneration b = wi_claimGeneration a" using gen k'(2) by simp_all
    obtain m where m: "wi_claim b = Some m" "wc_holder m = wc_holder k'" using bc k'(1) same(1) by (auto simp: item_advances_def)
    then obtain k where "wi_claim a = Some k" "wc_holder k = wc_holder m" using ab same(2) by (auto simp: item_advances_def)
    with m(2) show ?thesis by simp
  qed
  moreover have "completedWork c \<and> wi_evidence c = wi_evidence a \<and> wi_acceptance c = wi_acceptance a"
    if "completedWork a" "\<not> wi_deleted c"
  proof -
    have "completedWork b \<and> wi_evidence b = wi_evidence a \<and> wi_acceptance b = wi_acceptance a"
      using ab that del(2) by (auto simp: item_advances_def)
    then show ?thesis using bc that(2) by (auto simp: item_advances_def)
  qed
  ultimately show ?thesis using gen rev del by (simp add: item_advances_def)
qed

lemma advances_refl: "advances t t"
  using item_advances_refl by (auto simp: advances_def)

lemma advances_trans: "advances a b \<Longrightarrow> advances b c \<Longrightarrow> advances a c"
  unfolding advances_def using item_advances_trans by metis

text \<open>Mutations of tasks leave groups and placements alone and give no group's identifier to a task.\<close>

definition keeps_layout :: "work_tables \<Rightarrow> work_tables \<Rightarrow> bool" where
  "keeps_layout t t' \<longleftrightarrow>
     wt_groups t' = wt_groups t \<and> wt_placements t' = wt_placements t \<and> (js_wf (wt_items t) \<longrightarrow> js_wf (wt_items t')) \<and>
     (\<forall>i. item_row t' i \<noteq> None \<longrightarrow> item_row t i \<noteq> None \<or> group_row t i = None)"

definition work_step :: "work_tables \<Rightarrow> work_tables \<Rightarrow> bool" where
  "work_step t t' \<longleftrightarrow> advances t t' \<and> keeps_layout t t'"

lemma work_step_refl: "work_step t t"
  by (simp add: work_step_def advances_refl keeps_layout_def)

lemma work_step_trans: "work_step a b \<Longrightarrow> work_step b c \<Longrightarrow> work_step a c"
  unfolding work_step_def keeps_layout_def group_row_def using advances_trans by (metis (no_types, lifting))

lemma work_step_edge: "work_step t (setEdge e p t)"
  by (simp add: work_step_def advances_def item_advances_refl keeps_layout_def) (simp add: setEdge_def)

lemma work_step_put:
  assumes "item_row t (wi_id it') = None \<and> group_row t (wi_id it') = None \<or>
    item_row t (wi_id it') = Some it \<and> item_advances it it'"
  shows "work_step t (putItem it' t)"
proof -
  have "advances t (putItem it' t)" using assms item_advances_refl by (auto simp: advances_def)
  moreover have "keeps_layout t (putItem it' t)"
    using assms by (auto simp: keeps_layout_def) (simp_all add: putItem_def)
  ultimately show ?thesis by (simp add: work_step_def)
qed

text \<open>A change of one live record that asks nothing of its neighbours.\<close>

definition good_change :: "work_tables \<Rightarrow> work_item \<Rightarrow> work_item \<Rightarrow> bool" where
  "good_change t it it' \<longleftrightarrow>
     wi_id it' = wi_id it \<and> \<not> wi_deleted it' \<and> item_ok it' \<and> item_advances it it' \<and>
     (relies it' \<longrightarrow> (\<forall>b. (wi_id it, b) \<in> set (wt_edges t) \<longrightarrow> accepted_in t b))"

lemma good_change_ok:
  assumes "work_ok t" "item_row t i = Some it" "good_change t it it'"
  shows "work_ok (putItem it' t) \<and> work_step t (putItem it' t)"
proof -
  have i: "wi_id it = i" "wi_id it' = i" using work_okD(1) [OF assms(1,2)] assms(3) by (simp_all add: good_change_def)
  then have row: "item_row t (wi_id it') = Some it" using assms(2) by simp
  have "work_ok (putItem it' t)"
    by (rule put_ok [OF assms(1) disjI2 [OF row]])
      (use assms(3) work_okD(2) [OF assms(1,2)] i in \<open>auto simp: good_change_def item_advances_def\<close>)
  moreover have "work_step t (putItem it' t)"
    using row assms(3) by (intro work_step_put [of _ _ it]) (auto simp: good_change_def)
  ultimately show ?thesis by simp
qed

lemma relies_kept: "work_ok t \<Longrightarrow> item_row t i = Some it \<Longrightarrow> relies it \<Longrightarrow>
   \<forall>b. (wi_id it, b) \<in> set (wt_edges t) \<longrightarrow> accepted_in t b"
  using work_okD(1,8) by blast

lemma changeable: "\<not> unchangeable it \<Longrightarrow> \<not> completedWork it \<and> \<not> accepted_state it \<and> wi_disposition it \<noteq> W_Archived"
  by (auto simp: unchangeable_def completedWork_def accepted_state_def)

lemma accepted_completed: "completedWork it \<Longrightarrow> accepted_state it"
  by (auto simp: completedWork_def accepted_state_def)

lemmas change_defs = good_change_def item_ok_def item_advances_def relies_def completedWork_def accepted_state_def

section \<open>The mutations keep the invariant\<close>

text \<open>A mutation that returned wrote one record and the change is a good one.\<close>

definition changes_well :: "work_state \<Rightarrow> work_item \<Rightarrow> work_state \<Rightarrow> bool" where
  "changes_well s it t \<longleftrightarrow> (\<exists>it'. ws_tables t = putItem it' (ws_tables s) \<and> good_change (ws_tables s) it it')"

lemma finish_changes:
  assumes "finish_item env queue it' s = Inr (u, t)"
    and "good_change (ws_tables s) it (it'\<lparr>wi_revision := wq_revision queue + 1, wi_updatedAt := en_at env\<rparr>)"
  shows "changes_well s it t"
  using finish_run [OF assms(1)] assms(2) by (auto simp: changes_well_def)


end
