(* ===== verification/Work_Preservation.thy ===== *)
theory Work_Preservation
  imports Work_Invariants
begin

text \<open>
  Every mutation of a work item keeps the invariant of the tables and moves the records forward.
\<close>

section \<open>Mutations that write one record\<close>

lemma update_changes:
  assumes run: "update_item env queue it w s = Inr (u, t)"
    and ok: "work_ok (ws_tables s)" "item_row (ws_tables s) i = Some it" "\<not> wi_deleted it"
  shows "changes_well s it t"
proof -
  have free: "\<not> unchangeable it" and idle: "changes_meaning w \<Longrightarrow> idle it"
    and fin: "finish_item env queue (updated_item w it) s = Inr (u, t)"
    using run by (auto simp: update_item_def work_run split: if_splits)
  show ?thesis
    by (rule finish_changes [OF fin])
      (use ok(3) idle changeable [OF free] work_okD(3) [OF ok(1,2)] relies_kept [OF ok(1,2)] in
        \<open>auto simp: updated_item_def Let_def idle_def change_defs\<close>)
qed

lemma blockers_changes:
  assumes run: "set_blockers env queue it bs s = Inr (u, t)"
    and ok: "work_ok (ws_tables s)" "item_row (ws_tables s) i = Some it" "\<not> wi_deleted it"
  shows "changes_well s it t"
proof -
  obtain it' where free: "\<not> unchangeable it" "idle it" and it': "it' = it\<lparr>wi_blockers := bs, wi_disposition := (if bs \<noteq> [] then W_Blocked else W_Pending),
       wi_previousDisposition := (if bs \<noteq> [] then held_disposition it else None), wi_evidence := [],
       wi_reason := (case bs of [] \<Rightarrow> None | b # _ \<Rightarrow> Some b)\<rparr>"
    and fin: "finish_item env queue it' s = Inr (u, t)"
    using run by (auto simp: set_blockers_def work_run)
  show ?thesis
    by (rule finish_changes [OF fin])
      (use ok(3) free(2) changeable [OF free(1)] work_okD(3) [OF ok(1,2)] in \<open>auto simp: it' idle_def change_defs\<close>)
qed

lemma disposition_changes:
  assumes run: "set_disposition env queue it val reason s = Inr (u, t)"
    and val: "val \<in> set [W_Pending, W_Ready, W_Active, W_Waiting, W_Blocked]"
    and ok: "work_ok (ws_tables s)" "item_row (ws_tables s) i = Some it" "\<not> wi_deleted it"
  shows "changes_well s it t"
proof -
  let ?it = "it\<lparr>wi_disposition := val, wi_reason := Some reason,
       wi_previousDisposition := (if val \<in> set [W_Waiting, W_Blocked] then held_disposition it else None)\<rparr>"
  obtain v where free: "\<not> unchangeable it"
    and ready: "(if val \<in> set [W_Ready, W_Active] then requireReady env it else give ()) s = Inr ((), v)"
    and fin: "finish_item env queue ?it v = Inr (u, t)"
    using run by (auto simp: set_disposition_def work_run split: if_splits)
  have v: "ws_tables v = ws_tables s"
    using ready requireReady_run [OF _ ok(1), of env it] by (auto simp: work_run split: if_splits)
  have "changes_well v it t"
    by (rule finish_changes [OF fin])
      (use ok(3) val v changeable [OF free] work_okD(3) [OF ok(1,2)] relies_kept [OF ok(1,2)] in \<open>auto simp: change_defs\<close>)
  then show ?thesis using v by (simp add: changes_well_def)
qed

lemma claim_changes:
  assumes run: "claim_item env queue it holder s = Inr (u, t)"
    and ok: "work_ok (ws_tables s)" "item_row (ws_tables s) i = Some it" "\<not> wi_deleted it"
  shows "changes_well s it t"
proof -
  obtain v where free: "\<not> unchangeable it" and ready: "requireReady env it s = Inr ((), v)"
    and fin: "finish_item env queue (it\<lparr>wi_disposition := W_Active, wi_claimGeneration := wi_claimGeneration it + 1,
       wi_claim := Some \<lparr>wc_generation = wi_claimGeneration it + 1, wc_holder = holder, wc_releasePending = False\<rparr>,
       wi_execution := None, wi_evidence := [], wi_acceptance := None\<rparr>) v = Inr (u, t)"
    using run by (auto simp: claim_item_def work_run split: if_splits)
  note r = requireReady_run [OF ready ok(1)]
  have "changes_well v it t"
    by (rule finish_changes [OF fin])
      (use ok(3) r changeable [OF free] work_okD(3) [OF ok(1,2)] in \<open>auto simp: change_defs\<close>)
  then show ?thesis using r by (simp add: changes_well_def)
qed

lemma release_changes:
  assumes run: "release_item env queue it releasing s = Inr (u, t)"
    and ok: "work_ok (ws_tables s)" "item_row (ws_tables s) i = Some it" "\<not> wi_deleted it"
  shows "changes_well s it t"
proof -
  obtain claim where claim: "wi_claim it = Some claim"
    using run by (auto simp: release_item_def work_run split: option.splits)
  define observation where "observation = wa_observeExecution (en_authority env) it"
  define stopped where "stopped = observed_stop observation"
  have fin: "finish_item env queue (it
               \<lparr>wi_execution := (if observation = None then wi_execution it else observation),
                wi_claim := (if stopped then None else Some (claim\<lparr>wc_releasePending := True\<rparr>)),
                wi_disposition := (if wi_disposition it = W_Cancelled then W_Cancelled
                                   else if stopped then W_Pending else W_Waiting),
                wi_reason := Some (if stopped then ascii ''execution-settled''
                                   else ascii ''execution-reconciliation-required'')\<rparr>) s = Inr (u, t)"
  proof -
    note go = run [unfolded release_item_def claim option.case Let_def, folded observation_def, folded stopped_def]
    have no: "\<not> other_execution observation (wi_execution it)"
      using go by (cases "other_execution observation (wi_execution it)") (simp_all add: stop_run)
    note allowed = go [unfolded if_not_P [OF no]]
    have held: "\<not> (releasing \<and> wh_actor (wc_holder claim) \<noteq> wa_actor (en_authority env))"
    proof
      assume denied: "releasing \<and> wh_actor (wc_holder claim) \<noteq> wa_actor (en_authority env)"
      show False using allowed [unfolded if_P [OF denied]] by (simp add: stop_run)
    qed
    show ?thesis using allowed [unfolded if_not_P [OF held]] .
  qed
  have "\<not> accepted_state it" using work_okD(3) [OF ok(1,2)] claim by (auto simp: item_ok_def)
  then show ?thesis
    by (intro finish_changes [OF fin])
      (use ok(3) claim work_okD(3) [OF ok(1,2)] relies_kept [OF ok(1,2)] in \<open>auto simp: change_defs\<close>)
qed

lemma submit_changes:
  assumes run: "submit_item env queue it g c ev s = Inr (u, t)"
    and ok: "work_ok (ws_tables s)" "item_row (ws_tables s) i = Some it" "\<not> wi_deleted it"
  shows "changes_well s it t"
proof -
  obtain v where free: "\<not> unchangeable it" and ready: "requireReady env it s = Inr ((), v)"
    and fin: "finish_item env queue (it\<lparr>wi_disposition := W_Completion_Claimed, wi_evidence := ev\<rparr>) v = Inr (u, t)"
    using run by (auto simp: submit_item_def work_run split: if_splits)
  note r = requireReady_run [OF ready ok(1)]
  have "changes_well v it t"
    by (rule finish_changes [OF fin])
      (use ok(3) r changeable [OF free] work_okD(3) [OF ok(1,2)] in \<open>auto simp: change_defs\<close>)
  then show ?thesis using r by (simp add: changes_well_def)
qed

text \<open>What a validation that returned found, and what an acceptance wrote.\<close>

lemma validate_item_run:
  assumes run: "validate_item env queue it r g c ev auth verdict reason s = Inr (u, t)"
  obtains v where "requireReady env it s = Inr ((), v)" "wi_disposition it = W_Completion_Claimed"
    "r = wi_revision it" "g = wi_claimGeneration it" "c = wi_criteriaRevision it" "ev = wi_evidence it"
    "wa_validateCompletion (en_authority env) queue it auth verdict reason"
    "verdict = Verdict_Refuse" "finish_item env queue (it\<lparr>wi_reason := Some reason\<rparr>) v = Inr (u, t)"
  | v observation where "requireReady env it s = Inr ((), v)" "wi_disposition it = W_Completion_Claimed"
    "r = wi_revision it" "g = wi_claimGeneration it" "c = wi_criteriaRevision it" "ev = wi_evidence it"
    "wa_validateCompletion (en_authority env) queue it auth verdict reason"
    "verdict = Verdict_Accept" "wi_claim it \<noteq> None \<Longrightarrow> observed_stop observation"
    "finish_item env queue (it\<lparr>wi_disposition := W_Completed, wi_claim := None, wi_execution := observation,
       wi_acceptance := Some \<lparr>ac_actor = wa_actor (en_authority env), ac_authority = auth, ac_reason = reason,
         ac_criteriaRevision = wi_criteriaRevision it\<rparr>\<rparr>) v = Inr (u, t)"
proof -
  define obs where "obs = (if wi_claim it = None then wi_execution it else wa_observeExecution (en_authority env) it)"
  obtain v where v: "requireReady env it s = Inr ((), v)" and
    go: "(if wi_disposition it \<noteq> W_Completion_Claimed \<or> r \<noteq> wi_revision it \<or>
        g \<noteq> wi_claimGeneration it \<or> c \<noteq> wi_criteriaRevision it \<or> ev \<noteq> wi_evidence it
     then refuseWork Stale_Evidence
     else if \<not> wa_validateCompletion (en_authority env) queue it auth verdict reason then refuseWork Denied
     else if verdict = Verdict_Refuse then finish_item env queue (it\<lparr>wi_reason := Some reason\<rparr>)
     else if wi_claim it \<noteq> None \<and> \<not> observed_stop obs then refuseWork Blocked_Transition
     else if other_execution obs (wi_execution it) then refuseWork Stale_Evidence
     else finish_item env queue (it
            \<lparr>wi_disposition := W_Completed, wi_claim := None, wi_execution := obs,
             wi_acceptance := Some \<lparr>ac_actor = wa_actor (en_authority env), ac_authority = auth, ac_reason = reason,
               ac_criteriaRevision = wi_criteriaRevision it\<rparr>\<rparr>)) v = Inr (u, t)"
    using run unfolding validate_item_def Let_def andThen_run obs_def by auto
  show thesis
  proof (cases verdict)
    case Verdict_Accept
    then show thesis using go by (intro that(2) [OF v]) (auto simp: stop_run split: if_splits)
  next
    case Verdict_Refuse
    then show thesis using go by (intro that(1) [OF v]) (auto simp: stop_run split: if_splits)
  qed
qed

lemma validate_changes:
  assumes run: "validate_item env queue it r g c ev auth verdict reason s = Inr (u, t)"
    and ev: "ev \<noteq> []"
    and ok: "work_ok (ws_tables s)" "item_row (ws_tables s) i = Some it" "\<not> wi_deleted it"
  shows "changes_well s it t"
  using run
proof (cases rule: validate_item_run)
  case (1 v)
  note ready = requireReady_run [OF 1(1) ok(1)]
  have "changes_well v it t"
    by (rule finish_changes [OF 1(9)])
      (use ok(3) ready 1(2) work_okD(3) [OF ok(1,2)] in \<open>auto simp: change_defs\<close>)
  then show ?thesis using ready by (simp add: changes_well_def)
next
  case (2 v observation)
  note ready = requireReady_run [OF 2(1) ok(1)]
  have "changes_well v it t"
    by (rule finish_changes [OF 2(10)])
      (use ok(3) ready 2(2,6) ev work_okD(3) [OF ok(1,2)] in \<open>auto simp: change_defs\<close>)
  then show ?thesis using ready by (simp add: changes_well_def)
qed

lemma cancel_changes:
  assumes run: "cancel_item env queue it s = Inr (u, t)"
    and ok: "work_ok (ws_tables s)" "item_row (ws_tables s) i = Some it" "\<not> wi_deleted it"
  shows "changes_well s it t"
proof -
  have free: "\<not> unchangeable it"
    and fin: "finish_item env queue (it\<lparr>wi_disposition := W_Cancelled, wi_reason := Some (ascii ''record-cancelled'')\<rparr>) s = Inr (u, t)"
    using run by (auto simp: cancel_item_def work_run)
  show ?thesis
    by (rule finish_changes [OF fin])
      (use ok(3) changeable [OF free] work_okD(3) [OF ok(1,2)] relies_kept [OF ok(1,2)] in \<open>auto simp: change_defs\<close>)
qed

lemma archive_changes:
  assumes run: "archive_item env queue it s = Inr (u, t)"
    and ok: "work_ok (ws_tables s)" "item_row (ws_tables s) i = Some it" "\<not> wi_deleted it"
  shows "changes_well s it t"
proof -
  have free: "idle it" "wi_disposition it \<in> set [W_Completed, W_Cancelled]"
    and fin: "finish_item env queue (it\<lparr>wi_disposition := W_Archived, wi_previousDisposition := Some (wi_disposition it)\<rparr>) s = Inr (u, t)"
    using run by (auto simp: archive_item_def work_run split: if_splits)
  show ?thesis
    by (rule finish_changes [OF fin])
      (use ok(3) free work_okD(3) [OF ok(1,2)] relies_kept [OF ok(1,2)] in \<open>auto simp: idle_def change_defs\<close>)
qed

section \<open>Adding and linking\<close>

lemma valid_id: "item_valid it \<Longrightarrow> wi_id it \<noteq> []"
  by (auto simp: item_valid_def reference_valid_def)

lemma add_keeps:
  assumes run: "add_item env queue None i f s = Inr (u, t)" and ok: "work_ok (ws_tables s)" and new: "item_row (ws_tables s) i = None"
  shows "work_ok (ws_tables t) \<and> work_step (ws_tables s) (ws_tables t)"
proof -
  have saved: "save env (new_item queue (en_at env) i f) s = Inr (u, t)" and "group_row (ws_tables s) i = None"
    using run by (auto simp: add_item_def work_run split: if_splits)
  have i: "wi_id (new_item queue (en_at env) i f) = i" by (simp add: new_item_def)
  have "work_ok (putItem (new_item queue (en_at env) i f) (ws_tables s))"
    by (rule put_ok [OF ok])
      (use new valid_id [OF save_run(2) [OF saved]] in \<open>auto simp: new_item_def change_defs\<close>)
  moreover have "work_step (ws_tables s) (putItem (new_item queue (en_at env) i f) (ws_tables s))"
    by (rule work_step_put) (simp add: i new \<open>group_row (ws_tables s) i = None\<close>)
  ultimately show ?thesis using save_run(1) [OF saved] by simp
qed

lemma add_edge_ok:
  assumes ok: "work_ok t" and "acyclic (insert (a, b) (set (wt_edges t)))" "live_in t a" "live_in t b"
    and idle: "\<And>it. item_row t a = Some it \<Longrightarrow> \<not> relies it"
  shows "work_ok (setEdge (a, b) True t)"
proof -
  have "edges_ok (setEdge (a, b) True t)"
    using ok assms(2-4) distinct_setEdge [OF work_okD(4) [OF ok]]
    by (auto simp: edges_ok_def work_ok_def edges_setEdge live_in_def)
  moreover have "grounded (setEdge (a, b) True t)"
    using ok idle by (auto simp: grounded_def work_ok_def edges_setEdge accepted_in_def)
  ultimately show ?thesis using ok by (simp add: work_ok_def rows_ok_def)
qed

lemma set_link_run:
  assumes run: "set_link env queue it dep linking s = Inr (u, t)" and ok: "work_ok (ws_tables s)"
  obtains d v where "\<not> unchangeable it" "idle it" "item_row (ws_tables s) dep = Some d" "\<not> wi_deleted d" "wi_id d = dep"
    "ws_tables v = setEdge (wi_id it, dep) linking (ws_tables s)"
    "linking \<Longrightarrow> acyclic (insert (wi_id it, dep) (set (wt_edges (ws_tables s))))"
    "finish_item env queue (it\<lparr>wi_disposition := W_Pending, wi_evidence := [], wi_acceptance := None,
       wi_unresolvedDependencies := (wi_unresolvedDependencies it \<or> \<not> linking \<and> \<not> completedWork d)\<rparr>) v = Inr (u, t)"
proof -
  let ?ex = "\<lambda>d. if linking then give True
    else each_edge env (wi_id it) Dependencies (\<lambda>x ex. give (ex \<or> x = wi_id d, True)) False"
  obtain d w y c where free: "\<not> unchangeable it" "idle it" and d: "item_row (ws_tables s) dep = Some d" "\<not> wi_deleted d"
    and ex: "?ex d s = Inr (True, w)"
    and cyc: "(if linking then link_cycle env (wi_id it) (wi_id d) else give None) w = Inr (None, y)"
    and fin: "finish_item env queue (it\<lparr>wi_disposition := W_Pending, wi_evidence := [], wi_acceptance := None,
       wi_unresolvedDependencies := (wi_unresolvedDependencies it \<or> \<not> linking \<and> \<not> completedWork d)\<rparr>)
       (y\<lparr>ws_tables := setEdge (wi_id it, wi_id d) linking (ws_tables y)\<rparr>) = Inr (u, t)"
    using run by (auto simp: set_link_def work_run split: if_splits)
  have id: "wi_id d = dep" using work_okD(1) [OF ok d(1)] .
  have w: "ws_tables w = ws_tables s"
  proof (cases linking)
    case False
    then have loop: "each_edge env (wi_id it) Dependencies (\<lambda>x ex. give (ex \<or> x = wi_id d, True)) False s = Inr (True, w)"
      using ex by simp
    show ?thesis
      using each_edge_reads [OF loop work_okD(4) [OF ok], of "\<lambda>_. True" "\<lambda>_. True" "\<lambda>_. True"] by (auto simp: work_run)
  qed (use ex in \<open>simp add: work_run\<close>)
  have y: "ws_tables y = ws_tables s \<and> (linking \<longrightarrow> acyclic (insert (wi_id it, dep) (set (wt_edges (ws_tables s)))))"
  proof (cases linking)
    case True
    then have "link_cycle env (wi_id it) dep w = Inr (None, y)" using cyc id by simp
    from link_cycle_spec [OF this] show ?thesis
      using w work_okD(4,5) [OF ok] named_edges [OF ok] by simp
  qed (use cyc w in \<open>simp add: work_run\<close>)
  show thesis using y fin id by (intro that [OF free d id, where v = "y\<lparr>ws_tables := setEdge (wi_id it, wi_id d) linking (ws_tables y)\<rparr>"]) simp_all
qed

lemma set_link_keeps:
  assumes run: "set_link env queue it dep linking s = Inr (u, t)"
    and ok: "work_ok (ws_tables s)" "item_row (ws_tables s) i = Some it" "\<not> wi_deleted it"
  shows "work_ok (ws_tables t) \<and> work_step (ws_tables s) (ws_tables t)"
  using run ok(1)
proof (cases rule: set_link_run)
  case (1 d v)
  have i: "wi_id it = i" using work_okD(1) [OF ok(1,2)] .
  have no: "\<not> relies it" using changeable [OF 1(1)] 1(2) by (auto simp: relies_def idle_def)
  have mid: "work_ok (ws_tables v)"
  proof (cases linking)
    case True
    have "work_ok (setEdge (i, dep) True (ws_tables s))"
      by (rule add_edge_ok) (use ok 1(3,4,7) i no True in \<open>auto simp: live_in_def\<close>)
    then show ?thesis using 1(6) i True by simp
  qed (use 1(6) drop_edge_ok [OF ok(1)] in simp)
  have row: "item_row (ws_tables v) i = Some it" using 1(6) ok(2) by simp
  have "changes_well v it t"
    by (rule finish_changes [OF 1(8)])
      (use ok(3) 1(2) changeable [OF 1(1)] work_okD(3) [OF ok(1,2)] in \<open>auto simp: idle_def change_defs\<close>)
  then have "work_ok (ws_tables t) \<and> work_step (ws_tables v) (ws_tables t)"
    using good_change_ok [OF mid row] by (auto simp: changes_well_def)
  moreover have "work_step (ws_tables s) (ws_tables v)" using 1(6) by (simp add: work_step_edge)
  ultimately show ?thesis using work_step_trans by blast
qed

section \<open>Deleting\<close>

text \<open>Taking away an edge already yielded leaves what is still to come.\<close>

lemma to_come_still:
  assumes "distinct (to_come t i dir c)" "x \<notin> set (to_come t i dir c)"
    and targets: "set (edge_targets t' i dir) = set (edge_targets t i dir) - {x}" and dist: "distinct (wt_edges t')"
  shows "set (to_come t' i dir c) = set (to_come t i dir c)" "distinct (to_come t' i dir c)"
proof -
  have same: "set (edges_after t' i dir after) = set (edges_after t i dir after)" if "x \<notin> set (edges_after t i dir after)" for after
    using targets that by (auto simp: edges_after_def)
  have "distinct (edges_after t' i dir after)" for after using distinct_targets [OF dist] by (simp add: edges_after_def)
  then show "set (to_come t' i dir c) = set (to_come t i dir c)" "distinct (to_come t' i dir c)"
    using same assms(1,2) by (auto simp: to_come_def split: if_splits)
qed

lemma orphan_run:
  assumes run: "orphan env queue item x s = Inr (u, t)"
    and ok: "work_ok (ws_tables s)" "x \<noteq> item"
  shows "work_ok (ws_tables t) \<and> work_step (ws_tables s) (ws_tables t) \<and> item_row (ws_tables t) item = item_row (ws_tables s) item \<and>
    set (wt_edges (ws_tables t)) = set (wt_edges (ws_tables s)) - {(x, item)}"
proof -
  obtain d where d: "item_row (ws_tables s) x = Some d" "\<not> wi_deleted d" "idle d" "\<not> completedWork d"
    and saved: "save env (d\<lparr>wi_unresolvedDependencies := True, wi_disposition := W_Blocked,
         wi_reason := Some (ascii ''dependency-deleted''), wi_revision := wq_revision queue + 1, wi_updatedAt := en_at env\<rparr>)
        (s\<lparr>ws_tables := setEdge (x, item) False (ws_tables s)\<rparr>) = Inr (u, t)"
    using run by (auto simp: orphan_def work_run split: if_splits)
  let ?d = "d\<lparr>wi_unresolvedDependencies := True, wi_disposition := W_Blocked,
         wi_reason := Some (ascii ''dependency-deleted''), wi_revision := wq_revision queue + 1, wi_updatedAt := en_at env\<rparr>"
  have id: "wi_id d = x" using work_okD(1) [OF ok(1) d(1)] .
  have t: "ws_tables t = putItem ?d (setEdge (x, item) False (ws_tables s))" using save_run(1) [OF saved] by simp
  have good: "good_change (setEdge (x, item) False (ws_tables s)) d ?d"
    using d(2-4) work_okD(3) [OF ok(1) d(1)] by (auto simp: idle_def change_defs)
  have changed: "work_ok (ws_tables t)" "work_step (setEdge (x, item) False (ws_tables s)) (ws_tables t)"
    using good_change_ok [OF drop_edge_ok [OF ok(1)] _ good, where i = x] d(1) t by simp_all
  have "work_step (ws_tables s) (setEdge (x, item) False (ws_tables s))" by (simp add: work_step_edge)
  then have "work_step (ws_tables s) (ws_tables t)" using changed(2) by (rule work_step_trans)
  moreover have "item_row (ws_tables t) item = item_row (ws_tables s) item" using id ok(2) by (simp add: t)
  moreover have "set (wt_edges (ws_tables t)) = set (wt_edges (ws_tables s)) - {(x, item)}" by (simp add: t edges_setEdge)
  ultimately show ?thesis using changed(1) by blast
qed

lemma eachWorkEdge_inv:
  assumes run: "eachWorkEdge env i dir visit s = Inr (u, t)" and start: "work_ok (ws_tables s)" "I (ws_tables s)"
    and visit: "\<And>x v w. work_ok (ws_tables v) \<Longrightarrow> I (ws_tables v) \<Longrightarrow> x \<in> set (edge_targets (ws_tables v) i dir) \<Longrightarrow>
        visit x v = Inr ((), w) \<Longrightarrow> work_ok (ws_tables w) \<and> I (ws_tables w) \<and>
          set (edge_targets (ws_tables w) i dir) = set (edge_targets (ws_tables v) i dir) - {x}"
  shows "work_ok (ws_tables t) \<and> I (ws_tables t) \<and> set (edge_targets (ws_tables t) i dir) = {}"
proof -
  let ?J = "\<lambda>(acc :: unit) c t. work_ok t \<and> I t \<and> set (edge_targets t i dir) = set (to_come t i dir c) \<and> distinct (to_come t i dir c)"
  show ?thesis
  proof (rule edge_loop_inv [OF run [unfolded eachWorkEdge_def each_edge_def], of ?J])
    have "set (edge_targets (ws_tables s) i dir) = set (edges_after (ws_tables s) i dir [])"
      using edges_after_all [OF start(1)] by (cases dir) (auto simp: edge_targets_iff)
    then show "?J () start_cursor (ws_tables s)"
      using start distinct_targets [OF work_okD(4) [OF start(1)]] by (simp add: to_come_start edges_after_def)
    show "distinct (wt_edges t)" if "?J acc c t" for acc c t using that work_okD(4) by blast
    show "if go then ?J acc' c' (ws_tables w) else work_ok (ws_tables w) \<and> I (ws_tables w) \<and> set (edge_targets (ws_tables w) i dir) = {}"
      if J: "?J acc c (ws_tables v)" and come: "to_come (ws_tables v) i dir c = x # to_come (ws_tables v) i dir c'"
        and body: "andThen (visit x) (\<lambda>_. give ((), True)) v = Inr ((acc', go), w)" for acc c x c' v acc' go w
    proof -
      have "visit x v = Inr ((), w)" and go: go using body by (auto simp: work_run)
      moreover have "x \<in> set (edge_targets (ws_tables v) i dir)" using J come by simp
      ultimately have w: "work_ok (ws_tables w)" "I (ws_tables w)"
        "set (edge_targets (ws_tables w) i dir) = set (edge_targets (ws_tables v) i dir) - {x}"
        using visit J by blast+
      have "distinct (to_come (ws_tables v) i dir c')" "x \<notin> set (to_come (ws_tables v) i dir c')"
        using J come by (metis distinct.simps(2))+
      note to_come_still [OF this w(3) work_okD(4) [OF w(1)]]
      then show ?thesis using w go J come by auto
    qed
  qed simp
qed

lemma delete_keeps:
  assumes run: "delete_item env queue it s = Inr (u, t)"
    and ok: "work_ok (ws_tables s)" "item_row (ws_tables s) i = Some it" "\<not> wi_deleted it"
  shows "work_ok (ws_tables t) \<and> work_step (ws_tables s) (ws_tables t)"
proof -
  have id: "wi_id it = i" using work_okD(1) [OF ok(1,2)] .
  obtain v w where free: "idle it"
    and loop1: "eachWorkEdge env i Dependents (orphan env queue i) s = Inr ((), v)"
    and loop2: "eachWorkEdge env i Dependencies (\<lambda>x. writing (setEdge (i, x) False)) v = Inr ((), w)"
    and fin: "finish_item env queue (it\<lparr>wi_deleted := True\<rparr>) w = Inr (u, t)"
    using run by (auto simp: delete_item_def work_run id)
  let ?I = "\<lambda>x. work_step (ws_tables s) x \<and> item_row x i = Some it"
  have one: "work_ok (ws_tables v) \<and> ?I (ws_tables v) \<and> set (edge_targets (ws_tables v) i Dependents) = {}"
  proof (rule eachWorkEdge_inv [OF loop1, of ?I])
    show "work_ok (ws_tables b) \<and> ?I (ws_tables b) \<and>
        set (edge_targets (ws_tables b) i Dependents) = set (edge_targets (ws_tables a) i Dependents) - {x}"
      if a: "work_ok (ws_tables a)" "?I (ws_tables a)" and x: "x \<in> set (edge_targets (ws_tables a) i Dependents)"
        and visit: "orphan env queue i x a = Inr ((), b)" for x a b
    proof -
      have "(x, i) \<in> set (wt_edges (ws_tables a))" using x by (simp add: edge_targets_iff)
      then have "x \<noteq> i" using work_okD(5) [OF a(1)] by (auto simp: acyclic_def)
      note o = orphan_run [OF visit a(1) this]
      have "work_step (ws_tables s) (ws_tables b)" using a(2) o work_step_trans by blast
      moreover have "set (edge_targets (ws_tables b) i Dependents) = set (edge_targets (ws_tables a) i Dependents) - {x}"
        unfolding set_eq_iff by (simp add: edge_targets_iff o)
      ultimately show ?thesis using a(2) o by simp
    qed
  qed (use ok work_step_refl in auto)
  have two: "work_ok (ws_tables w) \<and> (?I (ws_tables w) \<and> set (edge_targets (ws_tables w) i Dependents) = {}) \<and>
      set (edge_targets (ws_tables w) i Dependencies) = {}"
  proof (rule eachWorkEdge_inv [OF loop2])
    show "work_ok (ws_tables b) \<and> (?I (ws_tables b) \<and> set (edge_targets (ws_tables b) i Dependents) = {}) \<and>
        set (edge_targets (ws_tables b) i Dependencies) = set (edge_targets (ws_tables a) i Dependencies) - {x}"
      if a: "work_ok (ws_tables a)" "?I (ws_tables a) \<and> set (edge_targets (ws_tables a) i Dependents) = {}"
        and visit: "writing (setEdge (i, x) False) a = Inr ((), b)" for x a b
    proof -
      have b: "ws_tables b = setEdge (i, x) False (ws_tables a)" using visit by (simp add: work_run)
      have "set (edge_targets (ws_tables b) i Dependents) \<subseteq> set (edge_targets (ws_tables a) i Dependents)"
        by (auto simp: b edge_targets_iff edges_setEdge)
      moreover have "set (edge_targets (ws_tables b) i Dependencies) = set (edge_targets (ws_tables a) i Dependencies) - {x}"
        by (auto simp: b edge_targets_iff edges_setEdge)
      moreover have "work_step (ws_tables s) (ws_tables b)" using a(2) work_step_trans work_step_edge unfolding b by blast
      ultimately show ?thesis using drop_edge_ok [OF a(1)] a(2) by (simp add: b)
    qed
  qed (use one in auto)
  let ?it = "(it\<lparr>wi_deleted := True\<rparr>)\<lparr>wi_revision := wq_revision queue + 1, wi_updatedAt := en_at env\<rparr>"
  have t: "ws_tables t = putItem ?it (ws_tables w)" using finish_run [OF fin] .
  have alone: "\<forall>e \<in> set (wt_edges (ws_tables w)). fst e \<noteq> i \<and> snd e \<noteq> i"
  proof (intro ballI conjI notI)
    fix e assume e: "e \<in> set (wt_edges (ws_tables w))"
    show False if "fst e = i" using two e that edge_targets_iff(1) [of "snd e" "ws_tables w" i] by (cases e) auto
    show False if "snd e = i" using two e that edge_targets_iff(2) [of "fst e" "ws_tables w" i] by (cases e) auto
  qed
  have "work_ok (putItem ?it (ws_tables w))"
    by (rule put_ok [where it = it])
      (use two alone id free work_okD(2,3) [OF ok(1,2)] in \<open>auto simp: idle_def change_defs\<close>)
  moreover have "work_step (ws_tables w) (putItem ?it (ws_tables w))"
    by (rule work_step_put [where it = it])
      (use two id free in \<open>auto simp: idle_def item_advances_def\<close>)
  ultimately show ?thesis using t two work_step_trans by metis
qed

section \<open>Every mutation\<close>

lemma changes_well_keeps:
  assumes "changes_well s it t" "work_ok (ws_tables s)" "item_row (ws_tables s) i = Some it"
  shows "work_ok (ws_tables t) \<and> work_step (ws_tables s) (ws_tables t)"
  using assms good_change_ok by (auto simp: changes_well_def)

lemma change_item_keeps:
  assumes run: "change_item env queue it op s = Inr (u, t)" and valid: "mutation_valid op"
    and ok: "work_ok (ws_tables s)" "item_row (ws_tables s) i = Some it" "\<not> wi_deleted it"
  shows "work_ok (ws_tables t) \<and> work_step (ws_tables s) (ws_tables t)"
proof (cases op)
  case (Op_Link a d)
  then show ?thesis using run set_link_keeps [OF _ ok] by simp
next
  case (Op_Unlink a d)
  then show ?thesis using run set_link_keeps [OF _ ok] by simp
next
  case (Op_Delete a)
  then show ?thesis using run delete_keeps [OF _ ok] by simp
next
  case (Op_Disposition a d r)
  then show ?thesis using run valid disposition_changes [OF _ _ ok] changes_well_keeps [OF _ ok(1,2)] by simp
next
  case (Op_Validate a r g c es auth v reason)
  then have "es \<noteq> []" using valid by (auto simp: evidence_list_valid_def)
  then show ?thesis using Op_Validate run validate_changes [OF _ _ ok] changes_well_keeps [OF _ ok(1,2)] by simp
qed (use run in \<open>simp_all add: stop_run changes_well_keeps [OF update_changes [OF _ ok] ok(1,2)]
  changes_well_keeps [OF blockers_changes [OF _ ok] ok(1,2)] changes_well_keeps [OF claim_changes [OF _ ok] ok(1,2)]
  changes_well_keeps [OF release_changes [OF _ ok] ok(1,2)] changes_well_keeps [OF cancel_changes [OF _ ok] ok(1,2)]
  changes_well_keeps [OF archive_changes [OF _ ok] ok(1,2)] changes_well_keeps [OF submit_changes [OF _ ok] ok(1,2)]\<close>)

text \<open>What a mutation that returned went through: a step of the budget, then an addition or a change of a live record.\<close>

lemma applyWorkMutation_run:
  assumes "applyWorkMutation env queue op s = Inr (u, t)"
  obtains v i f where "step env s = Inr ((), v)" "op = Op_Add i f" "item_row (ws_tables v) i = None"
    "add_item env queue None i f v = Inr (u, t)"
  | v it where "step env s = Inr ((), v)" "item_row (ws_tables v) (mutation_item op) = Some it" "\<not> wi_deleted it"
    "change_item env queue it op v = Inr (u, t)"
proof -
  obtain v where v: "step env s = Inr ((), v)" and
    go: "(case op of
       Op_Add i f \<Rightarrow> add_item env queue (item_row (ws_tables v) (mutation_item op)) i f
     | _ \<Rightarrow>
         andThen (reading (\<lambda>t. group_row t (mutation_item op))) (\<lambda>grp.
         if item_row (ws_tables v) (mutation_item op) = None \<and> grp \<noteq> None then refuseWork Invalid_Hierarchy
         else andThen (live (item_row (ws_tables v) (mutation_item op))) (\<lambda>item. change_item env queue item op))) v = Inr (u, t)"
    using assms by (auto simp: applyWorkMutation_def andThen_run reading_run)
  show thesis
  proof (cases "\<exists>i f. op = Op_Add i f")
    case True
    then obtain i f where op: "op = Op_Add i f" by blast
    with go have "item_row (ws_tables v) i = None" by (auto simp: add_item_def work_run split: if_splits)
    with op go show thesis by (intro that(1) [OF v op]) simp_all
  next
    case False
    with go have "andThen (reading (\<lambda>t. group_row t (mutation_item op))) (\<lambda>grp.
         if item_row (ws_tables v) (mutation_item op) = None \<and> grp \<noteq> None then refuseWork Invalid_Hierarchy
         else andThen (live (item_row (ws_tables v) (mutation_item op))) (\<lambda>item. change_item env queue item op)) v = Inr (u, t)"
      by (cases op) auto
    then obtain it where "item_row (ws_tables v) (mutation_item op) = Some it" "\<not> wi_deleted it"
      "change_item env queue it op v = Inr (u, t)"
      by (auto simp: andThen_run reading_run live_def stop_run give_run split: if_splits option.splits)
    then show thesis by (intro that(2) [OF v])
  qed
qed

lemma applyWorkMutation_keeps:
  assumes run: "applyWorkMutation env queue op s = Inr (u, t)" and valid: "mutation_valid op"
    and ok: "work_ok (ws_tables s)"
  shows "work_ok (ws_tables t) \<and> work_step (ws_tables s) (ws_tables t)"
  using run
proof (cases rule: applyWorkMutation_run)
  case (1 v i f)
  then show ?thesis using add_keeps [of env queue i f v] step_quiet [OF 1(1)] ok by simp
next
  case (2 v it)
  then show ?thesis using change_item_keeps [OF 2(4) valid _ 2(2,3)] step_quiet [OF 2(1)] ok by simp
qed

end
