(* ===== verification/Work_Forest.thy ===== *)
theory Work_Forest
  imports Work_Hierarchy Work_Preservation
begin

text \<open>
  The hierarchy is a forest: every live node sits under live groups only, the chain of parents ends, and
  no group is deeper than the limit. Here are the invariant and what the iterators over children, the
  ancestors and the heights compute; \<open>Work_Moves\<close> and \<open>Work_Groups\<close> show that every mutation keeps it.
\<close>

section \<open>The children an iterator has still to yield\<close>

definition children_after :: "work_tables \<Rightarrow> work_id option \<Rightarrow> work_child option \<Rightarrow> work_child list" where
  "children_after t parent after =
     filter (\<lambda>c. case after of None \<Rightarrow> True | Some a \<Rightarrow> a < c) (sort (child_rows t parent))"

definition child_come :: "work_tables \<Rightarrow> work_id option \<Rightarrow> child_cursor \<Rightarrow> work_child list" where
  "child_come t parent c = cc_left c @
     (if cc_more c then children_after t parent (if cc_left c = [] then cc_after c else Some (last (cc_left c))) else [])"

lemma children_page: "children_forward t parent after page_limit = take page_limit (children_after t parent after)"
  by (simp add: children_forward_def children_after_def)

lemma children_after_full:
  assumes "distinct (child_rows t parent)" "page_limit \<le> length (children_forward t parent after page_limit)"
  shows "children_after t parent after = children_forward t parent after page_limit @
    children_after t parent (Some (last (children_forward t parent after page_limit)))"
proof -
  let ?all = "children_after t parent after"
  have fits: "page_limit \<le> length ?all" using assms(2) by (simp add: children_page)
  have some: "0 < page_limit" by (simp add: page_limit_def)
  have sorted: "sorted ?all" "distinct ?all" using assms(1) by (simp_all add: children_after_def sorted_wrt_filter)
  have "drop page_limit ?all = filter (\<lambda>x. last (take page_limit ?all) < x) ?all"
    using sorted_drop_filter [OF sorted some fits] by simp
  moreover have "last (take page_limit ?all) \<in> set ?all"
    using fits some in_set_takeD [of _ page_limit ?all] by (metis last_in_set length_greater_0_conv length_take min.absorb2)
  then have above: "a < last (take page_limit ?all)" if "after = Some a" for a using that by (simp add: children_after_def)
  have "filter (\<lambda>x. last (take page_limit ?all) < x) ?all = children_after t parent (Some (last (take page_limit ?all)))"
  proof -
    have "(case after of None \<Rightarrow> True | Some a \<Rightarrow> a < x) \<and> l < x \<longleftrightarrow> l < x" if "\<And>a. after = Some a \<Longrightarrow> a < l" for l x :: work_child
      using that by (cases after) (simp_all, metis order.strict_trans)
    from this [OF above] show ?thesis unfolding children_after_def filter_filter option.case by (rule filter_cong [OF refl])
  qed
  ultimately show ?thesis by (metis append_take_drop_id children_page)
qed

lemma children_after_short:
  "length (children_forward t parent after page_limit) < page_limit \<Longrightarrow>
   children_after t parent after = children_forward t parent after page_limit"
  by (simp add: children_page)

lemma yield_child_run [work_run]:
  "yield_child env x rest again s = Inr ((found, c), u) \<longleftrightarrow>
     step env s = Inr ((), u) \<and> found = Some x \<and> c = \<lparr>cc_left = rest, cc_after = Some x, cc_more = again\<rparr>"
  by (auto simp: yield_child_def work_run)

lemma next_child_spec:
  assumes "next_child env parent c s = Inr ((found, c'), u)" "distinct (child_rows (ws_tables s) parent)"
  shows "ws_tables u = ws_tables s \<and>
    child_come (ws_tables s) parent c = (case found of None \<Rightarrow> [] | Some x \<Rightarrow> x # child_come (ws_tables s) parent c')"
proof (cases "cc_left c")
  case (Cons x rest)
  then show ?thesis using assms(1) by (auto simp: next_child_def work_run child_come_def dest: step_quiet)
next
  case Nil
  let ?t = "ws_tables s"
  let ?page = "children_forward ?t parent (cc_after c) page_limit"
  show ?thesis
  proof (cases "cc_more c")
    case False
    then show ?thesis using assms(1) Nil by (auto simp: next_child_def work_run child_come_def)
  next
    case True
    then have all: "child_come ?t parent c = children_after ?t parent (cc_after c)" using Nil by (simp add: child_come_def)
    obtain v where v: "step env s = Inr ((), v)"
      "andThen (reading (\<lambda>t. children_forward t parent (cc_after c) page_limit)) (\<lambda>page. case page of
         [] \<Rightarrow> give (None, c\<lparr>cc_more := False\<rparr>) | x # rest \<Rightarrow> yield_child env x rest (page_limit \<le> length page)) v = Inr ((found, c'), u)"
      using assms(1) Nil True by (auto simp: next_child_def andThen_run [of "step env"])
    have vt: "ws_tables v = ?t" using v(1) by (rule step_quiet)
    have go: "(case ?page of [] \<Rightarrow> give (None, c\<lparr>cc_more := False\<rparr>)
         | x # rest \<Rightarrow> yield_child env x rest (page_limit \<le> length ?page)) v = Inr ((found, c'), u)"
      using v(2) by (simp add: andThen_run reading_run vt)
    show ?thesis
    proof (cases ?page)
      case Nil
      then show ?thesis using go vt all children_after_short [of ?t parent "cc_after c"] by (auto simp: work_run page_limit_def)
    next
      case (Cons x rest)
      with go have step: "step env v = Inr ((), u)" and f: "found = Some x"
        and c': "c' = \<lparr>cc_left = rest, cc_after = Some x, cc_more = page_limit \<le> length ?page\<rparr>" by (auto simp: work_run)
      have "children_after ?t parent (cc_after c) = x # child_come ?t parent c'"
      proof (cases "page_limit \<le> length ?page")
        case True
        then show ?thesis using children_after_full [OF assms(2) True] Cons by (simp add: child_come_def c')
      next
        case False
        then show ?thesis using children_after_short [of ?t parent "cc_after c"] Cons by (simp add: child_come_def c')
      qed
      then show ?thesis using all f step_quiet [OF step] vt by simp
    qed
  qed
qed

text \<open>A loop that reads: it sees every child, or its body left it.\<close>

lemma child_loop_rule:
  assumes "child_loop env parent body fuel c acc s = Inr (acc', s')" "ws_tables s = t"
    and dist: "distinct (child_rows t parent)" and "I acc D" "D \<union> set (child_come t parent c) = A" "set (child_come t parent c) \<subseteq> A"
    and body: "\<And>x acc D u acc' go v. I acc D \<Longrightarrow> x \<in> A \<Longrightarrow> ws_tables u = t \<Longrightarrow> body x acc u = Inr ((acc', go), v) \<Longrightarrow>
        ws_tables v = t \<and> (if go then I acc' (insert x D) else Q acc')"
    and fin: "\<And>acc. I acc A \<Longrightarrow> Q acc"
  shows "ws_tables s' = t \<and> Q acc'"
  using assms(1,2,4,5,6)
proof (induction fuel arbitrary: c acc s D)
  case 0
  then show ?case by (simp add: work_run)
next
  case (Suc fuel)
  then obtain found c' u where nxt: "next_child env parent c s = Inr ((found, c'), u)"
    and go: "(case found of None \<Rightarrow> give acc | Some x \<Rightarrow> andThen (body x acc) (\<lambda>(acc', go).
           if go then child_loop env parent body fuel c' acc' else give acc')) u = Inr (acc', s')"
    by (auto simp: work_run)
  have spec: "ws_tables u = t" "child_come t parent c = (case found of None \<Rightarrow> [] | Some x \<Rightarrow> x # child_come t parent c')"
    using next_child_spec [OF nxt] dist unfolding Suc.prems(2) by simp_all
  show ?case
  proof (cases found)
    case None
    then show ?thesis using go spec fin Suc.prems(3,4) by (auto simp: work_run)
  next
    case (Some x)
    with go obtain acc2 more v where b: "body x acc u = Inr ((acc2, more), v)"
      and rest: "(if more then child_loop env parent body fuel c' acc2 else give acc2) v = Inr (acc', s')"
      by (auto simp: work_run)
    have come: "child_come t parent c = x # child_come t parent c'" using spec(2) Some by simp
    then have x: "x \<in> A" using Suc.prems(5) by auto
    note body [OF Suc.prems(3) x spec(1) b]
    then show ?thesis
      using rest Suc.IH [of c' acc2 v "insert x D"] Suc.prems(4,5) come by (cases more) (auto simp: work_run)
  qed
qed

lemma child_come_start: "child_come t parent (child_start None) = sort (child_rows t parent)"
  by (simp add: child_come_def child_start_def children_after_def)

lemma childrenOf_rule:
  assumes "childrenOf env parent None body acc s = Inr (acc', s')" "ws_tables s = t" "distinct (child_rows t parent)"
    and "I acc {}"
    and body: "\<And>x acc D u acc' go v. I acc D \<Longrightarrow> x \<in> set (child_rows t parent) \<Longrightarrow> ws_tables u = t \<Longrightarrow>
        body x acc u = Inr ((acc', go), v) \<Longrightarrow> ws_tables v = t \<and> (if go then I acc' (insert x D) else Q acc')"
    and fin: "\<And>acc. I acc (set (child_rows t parent)) \<Longrightarrow> Q acc"
  shows "ws_tables s' = t \<and> Q acc'"
proof (rule child_loop_rule [OF assms(1) [unfolded childrenOf_def] assms(2,3), where I = I and D = "{}" and A = "set (child_rows t parent)"])
  show "ws_tables v = t \<and> (if go then I acc' (insert x D) else Q acc')"
    if "I acc D" "x \<in> set (child_rows t parent)" "ws_tables u = t" "body x acc u = Inr ((acc', go), v)" for x acc D u acc' go v
    using that by (rule body)
  show "Q acc" if "I acc (set (child_rows t parent))" for acc using that by (rule fin)
qed (use assms(4) in \<open>simp_all add: child_come_start\<close>)

definition live_node :: "work_tables \<Rightarrow> work_id \<Rightarrow> bool" where
  "live_node t i \<longleftrightarrow> (\<exists>n. workNode t i = Some n \<and> \<not> deleted_node n)"

definition live_kids :: "work_tables \<Rightarrow> work_id option \<Rightarrow> work_id set" where
  "live_kids t parent = {i \<in> snd ` set (child_rows t parent). live_node t i}"

lemma liveChildren_rule:
  assumes "liveChildren env parent None body acc s = Inr (acc', s')" "ws_tables s = t" "distinct (child_rows t parent)"
    and start: "I acc {}"
    and body: "\<And>x n acc D u acc' go v. I acc D \<Longrightarrow> snd x \<in> live_kids t parent \<Longrightarrow> workNode t (snd x) = Some n \<Longrightarrow> ws_tables u = t \<Longrightarrow>
        body x n acc u = Inr ((acc', go), v) \<Longrightarrow> ws_tables v = t \<and> (if go then I acc' (insert (snd x) D) else Q acc')"
    and fin: "\<And>acc. I acc (live_kids t parent) \<Longrightarrow> Q acc"
  shows "ws_tables s' = t \<and> Q acc'"
proof (rule childrenOf_rule [OF assms(1) [unfolded liveChildren_def] assms(2,3),
      where I = "\<lambda>acc D. I acc {i \<in> snd ` D. live_node t i}"])
  show "I acc {i \<in> snd ` {}. live_node t i}" using start by simp
next
  fix x and acc and D :: "work_child set" and u acc' go v
  assume I: "I acc {i \<in> snd ` D. live_node t i}" and x: "x \<in> set (child_rows t parent)" and u: "ws_tables u = t"
    and run: "andThen (reading (\<lambda>t. workNode t (snd x))) (\<lambda>node. case node of
         None \<Rightarrow> refuseWork Corrupt
       | Some n \<Rightarrow> if deleted_node n then give (acc, True) else body x n acc) u = Inr ((acc', go), v)"
  obtain n where n: "workNode t (snd x) = Some n" and go: "(if deleted_node n then give (acc, True) else body x n acc) u = Inr ((acc', go), v)"
    using run u by (auto simp: work_run split: option.splits)
  show "ws_tables v = t \<and> (if go then I acc' {i \<in> snd ` insert x D. live_node t i} else Q acc')"
  proof (cases "deleted_node n")
    case True
    then have "\<not> live_node t (snd x)" using n by (simp add: live_node_def)
    then have "{i \<in> snd ` insert x D. live_node t i} = {i \<in> snd ` D. live_node t i}" by auto
    then show ?thesis using go True I u by (simp add: work_run)
  next
    case False
    then have live: "live_node t (snd x)" using n by (simp add: live_node_def)
    then have "snd x \<in> live_kids t parent" using x by (auto simp: live_kids_def)
    moreover have "{i \<in> snd ` insert x D. live_node t i} = insert (snd x) {i \<in> snd ` D. live_node t i}" using live by auto
    ultimately show ?thesis using body [OF I _ n u] go False by simp
  qed
next
  fix acc assume "I acc {i \<in> snd ` set (child_rows t parent). live_node t i}"
  then show "Q acc" using fin by (simp add: live_kids_def)
qed

section \<open>The forest\<close>

definition parent_of :: "work_tables \<Rightarrow> work_id \<Rightarrow> work_id option" where
  "parent_of t i = (case placement_row t i of None \<Rightarrow> None | Some p \<Rightarrow> pl_parent p)"

definition live_group :: "work_tables \<Rightarrow> work_id \<Rightarrow> bool" where
  "live_group t i \<longleftrightarrow> (\<exists>g. group_row t i = Some g \<and> \<not> wg_deleted g)"

text \<open>The level of a node: one at the root, one more than its parent otherwise.\<close>

inductive level :: "work_tables \<Rightarrow> work_id \<Rightarrow> nat \<Rightarrow> bool" for t where
  level_root: "parent_of t i = None \<Longrightarrow> level t i (Suc 0)"
| level_child: "parent_of t i = Some p \<Longrightarrow> level t p k \<Longrightarrow> level t i (Suc k)"

inductive_cases level_rootE: "level t i (Suc 0)"
inductive_cases level_childE: "level t i (Suc k)"

definition rows_apart :: "work_tables \<Rightarrow> bool" where
  "rows_apart t \<longleftrightarrow>
     js_wf (wt_placements t) \<and> js_wf (wt_items t) \<and>
     (\<forall>i. group_row t i \<noteq> None \<longrightarrow> item_row t i = None) \<and>
     (\<forall>i. placement_row t i \<noteq> None \<longrightarrow> item_row t i \<noteq> None \<or> group_row t i \<noteq> None) \<and>
     (\<forall>i g. group_row t i = Some g \<longrightarrow> wg_id g = i) \<and>
     (\<forall>i p. parent_of t i = Some p \<longrightarrow> group_row t p \<noteq> None)"

definition sheltered :: "work_tables \<Rightarrow> bool" where
  "sheltered t \<longleftrightarrow> (\<forall>i p. live_node t i \<longrightarrow> parent_of t i = Some p \<longrightarrow> live_group t p)"

definition leveled :: "work_tables \<Rightarrow> bool" where
  "leveled t \<longleftrightarrow> (\<forall>i. live_group t i \<longrightarrow> (\<exists>k \<le> depth_limit. level t i k))"

definition forest_ok :: "work_tables \<Rightarrow> bool" where
  "forest_ok t \<longleftrightarrow> rows_apart t \<and> sheltered t \<and> leveled t"

lemma rows_apartD:
  assumes "rows_apart t"
  shows "js_wf (wt_placements t)" "js_wf (wt_items t)" "group_row t i \<noteq> None \<Longrightarrow> item_row t i = None"
    "placement_row t i \<noteq> None \<Longrightarrow> item_row t i \<noteq> None \<or> group_row t i \<noteq> None"
    "group_row t i = Some g \<Longrightarrow> wg_id g = i" "parent_of t i = Some p \<Longrightarrow> group_row t p \<noteq> None"
  using assms unfolding rows_apart_def by (simp, simp, metis, metis, metis, metis)

lemma forest_okD:
  assumes "forest_ok t"
  shows "js_wf (wt_placements t)" "js_wf (wt_items t)" "group_row t i \<noteq> None \<Longrightarrow> item_row t i = None"
    "placement_row t i \<noteq> None \<Longrightarrow> item_row t i \<noteq> None \<or> group_row t i \<noteq> None"
    "group_row t i = Some g \<Longrightarrow> wg_id g = i" "parent_of t i = Some p \<Longrightarrow> group_row t p \<noteq> None"
    "live_node t i \<Longrightarrow> parent_of t i = Some p \<Longrightarrow> live_group t p"
    "live_group t i \<Longrightarrow> \<exists>k \<le> depth_limit. level t i k"
proof -
  have "rows_apart t" "sheltered t" "leveled t" using assms by (simp_all add: forest_ok_def)
  then show "js_wf (wt_placements t)" "js_wf (wt_items t)" "group_row t i \<noteq> None \<Longrightarrow> item_row t i = None"
    "placement_row t i \<noteq> None \<Longrightarrow> item_row t i \<noteq> None \<or> group_row t i \<noteq> None"
    "group_row t i = Some g \<Longrightarrow> wg_id g = i" "parent_of t i = Some p \<Longrightarrow> group_row t p \<noteq> None"
    "live_node t i \<Longrightarrow> parent_of t i = Some p \<Longrightarrow> live_group t p"
    "live_group t i \<Longrightarrow> \<exists>k \<le> depth_limit. level t i k"
    using rows_apartD sheltered_def leveled_def by metis+
qed

lemma workNode_item: "item_row t i = Some it \<Longrightarrow> workNode t i = Some (Task_Node it)"
  by (simp add: workNode_def)

lemma live_group_node: "forest_ok t \<Longrightarrow> live_group t i \<Longrightarrow> live_node t i"
  using forest_okD(3) by (fastforce simp: live_group_def live_node_def workNode_def)

lemma group_node_live:
  assumes "workNode t i = Some n" "\<not> deleted_node n" "is_group_node n"
  shows "live_group t i"
  using assms by (cases n) (auto simp: workNode_def live_group_def split: option.splits)

lemma distinct_child_rows:
  assumes "forest_ok t"
  shows "distinct (child_rows t parent)"
proof -
  have wf: "js_wf (wt_placements t)" "js_wf (wt_items t)" using forest_okD(1,2) [OF assms] .
  have "distinct (map snd (map (\<lambda>(i, p). (pl_order p, i)) (filter (\<lambda>(i, p). pl_parent p = parent) (wt_placements t))))"
    using wf(1) by (simp add: comp_def case_prod_beta distinct_map_filter)
  then have one: "distinct (map (\<lambda>(i, p). (pl_order p, i)) (filter (\<lambda>(i, p). pl_parent p = parent) (wt_placements t)))"
    by (rule distinct_map [THEN iffD1, THEN conjunct1])
  have two: "distinct (map (\<lambda>i. (i, i)) (filter (\<lambda>i. placement_row t i = None) (js_keys (wt_items t))))"
    using wf(2) by (simp add: distinct_map inj_on_def)
  have "snd x \<in> {i. placement_row t i \<noteq> None}" if "x \<in> set (map (\<lambda>(i, p). (pl_order p, i)) (filter (\<lambda>(i, p). pl_parent p = parent) (wt_placements t)))" for x
    using that weak_map_of_SomeI by (fastforce simp: placement_row_def)
  then show ?thesis using one two by (force simp: child_rows_def)
qed

text \<open>The children of a parent are the nodes placed under it.\<close>

lemma child_rows_iff:
  assumes "forest_ok t"
  shows "i \<in> snd ` set (child_rows t parent) \<longleftrightarrow> (placement_row t i \<noteq> None \<or> item_row t i \<noteq> None) \<and> parent_of t i = parent"
proof -
  have get: "(i, p) \<in> set (wt_placements t) \<longleftrightarrow> placement_row t i = Some p" for i p
    using map_of_eq_Some_iff [OF forest_okD(1) [OF assms]] by (simp add: placement_row_def)
  have keys: "i \<in> fst ` set (wt_items t) \<longleftrightarrow> item_row t i \<noteq> None" for i
    using js_keys_iff [of i "wt_items t"] by (simp add: item_row_def)
  have "i \<in> snd ` set (child_rows t parent) \<longleftrightarrow>
    (\<exists>p. (i, p) \<in> set (wt_placements t) \<and> pl_parent p = parent) \<or>
    parent = None \<and> placement_row t i = None \<and> i \<in> fst ` set (wt_items t)"
  proof -
    have "i \<in> snd ` set (map (\<lambda>(i, p). (pl_order p, i)) (filter (\<lambda>(i, p). pl_parent p = parent) (wt_placements t))) \<longleftrightarrow>
        (\<exists>p. (i, p) \<in> set (wt_placements t) \<and> pl_parent p = parent)" by (force simp: image_iff)
    moreover have "i \<in> snd ` set (map (\<lambda>i. (i, i)) (filter (\<lambda>i. placement_row t i = None) (js_keys (wt_items t)))) \<longleftrightarrow>
        placement_row t i = None \<and> i \<in> fst ` set (wt_items t)" by (force simp: image_iff)
    ultimately show ?thesis unfolding child_rows_def by (cases "parent = None") (simp_all only: set_append image_Un Un_iff if_True if_False simp_thms list.set image_empty empty_iff)
  qed
  then show ?thesis unfolding get keys by (auto simp: parent_of_def split: option.splits)
qed

lemma live_kids_iff:
  assumes "forest_ok t"
  shows "i \<in> live_kids t (Some g) \<longleftrightarrow> live_node t i \<and> parent_of t i = Some g"
  using child_rows_iff [OF assms, of i "Some g"] by (auto simp: live_kids_def parent_of_def split: option.splits)

lemma level_fun: "level t i k \<Longrightarrow> level t i m \<Longrightarrow> k = m"
proof (induction arbitrary: m rule: level.induct)
  case (level_root i)
  from level_root(2,1) show ?case by cases simp_all
next
  case (level_child i p k)
  from level_child.prems level_child.hyps(1) level_child.IH show ?case by cases simp_all
qed

lemma level_same:
  assumes "level t i k" "\<And>j. parent_of t' j = parent_of t j"
  shows "level t' i k"
  using assms(1) by induction (auto intro: level.intros simp: assms(2))

section \<open>What lies below a group\<close>

inductive below :: "work_tables \<Rightarrow> work_id \<Rightarrow> work_id \<Rightarrow> nat \<Rightarrow> bool" for t g where
  below_self: "below t g g 1"
| below_child: "below t g y k \<Longrightarrow> parent_of t x = Some y \<Longrightarrow> live_group t x \<Longrightarrow> below t g x (Suc k)"

lemma below_first:
  assumes "below t g x k"
  shows "k = 1 \<and> x = g \<or> (\<exists>c m. k = Suc m \<and> parent_of t c = Some g \<and> live_group t c \<and> below t c x m)"
  using assms
proof induction
  case (below_child y k x)
  from below_child.IH show ?case
  proof (elim disjE conjE exE)
    assume "k = 1" "y = g"
    then show ?thesis using below_child.hyps below_self [of t x] by auto
  next
    fix c m assume "k = Suc m" "parent_of t c = Some g" "live_group t c" "below t c y m"
    then show ?thesis using below.below_child [of t c y m x] below_child.hyps by auto
  qed
qed simp

lemma below_level: "below t g x k \<Longrightarrow> level t x m \<Longrightarrow> k \<le> m \<and> level t g (Suc m - k)"
proof (induction arbitrary: m rule: below.induct)
  case below_self
  then show ?case by (cases rule: level.cases) (auto intro: level.intros)
next
  case (below_child y k x)
  from below_child.prems below_child.hyps(2) obtain j where j: "m = Suc j" "level t y j" by cases auto
  show ?case using below_child.IH [OF j(2)] j(1) by simp
qed

lemma height_loop_run:
  assumes "height_loop env fuel g s = Inr (h, u)" "ws_tables s = t" "forest_ok t"
  shows "ws_tables u = t \<and> (\<forall>x k. below t g x k \<longrightarrow> k \<le> h)"
  using assms(1,2)
proof (induction fuel arbitrary: g s h u)
  case 0
  then show ?case by (simp add: work_run)
next
  case (Suc fuel)
  let ?I = "\<lambda>h D. 1 \<le> h \<and> (\<forall>c \<in> D. live_group t c \<longrightarrow> (\<forall>x k. below t c x k \<longrightarrow> Suc k \<le> h))"
  let ?Q = "\<lambda>h. \<forall>x k. below t g x k \<longrightarrow> k \<le> h"
  show ?case
  proof (rule liveChildren_rule [OF Suc.prems(1) [unfolded height_loop.simps] Suc.prems(2) distinct_child_rows [OF assms(3)], where I = ?I])
    show "?I 1 {}" by simp
  next
    fix x n h D v h' go w
    assume I: "?I h D" and n: "workNode t (snd x) = Some n" and v: "ws_tables v = t"
      and run: "(if is_group_node n then andThen (height_loop env fuel (snd x)) (\<lambda>below. give (max h (1 + below), True))
         else give (h, True)) v = Inr ((h', go), w)"
    show "ws_tables w = t \<and> (if go then ?I h' (insert (snd x) D) else ?Q h')"
    proof (cases "is_group_node n")
      case True
      with run obtain b where b: "height_loop env fuel (snd x) v = Inr (b, w)" "h' = max h (1 + b)" go by (auto simp: work_run)
      have "ws_tables w = t \<and> (\<forall>y k. below t (snd x) y k \<longrightarrow> k \<le> b)" using Suc.IH [OF b(1) v] .
      then show ?thesis using I b(2,3) by (auto simp: le_max_iff_disj)
    next
      case False
      have "\<not> live_group t (snd x)"
        using False n forest_okD(3) [OF assms(3)] by (cases n) (auto simp: live_group_def workNode_def split: option.splits)
      then show ?thesis using run False I v by (auto simp: work_run)
    qed
  next
    fix h assume I: "?I h (live_kids t (Some g))"
    show "?Q h"
    proof (intro allI impI)
      fix x k assume "below t g x k"
      from below_first [OF this] show "k \<le> h"
      proof (elim disjE conjE exE)
        fix c m assume "k = Suc m" "parent_of t c = Some g" "live_group t c" "below t c x m"
        then show ?thesis using I live_kids_iff [OF assms(3)] live_group_node [OF assms(3)] by blast
      qed (use I in simp)
    qed
  qed
qed

section \<open>Ancestors\<close>

lemma placementOf_run:
  assumes "placementOf i s = Inr (p, u)"
  shows "u = s" "pl_parent p = parent_of (ws_tables s) i"
    "p = (case placement_row (ws_tables s) i of Some q \<Rightarrow> q | None \<Rightarrow> \<lparr>pl_parent = None, pl_order = i\<rparr>)"
  using assms by (auto simp: placementOf_def work_run parent_of_def split: option.splits if_splits)

text \<open>The walk up collects live groups until a root; what it has collected and what is above make up the level.\<close>

lemma ancestor_loop_run:
  assumes "ancestor_loop env fuel parent chain s = Inr (out, u)"
  shows "ws_tables u = ws_tables s \<and> (\<exists>above. out = chain @ above \<and> (\<forall>a \<in> set above. live_group (ws_tables s) a) \<and>
    (case parent of None \<Rightarrow> above = [] | Some p \<Rightarrow> level (ws_tables s) p (length above) \<and> p \<in> set above \<and>
       (\<forall>a \<in> set above. \<forall>b. parent_of (ws_tables s) a = Some b \<longrightarrow> b \<in> set above)))"
  using assms
proof (induction env fuel parent chain arbitrary: s out u rule: ancestor_loop.induct)
  case (1 env fuel chain)
  then show ?case by (simp add: work_run)
next
  case (2 env parent chain)
  then show ?case by (simp add: work_run)
next
  case (3 env fuel parent chain)
  obtain v g p where v: "step env s = Inr ((), v)" and g: "group_row (ws_tables v) parent = Some g" "\<not> wg_deleted g"
    and p: "placementOf parent v = Inr (p, v)"
    and rest: "ancestor_loop env fuel (pl_parent p) (chain @ [parent]) v = Inr (out, u)"
    and guards: "\<not> (parent \<in> set chain \<or> depth_limit \<le> length chain)"
    using "3.prems" placementOf_run(1) by (auto simp: work_run split: option.splits if_splits) metis
  have vt: "ws_tables v = ws_tables s" using step_quiet [OF v] .
  let ?t = "ws_tables s"
  have IH: "ws_tables u = ws_tables v \<and> (\<exists>above. out = (chain @ [parent]) @ above \<and> (\<forall>a \<in> set above. live_group (ws_tables v) a) \<and>
    (case pl_parent p of None \<Rightarrow> above = [] | Some q \<Rightarrow> level (ws_tables v) q (length above) \<and> q \<in> set above \<and>
       (\<forall>a \<in> set above. \<forall>b. parent_of (ws_tables v) a = Some b \<longrightarrow> b \<in> set above)))"
    using "3.IH" [OF g(2) guards rest] .
  then obtain above where u: "ws_tables u = ?t" and out: "out = (chain @ [parent]) @ above" and live: "\<forall>a \<in> set above. live_group ?t a"
    and more: "case pl_parent p of None \<Rightarrow> above = [] | Some q \<Rightarrow> level ?t q (length above) \<and> q \<in> set above \<and>
       (\<forall>a \<in> set above. \<forall>b. parent_of ?t a = Some b \<longrightarrow> b \<in> set above)" unfolding vt by auto
  have par: "pl_parent p = parent_of ?t parent" using placementOf_run(2) [OF p] vt by simp
  have lev: "level ?t parent (length (parent # above))"
    using more unfolding par by (cases "parent_of ?t parent") (auto intro: level.intros)
  have closed: "\<forall>a \<in> set (parent # above). \<forall>b. parent_of ?t a = Some b \<longrightarrow> b \<in> set (parent # above)"
    using more unfolding par by (cases "parent_of ?t parent") auto
  have "live_group ?t parent" using g vt by (auto simp: live_group_def)
  then show ?case using u out live lev closed by (intro conjI exI [of _ "parent # above"]) auto
qed

text \<open>What \<open>ancestorsOf\<close> returned tells the level of the node and holds every group above it.\<close>

lemma ancestorsOf_run:
  assumes "ancestorsOf env i s = Inr (chain, u)"
  shows "ws_tables u = ws_tables s" "level (ws_tables s) i (length chain + 1)"
    "parent_of (ws_tables s) i = Some p \<Longrightarrow> p \<in> set chain"
    "a \<in> set chain \<Longrightarrow> parent_of (ws_tables s) a = Some b \<Longrightarrow> b \<in> set chain"
    "a \<in> set chain \<Longrightarrow> live_group (ws_tables s) a"
proof -
  let ?t = "ws_tables s"
  obtain q where q: "placementOf i s = Inr (q, s)" and loop: "ancestor_loop env (depth_limit + 1) (pl_parent q) [] s = Inr (chain, u)"
    using assms placementOf_run(1) by (auto simp: ancestorsOf_def work_run) metis
  have par: "pl_parent q = parent_of ?t i" using placementOf_run(2) [OF q] .
  note run = ancestor_loop_run [OF loop]
  show "ws_tables u = ?t" using run by simp
  show "level ?t i (length chain + 1)" using run unfolding par by (cases "parent_of ?t i") (auto intro: level.intros)
  show "p \<in> set chain" if "parent_of ?t i = Some p" using run par that by auto
  show "b \<in> set chain" if "a \<in> set chain" "parent_of ?t a = Some b" using run that by (cases "pl_parent q") auto
  show "live_group ?t a" if "a \<in> set chain" using run that by auto
qed

lemma liveGroup_run:
  assumes "liveGroup i s = Inr (g, u)"
  shows "u = s \<and> group_row (ws_tables s) i = Some g \<and> \<not> wg_deleted g"
  using assms by (auto simp: liveGroup_def work_run split: option.splits if_splits)

section \<open>Placing a node\<close>

lemma sibling_key_run:
  assumes "sibling_key parent node i s = Inr (c, u)"
  shows "u = s \<and> i \<noteq> node \<and> live_node (ws_tables s) i \<and> parent_of (ws_tables s) i = parent \<and> snd c = i"
proof -
  obtain n p where n: "i \<noteq> node" "workNode (ws_tables s) i = Some n" "\<not> deleted_node n" and p: "placementOf i s = Inr (p, u)"
    "pl_parent p = parent" "c = (pl_order p, i)"
    using assms by (auto simp: sibling_key_def work_run split: if_splits option.splits)
  have "live_node (ws_tables s) i" using n(2,3) by (auto simp: live_node_def)
  moreover have "u = s" "parent_of (ws_tables s) i = parent" using placementOf_run(1,2) [OF p(1)] p(2) by simp_all
  ultimately show ?thesis using n(1) p(3) by simp
qed

lemma neighbour_quiet: "neighbour_loop env node cs s = Inr (k, u) \<Longrightarrow> ws_tables u = ws_tables s"
proof (induction cs arbitrary: s)
  case (Cons c cs)
  then obtain v where v: "step env s = Inr ((), v)" and go: "(if snd c \<noteq> node then give (Some (fst c)) else neighbour_loop env node cs) v = Inr (k, u)"
    by (auto simp: andThen_run)
  show ?case using go Cons.IH [of v] step_quiet [OF v] by (auto simp: work_run split: if_splits)
qed (simp add: work_run)

lemma positionKey_quiet:
  assumes "positionKey env parent node position s = Inr (k, u)"
  shows "ws_tables u = ws_tables s"
proof (cases position)
  case At_End
  then show ?thesis using assms step_quiet by (auto simp: positionKey_def work_run)
next
  case (Before i)
  then show ?thesis using assms sibling_key_run neighbour_quiet by (fastforce simp: positionKey_def work_run)
next
  case (After i)
  then show ?thesis using assms sibling_key_run neighbour_quiet by (fastforce simp: positionKey_def work_run)
qed

lemma place_run: "place env node p s = Inr (r, u) \<Longrightarrow> ws_tables u = setPlacement node p (ws_tables s)"
  using step_quiet by (fastforce simp: place_def work_run)

text \<open>Tables that differ in placements only, and how.\<close>

definition only_placed :: "work_tables \<Rightarrow> work_tables \<Rightarrow> (work_id \<Rightarrow> work_id option) \<Rightarrow> work_id set \<Rightarrow> bool" where
  "only_placed t t' parent nodes \<longleftrightarrow>
     wt_items t' = wt_items t \<and> wt_groups t' = wt_groups t \<and> wt_edges t' = wt_edges t \<and>
     (js_wf (wt_placements t) \<longrightarrow> js_wf (wt_placements t')) \<and>
     (\<forall>i. parent_of t' i = parent i) \<and>
     (\<forall>i. placement_row t i \<noteq> None \<longrightarrow> placement_row t' i \<noteq> None) \<and>
     (\<forall>i. placement_row t' i \<noteq> None \<longrightarrow> placement_row t i \<noteq> None \<or> i \<in> nodes)"

lemma setPlacement_rows [simp]:
  "placement_row (setPlacement node p t) i = (if i = node then Some p else placement_row t i)"
  "item_row (setPlacement node p t) i = item_row t i" "group_row (setPlacement node p t) i = group_row t i"
  "wt_edges (setPlacement node p t) = wt_edges t" "wt_items (setPlacement node p t) = wt_items t"
  "wt_groups (setPlacement node p t) = wt_groups t"
  by (simp_all add: placement_row_def setPlacement_def item_row_def group_row_def)

lemma setPlacement_parent [simp]:
  "parent_of (setPlacement node p t) i = (if i = node then pl_parent p else parent_of t i)"
  by (simp add: parent_of_def)

lemma setPlacement_only:
  "only_placed t (setPlacement node p t) ((parent_of t)(node := pl_parent p)) {node}"
  by (auto simp: only_placed_def) (simp add: setPlacement_def)

lemma only_placed_trans:
  "only_placed a b (parent_of a) m \<Longrightarrow> only_placed b c parent n \<Longrightarrow> only_placed a c parent (m \<union> n)"
  by (simp add: only_placed_def) metis

lemma only_placed_refl: "only_placed t t (parent_of t) {}"
  by (simp add: only_placed_def)

lemma place_all_run:
  assumes "place_all env parent cs s = Inr (r, u)" "\<forall>c \<in> set cs. parent_of (ws_tables s) (snd (fst c)) = parent"
  shows "only_placed (ws_tables s) (ws_tables u) (parent_of (ws_tables s)) (snd ` fst ` set cs)"
  using assms
proof (induction env parent cs arbitrary: s rule: place_all.induct)
  case (1 env parent)
  then show ?case by (simp add: work_run only_placed_refl)
next
  case (2 env parent child key rest)
  then obtain v where v: "place env (snd child) \<lparr>pl_parent = parent, pl_order = key\<rparr> s = Inr ((), v)"
    and go: "place_all env parent rest v = Inr (r, u)" by (auto simp: andThen_run)
  have same: "(parent_of (ws_tables s))(snd child := parent) = parent_of (ws_tables s)" using "2.prems"(2) by auto
  have one: "only_placed (ws_tables s) (ws_tables v) (parent_of (ws_tables s)) {snd child}"
    using setPlacement_only [of "ws_tables s" "snd child" "\<lparr>pl_parent = parent, pl_order = key\<rparr>"] place_run [OF v] same by simp
  then have eq: "parent_of (ws_tables v) = parent_of (ws_tables s)" by (auto simp: only_placed_def)
  have "only_placed (ws_tables v) (ws_tables u) (parent_of (ws_tables s)) (snd ` fst ` set rest)"
    using "2.IH" [OF go] "2.prems"(2) unfolding eq by simp
  then show ?case using only_placed_trans [OF one] by simp
qed

lemma respace_run:
  assumes "respace env parent s = Inr (r, u)" "forest_ok (ws_tables s)"
  shows "only_placed (ws_tables s) (ws_tables u) (parent_of (ws_tables s)) {i. item_row (ws_tables s) i \<noteq> None \<or> group_row (ws_tables s) i \<noteq> None}"
proof -
  let ?t = "ws_tables s"
  obtain siblings v where loop: "childrenOf env parent None (\<lambda>child acc. give (acc @ [child], True)) [] s = Inr (siblings, v)"
    and go: "place_all env parent (zip siblings (spreadOrderKeys (length siblings))) v = Inr (r, u)"
    using assms(1) by (auto simp: respace_def andThen_run)
  have v: "ws_tables v = ?t \<and> set siblings \<subseteq> set (child_rows ?t parent)"
    by (rule childrenOf_rule [OF loop refl distinct_child_rows [OF assms(2)], where I = "\<lambda>acc D. set acc \<subseteq> set (child_rows ?t parent)"])
      (auto simp: work_run)
  have kids: "(placement_row ?t (snd c) \<noteq> None \<or> item_row ?t (snd c) \<noteq> None) \<and> parent_of ?t (snd c) = parent"
    if "c \<in> set siblings" for c
    using child_rows_iff [OF assms(2), of "snd c" parent] v that by auto
  have "\<forall>c \<in> set (zip siblings (spreadOrderKeys (length siblings))). parent_of ?t (snd (fst c)) = parent"
  proof
    fix c assume "c \<in> set (zip siblings (spreadOrderKeys (length siblings)))"
    then have "fst c \<in> set siblings" by (metis prod.collapse set_zip_leftD)
    then show "parent_of ?t (snd (fst c)) = parent" using kids by blast
  qed
  then have "only_placed ?t (ws_tables u) (parent_of ?t) (snd ` fst ` set (zip siblings (spreadOrderKeys (length siblings))))"
    using place_all_run [OF go] v by simp
  moreover have "snd ` fst ` set (zip siblings (spreadOrderKeys (length siblings))) \<subseteq> {i. item_row ?t i \<noteq> None \<or> group_row ?t i \<noteq> None}"
    using kids forest_okD(4) [OF assms(2)] by (fastforce dest: set_zip_leftD)
  ultimately show ?thesis unfolding only_placed_def by blast
qed

end
