(* ===== verification/Work_Moves.thy ===== *)
theory Work_Moves
  imports Work_Forest
begin

text \<open>
  Moving a node keeps the forest: it goes under a group that is not below it, within the depth the height of
  its subtree allows. \<open>Work_Groups\<close> adds the other mutations.
\<close>

section \<open>Moving a node\<close>

lemma only_placed_rows:
  assumes "only_placed t t' parent nodes"
  shows "item_row t' i = item_row t i" "group_row t' i = group_row t i" "workNode t' i = workNode t i"
    "live_node t' i = live_node t i" "live_group t' i = live_group t i" "parent_of t' i = parent i"
proof -
  show items: "item_row t' i = item_row t i" for i using assms by (simp add: only_placed_def item_row_def)
  show groups: "group_row t' i = group_row t i" for i using assms by (simp add: only_placed_def group_row_def)
  show nodes: "workNode t' i = workNode t i" for i unfolding workNode_def items groups ..
  show "live_node t' i = live_node t i" by (simp add: live_node_def nodes)
  show "live_group t' i = live_group t i" by (simp add: live_group_def groups)
  show "parent_of t' i = parent i" using assms by (simp add: only_placed_def)
qed

text \<open>
  The move itself: \<open>t'\<close> has the parents of \<open>t\<close> but for the node, whose level becomes \<open>d\<close>.
\<close>

lemma moved_forest:
  assumes ok: "forest_ok t" and moved: "only_placed t t' ((parent_of t)(node := parent)) nodes"
    and known: "\<And>i. i \<in> nodes \<Longrightarrow> item_row t i \<noteq> None \<or> group_row t i \<noteq> None"
    and root: "parent = None \<Longrightarrow> d = 1"
    and under: "\<And>p. parent = Some p \<Longrightarrow> live_group t p \<and> (\<exists>k. d = Suc k \<and> level t p k) \<and> (\<forall>k. \<not> below t node p k)"
    and fits: "\<And>x k. live_group t node \<Longrightarrow> below t node x k \<Longrightarrow> d + k - 1 \<le> depth_limit"
  shows "forest_ok t'"
proof -
  note rows = only_placed_rows [OF moved]
  have "rows_apart t'"
    unfolding rows_apart_def
  proof (intro conjI allI impI)
    show "js_wf (wt_placements t')" "js_wf (wt_items t')" using moved forest_okD(1,2) [OF ok] by (simp_all add: only_placed_def)
    show "item_row t' i = None" if "group_row t' i \<noteq> None" for i using forest_okD(3) [OF ok] that rows by simp
    show "item_row t' i \<noteq> None \<or> group_row t' i \<noteq> None" if "placement_row t' i \<noteq> None" for i
    proof -
      have "placement_row t i \<noteq> None \<or> i \<in> nodes" using moved that unfolding only_placed_def by blast
      then have "item_row t i \<noteq> None \<or> group_row t i \<noteq> None" using known forest_okD(4) [OF ok] by blast
      then show ?thesis unfolding rows(1,2) .
    qed
    show "wg_id g = i" if "group_row t' i = Some g" for i g using forest_okD(5) [OF ok] that rows by simp
    show "group_row t' p \<noteq> None" if "parent_of t' i = Some p" for i p
      using that under [of p] forest_okD(6) [OF ok, of i p] rows by (auto simp: live_group_def split: if_splits)
  qed
  moreover have "sheltered t'"
    unfolding sheltered_def using under forest_okD(7) [OF ok] rows by (auto split: if_splits)
  moreover have "leveled t'"
    unfolding leveled_def
  proof (intro allI impI)
    have outside: "(\<exists>j. below t node x j) \<or> level t' x k" if "level t x k" "live_group t x" for x k
      using that
    proof (induction rule: level.induct)
      case (level_root i)
      then show ?case using rows(6) [of i] below_self [of t node] by (cases "i = node") (auto intro: level.intros)
    next
      case (level_child i p k)
      have "live_group t p" using forest_okD(7) [OF ok live_group_node [OF ok level_child.prems] level_child.hyps(1)] .
      with level_child.IH consider j where "below t node p j" | "level t' p k" by blast
      then show ?case
      proof cases
        case 1
        then show ?thesis using below_child level_child by blast
      next
        case 2
        then show ?thesis using rows(6) [of i] level_child.hyps(1) below_self [of t node]
          by (cases "i = node") (auto intro: level.intros)
      qed
    qed
    have top: "level t' node d"
    proof (cases parent)
      case None
      then show ?thesis using rows(6) [of node] root by (auto intro: level.intros)
    next
      case (Some p)
      then obtain k where "d = Suc k" "level t p k" "live_group t p" "\<forall>k. \<not> below t node p k" using under by blast
      then have "level t' p k" using outside by blast
      then show ?thesis using rows(6) [of node] Some \<open>d = Suc k\<close> by (auto intro: level.intros)
    qed
    have inside: "level t' x (d + k - 1)" if b: "below t node x k" and l: "level t node m" for x k m
      using b
    proof (induction rule: below.induct)
      case below_self
      then show ?case using top by simp
    next
      case (below_child y k x)
      have "x \<noteq> node"
      proof
        assume "x = node"
        then have "below t node node (Suc k)" using below_child.hyps below.below_child by blast
        note deep = below_level [OF this l]
        have "k = 0" using level_fun [OF l conjunct2 [OF deep]] conjunct1 [OF deep] by simp
        with below_child.hyps(1) show False by cases simp_all
      qed
      moreover have "1 \<le> k" using below_child.hyps(1) by cases simp_all
      ultimately show ?case using rows(6) [of x] below_child level_child [of t' x y "d + k - 1"] by simp
    qed
    fix x assume "live_group t' x"
    then have x: "live_group t x" using rows by simp
    then obtain k where k: "k \<le> depth_limit" "level t x k" using forest_okD(8) [OF ok] by blast
    show "\<exists>k \<le> depth_limit. level t' x k"
    proof (cases "\<exists>j. below t node x j")
      case True
      then obtain j where j: "below t node x j" by blast
      have l: "level t node (Suc k - j)" using below_level [OF j k(2)] by simp
      have g: "live_group t node"
      proof -
        have "below t node y i \<Longrightarrow> live_group t y \<Longrightarrow> live_group t node" for y i
          by (induction rule: below.induct) (use forest_okD(7) [OF ok] live_group_node [OF ok] in blast)+
        then show ?thesis using j x by blast
      qed
      show ?thesis using inside [OF j l] fits [OF g j] by blast
    next
      case False
      then show ?thesis using outside [OF k(2) x] k(1) by blast
    qed
  qed
  ultimately show ?thesis by (simp add: forest_ok_def)
qed

lemma level_positive: "level t i k \<Longrightarrow> 0 < k"
  by (cases rule: level.cases) auto

lemma below_ancestor:
  assumes run: "ancestorsOf env p s = Inr (chain, u)" and "below (ws_tables s) node p k"
  shows "p = node \<or> node \<in> set chain"
proof -
  have "below (ws_tables s) node x k \<Longrightarrow> x = p \<or> x \<in> set chain \<Longrightarrow> node = p \<or> node \<in> set chain" for x k
  proof (induction rule: below.induct)
    case (below_child y k x)
    then show ?case using ancestorsOf_run(3,4) [OF run] by blast
  qed blast
  then show ?thesis using assms(2) by blast
qed

lemma placeNode_run:
  assumes run: "placeNode env node is_group parent position s = Inr (r, u)" and ok: "forest_ok (ws_tables s)"
    and kind: "is_group \<longleftrightarrow> group_row (ws_tables s) node \<noteq> None"
    and node: "item_row (ws_tables s) node \<noteq> None \<or> group_row (ws_tables s) node \<noteq> None"
  shows "forest_ok (ws_tables u) \<and> wt_items (ws_tables u) = wt_items (ws_tables s) \<and> wt_groups (ws_tables u) = wt_groups (ws_tables s) \<and>
    wt_edges (ws_tables u) = wt_edges (ws_tables s) \<and> placement_row (ws_tables u) node \<noteq> None \<and> parent_of (ws_tables u) node = parent \<and>
    (\<forall>i. placement_row (ws_tables s) i \<noteq> None \<longrightarrow> placement_row (ws_tables u) i \<noteq> None)"
proof -
  let ?t = "ws_tables s"
  let ?nodes = "{i. item_row ?t i \<noteq> None \<or> group_row ?t i \<noteq> None}"
  let ?where = "\<lambda>p. if p = node then refuseWork Invalid_Hierarchy
       else andThen (liveGroup p) (\<lambda>_. andThen (ancestorsOf env p) (\<lambda>ancestors.
            if node \<in> set ancestors then refuseWork Invalid_Hierarchy else give (length ancestors + 2)))"
  obtain d v h w k0 x k y where depth: "(case parent of None \<Rightarrow> give 1 | Some p \<Rightarrow> ?where p) s = Inr (d, v)"
    and height: "(if is_group then subtreeHeight env node else give 1) v = Inr (h, w)"
    and fits: "d + h - 1 \<le> depth_limit"
    and key: "positionKey env parent node position w = Inr (k0, x)"
    and again: "(case k0 of Key k \<Rightarrow> give k | Respace \<Rightarrow> andThen (respace env parent) (\<lambda>_.
             andThen (positionKey env parent node position) (\<lambda>again. case again of
               Key k \<Rightarrow> give k | Respace \<Rightarrow> stop (Refused (exhausted Storage_Space False))))) x = Inr (k, y)"
    and placed: "place env node \<lparr>pl_parent = parent, pl_order = k\<rparr> y = Inr (r, u)"
    using run unfolding placeNode_def andThen_run by (auto simp: work_run not_less split: if_splits)
  have v: "ws_tables v = ?t \<and> (parent = None \<longrightarrow> d = 1) \<and>
      (\<forall>p. parent = Some p \<longrightarrow> live_group ?t p \<and> (\<exists>k. d = Suc k \<and> level ?t p k) \<and> (\<forall>k. \<not> below ?t node p k))"
  proof (cases parent)
    case None
    then show ?thesis using depth by (simp add: work_run)
  next
    case (Some p)
    with depth obtain g chain where p: "p \<noteq> node" "liveGroup p s = Inr (g, s)" "ancestorsOf env p s = Inr (chain, v)"
      "node \<notin> set chain" "d = length chain + 2"
      using liveGroup_run by (auto simp: work_run split: if_splits) blast
    have "live_group ?t p" using liveGroup_run [OF p(2)] by (auto simp: live_group_def)
    moreover have "\<not> below ?t node p k" for k using below_ancestor [OF p(3)] p(1,4) by blast
    ultimately show ?thesis using ancestorsOf_run(1,2) [OF p(3)] p(5) Some by auto
  qed
  have w: "ws_tables w = ?t \<and> (live_group ?t node \<longrightarrow> (\<forall>x k. below ?t node x k \<longrightarrow> k \<le> h))"
  proof (cases is_group)
    case True
    then have "height_loop env (en_stepLimit env + 2) node v = Inr (h, w)" using height by (simp add: subtreeHeight_def)
    from height_loop_run [OF this] show ?thesis using v ok by simp
  next
    case False
    then show ?thesis using height v kind by (auto simp: work_run live_group_def)
  qed
  have x: "ws_tables x = ?t" using positionKey_quiet [OF key] w by simp
  have y: "only_placed ?t (ws_tables y) (parent_of ?t) ?nodes"
  proof (cases k0)
    case (Key k)
    then show ?thesis using again x only_placed_refl [of ?t] by (auto simp: work_run only_placed_def)
  next
    case Respace
    with again obtain z1 z2 k2 where r: "respace env parent x = Inr ((), z1)" and q: "positionKey env parent node position z1 = Inr (k2, z2)"
      and e: "(case k2 of Key k \<Rightarrow> give k | Respace \<Rightarrow> stop (Refused (exhausted Storage_Space False))) z2 = Inr (k, y)"
      by (auto simp: andThen_run)
    have "ws_tables y = ws_tables z1" using positionKey_quiet [OF q] e by (auto simp: work_run split: position_key.splits)
    then show ?thesis using respace_run [OF r] ok x by simp
  qed
  have u: "ws_tables u = setPlacement node \<lparr>pl_parent = parent, pl_order = k\<rparr> (ws_tables y)" using place_run [OF placed] .
  have pars: "parent_of (ws_tables y) = parent_of ?t" using only_placed_rows(6) [OF y] by auto
  have moved: "only_placed ?t (ws_tables u) ((parent_of ?t)(node := parent)) (?nodes \<union> {node})"
    using only_placed_trans [OF y, of "ws_tables u" "(parent_of ?t)(node := parent)" "{node}"]
      setPlacement_only [of "ws_tables y" node "\<lparr>pl_parent = parent, pl_order = k\<rparr>"] u pars by simp
  have "forest_ok (ws_tables u)"
  proof (rule moved_forest [OF ok moved, where d = d])
    show "item_row ?t i \<noteq> None \<or> group_row ?t i \<noteq> None" if "i \<in> ?nodes \<union> {node}" for i using that node by blast
    show "d = 1" if "parent = None" by (rule mp [OF conjunct1 [OF conjunct2 [OF v]] that])
    show "live_group ?t p \<and> (\<exists>k. d = Suc k \<and> level ?t p k) \<and> (\<forall>k. \<not> below ?t node p k)" if "parent = Some p" for p
      by (rule mp [OF spec [OF conjunct2 [OF conjunct2 [OF v]]] that])
    show "d + k - 1 \<le> depth_limit" if "live_group ?t node" "below ?t node x k" for x k
    proof -
      have "k \<le> h" using w that by blast
      then show ?thesis using fits by simp
    qed
  qed
  moreover have "wt_items (ws_tables u) = wt_items ?t" "wt_groups (ws_tables u) = wt_groups ?t" "wt_edges (ws_tables u) = wt_edges ?t"
    "\<forall>i. placement_row ?t i \<noteq> None \<longrightarrow> placement_row (ws_tables u) i \<noteq> None"
    using moved unfolding only_placed_def by blast+
  moreover have "placement_row (ws_tables u) node \<noteq> None" "parent_of (ws_tables u) node = parent" by (simp_all add: u)
  ultimately show ?thesis by blast
qed

end
