(* ===== verification/Work_Groups.thy ===== *)
theory Work_Groups
  imports Work_Moves
begin

text \<open>
  Every mutation keeps the forest and the promises of the tasks: creating, renaming and removing groups,
  removing a subtree from the bottom up, and the mutations of tasks, which leave groups and placements alone.
\<close>

section \<open>Mutations of tasks\<close>

lemma work_step_nodes:
  assumes ok: "forest_ok t" and step: "work_step t t'"
  shows "group_row t' i = group_row t i" "parent_of t' i = parent_of t i" "placement_row t' i = placement_row t i"
    "live_group t' i = live_group t i" "group_row t i \<noteq> None \<Longrightarrow> item_row t' i = None"
    "live_node t' i \<Longrightarrow> item_row t i \<noteq> None \<or> group_row t i \<noteq> None \<Longrightarrow> live_node t i"
proof -
  have same: "wt_groups t' = wt_groups t" "wt_placements t' = wt_placements t"
    "\<And>i. item_row t' i \<noteq> None \<Longrightarrow> item_row t i \<noteq> None \<or> group_row t i = None"
    and adv: "advances t t'"
    using step by (simp_all add: work_step_def keeps_layout_def)
  show groups: "group_row t' i = group_row t i" for i by (simp add: group_row_def same)
  show "placement_row t' i = placement_row t i" for i by (simp add: placement_row_def same)
  then show "parent_of t' i = parent_of t i" by (simp add: parent_of_def)
  show "live_group t' i = live_group t i" by (simp add: live_group_def groups)
  show none: "item_row t' i = None" if "group_row t i \<noteq> None" for i
    using same(3) [of i] forest_okD(3) [OF ok that] that by blast
  show "live_node t i" if live: "live_node t' i" and known: "item_row t i \<noteq> None \<or> group_row t i \<noteq> None"
  proof (cases "item_row t i")
    case None
    then have "workNode t' i = workNode t i" using known none groups by (simp add: workNode_def)
    then show ?thesis using live by (simp add: live_node_def)
  next
    case (Some it)
    then obtain it' where "item_row t' i = Some it'" "item_advances it it'" using adv by (auto simp: advances_def)
    then show ?thesis using live Some by (auto simp: live_node_def workNode_def item_advances_def)
  qed
qed

lemma work_step_forest:
  assumes ok: "forest_ok t" and step: "work_step t t'"
  shows "forest_ok t'"
proof -
  note nodes = work_step_nodes [OF ok step]
  have adv: "advances t t'" using step by (simp add: work_step_def)
  have "rows_apart t'"
    unfolding rows_apart_def
  proof (intro conjI allI impI)
    show "js_wf (wt_placements t')" "js_wf (wt_items t')"
      using step forest_okD(1,2) [OF ok] by (simp_all add: work_step_def keeps_layout_def)
    show "item_row t' i = None" if "group_row t' i \<noteq> None" for i using that nodes(1,5) by simp
    show "item_row t' i \<noteq> None \<or> group_row t' i \<noteq> None" if "placement_row t' i \<noteq> None" for i
      using that nodes(1,3) forest_okD(4) [OF ok, of i] adv by (fastforce simp: advances_def)
    show "wg_id g = i" if "group_row t' i = Some g" for i g using that nodes(1) forest_okD(5) [OF ok] by simp
    show "group_row t' p \<noteq> None" if "parent_of t' i = Some p" for i p
      using that nodes(1,2) forest_okD(6) [OF ok] by simp
  qed
  moreover have "sheltered t'"
    unfolding sheltered_def
  proof (intro allI impI)
    fix i p assume i: "live_node t' i" "parent_of t' i = Some p"
    then have "placement_row t i \<noteq> None" using nodes(2) by (auto simp: parent_of_def split: option.splits)
    then have "live_node t i" using nodes(6) [OF i(1)] forest_okD(4) [OF ok] by blast
    then show "live_group t' p" using forest_okD(7) [OF ok] i(2) nodes(2,4) by simp
  qed
  moreover have "leveled t'"
    unfolding leveled_def using forest_okD(8) [OF ok] nodes(2,4) level_same by metis
  ultimately show ?thesis by (simp add: forest_ok_def)
qed

text \<open>A tombstone stays one.\<close>

definition gone_node :: "work_tables \<Rightarrow> work_id \<Rightarrow> bool" where
  "gone_node t i \<longleftrightarrow> (\<exists>n. workNode t i = Some n \<and> deleted_node n)"

lemma gone_not_live: "gone_node t i \<Longrightarrow> \<not> live_node t i"
  by (auto simp: gone_node_def live_node_def)

lemma work_step_gone:
  assumes ok: "forest_ok t" and step: "work_step t t'" and gone: "gone_node t i"
  shows "gone_node t' i"
proof (cases "item_row t i")
  case None
  then show ?thesis using gone work_step_nodes(1,5) [OF ok step, of i] by (auto simp: gone_node_def workNode_def)
next
  case (Some it)
  then obtain it' where "item_row t' i = Some it'" "item_advances it it'" using step by (auto simp: work_step_def advances_def)
  then show ?thesis using gone Some by (auto simp: gone_node_def workNode_def item_advances_def)
qed

section \<open>Saving a group\<close>

lemma putGroup_rows [simp]:
  "group_row (putGroup g t) i = (if i = wg_id g then Some g else group_row t i)"
  "item_row (putGroup g t) i = item_row t i" "placement_row (putGroup g t) i = placement_row t i"
  "wt_items (putGroup g t) = wt_items t" "wt_edges (putGroup g t) = wt_edges t"
  "wt_placements (putGroup g t) = wt_placements t" "parent_of (putGroup g t) i = parent_of t i"
  by (simp_all add: putGroup_def group_row_def item_row_def placement_row_def parent_of_def)

lemma saveGroup_run:
  assumes "saveGroup env g s = Inr (r, u)"
  shows "ws_tables u = putGroup g (ws_tables s)"
proof -
  obtain v where v: "check env s = Inr ((), v)"
    "ws_tables u = putGroup g (ws_tables (note_group (wg_id g) v))"
    using assms by (auto simp: saveGroup_def work_run)
  show ?thesis using v(2) check_quiet [OF v(1)] by (simp add: note_group_def note_affected_def)
qed

text \<open>A group that is new, still there, or has nothing live under it may be written.\<close>

lemma putGroup_forest:
  assumes ok: "forest_ok t" and apart: "item_row t (wg_id g) = None"
    and kept: "\<And>g0. group_row t (wg_id g) = Some g0 \<Longrightarrow> wg_deleted g0 \<Longrightarrow> wg_deleted g"
    and bare: "\<And>i. wg_deleted g \<Longrightarrow> live_node t i \<Longrightarrow> parent_of t i = Some (wg_id g) \<Longrightarrow> False"
  shows "forest_ok (putGroup g t)"
proof -
  let ?t = "putGroup g t"
  have new: "parent_of t (wg_id g) = None" if "group_row t (wg_id g) = None"
    using that apart forest_okD(4) [OF ok, of "wg_id g"] by (auto simp: parent_of_def split: option.splits)
  have rows: "rows_apart ?t"
    unfolding rows_apart_def
  proof (intro conjI allI impI)
    show "js_wf (wt_placements ?t)" "js_wf (wt_items ?t)" using forest_okD(1,2) [OF ok] by simp_all
    show "item_row ?t i = None" if "group_row ?t i \<noteq> None" for i
      using that apart forest_okD(3) [OF ok, of i] by (auto split: if_splits)
    show "item_row ?t i \<noteq> None \<or> group_row ?t i \<noteq> None" if "placement_row ?t i \<noteq> None" for i
      using that forest_okD(4) [OF ok, of i] by auto
    show "wg_id h = i" if "group_row ?t i = Some h" for i h using that forest_okD(5) [OF ok, of i h] by (auto split: if_splits)
    show "group_row ?t p \<noteq> None" if "parent_of ?t i = Some p" for i p using that forest_okD(6) [OF ok, of i p] by simp
  qed
  have live: "live_node t i" if "live_node ?t i" "i \<noteq> wg_id g \<or> group_row t i \<noteq> None" for i
    using that kept apart by (auto simp: live_node_def workNode_def split: option.splits if_splits)
  have groups: "live_group ?t i" if "live_group t i" "i = wg_id g \<longrightarrow> \<not> wg_deleted g" for i
    using that by (auto simp: live_group_def)
  have "sheltered ?t"
    unfolding sheltered_def
  proof (intro allI impI)
    fix i p assume i: "live_node ?t i" "parent_of ?t i = Some p"
    then have par: "parent_of t i = Some p" by simp
    then have "i \<noteq> wg_id g \<or> group_row t i \<noteq> None" using new by (metis option.distinct(1))
    then have l: "live_node t i" using live i(1) by blast
    show "live_group ?t p" using groups [OF forest_okD(7) [OF ok l par]] bare l par by blast
  qed
  moreover have "leveled ?t"
    unfolding leveled_def
  proof (intro allI impI)
    fix i assume "live_group ?t i"
    then consider "live_group t i" | "i = wg_id g" "group_row t i = None"
      using kept by (auto simp: live_group_def split: if_splits)
    then show "\<exists>k \<le> depth_limit. level ?t i k"
    proof cases
      case 1
      then show ?thesis using forest_okD(8) [OF ok 1] level_same [of t _ _ ?t] by (metis putGroup_rows(7))
    next
      case 2
      then have "level ?t i (Suc 0)" using new by (simp add: level_root)
      then show ?thesis by (intro exI [of _ "Suc 0"]) (simp add: depth_limit_def)
    qed
  qed
  ultimately show ?thesis using rows by (simp add: forest_ok_def)
qed

text \<open>What the tasks promise does not depend on groups and placements.\<close>

lemma same_tasks:
  assumes "wt_items t' = wt_items t" "wt_edges t' = wt_edges t"
  shows "work_ok t' = work_ok t" "advances t t'"
proof -
  have rows: "item_row t' i = item_row t i" for i using assms by (simp add: item_row_def)
  then show "work_ok t' = work_ok t"
    by (simp add: work_ok_def rows_ok_def edges_ok_def grounded_def accepted_in_def live_in_def assms)
  show "advances t t'" by (simp add: advances_def rows item_advances_refl)
qed

definition hierarchy_keeps :: "work_tables \<Rightarrow> work_tables \<Rightarrow> bool" where
  "hierarchy_keeps t t' \<longleftrightarrow> work_ok t' \<and> forest_ok t' \<and> advances t t'"

lemma hierarchy_keeps_trans: "hierarchy_keeps a b \<Longrightarrow> hierarchy_keeps b c \<Longrightarrow> hierarchy_keeps a c"
  unfolding hierarchy_keeps_def using advances_trans by blast

lemma hierarchy_keepsI:
  "work_ok t \<Longrightarrow> forest_ok t' \<Longrightarrow> wt_items t' = wt_items t \<Longrightarrow> wt_edges t' = wt_edges t \<Longrightarrow> hierarchy_keeps t t'"
  unfolding hierarchy_keeps_def using same_tasks by blast

lemma affect_run [work_run]: "affect ids s = Inr (r, u) \<longleftrightarrow> u = note_affected ids s"
  by (auto simp: affect_def work_run)

lemma note_affected_tables [simp]: "ws_tables (note_affected ids s) = ws_tables s"
  by (simp add: note_affected_def)

lemma add_group_keeps:
  assumes run: "add_group env queue source sourceGeneration i subject parent position s = Inr (r, u)"
    and ok: "work_ok (ws_tables s)" "forest_ok (ws_tables s)"
  shows "hierarchy_keeps (ws_tables s) (ws_tables u)"
proof -
  let ?g = "new_group env queue source sourceGeneration i subject" and ?t = "ws_tables s"
  obtain v w where none: "item_row ?t i = None" "group_row ?t i = None"
    and saved: "saveGroup env ?g s = Inr ((), v)"
    and placed: "placeNode env i True parent position v = Inr ((), w)"
    and last: "(case parent of None \<Rightarrow> give () | Some p \<Rightarrow> andThen (ancestorsOf env p) (\<lambda>above. affect (p # above))) w = Inr (r, u)"
    using run unfolding add_group_def andThen_run by (auto simp: work_run split: if_splits)
  have v: "ws_tables v = putGroup ?g ?t" using saveGroup_run [OF saved] .
  have i: "wg_id ?g = i" "\<not> wg_deleted ?g" by (simp_all add: new_group_def)
  have "forest_ok (putGroup ?g ?t)" by (rule putGroup_forest [OF ok(2)]) (use none i in auto)
  then have w: "forest_ok (ws_tables w) \<and> wt_items (ws_tables w) = wt_items ?t \<and> wt_edges (ws_tables w) = wt_edges ?t"
    using placeNode_run [OF placed] i(1) unfolding v by simp
  have "ws_tables u = ws_tables w"
    using last ancestorsOf_run(1) by (cases parent) (fastforce simp: work_run)+
  then show ?thesis using w hierarchy_keepsI [OF ok(1)] by simp
qed

lemma move_node_run:
  assumes run: "move_node env i parent position s = Inr (r, u)" and ok: "forest_ok (ws_tables s)"
  shows "forest_ok (ws_tables u)" "wt_items (ws_tables u) = wt_items (ws_tables s)" "wt_edges (ws_tables u) = wt_edges (ws_tables s)"
    "wt_groups (ws_tables u) = wt_groups (ws_tables s)" "live_node (ws_tables s) i" "parent_of (ws_tables u) i = parent"
proof -
  let ?t = "ws_tables s"
  obtain n above v w above' x where n: "workNode ?t i = Some n" "\<not> deleted_node n"
    and one: "ancestorsOf env i s = Inr (above, v)"
    and placed: "placeNode env i (is_group_node n) parent position (note_affected above v) = Inr ((), w)"
    and two: "ancestorsOf env i w = Inr (above', x)" and u: "u = note_affected above' x"
    using run unfolding move_node_def andThen_run by (auto simp: work_run split: option.splits if_splits)
  have v: "ws_tables (note_affected above v) = ?t" using ancestorsOf_run(1) [OF one] by simp
  have kind: "is_group_node n \<longleftrightarrow> group_row ?t i \<noteq> None" and known: "item_row ?t i \<noteq> None \<or> group_row ?t i \<noteq> None"
    using n(1) forest_okD(3) [OF ok] by (auto simp: workNode_def split: option.splits)
  have w: "forest_ok (ws_tables w) \<and> wt_items (ws_tables w) = wt_items ?t \<and> wt_groups (ws_tables w) = wt_groups ?t \<and>
      wt_edges (ws_tables w) = wt_edges ?t \<and> parent_of (ws_tables w) i = parent"
    using placeNode_run [OF placed] ok kind known unfolding v by blast
  have "ws_tables u = ws_tables w" using ancestorsOf_run(1) [OF two] u by simp
  then show "forest_ok (ws_tables u)" "wt_items (ws_tables u) = wt_items ?t" "wt_edges (ws_tables u) = wt_edges ?t"
    "wt_groups (ws_tables u) = wt_groups ?t" "parent_of (ws_tables u) i = parent" using w by simp_all
  show "live_node ?t i" using n by (auto simp: live_node_def)
qed

lemma rename_group_keeps:
  assumes run: "rename_group env queue i subject s = Inr (r, u)" and ok: "work_ok (ws_tables s)" "forest_ok (ws_tables s)"
  shows "hierarchy_keeps (ws_tables s) (ws_tables u)"
proof -
  obtain g where g: "liveGroup i s = Inr (g, s)"
    and saved: "saveGroup env (g\<lparr>wg_subject := subject, wg_revision := wq_revision queue + 1, wg_updatedAt := en_at env\<rparr>) s = Inr (r, u)"
    (is "saveGroup env ?g s = _")
    using run liveGroup_run by (auto simp: rename_group_def work_run) metis
  have row: "group_row (ws_tables s) i = Some g" "\<not> wg_deleted g" using liveGroup_run [OF g] by simp_all
  have i: "wg_id ?g = i" "\<not> wg_deleted ?g" using forest_okD(5) [OF ok(2) row(1)] row(2) by simp_all
  have "forest_ok (putGroup ?g (ws_tables s))"
    by (rule putGroup_forest [OF ok(2)]) (use row i forest_okD(3) [OF ok(2), of i] in auto)
  then show ?thesis using saveGroup_run [OF saved] hierarchy_keepsI [OF ok(1)] by simp
qed

lemma retire_keeps:
  assumes saved: "saveGroup env (retired env queue g) s = Inr (r, u)" and g: "group_row (ws_tables s) i = Some g"
    and bare: "\<nexists>c. live_node (ws_tables s) c \<and> parent_of (ws_tables s) c = Some i"
    and ok: "work_ok (ws_tables s)" "forest_ok (ws_tables s)"
  shows "hierarchy_keeps (ws_tables s) (ws_tables u)" "gone_node (ws_tables u) i"
    "parent_of (ws_tables u) c = parent_of (ws_tables s) c" "gone_node (ws_tables s) c \<Longrightarrow> gone_node (ws_tables u) c"
    "live_node (ws_tables u) c \<Longrightarrow> live_node (ws_tables s) c \<or> parent_of (ws_tables s) c = None"
proof -
  let ?g = "retired env queue g"
  have i: "wg_id ?g = i" "wg_deleted ?g" using forest_okD(5) [OF ok(2) g] by (simp_all add: retired_def)
  have none: "item_row (ws_tables s) i = None" using forest_okD(3) [OF ok(2)] g by simp
  have u: "ws_tables u = putGroup ?g (ws_tables s)" using saveGroup_run [OF saved] .
  have "forest_ok (putGroup ?g (ws_tables s))"
    by (rule putGroup_forest [OF ok(2)]) (use none i g bare in auto)
  then show "hierarchy_keeps (ws_tables s) (ws_tables u)" using u hierarchy_keepsI [OF ok(1)] by simp
  show "gone_node (ws_tables u) i" using u none i by (auto simp: gone_node_def workNode_def)
  show "parent_of (ws_tables u) c = parent_of (ws_tables s) c" by (simp add: u)
  show "gone_node (ws_tables u) c" if "gone_node (ws_tables s) c"
    using that u i none by (auto simp: gone_node_def workNode_def split: option.splits if_splits)
  show "live_node (ws_tables s) c \<or> parent_of (ws_tables s) c = None" if "live_node (ws_tables u) c"
    using that u i none by (auto simp: live_node_def workNode_def split: option.splits if_splits)
qed

lemma remove_group_keeps:
  assumes run: "remove_group env queue i s = Inr (r, u)" and ok: "work_ok (ws_tables s)" "forest_ok (ws_tables s)"
  shows "hierarchy_keeps (ws_tables s) (ws_tables u) \<and> gone_node (ws_tables u) i"
proof -
  let ?t = "ws_tables s"
  obtain g v above w where g: "liveGroup i s = Inr (g, s)"
    and kids: "liveChildren env (Some i) None (\<lambda>child n acc. refuseWork Blocked_Transition) () s = Inr ((), v)"
    and up: "ancestorsOf env i v = Inr (above, w)"
    and saved: "saveGroup env (retired env queue g) (note_affected above w) = Inr (r, u)"
    using run liveGroup_run by (auto simp: remove_group_def work_run) metis
  have v: "ws_tables v = ?t \<and> live_kids ?t (Some i) = {}"
    by (rule liveChildren_rule [OF kids refl distinct_child_rows [OF ok(2)], where I = "\<lambda>_ D. D = {}"]) (auto simp: work_run)
  have w: "ws_tables (note_affected above w) = ?t" using v ancestorsOf_run(1) [OF up] by simp
  have bare: "\<nexists>c. live_node ?t c \<and> parent_of ?t c = Some i" using v live_kids_iff [OF ok(2), of _ i] by blast
  have row: "group_row ?t i = Some g" using liveGroup_run [OF g] by simp
  show ?thesis using retire_keeps(1,2) [OF saved, of i] bare row ok unfolding w by blast
qed

section \<open>Removing a subtree\<close>

text \<open>A list of nodes in which every group comes after its live children.\<close>

fun bottom_up :: "work_tables \<Rightarrow> work_id set \<Rightarrow> (work_id \<times> bool) list \<Rightarrow> bool" where
  "bottom_up t D [] \<longleftrightarrow> True"
| "bottom_up t D ((i, is_group) # rest) \<longleftrightarrow>
     (is_group \<longrightarrow> (\<forall>c. live_node t c \<longrightarrow> parent_of t c = Some i \<longrightarrow> c \<in> D)) \<and> bottom_up t (insert i D) rest"

lemma bottom_up_append: "bottom_up t D (xs @ ys) \<longleftrightarrow> bottom_up t D xs \<and> bottom_up t (fst ` set xs \<union> D) ys"
  by (induction t D xs rule: bottom_up.induct) auto

lemma push_node_spec:
  "push_node limit entry nodes = (nodes', ok) \<Longrightarrow> ok \<Longrightarrow> nodes' = nodes @ [entry]"
  by (auto simp: push_node_def split: if_splits)

lemma removal_visit_run:
  assumes "removal_visit env limit fuel i nodes s = Inr ((out, ok), u)" "ws_tables s = t" "forest_ok t" "bottom_up t {} nodes"
  shows "ws_tables u = t \<and> (ok \<longrightarrow> bottom_up t {} out \<and> set nodes \<subseteq> set out \<and> i \<in> fst ` set out)"
  using assms(1,2,4)
proof (induction fuel arbitrary: i nodes s out ok u)
  case 0
  then show ?case by (simp add: work_run)
next
  case (Suc fuel)
  let ?good = "\<lambda>ns D. bottom_up t {} ns \<and> set nodes \<subseteq> set ns \<and> D \<subseteq> fst ` set ns"
  let ?I = "\<lambda>(ns, ok) D. ok \<and> ?good ns D" and ?Q = "\<lambda>(ns, ok). ok \<longrightarrow> ?good ns (live_kids t (Some i))"
  let ?body = "\<lambda>(child :: work_child) n (nodes, _ :: bool).
         if is_group_node n
         then andThen (removal_visit env limit fuel (snd child) nodes) (\<lambda>(nodes', ok). give ((nodes', ok), ok))
         else let (nodes', ok) = push_node limit (snd child, False) nodes in give ((nodes', ok), ok)"
  obtain ns more v where loop: "liveChildren env (Some i) None ?body (nodes, True) s = Inr ((ns, more), v)"
    and fin: "u = v" "(out, ok) = (if more then push_node limit (i, True) ns else (ns, False))"
    using Suc.prems(1) by (auto simp: work_run)
  have "ws_tables v = t \<and> ?Q (ns, more)"
  proof (rule liveChildren_rule [OF loop Suc.prems(2) distinct_child_rows [OF assms(3)], where I = ?I])
    show "?I (nodes, True) {}" using Suc.prems(3) by simp
  next
    fix x n acc D a acc' go b
    assume I: "?I acc D" and a: "ws_tables a = t" and run: "?body x n acc a = Inr ((acc', go), b)"
    obtain ms where acc: "acc = (ms, True)" and good: "?good ms D" using I by (cases acc) auto
    show "ws_tables b = t \<and> (if go then ?I acc' (insert (snd x) D) else ?Q acc')"
    proof (cases "is_group_node n")
      case True
      then obtain ms' where sub: "removal_visit env limit fuel (snd x) ms a = Inr ((ms', go), b)" and acc': "acc' = (ms', go)"
        using run by (auto simp: acc work_run)
      have "ws_tables b = t \<and> (go \<longrightarrow> bottom_up t {} ms' \<and> set ms \<subseteq> set ms' \<and> snd x \<in> fst ` set ms')"
        using Suc.IH [OF sub a conjunct1 [OF good]] .
      then show ?thesis using good by (cases go) (simp_all add: acc', meson image_mono order_trans)
    next
      case False
      then obtain ms' where p: "push_node limit (snd x, False) ms = (ms', go)" and acc': "acc' = (ms', go)" and b: "b = a"
        using run by (auto simp: acc work_run Let_def split: prod.splits)
      show ?thesis using push_node_spec [OF p] good a by (auto simp: acc' b bottom_up_append)
    qed
  qed (auto split: prod.splits)
  moreover have "bottom_up t {} (ns @ [(i, True)])" if "?good ns (live_kids t (Some i))"
    using that live_kids_iff [OF assms(3)] by (auto simp: bottom_up_append)
  ultimately show ?case using fin push_node_spec [of limit "(i, True)" ns out ok] by (auto split: if_splits)
qed

lemma deleteTask_run:
  assumes run: "deleteTask env queue i s = Inr (r, u)" and ok: "work_ok (ws_tables s)" "forest_ok (ws_tables s)"
  shows "hierarchy_keeps (ws_tables s) (ws_tables u)" "gone_node (ws_tables u) i"
    "parent_of (ws_tables u) c = parent_of (ws_tables s) c" "gone_node (ws_tables s) c \<Longrightarrow> gone_node (ws_tables u) c"
    "live_node (ws_tables u) c \<Longrightarrow> live_node (ws_tables s) c \<or> parent_of (ws_tables s) c = None"
proof -
  obtain v it where v: "step env s = Inr ((), v)" and it: "item_row (ws_tables v) i = Some it" "\<not> wi_deleted it"
    and del: "delete_item env queue it v = Inr (r, u)"
    using run unfolding deleteTask_def by (cases rule: applyWorkMutation_run) simp_all
  have vt: "ws_tables v = ws_tables s" using step_quiet [OF v] .
  have id: "wi_id it = i" using work_okD(1) [OF ok(1)] it(1) vt by simp
  have keeps: "work_ok (ws_tables u) \<and> work_step (ws_tables s) (ws_tables u)"
    using delete_keeps [OF del _ it] ok(1) vt by simp
  then have forest: "forest_ok (ws_tables u)" using work_step_forest [OF ok(2)] by blast
  show "hierarchy_keeps (ws_tables s) (ws_tables u)" using keeps forest by (simp add: hierarchy_keeps_def work_step_def)
  obtain w where "finish_item env queue (it\<lparr>wi_deleted := True\<rparr>) w = Inr (r, u)" using del by (auto simp: delete_item_def work_run)
  from finish_run [OF this] show "gone_node (ws_tables u) i" by (simp add: gone_node_def workNode_def id)
  show "parent_of (ws_tables u) c = parent_of (ws_tables s) c" using work_step_nodes(2) [OF ok(2)] keeps by blast
  show "gone_node (ws_tables u) c" if "gone_node (ws_tables s) c" using work_step_gone [OF ok(2) _ that] keeps by blast
  show "live_node (ws_tables s) c \<or> parent_of (ws_tables s) c = None" if "live_node (ws_tables u) c"
  proof (cases "placement_row (ws_tables s) c")
    case (Some p)
    then show ?thesis using work_step_nodes(6) [OF ok(2) _ that] keeps forest_okD(4) [OF ok(2), of c] by blast
  qed (simp add: parent_of_def)
qed

lemma remove_all_run:
  assumes "remove_all env queue nodes s = Inr (r, u)" "bottom_up t D nodes"
    and "\<And>c. parent_of (ws_tables s) c = parent_of t c" "\<And>c. live_node (ws_tables s) c \<Longrightarrow> live_node t c \<or> parent_of t c = None"
    and "\<And>c. c \<in> D \<Longrightarrow> gone_node (ws_tables s) c" and "work_ok (ws_tables s)" "forest_ok (ws_tables s)"
  shows "hierarchy_keeps (ws_tables s) (ws_tables u) \<and> (\<forall>c \<in> D \<union> fst ` set nodes. gone_node (ws_tables u) c)"
  using assms
proof (induction env queue nodes arbitrary: s D rule: remove_all.induct)
  case (1 env queue)
  then show ?case by (simp add: work_run hierarchy_keeps_def advances_refl)
next
  case (2 env queue i is_group rest)
  obtain v where one: "(if is_group then andThen (liveGroup i) (\<lambda>g. saveGroup env (retired env queue g))
      else deleteTask env queue i) s = Inr ((), v)" and go: "remove_all env queue rest v = Inr (r, u)"
    using "2.prems"(1) by (auto simp: andThen_run)
  have v: "hierarchy_keeps (ws_tables s) (ws_tables v) \<and> gone_node (ws_tables v) i \<and>
    (\<forall>c. parent_of (ws_tables v) c = parent_of (ws_tables s) c \<and> (gone_node (ws_tables s) c \<longrightarrow> gone_node (ws_tables v) c) \<and>
       (live_node (ws_tables v) c \<longrightarrow> live_node (ws_tables s) c \<or> parent_of (ws_tables s) c = None))"
  proof (cases is_group)
    case True
    then obtain g where g: "liveGroup i s = Inr (g, s)" and saved: "saveGroup env (retired env queue g) s = Inr ((), v)"
      using one liveGroup_run by (auto simp: work_run) metis
    have row: "group_row (ws_tables s) i = Some g" using liveGroup_run [OF g] by simp
    have bare: "\<nexists>c. live_node (ws_tables s) c \<and> parent_of (ws_tables s) c = Some i"
    proof
      assume "\<exists>c. live_node (ws_tables s) c \<and> parent_of (ws_tables s) c = Some i"
      then obtain c where c: "live_node (ws_tables s) c" "parent_of t c = Some i" using "2.prems"(3) by auto
      then have "c \<in> D" using "2.prems"(2) "2.prems"(4) [OF c(1)] True by auto
      then show False using "2.prems"(5) gone_not_live c(1) by blast
    qed
    show ?thesis using retire_keeps [OF saved row bare "2.prems"(6,7)] by simp
  next
    case False
    then show ?thesis using one deleteTask_run [OF _ "2.prems"(6,7)] by simp
  qed
  have "hierarchy_keeps (ws_tables v) (ws_tables u) \<and> (\<forall>c \<in> insert i D \<union> fst ` set rest. gone_node (ws_tables u) c)"
  proof (rule "2.IH" [OF go])
    show "bottom_up t (insert i D) rest" using "2.prems"(2) by simp
    show "parent_of (ws_tables v) c = parent_of t c" for c using v "2.prems"(3) by simp
    show "live_node t c \<or> parent_of t c = None" if "live_node (ws_tables v) c" for c
      using v "2.prems"(3,4) [of c] that by auto
    show "gone_node (ws_tables v) c" if "c \<in> insert i D" for c using that v "2.prems"(5) by blast
    show "work_ok (ws_tables v)" "forest_ok (ws_tables v)" using v by (simp_all add: hierarchy_keeps_def)
  qed
  then show ?case using v hierarchy_keeps_trans by auto
qed

lemma remove_subtree_keeps:
  assumes run: "remove_subtree env queue i reviewed s = Inr (r, u)" and ok: "work_ok (ws_tables s)" "forest_ok (ws_tables s)"
  shows "hierarchy_keeps (ws_tables s) (ws_tables u) \<and> gone_node (ws_tables u) i"
proof -
  let ?t = "ws_tables s"
  obtain g s0 nodes v above w where g: "liveGroup i s = Inr (g, s0)"
    and order': "removalOrder env i batch_limit s0 = Inr ((nodes, True), v)"
    and up: "ancestorsOf env i v = Inr (above, w)"
    and all: "remove_all env queue nodes (note_affected above w) = Inr (r, u)"
    using run unfolding remove_subtree_def andThen_run by (auto simp: stop_run affect_run andThen_run split: if_splits)
  have "s0 = s" using liveGroup_run [OF g] by simp
  then have order: "removal_visit env batch_limit (en_stepLimit env + 2) i [] s = Inr ((nodes, True), v)"
    using order' by (simp add: removalOrder_def)
  have v: "ws_tables v = ?t \<and> bottom_up ?t {} nodes \<and> i \<in> fst ` set nodes"
    using removal_visit_run [OF order refl ok(2)] by simp
  have w: "ws_tables (note_affected above w) = ?t" using v ancestorsOf_run(1) [OF up] by simp
  show ?thesis using remove_all_run [OF all conjunct1 [OF conjunct2 [OF v]]] v ok unfolding w by blast
qed

theorem applyHierarchyMutation_keeps:
  assumes run: "applyHierarchyMutation env queue source sourceGeneration op s = Inr (r, u)"
    and ok: "work_ok (ws_tables s)" "forest_ok (ws_tables s)"
  shows "hierarchy_keeps (ws_tables s) (ws_tables u)"
proof -
  obtain v where v: "step env s = Inr ((), v)" and go: "change_hierarchy env queue source sourceGeneration op v = Inr (r, u)"
    using run by (auto simp: applyHierarchyMutation_def andThen_run)
  have ok': "work_ok (ws_tables v)" "forest_ok (ws_tables v)" using ok step_quiet [OF v] by simp_all
  have "hierarchy_keeps (ws_tables v) (ws_tables u)"
  proof (cases op)
    case (Op_Group i subject parent position)
    then show ?thesis using go add_group_keeps [OF _ ok'] by simp
  next
    case (Op_Place i parent position)
    then have "move_node env i parent position v = Inr (r, u)" using go by simp
    from hierarchy_keepsI [OF ok'(1) move_node_run(1-3) [OF this ok'(2)]] show ?thesis .
  next
    case (Op_Rename i subject)
    then show ?thesis using go rename_group_keeps [OF _ ok'] by simp
  next
    case (Op_Remove_Group i)
    then show ?thesis using go remove_group_keeps [OF _ ok'] by simp
  next
    case (Op_Remove_Subtree i reviewed)
    then show ?thesis using go remove_subtree_keeps [OF _ ok'] by simp
  qed
  then show ?thesis using step_quiet [OF v] by simp
qed

end
