(* ===== verification/Work_Fuel.thy ===== *)
theory Work_Fuel
  imports Work_Invariants
begin

text \<open>
  The loops of a transaction end. A piece of a transaction is \<open>frugal\<close> when, started after \<open>n\<close> steps and
  within the step limit, it never runs out of fuel, never gives steps back and stays within the limit.
\<close>

named_theorems frugal_intros \<open>pieces of transactions that stay within the budget\<close>

definition frugal :: "work_env \<Rightarrow> nat \<Rightarrow> 'a work \<Rightarrow> bool" where
  "frugal env n m \<longleftrightarrow> (\<forall>s. n \<le> ws_steps s \<longrightarrow> ws_steps s \<le> en_stepLimit env \<longrightarrow> m s \<noteq> Inl Out_Of_Fuel \<and>
     (\<forall>x t. m s = Inr (x, t) \<longrightarrow> ws_steps s \<le> ws_steps t \<and> ws_steps t \<le> en_stepLimit env))"

lemma frugalD:
  assumes "frugal env n m" "n \<le> ws_steps s" "ws_steps s \<le> en_stepLimit env"
  shows "m s \<noteq> Inl Out_Of_Fuel" "m s = Inr (x, t) \<Longrightarrow> ws_steps s \<le> ws_steps t \<and> ws_steps t \<le> en_stepLimit env"
  using assms by (auto simp: frugal_def)

lemma frugal_give [frugal_intros]: "frugal env n (give x)"
  by (simp add: frugal_def give_def)

lemma frugal_stop [frugal_intros]: "frugal env n (stop (Refused e))"
  by (simp add: frugal_def stop_def)

lemma frugal_andThen [frugal_intros]:
  assumes "frugal env n m" "\<And>x. frugal env n (f x)"
  shows "frugal env n (andThen m f)"
  unfolding frugal_def
proof (intro allI impI)
  fix s :: work_state assume s: "n \<le> ws_steps s" "ws_steps s \<le> en_stepLimit env"
  show "andThen m f s \<noteq> Inl Out_Of_Fuel \<and>
      (\<forall>x t. andThen m f s = Inr (x, t) \<longrightarrow> ws_steps s \<le> ws_steps t \<and> ws_steps t \<le> en_stepLimit env)"
  proof (cases "m s")
    case (Inl e)
    then show ?thesis using frugalD(1) [OF assms(1) s] by (auto simp: andThen_def)
  next
    case (Inr r)
    obtain x v where r: "r = (x, v)" by fastforce
    have v: "ws_steps s \<le> ws_steps v" "n \<le> ws_steps v" "ws_steps v \<le> en_stepLimit env"
      using frugalD(2) [OF assms(1) s, of x v] Inr r s(1) by auto
    have "ws_steps v \<le> ws_steps t \<and> ws_steps t \<le> en_stepLimit env" if "f x v = Inr (y, t)" for y t
      using frugalD(2) [OF assms(2) v(2,3) that] .
    then show ?thesis using frugalD(1) [OF assms(2) v(2,3), of x] v(1) Inr r by (fastforce simp: andThen_def)
  qed
qed

lemma frugal_require [frugal_intros]: "frugal env n (require ok (Refused e))"
  by (simp add: require_def frugal_give frugal_stop)

lemma frugal_reading [frugal_intros]: "frugal env n (reading f)"
  by (simp add: frugal_def reading_def)

lemma frugal_writing [frugal_intros]: "frugal env n (writing f)"
  by (simp add: frugal_def writing_def)

lemma frugal_noting: "(\<And>s. ws_steps (f s) = ws_steps s) \<Longrightarrow> frugal env n (noting f)"
  by (simp add: frugal_def noting_def)

lemma frugal_check [frugal_intros]: "frugal env n (check env)"
  by (simp add: frugal_def check_def)

lemma frugal_step [frugal_intros]: "frugal env n (step env)"
  unfolding step_def
proof (rule frugal_andThen [OF frugal_check])
  show "frugal env n (\<lambda>s. if ws_steps s + 1 > en_stepLimit env then Inl (Refused (exhausted Validation_Budget True))
     else Inr ((), s\<lparr>ws_steps := ws_steps s + 1\<rparr>))" for x by (simp add: frugal_def)
qed

lemma frugal_if [frugal_intros]: "(b \<Longrightarrow> frugal env n m) \<Longrightarrow> (\<not> b \<Longrightarrow> frugal env n m') \<Longrightarrow> frugal env n (if b then m else m')"
  by simp

lemma frugal_case_option [frugal_intros]:
  "frugal env n m \<Longrightarrow> (\<And>x. frugal env n (f x)) \<Longrightarrow> frugal env n (case y of None \<Rightarrow> m | Some x \<Rightarrow> f x)"
  by (simp split: option.splits)

lemma frugal_case_list [frugal_intros]:
  "frugal env n m \<Longrightarrow> (\<And>x xs. frugal env n (f x xs)) \<Longrightarrow> frugal env n (case y of [] \<Rightarrow> m | x # xs \<Rightarrow> f x xs)"
  by (simp split: list.splits)

lemma frugal_case_prod [frugal_intros]: "(\<And>x y. frugal env n (f x y)) \<Longrightarrow> frugal env n (case p of (x, y) \<Rightarrow> f x y)"
  by (simp split: prod.splits)

lemma frugal_let [frugal_intros]: "frugal env n (f x) \<Longrightarrow> frugal env n (let y = x in f y)"
  by simp

lemma frugal_next_edge [frugal_intros]: "frugal env n (next_edge env i dir c)"
  unfolding next_edge_def yield_edge_def by (intro frugal_intros)

lemma step_counts: "step env s = Inr (u, t) \<Longrightarrow> ws_steps t = ws_steps s + 1 \<and> ws_steps t \<le> en_stepLimit env"
  using step_run by fastforce

lemma next_edge_counts:
  assumes "next_edge env i dir c s = Inr ((Some x, c'), t)"
  shows "ws_steps s + 1 \<le> ws_steps t \<and> ws_steps t \<le> en_stepLimit env"
proof (cases "ec_left c")
  case (Cons y ys)
  then show ?thesis using assms step_counts by (fastforce simp: next_edge_def work_run)
next
  case Nil
  with assms obtain v where v: "step env s = Inr ((), v)" and
    go: "(case edge_page (ws_tables v) i dir (ec_after c) of [] \<Rightarrow> give (None, c\<lparr>ec_more := False\<rparr>)
      | y # rest \<Rightarrow> yield_edge env y rest (page_limit \<le> length (edge_page (ws_tables v) i dir (ec_after c)))) v = Inr ((Some x, c'), t)"
    by (auto simp: next_edge_def andThen_run reading_run give_run split: if_splits)
  obtain w where "step env v = Inr ((), t)"
    using go by (auto simp: work_run split: list.splits)
  with step_counts [OF v] step_counts [of env v] show ?thesis by fastforce
qed

text \<open>Each round of a loop that goes on has taken a step.\<close>

lemma frugal_edge_loop:
  assumes body: "\<And>x acc. frugal env n (body x acc)" and "en_stepLimit env + 2 \<le> ws_steps s + fuel" "ws_steps s \<le> en_stepLimit env"
    and "n \<le> ws_steps s"
  shows "edge_loop env i dir body fuel c acc s \<noteq> Inl Out_Of_Fuel \<and>
    (\<forall>x t. edge_loop env i dir body fuel c acc s = Inr (x, t) \<longrightarrow> ws_steps s \<le> ws_steps t \<and> ws_steps t \<le> en_stepLimit env)"
  using assms(2,3,4)
proof (induction fuel arbitrary: c acc s)
  case 0
  then show ?case by simp
next
  case (Suc fuel)
  show ?case
  proof (cases "next_edge env i dir c s")
    case (Inl e)
    then show ?thesis using frugalD(1) [OF frugal_next_edge Suc.prems(3,2)] by (auto simp: andThen_def)
  next
    case (Inr r)
    obtain found c' v where r: "r = ((found, c'), v)" by (cases r) auto
    have v: "ws_steps s \<le> ws_steps v" "ws_steps v \<le> en_stepLimit env"
      using frugalD(2) [OF frugal_next_edge Suc.prems(3,2)] Inr r by fastforce+
    have nv: "n \<le> ws_steps v" using v(1) Suc.prems(3) by simp
    show ?thesis
    proof (cases found)
      case None
      then show ?thesis using v Inr r by (simp add: andThen_def give_def)
    next
      case (Some y)
      then have more: "ws_steps s + 1 \<le> ws_steps v" using next_edge_counts Inr r by blast
      show ?thesis
      proof (cases "body y acc v")
        case (Inl e)
        then show ?thesis using frugalD(1) [OF body nv v(2), of y acc] Inr r \<open>next_edge env i dir c s = Inr r\<close> Some by (auto simp: andThen_def)
      next
        case (Inr q)
        obtain acc' go w where q: "q = ((acc', go), w)" by (cases q) auto
        have w: "ws_steps v \<le> ws_steps w" "ws_steps w \<le> en_stepLimit env" using frugalD(2) [OF body nv v(2)] Inr q by fastforce+
        have eq: "edge_loop env i dir body (Suc fuel) c acc s = (if go then edge_loop env i dir body fuel c' acc' w else give acc' w)"
          using \<open>next_edge env i dir c s = Inr r\<close> r Some Inr q by (simp add: andThen_def)
        show ?thesis
        proof (cases go)
          case True
          have "ws_steps w \<le> ws_steps t \<and> ws_steps t \<le> en_stepLimit env" if "edge_loop env i dir body fuel c' acc' w = Inr (x, t)" for x t
            using Suc.IH [of w c' acc'] Suc.prems(1) more w nv that by simp
          then show ?thesis using Suc.IH [of w c' acc'] Suc.prems(1) more w nv v(1) True unfolding eq by fastforce
        next
          case False
          then show ?thesis using w v unfolding eq by (simp add: give_def)
        qed
      qed
    qed
  qed
qed

lemma frugal_each_edge [frugal_intros]:
  assumes "\<And>x acc. frugal env n (body x acc)"
  shows "frugal env n (each_edge env i dir body acc)"
  unfolding frugal_def each_edge_def
  using frugal_edge_loop [of env n body, OF assms] by (metis le_add2)

section \<open>The search before a link\<close>

text \<open>
  A round of the search takes a step, closes a frame, or uses up the new edge, which only the frame of
  the item itself has to offer and the item is entered once.
\<close>

definition link_offers :: "link_frames \<Rightarrow> nat" where
  "link_offers frames = length (filter (\<lambda>(i, c). fst c \<noteq> None) frames)"

lemma link_offers_simps [simp]:
  "link_offers [] = 0"
  "link_offers ((i, c) # frames) = (if fst c \<noteq> None then 1 else 0) + link_offers frames"
  by (simp_all add: link_offers_def)

lemma frugal_next_link [frugal_intros]: "frugal env n (next_link env i c)"
  unfolding next_link_def by (intro frugal_intros)

lemma next_link_counts:
  assumes "next_link env i c s = Inr ((found, c'), t)" "ws_steps s \<le> en_stepLimit env"
  shows "fst c' = None" "found = Some x \<Longrightarrow> fst c = None \<Longrightarrow> ws_steps s + 1 \<le> ws_steps t"
    "ws_steps s \<le> ws_steps t" "ws_steps t \<le> en_stepLimit env"
proof -
  show "fst c' = None" using assms(1) by (auto simp: next_link_def work_run split: option.splits)
  show "ws_steps s + 1 \<le> ws_steps t" if "found = Some x" "fst c = None"
    using assms(1) that next_edge_counts by (fastforce simp: next_link_def work_run)
  show "ws_steps s \<le> ws_steps t" "ws_steps t \<le> en_stepLimit env"
    using frugalD(2) [OF frugal_next_link [of _ 0] le0 assms(2,1)] by simp_all
qed

lemma frugal_link_loop:
  assumes "2 * en_stepLimit env + length frames + 2 * link_offers frames + 1 \<le> 2 * ws_steps s + fuel"
    and "ws_steps s \<le> en_stepLimit env" "js_get state item \<noteq> None"
  shows "link_loop env item dependency fuel state frames s \<noteq> Inl Out_Of_Fuel \<and>
    (\<forall>x t. link_loop env item dependency fuel state frames s = Inr (x, t) \<longrightarrow> ws_steps s \<le> ws_steps t \<and> ws_steps t \<le> en_stepLimit env)"
  using assms
proof (induction fuel arbitrary: state frames s)
  case 0
  then show ?case by simp
next
  case (Suc fuel)
  let ?loop = "link_loop env item dependency"
  let ?fine = "\<lambda>r v. r \<noteq> Inl Out_Of_Fuel \<and> (\<forall>x t. r = Inr (x, t) \<longrightarrow> ws_steps v \<le> ws_steps t \<and> ws_steps t \<le> en_stepLimit env)"
  show ?case
  proof (cases frames)
    case Nil
    then show ?thesis using Suc.prems(2) by (simp add: give_def)
  next
    case (Cons frame rest)
    obtain i c where frame: "frame = (i, c)" by (cases frame)
    show ?thesis
    proof (cases "next_link env i c s")
      case (Inl e)
      then show ?thesis using frugalD(1) [OF frugal_next_link [of _ 0] le0 Suc.prems(2), of i c] Cons frame by (auto simp: andThen_def)
    next
      case (Inr r)
      obtain found c' v where r: "r = ((found, c'), v)" by (cases r) auto
      note nxt = Inr [unfolded r]
      note counts = next_link_counts [OF nxt Suc.prems(2)]
      have IH: "?fine (?loop fuel st fs v) s"
        if "2 * en_stepLimit env + length fs + 2 * link_offers fs + 1 \<le> 2 * ws_steps v + fuel" "js_get st item \<noteq> None" for st fs
        using Suc.IH [OF that(1) counts(4) that(2)] counts(3) by fastforce
      show ?thesis
      proof (cases found)
        case None
        have "?fine (?loop fuel (js_set i Finished state) rest v) s"
          using Suc.prems(1,3) counts(3) Cons frame by (intro IH) auto
        then show ?thesis using nxt None Cons frame by (simp add: andThen_def)
      next
        case (Some x)
        have room: "2 * en_stepLimit env + length frames + 2 * link_offers ((i, c') # rest) + 2 \<le> 2 * ws_steps v + fuel"
          using Suc.prems(1) counts(1,3) counts(2) [OF Some] Cons frame by (cases "fst c") auto
        consider "js_get state x = Some Finished" | "js_get state x = Some Visiting"
          | "js_get state x \<noteq> Some Finished" "js_get state x \<noteq> Some Visiting" by blast
        then show ?thesis
        proof cases
          case 1
          then show ?thesis using IH [of "(i, c') # rest" state] room Suc.prems(3) nxt Some Cons frame by (simp add: andThen_def)
        next
          case 2
          then show ?thesis using counts(3,4) nxt Some Cons frame by (simp add: andThen_def give_def)
        next
          case 3
          have "x \<noteq> item"
          proof
            assume "x = item"
            with Suc.prems(3) obtain m where "js_get state x = Some m" by auto
            with 3 show False by (cases m) auto
          qed
          then have "link_offers (enter_link item dependency x # (i, c') # rest) = link_offers ((i, c') # rest)"
            by (simp add: enter_link_def)
          then have "?fine (?loop fuel (js_set x Visiting state) (enter_link item dependency x # (i, c') # rest) v) s"
            using room Suc.prems(3) Cons by (intro IH) auto
          then show ?thesis using 3 nxt Some Cons frame by (simp add: andThen_def)
        qed
      qed
    qed
  qed
qed

lemma frugal_link_cycle [frugal_intros]: "frugal env n (link_cycle env item dependency)"
  unfolding frugal_def link_cycle_def
  using frugal_link_loop [of env "[enter_link item dependency item]" _ "2 * en_stepLimit env + 6" "js_set item Visiting []" item dependency]
  by (simp add: enter_link_def)

section \<open>The mutations\<close>

lemma frugal_live [frugal_intros]: "frugal env n (live found)"
  unfolding live_def by (intro frugal_intros)

lemma frugal_live_item [frugal_intros]: "frugal env n (live_item i)"
  unfolding live_item_def by (intro frugal_intros)

lemma frugal_requireReady [frugal_intros]: "frugal env n (requireReady env it)"
  unfolding requireReady_def by (intro frugal_intros)

lemma frugal_requireIdle [frugal_intros]: "frugal env n (requireIdle it)"
  unfolding requireIdle_def by (intro frugal_intros)

lemma frugal_mutable [frugal_intros]: "frugal env n (mutable it)"
  unfolding mutable_def by (intro frugal_intros)

lemma frugal_within_batch [frugal_intros]: "frugal env n (within_batch ids)"
  by (simp add: frugal_def within_batch_def)

lemma frugal_save [frugal_intros]: "frugal env n (save env it)"
  unfolding save_def validateWorkItem_def
  by (intro frugal_intros frugal_noting) (simp add: note_changed_def)

lemma frugal_finish [frugal_intros]: "frugal env n (finish_item env queue it)"
  unfolding finish_item_def by (intro frugal_intros)

lemma frugal_set_link: "frugal env n (set_link env queue it dep linking)"
  unfolding set_link_def by (intro frugal_intros)

lemma frugal_delete: "frugal env n (delete_item env queue it)"
  unfolding delete_item_def eachWorkEdge_def orphan_def by (intro frugal_intros)

lemma frugal_change_item: "frugal env n (change_item env queue it op)"
  by (cases op)
    (simp_all add: frugal_set_link frugal_delete, unfold update_item_def set_blockers_def set_disposition_def claim_item_def
      release_item_def cancel_item_def archive_item_def submit_item_def validate_item_def, (intro frugal_intros)+)

lemma frugal_add_item: "frugal env n (add_item env queue found i f)"
  unfolding add_item_def by (intro frugal_intros)

lemma frugal_applyWorkMutation: "frugal env n (applyWorkMutation env queue op)"
  unfolding applyWorkMutation_def
  by (cases op; simp only: work_mutation.case; intro frugal_intros frugal_change_item frugal_add_item)

end
