(* ===== verification/Work_Budget.thy ===== *)
theory Work_Budget
  imports Work_Hierarchy Work_Fuel
begin

text \<open>
  The loops of the hierarchy stay within the budget too: a round over children takes a step, so does every
  level a recursion goes down, and the walk up stops at the depth limit.
\<close>

lemma frugal_weaken: "frugal env n m \<Longrightarrow> n \<le> k \<Longrightarrow> frugal env k m"
  unfolding frugal_def by (meson order_trans)

lemma frugal_placementOf [frugal_intros]: "frugal env n (placementOf i)"
  unfolding placementOf_def by (intro frugal_intros)

lemma frugal_liveGroup [frugal_intros]: "frugal env n (liveGroup i)"
  unfolding liveGroup_def by (intro frugal_intros)

lemma frugal_next_child [frugal_intros]: "frugal env n (next_child env parent c)"
  unfolding next_child_def yield_child_def by (intro frugal_intros)

lemma next_child_counts:
  assumes "next_child env parent c s = Inr ((Some x, c'), t)"
  shows "ws_steps s + 1 \<le> ws_steps t"
proof (cases "cc_left c")
  case (Cons y ys)
  then show ?thesis using assms step_counts by (fastforce simp: next_child_def yield_child_def work_run)
next
  case Nil
  with assms obtain v where v: "step env s = Inr ((), v)" and
    go: "(case children_forward (ws_tables v) parent (cc_after c) page_limit of [] \<Rightarrow> give (None, c\<lparr>cc_more := False\<rparr>)
      | y # rest \<Rightarrow> yield_child env y rest (page_limit \<le> length (children_forward (ws_tables v) parent (cc_after c) page_limit))) v
        = Inr ((Some x, c'), t)"
    by (auto simp: next_child_def andThen_run reading_run give_run split: if_splits)
  have "step env v = Inr ((), t)"
    using go by (auto simp: yield_child_def work_run split: list.splits)
  with step_counts [OF v] step_counts [of env v] show ?thesis by fastforce
qed

lemma frugal_child_loop:
  assumes body: "\<And>x acc. frugal env (Suc n) (body x acc)" and "en_stepLimit env + 2 \<le> n + fuel"
  shows "frugal env n (child_loop env parent body fuel c acc)"
  using assms
proof (induction fuel arbitrary: n c acc)
  case 0
  then show ?case by (simp add: frugal_def)
next
  case (Suc fuel)
  show ?case
    unfolding frugal_def
  proof (intro allI impI)
    fix s :: work_state assume s: "n \<le> ws_steps s" "ws_steps s \<le> en_stepLimit env"
    let ?loop = "child_loop env parent body (Suc fuel) c acc s"
    show "?loop \<noteq> Inl Out_Of_Fuel \<and> (\<forall>x t. ?loop = Inr (x, t) \<longrightarrow> ws_steps s \<le> ws_steps t \<and> ws_steps t \<le> en_stepLimit env)"
    proof (cases "next_child env parent c s")
      case (Inl e)
      then show ?thesis using frugalD(1) [OF frugal_next_child s, of parent c] by (auto simp: andThen_def)
    next
      case (Inr r)
      obtain found c' v where r: "r = ((found, c'), v)" by (cases r) auto
      have v: "ws_steps s \<le> ws_steps v" "ws_steps v \<le> en_stepLimit env"
        using frugalD(2) [OF frugal_next_child s] Inr r by fastforce+
      show ?thesis
      proof (cases found)
        case None
        then show ?thesis using v Inr r by (simp add: andThen_def give_def)
      next
        case (Some y)
        then have more: "Suc n \<le> ws_steps v" using next_child_counts Inr r s(1) by fastforce
        have rest: "frugal env (Suc n) (child_loop env parent body fuel c' acc')" for acc'
        proof (rule Suc.IH)
          show "frugal env (Suc (Suc n)) (body x acc)" for x acc using frugal_weaken [OF Suc.prems(1)] by simp
          show "en_stepLimit env + 2 \<le> Suc n + fuel" using Suc.prems(2) by simp
        qed
        have "frugal env (Suc n) (andThen (body y acc) (\<lambda>(acc', go). if go then child_loop env parent body fuel c' acc' else give acc'))"
          (is "frugal _ _ ?m")
          by (intro frugal_intros Suc.prems(1) rest)
        note within = frugalD [OF this more v(2)]
        have eq: "?loop = ?m v" using Inr r Some by (simp add: andThen_def)
        show ?thesis using within v(1) unfolding eq by fastforce
      qed
    qed
  qed
qed

lemma frugal_childrenOf:
  assumes "\<And>x acc. frugal env (Suc n) (body x acc)"
  shows "frugal env n (childrenOf env parent after body acc)"
  unfolding childrenOf_def by (rule frugal_child_loop [OF assms]) simp

lemma frugal_liveChildren:
  assumes "\<And>x k acc. frugal env (Suc n) (body x k acc)"
  shows "frugal env n (liveChildren env parent after body acc)"
  unfolding liveChildren_def by (intro frugal_childrenOf frugal_intros assms)

lemma frugal_ancestor_loop:
  "length chain \<le> depth_limit \<Longrightarrow> depth_limit + 1 \<le> length chain + fuel \<Longrightarrow> frugal env n (ancestor_loop env fuel parent chain)"
proof (induction env fuel parent chain rule: ancestor_loop.induct)
  case (1 env fuel chain)
  then show ?case by (simp add: frugal_give)
next
  case (2 env parent chain)
  then show ?case by simp
next
  case (3 env fuel parent chain)
  have "frugal env n (ancestor_loop env fuel up (chain @ [parent]))"
    if "\<not> wg_deleted g" "\<not> (parent \<in> set chain \<or> depth_limit \<le> length chain)" for g :: work_group and up
  proof -
    have "pl_parent \<lparr>pl_parent = up, pl_order = []\<rparr> = up" by simp
    then show ?thesis using "3.IH" [OF that, of "\<lparr>pl_parent = up, pl_order = []\<rparr>"] "3.prems" that(2) by simp
  qed
  then show ?case unfolding ancestor_loop.simps by (intro frugal_intros)
qed

lemma frugal_ancestorsOf [frugal_intros]: "frugal env n (ancestorsOf env i)"
  unfolding ancestorsOf_def by (intro frugal_intros frugal_ancestor_loop) simp_all

lemma frugal_height_loop: "en_stepLimit env + 1 \<le> n + fuel \<Longrightarrow> frugal env n (height_loop env fuel g)"
proof (induction fuel arbitrary: n g)
  case 0
  then show ?case by (simp add: frugal_def)
next
  case (Suc fuel)
  have "frugal env (Suc n) (height_loop env fuel x)" for x using Suc.IH [of "Suc n"] Suc.prems by simp
  then show ?case unfolding height_loop.simps by (intro frugal_liveChildren frugal_intros)
qed

lemma frugal_subtreeHeight [frugal_intros]: "frugal env n (subtreeHeight env g)"
  unfolding subtreeHeight_def by (rule frugal_height_loop) simp

lemma frugal_removal_visit: "en_stepLimit env + 1 \<le> n + fuel \<Longrightarrow> frugal env n (removal_visit env limit fuel i nodes)"
proof (induction fuel arbitrary: n i nodes)
  case 0
  then show ?case by (simp add: frugal_def)
next
  case (Suc fuel)
  have "frugal env (Suc n) (removal_visit env limit fuel x ns)" for x ns using Suc.IH [of "Suc n"] Suc.prems by simp
  then show ?case unfolding removal_visit.simps by (intro frugal_liveChildren frugal_intros)
qed

lemma frugal_removalOrder [frugal_intros]: "frugal env n (removalOrder env root limit)"
  unfolding removalOrder_def by (rule frugal_removal_visit) simp

lemma frugal_neighbour [frugal_intros]: "frugal env n (neighbour_loop env node cs)"
  by (induction cs) (auto intro!: frugal_intros)

lemma frugal_sibling_key [frugal_intros]: "frugal env n (sibling_key parent node i)"
  unfolding sibling_key_def by (intro frugal_intros)

lemma frugal_positionKey [frugal_intros]: "frugal env n (positionKey env parent node position)"
  unfolding positionKey_def by (cases position; simp only: work_position.case; intro frugal_intros)

lemma frugal_case_key [frugal_intros]:
  "frugal env n m \<Longrightarrow> (\<And>k. frugal env n (f k)) \<Longrightarrow> frugal env n (case key of Respace \<Rightarrow> m | Key k \<Rightarrow> f k)"
  by (simp split: position_key.splits)

lemma frugal_place [frugal_intros]: "frugal env n (place env node p)"
  unfolding place_def by (intro frugal_intros frugal_noting) simp

lemma frugal_place_all [frugal_intros]: "frugal env n (place_all env parent cs)"
proof (induction cs)
  case (Cons c cs)
  then show ?case by (cases c) (auto intro!: frugal_intros)
qed (simp add: frugal_give)

lemma frugal_respace [frugal_intros]: "frugal env n (respace env parent)"
  unfolding respace_def by (intro frugal_childrenOf frugal_intros)

lemma frugal_affect [frugal_intros]: "frugal env n (affect ids)"
  unfolding affect_def by (intro frugal_noting) (simp add: note_affected_def)

lemma frugal_saveGroup [frugal_intros]: "frugal env n (saveGroup env g)"
  unfolding saveGroup_def by (intro frugal_intros frugal_noting) (simp add: note_group_def note_affected_def)

lemma frugal_placeNode [frugal_intros]: "frugal env n (placeNode env node is_group parent position)"
  unfolding placeNode_def by (intro frugal_intros)

lemma frugal_deleteTask [frugal_intros]: "frugal env n (deleteTask env queue i)"
  unfolding deleteTask_def by (rule frugal_applyWorkMutation)

lemma frugal_remove_all [frugal_intros]: "frugal env n (remove_all env queue nodes)"
proof (induction nodes)
  case (Cons c cs)
  then show ?case by (cases c) (auto intro!: frugal_intros)
qed (simp add: frugal_give)

lemma frugal_change_hierarchy [frugal_intros]: "frugal env n (change_hierarchy env queue source sourceGeneration op)"
  by (cases op)
    (simp_all only: change_hierarchy.simps, unfold add_group_def move_node_def rename_group_def remove_group_def remove_subtree_def,
      (intro frugal_intros frugal_liveChildren)+)

lemma frugal_applyHierarchyMutation [frugal_intros]: "frugal env n (applyHierarchyMutation env queue source sourceGeneration op)"
  unfolding applyHierarchyMutation_def by (intro frugal_intros)

end
