(* ===== verification/Work_Promises.thy ===== *)
theory Work_Promises
  imports Work_Actions Work_Groups Work_Budget
begin

text \<open>
  What the work queue store promises through every request: the tasks and the hierarchy stay well formed,
  revisions have no gaps, a request that is repeated finds its receipt, and no request runs out of fuel.
\<close>

section \<open>A batch\<close>

lemma reading_state_run [work_run]: "reading_state f s = Inr (x, t) \<longleftrightarrow> x = f s \<and> t = s"
  by (auto simp: reading_state_def)

lemma apply_operation_keeps:
  assumes "apply_operation env queue request op s = Inr (r, u)" "operation_valid version op"
    and ok: "work_ok (ws_tables s)" "forest_ok (ws_tables s)"
  shows "hierarchy_keeps (ws_tables s) (ws_tables u)"
proof (cases op)
  case (On_Task m)
  then have "work_ok (ws_tables u) \<and> work_step (ws_tables s) (ws_tables u)"
    using assms(1,2) applyWorkMutation_keeps [OF _ _ ok(1)] by (auto simp: apply_operation_def operation_valid_def)
  then show ?thesis using work_step_forest [OF ok(2)] by (simp add: hierarchy_keeps_def work_step_def)
next
  case (On_Hierarchy h)
  then show ?thesis using assms(1) applyHierarchyMutation_keeps [OF _ ok] by (simp add: apply_operation_def)
qed

lemma apply_operations_keeps:
  assumes "apply_operations env queue request ops s = Inr (r, u)" "list_all (operation_valid version) ops"
    and "work_ok (ws_tables s)" "forest_ok (ws_tables s)"
  shows "hierarchy_keeps (ws_tables s) (ws_tables u)"
  using assms
proof (induction env queue request ops arbitrary: s rule: apply_operations.induct)
  case (1 env queue request)
  then show ?case by (simp add: work_run hierarchy_keeps_def advances_refl)
next
  case (2 env queue request op ops)
  then obtain v where v: "apply_operation env queue request op s = Inr ((), v)"
    and go: "apply_operations env queue request ops v = Inr (r, u)" by (auto simp: andThen_run)
  have one: "hierarchy_keeps (ws_tables s) (ws_tables v)" using apply_operation_keeps [OF v, where version = version] "2.prems" by simp
  then have "hierarchy_keeps (ws_tables v) (ws_tables u)" using "2.IH" [OF go] "2.prems"(2) by (simp add: hierarchy_keeps_def)
  then show ?case using one hierarchy_keeps_trans by blast
qed

lemma authorize_run: "authorize store env queue access s = Inr (r, u) \<Longrightarrow> u = s"
  by (auto simp: authorize_def Let_def split: if_splits)

lemma climb_loop_quiet: "climb_loop env fuel parent s = Inr (r, u) \<Longrightarrow> ws_tables u = ws_tables s"
proof (induction env fuel parent arbitrary: s rule: climb_loop.induct)
  case (3 env fuel parent)
  consider "u = s" | v where "step env s = Inr ((), v)" "u = v"
    | v where "step env s = Inr ((), v)" "climb_loop env fuel (parent_row (ws_tables v) parent) (note_affected [parent] v) = Inr (r, u)"
      "parent \<notin> set (ws_affected s)" "\<not> (case group_row (ws_tables v) parent of None \<Rightarrow> True | Some g \<Rightarrow> wg_deleted g)"
    using "3.prems" by (auto simp: work_run split: if_splits)
  then show ?case
  proof cases
    case 2
    then show ?thesis using step_quiet by blast
  next
    case 3
    then show ?thesis using "3.IH" [OF _ _ 3(2)] step_quiet [OF 3(1)] by auto
  qed simp
qed (simp_all add: work_run)

lemma climb_all_quiet: "climb_all env ids s = Inr (r, u) \<Longrightarrow> ws_tables u = ws_tables s"
proof (induction ids arbitrary: s)
  case (Cons i ids)
  then obtain v where v: "climb_loop env (en_stepLimit env + 2) (parent_row (ws_tables s) i) s = Inr ((), v)"
    and go: "climb_all env ids v = Inr (r, u)" by (auto simp: work_run)
  show ?case using Cons.IH [OF go] climb_loop_quiet [OF v] by simp
qed (simp add: work_run)

lemma commit_queue_run:
  assumes "commit_queue store env request queue intent s = Inr (response, u)"
  shows "ws_tables u = ws_tables s"
    "wp_queue response = queue\<lparr>wq_revision := wq_revision queue + 1, wq_updatedAt := en_at env\<rparr>"
    "\<exists>x. wp_receipt response = new_receipt env request queue intent x"
    "queue_valid (wp_queue response)"
proof -
  obtain v w x where v: "check env s = Inr ((), v)" and w: "mark_affected env v = Inr ((), w)"
    and x: "check env w = Inr ((), x)" "u = x"
    and r: "wp_queue response = queue\<lparr>wq_revision := wq_revision queue + 1, wq_updatedAt := en_at env\<rparr>"
      "wp_receipt response = new_receipt env request queue intent w"
      "queue_valid (queue\<lparr>wq_revision := wq_revision queue + 1, wq_updatedAt := en_at env\<rparr>)"
    using assms authorize_run unfolding commit_queue_def by (auto simp: work_run Let_def) metis
  have "ws_tables w = ws_tables v"
    using w climb_all_quiet [of env] by (auto simp: mark_affected_def work_run split: if_splits)
  then show "ws_tables u = ws_tables s" using check_quiet [OF v] check_quiet [OF x(1)] x(2) by simp
  show "wp_queue response = queue\<lparr>wq_revision := wq_revision queue + 1, wq_updatedAt := en_at env\<rparr>" "queue_valid (wp_queue response)"
    using r by simp_all
  show "\<exists>x. wp_receipt response = new_receipt env request queue intent x" using r by blast
qed

section \<open>What a request did\<close>

text \<open>The queue a committed request worked on: the stored one at its revision, or a new one at revision zero.\<close>

definition worked_on :: "work_store \<Rightarrow> write_request \<Rightarrow> work_queue \<Rightarrow> bool" where
  "worked_on store request queue \<longleftrightarrow> (case js_get (st_queues store) (rq_queueId request) of
       Some e \<Rightarrow> queue = qe_queue e
     | None \<Rightarrow> wq_revision queue = 0 \<and> wq_id queue = rq_queueId request \<and>
         (\<exists>objective scope. rq_action request = Create_Queue objective scope))"

lemma target_queue_run:
  assumes "target_queue store env request s = Inr (queue, u)"
  shows "u = s" "worked_on store request queue"
  using assms authorize_run
  by (auto simp: target_queue_def worked_on_def new_queue_def work_run Let_def split: write_action.splits option.splits)

definition batch_of :: "write_request \<Rightarrow> queue_operation list" where
  "batch_of request = (case rq_action request of Create_Queue _ _ \<Rightarrow> [] | Mutate_Queue _ _ ops \<Rightarrow> ops)"

definition expects :: "write_request \<Rightarrow> int" where
  "expects request = (case rq_action request of Create_Queue _ _ \<Rightarrow> 0 | Mutate_Queue _ expected _ \<Rightarrow> expected)"

lemma run_action_run:
  assumes "run_action store env request queue intent s = Inr (response, u)"
  shows "wq_revision queue = expects request"
    "\<exists>v. apply_operations (env\<lparr>en_at := max (en_at env) (wq_updatedAt queue)\<rparr>) queue request (batch_of request) s = Inr ((), v) \<and>
       commit_queue store (env\<lparr>en_at := max (en_at env) (wq_updatedAt queue)\<rparr>) request queue intent v = Inr (response, u)"
  using assms by (auto simp: run_action_def expects_def batch_of_def work_run Let_def split: write_action.splits)

lemma perform_run:
  assumes "perform digest store env request = Inr (response, store')"
  obtains (replayed) e prior where "js_get (st_queues store) (rq_queueId request) = Some e"
      "receipt_of (qe_receipts e) (rq_mutationId request) = Some prior"
      "rc_intent prior = digest request (wa_actor (en_authority env))" "wp_receipt response = prior" "wp_facts response = None"
      "store' = store"
  | (written) queue and s :: work_state where "receipt_of (stored_receipts store (rq_queueId request)) (rq_mutationId request) = None"
      "worked_on store request queue" "wsc_generation (wq_scope queue) = (case rq_action request of
         Create_Queue _ _ \<Rightarrow> wsc_generation (wq_scope queue) | Mutate_Queue generation _ _ \<Rightarrow> generation)"
      "wq_revision queue = expects request"
      "\<exists>at v w. apply_operations (env\<lparr>en_at := at\<rparr>) queue request (batch_of request) v = Inr ((), w) \<and>
         ws_tables v = stored_tables store (rq_queueId request) \<and> ws_tables s = ws_tables w \<and>
         wp_queue response = queue\<lparr>wq_revision := wq_revision queue + 1, wq_updatedAt := at\<rparr> \<and>
         (\<exists>x. wp_receipt response = new_receipt (env\<lparr>en_at := at\<rparr>) request queue (digest request (wa_actor (en_authority env))) x)"
      "store' = store\<lparr>st_queues := js_set (rq_queueId request) \<lparr>qe_queue = wp_queue response, qe_tables = ws_tables s,
          qe_receipts = stored_receipts store (rq_queueId request) @ [wp_receipt response]\<rparr> (st_queues store),
        st_bindings := bound request (wp_queue response) (st_bindings store)\<rparr>"
proof -
  let ?i = "rq_queueId request" and ?intent = "digest request (wa_actor (en_authority env))"
  obtain fresh s where run: "performing digest store env request (begin_work (stored_tables store ?i)) = Inr ((response, fresh), s)"
    and store': "store' = (if fresh
            then store\<lparr>st_queues := js_set ?i \<lparr>qe_queue = wp_queue response, qe_tables = ws_tables s,
                     qe_receipts = stored_receipts store ?i @ [wp_receipt response]\<rparr> (st_queues store),
                   st_bindings := bound request (wp_queue response) (st_bindings store)\<rparr>
            else store)"
    using assms by (auto simp: perform_def Let_def split: sum.splits prod.splits)
  let ?found = "Option.bind (js_get (st_queues store) ?i) (\<lambda>e. map_option (Pair e) (receipt_of (qe_receipts e) (rq_mutationId request)))"
  obtain a v queue v1 b v2 where v: "check env (begin_work (stored_tables store ?i)) = Inr (a, v)"
    and target1: "target_queue store env request v = Inr (queue, v1)" and auth: "authorize store env queue Mutate_Access v1 = Inr (b, v2)"
    and gen: "case rq_action request of Create_Queue _ _ \<Rightarrow> True | Mutate_Queue generation _ _ \<Rightarrow> generation = wsc_generation (wq_scope queue)"
    and go: "(case ?found of
        Some (e, prior) \<Rightarrow>
          andThen (require (rc_intent prior = ?intent) (Refused (work_refusal Conflicting_Identity))) (\<lambda>_.
          andThen (queueAt e (rc_revision prior)) (\<lambda>original. case original of
            None \<Rightarrow> refuseWork Recovery_Required
          | Some q \<Rightarrow> give (\<lparr>wp_queue = q, wp_receipt = prior, wp_facts = None\<rparr>, False)))
      | None \<Rightarrow> andThen (run_action store env request queue ?intent) (\<lambda>response. give (response, True))) v2 = Inr ((response, fresh), s)"
    using run unfolding performing_def Let_def by (auto simp only: andThen_run require_run)
  have same: "v1 = v" "v2 = v" using target_queue_run(1) [OF target1] authorize_run [OF auth] by simp_all
  note target = target1 [unfolded same]
  show thesis
  proof (cases ?found)
    case None
    with go same have act: "run_action store env request queue ?intent v = Inr (response, s)" and fresh by (auto simp: work_run)
    note acted = run_action_run [OF act]
    obtain w where w: "apply_operations (env\<lparr>en_at := max (en_at env) (wq_updatedAt queue)\<rparr>) queue request (batch_of request) v = Inr ((), w)"
      "commit_queue store (env\<lparr>en_at := max (en_at env) (wq_updatedAt queue)\<rparr>) request queue ?intent w = Inr (response, s)"
      using acted(2) by blast
    have vt: "ws_tables v = stored_tables store ?i" using check_quiet [OF v] by (simp add: begin_work_def)
    show thesis
    proof (rule written)
      show "receipt_of (stored_receipts store ?i) (rq_mutationId request) = None"
        using None by (cases "js_get (st_queues store) ?i") (simp_all add: stored_receipts_def receipt_of_def)
      show "worked_on store request queue" using target_queue_run(2) [OF target] .
      show "wsc_generation (wq_scope queue) = (case rq_action request of
         Create_Queue _ _ \<Rightarrow> wsc_generation (wq_scope queue) | Mutate_Queue generation _ _ \<Rightarrow> generation)"
        using gen by (auto split: write_action.splits)
      show "wq_revision queue = expects request" by (rule acted(1))
      show "\<exists>at v w. apply_operations (env\<lparr>en_at := at\<rparr>) queue request (batch_of request) v = Inr ((), w) \<and>
         ws_tables v = stored_tables store ?i \<and> ws_tables s = ws_tables w \<and>
         wp_queue response = queue\<lparr>wq_revision := wq_revision queue + 1, wq_updatedAt := at\<rparr> \<and>
         (\<exists>x. wp_receipt response = new_receipt (env\<lparr>en_at := at\<rparr>) request queue ?intent x)"
        using w vt commit_queue_run(1-3) [OF w(2)]
        by (intro exI [of _ "max (en_at env) (wq_updatedAt queue)"] exI [of _ v] exI [of _ w]) simp
    qed (use store' \<open>fresh\<close> in simp)
  next
    case (Some found)
    then obtain e prior where f: "found = (e, prior)" "js_get (st_queues store) ?i = Some e"
      "receipt_of (qe_receipts e) (rq_mutationId request) = Some prior"
      by (auto simp: bind_eq_Some_conv)
    with go Some have "rc_intent prior = ?intent" "wp_receipt response = prior" "wp_facts response = None" "\<not> fresh"
      by (auto simp: work_run split: option.splits)
    then show thesis using replayed [OF f(2,3)] store' by simp
  qed
qed

section \<open>The store through requests\<close>

definition history_ok :: "js_text \<Rightarrow> work_queue \<Rightarrow> work_receipt list \<Rightarrow> bool" where
  "history_ok i queue rs \<longleftrightarrow>
     rs \<noteq> [] \<and> wq_revision queue = int (length rs) \<and> map rc_revision rs = map int [1..<length rs + 1] \<and>
     (\<forall>r \<in> set rs. rc_previousRevision r + 1 = rc_revision r \<and> rc_queueId r = i) \<and> distinct (map rc_mutationId rs)"

definition entry_ok :: "js_text \<Rightarrow> queue_entry \<Rightarrow> bool" where
  "entry_ok i e \<longleftrightarrow> wq_id (qe_queue e) = i \<and> work_ok (qe_tables e) \<and> forest_ok (qe_tables e) \<and>
     history_ok i (qe_queue e) (qe_receipts e)"

definition store_ok :: "work_store \<Rightarrow> bool" where
  "store_ok store \<longleftrightarrow> (\<forall>i e. js_get (st_queues store) i = Some e \<longrightarrow> entry_ok i e)"

inductive store_step :: "(write_request \<Rightarrow> js_text \<Rightarrow> js_text) \<Rightarrow> work_store \<Rightarrow> work_store \<Rightarrow> bool" for digest where
  store_step: "request_valid request \<Longrightarrow> perform digest store env request = Inr (response, store') \<Longrightarrow> store_step digest store store'"

definition empty_store :: "work_store \<Rightarrow> bool" where
  "empty_store store \<longleftrightarrow> st_queues store = []"

definition later :: "work_store \<Rightarrow> work_store \<Rightarrow> bool" where
  "later store store' \<longleftrightarrow> (\<forall>i e. js_get (st_queues store) i = Some e \<longrightarrow>
     (\<exists>e' more. js_get (st_queues store') i = Some e' \<and> advances (qe_tables e) (qe_tables e') \<and>
        qe_receipts e' = qe_receipts e @ more \<and> wq_scope (qe_queue e') = wq_scope (qe_queue e)))"

lemma later_refl: "later store store"
  by (auto simp: later_def advances_refl)

lemma later_trans:
  assumes "later a b" "later b c"
  shows "later a c"
  unfolding later_def
proof (intro allI impI)
  fix i e assume "js_get (st_queues a) i = Some e"
  with assms(1) obtain e' more where one: "js_get (st_queues b) i = Some e'" "advances (qe_tables e) (qe_tables e')"
    "qe_receipts e' = qe_receipts e @ more" "wq_scope (qe_queue e') = wq_scope (qe_queue e)" unfolding later_def by blast
  with assms(2) obtain e'' more' where two: "js_get (st_queues c) i = Some e''" "advances (qe_tables e') (qe_tables e'')"
    "qe_receipts e'' = qe_receipts e' @ more'" "wq_scope (qe_queue e'') = wq_scope (qe_queue e')" unfolding later_def by blast
  show "\<exists>e'' more. js_get (st_queues c) i = Some e'' \<and> advances (qe_tables e) (qe_tables e'') \<and>
      qe_receipts e'' = qe_receipts e @ more \<and> wq_scope (qe_queue e'') = wq_scope (qe_queue e)"
    using one two advances_trans by (intro exI [of _ e''] exI [of _ "more @ more'"]) auto
qed

lemma no_tables_ok: "work_ok no_tables" "forest_ok no_tables"
proof -
  have rows: "item_row no_tables i = None" "group_row no_tables i = None" "placement_row no_tables i = None" for i
    by (simp_all add: no_tables_def item_row_def group_row_def placement_row_def)
  then show "work_ok no_tables"
    by (simp add: work_ok_def rows_ok_def edges_ok_def grounded_def) (simp add: no_tables_def acyclic_def)
  have "parent_of no_tables i = None" for i by (simp add: parent_of_def rows)
  then show "forest_ok no_tables"
    by (simp add: forest_ok_def rows_apart_def sheltered_def leveled_def live_group_def rows) (simp add: no_tables_def)
qed

lemma new_receipt_fields [simp]:
  "rc_revision (new_receipt env request queue intent x) = wq_revision queue + 1"
  "rc_previousRevision (new_receipt env request queue intent x) = wq_revision queue"
  "rc_queueId (new_receipt env request queue intent x) = wq_id queue"
  "rc_mutationId (new_receipt env request queue intent x) = rq_mutationId request"
  "rc_intent (new_receipt env request queue intent x) = intent"
  by (simp_all add: new_receipt_def Let_def)

lemma receipt_of_None: "receipt_of rs m = None \<longleftrightarrow> m \<notin> set (map rc_mutationId rs)"
  by (auto simp: receipt_of_def find_None_iff)

lemma history_grows:
  assumes "rs = [] \<and> wq_revision queue = 0 \<or> history_ok i queue rs" "wq_revision queue' = wq_revision queue + 1"
    and "rc_revision r = wq_revision queue + 1" "rc_previousRevision r = wq_revision queue" "rc_queueId r = i"
    and "receipt_of rs (rc_mutationId r) = None"
  shows "history_ok i queue' (rs @ [r])"
  using assms unfolding receipt_of_None by (elim disjE) (auto simp: history_ok_def)

text \<open>A valid request that returns keeps the store well formed and loses nothing.\<close>

lemma perform_keeps:
  assumes run: "perform digest store env request = Inr (response, store')" and valid: "request_valid request" and ok: "store_ok store"
  shows "store_ok store' \<and> later store store'"
  using run
proof (cases rule: perform_run)
  case (replayed e prior)
  then show ?thesis using ok later_refl by simp
next
  case (written queue s)
  let ?i = "rq_queueId request" and ?e' = "\<lparr>qe_queue = wp_queue response, qe_tables = ws_tables s,
     qe_receipts = stored_receipts store (rq_queueId request) @ [wp_receipt response]\<rparr>"
  obtain at v w x where b: "apply_operations (env\<lparr>en_at := at\<rparr>) queue request (batch_of request) v = Inr ((), w)"
    "ws_tables v = stored_tables store ?i" "ws_tables s = ws_tables w"
    "wp_queue response = queue\<lparr>wq_revision := wq_revision queue + 1, wq_updatedAt := at\<rparr>"
    "wp_receipt response = new_receipt (env\<lparr>en_at := at\<rparr>) request queue (digest request (wa_actor (en_authority env))) x"
    using written(5) by blast
  have ops: "list_all (operation_valid (rq_version request)) (batch_of request)"
    using valid by (auto simp: request_valid_def action_valid_def batch_of_def split: write_action.splits)
  have old: "work_ok (ws_tables v) \<and> forest_ok (ws_tables v) \<and> wq_id queue = ?i \<and>
      (stored_receipts store ?i = [] \<and> wq_revision queue = 0 \<or> history_ok ?i queue (stored_receipts store ?i))"
    using written(2) ok no_tables_ok unfolding b(2)
    by (auto simp: worked_on_def store_ok_def entry_ok_def stored_tables_def stored_receipts_def split: option.splits)
  have keeps: "hierarchy_keeps (ws_tables v) (ws_tables w)" using apply_operations_keeps [OF b(1) ops] old by blast
  have "history_ok ?i (wp_queue response) (qe_receipts ?e')"
    using history_grows [OF conjunct2 [OF conjunct2 [OF conjunct2 [OF old]]], of "wp_queue response" "wp_receipt response"]
      written(1) old b(4,5) by simp
  then have entry: "entry_ok ?i ?e'" using keeps old b(3,4) by (simp add: entry_ok_def hierarchy_keeps_def)
  have "later store store'"
    unfolding later_def
  proof (intro allI impI)
    fix j e assume e: "js_get (st_queues store) j = Some e"
    show "\<exists>e' more. js_get (st_queues store') j = Some e' \<and> advances (qe_tables e) (qe_tables e') \<and>
        qe_receipts e' = qe_receipts e @ more \<and> wq_scope (qe_queue e') = wq_scope (qe_queue e)"
    proof (cases "j = ?i")
      case True
      have "ws_tables v = qe_tables e" "stored_receipts store ?i = qe_receipts e" "queue = qe_queue e"
        using e True written(2) b(2) by (simp_all add: stored_tables_def stored_receipts_def worked_on_def)
      then show ?thesis using True written(6) keeps b(3,4)
        by (intro exI [of _ ?e'] exI [of _ "[wp_receipt response]"]) (simp add: hierarchy_keeps_def)
    next
      case False
      then show ?thesis using e written(6) advances_refl by simp
    qed
  qed
  moreover have "store_ok store'"
    using ok entry written(6) by (auto simp: store_ok_def)
  ultimately show ?thesis by blast
qed

lemma store_step_keeps: "store_step digest s t \<Longrightarrow> store_ok s \<Longrightarrow> store_ok t \<and> later s t"
  by (induction rule: store_step.induct) (rule perform_keeps)

interpretation work_stores: safety_machine empty_store "store_step digest" store_ok
proof
  show "store_ok store" if "empty_store store" for store using that by (simp add: empty_store_def store_ok_def)
  show "store_ok t" if "store_ok s" "store_step digest s t" for s t
    using store_step_keeps that by blast
qed

lemma path_later:
  assumes "(store_step digest)\<^sup>*\<^sup>* store store'" "store_ok store"
  shows "store_ok store' \<and> later store store'"
  using assms
proof (induction rule: rtranclp_induct)
  case base
  then show ?case using later_refl by blast
next
  case (step s t)
  then have "store_ok s" "later store s" by blast+
  then show ?case using store_step_keeps [OF step.hyps(2)] later_trans by blast
qed

end
