(* ===== verification/Work_Example.thy ===== *)
theory Work_Example
  imports Work_Promises
begin

text \<open>
  One run of a work queue, evaluated in the kernel: a queue is created; in one batch a task is added, submitted
  with evidence and accepted, a second task is added, linked to the first and claimed, a group is created and the
  second task is placed under it. The properties of the work queues are witnessed on it.
\<close>

section \<open>A run of a queue\<close>

text \<open>Texts without escapes are as long as they look, and no text takes more than three bytes a unit.\<close>

definition plain_unit :: "code_unit \<Rightarrow> bool" where
  "plain_unit u \<longleftrightarrow> 32 \<le> u \<and> u < 127 \<and> u \<noteq> 34 \<and> u \<noteq> 92"

lemma plain_not_surrogate:
  assumes "plain_unit u"
  shows "\<not> is_high u" "\<not> is_low u"
proof -
  have "u < 0xD800" using order.strict_trans [of u 127 "0xD800"] assms by (simp add: plain_unit_def)
  moreover have "u < 0xDC00" using order.strict_trans [of u 127 "0xDC00"] assms by (simp add: plain_unit_def)
  ultimately show "\<not> is_high u" "\<not> is_low u" by (simp_all add: is_high_def is_low_def not_le)
qed

lemma plain_points: "list_all plain_unit s \<Longrightarrow> points s = map (\<lambda>u. [u]) s"
  by (induction s rule: points.induct) (simp_all add: plain_not_surrogate)

lemma escape_plain: "plain_unit u \<Longrightarrow> escape_point [u] = [u]"
proof -
  assume u: "plain_unit u"
  then have "\<not> u < 32" "u \<noteq> 34" "u \<noteq> 92" by (simp_all add: plain_unit_def not_less)
  moreover have "u \<noteq> 8" "u \<noteq> 12" "u \<noteq> 10" "u \<noteq> 13" "u \<noteq> 9" using u by (auto simp: plain_unit_def)
  ultimately show ?thesis using plain_not_surrogate [OF u] by simp
qed

lemma quote_plain: "list_all plain_unit s \<Longrightarrow> quote_text s = 34 # s @ [34]"
proof -
  have "list_all plain_unit t \<Longrightarrow> concat (map escape_point (map (\<lambda>u. [u]) t)) = t" for t
    by (induction t) (simp_all add: escape_plain del: escape_point.simps)
  then show "list_all plain_unit s \<Longrightarrow> quote_text s = 34 # s @ [34]" by (simp only: quote_text_def plain_points)
qed

lemma utf8_small: "3 * length s \<le> n \<Longrightarrow> byteLength s \<le> n"
proof -
  have bytes: "point_bytes p \<le> 3 * length p" if "p \<in> set (points s)" for p
    using that by (induction s rule: points.induct) (auto split: if_splits)
  have "sum_list (map point_bytes ps) \<le> 3 * length (concat ps)" if "\<And>p. p \<in> set ps \<Longrightarrow> point_bytes p \<le> 3 * length p" for ps
    using that by (induction ps) (simp_all, fastforce)
  from this [of "points s", OF bytes] show "3 * length s \<le> n \<Longrightarrow> byteLength s \<le> n" by (simp add: byteLength_def)
qed



definition tour_authority :: work_authority where
  "tour_authority = \<lparr>wa_actor = ascii ''a'', wa_sessionId = ascii ''s'', wa_workspaceId = ascii ''w'', wa_persistentSession = True,
     wa_authorize = (\<lambda>_ _ _. True), wa_registeredAgent = (\<lambda>_. True), wa_sourceAvailable = (\<lambda>_ _. True),
     wa_admitHolder = (\<lambda>_. True), wa_observeExecution = (\<lambda>_. None), wa_validateCompletion = (\<lambda>_ _ _ _ _. True)\<rparr>"

definition tour_env :: work_env where
  "tour_env = \<lparr>en_authority = tour_authority, en_aborted = (\<lambda>_. False), en_expired = (\<lambda>_. False), en_stepLimit = 40, en_at = 5\<rparr>"

definition tour_scope :: work_scope where
  "tour_scope = \<lparr>wsc_kind = Scope_Session, wsc_generation = ascii ''g'', wsc_configurationGeneration = 1, wsc_workspaceId = ascii ''w'',
     wsc_sessionId = Some (ascii ''s''), wsc_owner = ascii ''a'', wsc_members = [], wsc_locator = ascii ''l''\<rparr>"

definition tour_request :: "js_text \<Rightarrow> write_action \<Rightarrow> write_request" where
  "tour_request m act = \<lparr>rq_version = 2, rq_mutationId = m, rq_source = ascii ''o'', rq_sourceGeneration = ascii ''1'',
     rq_reason = ascii ''r'', rq_queueId = ascii ''q'', rq_action = act\<rparr>"

definition tour_create :: write_request where
  "tour_create = tour_request (ascii ''m1'') (Create_Queue (ascii ''o'') tour_scope)"

definition tour_fields :: work_fields where
  "tour_fields = \<lparr>wf_subject = ascii ''s'', wf_description = [], wf_objective = ascii ''o'', wf_activeForm = None, wf_agentType = None,
     wf_metadata = [], wf_criteria = [ascii ''c'']\<rparr>"

definition tour_evidence :: "work_evidence list" where
  "tour_evidence = [\<lparr>we_handle = ascii ''h'', we_generation = ascii ''1'', we_source = ascii ''o''\<rparr>]"

definition tour_holder :: work_holder where
  "tour_holder = \<lparr>wh_taskId = ascii ''k'', wh_generation = ascii ''1'', wh_actor = ascii ''a''\<rparr>"

definition tour_ops :: "queue_operation list" where
  "tour_ops =
     [On_Task (Op_Add (ascii ''d'') tour_fields), On_Task (Op_Submit (ascii ''d'') 0 1 tour_evidence),
      On_Task (Op_Validate (ascii ''d'') 2 0 1 tour_evidence (ascii ''v'') Verdict_Accept (ascii ''r'')),
      On_Task (Op_Add (ascii ''t'') tour_fields), On_Task (Op_Link (ascii ''t'') (ascii ''d'')),
      On_Task (Op_Claim (ascii ''t'') tour_holder),
      On_Hierarchy (Op_Group (ascii ''u'') (ascii ''s'') None At_End), On_Hierarchy (Op_Place (ascii ''t'') (Some (ascii ''u'')) At_End)]"

definition tour_work :: write_request where
  "tour_work = tour_request (ascii ''m2'') (Mutate_Queue (ascii ''g'') 1 tour_ops)"

definition tour_store :: work_store where
  "tour_store = \<lparr>st_locator = ascii ''l'', st_durable = False, st_queues = [], st_bindings = []\<rparr>"

definition tour_digest :: "write_request \<Rightarrow> js_text \<Rightarrow> js_text" where
  "tour_digest r actor = rq_mutationId r @ actor"

definition after_request :: "work_store \<Rightarrow> write_request \<Rightarrow> work_store" where
  "after_request store request = (case perform tour_digest store tour_env request of Inl _ \<Rightarrow> store | Inr (_, store') \<Rightarrow> store')"

lemmas monad_defs = andThen_def give_def stop_def require_def reading_def writing_def noting_def reading_state_def check_def step_def

lemmas tour_defs = tour_store_def tour_env_def tour_create_def tour_scope_def tour_authority_def tour_request_def tour_work_def
  tour_fields_def tour_evidence_def tour_holder_def tour_digest_def ascii_def

lemmas perform_defs = perform_def performing_def target_queue_def run_action_def commit_queue_def authorize_def outside_scope_def
  mark_affected_def hierarchical_def new_receipt_def new_queue_def begin_work_def stored_tables_def stored_receipts_def bound_def
  no_tables_def receipt_of_def

lemmas valid_defs = queue_valid_def work_scope_valid_def reference_valid_def reference_first_def reference_unit_def revision_valid_def
  text_valid_def inline_bytes_def MAX_SAFE_INTEGER_def item_valid_def fields_valid_def metadata_valid_def record_bytes_def
  batch_limit_def group_valid_def evidence_valid_def claim_valid_def holder_valid_def acceptance_valid_def

lemmas size_defs = utf8_small quote_plain plain_unit_def decimal.simps item_text_def inline_text_def object_text_def array_text_def
  nullable_text_def bool_text_def metadata_text_def int_text_def group_text_def holder_text_def claim_text_def evidence_text_def
  acceptance_text_def


definition tour_queue :: work_queue where
  "tour_queue = (new_queue tour_env tour_create (ascii ''o'') tour_scope)\<lparr>wq_revision := 1\<rparr>"

definition tour_added :: "work_id \<Rightarrow> work_item" where
  "tour_added i = new_item tour_queue 5 i tour_fields"

definition tour_submitted :: work_item where
  "tour_submitted = (tour_added (ascii ''d''))\<lparr>wi_disposition := W_Completion_Claimed, wi_evidence := tour_evidence\<rparr>"

definition tour_accepted :: work_item where
  "tour_accepted = tour_submitted\<lparr>wi_disposition := W_Completed,
     wi_acceptance := Some \<lparr>ac_actor = ascii ''a'', ac_authority = ascii ''v'', ac_reason = ascii ''r'', ac_criteriaRevision = 1\<rparr>\<rparr>"

definition tour_claimed :: work_item where
  "tour_claimed = (tour_added (ascii ''t''))\<lparr>wi_disposition := W_Active, wi_claimGeneration := 1,
     wi_claim := Some \<lparr>wc_generation = 1, wc_holder = tour_holder, wc_releasePending = False\<rparr>\<rparr>"

definition tour_group :: work_group where
  "tour_group = new_group tour_env tour_queue (ascii ''o'') (ascii ''1'') (ascii ''u'') (ascii ''s'')"

lemmas tour_items = tour_submitted_def tour_accepted_def tour_claimed_def tour_group_def tour_added_def new_item_def new_group_def
  tour_queue_def new_queue_def

section \<open>The batch, one operation at a time\<close>

definition tour_state :: "work_tables \<Rightarrow> nat \<Rightarrow> nat \<Rightarrow> work_id list \<Rightarrow> work_id list \<Rightarrow> bool \<Rightarrow> work_state" where
  "tour_state t checks steps changed grps placed = \<lparr>ws_tables = t, ws_checks = checks, ws_steps = steps, ws_changed = changed,
     ws_before = map (\<lambda>i. (i, None)) changed, ws_groups = grps, ws_affected = grps, ws_placed = placed\<rparr>"

definition tour_rows :: "(work_id \<times> work_item) list \<Rightarrow> (work_id \<times> work_id) list \<Rightarrow> work_tables" where
  "tour_rows items links = \<lparr>wt_items = items, wt_groups = [], wt_edges = links, wt_placements = []\<rparr>"

definition tour_linked :: work_tables where
  "tour_linked = tour_rows [(ascii ''d'', tour_accepted), (ascii ''t'', tour_claimed)] [(ascii ''t'', ascii ''d'')]"

definition tour_grouped :: work_tables where
  "tour_grouped = tour_linked\<lparr>wt_groups := [(ascii ''u'', tour_group)],
     wt_placements := [(ascii ''u'', \<lparr>pl_parent = None, pl_order = [121]\<rparr>)]\<rparr>"

definition tour_tables :: work_tables where
  "tour_tables = tour_grouped\<lparr>wt_placements :=
     [(ascii ''u'', \<lparr>pl_parent = None, pl_order = [121]\<rparr>), (ascii ''t'', \<lparr>pl_parent = Some (ascii ''u''), pl_order = [79]\<rparr>)]\<rparr>"

text \<open>A round of a loop on a concrete amount of fuel, once it is known on which state.\<close>

lemmas loop_rounds =
  edge_loop.simps(2) [of _ _ _ _ "pred_numeral k" for k, THEN fun_cong, folded numeral_eq_Suc]
  link_loop.simps(2) [of _ _ _ "pred_numeral k" for k, THEN fun_cong, folded numeral_eq_Suc]
  child_loop.simps(2) [of _ _ _ "pred_numeral k" for k, THEN fun_cong, folded numeral_eq_Suc]
  ancestor_loop.simps(3) [of _ "pred_numeral k" for k, THEN fun_cong, folded numeral_eq_Suc]
  height_loop.simps(2) [of _ "pred_numeral k" for k, THEN fun_cong, folded numeral_eq_Suc]
  climb_loop.simps(3) [of _ "pred_numeral k" for k, THEN fun_cong, folded numeral_eq_Suc]

lemmas task_defs = apply_operation_def applyWorkMutation_def add_item_def save_def item_row_def
  group_row_def note_changed_def within_batch_def putItem_def live_def live_item_def requireReady_def requireIdle_def idle_def mutable_def
  unchangeable_def finish_item_def submit_item_def validate_item_def set_link_def claim_item_def completedWork_def each_edge_def start_cursor_def
  next_edge_def yield_edge_def edge_page_def edge_targets_def page_limit_def link_cycle_def enter_link_def next_link_def setEdge_def
  other_execution_def

lemmas state_defs = tour_state_def tour_rows_def batch_limit_def

lemmas hierarchy_defs = applyHierarchyMutation_def add_group_def saveGroup_def note_group_def note_affected_def putGroup_def
  placeNode_def subtreeHeight_def liveChildren_def childrenOf_def child_start_def next_child_def yield_child_def children_forward_def
  children_backward_def child_rows_def positionKey_def key_for_def orderKeyBetween_def place_def setPlacement_def placement_row_def
  liveGroup_def ancestorsOf_def placementOf_def affect_def move_node_def workNode_def depth_limit_def
  between.simps unit_at_def key_char_def KEY_BELOW_def KEY_ABOVE_def KEY_MIN_def KEY_MAX_def

lemmas run_defs = task_defs state_defs monad_defs tour_items tour_defs valid_defs size_defs validateWorkItem_def no_tables_def Let_def

lemma tour_add_first: "apply_operation tour_env tour_queue tour_work (On_Task (Op_Add (ascii ''d'') tour_fields))
    (tour_state no_tables 1 0 [] [] False) =
  Inr ((), tour_state (tour_rows [(ascii ''d'', tour_added (ascii ''d''))] []) 3 1 [ascii ''d''] [] False)"
  by (simp add: run_defs)

lemma tour_submit: "apply_operation tour_env tour_queue tour_work (On_Task (Op_Submit (ascii ''d'') 0 1 tour_evidence))
    (tour_state (tour_rows [(ascii ''d'', tour_added (ascii ''d''))] []) 3 1 [ascii ''d''] [] False) =
  Inr ((), tour_state (tour_rows [(ascii ''d'', tour_submitted)] []) 6 3 [ascii ''d''] [] False)"
  by (simp add: run_defs loop_rounds)

lemma tour_validate: "apply_operation tour_env tour_queue tour_work
      (On_Task (Op_Validate (ascii ''d'') 2 0 1 tour_evidence (ascii ''v'') Verdict_Accept (ascii ''r'')))
    (tour_state (tour_rows [(ascii ''d'', tour_submitted)] []) 6 3 [ascii ''d''] [] False) =
  Inr ((), tour_state (tour_rows [(ascii ''d'', tour_accepted)] []) 9 5 [ascii ''d''] [] False)"
  by (simp add: run_defs loop_rounds)

lemma tour_add_second: "apply_operation tour_env tour_queue tour_work (On_Task (Op_Add (ascii ''t'') tour_fields))
    (tour_state (tour_rows [(ascii ''d'', tour_accepted)] []) 9 5 [ascii ''d''] [] False) =
  Inr ((), tour_state (tour_rows [(ascii ''d'', tour_accepted), (ascii ''t'', tour_added (ascii ''t''))] []) 11 6 [ascii ''d'', ascii ''t''] [] False)"
  by (simp add: run_defs)

lemma tour_link: "apply_operation tour_env tour_queue tour_work (On_Task (Op_Link (ascii ''t'') (ascii ''d'')))
    (tour_state (tour_rows [(ascii ''d'', tour_accepted), (ascii ''t'', tour_added (ascii ''t''))] []) 11 6 [ascii ''d'', ascii ''t''] [] False) =
  Inr ((), tour_state (tour_rows [(ascii ''d'', tour_accepted), (ascii ''t'', tour_added (ascii ''t''))] [(ascii ''t'', ascii ''d'')])
    15 9 [ascii ''d'', ascii ''t''] [] False)"
  by (simp add: run_defs loop_rounds)

lemma tour_claim: "apply_operation tour_env tour_queue tour_work (On_Task (Op_Claim (ascii ''t'') tour_holder))
    (tour_state (tour_rows [(ascii ''d'', tour_accepted), (ascii ''t'', tour_added (ascii ''t''))] [(ascii ''t'', ascii ''d'')])
      15 9 [ascii ''d'', ascii ''t''] [] False) =
  Inr ((), tour_state tour_linked 19 12 [ascii ''d'', ascii ''t''] [] False)"
  by (simp add: task_defs state_defs monad_defs tour_items tour_defs Let_def loop_rounds tour_linked_def)
    (simp add: run_defs)

lemma tour_new_group: "apply_operation tour_env tour_queue tour_work (On_Hierarchy (Op_Group (ascii ''u'') (ascii ''s'') None At_End))
    (tour_state tour_linked 19 12 [ascii ''d'', ascii ''t''] [] False) =
  Inr ((), tour_state tour_grouped 24 16 [ascii ''d'', ascii ''t''] [ascii ''u''] True)"
  by (simp add: run_defs loop_rounds tour_linked_def tour_grouped_def hierarchy_defs)

lemma tour_place: "apply_operation tour_env tour_queue tour_work (On_Hierarchy (Op_Place (ascii ''t'') (Some (ascii ''u'')) At_End))
    (tour_state tour_grouped 24 16 [ascii ''d'', ascii ''t''] [ascii ''u''] True) =
  Inr ((), tour_state tour_tables 28 20 [ascii ''d'', ascii ''t''] [ascii ''u''] True)"
  by (simp add: run_defs loop_rounds tour_linked_def tour_grouped_def tour_tables_def hierarchy_defs)

lemma tour_batch: "apply_operations tour_env tour_queue tour_work tour_ops (tour_state no_tables 1 0 [] [] False) =
  Inr ((), tour_state tour_tables 28 20 [ascii ''d'', ascii ''t''] [ascii ''u''] True)"
  by (simp add: tour_ops_def andThen_def give_def tour_add_first tour_submit tour_validate tour_add_second tour_link tour_claim
      tour_new_group tour_place del: One_nat_def)

section \<open>The requests\<close>

definition tour_receipt :: work_receipt where
  "tour_receipt = new_receipt tour_env tour_create (new_queue tour_env tour_create (ascii ''o'') tour_scope)
     (tour_digest tour_create (ascii ''a'')) (begin_work no_tables)"

definition tour_opened :: work_store where
  "tour_opened = tour_store\<lparr>st_queues := [(ascii ''q'', \<lparr>qe_queue = tour_queue, qe_tables = no_tables, qe_receipts = [tour_receipt]\<rparr>)],
     st_bindings := [((ascii ''s'', ascii ''w''), ascii ''q'')]\<rparr>"

lemma tour_created: "perform tour_digest tour_store tour_env tour_create =
  Inr (\<lparr>wp_queue = tour_queue, wp_receipt = tour_receipt, wp_facts = Some []\<rparr>, tour_opened)"
  by (simp add: perform_defs tour_opened_def tour_receipt_def tour_queue_def tour_defs monad_defs valid_defs size_defs Let_def)

lemma tour_valid: "request_valid tour_create" "request_valid tour_work"
proof -
  show "request_valid tour_create" by (simp add: request_valid_def action_valid_def tour_defs valid_defs)
  have "list_all (operation_valid 2) tour_ops"
    by (simp add: tour_ops_def operation_valid_def position_valid.simps tour_defs valid_defs evidence_list_valid_def reason_valid_def)
  then show "request_valid tour_work"
    by (simp add: request_valid_def action_valid_def tour_work_def tour_request_def valid_defs ascii_def)
      (simp add: tour_ops_def)
qed

lemma tour_authorized: "authorize tour_opened tour_env tour_queue Mutate_Access s = Inr ((), s)"
  by (simp add: authorize_def outside_scope_def tour_opened_def tour_queue_def new_queue_def tour_defs Let_def)

lemma tour_facts:
  "wq_revision tour_queue = 1" "wq_updatedAt tour_queue = 5" "wq_id tour_queue = ascii ''q''"
  "wsc_generation (wq_scope tour_queue) = ascii ''g''" "en_at tour_env = 5" "tour_env\<lparr>en_at := 5\<rparr> = tour_env"
  "rq_action tour_work = Mutate_Queue (ascii ''g'') 1 tour_ops" "rq_queueId tour_work = ascii ''q''"
  "rq_mutationId tour_work = ascii ''m2''" "rc_mutationId tour_receipt = ascii ''m1''"
  by (simp_all add: tour_queue_def new_queue_def tour_env_def tour_scope_def tour_work_def tour_request_def tour_receipt_def tour_create_def)

lemma tour_committed: "\<exists>response s. commit_queue tour_opened tour_env tour_work tour_queue intent
    (tour_state tour_tables 28 20 [ascii ''d'', ascii ''t''] [ascii ''u''] True) = Inr (response, s) \<and> ws_tables s = tour_tables"
proof -
  let ?s = "tour_state tour_tables 28 20 [ascii ''d'', ascii ''t''] [ascii ''u''] True"
  have check: "check tour_env s = Inr ((), s\<lparr>ws_checks := ws_checks s + 1\<rparr>)" for s
    by (simp add: check_def tour_env_def)
  have "\<exists>s. mark_affected tour_env (?s\<lparr>ws_checks := 29\<rparr>) = Inr ((), s)"
    by (simp add: mark_affected_def hierarchical_def monad_defs tour_state_def tour_tables_def tour_grouped_def tour_linked_def
        tour_rows_def parent_row_def placement_row_def loop_rounds tour_env_def ascii_def)
  then obtain s where marked: "mark_affected tour_env (?s\<lparr>ws_checks := 29\<rparr>) = Inr ((), s)" by blast
  have valid: "queue_valid (tour_queue\<lparr>wq_revision := wq_revision tour_queue + 1, wq_updatedAt := en_at tour_env\<rparr>)"
    by (simp add: tour_queue_def new_queue_def tour_defs valid_defs)
  have "check tour_env ?s = Inr ((), ?s\<lparr>ws_checks := 29\<rparr>)" by (simp add: check tour_state_def)
  then have "\<exists>response s. commit_queue tour_opened tour_env tour_work tour_queue intent ?s = Inr (response, s)"
    using marked valid by (simp add: commit_queue_def andThen_def tour_authorized Let_def require_def give_def reading_state_def check)
  then show ?thesis using commit_queue_run(1) by (fastforce simp: tour_state_def)
qed

text \<open>The second request returns and leaves the tables of the batch.\<close>

definition tour_final :: work_store where
  "tour_final = after_request tour_opened tour_work"

lemma tour_worked:
  obtains response e where "perform tour_digest tour_opened tour_env tour_work = Inr (response, tour_final)"
    "js_get (st_queues tour_final) (ascii ''q'') = Some e" "qe_tables e = tour_tables"
proof -
  let ?intent = "tour_digest tour_work (wa_actor (en_authority tour_env))"
  obtain response s where commit: "commit_queue tour_opened tour_env tour_work tour_queue ?intent
      (tour_state tour_tables 28 20 [ascii ''d'', ascii ''t''] [ascii ''u''] True) = Inr (response, s)" "ws_tables s = tour_tables"
    using tour_committed by blast
  have opened: "check tour_env (begin_work (stored_tables tour_opened (ascii ''q''))) = Inr ((), tour_state no_tables 1 0 [] [] False)"
    by (simp add: check_def tour_env_def begin_work_def stored_tables_def tour_opened_def tour_state_def)
  have act: "run_action tour_opened tour_env tour_work tour_queue ?intent (tour_state no_tables 1 0 [] [] False) = Inr (response, s)"
    by (simp add: run_action_def tour_facts tour_batch commit(1) andThen_def require_def give_def MAX_SAFE_INTEGER_def del: One_nat_def)
  have prior: "js_get (st_queues tour_opened) (ascii ''q'') = Some \<lparr>qe_queue = tour_queue, qe_tables = no_tables, qe_receipts = [tour_receipt]\<rparr>"
    "receipt_of [tour_receipt] (ascii ''m2'') = None"
    by (simp_all add: tour_opened_def receipt_of_def tour_facts) (simp add: ascii_def)
  have source: "wa_sourceAvailable (en_authority tour_env) a b" for a b by (simp add: tour_env_def tour_authority_def)
  have "performing tour_digest tour_opened tour_env tour_work (begin_work (stored_tables tour_opened (ascii ''q''))) = Inr ((response, True), s)"
    by (simp add: performing_def target_queue_def tour_facts andThen_def opened tour_authorized require_def give_def prior source act
        Let_def del: One_nat_def)
  then have run: "perform tour_digest tour_opened tour_env tour_work = Inr (response, tour_final)"
    and "\<exists>e. js_get (st_queues tour_final) (ascii ''q'') = Some e \<and> qe_tables e = ws_tables s"
    by (simp_all add: tour_final_def after_request_def perform_def tour_facts Let_def)
  then show thesis using that commit(2) by auto
qed

lemma tour_reachable:
  "reachable empty_store (store_step tour_digest) tour_store" "reachable empty_store (store_step tour_digest) tour_opened"
  "reachable empty_store (store_step tour_digest) tour_final"
proof -
  show one: "reachable empty_store (store_step tour_digest) tour_store"
    by (rule reach_start) (simp add: empty_store_def tour_store_def)
  show two: "reachable empty_store (store_step tour_digest) tour_opened"
    by (rule reach_step [OF one store_step [OF tour_valid(1) tour_created]])
  show "reachable empty_store (store_step tour_digest) tour_final"
    by (rule tour_worked) (rule reach_step [OF two store_step [OF tour_valid(2)]])
qed

end
