(* ===== verification/Work_Guarantees.thy ===== *)
theory Work_Guarantees
  imports Work_Example
begin

text \<open>
  The promises of the work queues as properties of the requests a store goes through, with one run of a
  queue as their witness: work that was submitted and accepted, work that depends on it and is claimed,
  and a group the second is placed under.
\<close>

section \<open>Fuel\<close>

lemma frugal_reading_state [frugal_intros]: "frugal env n (reading_state f)"
  by (simp add: frugal_def reading_state_def)

lemma frugal_authorize [frugal_intros]: "frugal env n (authorize store env' queue access)"
  by (simp add: frugal_def authorize_def Let_def)

lemma frugal_apply_operations [frugal_intros]: "frugal env n (apply_operations env queue request ops)"
proof (induction ops)
  case (Cons op ops)
  have "frugal env n (apply_operation env queue request op)"
    by (cases op) (simp_all add: apply_operation_def frugal_applyWorkMutation frugal_applyHierarchyMutation)
  then show ?case using Cons by (simp add: frugal_andThen)
qed (simp add: frugal_give)

text \<open>What comes after a step starts one step later.\<close>

lemma frugal_after_step:
  assumes rest: "frugal env (Suc n) m"
  shows "frugal env n (andThen (step env) (\<lambda>_. m))"
  unfolding frugal_def
proof (intro allI impI)
  fix s :: work_state assume s: "n \<le> ws_steps s" "ws_steps s \<le> en_stepLimit env"
  show "andThen (step env) (\<lambda>_. m) s \<noteq> Inl Out_Of_Fuel \<and>
    (\<forall>x t. andThen (step env) (\<lambda>_. m) s = Inr (x, t) \<longrightarrow> ws_steps s \<le> ws_steps t \<and> ws_steps t \<le> en_stepLimit env)"
  proof (cases "step env s")
    case (Inl e)
    then show ?thesis using frugalD(1) [OF frugal_step s] by (auto simp: andThen_def)
  next
    case (Inr r)
    obtain v where r: "r = ((), v)" by (cases r) auto
    have v: "Suc n \<le> ws_steps v" "ws_steps v \<le> en_stepLimit env" "ws_steps s \<le> ws_steps v"
      using step_counts [of env s "()" v] Inr r s(1) by auto
    have eq: "andThen (step env) (\<lambda>_. m) s = m v" using Inr r by (simp add: andThen_def)
    have "ws_steps v \<le> ws_steps t \<and> ws_steps t \<le> en_stepLimit env" if "m v = Inr (x, t)" for x t
      using frugalD(2) [OF rest v(1,2) that] .
    then show ?thesis unfolding eq using frugalD(1) [OF rest v(1,2)] v(3) by fastforce
  qed
qed

lemma frugal_climb_loop: "en_stepLimit env + 1 \<le> n + fuel \<Longrightarrow> frugal env n (climb_loop env fuel parent)"
proof (induction fuel arbitrary: n parent)
  case 0
  then show ?case by (simp add: frugal_def)
next
  case (Suc fuel)
  show ?case
  proof (cases parent)
    case (Some p)
    have "frugal env (Suc n) (climb_loop env fuel up)" for up using Suc.IH [of "Suc n"] Suc.prems by simp
    then show ?thesis unfolding Some climb_loop.simps by (intro frugal_after_step frugal_intros)
  qed (simp add: frugal_give)
qed

lemma frugal_climb_all [frugal_intros]: "frugal env n (climb_all env ids)"
proof (induction ids)
  case (Cons i ids)
  then show ?case unfolding climb_all.simps by (intro frugal_intros frugal_climb_loop) simp_all
qed (simp add: frugal_give)

lemma frugal_commit_queue [frugal_intros]: "frugal env n (commit_queue store env request queue intent)"
  unfolding commit_queue_def mark_affected_def by (intro frugal_intros)

text \<open>The limit on steps is all that counts of the environment.\<close>

lemma frugal_limit: "en_stepLimit env' = en_stepLimit env \<Longrightarrow> frugal env' n m \<Longrightarrow> frugal env n m"
  by (simp add: frugal_def)

lemma frugal_target_queue [frugal_intros]: "frugal env n (target_queue store env request)"
  unfolding target_queue_def Let_def
  by (cases "rq_action request"; simp only: write_action.case; intro frugal_intros)

lemma frugal_run_action [frugal_intros]: "frugal env n (run_action store env request queue intent)"
proof (rule frugal_limit [of "env\<lparr>en_at := max (en_at env) (wq_updatedAt queue)\<rparr>"])
  show "frugal (env\<lparr>en_at := max (en_at env) (wq_updatedAt queue)\<rparr>) n (run_action store env request queue intent)"
    unfolding run_action_def Let_def
    by (cases "rq_action request"; simp only: write_action.case; intro frugal_intros)
qed simp

lemma frugal_queueAt [frugal_intros]: "frugal env n (queueAt e revision)"
  unfolding queueAt_def by (intro frugal_intros)

text \<open>C31. No request ever runs out of the fuel its loops carry: every loop ends by itself or by the budget.\<close>

theorem requests_never_run_out_of_fuel: "perform digest store env request \<noteq> Inl Out_Of_Fuel"
proof -
  have "frugal env 0 (performing digest store env request)"
    unfolding performing_def Let_def by (intro frugal_intros)
  from frugalD(1) [OF this, of "begin_work (stored_tables store (rq_queueId request))"]
  have "performing digest store env request (begin_work (stored_tables store (rq_queueId request))) \<noteq> Inl Out_Of_Fuel"
    by (simp add: begin_work_def)
  then show ?thesis by (auto simp: perform_def Let_def split: sum.splits)
qed

section \<open>Dependencies\<close>

lemma reachable_entry:
  assumes "reachable empty_store (store_step digest) store" "js_get (st_queues store) q = Some e"
  shows "work_ok (qe_tables e)" "forest_ok (qe_tables e)" "history_ok q (qe_queue e) (qe_receipts e)" "wq_id (qe_queue e) = q"
  using work_stores.always [OF assms(1)] assms(2) by (simp_all add: store_ok_def entry_ok_def)


lemma tour_contents:
  "item_row tour_tables (ascii ''t'') = Some tour_claimed" "wi_claim tour_claimed \<noteq> None"
  "(ascii ''t'', ascii ''d'') \<in> set (wt_edges tour_tables)" "item_row tour_tables (ascii ''d'') = Some tour_accepted"
  "completedWork tour_accepted"
  by (simp_all add: tour_tables_def tour_grouped_def tour_linked_def tour_rows_def item_row_def ascii_def tour_claimed_def
      tour_accepted_def tour_submitted_def tour_added_def new_item_def completedWork_def)


section \<open>Claims and acceptance\<close>

text \<open>
  C17. What has been claimed or accepted stays so. Along every sequence of requests the generation of a task's
  claim never decreases, and one generation is never held by two holders, so a holder that lost its claim is
  told apart from the one that has it now; accepted work stays accepted with its evidence and its acceptance
  until it is deleted, and what is deleted stays deleted.
\<close>

theorem claims_and_acceptance_stay:
  assumes "reachable empty_store (store_step digest) store" and "(store_step digest)\<^sup>*\<^sup>* store store'"
    and "js_get (st_queues store) q = Some e" and "item_row (qe_tables e) i = Some it"
  shows "\<exists>e' it'. js_get (st_queues store') q = Some e' \<and> item_row (qe_tables e') i = Some it' \<and>
    wi_claimGeneration it \<le> wi_claimGeneration it' \<and>
    (\<forall>c'. wi_claim it' = Some c' \<longrightarrow> wi_claimGeneration it' = wi_claimGeneration it \<longrightarrow>
       (\<exists>c. wi_claim it = Some c \<and> wc_holder c = wc_holder c')) \<and>
    (completedWork it \<longrightarrow> \<not> wi_deleted it' \<longrightarrow> completedWork it' \<and> wi_evidence it' = wi_evidence it \<and>
       wi_acceptance it' = wi_acceptance it) \<and>
    (wi_deleted it \<longrightarrow> wi_deleted it')"
proof -
  have "later store store'" using path_later [OF assms(2) work_stores.always [OF assms(1)]] by blast
  then obtain e' where e': "js_get (st_queues store') q = Some e'" "advances (qe_tables e) (qe_tables e')"
    using assms(3) unfolding later_def by blast
  then obtain it' where "item_row (qe_tables e') i = Some it'" "item_advances it it'" using assms(4) by (auto simp: advances_def)
  then show ?thesis using e'(1) unfolding item_advances_def by blast
qed

theorem claims_and_acceptance_stay_witness:
  "\<exists>e' it'. js_get (st_queues tour_final) (ascii ''q'') = Some e' \<and> item_row (qe_tables e') (ascii ''d'') = Some it' \<and>
     (\<not> wi_deleted it' \<longrightarrow> completedWork it')"
proof (rule tour_worked)
  fix response e assume e: "js_get (st_queues tour_final) (ascii ''q'') = Some e" "qe_tables e = tour_tables"
  show ?thesis
    using claims_and_acceptance_stay [OF tour_reachable(3) rtranclp.rtrancl_refl e(1), of "ascii ''d''" tour_accepted] tour_contents
    unfolding e(2) by blast
qed

section \<open>The hierarchy\<close>

text \<open>
  C11. The hierarchy is a forest. In every store that requests can lead to, a task or group that has not been
  removed sits under groups that have not been removed, and following the parents upwards ends at the root
  after at most 33 nodes, 32 of them groups.
\<close>

theorem hierarchy_is_a_forest:
  assumes "reachable empty_store (store_step digest) store" and "js_get (st_queues store) q = Some e"
    and "live_node (qe_tables e) i"
  shows "(\<exists>k \<le> depth_limit + 1. level (qe_tables e) i k) \<and> (live_group (qe_tables e) i \<longrightarrow> (\<exists>k \<le> depth_limit. level (qe_tables e) i k)) \<and>
    (\<forall>p. parent_of (qe_tables e) i = Some p \<longrightarrow> live_group (qe_tables e) p \<and> live_node (qe_tables e) p)"
proof -
  note ok = reachable_entry(2) [OF assms(1,2)]
  have up: "live_group (qe_tables e) p" if "parent_of (qe_tables e) i = Some p" for p using forest_okD(7) [OF ok assms(3) that] .
  have "\<exists>k \<le> depth_limit + 1. level (qe_tables e) i k"
  proof (cases "parent_of (qe_tables e) i")
    case None
    from level_root [of "qe_tables e" i, OF this] show ?thesis by (intro exI [of _ "Suc 0"]) simp
  next
    case (Some p)
    with forest_okD(8) [OF ok up [OF Some]] obtain k where "k \<le> depth_limit" "level (qe_tables e) p k" by blast
    then show ?thesis using level_child [OF Some] by (intro exI [of _ "Suc k"]) simp
  qed
  then show ?thesis using up live_group_node [OF ok] forest_okD(8) [OF ok] by blast
qed

theorem hierarchy_is_a_forest_witness:
  "live_group tour_tables (ascii ''u'') \<and> parent_of tour_tables (ascii ''t'') = Some (ascii ''u'')"
proof (rule tour_worked)
  fix response e assume e: "js_get (st_queues tour_final) (ascii ''q'') = Some e" "qe_tables e = tour_tables"
  have t: "parent_of tour_tables (ascii ''t'') = Some (ascii ''u'')"
    by (simp add: parent_of_def placement_row_def tour_tables_def ascii_def)
  have "live_node tour_tables (ascii ''t'')"
    by (simp add: live_node_def workNode_def tour_contents) (simp add: tour_claimed_def tour_added_def new_item_def)
  from hierarchy_is_a_forest [OF tour_reachable(3) e(1), unfolded e(2), OF this] t show ?thesis by blast
qed

text \<open>
  Removing a subtree leaves nothing of it: afterwards the group is a tombstone, and no task or group that is
  left has it among the groups above.
\<close>

theorem removed_subtree_is_gone:
  assumes "remove_subtree env queue i reviewed s = Inr (r, u)" and "work_ok (ws_tables s)" "forest_ok (ws_tables s)"
    and "live_node (ws_tables u) x"
  shows "(x, i) \<notin> {(a, b). parent_of (ws_tables u) a = Some b}\<^sup>*"
proof
  have gone: "forest_ok (ws_tables u)" "gone_node (ws_tables u) i"
    using remove_subtree_keeps [OF assms(1-3)] by (simp_all add: hierarchy_keeps_def)
  assume "(x, i) \<in> {(a, b). parent_of (ws_tables u) a = Some b}\<^sup>*"
  then have "live_node (ws_tables u) i"
    using assms(4)
  proof (induction rule: converse_rtrancl_induct)
    case (step a b)
    then have "live_group (ws_tables u) b" using forest_okD(7) [OF gone(1)] by blast
    then show ?case using step live_group_node [OF gone(1)] by blast
  qed
  then show False using gone_not_live [OF gone(2)] by blast
qed

section \<open>Receipts and revisions\<close>

lemma receipt_kept: "receipt_of rs m = Some r \<Longrightarrow> receipt_of (rs @ new) m = Some r"
  unfolding receipt_of_def by (induction rs) (auto split: if_splits)

lemma receipt_new: "receipt_of rs m = None \<Longrightarrow> rc_mutationId r = m \<Longrightarrow> receipt_of (rs @ [r]) m = Some r"
  unfolding receipt_of_def by (induction rs) (auto split: if_splits)

text \<open>A request that returned has left its receipt under its identity.\<close>

lemma perform_receipt:
  assumes "perform digest store env request = Inr (response, store')"
  obtains e where "js_get (st_queues store') (rq_queueId request) = Some e"
    "receipt_of (qe_receipts e) (rq_mutationId request) = Some (wp_receipt response)"
  using assms
proof (cases rule: perform_run)
  case (written queue s)
  then obtain env' intent x where "wp_receipt response = new_receipt env' request queue intent x" by blast
  then have "receipt_of (stored_receipts store (rq_queueId request) @ [wp_receipt response]) (rq_mutationId request) = Some (wp_receipt response)"
    using receipt_new [OF written(1)] by simp
  then show thesis using that written(6) by simp
qed (use that in simp)

text \<open>
  C10. A request that is repeated finds its receipt. Once a request has returned, any later request with the
  same mutation identity on the same queue, after any other requests and whoever sends it, either is refused
  or has the same intent and is answered with the receipt of the first; it changes nothing and announces no
  facts again.
\<close>

theorem repeated_request_finds_its_receipt:
  assumes "reachable empty_store (store_step digest) store" and "request_valid request"
    and "perform digest store env request = Inr (response, store1)" and "(store_step digest)\<^sup>*\<^sup>* store1 store2"
    and "rq_queueId again = rq_queueId request" "rq_mutationId again = rq_mutationId request"
    and "perform digest store2 env' again = Inr (response', store3)"
  shows "store3 = store2 \<and> wp_receipt response' = wp_receipt response \<and> wp_facts response' = None \<and>
    digest again (wa_actor (en_authority env')) = rc_intent (wp_receipt response)"
proof -
  have "store_ok store1" using perform_keeps [OF assms(3,2) work_stores.always [OF assms(1)]] by blast
  then have "later store1 store2" using path_later [OF assms(4)] by blast
  moreover obtain e where "js_get (st_queues store1) (rq_queueId request) = Some e"
      "receipt_of (qe_receipts e) (rq_mutationId request) = Some (wp_receipt response)"
    by (rule perform_receipt [OF assms(3)])
  ultimately obtain e' where e': "js_get (st_queues store2) (rq_queueId again) = Some e'"
      "receipt_of (qe_receipts e') (rq_mutationId again) = Some (wp_receipt response)"
    unfolding later_def assms(5,6) using receipt_kept by metis
  from assms(7) show ?thesis
  proof (cases rule: perform_run)
    case (replayed e'' prior)
    then show ?thesis using e' by simp
  next
    case (written queue s)
    then show ?thesis using e' by (simp add: stored_receipts_def)
  qed
qed

theorem repeated_request_finds_its_receipt_witness:
  "perform tour_digest tour_opened tour_env tour_create =
     Inr (\<lparr>wp_queue = tour_queue, wp_receipt = tour_receipt, wp_facts = None\<rparr>, tour_opened)"
proof -
  have "\<exists>response store. perform tour_digest tour_opened tour_env tour_create = Inr (response, store) \<and> wp_queue response = tour_queue"
    by (simp add: perform_defs tour_opened_def tour_receipt_def tour_queue_def tour_defs monad_defs valid_defs size_defs Let_def queueAt_def)
  then obtain response store where again: "perform tour_digest tour_opened tour_env tour_create = Inr (response, store)"
    "wp_queue response = tour_queue" by blast
  from repeated_request_finds_its_receipt [OF tour_reachable(1) tour_valid(1) tour_created rtranclp.rtrancl_refl refl refl again(1)]
  show ?thesis using again by (cases response) simp
qed

text \<open>
  C33. A batch is applied only to the revision it was written against. When a mutation returns without a receipt
  of its own being there before, the queue was stored with exactly the revision and the scope generation the
  request expects; afterwards it has the next revision, and its receipts number the revisions from one on,
  without gaps and each with its own mutation identity.
\<close>

theorem write_needs_the_current_revision:
  assumes "reachable empty_store (store_step digest) store" and "request_valid request"
    and "perform digest store env request = Inr (response, store')"
    and "rq_action request = Mutate_Queue generation expected ops"
    and "receipt_of (stored_receipts store (rq_queueId request)) (rq_mutationId request) = None"
  shows "\<exists>e e'. js_get (st_queues store) (rq_queueId request) = Some e \<and> wq_revision (qe_queue e) = expected \<and>
    wsc_generation (wq_scope (qe_queue e)) = generation \<and>
    js_get (st_queues store') (rq_queueId request) = Some e' \<and> wq_revision (qe_queue e') = expected + 1 \<and>
    map rc_revision (qe_receipts e') = map int [1..<length (qe_receipts e') + 1] \<and>
    int (length (qe_receipts e')) = expected + 1 \<and> distinct (map rc_mutationId (qe_receipts e'))"
  using assms(3)
proof (cases rule: perform_run)
  case (replayed e prior)
  then show ?thesis using assms(5) by (simp add: stored_receipts_def)
next
  case (written queue s)
  have "store_ok store'" using perform_keeps [OF assms(3,2) work_stores.always [OF assms(1)]] by blast
  moreover obtain e' where e': "js_get (st_queues store') (rq_queueId request) = Some e'" "qe_queue e' = wp_queue response"
    using written(6) by simp
  ultimately have h: "history_ok (rq_queueId request) (qe_queue e') (qe_receipts e')" unfolding store_ok_def entry_ok_def by blast
  obtain e where e: "js_get (st_queues store) (rq_queueId request) = Some e" "queue = qe_queue e"
    using written(2) assms(4) by (auto simp: worked_on_def split: option.splits)
  have "wq_revision (qe_queue e') = wq_revision queue + 1" using written(5) e'(2) by auto
  then show ?thesis using e e' h written(3,4) assms(4)
    by (intro exI [of _ e] exI [of _ e']) (simp add: history_ok_def expects_def)
qed

theorem write_needs_the_current_revision_witness:
  "\<exists>e'. js_get (st_queues tour_final) (ascii ''q'') = Some e' \<and> wq_revision (qe_queue e') = 2"
proof (rule tour_worked)
  fix response e assume run: "perform tour_digest tour_opened tour_env tour_work = Inr (response, tour_final)"
  have "receipt_of (stored_receipts tour_opened (rq_queueId tour_work)) (rq_mutationId tour_work) = None"
    by (simp add: stored_receipts_def tour_opened_def tour_facts receipt_of_def) (simp add: ascii_def)
  from write_needs_the_current_revision [OF tour_reachable(2) tour_valid(2) run tour_facts(7) this]
  show ?thesis by (auto simp: tour_facts)
qed

end
