(* ===== verification/Spec2Isabelle.thy ===== *)
theory Spec2Isabelle
  imports Budget_Ledger Bounded_Queue Scope_Promises Attempt_Policy Turn_Coordinator Interruption
    Stream_Sequencer Mid_Turn_Service Scheduler_Cycle Scheduler_Queue Scheduler_Scopes
    Child_Authority Task_Promises Canonical_Value Work_Guarantees
begin

text \<open>
  A verification library for Falryn, a coding agent written in TypeScript. It models the runtime core:
  how a turn of the agent runs, how its work is scheduled, cancelled, paid for and delegated, and what
  is known about its effects when it stops. All paths below are under \<^verbatim>\<open>src/src/\<close> of the repository.

  \<^bold>\<open>The program and how its parts interact.\<close> A session runs turns. The turn coordinator moves each turn
  through its state machine and settles it; the attempt policy decides whether a failed model attempt may
  be followed by another; input that arrives during a turn steers it, is queued as a follow-up or
  interrupts it. A turn submits work units to the scheduler, which orders them by dependencies, priority
  and conflict keys. Each unit runs in a scope of the cancellation tree, which carries deadlines and stop
  requests down and effects up, and may reserve from a hierarchical budget ledger. Product tasks reserve
  capacity in a second ledger, shared by the process, and are subdivided among delegated children whose
  authority and edit scope only narrow. Queues and event streams connect the parts. Durable work queues
  hold tasks with dependencies, claims and evidence, ordered in groups; callers change them by requests
  that either commit as one transaction and leave a receipt or change nothing.

  \<^bold>\<open>Theories and sources.\<close>
  \<^item> \<open>Prelude\<close>: JavaScript numbers and maps, the locales \<open>keyed_store\<close> (the laws of a \<open>Map\<close>, interpreted
    on the association lists of the model) and \<open>safety_machine\<close> (an invariant that holds at the start and
    survives every step holds in every reachable state, interpreted for each component).
    \<open>Js_Text\<close>: strings as UTF-16 code units, \<open>trim\<close>, \<open>split\<close>, \<open>join\<close>.
  \<^item> \<open>Foundation\<close> (\<^verbatim>\<open>domain/foundation\<close>): results, identifier codecs, instants, durations, deadlines.
    \<open>Outcome\<close> (\<^verbatim>\<open>domain/orchestration/outcome.ts\<close>, \<^verbatim>\<open>scope.ts\<close>): terminal outcomes and the scale of effect
    certainty with its join.
  \<^item> \<open>Budget_Ledger\<close> (\<^verbatim>\<open>application/orchestration/budget-ledger.ts\<close>): budgets in a tree; reservations and
    consumption stay within every limit, and a child within its parent.
  \<^item> \<open>Bounded_Queue\<close> (\<^verbatim>\<open>application/orchestration/bounded-queue.ts\<close>): overflow policies, waiting producers,
    expiry; accounting of every item, limits, first-in first-out order.
  \<^item> \<open>Scope_Tree\<close>, \<open>Scope_Invariants\<close>, \<open>Scope_Effects\<close>, \<open>Scope_Promises\<close>
    (\<^verbatim>\<open>application/orchestration/scope-tree.ts\<close>): definitions; structural invariants; the account of effects
    through settlement and eviction; the properties.
  \<^item> \<open>Turn_Machine\<close> (\<^verbatim>\<open>domain/sessions/turn-machine.ts\<close>) and \<open>Turn_Coordinator\<close>
    (\<^verbatim>\<open>application/runtime/turn-coordinator.ts\<close>): the machine, and a refinement: the coordinator's history of
    every turn is a run of the machine.
  \<^item> \<open>Attempt_Policy\<close> (\<^verbatim>\<open>domain/sessions/retry.ts\<close>, \<^verbatim>\<open>attempt-policy.ts\<close>, the decision part of
    \<^verbatim>\<open>application/runtime/turn-attempt-policy.ts\<close>): retries, classifications, the action after an attempt.
  \<^item> \<open>Stream_Sequencer\<close> (\<^verbatim>\<open>domain/foundation/sequence.ts\<close>): contiguous, idempotent event streams.
  \<^item> \<open>Interruption\<close> (\<^verbatim>\<open>application/runtime/interruption.ts\<close>): the ladder from a first interrupt to force.
    \<open>Mid_Turn_Input\<close>, \<open>Mid_Turn_Service\<close> (\<^verbatim>\<open>domain/sessions/mid-turn-input.ts\<close>,
    \<^verbatim>\<open>application/runtime/mid-turn-input.ts\<close>): steering, follow-ups, interruption of the active turn.
  \<^item> \<open>Dependency_Graph\<close>, \<open>Work_Units\<close> (\<^verbatim>\<open>domain/orchestration/dependency-graph.ts\<close>, \<^verbatim>\<open>work.ts\<close>): cycle search,
    joins, conflict keys of targets.
  \<^item> \<open>Scheduler\<close> (\<^verbatim>\<open>application/orchestration/scheduler.ts\<close>) models the loop between two waits;
    \<open>Scheduler_Spec\<close> is an abstract machine whose guards count running units, \<open>Scheduler_Refinement\<close> shows
    that every step of the scheduler is a sequence of its steps; \<open>Scheduler_Promises\<close>, \<open>Scheduler_Cycle\<close>,
    \<open>Scheduler_Queue\<close> and \<open>Scheduler_Scopes\<close> hold the properties: limits, dependencies, one result per
    unit, the cycle check, the queue bounds, the effects reported to scopes.
  \<^item> \<open>Edit_Scope\<close> (\<^verbatim>\<open>domain/orchestration/edit-scope.ts\<close>): patterns of workspace paths; normalization,
    containment, narrowing, overlap, the check of writes. \<open>Child_Authority\<close>
    (\<^verbatim>\<open>domain/orchestration/child-admission.ts\<close> and the guard of \<^verbatim>\<open>application/orchestration/child-admission.ts\<close>):
    the locale \<open>delegation\<close> states what one narrowing must keep, its interpretation on the code's narrowing
    gives the property for chains of any length.
  \<^item> \<open>Resource_Admission\<close>, \<open>Resource_Ledger\<close> (\<^verbatim>\<open>domain/orchestration/resource-admission.ts\<close>,
    \<^verbatim>\<open>application/orchestration/resource-ledger.ts\<close>): the capacity ledger with its aliases;
    \<open>Resource_Accounting\<close> proves its invariant (aliases never cycle, each kept reservation is covered by the
    use of its buckets), \<open>Resource_Promises\<close> the properties. \<open>Resource_Lifetime\<close>
    (\<^verbatim>\<open>resource-lifetime.ts\<close>) and \<open>Task_Resources\<close> (\<^verbatim>\<open>product-resources.ts\<close>) build on them: a task and its
    children as a tree, the debits of an operation on every ancestor; \<open>Task_Promises\<close> composes them with the
    ledger's guarantees. \<open>Canonical_Value\<close> (with \<open>Js_Points\<close>, the code points of strings and their size in
    UTF-8) models \<open>canonicalResourceValue\<close> and shows that the text the ledger uses as key identifies a scope
    and does not depend on the order of fields.
  \<^item> Work queues. \<open>Work_Store\<close> (\<^verbatim>\<open>domain/orchestration/work-queue.ts\<close>, the tables of
    \<^verbatim>\<open>data/orchestration/work-queue-store.ts\<close>): records, schemas, sizes, refusals, and the transaction as a
    state that a refusal discards. \<open>Work_Items\<close> (\<^verbatim>\<open>domain/orchestration/work-queue-mutations.ts\<close>): the
    mutations of tasks. \<open>Work_Order\<close>, \<open>Work_Hierarchy\<close> (\<^verbatim>\<open>domain/orchestration/work-hierarchy.ts\<close>): order keys,
    groups, placements, removals. \<open>Work_Actions\<close> (the write path of
    \<^verbatim>\<open>application/orchestration/work-queues.ts\<close>): authority, batches, receipts, replays. \<open>Work_Invariants\<close>
    states what holds of tasks and dependencies and \<open>Work_Preservation\<close> shows that every mutation keeps it;
    \<open>Work_Forest\<close>, \<open>Work_Moves\<close> and \<open>Work_Groups\<close> do so for the hierarchy; \<open>Work_Fuel\<close> and \<open>Work_Budget\<close> bound
    the loops by the step budget; \<open>Work_Promises\<close> puts the parts together for whole requests and interprets
    \<open>safety_machine\<close> on the store; \<open>Work_Example\<close> runs two requests; \<open>Work_Guarantees\<close> holds the properties.

  \<^bold>\<open>How code becomes definitions.\<close> A closure's variables are the fields of a record; each method is a
  function from the record to an answer and a new record; raised errors and error results are values. A
  \<open>Map\<close> is an association list in insertion order. Asynchronous code is cut at its waits: what happens
  between two waits is one function, and the step relation of a component lets any caller's method, timer
  or settled promise come next. Clock readings, random identifiers and digests are arguments. Integers
  that the code keeps safe are \<open>int\<close> with the test for safe integers written out.

  \<^bold>\<open>Fuel and bounds.\<close> Loops that need fuel get a bound that is shown to be enough: following aliases takes
  one round per alias; the recursive cycle check as many levels as units plus two; a scheduling segment
  one loop turn more than the generation has units; a lineage of children as many steps as the greatest
  depth; the loops of a work-queue transaction a few rounds more than its budget of steps, whatever that is,
  and the walk to the root one more than the depth limit, with running out of fuel as an answer of its own
  that no request gives; the iterative cycle search is a \<open>partial_function\<close> shown to
  return on finite graphs. The theorems on
  the scheduler's limits assume limits as the product sets them (\<open>sane_limits\<close>: no negative reserve).

  \<^bold>\<open>Not modelled.\<close> Terminal interface and command line (rendering and argument plumbing); persistence
  (SQLite stores, but for the tables of the work queues); providers and network transports (third-party protocols and I/O); tools that act on
  files, processes and language servers; configuration documents; diagnostics; memory, compression and
  documents. Within the core: timers and the system clock, the promise race by which a task publishes
  early results, the handles of admitted children, and the provider-facing part of the attempt loop.
  \<open>AbortController.abort\<close> runs its listeners at once (an idle admitted child acknowledges its cancellation
  there) and the scheduler calls a unit's runner inside \<open>start\<close>; in the model an abort sets a flag and a
  started unit is running, and what listeners and runners call back are steps of their own; the properties
  of the tree are invariants of all such steps and fix no exact state that an abort leaves behind. Of the
  work queues: the actions that only read, \<open>execute\<close> (parsing, the search for secrets, the size of a
  response, the observer), the digests and version tables by which the store
  notices edits from outside, and the checks of columns; these can only refuse. The digest that names a
  request's intent is an arbitrary function.
  Planned next: delegation services, workflow execution, network address policy.
\<close>

end
